(* ===== verification/Prelude.thy ===== *)
theory Prelude
  imports Main "HOL-Library.Word" "HOL-Library.Signed_Division" "HOL-Library.Monad_Syntax"
begin

text \<open>
  Shared vocabulary of the development: the C integer conversions and the truncating C
  remainder on \<^typ>\<open>int\<close>, pointers, octets, and the generic lemmas the component
  theories use. A definition whose result type is an \<open>option\<close> uses \<^term>\<open>None\<close> for a run
  that the program does not survive: a NULL dereference, an access outside an array, a
  division by zero, or a failed \<open>assert\<close> / \<open>AssertFatal\<close>.
\<close>

unbundle bit_operations_syntax

named_theorems conv_simps "C integer conversions on values already in range"
named_theorems rep_simps "unfolding of representation predicates"

section \<open>Types\<close>

type_synonym octet = "8 word"
type_synonym ptr = "nat option"

abbreviation NULL :: ptr where "NULL \<equiv> None"

section \<open>Integer conversions\<close>

text \<open>Conversion to \<open>uint16_t\<close>, \<open>uint32_t\<close> and \<open>int16_t\<close>, and the C operator \<open>%\<close>.\<close>

definition u8 :: "int \<Rightarrow> int" where
  "u8 x = x mod 256"

definition u16 :: "int \<Rightarrow> int" where
  "u16 x = x mod 65536"

definition u32 :: "int \<Rightarrow> int" where
  "u32 x = x mod 4294967296"

definition s16 :: "int \<Rightarrow> int" where
  "s16 x = (x + 32768) mod 65536 - 32768"

definition c_mod :: "int \<Rightarrow> int \<Rightarrow> int" where
  "c_mod a b = a smod b"

lemma u8_id [conv_simps]: "0 \<le> x \<Longrightarrow> x < 256 \<Longrightarrow> u8 x = x"
  by (simp add: u8_def)

lemma u16_id [conv_simps]: "0 \<le> x \<Longrightarrow> x < 65536 \<Longrightarrow> u16 x = x"
  by (simp add: u16_def)

lemma u32_id [conv_simps]: "0 \<le> x \<Longrightarrow> x < 4294967296 \<Longrightarrow> u32 x = x"
  by (simp add: u32_def)

lemma s16_id [conv_simps]: "- 32768 \<le> x \<Longrightarrow> x < 32768 \<Longrightarrow> s16 x = x"
  by (simp add: s16_def)

lemma u16_range [simp]: "0 \<le> u16 x" "u16 x < 65536"
  by (simp_all add: u16_def)

lemma u32_range [simp]: "0 \<le> u32 x" "u32 x < 4294967296"
  by (simp_all add: u32_def)

lemma s16_range: "- 32768 \<le> s16 x" "s16 x < 32768"
proof -
  have "0 \<le> (x + 32768) mod 65536" "(x + 32768) mod 65536 < 65536"
    by simp_all
  then show "- 32768 \<le> s16 x" "s16 x < 32768"
    by (simp_all add: s16_def)
qed

lemma c_mod_nonneg: "0 \<le> a \<Longrightarrow> 0 < b \<Longrightarrow> c_mod a b = a mod b"
  by (cases "a = 0") (simp_all add: c_mod_def signed_modulo_int_def signed_divide_int_def minus_div_mult_eq_mod)

lemma c_mod_neg: "a < 0 \<Longrightarrow> 0 < b \<Longrightarrow> c_mod a b = - ((- a) mod b)"
  by (simp add: c_mod_def signed_modulo_int_def signed_divide_int_def minus_div_mult_eq_mod [symmetric])

lemma c_mod_small_neg [conv_simps]: "a < 0 \<Longrightarrow> - b < a \<Longrightarrow> c_mod a b = a"
  by (cases "0 < b") (simp_all add: c_mod_neg)

lemma c_mod_small [conv_simps]: "0 \<le> a \<Longrightarrow> a < b \<Longrightarrow> c_mod a b = a"
  by (simp add: c_mod_nonneg)

section \<open>Lists\<close>


lemma sum_list_update_nat:
  fixes xs :: "nat list"
  shows "i < length xs \<Longrightarrow> sum_list (xs[i := y]) + xs ! i = sum_list xs + y"
  by (induction xs arbitrary: i) (auto split: nat.splits)

lemma in_concat_nth: "x \<in> set (concat xss) \<longleftrightarrow> (\<exists>h < length xss. x \<in> set (xss ! h))"
  by (auto simp: set_conv_nth [of xss])

text \<open>\<open>memcpy\<close> or \<open>memset\<close> into a buffer; a write behind its end is a fault.\<close>

definition write_at :: "nat \<Rightarrow> octet list \<Rightarrow> octet list \<Rightarrow> octet list option" where
  "write_at i bs buf =
     (if i + length bs \<le> length buf then Some (take i buf @ bs @ drop (i + length bs) buf) else None)"

lemma write_at_mid: "length ys = length bs \<Longrightarrow> write_at (length xs) bs (xs @ ys @ zs) = Some (xs @ bs @ zs)"
  by (simp add: write_at_def)

lemma write_at_split:
  assumes "length xs = i" "length bs \<le> length ys"
  shows "write_at i bs (xs @ ys) = Some (xs @ bs @ drop (length bs) ys)"
  using assms write_at_mid [of "take (length bs) ys" bs xs "drop (length bs) ys"] by simp

end
