(* ===== verification/Hashtable.thy ===== *)
theory Hashtable
  imports Prelude "HOL-Library.Multiset"
begin

text \<open>
  The chained hash table of \<open>common/utils/hashtable/hashtable.c\<close>, the container in which the
  PDCP and RLC layers keep their entities. A bucket is the list of its nodes, head first. Data
  are opaque values, \<^term>\<open>None\<close> being the NULL pointer. The call-back \<open>freefunc\<close> is not under
  the control of the table: the model records, in order, which value was handed to which function
  (field \<open>freed\<close>). The results of \<open>malloc\<close> and \<open>calloc\<close> and the contents of memory that
  \<open>malloc\<close> returns are arguments.
\<close>

section \<open>Data\<close>

datatype hashtable_rc =
    HASH_TABLE_OK
  | HASH_TABLE_INSERT_OVERWRITTEN_DATA
  | HASH_TABLE_KEY_NOT_EXISTS
  | HASH_TABLE_KEY_ALREADY_EXISTS
  | HASH_TABLE_BAD_PARAMETER_HASHTABLE
  | HASH_TABLE_SYSTEM_ERROR
  | RC_MINUS_1 \<comment> \<open>the literal \<open>return -1\<close> after a failed allocation\<close>

type_synonym hash_key = "64 word"
type_synonym hash_size = nat

datatype free_fun = LibcFree | UserFree nat

record 'd hash_node =
  key :: hash_key
  data :: "'d option"

record 'd hash_table =
  size :: hash_size
  num_elements :: "64 word"
  nodes :: "'d hash_node list list"
  hashfunc :: "hash_key \<Rightarrow> 64 word"
  freefunc :: free_fun
  freed :: "(free_fun \<times> 'd) list"

section \<open>Operations\<close>

fun hashtable_rc_code2string :: "hashtable_rc \<Rightarrow> string" where
  "hashtable_rc_code2string HASH_TABLE_OK = ''HASH_TABLE_OK''"
| "hashtable_rc_code2string HASH_TABLE_INSERT_OVERWRITTEN_DATA = ''HASH_TABLE_INSERT_OVERWRITTEN_DATA''"
| "hashtable_rc_code2string HASH_TABLE_KEY_NOT_EXISTS = ''HASH_TABLE_KEY_NOT_EXISTS''"
| "hashtable_rc_code2string HASH_TABLE_KEY_ALREADY_EXISTS = ''HASH_TABLE_KEY_ALREADY_EXISTS''"
| "hashtable_rc_code2string HASH_TABLE_BAD_PARAMETER_HASHTABLE = ''HASH_TABLE_BAD_PARAMETER_HASHTABLE''"
| "hashtable_rc_code2string _ = ''UNKNOWN hashtable_rc_t''"

definition def_hashfunc :: "hash_key \<Rightarrow> 64 word" where
  "def_hashfunc k = k"

text \<open>
  \<open>hashtable_create\<close> does not write \<open>num_elements\<close> of the block that \<open>malloc\<close> returned:
  \<open>junk\<close> is what the block contained.
\<close>

definition hashtable_create ::
  "bool \<Rightarrow> bool \<Rightarrow> 64 word \<Rightarrow> hash_size \<Rightarrow> (hash_key \<Rightarrow> 64 word) option \<Rightarrow> free_fun option
    \<Rightarrow> 'd hash_table option" where
  "hashtable_create malloc_ok calloc_ok junk sizeP hashfuncP freefuncP =
     (if \<not> malloc_ok then None
      else if \<not> calloc_ok then None
      else Some \<lparr> size = sizeP, num_elements = junk, nodes = replicate sizeP [],
                  hashfunc = (case hashfuncP of Some f \<Rightarrow> f | None \<Rightarrow> def_hashfunc),
                  freefunc = (case freefuncP of Some f \<Rightarrow> f | None \<Rightarrow> LibcFree),
                  freed = [] \<rparr>)"

text \<open>The call \<open>if (data) freefunc(data)\<close>.\<close>

definition call_free :: "free_fun \<Rightarrow> 'd option \<Rightarrow> (free_fun \<times> 'd) list" where
  "call_free f d = (case d of None \<Rightarrow> [] | Some x \<Rightarrow> [(f, x)])"

text \<open>
  \<open>hashtable_destroy\<close>: what is handed to \<open>freefunc\<close> while the table itself goes away; the
  node and table blocks are returned to the C library.
\<close>

definition hashtable_destroy ::
  "'d hash_table option \<Rightarrow> hashtable_rc \<times> (free_fun \<times> 'd) list" where
  "hashtable_destroy tbl =
     (case tbl of
        None \<Rightarrow> (HASH_TABLE_BAD_PARAMETER_HASHTABLE, [])
      | Some t \<Rightarrow>
          (HASH_TABLE_OK,
           freed t @ concat (map (\<lambda>node. call_free (freefunc t) (data node)) (concat (nodes t)))))"

text \<open>The slot of a key; \<open>% size\<close> traps when the size is zero.\<close>

definition hash_of :: "'d hash_table \<Rightarrow> hash_key \<Rightarrow> nat option" where
  "hash_of t k =
     (if size t = 0 then None else Some (unat (hashfunc t k) mod size t))"

text \<open>The search loop \<open>while (node)\<close> over one bucket.\<close>

fun chain_find :: "hash_key \<Rightarrow> 'd hash_node list \<Rightarrow> 'd hash_node option" where
  "chain_find k [] = None"
| "chain_find k (node # rest) = (if key node = k then Some node else chain_find k rest)"

definition hashtable_is_key_exists ::
  "'d hash_table option \<Rightarrow> hash_key \<Rightarrow> hashtable_rc option" where
  "hashtable_is_key_exists tbl k =
     (case tbl of
        None \<Rightarrow> Some HASH_TABLE_BAD_PARAMETER_HASHTABLE
      | Some t \<Rightarrow> do {
          h \<leftarrow> hash_of t k;
          Some (case chain_find k (nodes t ! h) of
                  Some _ \<Rightarrow> HASH_TABLE_OK
                | None \<Rightarrow> HASH_TABLE_KEY_NOT_EXISTS) })"

text \<open>
  \<open>hashtable_apply_funct_on_elements\<close> returns the calls of \<open>functP\<close> in order. The counter
  \<open>n\<close> of visited nodes is compared with \<open>num_elements\<close> before each bucket.
\<close>

fun apply_buckets :: "nat \<Rightarrow> nat \<Rightarrow> 'd hash_node list list \<Rightarrow> (hash_key \<times> 'd option) list" where
  "apply_buckets limit n [] = []"
| "apply_buckets limit n (b # bs) =
     (if n < limit
      then map (\<lambda>node. (key node, data node)) b @ apply_buckets limit (n + length b) bs
      else [])"

definition hashtable_apply_funct_on_elements ::
  "'d hash_table option \<Rightarrow> hashtable_rc \<times> (hash_key \<times> 'd option) list" where
  "hashtable_apply_funct_on_elements tbl =
     (case tbl of
        None \<Rightarrow> (HASH_TABLE_BAD_PARAMETER_HASHTABLE, [])
      | Some t \<Rightarrow> (HASH_TABLE_OK, apply_buckets (unat (num_elements t)) 0 (nodes t)))"

text \<open>Overwriting the data of the first node that has the key.\<close>

fun chain_overwrite :: "hash_key \<Rightarrow> 'd option \<Rightarrow> 'd hash_node list \<Rightarrow> 'd hash_node list" where
  "chain_overwrite k d [] = []"
| "chain_overwrite k d (node # rest) =
     (if key node = k then node\<lparr>data := d\<rparr> # rest else node # chain_overwrite k d rest)"

definition hashtable_insert ::
  "bool \<Rightarrow> 'd hash_table option \<Rightarrow> hash_key \<Rightarrow> 'd option
    \<Rightarrow> (hashtable_rc \<times> 'd hash_table option) option" where
  "hashtable_insert malloc_ok tbl k d =
     (case tbl of
        None \<Rightarrow> Some (HASH_TABLE_BAD_PARAMETER_HASHTABLE, None)
      | Some t \<Rightarrow> do {
          h \<leftarrow> hash_of t k;
          (case chain_find k (nodes t ! h) of
             Some node \<Rightarrow>
               Some (HASH_TABLE_INSERT_OVERWRITTEN_DATA,
                     Some (t\<lparr>nodes := (nodes t)[h := chain_overwrite k d (nodes t ! h)],
                             freed := freed t @ call_free (freefunc t) (data node)\<rparr>))
           | None \<Rightarrow>
               if \<not> malloc_ok then Some (RC_MINUS_1, Some t)
               else Some (HASH_TABLE_OK,
                     Some (t\<lparr>nodes := (nodes t)[h := \<lparr>key = k, data = d\<rparr> # nodes t ! h],
                             num_elements := num_elements t + 1\<rparr>))) })"

fun chain_remove :: "hash_key \<Rightarrow> 'd hash_node list \<Rightarrow> 'd hash_node list" where
  "chain_remove k [] = []"
| "chain_remove k (node # rest) = (if key node = k then rest else node # chain_remove k rest)"

definition hashtable_remove ::
  "'d hash_table option \<Rightarrow> hash_key \<Rightarrow> (hashtable_rc \<times> 'd hash_table option) option" where
  "hashtable_remove tbl k =
     (case tbl of
        None \<Rightarrow> Some (HASH_TABLE_BAD_PARAMETER_HASHTABLE, None)
      | Some t \<Rightarrow> do {
          h \<leftarrow> hash_of t k;
          (case chain_find k (nodes t ! h) of
             Some node \<Rightarrow>
               Some (HASH_TABLE_OK,
                     Some (t\<lparr>nodes := (nodes t)[h := chain_remove k (nodes t ! h)],
                             freed := freed t @ call_free (freefunc t) (data node),
                             num_elements := num_elements t - 1\<rparr>))
           | None \<Rightarrow> Some (HASH_TABLE_KEY_NOT_EXISTS, Some t)) })"

text \<open>\<open>hashtable_get\<close>: the return code and the value stored through \<open>dataP\<close>.\<close>

definition hashtable_get ::
  "'d hash_table option \<Rightarrow> hash_key \<Rightarrow> (hashtable_rc \<times> 'd option) option" where
  "hashtable_get tbl k =
     (case tbl of
        None \<Rightarrow> Some (HASH_TABLE_BAD_PARAMETER_HASHTABLE, None)
      | Some t \<Rightarrow> do {
          h \<leftarrow> hash_of t k;
          Some (case chain_find k (nodes t ! h) of
                  Some node \<Rightarrow> (HASH_TABLE_OK, data node)
                | None \<Rightarrow> (HASH_TABLE_KEY_NOT_EXISTS, None)) })"

text \<open>
  \<open>hashtable_resize\<close>: every node is inserted into \<open>newtbl\<close> and removed from the old table, which
  hands its data to \<open>freefunc\<close>. The fields \<open>num_elements\<close> and \<open>freefunc\<close> of the automatic
  variable \<open>newtbl\<close> are never initialised (\<open>junk_num\<close>, \<open>junk_free\<close>). \<open>mok k\<close> is the result of
  the allocation of the new node of key \<open>k\<close>. The inner loop runs over the bucket as it was when
  the loop reached it.
\<close>

fun resize_chain ::
  "(hash_key \<Rightarrow> bool) \<Rightarrow> 'd hash_node list \<Rightarrow> 'd hash_table \<times> 'd hash_table
    \<Rightarrow> ('d hash_table \<times> 'd hash_table) option" where
  "resize_chain mok [] (newt, old) = Some (newt, old)"
| "resize_chain mok (node # rest) (newt, old) = do {
     (_, newt') \<leftarrow> hashtable_insert (mok (key node)) (Some newt) (key node) (data node);
     (_, old') \<leftarrow> hashtable_remove (Some old) (key node);
     newt'' \<leftarrow> newt';
     old'' \<leftarrow> old';
     resize_chain mok rest (newt'', old'') }"

fun resize_buckets ::
  "(hash_key \<Rightarrow> bool) \<Rightarrow> nat list \<Rightarrow> 'd hash_table \<times> 'd hash_table
    \<Rightarrow> ('d hash_table \<times> 'd hash_table) option" where
  "resize_buckets mok [] (newt, old) = Some (newt, old)"
| "resize_buckets mok (n # ns) (newt, old) = do {
     p \<leftarrow> resize_chain mok (nodes old ! n) (newt, old);
     resize_buckets mok ns p }"

definition hashtable_resize ::
  "bool \<Rightarrow> (hash_key \<Rightarrow> bool) \<Rightarrow> 64 word \<Rightarrow> free_fun \<Rightarrow> 'd hash_table option \<Rightarrow> hash_size
    \<Rightarrow> (hashtable_rc \<times> 'd hash_table option) option" where
  "hashtable_resize calloc_ok mok junk_num junk_free tbl sizeP =
     (case tbl of
        None \<Rightarrow> Some (HASH_TABLE_BAD_PARAMETER_HASHTABLE, None)
      | Some t \<Rightarrow>
          if \<not> calloc_ok then Some (RC_MINUS_1, Some t)
          else do {
            (newt, old) \<leftarrow> resize_buckets mok [0..<size t]
               (\<lparr> size = sizeP, num_elements = junk_num, nodes = replicate sizeP [],
                  hashfunc = hashfunc t, freefunc = junk_free, freed = [] \<rparr>, t);
            Some (HASH_TABLE_OK,
                  Some (old\<lparr>size := size newt, nodes := nodes newt, freed := freed old @ freed newt\<rparr>)) })"

section \<open>Well-formed tables and their abstraction to a map\<close>

definition ht_slot :: "'d hash_table \<Rightarrow> hash_key \<Rightarrow> nat" where
  "ht_slot t k = unat (hashfunc t k) mod size t"

definition ht_wf :: "'d hash_table \<Rightarrow> bool" where
  "ht_wf t \<longleftrightarrow> 0 < size t \<and> length (nodes t) = size t \<and>
     (\<forall>h < size t. distinct (map key (nodes t ! h)) \<and>
                   (\<forall>node \<in> set (nodes t ! h). ht_slot t (key node) = h))"

definition ht_lookup :: "'d hash_table \<Rightarrow> hash_key \<Rightarrow> 'd option option" where
  "ht_lookup t k = map_option data (chain_find k (nodes t ! ht_slot t k))"

definition ht_counted :: "'d hash_table \<Rightarrow> bool" where
  "ht_counted t \<longleftrightarrow> num_elements t = of_nat (length (concat (nodes t)))"

lemma ht_slot_less: "ht_wf t \<Longrightarrow> ht_slot t k < size t"
  by (simp add: ht_wf_def ht_slot_def)

lemma hash_of_wf: "ht_wf t \<Longrightarrow> hash_of t k = Some (ht_slot t k)"
  by (simp add: ht_wf_def hash_of_def ht_slot_def)

lemma ht_wf_bucket:
  "ht_wf t \<Longrightarrow> h < size t \<Longrightarrow> distinct (map key (nodes t ! h))"
  "ht_wf t \<Longrightarrow> h < size t \<Longrightarrow> node \<in> set (nodes t ! h) \<Longrightarrow> ht_slot t (key node) = h"
  by (simp_all add: ht_wf_def)

subsection \<open>Chains\<close>

lemma chain_find_None_iff: "chain_find k c = None \<longleftrightarrow> k \<notin> key ` set c"
  by (induction c) auto

lemma chain_find_SomeD: "chain_find k c = Some node \<Longrightarrow> key node = k \<and> node \<in> set c"
  by (induction c) (auto split: if_splits)

lemma chain_find_Some_iff:
  "distinct (map key c) \<Longrightarrow> chain_find k c = Some node \<longleftrightarrow> node \<in> set c \<and> key node = k"
  by (induction c) auto

lemma chain_overwrite_keys [simp]: "map key (chain_overwrite k d c) = map key c"
  by (induction c) auto

lemma chain_overwrite_length [simp]: "length (chain_overwrite k d c) = length c"
  by (induction c) auto

lemma chain_find_overwrite:
  "chain_find k' (chain_overwrite k d c) =
     (if k' = k then map_option (data_update (\<lambda>_. d)) (chain_find k c) else chain_find k' c)"
  by (induction c) auto

lemma chain_overwrite_key_in:
  "node \<in> set (chain_overwrite k d c) \<Longrightarrow> \<exists>node' \<in> set c. key node' = key node"
  by (induction c) (auto split: if_splits)

lemma chain_remove_subset: "set (chain_remove k c) \<subseteq> set c"
  by (induction c) auto

lemma chain_remove_distinct: "distinct (map key c) \<Longrightarrow> distinct (map key (chain_remove k c))"
proof (induction c)
  case Nil
  then show ?case by simp
next
  case (Cons node c)
  then show ?case using chain_remove_subset [of k c] by auto
qed

lemma chain_find_remove:
  "distinct (map key c) \<Longrightarrow>
     chain_find k' (chain_remove k c) = (if k' = k then None else chain_find k' c)"
  by (induction c) (auto simp: chain_find_None_iff)

lemma chain_remove_length:
  "chain_find k c \<noteq> None \<Longrightarrow> length c = Suc (length (chain_remove k c))"
  by (induction c) (auto split: if_splits)

subsection \<open>Replacing one bucket\<close>

lemma length_concat_update:
  "h < length bs \<Longrightarrow> length (concat (bs[h := c])) + length (bs ! h) = length (concat bs) + length c"
  using sum_list_update_nat [of h "map length bs" "length c"]
  by (simp add: length_concat map_update)

lemma ht_wf_replace_bucket:
  assumes "ht_wf t" "h < size t" "distinct (map key c)"
    and "\<And>node. node \<in> set c \<Longrightarrow> ht_slot t (key node) = h"
    and "size t' = size t" "hashfunc t' = hashfunc t" "nodes t' = (nodes t)[h := c]"
  shows "ht_wf t'"
  using assms by (auto simp: ht_wf_def ht_slot_def nth_list_update)

lemma ht_lookup_replace_bucket:
  assumes "ht_wf t" "size t' = size t" "hashfunc t' = hashfunc t"
    and "nodes t' = (nodes t)[ht_slot t k := c]"
    and "\<And>k'. ht_slot t k' = ht_slot t k \<Longrightarrow> k' \<noteq> k \<Longrightarrow> chain_find k' c = chain_find k' (nodes t ! ht_slot t k)"
  shows "ht_lookup t' k' = (if k' = k then map_option data (chain_find k c) else ht_lookup t k')"
proof -
  have slot: "ht_slot t' k' = ht_slot t k'"
    using assms(2,3) by (simp add: ht_slot_def)
  have len: "ht_slot t k < length (nodes t)"
    using assms(1) ht_slot_less [of t k] by (simp add: ht_wf_def)
  show ?thesis
    using assms(4,5) slot len by (cases "ht_slot t k' = ht_slot t k") (auto simp: ht_lookup_def)
qed

section \<open>Functional behaviour of the operations on well-formed tables\<close>

lemma hashtable_get_wf:
  "ht_wf t \<Longrightarrow> hashtable_get (Some t) k =
     Some (case ht_lookup t k of
             Some d \<Rightarrow> (HASH_TABLE_OK, d)
           | None \<Rightarrow> (HASH_TABLE_KEY_NOT_EXISTS, None))"
  by (simp add: hashtable_get_def hash_of_wf ht_lookup_def split: option.splits)

lemma hashtable_is_key_exists_wf:
  "ht_wf t \<Longrightarrow> hashtable_is_key_exists (Some t) k =
     Some (if ht_lookup t k = None then HASH_TABLE_KEY_NOT_EXISTS else HASH_TABLE_OK)"
  by (simp add: hashtable_is_key_exists_def hash_of_wf ht_lookup_def split: option.splits)

lemma hashtable_insert_new:
  assumes wf: "ht_wf t" and new: "ht_lookup t k = None"
    and ins: "hashtable_insert True (Some t) k d = Some (rc, Some t')"
  shows "rc = HASH_TABLE_OK" "ht_wf t'" "ht_lookup t' = (ht_lookup t)(k := Some d)"
    "ht_counted t \<Longrightarrow> ht_counted t'" "freed t' = freed t" "freefunc t' = freefunc t"
    "size t' = size t" "hashfunc t' = hashfunc t"
proof -
  let ?h = "ht_slot t k" and ?node = "\<lparr>key = k, data = d\<rparr>"
  have none: "chain_find k (nodes t ! ?h) = None"
    using new by (simp add: ht_lookup_def)
  have t': "rc = HASH_TABLE_OK"
    "t' = t\<lparr>nodes := (nodes t)[?h := ?node # nodes t ! ?h], num_elements := num_elements t + 1\<rparr>"
    using ins none by (auto simp: hashtable_insert_def hash_of_wf [OF wf])
  have h: "?h < size t" "?h < length (nodes t)"
    using ht_slot_less [OF wf] wf by (simp_all add: ht_wf_def)
  show "rc = HASH_TABLE_OK" by (rule t')
  show "ht_wf t'"
    by (rule ht_wf_replace_bucket [OF wf h(1), of "?node # nodes t ! ?h"])
      (use t' none ht_wf_bucket [OF wf h(1)] in \<open>auto simp: chain_find_None_iff\<close>)
  show "ht_lookup t' = (ht_lookup t)(k := Some d)"
    by (rule ext, subst ht_lookup_replace_bucket [OF wf, where c = "?node # nodes t ! ?h" and k = k])
      (use t' in auto)
  show "freed t' = freed t" "freefunc t' = freefunc t" "size t' = size t" "hashfunc t' = hashfunc t"
    by (simp_all add: t')
  assume "ht_counted t"
  then show "ht_counted t'"
    using length_concat_update [OF h(2), of "?node # nodes t ! ?h"]
    by (simp add: ht_counted_def t')
qed

lemma hashtable_insert_overwrite:
  assumes wf: "ht_wf t" and old: "ht_lookup t k = Some d0"
    and ins: "hashtable_insert ok (Some t) k d = Some (rc, Some t')"
  shows "rc = HASH_TABLE_INSERT_OVERWRITTEN_DATA" "ht_wf t'"
    "ht_lookup t' = (ht_lookup t)(k := Some d)" "ht_counted t \<Longrightarrow> ht_counted t'"
    "freed t' = freed t @ call_free (freefunc t) d0" "freefunc t' = freefunc t"
proof -
  let ?h = "ht_slot t k"
  obtain node where node: "chain_find k (nodes t ! ?h) = Some node" "data node = d0"
    using old by (auto simp: ht_lookup_def)
  have t': "rc = HASH_TABLE_INSERT_OVERWRITTEN_DATA"
    "t' = t\<lparr>nodes := (nodes t)[?h := chain_overwrite k d (nodes t ! ?h)],
            freed := freed t @ call_free (freefunc t) d0\<rparr>"
    using ins node by (auto simp: hashtable_insert_def hash_of_wf [OF wf])
  have h: "?h < size t" "?h < length (nodes t)"
    using ht_slot_less [OF wf] wf by (simp_all add: ht_wf_def)
  show "rc = HASH_TABLE_INSERT_OVERWRITTEN_DATA" by (rule t')
  show "ht_wf t'"
    by (rule ht_wf_replace_bucket [OF wf h(1), of "chain_overwrite k d (nodes t ! ?h)"])
      (use t' ht_wf_bucket [OF wf h(1)] in \<open>force dest: chain_overwrite_key_in\<close>)+
  show "ht_lookup t' = (ht_lookup t)(k := Some d)"
    by (rule ext, subst ht_lookup_replace_bucket [OF wf, where c = "chain_overwrite k d (nodes t ! ?h)" and k = k])
      (use t' node in \<open>auto simp: chain_find_overwrite\<close>)
  show "freed t' = freed t @ call_free (freefunc t) d0" "freefunc t' = freefunc t"
    by (simp_all add: t')
  assume "ht_counted t"
  then show "ht_counted t'"
    using length_concat_update [OF h(2), of "chain_overwrite k d (nodes t ! ?h)"]
    by (simp add: ht_counted_def t')
qed

lemma hashtable_remove_found:
  assumes wf: "ht_wf t" and old: "ht_lookup t k = Some d0"
    and rem: "hashtable_remove (Some t) k = Some (rc, Some t')"
  shows "rc = HASH_TABLE_OK" "ht_wf t'" "ht_lookup t' = (ht_lookup t)(k := None)"
    "ht_counted t \<Longrightarrow> ht_counted t'" "freed t' = freed t @ call_free (freefunc t) d0"
    "freefunc t' = freefunc t" "size t' = size t" "hashfunc t' = hashfunc t"
    "nodes t' = (nodes t)[ht_slot t k := chain_remove k (nodes t ! ht_slot t k)]"
    "num_elements t' = num_elements t - 1"
proof -
  let ?h = "ht_slot t k"
  obtain node where node: "chain_find k (nodes t ! ?h) = Some node" "data node = d0"
    using old by (auto simp: ht_lookup_def)
  have t': "rc = HASH_TABLE_OK"
    "t' = t\<lparr>nodes := (nodes t)[?h := chain_remove k (nodes t ! ?h)],
            freed := freed t @ call_free (freefunc t) d0, num_elements := num_elements t - 1\<rparr>"
    using rem node by (auto simp: hashtable_remove_def hash_of_wf [OF wf])
  have h: "?h < size t" "?h < length (nodes t)"
    using ht_slot_less [OF wf] wf by (simp_all add: ht_wf_def)
  have dist: "distinct (map key (nodes t ! ?h))"
    by (rule ht_wf_bucket(1) [OF wf h(1)])
  show "rc = HASH_TABLE_OK" by (rule t')
  show "ht_wf t'"
    by (rule ht_wf_replace_bucket [OF wf h(1), of "chain_remove k (nodes t ! ?h)"])
      (use t' ht_wf_bucket [OF wf h(1)] chain_remove_subset [of k "nodes t ! ?h"]
         chain_remove_distinct [OF dist] in auto)
  show "ht_lookup t' = (ht_lookup t)(k := None)"
    by (rule ext, subst ht_lookup_replace_bucket [OF wf, where c = "chain_remove k (nodes t ! ?h)" and k = k])
      (use t' dist in \<open>auto simp: chain_find_remove\<close>)
  show "freed t' = freed t @ call_free (freefunc t) d0" "freefunc t' = freefunc t" "size t' = size t"
    "hashfunc t' = hashfunc t" "nodes t' = (nodes t)[?h := chain_remove k (nodes t ! ?h)]"
    "num_elements t' = num_elements t - 1"
    by (simp_all add: t')
  assume "ht_counted t"
  moreover have "length (nodes t ! ?h) = Suc (length (chain_remove k (nodes t ! ?h)))"
    by (rule chain_remove_length) (simp add: node)
  ultimately have "length (concat (nodes t)) =
      Suc (length (concat ((nodes t)[?h := chain_remove k (nodes t ! ?h)])))"
    using length_concat_update [OF h(2), of "chain_remove k (nodes t ! ?h)"] by simp
  with \<open>ht_counted t\<close> show "ht_counted t'"
    by (simp add: ht_counted_def t')
qed

lemma hashtable_insert_returns:
  assumes "ht_wf t"
  obtains rc t' where "hashtable_insert ok (Some t) k d = Some (rc, Some t')"
  using assms by (cases "chain_find k (nodes t ! ht_slot t k)"; cases ok)
    (auto simp: hashtable_insert_def hash_of_wf)

lemma hashtable_insert_True_cases:
  assumes wf: "ht_wf t" and ins: "hashtable_insert True (Some t) k d = Some (rc, Some t')"
  shows "ht_wf t'" "ht_lookup t' = (ht_lookup t)(k := Some d)" "ht_counted t \<Longrightarrow> ht_counted t'"
    "rc = (if ht_lookup t k = None then HASH_TABLE_OK else HASH_TABLE_INSERT_OVERWRITTEN_DATA)"
    "freefunc t' = freefunc t"
proof -
  have "ht_wf t' \<and> ht_lookup t' = (ht_lookup t)(k := Some d) \<and> (ht_counted t \<longrightarrow> ht_counted t') \<and>
    rc = (if ht_lookup t k = None then HASH_TABLE_OK else HASH_TABLE_INSERT_OVERWRITTEN_DATA) \<and>
    freefunc t' = freefunc t"
  proof (cases "ht_lookup t k")
    case None
    then show ?thesis using hashtable_insert_new [OF wf None ins] by simp
  next
    case (Some d0)
    then show ?thesis using hashtable_insert_overwrite [OF wf Some ins] by simp
  qed
  then show "ht_wf t'" "ht_lookup t' = (ht_lookup t)(k := Some d)" "ht_counted t \<Longrightarrow> ht_counted t'"
    "rc = (if ht_lookup t k = None then HASH_TABLE_OK else HASH_TABLE_INSERT_OVERWRITTEN_DATA)"
    "freefunc t' = freefunc t"
    by simp_all
qed

lemma hashtable_remove_returns:
  assumes "ht_wf t"
  obtains rc t' where "hashtable_remove (Some t) k = Some (rc, Some t')"
  using assms by (cases "chain_find k (nodes t ! ht_slot t k)")
    (auto simp: hashtable_remove_def hash_of_wf)

lemma hashtable_remove_missing:
  assumes "ht_wf t" "ht_lookup t k = None"
  shows "hashtable_remove (Some t) k = Some (HASH_TABLE_KEY_NOT_EXISTS, Some t)"
  using assms by (simp add: hashtable_remove_def hash_of_wf ht_lookup_def)

lemma hashtable_remove_cases:
  assumes wf: "ht_wf t" and rem: "hashtable_remove (Some t) k = Some (rc, Some t')"
  shows "ht_wf t'" "ht_lookup t' = (ht_lookup t)(k := None)" "ht_counted t \<Longrightarrow> ht_counted t'"
    "rc = (if ht_lookup t k = None then HASH_TABLE_KEY_NOT_EXISTS else HASH_TABLE_OK)"
proof -
  have "ht_wf t' \<and> ht_lookup t' = (ht_lookup t)(k := None) \<and> (ht_counted t \<longrightarrow> ht_counted t') \<and>
    rc = (if ht_lookup t k = None then HASH_TABLE_KEY_NOT_EXISTS else HASH_TABLE_OK)"
  proof (cases "ht_lookup t k")
    case None
    then show ?thesis using hashtable_remove_missing [OF wf None] rem wf by (auto simp: fun_upd_idem)
  next
    case (Some d0)
    then show ?thesis using hashtable_remove_found [OF wf Some rem] by simp
  qed
  then show "ht_wf t'" "ht_lookup t' = (ht_lookup t)(k := None)" "ht_counted t \<Longrightarrow> ht_counted t'"
    "rc = (if ht_lookup t k = None then HASH_TABLE_KEY_NOT_EXISTS else HASH_TABLE_OK)"
    by simp_all
qed

lemma hashtable_create_wf:
  assumes "hashtable_create True True junk n hf ff = Some t" "0 < n"
  shows "ht_wf t" "ht_lookup t = Map.empty" "junk = 0 \<Longrightarrow> ht_counted t"
proof -
  have t: "size t = n" "nodes t = replicate n []" "num_elements t = junk"
    using assms by (auto simp: hashtable_create_def)
  show wf: "ht_wf t" using t assms by (simp add: ht_wf_def)
  show "ht_lookup t = Map.empty"
    using ht_slot_less [OF wf] t by (auto simp: ht_lookup_def)
  show "junk = 0 \<Longrightarrow> ht_counted t" using t by (simp add: ht_counted_def)
qed

section \<open>The table as an associative container\<close>

text \<open>
  What the layers above rely on: a container with an insertion and a removal whose look-up behaves
  as a map update. The client lemmas are proved once for every such container.
\<close>

locale assoc_table =
  fixes invar :: "'t \<Rightarrow> bool"
    and lookup :: "'t \<Rightarrow> 'k \<Rightarrow> 'v option"
    and insert :: "'k \<Rightarrow> 'v \<Rightarrow> 't \<Rightarrow> 't"
    and remove :: "'k \<Rightarrow> 't \<Rightarrow> 't"
  assumes invar_insert: "invar t \<Longrightarrow> invar (insert k v t)"
    and invar_remove: "invar t \<Longrightarrow> invar (remove k t)"
    and lookup_insert: "invar t \<Longrightarrow> lookup (insert k v t) = (lookup t)(k := Some v)"
    and lookup_remove: "invar t \<Longrightarrow> lookup (remove k t) = (lookup t)(k := None)"
begin

lemma insert_all:
  "invar t \<Longrightarrow> invar (fold (\<lambda>(k, v). insert k v) kvs t) \<and>
     lookup (fold (\<lambda>(k, v). insert k v) kvs t) = lookup t ++ map_of (rev kvs)"
proof (induction kvs arbitrary: t)
  case Nil
  then show ?case by simp
next
  case (Cons kv kvs)
  obtain k v where "kv = (k, v)" by force
  then show ?case
    using Cons.IH [of "insert k v t"] Cons.prems by (auto simp: invar_insert lookup_insert map_add_def fun_eq_iff split: option.splits)
qed

lemma remove_insert_fresh:
  "invar t \<Longrightarrow> lookup t k = None \<Longrightarrow> lookup (remove k (insert k v t)) = lookup t"
  by (simp add: lookup_remove lookup_insert invar_insert fun_upd_idem)

lemma insert_commute:
  "invar t \<Longrightarrow> k \<noteq> k' \<Longrightarrow> lookup (insert k v (insert k' v' t)) = lookup (insert k' v' (insert k v t))"
  by (simp add: lookup_insert invar_insert fun_upd_twist)

end

definition ht_insert :: "hash_key \<Rightarrow> 'd option \<Rightarrow> 'd hash_table \<Rightarrow> 'd hash_table" where
  "ht_insert k d t =
     (case hashtable_insert True (Some t) k d of Some (_, Some t') \<Rightarrow> t' | _ \<Rightarrow> t)"

definition ht_remove :: "hash_key \<Rightarrow> 'd hash_table \<Rightarrow> 'd hash_table" where
  "ht_remove k t = (case hashtable_remove (Some t) k of Some (_, Some t') \<Rightarrow> t' | _ \<Rightarrow> t)"

lemma ht_insert_eq: "hashtable_insert True (Some t) k d = Some (rc, Some t') \<Longrightarrow> ht_insert k d t = t'"
  by (simp add: ht_insert_def)

lemma ht_remove_eq: "hashtable_remove (Some t) k = Some (rc, Some t') \<Longrightarrow> ht_remove k t = t'"
  by (simp add: ht_remove_def)

interpretation ht: assoc_table ht_wf ht_lookup ht_insert ht_remove
proof
  fix t :: "'d hash_table" and k :: hash_key and d :: "'d option"
  assume wf: "ht_wf t"
  obtain rc t' where ins: "hashtable_insert True (Some t) k d = Some (rc, Some t')"
    by (rule hashtable_insert_returns [OF wf])
  obtain rc' t'' where rem: "hashtable_remove (Some t) k = Some (rc', Some t'')"
    by (rule hashtable_remove_returns [OF wf])
  show "ht_wf (ht_insert k d t)" "ht_lookup (ht_insert k d t) = (ht_lookup t)(k := Some d)"
    using hashtable_insert_True_cases [OF wf ins] by (simp_all add: ht_insert_eq [OF ins])
  show "ht_wf (ht_remove k t)" "ht_lookup (ht_remove k t) = (ht_lookup t)(k := None)"
    using hashtable_remove_cases [OF wf rem] by (simp_all add: ht_remove_eq [OF rem])
qed

section \<open>Ownership of the stored data\<close>

text \<open>
  \<open>owned\<close> is the multiset of non-NULL data of a chain; \<open>ht_account\<close> adds what has already been
  handed to \<open>freefunc\<close>.
\<close>

fun owned :: "'d hash_node list \<Rightarrow> 'd multiset" where
  "owned [] = {#}"
| "owned (node # c) = (case data node of None \<Rightarrow> {#} | Some x \<Rightarrow> {#x#}) + owned c"

definition ht_account :: "'d hash_table \<Rightarrow> 'd multiset" where
  "ht_account t = mset (map snd (freed t)) + owned (concat (nodes t))"

lemma mset_call_free [simp]:
  "image_mset snd (mset (call_free f d)) = (case d of None \<Rightarrow> {#} | Some x \<Rightarrow> {#x#})"
  by (simp add: call_free_def split: option.splits)

lemma owned_append [simp]: "owned (c @ c') = owned c + owned c'"
  by (induction c) (auto simp: ac_simps)

lemma owned_concat_update:
  "h < length bs \<Longrightarrow> owned (concat (bs[h := c])) + owned (bs ! h) = owned (concat bs) + owned c"
  by (induction bs arbitrary: h) (auto simp: ac_simps split: nat.splits)

lemma owned_overwrite:
  "chain_find k c = Some node \<Longrightarrow>
     owned (chain_overwrite k d c) + mset (map snd (call_free f (data node))) =
     owned c + mset (map snd (call_free f d))"
  by (induction c) (auto simp: mset_call_free ac_simps split: if_splits)

lemma owned_remove:
  "chain_find k c = Some node \<Longrightarrow>
     owned (chain_remove k c) + mset (map snd (call_free f (data node))) = owned c"
  by (induction c) (auto simp: mset_call_free ac_simps split: if_splits)

lemma mset_freed_destroy:
  "mset (map snd (concat (map (\<lambda>node. call_free f (data node)) c))) = owned c"
  by (induction c) (auto simp: mset_call_free)

lemma ht_account_insert:
  assumes wf: "ht_wf t" and ins: "hashtable_insert True (Some t) k d = Some (rc, Some t')"
  shows "ht_account t' = ht_account t + (case d of None \<Rightarrow> {#} | Some x \<Rightarrow> {#x#})"
proof (cases "chain_find k (nodes t ! ht_slot t k)")
  case None
  have h: "ht_slot t k < length (nodes t)" using ht_slot_less [OF wf, of k] wf by (simp add: ht_wf_def)
  from None show ?thesis
    using ins owned_concat_update [OF h, of "\<lparr>key = k, data = d\<rparr> # nodes t ! ht_slot t k"]
    by (auto simp: ht_account_def hashtable_insert_def hash_of_wf [OF wf] ac_simps)
next
  case (Some node)
  have h: "ht_slot t k < length (nodes t)" using ht_slot_less [OF wf, of k] wf by (simp add: ht_wf_def)
  let ?c = "nodes t ! ht_slot t k"
  have t': "freed t' = freed t @ call_free (freefunc t) (data node)"
    "nodes t' = (nodes t)[ht_slot t k := chain_overwrite k d ?c]"
    using Some ins by (auto simp: hashtable_insert_def hash_of_wf [OF wf])
  have "ht_account t' + owned ?c = mset (map snd (freed t)) + owned (concat (nodes t)) +
      (owned (chain_overwrite k d ?c) + mset (map snd (call_free (freefunc t) (data node))))"
    using owned_concat_update [OF h, of "chain_overwrite k d ?c"]
    by (simp add: ht_account_def t' ac_simps)
  also have "\<dots> = ht_account t + (case d of None \<Rightarrow> {#} | Some x \<Rightarrow> {#x#}) + owned ?c"
    using owned_overwrite [OF Some, of d "freefunc t"] by (simp add: ht_account_def ac_simps)
  finally show ?thesis by simp
qed

lemma ht_account_remove:
  assumes wf: "ht_wf t" and rem: "hashtable_remove (Some t) k = Some (rc, Some t')"
  shows "ht_account t' = ht_account t"
proof (cases "chain_find k (nodes t ! ht_slot t k)")
  case None
  then show ?thesis using rem by (simp add: hashtable_remove_def hash_of_wf [OF wf])
next
  case (Some node)
  have h: "ht_slot t k < length (nodes t)" using ht_slot_less [OF wf, of k] wf by (simp add: ht_wf_def)
  let ?c = "nodes t ! ht_slot t k"
  have t': "freed t' = freed t @ call_free (freefunc t) (data node)"
    "nodes t' = (nodes t)[ht_slot t k := chain_remove k ?c]"
    using Some rem by (auto simp: hashtable_remove_def hash_of_wf [OF wf])
  have "ht_account t' + owned ?c = mset (map snd (freed t)) + owned (concat (nodes t)) +
      (owned (chain_remove k ?c) + mset (map snd (call_free (freefunc t) (data node))))"
    using owned_concat_update [OF h, of "chain_remove k ?c"]
    by (simp add: ht_account_def t' ac_simps)
  also have "\<dots> = ht_account t + owned ?c"
    by (simp only: owned_remove [OF Some] ht_account_def)
  finally show ?thesis by simp
qed

section \<open>Histories of operations\<close>

datatype 'd ht_op = Ins hash_key "'d option" | Rem hash_key

fun ht_run :: "'d ht_op list \<Rightarrow> 'd hash_table \<Rightarrow> 'd hash_table option" where
  "ht_run [] t = Some t"
| "ht_run (Ins k d # ops) t =
     (case hashtable_insert True (Some t) k d of Some (_, Some t') \<Rightarrow> ht_run ops t' | _ \<Rightarrow> None)"
| "ht_run (Rem k # ops) t =
     (case hashtable_remove (Some t) k of Some (_, Some t') \<Rightarrow> ht_run ops t' | _ \<Rightarrow> None)"

text \<open>The same history on a mathematical map, and the data it hands over to the table.\<close>

fun map_run :: "'d ht_op list \<Rightarrow> (hash_key \<Rightarrow> 'd option option) \<Rightarrow> hash_key \<Rightarrow> 'd option option" where
  "map_run [] m = m"
| "map_run (Ins k d # ops) m = map_run ops (m(k := Some d))"
| "map_run (Rem k # ops) m = map_run ops (m(k := None))"

fun inserted :: "'d ht_op list \<Rightarrow> 'd multiset" where
  "inserted [] = {#}"
| "inserted (Ins k d # ops) = (case d of None \<Rightarrow> {#} | Some x \<Rightarrow> {#x#}) + inserted ops"
| "inserted (Rem k # ops) = inserted ops"

lemma ht_run_wf:
  "ht_wf t \<Longrightarrow> \<exists>t'. ht_run ops t = Some t' \<and> ht_wf t' \<and> ht_lookup t' = map_run ops (ht_lookup t) \<and>
     ht_account t' = ht_account t + inserted ops \<and> (ht_counted t \<longrightarrow> ht_counted t')"
proof (induction ops arbitrary: t)
  case Nil
  then show ?case by simp
next
  case (Cons oper ops)
  show ?case
  proof (cases oper)
    case (Ins k d)
    obtain rc t1 where ins: "hashtable_insert True (Some t) k d = Some (rc, Some t1)"
      by (rule hashtable_insert_returns [OF Cons.prems])
    note t1 = hashtable_insert_True_cases [OF Cons.prems ins] ht_account_insert [OF Cons.prems ins]
    obtain t' where "ht_run ops t1 = Some t'" "ht_wf t'" "ht_lookup t' = map_run ops (ht_lookup t1)"
      "ht_account t' = ht_account t1 + inserted ops" "ht_counted t1 \<longrightarrow> ht_counted t'"
      using Cons.IH [OF t1(1)] by blast
    then show ?thesis
      by (intro exI [of _ t']) (simp add: Ins ins t1(2,3,6) ac_simps)
  next
    case (Rem k)
    obtain rc t1 where rem: "hashtable_remove (Some t) k = Some (rc, Some t1)"
      by (rule hashtable_remove_returns [OF Cons.prems])
    note t1 = hashtable_remove_cases [OF Cons.prems rem] ht_account_remove [OF Cons.prems rem]
    obtain t' where "ht_run ops t1 = Some t'" "ht_wf t'" "ht_lookup t' = map_run ops (ht_lookup t1)"
      "ht_account t' = ht_account t1 + inserted ops" "ht_counted t1 \<longrightarrow> ht_counted t'"
      using Cons.IH [OF t1(1)] by blast
    then show ?thesis
      by (intro exI [of _ t']) (simp add: Rem rem t1(2,3,5))
  qed
qed

section \<open>Visiting every element\<close>

lemma apply_buckets_all:
  "limit = n + length (concat bs) \<Longrightarrow>
     apply_buckets limit n bs = map (\<lambda>node. (key node, data node)) (concat bs)"
proof (induction bs arbitrary: n)
  case Nil
  then show ?case by simp
next
  case (Cons b bs)
  then show ?case by (cases "n < limit") auto
qed

lemma node_in_buckets_iff:
  assumes wf: "ht_wf t"
  shows "node \<in> set (concat (nodes t)) \<longleftrightarrow> chain_find (key node) (nodes t ! ht_slot t (key node)) = Some node"
proof
  assume "node \<in> set (concat (nodes t))"
  then obtain h where h: "h < size t" "node \<in> set (nodes t ! h)"
    using wf unfolding in_concat_nth by (auto simp: ht_wf_def)
  then have "ht_slot t (key node) = h" by (rule ht_wf_bucket(2) [OF wf])
  with h show "chain_find (key node) (nodes t ! ht_slot t (key node)) = Some node"
    by (simp add: chain_find_Some_iff [OF ht_wf_bucket(1) [OF wf h(1)]])
next
  assume "chain_find (key node) (nodes t ! ht_slot t (key node)) = Some node"
  then have "node \<in> set (nodes t ! ht_slot t (key node))" by (auto dest: chain_find_SomeD)
  moreover have "ht_slot t (key node) < length (nodes t)"
    using ht_slot_less [OF wf] wf by (simp add: ht_wf_def)
  ultimately show "node \<in> set (concat (nodes t))"
    unfolding in_concat_nth by blast
qed

lemma distinct_keys_concat:
  assumes "\<And>h. h < length bs \<Longrightarrow> distinct (map key (bs ! h)) \<and> (\<forall>node \<in> set (bs ! h). slot (key node) = h + n)"
  shows "distinct (map key (concat bs))"
  using assms
proof (induction bs arbitrary: n)
  case Nil
  then show ?case by simp
next
  case (Cons b bs)
  have hd: "distinct (map key b)" "\<And>node. node \<in> set b \<Longrightarrow> slot (key node) = n"
    using Cons.prems [of 0] by auto
  have tl: "distinct (map key (bs ! h)) \<and> (\<forall>node \<in> set (bs ! h). slot (key node) = h + Suc n)"
    if "h < length bs" for h
    using Cons.prems [of "Suc h"] that by simp
  have "slot (key node) \<noteq> n" if "node \<in> set (concat bs)" for node
  proof -
    from that have "\<exists>h < length bs. node \<in> set (bs ! h)"
      unfolding in_concat_nth .
    then obtain h where h: "h < length bs" "node \<in> set (bs ! h)" by blast
    from tl [OF h(1)] h(2) show ?thesis by auto
  qed
  then have "key ` set b \<inter> key ` set (concat bs) = {}"
    using hd(2) by fastforce
  with hd(1) Cons.IH [OF tl] show ?case by simp
qed

lemma distinct_keys_wf: "ht_wf t \<Longrightarrow> distinct (map key (concat (nodes t)))"
  by (rule distinct_keys_concat [where slot = "ht_slot t" and n = 0]) (simp add: ht_wf_def)

section \<open>Resizing\<close>

definition chain_map :: "'d hash_node list \<Rightarrow> hash_key \<Rightarrow> 'd option option" where
  "chain_map c k = map_option data (chain_find k c)"

lemma resize_chain_spec:
  assumes "ht_wf newt" "ht_wf old" "n < size old" "nodes old ! n = c"
    and "\<And>node. node \<in> set c \<Longrightarrow> ht_lookup newt (key node) = None"
  shows "\<exists>newt' old'. resize_chain (\<lambda>_. True) c (newt, old) = Some (newt', old') \<and>
     ht_wf newt' \<and> ht_wf old' \<and> ht_lookup newt' = ht_lookup newt ++ chain_map c \<and>
     nodes old' = (nodes old)[n := []] \<and> size old' = size old \<and> hashfunc old' = hashfunc old \<and>
     freefunc old' = freefunc old \<and> num_elements old' = num_elements old - of_nat (length c) \<and>
     freed old' = freed old @ concat (map (\<lambda>node. call_free (freefunc old) (data node)) c) \<and>
     freed newt' = freed newt \<and> size newt' = size newt \<and> hashfunc newt' = hashfunc newt"
  using assms
proof (induction c arbitrary: newt old)
  case Nil
  then have "nodes old = (nodes old)[n := []]"
    by (metis list_update_id)
  with Nil show ?case by (auto simp: chain_map_def map_add_def fun_eq_iff)
next
  case (Cons node c)
  have slot: "ht_slot old (key node) = n"
    by (rule ht_wf_bucket(2) [OF Cons.prems(2,3)]) (simp add: Cons.prems(4))
  have look: "ht_lookup old (key node) = Some (data node)"
    by (simp add: ht_lookup_def slot Cons.prems(4))
  have new: "ht_lookup newt (key node) = None"
    by (rule Cons.prems(5)) simp
  obtain rc newt1 where ins: "hashtable_insert True (Some newt) (key node) (data node) = Some (rc, Some newt1)"
    by (rule hashtable_insert_returns [OF Cons.prems(1)])
  note n1 = hashtable_insert_new [OF Cons.prems(1) new ins]
  obtain rc' old1 where rem: "hashtable_remove (Some old) (key node) = Some (rc', Some old1)"
    by (rule hashtable_remove_returns [OF Cons.prems(2)])
  note o1 = hashtable_remove_found [OF Cons.prems(2) look rem]
  have len: "n < length (nodes old)" using Cons.prems(2,3) by (simp add: ht_wf_def)
  have nodes1: "nodes old1 = (nodes old)[n := c]" "nodes old1 ! n = c"
    using o1(9) len by (simp_all add: slot Cons.prems(4))
  have dist: "distinct (map key (node # c))"
    using ht_wf_bucket(1) [OF Cons.prems(2,3)] Cons.prems(4) by simp
  have fresh: "ht_lookup newt1 (key node') = None" if "node' \<in> set c" for node'
  proof -
    have "key node' \<noteq> key node" using that dist by (auto simp: rev_image_eqI)
    with that Cons.prems(5) [of node'] show ?thesis by (simp add: n1(3))
  qed
  have find: "chain_find (key node) c = None"
    using dist by (auto simp: chain_find_None_iff)
  obtain newt' old' where IH: "resize_chain (\<lambda>_. True) c (newt1, old1) = Some (newt', old')"
     "ht_wf newt'" "ht_wf old'" "ht_lookup newt' = ht_lookup newt1 ++ chain_map c"
     "nodes old' = (nodes old1)[n := []]" "size old' = size old1" "hashfunc old' = hashfunc old1"
     "freefunc old' = freefunc old1" "num_elements old' = num_elements old1 - of_nat (length c)"
     "freed old' = freed old1 @ concat (map (\<lambda>node. call_free (freefunc old1) (data node)) c)"
     "freed newt' = freed newt1" "size newt' = size newt1" "hashfunc newt' = hashfunc newt1"
    using Cons.IH [OF n1(2) o1(2) _ nodes1(2) fresh] Cons.prems(3) o1(7) by auto
  have "ht_lookup newt' = ht_lookup newt ++ chain_map (node # c)"
    using find by (auto simp: IH(4) n1(3) chain_map_def map_add_def fun_eq_iff split: option.splits)
  moreover have "resize_chain (\<lambda>_. True) (node # c) (newt, old) = Some (newt', old')"
    using IH(1) ins rem by simp
  ultimately show ?case
    using IH nodes1(1) o1 n1 by (auto simp: algebra_simps)
qed

lemma chain_map_bucket:
  assumes "ht_wf t" "n < size t"
  shows "chain_map (nodes t ! n) k = (if ht_slot t k = n then ht_lookup t k else None)"
proof (cases "ht_slot t k = n")
  case True
  then show ?thesis by (simp add: chain_map_def ht_lookup_def)
next
  case False
  then have "chain_find k (nodes t ! n) = None"
    using ht_wf_bucket(2) [OF assms] by (auto simp: chain_find_None_iff)
  with False show ?thesis by (simp add: chain_map_def)
qed

lemma resize_buckets_spec:
  assumes "ht_wf newt" "ht_wf old" "distinct ns" "\<And>n. n \<in> set ns \<Longrightarrow> n < size old"
    and "\<And>k. ht_slot old k \<in> set ns \<Longrightarrow> ht_lookup old k \<noteq> None \<Longrightarrow> ht_lookup newt k = None"
  shows "\<exists>newt' old'. resize_buckets (\<lambda>_. True) ns (newt, old) = Some (newt', old') \<and> ht_wf newt' \<and>
     ht_lookup newt' = ht_lookup newt ++ (\<lambda>k. if ht_slot old k \<in> set ns then ht_lookup old k else None) \<and>
     num_elements old' = num_elements old - of_nat (length (concat (map ((!) (nodes old)) ns))) \<and>
     freed old' = freed old @ concat (map (\<lambda>node. call_free (freefunc old) (data node)) (concat (map ((!) (nodes old)) ns))) \<and>
     freed newt' = freed newt \<and> size newt' = size newt \<and> hashfunc newt' = hashfunc newt \<and>
     hashfunc old' = hashfunc old"
  using assms
proof (induction ns arbitrary: newt old)
  case Nil
  then show ?case by (simp add: map_add_def fun_eq_iff)
next
  case (Cons n ns)
  have n: "n < size old" "n \<notin> set ns" "n < length (nodes old)"
    using Cons.prems(2-4) by (auto simp: ht_wf_def)
  have fresh: "ht_lookup newt (key node) = None" if "node \<in> set (nodes old ! n)" for node
  proof -
    have "ht_slot old (key node) = n" by (rule ht_wf_bucket(2) [OF Cons.prems(2) n(1) that])
    moreover from this that have "ht_lookup old (key node) \<noteq> None"
      by (auto simp: ht_lookup_def chain_find_None_iff)
    ultimately show ?thesis by (intro Cons.prems(5)) auto
  qed
  obtain newt1 old1 where s: "resize_chain (\<lambda>_. True) (nodes old ! n) (newt, old) = Some (newt1, old1)"
     "ht_wf newt1" "ht_wf old1" "ht_lookup newt1 = ht_lookup newt ++ chain_map (nodes old ! n)"
     "nodes old1 = (nodes old)[n := []]" "size old1 = size old" "hashfunc old1 = hashfunc old"
     "freefunc old1 = freefunc old" "num_elements old1 = num_elements old - of_nat (length (nodes old ! n))"
     "freed old1 = freed old @ concat (map (\<lambda>node. call_free (freefunc old) (data node)) (nodes old ! n))"
     "freed newt1 = freed newt" "size newt1 = size newt" "hashfunc newt1 = hashfunc newt"
    using resize_chain_spec [OF Cons.prems(1,2) n(1) refl fresh] by auto
  have slot1: "ht_slot old1 = ht_slot old" by (simp add: fun_eq_iff ht_slot_def s)
  have look1: "ht_lookup old1 k = ht_lookup old k" if "ht_slot old k \<noteq> n" for k
    using that by (simp add: ht_lookup_def slot1 s(5))
  have buckets1: "map ((!) (nodes old1)) ns = map ((!) (nodes old)) ns"
    using n(2) by (metis (no_types, lifting) map_eq_conv nth_list_update_neq s(5))
  have new1: "ht_lookup newt1 k = None" if "ht_slot old1 k \<in> set ns" "ht_lookup old1 k \<noteq> None" for k
  proof -
    have "ht_slot old k \<in> set ns" "ht_slot old k \<noteq> n" using that(1) n(2) slot1 by auto
    with that(2) have "ht_lookup newt k = None" by (intro Cons.prems(5)) (simp_all add: look1)
    with \<open>ht_slot old k \<noteq> n\<close> show ?thesis
      by (simp add: s(4) map_add_def chain_map_bucket [OF Cons.prems(2) n(1)])
  qed
  obtain newt' old' where r: "resize_buckets (\<lambda>_. True) ns (newt1, old1) = Some (newt', old')" "ht_wf newt'"
     "ht_lookup newt' = ht_lookup newt1 ++ (\<lambda>k. if ht_slot old1 k \<in> set ns then ht_lookup old1 k else None)"
     "num_elements old' = num_elements old1 - of_nat (length (concat (map ((!) (nodes old1)) ns)))"
     "freed old' = freed old1 @ concat (map (\<lambda>node. call_free (freefunc old1) (data node)) (concat (map ((!) (nodes old1)) ns)))"
     "freed newt' = freed newt1" "size newt' = size newt1" "hashfunc newt' = hashfunc newt1"
     "hashfunc old' = hashfunc old1"
    using Cons.IH [OF s(2,3) _ _ new1] Cons.prems(3,4) s(6) by auto
  have "ht_lookup newt' = ht_lookup newt ++ (\<lambda>k. if ht_slot old k \<in> set (n # ns) then ht_lookup old k else None)"
    using n(2) look1
    by (auto simp: r(3) s(4) slot1 map_add_def fun_eq_iff chain_map_bucket [OF Cons.prems(2) n(1)] split: option.splits)
  moreover have "resize_buckets (\<lambda>_. True) (n # ns) (newt, old) = Some (newt', old')"
    using s(1) r(1) by simp
  ultimately show ?case
    using r(2,6-9) r(4,5) [unfolded buckets1] s(7-13) by (simp add: algebra_simps)
qed

lemma concat_map_nth: "length bs = n \<Longrightarrow> concat (map ((!) bs) [0..<n]) = concat bs"
  by (metis map_nth)

section \<open>Properties\<close>

text \<open>C8. Refinement to a map: on a table created with a non-zero number of buckets, any history of
  insertions and removals runs without fault, and afterwards \<open>hashtable_get\<close> and
  \<open>hashtable_is_key_exists\<close> answer for every key what a mathematical map answers after the same
  history.\<close>

theorem hashtable_refines_map:
  assumes "hashtable_create True True junk n hf ff = Some t" "0 < n"
  shows "\<exists>t'. ht_run ops t = Some t' \<and>
    (\<forall>k. hashtable_get (Some t') k =
           Some (case map_run ops Map.empty k of
                   Some d \<Rightarrow> (HASH_TABLE_OK, d)
                 | None \<Rightarrow> (HASH_TABLE_KEY_NOT_EXISTS, None)) \<and>
         hashtable_is_key_exists (Some t') k =
           Some (if map_run ops Map.empty k = None then HASH_TABLE_KEY_NOT_EXISTS else HASH_TABLE_OK))"
proof -
  note c = hashtable_create_wf [OF assms]
  obtain t' where "ht_run ops t = Some t'" "ht_wf t'" "ht_lookup t' = map_run ops (ht_lookup t)"
    using ht_run_wf [OF c(1)] by blast
  then show ?thesis
    by (intro exI [of _ t']) (simp add: hashtable_get_wf hashtable_is_key_exists_wf c(2))
qed

theorem hashtable_refines_map_witness:
  "\<exists>t'. ht_run [Ins 5 (Some (10::nat)), Ins 7 (Some 11), Ins 5 (Some 12), Rem 7]
          \<lparr> size = 2, num_elements = 9, nodes = [[], []], hashfunc = def_hashfunc,
            freefunc = LibcFree, freed = [] \<rparr> = Some t' \<and>
        hashtable_get (Some t') 5 = Some (HASH_TABLE_OK, Some 12) \<and>
        hashtable_get (Some t') 7 = Some (HASH_TABLE_KEY_NOT_EXISTS, None)"
proof -
  have "hashtable_create True True 9 2 None None =
      Some \<lparr> size = 2, num_elements = 9, nodes = [[], []], hashfunc = def_hashfunc,
             freefunc = LibcFree, freed = [] \<rparr>"
    by (simp add: hashtable_create_def eval_nat_numeral)
  from hashtable_refines_map [OF this, of "[Ins 5 (Some (10::nat)), Ins 7 (Some 11), Ins 5 (Some 12), Rem 7]"]
  show ?thesis by fastforce
qed

text \<open>C19. Ownership: over any history followed by \<open>hashtable_destroy\<close>, every non-NULL value handed
  to the table by \<open>hashtable_insert\<close> is passed to \<open>freefunc\<close> exactly as often as it was handed
  over (no leak and no double free).\<close>

theorem hashtable_frees_each_value_once:
  assumes "hashtable_create True True junk n hf ff = Some t" "0 < n"
  shows "\<exists>t'. ht_run ops t = Some t' \<and>
    mset (map snd (snd (hashtable_destroy (Some t')))) = inserted ops"
proof -
  note c = hashtable_create_wf [OF assms]
  have empty: "ht_account t = {#}"
    using assms(1) by (auto simp: hashtable_create_def ht_account_def)
  obtain t' where run: "ht_run ops t = Some t'" "ht_account t' = ht_account t + inserted ops"
    using ht_run_wf [OF c(1)] by blast
  have "mset (map snd (snd (hashtable_destroy (Some t')))) = ht_account t'"
    using mset_freed_destroy [of "freefunc t'" "concat (nodes t')"]
    by (simp add: hashtable_destroy_def ht_account_def)
  with run empty show ?thesis by simp
qed

theorem hashtable_frees_each_value_once_witness:
  "\<exists>t'. ht_run [Ins 5 (Some (10::nat)), Ins 5 (Some 11)]
          \<lparr> size = 1, num_elements = 0, nodes = [[]], hashfunc = def_hashfunc,
            freefunc = LibcFree, freed = [] \<rparr> = Some t' \<and>
        mset (map snd (snd (hashtable_destroy (Some t')))) = {#11, 10#}"
proof -
  have "hashtable_create True True 0 1 None None =
      Some \<lparr> size = 1, num_elements = 0, nodes = [[]], hashfunc = def_hashfunc,
             freefunc = LibcFree, freed = [] \<rparr>"
    by (simp add: hashtable_create_def eval_nat_numeral)
  from hashtable_frees_each_value_once [OF this, of "[Ins 5 (Some (10::nat)), Ins 5 (Some 11)]"]
  show ?thesis by simp
qed

text \<open>Iteration: when \<open>num_elements\<close> is accurate and not wrapped, the call-back of
  \<open>hashtable_apply_funct_on_elements\<close> runs exactly once for every binding of the table.\<close>

theorem apply_funct_visits_each_binding_once:
  assumes wf: "ht_wf t" and "ht_counted t" and "length (concat (nodes t)) < 2 ^ 64"
  shows "\<exists>calls. hashtable_apply_funct_on_elements (Some t) = (HASH_TABLE_OK, calls) \<and>
    distinct (map fst calls) \<and> (\<forall>k d. (k, d) \<in> set calls \<longleftrightarrow> ht_lookup t k = Some d)"
proof -
  let ?calls = "map (\<lambda>node. (key node, data node)) (concat (nodes t))"
  have "unat (num_elements t) = length (concat (nodes t))"
    using assms(2,3) by (simp add: ht_counted_def unat_of_nat)
  then have "hashtable_apply_funct_on_elements (Some t) = (HASH_TABLE_OK, ?calls)"
    by (simp add: hashtable_apply_funct_on_elements_def apply_buckets_all)
  moreover have "map fst ?calls = map key (concat (nodes t))"
    by simp
  moreover have "(k, d) \<in> set ?calls \<longleftrightarrow> ht_lookup t k = Some d" for k d
  proof
    assume "(k, d) \<in> set ?calls"
    then obtain node where "node \<in> set (concat (nodes t))" "k = key node" "d = data node"
      by auto
    then show "ht_lookup t k = Some d"
      by (simp only: node_in_buckets_iff [OF wf] ht_lookup_def option.map)
  next
    assume "ht_lookup t k = Some d"
    then obtain node where node: "chain_find k (nodes t ! ht_slot t k) = Some node" "data node = d"
      by (auto simp: ht_lookup_def)
    then have "key node = k" by (auto dest: chain_find_SomeD)
    with node have "node \<in> set (concat (nodes t))" by (simp only: node_in_buckets_iff [OF wf])
    with node \<open>key node = k\<close> show "(k, d) \<in> set ?calls"
      by (metis (no_types, lifting) image_eqI set_map)
  qed
  ultimately show ?thesis
    using distinct_keys_wf [OF wf] by (intro exI [of _ ?calls]) (simp only: simp_thms)
qed

theorem apply_funct_visits_each_binding_once_witness:
  "\<exists>calls. hashtable_apply_funct_on_elements
      (Some \<lparr> size = 2, num_elements = 1, nodes = [[], [\<lparr>key = 3, data = Some (10::nat)\<rparr>]],
              hashfunc = def_hashfunc, freefunc = LibcFree, freed = [] \<rparr>) = (HASH_TABLE_OK, calls) \<and>
    (3, Some (10::nat)) \<in> set calls \<and> distinct (map fst calls)"
proof -
  let ?t = "\<lparr> size = 2, num_elements = 1, nodes = [[], [\<lparr>key = 3, data = Some (10::nat)\<rparr>]],
              hashfunc = def_hashfunc, freefunc = LibcFree, freed = [] \<rparr>"
  have "ht_wf ?t"
    by (auto simp: ht_wf_def ht_slot_def def_hashfunc_def less_2_cases_iff)
  moreover have "ht_counted ?t" by (simp add: ht_counted_def)
  moreover have "ht_lookup ?t 3 = Some (Some (10::nat))"
    by (simp add: ht_lookup_def ht_slot_def def_hashfunc_def)
  ultimately show ?thesis
    using apply_funct_visits_each_binding_once [of ?t] by fastforce
qed

text \<open>C27. Resizing keeps every binding, but every non-NULL value that the resized table still
  stores has been handed to \<open>freefunc\<close> (by the removals from the old buckets), and
  \<open>num_elements\<close> of a correctly counted table becomes zero, so that
  \<open>hashtable_apply_funct_on_elements\<close> no longer visits anything.\<close>

theorem hashtable_resize_frees_what_it_keeps:
  assumes wf: "ht_wf t" and cnt: "ht_counted t" and "0 < sizeP"
  shows "\<exists>t'. hashtable_resize True (\<lambda>_. True) junk_num junk_free (Some t) sizeP = Some (HASH_TABLE_OK, Some t') \<and>
    size t' = sizeP \<and> ht_wf t' \<and> ht_lookup t' = ht_lookup t \<and> num_elements t' = 0 \<and>
    snd (hashtable_apply_funct_on_elements (Some t')) = [] \<and>
    mset (map snd (freed t')) = mset (map snd (freed t)) + owned (concat (nodes t))"
proof -
  let ?new = "\<lparr> size = sizeP, num_elements = junk_num, nodes = replicate sizeP [],
                hashfunc = hashfunc t, freefunc = junk_free, freed = [] \<rparr> :: 'a hash_table"
  have create: "hashtable_create True True junk_num sizeP (Some (hashfunc t)) (Some junk_free) = Some ?new"
    by (simp add: hashtable_create_def)
  note new = hashtable_create_wf [OF create \<open>0 < sizeP\<close>]
  have len: "length (nodes t) = size t" using wf by (simp add: ht_wf_def)
  obtain newt old where r: "resize_buckets (\<lambda>_. True) [0..<size t] (?new, t) = Some (newt, old)" "ht_wf newt"
    "ht_lookup newt = ht_lookup ?new ++ (\<lambda>k. if ht_slot t k \<in> set [0..<size t] then ht_lookup t k else None)"
    "num_elements old = num_elements t - of_nat (length (concat (map ((!) (nodes t)) [0..<size t])))"
    "freed old = freed t @ concat (map (\<lambda>node. call_free (freefunc t) (data node))
       (concat (map ((!) (nodes t)) [0..<size t])))"
    "freed newt = freed ?new" "size newt = size ?new" "hashfunc newt = hashfunc ?new" "hashfunc old = hashfunc t"
    using resize_buckets_spec [OF new(1) wf, of "[0..<size t]"] by (auto simp: new(2))
  let ?t' = "old\<lparr>size := size newt, nodes := nodes newt, freed := freed old @ freed newt\<rparr>"
  have same: "size ?t' = size newt" "nodes ?t' = nodes newt" "hashfunc ?t' = hashfunc newt"
    using r(8,9) by simp_all
  then have slots: "ht_slot ?t' = ht_slot newt" by (simp add: fun_eq_iff ht_slot_def)
  have "ht_wf ?t'" using r(2) same slots by (simp add: ht_wf_def)
  moreover have "ht_lookup ?t' = ht_lookup t"
    using ht_slot_less [OF wf] same slots r(3) new(2) by (simp add: fun_eq_iff ht_lookup_def map_add_def split: option.splits)
  moreover have "num_elements ?t' = 0"
    using cnt r(4) by (simp add: ht_counted_def concat_map_nth [OF len])
  moreover from this have "snd (hashtable_apply_funct_on_elements (Some ?t')) = []"
    by (cases "nodes newt") (simp_all add: hashtable_apply_funct_on_elements_def)
  moreover have "mset (map snd (freed ?t')) = mset (map snd (freed t)) + owned (concat (nodes t))"
    using r(5,6) mset_freed_destroy [of "freefunc t" "concat (nodes t)"]
    by (simp add: concat_map_nth [OF len])
  moreover have "hashtable_resize True (\<lambda>_. True) junk_num junk_free (Some t) sizeP = Some (HASH_TABLE_OK, Some ?t')"
    by (simp add: hashtable_resize_def r(1))
  ultimately show ?thesis using r(7) by (intro exI [of _ ?t']) simp
qed

theorem hashtable_resize_frees_what_it_keeps_witness:
  "\<exists>t'. hashtable_resize True (\<lambda>_. True) 77 LibcFree
      (Some \<lparr> size = 1, num_elements = 1, nodes = [[\<lparr>key = 3, data = Some (10::nat)\<rparr>]],
              hashfunc = def_hashfunc, freefunc = LibcFree, freed = [] \<rparr>) 4 = Some (HASH_TABLE_OK, Some t') \<and>
    ht_lookup t' 3 = Some (Some 10) \<and> mset (map snd (freed t')) = {#10#} \<and> num_elements t' = 0"
proof -
  let ?t = "\<lparr> size = 1, num_elements = 1, nodes = [[\<lparr>key = 3, data = Some (10::nat)\<rparr>]],
              hashfunc = def_hashfunc, freefunc = LibcFree, freed = [] \<rparr>"
  have "ht_wf ?t" by (simp add: ht_wf_def ht_slot_def)
  moreover have "ht_counted ?t" by (simp add: ht_counted_def)
  moreover have "ht_lookup ?t 3 = Some (Some 10)" by (simp add: ht_lookup_def ht_slot_def)
  ultimately show ?thesis
    using hashtable_resize_frees_what_it_keeps [of ?t 4 77 LibcFree] by auto
qed

end
