(* ===== verification/MemList.thy ===== *)
theory MemList
  imports Prelude
begin

text \<open>
  The intrusive lists of memory blocks of \<open>openair2/UTIL/LISTS\<close>: the singly linked \<open>list_t\<close>
  (\<open>list.c\<close>) and the doubly linked \<open>list2_t\<close> (\<open>list2.c\<close>). The links are fields of the blocks
  themselves, so the operations work on an explicit store from block addresses to blocks; two
  lists may share it. The operations of \<open>list.c\<close> check every pointer before they follow it; an
  operation of \<open>list2.c\<close> that follows a NULL link is a fault (\<^term>\<open>None\<close>).
\<close>

section \<open>Blocks, store and list headers\<close>

record mem_block =
  blk_next :: ptr
  blk_prev :: ptr
  pool_id :: nat
  blk_data :: ptr

type_synonym heap = "nat \<Rightarrow> mem_block"

record list_t =
  lhead :: ptr
  ltail :: ptr
  nb_elements :: int
  lname :: string

definition set_next :: "nat \<Rightarrow> ptr \<Rightarrow> heap \<Rightarrow> heap" where
  "set_next a p h = h(a := (h a)\<lparr>blk_next := p\<rparr>)"

definition set_prev :: "nat \<Rightarrow> ptr \<Rightarrow> heap \<Rightarrow> heap" where
  "set_prev a p h = h(a := (h a)\<lparr>blk_prev := p\<rparr>)"

lemma set_next_simps [simp]:
  "blk_next (set_next a p h b) = (if b = a then p else blk_next (h b))"
  "blk_prev (set_next a p h b) = blk_prev (h b)"
  "pool_id (set_next a p h b) = pool_id (h b)"
  "blk_data (set_next a p h b) = blk_data (h b)"
  by (simp_all add: set_next_def)

lemma set_prev_simps [simp]:
  "blk_prev (set_prev a p h b) = (if b = a then p else blk_prev (h b))"
  "blk_next (set_prev a p h b) = blk_next (h b)"
  "pool_id (set_prev a p h b) = pool_id (h b)"
  "blk_data (set_prev a p h b) = blk_data (h b)"
  by (simp_all add: set_prev_def)

section \<open>Operations of \<open>list.c\<close>\<close>

text \<open>\<open>strncpy\<close> into the 32 characters of \<open>name\<close>, the last of which is then set to NUL.\<close>

definition list_init :: "string option \<Rightarrow> list_t \<Rightarrow> list_t" where
  "list_init nameP l =
     (case nameP of None \<Rightarrow> l | Some n \<Rightarrow> l\<lparr>lname := take 31 n\<rparr>)\<lparr>ltail := NULL, lhead := NULL, nb_elements := 0\<rparr>"

definition list_get_head :: "list_t \<Rightarrow> ptr" where
  "list_get_head l = lhead l"

definition list_remove_head :: "heap \<times> list_t \<Rightarrow> ptr \<times> heap \<times> list_t" where
  "list_remove_head s =
     (let h = fst s; l = snd s in
      case lhead l of
        None \<Rightarrow> (NULL, h, l)
      | Some a \<Rightarrow>
          let l1 = l\<lparr>lhead := blk_next (h a), nb_elements := nb_elements l - 1\<rparr> in
          if lhead l1 = NULL then (Some a, h, l1\<lparr>ltail := NULL\<rparr>)
          else (Some a, set_next a NULL h, l1))"

text \<open>
  The search loop of \<open>list_remove_element\<close>: follow the links until a block is found whose
  successor is the element. On a cyclic chain it may not end.
\<close>

partial_function (option) find_before :: "heap \<Rightarrow> nat \<Rightarrow> ptr \<Rightarrow> ptr option" where
  "find_before h e cursor =
     (case cursor of
        None \<Rightarrow> Some NULL
      | Some a \<Rightarrow> if blk_next (h a) = Some e then Some (Some a) else find_before h e (blk_next (h a)))"

definition list_remove_element :: "ptr \<Rightarrow> heap \<times> list_t \<Rightarrow> (ptr \<times> heap \<times> list_t) option" where
  "list_remove_element elementP s =
     (let h = fst s; l = snd s in
      case elementP of
        None \<Rightarrow> Some (NULL, h, l)
      | Some e \<Rightarrow>
          if lhead l = Some e then
            (let l1 = l\<lparr>lhead := blk_next (h e), nb_elements := nb_elements l - 1\<rparr> in
             if lhead l1 = NULL then Some (Some e, h, l1\<lparr>ltail := NULL\<rparr>)
             else Some (Some e, set_next e NULL h, l1))
          else do {
            before \<leftarrow> find_before h e (lhead l);
            (case before of
               None \<Rightarrow> Some (Some e, h, l)
             | Some a \<Rightarrow>
                 Some (Some e, set_next a (blk_next (h e)) h,
                   (if ltail l = Some e then l\<lparr>ltail := Some a\<rparr> else l)\<lparr>nb_elements := nb_elements l - 1\<rparr>)) })"

definition list_add_head :: "ptr \<Rightarrow> heap \<times> list_t \<Rightarrow> heap \<times> list_t" where
  "list_add_head elementP s =
     (let h = fst s; l = snd s in
      case elementP of
        None \<Rightarrow> (h, l)
      | Some e \<Rightarrow>
          let l1 = l\<lparr>nb_elements := nb_elements l + 1\<rparr> in
          (case lhead l of
             None \<Rightarrow> (h, l1\<lparr>lhead := Some e, ltail := Some e\<rparr>)
           | Some hp \<Rightarrow> (set_next e (Some hp) h, l1\<lparr>lhead := Some e\<rparr>)))"

definition list_add_tail_eurecom :: "ptr \<Rightarrow> heap \<times> list_t \<Rightarrow> heap \<times> list_t" where
  "list_add_tail_eurecom elementP s =
     (let h = fst s; l = snd s in
      case elementP of
        None \<Rightarrow> (h, l)
      | Some e \<Rightarrow>
          let l1 = l\<lparr>nb_elements := nb_elements l + 1\<rparr>; h1 = set_next e NULL h in
          (case ltail l of
             None \<Rightarrow> (h1, l1\<lparr>lhead := Some e, ltail := Some e\<rparr>)
           | Some tp \<Rightarrow> (set_next tp (Some e) h1, l1\<lparr>ltail := Some e\<rparr>)))"

text \<open>\<open>list_add_list\<close> returns the store, the emptied sublist and the extended list.\<close>

definition list_add_list :: "list_t option \<Rightarrow> heap \<times> list_t \<Rightarrow> heap \<times> list_t option \<times> list_t" where
  "list_add_list sublistP s =
     (let h = fst s; l = snd s in
      case sublistP of
        None \<Rightarrow> (h, None, l)
      | Some sub \<Rightarrow>
          if lhead sub = NULL then (h, Some sub, l)
          else
            (let (h1, l1) =
               (case ltail l of
                  None \<Rightarrow> (h, l\<lparr>lhead := lhead sub\<rparr>)
                | Some tp \<Rightarrow> (set_next tp (lhead sub) h, l))
             in (h1, Some (sub\<lparr>lhead := NULL, ltail := NULL, nb_elements := 0\<rparr>),
                 l1\<lparr>ltail := ltail sub, nb_elements := nb_elements l1 + nb_elements sub\<rparr>)))"

section \<open>Operations of \<open>list2.c\<close>\<close>

text \<open>\<open>list2_t\<close> has the fields of \<open>list_t\<close>.\<close>

type_synonym list2_t = list_t

definition list2_init :: "string option \<Rightarrow> list2_t \<Rightarrow> list2_t" where
  "list2_init nameP l =
     (case nameP of None \<Rightarrow> l | Some n \<Rightarrow> l\<lparr>lname := take 31 n\<rparr>)\<lparr>ltail := NULL, lhead := NULL, nb_elements := 0\<rparr>"

definition list2_remove_element :: "ptr \<Rightarrow> heap \<times> list2_t \<Rightarrow> (ptr \<times> heap \<times> list2_t) option" where
  "list2_remove_element elementP s =
     (let h = fst s; l = snd s in
      case elementP of
        None \<Rightarrow> Some (NULL, h, l)
      | Some e \<Rightarrow> do {
          (h1, l1) \<leftarrow>
            (if lhead l = Some e then
               (case blk_next (h e) of
                  None \<Rightarrow> Some (h, l\<lparr>lhead := NULL, ltail := NULL\<rparr>)
                | Some n \<Rightarrow> Some (set_next e NULL (set_prev n NULL h), l\<lparr>lhead := Some n\<rparr>))
             else if ltail l = Some e then
               (case blk_prev (h e) of
                  None \<Rightarrow> None
                | Some p \<Rightarrow> Some (set_prev e NULL (set_next p NULL h), l\<lparr>ltail := Some p\<rparr>))
             else
               (case blk_prev (h e) of
                  None \<Rightarrow> None
                | Some p \<Rightarrow>
                    let ha = set_next p (blk_next (h e)) h in
                    (case blk_next (ha e) of
                       None \<Rightarrow> None
                     | Some n \<Rightarrow>
                         Some (set_prev e NULL (set_next e NULL (set_prev n (blk_prev (ha e)) ha)), l))));
          Some (Some e, h1, l1\<lparr>nb_elements := nb_elements l1 - 1\<rparr>) })"

definition list2_get_head :: "list2_t \<Rightarrow> ptr" where
  "list2_get_head l = lhead l"

definition list2_get_tail :: "list2_t \<Rightarrow> ptr" where
  "list2_get_tail l = ltail l"

definition list2_remove_head :: "heap \<times> list2_t \<Rightarrow> ptr \<times> heap \<times> list2_t" where
  "list2_remove_head s =
     (let h = fst s; l = snd s in
      case lhead l of
        None \<Rightarrow> (NULL, h, l)
      | Some a \<Rightarrow>
          let l1 = l\<lparr>lhead := blk_next (h a), nb_elements := nb_elements l - 1\<rparr> in
          (case lhead l1 of
             None \<Rightarrow> (Some a, h, l1\<lparr>ltail := NULL\<rparr>)
           | Some n \<Rightarrow> (Some a, set_next a NULL (set_prev n NULL h), l1)))"

definition list2_remove_tail :: "heap \<times> list2_t \<Rightarrow> (ptr \<times> heap \<times> list2_t) option" where
  "list2_remove_tail s =
     (let h = fst s; l = snd s in
      case ltail l of
        None \<Rightarrow> Some (NULL, h, l)
      | Some a \<Rightarrow>
          let l1 = l\<lparr>nb_elements := nb_elements l - 1\<rparr> in
          if lhead l1 = Some a then Some (Some a, set_prev a NULL h, l1\<lparr>lhead := NULL, ltail := NULL\<rparr>)
          else
            (case blk_prev (h a) of
               None \<Rightarrow> None
             | Some p \<Rightarrow> Some (Some a, set_prev a NULL (set_next p NULL h), l1\<lparr>ltail := Some p\<rparr>)))"

definition list2_add_head :: "ptr \<Rightarrow> heap \<times> list2_t \<Rightarrow> heap \<times> list2_t" where
  "list2_add_head elementP s =
     (let h = fst s; l = snd s in
      case elementP of
        None \<Rightarrow> (h, l)
      | Some e \<Rightarrow>
          let l1 = l\<lparr>nb_elements := nb_elements l + 1\<rparr> in
          (case lhead l of
             None \<Rightarrow> (set_next e NULL (set_prev e NULL h), l1\<lparr>lhead := Some e, ltail := Some e\<rparr>)
           | Some hp \<Rightarrow>
               (set_prev e NULL (set_prev hp (Some e) (set_next e (Some hp) h)), l1\<lparr>lhead := Some e\<rparr>)))"

definition list2_add_tail :: "ptr \<Rightarrow> heap \<times> list2_t \<Rightarrow> heap \<times> list2_t" where
  "list2_add_tail elementP s =
     (let h = fst s; l = snd s in
      case elementP of
        None \<Rightarrow> (h, l)
      | Some e \<Rightarrow>
          let l1 = l\<lparr>nb_elements := nb_elements l + 1\<rparr>; h1 = set_next e NULL h in
          (case ltail l of
             None \<Rightarrow> (set_prev e NULL h1, l1\<lparr>lhead := Some e, ltail := Some e\<rparr>)
           | Some tp \<Rightarrow> (set_prev e (Some tp) (set_next tp (Some e) h1), l1\<lparr>ltail := Some e\<rparr>)))"

definition list2_add_list :: "list2_t option \<Rightarrow> heap \<times> list2_t \<Rightarrow> heap \<times> list2_t option \<times> list2_t" where
  "list2_add_list sublistP s =
     (let h = fst s; l = snd s in
      case sublistP of
        None \<Rightarrow> (h, None, l)
      | Some sub \<Rightarrow>
          (case lhead sub of
             None \<Rightarrow> (h, Some sub, l\<lparr>nb_elements := nb_elements l + nb_elements sub\<rparr>)
           | Some sh \<Rightarrow>
               let (h1, l1) =
                 (case ltail l of
                    None \<Rightarrow> (h, l\<lparr>lhead := Some sh\<rparr>)
                  | Some tp \<Rightarrow> (set_prev sh (Some tp) (set_next tp (Some sh) h), l))
               in (h1, Some (sub\<lparr>lhead := NULL, ltail := NULL\<rparr>),
                   l1\<lparr>ltail := ltail sub, nb_elements := nb_elements l1 + nb_elements sub\<rparr>)))"

section \<open>Representation\<close>

text \<open>\<open>nchain h p xs\<close>: following \<open>next\<close> from \<open>p\<close> visits exactly \<open>xs\<close> and ends at NULL.\<close>

fun nchain :: "heap \<Rightarrow> ptr \<Rightarrow> nat list \<Rightarrow> bool" where
  "nchain h p [] \<longleftrightarrow> p = NULL"
| "nchain h p (x # xs) \<longleftrightarrow> p = Some x \<and> nchain h (blk_next (h x)) xs"

text \<open>\<open>dchain h q p xs\<close>: in addition every \<open>previous\<close> points back, the first one to \<open>q\<close>.\<close>

fun dchain :: "heap \<Rightarrow> ptr \<Rightarrow> ptr \<Rightarrow> nat list \<Rightarrow> bool" where
  "dchain h q p [] \<longleftrightarrow> p = NULL"
| "dchain h q p (x # xs) \<longleftrightarrow> p = Some x \<and> blk_prev (h x) = q \<and> dchain h (Some x) (blk_next (h x)) xs"

definition last_ptr :: "nat list \<Rightarrow> ptr" where
  "last_ptr xs = (if xs = [] then NULL else Some (last xs))"

definition list_rep :: "heap \<Rightarrow> list_t \<Rightarrow> nat list \<Rightarrow> bool" where
  "list_rep h l xs \<longleftrightarrow> nchain h (lhead l) xs \<and> distinct xs \<and>
     ltail l = last_ptr xs \<and> nb_elements l = int (length xs)"

definition list2_rep :: "heap \<Rightarrow> list2_t \<Rightarrow> nat list \<Rightarrow> bool" where
  "list2_rep h l xs \<longleftrightarrow> dchain h NULL (lhead l) xs \<and> distinct xs \<and>
     ltail l = last_ptr xs \<and> nb_elements l = int (length xs)"

lemma last_ptr_simps [simp]:
  "last_ptr [] = NULL" "last_ptr (xs @ [x]) = Some x" "xs \<noteq> [] \<Longrightarrow> last_ptr xs = Some (last xs)"
  "xs \<noteq> [] \<Longrightarrow> last_ptr (ys @ xs) = last_ptr xs"
  by (simp_all add: last_ptr_def)

lemma nchain_frame: "(\<And>x. x \<in> set xs \<Longrightarrow> blk_next (h' x) = blk_next (h x)) \<Longrightarrow> nchain h' p xs = nchain h p xs"
  by (induction xs arbitrary: p) auto

lemma dchain_frame:
  "(\<And>x. x \<in> set xs \<Longrightarrow> blk_next (h' x) = blk_next (h x) \<and> blk_prev (h' x) = blk_prev (h x)) \<Longrightarrow>
     dchain h' q p xs = dchain h q p xs"
  by (induction xs arbitrary: q p) auto

lemma list_rep_frame:
  assumes "list_rep h l xs" "\<And>x. x \<in> set xs \<Longrightarrow> blk_next (h' x) = blk_next (h x)"
  shows "list_rep h' l xs"
  using assms nchain_frame [of xs h' h] by (simp add: list_rep_def)

lemma list2_rep_frame:
  assumes "list2_rep h l xs"
    and "\<And>x. x \<in> set xs \<Longrightarrow> blk_next (h' x) = blk_next (h x) \<and> blk_prev (h' x) = blk_prev (h x)"
  shows "list2_rep h' l xs"
  using assms dchain_frame [of xs h' h] by (simp add: list2_rep_def)

text \<open>A segment ends at the block whose \<open>next\<close> is the rest of the chain.\<close>

lemma nchain_append:
  "nchain h p (xs @ ys) \<longleftrightarrow>
     (if xs = [] then nchain h p ys
      else nchain (set_next (last xs) NULL h) p xs \<and> nchain h (blk_next (h (last xs))) ys)"
  if "distinct xs"
  using that
proof (induction xs arbitrary: p)
  case Nil
  then show ?case by simp
next
  case (Cons x xs)
  then show ?case
  proof (cases "xs = []")
    case False
    then have "x \<noteq> last xs" using Cons.prems by auto
    with False Cons show ?thesis by auto
  qed auto
qed

lemma dchain_append:
  "dchain h q p (xs @ ys) \<longleftrightarrow>
     (if xs = [] then dchain h q p ys
      else dchain (set_next (last xs) NULL h) q p xs \<and> dchain h (Some (last xs)) (blk_next (h (last xs))) ys)"
  if "distinct xs"
  using that
proof (induction xs arbitrary: q p)
  case Nil
  then show ?case by simp
next
  case (Cons x xs)
  then show ?case
  proof (cases "xs = []")
    case False
    then have "x \<noteq> last xs" using Cons.prems by auto
    with False Cons show ?thesis by auto
  qed auto
qed

lemma nchain_last_NULL: "nchain h p xs \<Longrightarrow> xs \<noteq> [] \<Longrightarrow> blk_next (h (last xs)) = NULL"
  by (induction xs arbitrary: p) auto

lemma dchain_last_NULL: "dchain h q p xs \<Longrightarrow> xs \<noteq> [] \<Longrightarrow> blk_next (h (last xs)) = NULL"
  by (induction xs arbitrary: q p) auto

lemma nchain_cut:
  assumes "nchain h p xs" "xs \<noteq> []"
  shows "nchain (set_next (last xs) NULL h) p xs"
  using assms nchain_last_NULL [OF assms] nchain_frame [of xs "set_next (last xs) NULL h" h p] by auto

lemma dchain_cut:
  assumes "dchain h q p xs" "xs \<noteq> []"
  shows "dchain (set_next (last xs) NULL h) q p xs"
  using assms dchain_last_NULL [OF assms] dchain_frame [of xs "set_next (last xs) NULL h" h q p] by auto

section \<open>Correctness of the operations of \<open>list.c\<close>\<close>

lemma list_init_rep: "list_rep h (list_init n l) []"
  by (simp add: list_rep_def list_init_def split: option.splits)

lemma list_add_tail_rep:
  assumes rep: "list_rep h l xs" and x: "x \<notin> set xs"
    and res: "list_add_tail_eurecom (Some x) (h, l) = (h', l')"
  shows "list_rep h' l' (xs @ [x])" "\<And>b. b \<noteq> x \<Longrightarrow> b \<notin> set xs \<Longrightarrow> h' b = h b"
proof -
  have "list_rep h' l' (xs @ [x]) \<and> (\<forall>b. b \<noteq> x \<longrightarrow> b \<notin> set xs \<longrightarrow> h' b = h b)"
  proof (cases "xs = []")
    case True
    with rep res show ?thesis
      by (auto simp: list_rep_def list_add_tail_eurecom_def set_next_def)
  next
    case False
    have nc: "nchain h (lhead l) xs" and d: "distinct xs" and tl: "ltail l = Some (last xs)"
      using rep False by (simp_all add: list_rep_def)
    have h': "h' = set_next (last xs) (Some x) (set_next x NULL h)"
      and l': "l' = l\<lparr>nb_elements := nb_elements l + 1, ltail := Some x\<rparr>"
      using res tl by (simp_all add: list_add_tail_eurecom_def)
    have "last xs \<noteq> x" using x False by auto
    moreover have "nchain (set_next (last xs) NULL h') (lhead l) xs"
      using nc nchain_last_NULL [OF nc False] x
      by (subst nchain_frame [of xs _ h]) (auto simp: h')
    ultimately have "nchain h' (lhead l) (xs @ [x])"
      by (subst nchain_append [OF d]) (auto simp: h' False)
    then show ?thesis
      using rep d x False by (auto simp: list_rep_def l' h' set_next_def)
  qed
  then show "list_rep h' l' (xs @ [x])" "\<And>b. b \<noteq> x \<Longrightarrow> b \<notin> set xs \<Longrightarrow> h' b = h b"
    by simp_all
qed

lemma list_remove_head_Nil: "list_rep h l [] \<Longrightarrow> list_remove_head (h, l) = (NULL, h, l)"
  by (simp add: list_rep_def list_remove_head_def)

lemma list_remove_head_rep:
  assumes rep: "list_rep h l (x # xs)" and res: "list_remove_head (h, l) = (r, h', l')"
  shows "r = Some x" "list_rep h' l' xs" "\<And>b. b \<noteq> x \<Longrightarrow> h' b = h b" "blk_next (h' x) = NULL"
proof -
  have "r = Some x \<and> list_rep h' l' xs \<and> (\<forall>b. b \<noteq> x \<longrightarrow> h' b = h b) \<and> blk_next (h' x) = NULL"
  proof (cases xs)
    case Nil
    with rep res show ?thesis by (auto simp: list_rep_def list_remove_head_def)
  next
    case (Cons y ys)
    have h': "h' = set_next x NULL h" and l': "l' = l\<lparr>lhead := blk_next (h x), nb_elements := nb_elements l - 1\<rparr>"
      and r: "r = Some x"
      using rep res Cons by (auto simp: list_rep_def list_remove_head_def)
    have "nchain h' (blk_next (h x)) xs"
      using rep by (subst nchain_frame [of xs _ h]) (auto simp: list_rep_def h')
    then show ?thesis
      using rep Cons by (auto simp: list_rep_def l' r h' set_next_def)
  qed
  then show "r = Some x" "list_rep h' l' xs" "\<And>b. b \<noteq> x \<Longrightarrow> h' b = h b" "blk_next (h' x) = NULL"
    by simp_all
qed

lemma list_add_head_rep:
  assumes rep: "list_rep h l xs" and x: "x \<notin> set xs"
    and pre: "xs \<noteq> [] \<or> blk_next (h x) = NULL"
    and res: "list_add_head (Some x) (h, l) = (h', l')"
  shows "list_rep h' l' (x # xs)"
proof (cases xs)
  case Nil
  with rep res pre show ?thesis by (auto simp: list_rep_def list_add_head_def)
next
  case (Cons y ys)
  have h': "h' = set_next x (lhead l) h" and l': "l' = l\<lparr>nb_elements := nb_elements l + 1, lhead := Some x\<rparr>"
    using rep res Cons by (auto simp: list_rep_def list_add_head_def)
  have "nchain h' (lhead l) xs"
    using rep x by (subst nchain_frame [of xs _ h]) (auto simp: list_rep_def h')
  then show ?thesis
    using rep x Cons by (auto simp: list_rep_def h' l')
qed

lemma find_before_found:
  "nchain h p (ys @ a # e # zs) \<Longrightarrow> distinct (ys @ a # e # zs) \<Longrightarrow> find_before h e p = Some (Some a)"
proof (induction ys arbitrary: p)
  case Nil
  then show ?case by (subst find_before.simps) auto
next
  case (Cons y ys)
  have "blk_next (h y) \<noteq> Some e"
    using Cons.prems by (cases ys) auto
  with Cons show ?case by (subst find_before.simps) auto
qed

lemma find_before_missing:
  "nchain h p xs \<Longrightarrow> e \<notin> set xs \<Longrightarrow> find_before h e p = Some NULL"
proof (induction xs arbitrary: p)
  case Nil
  then show ?case by (subst find_before.simps) simp
next
  case (Cons x xs)
  have "blk_next (h x) \<noteq> Some e"
    using Cons.prems by (cases xs) auto
  with Cons show ?case by (subst find_before.simps) auto
qed

lemma list_remove_element_missing:
  assumes "list_rep h l xs" "e \<notin> set xs"
  shows "list_remove_element (Some e) (h, l) = Some (Some e, h, l)"
proof -
  have "lhead l \<noteq> Some e" using assms by (cases xs) (auto simp: list_rep_def)
  moreover have "find_before h e (lhead l) = Some NULL"
    by (rule find_before_missing [of _ _ xs]) (use assms in \<open>simp_all add: list_rep_def\<close>)
  ultimately show ?thesis by (simp add: list_remove_element_def)
qed

lemma list_remove_element_rep:
  assumes rep: "list_rep h l (ys @ e # zs)"
  shows "\<exists>h' l'. list_remove_element (Some e) (h, l) = Some (Some e, h', l') \<and> list_rep h' l' (ys @ zs) \<and>
    (\<forall>b. b \<notin> set (ys @ e # zs) \<longrightarrow> h' b = h b)"
proof (cases ys rule: rev_cases)
  case Nil
  obtain r h' l' where res: "list_remove_head (h, l) = (r, h', l')" by (metis prod_cases3)
  have rep': "list_rep h l (e # zs)" using rep Nil by simp
  note rh = list_remove_head_rep [OF rep' res]
  have "lhead l = Some e" using rep' by (simp add: list_rep_def)
  then have "list_remove_element (Some e) (h, l) = Some (r, h', l')"
    using res by (auto simp: list_remove_element_def list_remove_head_def Let_def split: if_splits)
  with rh Nil show ?thesis by auto
next
  case (snoc ys' a)
  have nc: "nchain h (lhead l) (ys' @ a # e # zs)" and d: "distinct (ys' @ a # e # zs)"
    using rep snoc by (simp_all add: list_rep_def)
  have d_ys: "distinct ys" using rep by (simp add: list_rep_def)
  let ?h' = "set_next a (blk_next (h e)) h"
  let ?l' = "(if ltail l = Some e then l\<lparr>ltail := Some a\<rparr> else l)\<lparr>nb_elements := nb_elements l - 1\<rparr>"
  have "lhead l \<noteq> Some e" using nc d by (cases ys') auto
  then have res: "list_remove_element (Some e) (h, l) = Some (Some e, ?h', ?l')"
    using find_before_found [OF nc d] by (simp add: list_remove_element_def)
  have ne: "ys \<noteq> []" and last: "last ys = a" using snoc by simp_all
  have split: "nchain (set_next a NULL h) (lhead l) ys" "nchain h (blk_next (h e)) zs"
    using rep nchain_append [OF d_ys, of h "lhead l" "e # zs"] ne last by (simp_all add: list_rep_def)
  have "nchain ?h' (lhead l) (ys @ zs)"
  proof (subst nchain_append [OF d_ys], simp add: snoc, intro conjI)
    show "nchain (set_next a NULL ?h') (lhead l) (ys' @ [a])"
      using split(1) snoc by (subst nchain_frame [of _ _ "set_next a NULL h"]) auto
    show "nchain ?h' (blk_next (h e)) zs"
      using split(2) d by (subst nchain_frame [of zs _ h]) auto
  qed
  moreover have "ltail ?l' = last_ptr (ys @ zs)" "lhead ?l' = lhead l" "nb_elements ?l' = int (length (ys @ zs))"
    using rep snoc d by (cases "zs = []"; auto simp: list_rep_def)+
  ultimately have "list_rep ?h' ?l' (ys @ zs)"
    using rep by (auto simp: list_rep_def)
  moreover have "\<forall>b. b \<notin> set (ys @ e # zs) \<longrightarrow> ?h' b = h b"
    using snoc by (auto simp: set_next_def)
  ultimately show ?thesis using res by blast
qed

lemma list_add_list_rep:
  assumes rep: "list_rep h l xs" and sub: "list_rep h s ys" and disj: "set xs \<inter> set ys = {}"
    and res: "list_add_list (Some s) (h, l) = (h', s', l')"
  shows "list_rep h' l' (xs @ ys)" "\<exists>s''. s' = Some s'' \<and> list_rep h' s'' []"
proof -
  have "list_rep h' l' (xs @ ys) \<and> (\<exists>s''. s' = Some s'' \<and> list_rep h' s'' [])"
  proof (cases "ys = []")
    case True
    with rep sub res show ?thesis by (auto simp: list_rep_def list_add_list_def)
  next
    case ys: False
    have head: "lhead s = Some (hd ys)" using sub ys by (cases ys) (auto simp: list_rep_def)
    show ?thesis
    proof (cases "xs = []")
      case True
      with rep sub res head ys show ?thesis by (auto simp: list_rep_def list_add_list_def)
    next
      case False
      have nc: "nchain h (lhead l) xs" and d: "distinct xs" and tl: "ltail l = Some (last xs)"
        using rep False by (simp_all add: list_rep_def)
      have eqs: "h' = set_next (last xs) (lhead s) h"
        "l' = l\<lparr>ltail := ltail s, nb_elements := nb_elements l + nb_elements s\<rparr>"
        "s' = Some (s\<lparr>lhead := NULL, ltail := NULL, nb_elements := 0\<rparr>)"
        using res tl head by (simp_all add: list_add_list_def)
      have "nchain (set_next (last xs) NULL h') (lhead l) xs"
        using nc nchain_last_NULL [OF nc False] by (subst nchain_frame [of xs _ h]) (auto simp: eqs)
      moreover have "last xs \<notin> set ys" using disj False last_in_set by fastforce
      then have "nchain h' (lhead s) ys"
        using sub by (subst nchain_frame [of ys _ h]) (auto simp: list_rep_def eqs)
      ultimately have "nchain h' (lhead l) (xs @ ys)"
        by (subst nchain_append [OF d]) (auto simp: eqs False)
      then show ?thesis
        using rep sub disj ys by (auto simp: list_rep_def eqs)
    qed
  qed
  then show "list_rep h' l' (xs @ ys)" "\<exists>s''. s' = Some s'' \<and> list_rep h' s'' []"
    by simp_all
qed

section \<open>Correctness of the operations of \<open>list2.c\<close>\<close>

lemma list2_init_rep: "list2_rep h (list2_init n l) []"
  by (simp add: list2_rep_def list2_init_def split: option.splits)

lemma list2_add_tail_rep:
  assumes rep: "list2_rep h l xs" and x: "x \<notin> set xs"
    and res: "list2_add_tail (Some x) (h, l) = (h', l')"
  shows "list2_rep h' l' (xs @ [x])" "\<And>b. b \<noteq> x \<Longrightarrow> b \<notin> set xs \<Longrightarrow> h' b = h b"
proof -
  have "list2_rep h' l' (xs @ [x]) \<and> (\<forall>b. b \<noteq> x \<longrightarrow> b \<notin> set xs \<longrightarrow> h' b = h b)"
  proof (cases "xs = []")
    case True
    with rep res show ?thesis
      by (auto simp: list2_rep_def list2_add_tail_def set_next_def set_prev_def)
  next
    case False
    have nc: "dchain h NULL (lhead l) xs" and d: "distinct xs" and tl: "ltail l = Some (last xs)"
      using rep False by (simp_all add: list2_rep_def)
    have h': "h' = set_prev x (Some (last xs)) (set_next (last xs) (Some x) (set_next x NULL h))"
      and l': "l' = l\<lparr>nb_elements := nb_elements l + 1, ltail := Some x\<rparr>"
      using res tl by (simp_all add: list2_add_tail_def)
    have "last xs \<noteq> x" using x False by auto
    moreover have "dchain (set_next (last xs) NULL h') NULL (lhead l) xs"
      using nc dchain_last_NULL [OF nc False] x
      by (subst dchain_frame [of xs _ h]) (auto simp: h')
    ultimately have "dchain h' NULL (lhead l) (xs @ [x])"
      by (subst dchain_append [OF d]) (auto simp: h' False)
    then show ?thesis
      using rep d x False by (auto simp: list2_rep_def l' h' set_next_def set_prev_def)
  qed
  then show "list2_rep h' l' (xs @ [x])" "\<And>b. b \<noteq> x \<Longrightarrow> b \<notin> set xs \<Longrightarrow> h' b = h b"
    by simp_all
qed

lemma list2_remove_head_Nil: "list2_rep h l [] \<Longrightarrow> list2_remove_head (h, l) = (NULL, h, l)"
  by (simp add: list2_rep_def list2_remove_head_def)

lemma list2_remove_head_rep:
  assumes rep: "list2_rep h l (x # xs)" and res: "list2_remove_head (h, l) = (r, h', l')"
  shows "r = Some x" "list2_rep h' l' xs" "\<And>b. b \<notin> set (x # xs) \<Longrightarrow> h' b = h b" "blk_next (h' x) = NULL"
proof -
  have "r = Some x \<and> list2_rep h' l' xs \<and> (\<forall>b. b \<notin> set (x # xs) \<longrightarrow> h' b = h b) \<and> blk_next (h' x) = NULL"
  proof (cases xs)
    case Nil
    with rep res show ?thesis by (auto simp: list2_rep_def list2_remove_head_def)
  next
    case (Cons y ys)
    have h': "h' = set_next x NULL (set_prev y NULL h)"
      and l': "l' = l\<lparr>lhead := Some y, nb_elements := nb_elements l - 1\<rparr>" and r: "r = Some x"
      using rep res Cons by (auto simp: list2_rep_def list2_remove_head_def)
    have "dchain h' (Some y) (blk_next (h y)) ys"
      using rep Cons by (subst dchain_frame [of ys _ h]) (auto simp: list2_rep_def h')
    then have "dchain h' NULL (Some y) xs"
      using rep Cons by (auto simp: list2_rep_def h')
    then show ?thesis
      using rep Cons by (auto simp: list2_rep_def l' r h' set_next_def set_prev_def)
  qed
  then show "r = Some x" "list2_rep h' l' xs" "\<And>b. b \<notin> set (x # xs) \<Longrightarrow> h' b = h b" "blk_next (h' x) = NULL"
    by simp_all
qed

lemma list2_add_head_rep:
  assumes rep: "list2_rep h l xs" and x: "x \<notin> set xs"
    and res: "list2_add_head (Some x) (h, l) = (h', l')"
  shows "list2_rep h' l' (x # xs)"
proof (cases xs)
  case Nil
  with rep res show ?thesis by (auto simp: list2_rep_def list2_add_head_def)
next
  case (Cons y ys)
  have h': "h' = set_prev x NULL (set_prev y (Some x) (set_next x (Some y) h))"
    and l': "l' = l\<lparr>nb_elements := nb_elements l + 1, lhead := Some x\<rparr>"
    using rep res Cons by (auto simp: list2_rep_def list2_add_head_def)
  have "dchain h' (Some y) (blk_next (h y)) ys"
    using rep x Cons by (subst dchain_frame [of ys _ h]) (auto simp: list2_rep_def h')
  then show ?thesis
    using rep x Cons by (auto simp: list2_rep_def h' l')
qed

lemma dchain_split_at:
  assumes "dchain h q p (ys @ e # zs)" "distinct ys" "ys \<noteq> []"
  shows "dchain (set_next (last ys) NULL h) q p ys" "blk_next (h (last ys)) = Some e"
    "blk_prev (h e) = Some (last ys)" "dchain h (Some e) (blk_next (h e)) zs"
  using assms dchain_append [OF assms(2), of h q p "e # zs"] by simp_all

lemma dchain_join:
  assumes "dchain (set_next (last ys) NULL h) q p ys" "distinct ys" "ys \<noteq> []"
    and "dchain h (Some (last ys)) (blk_next (h (last ys))) zs"
  shows "dchain h q p (ys @ zs)"
  using assms by (subst dchain_append [OF assms(2)]) simp

lemma list2_remove_tail_rep:
  assumes rep: "list2_rep h l (xs @ [x])"
  shows "\<exists>h' l'. list2_remove_tail (h, l) = Some (Some x, h', l') \<and> list2_rep h' l' xs"
proof (cases "xs = []")
  case True
  with rep show ?thesis by (auto simp: list2_rep_def list2_remove_tail_def)
next
  case False
  have nc: "dchain h NULL (lhead l) (xs @ [x])" and d: "distinct (xs @ [x])" and t: "ltail l = Some x"
    using rep by (simp_all add: list2_rep_def)
  have head: "lhead l \<noteq> Some x" using nc d False by (cases xs) auto
  note sp = dchain_split_at [OF nc _ False]
  let ?h' = "set_prev x NULL (set_next (last xs) NULL h)"
  let ?l' = "l\<lparr>nb_elements := nb_elements l - 1, ltail := Some (last xs)\<rparr>"
  have "list2_remove_tail (h, l) = Some (Some x, ?h', ?l')"
    using sp d head t by (simp add: list2_remove_tail_def)
  moreover have "dchain ?h' NULL (lhead l) xs"
    using sp(1) d by (subst dchain_frame [of xs _ "set_next (last xs) NULL h"]) auto
  then have "list2_rep ?h' ?l' xs"
    using rep False by (auto simp: list2_rep_def)
  ultimately show ?thesis by blast
qed

lemma list2_remove_element_rep:
  assumes rep: "list2_rep h l (ys @ e # zs)"
  shows "\<exists>h' l'. list2_remove_element (Some e) (h, l) = Some (Some e, h', l') \<and> list2_rep h' l' (ys @ zs)"
proof (cases "ys = []")
  case True
  show ?thesis
  proof (cases zs)
    case Nil
    with rep True show ?thesis by (auto simp: list2_rep_def list2_remove_element_def)
  next
    case (Cons n zs')
    obtain r h' l' where res: "list2_remove_head (h, l) = (r, h', l')" by (metis prod_cases3)
    have rep': "list2_rep h l (e # zs)" using rep True by simp
    note rh = list2_remove_head_rep [OF rep' res]
    have "list2_remove_element (Some e) (h, l) = Some (r, h', l')"
      using res rep' Cons
      by (auto simp: list2_rep_def list2_remove_element_def list2_remove_head_def Let_def)
    with rh True show ?thesis by auto
  qed
next
  case ys: False
  have nc: "dchain h NULL (lhead l) (ys @ e # zs)" and d: "distinct (ys @ e # zs)"
    and t: "ltail l = last_ptr (e # zs)"
    using rep by (simp_all add: list2_rep_def)
  have d_ys: "distinct ys" using d by simp
  note sp = dchain_split_at [OF nc d_ys ys]
  have head: "lhead l \<noteq> Some e" using nc d ys by (cases ys) auto
  have last: "last ys \<in> set ys" using ys by simp
  show ?thesis
  proof (cases zs)
    case Nil
    obtain h' l' where r: "list2_remove_tail (h, l) = Some (Some e, h', l')" "list2_rep h' l' ys"
      using list2_remove_tail_rep [of h l ys e] rep Nil by auto
    have "list2_remove_element (Some e) (h, l) = list2_remove_tail (h, l)"
      using sp head t Nil by (simp add: list2_remove_element_def list2_remove_tail_def)
    with r Nil show ?thesis by auto
  next
    case (Cons n zs')
    let ?h' = "set_prev e NULL (set_next e NULL (set_prev n (Some (last ys)) (set_next (last ys) (Some n) h)))"
    let ?l' = "l\<lparr>nb_elements := nb_elements l - 1\<rparr>"
    have ne: "last ys \<noteq> e" "last ys \<noteq> n" "last ys \<notin> set zs'" "n \<notin> set ys" "e \<notin> set ys" "n \<noteq> e" "e \<notin> set zs'"
      using d last Cons by auto
    have next_e: "blk_next (h e) = Some n" using sp(4) Cons by simp
    have "ltail l \<noteq> Some e" using t d Cons by auto
    then have res: "list2_remove_element (Some e) (h, l) = Some (Some e, ?h', ?l')"
      using sp head next_e ne by (simp add: list2_remove_element_def)
    have "dchain ?h' NULL (lhead l) (ys @ zs)"
    proof (rule dchain_join [OF _ d_ys ys])
      show "dchain (set_next (last ys) NULL ?h') NULL (lhead l) ys"
        using sp(1) ne by (subst dchain_frame [of ys _ "set_next (last ys) NULL h"]) auto
      have "dchain ?h' (Some n) (blk_next (h n)) zs'"
        using sp(4) Cons ne d by (subst dchain_frame [of zs' _ h]) auto
      then show "dchain ?h' (Some (last ys)) (blk_next (?h' (last ys))) zs"
        using Cons ne by simp
    qed
    then have "list2_rep ?h' ?l' (ys @ zs)"
      using rep Cons by (auto simp: list2_rep_def)
    with res show ?thesis by blast
  qed
qed

lemma list2_add_list_rep:
  assumes rep: "list2_rep h l xs" and sub: "list2_rep h s ys" and disj: "set xs \<inter> set ys = {}"
    and res: "list2_add_list (Some s) (h, l) = (h', s', l')"
  shows "list2_rep h' l' (xs @ ys)" "\<exists>s''. s' = Some s'' \<and> lhead s'' = NULL \<and> ltail s'' = NULL \<and> nb_elements s'' = int (length ys)"
proof -
  have "list2_rep h' l' (xs @ ys) \<and>
    (\<exists>s''. s' = Some s'' \<and> lhead s'' = NULL \<and> ltail s'' = NULL \<and> nb_elements s'' = int (length ys))"
  proof (cases ys)
    case Nil
    with rep sub res show ?thesis by (auto simp: list2_rep_def list2_add_list_def)
  next
    case (Cons y ys')
    have head: "lhead s = Some y" using sub Cons by (simp add: list2_rep_def)
    show ?thesis
    proof (cases "xs = []")
      case True
      with rep sub res head Cons show ?thesis by (auto simp: list2_rep_def list2_add_list_def)
    next
      case False
      have nc: "dchain h NULL (lhead l) xs" and d: "distinct xs" and tl: "ltail l = Some (last xs)"
        using rep False by (simp_all add: list2_rep_def)
      have eqs: "h' = set_prev y (Some (last xs)) (set_next (last xs) (Some y) h)"
        "l' = l\<lparr>ltail := ltail s, nb_elements := nb_elements l + nb_elements s\<rparr>"
        "s' = Some (s\<lparr>lhead := NULL, ltail := NULL\<rparr>)"
        using res tl head by (simp_all add: list2_add_list_def)
      have ne: "last xs \<notin> set ys" "y \<notin> set xs" using disj False last_in_set Cons by fastforce+
      have "dchain h' NULL (lhead l) (xs @ ys)"
      proof (rule dchain_join [OF _ d False])
        show "dchain (set_next (last xs) NULL h') NULL (lhead l) xs"
          using nc dchain_last_NULL [OF nc False] ne by (subst dchain_frame [of xs _ h]) (auto simp: eqs)
        have "dchain h' (Some y) (blk_next (h y)) ys'"
          using sub ne Cons by (subst dchain_frame [of ys' _ h]) (auto simp: list2_rep_def eqs)
        then show "dchain h' (Some (last xs)) (blk_next (h' (last xs))) ys"
          using Cons ne by (simp add: eqs)
      qed
      then show ?thesis
        using rep sub disj Cons by (auto simp: list2_rep_def eqs)
    qed
  qed
  then show "list2_rep h' l' (xs @ ys)"
    "\<exists>s''. s' = Some s'' \<and> lhead s'' = NULL \<and> ltail s'' = NULL \<and> nb_elements s'' = int (length ys)"
    by simp_all
qed

section \<open>Both lists as queues\<close>

text \<open>
  The clients of both lists (the memory pools, the SDU queues of PDCP, RLC and MAC) use them as
  queues. A history of \<open>add_tail\<close> and \<open>remove_head\<close> calls is run on the store; the sequence
  of pointers that the removals return is compared with that of a first-in first-out queue.
\<close>

datatype queue_op = Add_tail nat | Remove_head

fun queue_run :: "(ptr \<Rightarrow> heap \<times> list_t \<Rightarrow> heap \<times> list_t) \<Rightarrow> (heap \<times> list_t \<Rightarrow> ptr \<times> heap \<times> list_t) \<Rightarrow>
    queue_op list \<Rightarrow> heap \<times> list_t \<Rightarrow> ptr list \<times> heap \<times> list_t" where
  "queue_run add rem [] s = ([], s)"
| "queue_run add rem (Add_tail x # ops) s = queue_run add rem ops (add (Some x) s)"
| "queue_run add rem (Remove_head # ops) s =
     (let (r, s1) = rem s; (rs, s2) = queue_run add rem ops s1 in (r # rs, s2))"

fun fifo_run :: "queue_op list \<Rightarrow> nat list \<Rightarrow> ptr list \<times> nat list" where
  "fifo_run [] xs = ([], xs)"
| "fifo_run (Add_tail x # ops) xs = fifo_run ops (xs @ [x])"
| "fifo_run (Remove_head # ops) [] = (let (rs, ys) = fifo_run ops [] in (NULL # rs, ys))"
| "fifo_run (Remove_head # ops) (x # xs) = (let (rs, ys) = fifo_run ops xs in (Some x # rs, ys))"

text \<open>A block is added only while it is not on the list.\<close>

fun fifo_ok :: "queue_op list \<Rightarrow> nat list \<Rightarrow> bool" where
  "fifo_ok [] xs \<longleftrightarrow> True"
| "fifo_ok (Add_tail x # ops) xs \<longleftrightarrow> x \<notin> set xs \<and> fifo_ok ops (xs @ [x])"
| "fifo_ok (Remove_head # ops) xs \<longleftrightarrow> fifo_ok ops (tl xs)"

fun blocks_of :: "queue_op list \<Rightarrow> nat set" where
  "blocks_of [] = {}"
| "blocks_of (Add_tail x # ops) = insert x (blocks_of ops)"
| "blocks_of (Remove_head # ops) = blocks_of ops"

locale block_queue =
  fixes rep :: "heap \<Rightarrow> list_t \<Rightarrow> nat list \<Rightarrow> bool"
    and add_tail :: "ptr \<Rightarrow> heap \<times> list_t \<Rightarrow> heap \<times> list_t"
    and remove_head :: "heap \<times> list_t \<Rightarrow> ptr \<times> heap \<times> list_t"
  assumes add_tail_rep: "rep h l xs \<Longrightarrow> x \<notin> set xs \<Longrightarrow> add_tail (Some x) (h, l) = (h', l') \<Longrightarrow> rep h' l' (xs @ [x])"
    and add_tail_frame: "rep h l xs \<Longrightarrow> x \<notin> set xs \<Longrightarrow> add_tail (Some x) (h, l) = (h', l') \<Longrightarrow>
      b \<noteq> x \<Longrightarrow> b \<notin> set xs \<Longrightarrow> h' b = h b"
    and remove_head_rep: "rep h l (x # xs) \<Longrightarrow> remove_head (h, l) = (r, h', l') \<Longrightarrow> r = Some x \<and> rep h' l' xs"
    and remove_head_frame: "rep h l (x # xs) \<Longrightarrow> remove_head (h, l) = (r, h', l') \<Longrightarrow>
      b \<notin> set (x # xs) \<Longrightarrow> h' b = h b"
    and remove_head_Nil: "rep h l [] \<Longrightarrow> remove_head (h, l) = (NULL, h, l)"
begin

lemma queue_is_fifo:
  assumes "rep h l xs" "fifo_ok ops xs" "queue_run add_tail remove_head ops (h, l) = (rs, h', l')"
    and "fifo_run ops xs = (rs', ys)"
  shows "rs = rs' \<and> rep h' l' ys \<and> (\<forall>b. b \<notin> set xs \<union> blocks_of ops \<longrightarrow> h' b = h b)"
  using assms
proof (induction ops xs arbitrary: h l rs rs' rule: fifo_run.induct)
  case (2 x ops xs)
  obtain h1 l1 where a: "add_tail (Some x) (h, l) = (h1, l1)" by fastforce
  have x: "x \<notin> set xs" using "2.prems" by simp
  have r1: "rep h1 l1 (xs @ [x])" using add_tail_rep [OF _ x a] "2.prems" by simp
  have fr: "\<And>b. b \<noteq> x \<Longrightarrow> b \<notin> set xs \<Longrightarrow> h1 b = h b"
    using add_tail_frame [OF _ x a] "2.prems" by simp
  have "rs = rs' \<and> rep h' l' ys \<and> (\<forall>b. b \<notin> set (xs @ [x]) \<union> blocks_of ops \<longrightarrow> h' b = h1 b)"
    by (rule "2.IH" [OF r1]) (use "2.prems" a in simp_all)
  with fr show ?case by auto
next
  case (3 ops)
  have rem: "remove_head (h, l) = (NULL, h, l)" using remove_head_Nil "3.prems" by simp
  obtain rs1 where q: "queue_run add_tail remove_head ops (h, l) = (rs1, h', l')" "rs = NULL # rs1"
    using "3.prems" rem by (auto split: prod.splits)
  obtain rs1' where f: "fifo_run ops [] = (rs1', ys)" "rs' = NULL # rs1'"
    using "3.prems" by (auto split: prod.splits)
  from "3.IH" [OF "3.prems"(1) _ q(1) f(1)] "3.prems"(2) q(2) f(2) show ?case by simp
next
  case (4 ops x xs)
  obtain r h1 l1 where rem: "remove_head (h, l) = (r, h1, l1)" by (metis prod_cases3)
  have r1: "r = Some x" "rep h1 l1 xs" using remove_head_rep [OF "4.prems"(1) rem] by simp_all
  have fr: "\<And>b. b \<notin> set (x # xs) \<Longrightarrow> h1 b = h b" by (rule remove_head_frame [OF "4.prems"(1) rem])
  obtain rs1 where q: "queue_run add_tail remove_head ops (h1, l1) = (rs1, h', l')" "rs = Some x # rs1"
    using "4.prems" rem r1 by (auto split: prod.splits)
  obtain rs1' where f: "fifo_run ops xs = (rs1', ys)" "rs' = Some x # rs1'"
    using "4.prems" by (auto split: prod.splits)
  from "4.IH" [OF r1(2) _ q(1) f(1)] "4.prems"(2) q(2) f(2) fr show ?case by auto
qed simp

end

interpretation lq: block_queue list_rep list_add_tail_eurecom list_remove_head
  by unfold_locales (simp_all add: list_add_tail_rep list_remove_head_rep list_remove_head_Nil)

interpretation l2q: block_queue list2_rep list2_add_tail list2_remove_head
  by unfold_locales (simp_all add: list2_add_tail_rep list2_remove_head_rep list2_remove_head_Nil)

section \<open>Properties\<close>

text \<open>
  C18. The lists of \<open>list.c\<close> are first-in first-out queues: every history of
  \<open>list_add_tail_eurecom\<close> and \<open>list_remove_head\<close> calls on a well-formed list, in which a block is
  added only while it is not on the list, returns the blocks in the order of a queue (NULL from the
  empty one), ends with a well-formed list holding what the queue holds (with its \<open>nb_elements\<close>,
  head and tail), and changes no block that was neither on the list nor added.
\<close>

theorem list_is_fifo_queue:
  assumes "list_rep h l xs" "fifo_ok ops xs"
  shows "case queue_run list_add_tail_eurecom list_remove_head ops (h, l) of (rs, h', l') \<Rightarrow>
    rs = fst (fifo_run ops xs) \<and> list_rep h' l' (snd (fifo_run ops xs)) \<and>
    (\<forall>b. b \<notin> set xs \<union> blocks_of ops \<longrightarrow> h' b = h b)"
  using lq.queue_is_fifo [OF assms] by (auto split: prod.splits simp: prod_eq_iff)

definition blank_heap :: heap where
  "blank_heap a = \<lparr>blk_next = NULL, blk_prev = NULL, pool_id = 0, blk_data = NULL\<rparr>"

definition blank_list :: list_t where
  "blank_list = \<lparr>lhead = NULL, ltail = NULL, nb_elements = 0, lname = []\<rparr>"

text \<open>A history on which the queue empties and is refilled with a block that was on it before.\<close>

definition sample_ops :: "queue_op list" where
  "sample_ops = [Add_tail 4, Add_tail 7, Remove_head, Add_tail 4, Remove_head, Remove_head, Remove_head]"

lemma sample_fifo: "fifo_ok sample_ops []" "fifo_run sample_ops [] = ([Some 4, Some 7, Some 4, NULL], [])"
  by (simp_all add: sample_ops_def)

lemma blank_reps: "list_rep blank_heap blank_list []" "list2_rep blank_heap blank_list []"
  by (simp_all add: list_rep_def list2_rep_def blank_list_def)

theorem list_is_fifo_queue_witness:
  "fst (queue_run list_add_tail_eurecom list_remove_head sample_ops (blank_heap, blank_list)) =
     [Some 4, Some 7, Some 4, NULL]"
  using list_is_fifo_queue [OF blank_reps(1) sample_fifo(1)]
  by (auto simp: sample_fifo split: prod.splits)

text \<open>
  C28. The lists of \<open>list2.c\<close> are first-in first-out queues in the same sense, with the backward
  links kept consistent.
\<close>

theorem list2_is_fifo_queue:
  assumes "list2_rep h l xs" "fifo_ok ops xs"
  shows "case queue_run list2_add_tail list2_remove_head ops (h, l) of (rs, h', l') \<Rightarrow>
    rs = fst (fifo_run ops xs) \<and> list2_rep h' l' (snd (fifo_run ops xs)) \<and>
    (\<forall>b. b \<notin> set xs \<union> blocks_of ops \<longrightarrow> h' b = h b)"
  using l2q.queue_is_fifo [OF assms] by (auto split: prod.splits simp: prod_eq_iff)

theorem list2_is_fifo_queue_witness:
  "fst (queue_run list2_add_tail list2_remove_head sample_ops (blank_heap, blank_list)) =
     [Some 4, Some 7, Some 4, NULL]"
  using list2_is_fifo_queue [OF blank_reps(2) sample_fifo(1)]
  by (auto simp: sample_fifo split: prod.splits)

text \<open>
  Removing an element from the middle, the head or the tail of a list, in \<open>list.c\<close> and in
  \<open>list2.c\<close>, terminates, follows no NULL link, returns the element, and leaves a well-formed list
  of the other blocks in their order.
\<close>

lemma remove_element_unlinks:
  assumes "list_rep h l (ys @ e # zs)" "list2_rep h2 l2 (ys @ e # zs)"
  shows "(\<exists>h' l'. list_remove_element (Some e) (h, l) = Some (Some e, h', l') \<and> list_rep h' l' (ys @ zs)) \<and>
    (\<exists>h' l'. list2_remove_element (Some e) (h2, l2) = Some (Some e, h', l') \<and> list2_rep h' l' (ys @ zs))"
  using list_remove_element_rep [OF assms(1)] list2_remove_element_rep [OF assms(2)] by blast

definition heap3 :: heap where
  "heap3 = blank_heap(
     1 := \<lparr>blk_next = Some 2, blk_prev = NULL, pool_id = 0, blk_data = NULL\<rparr>,
     2 := \<lparr>blk_next = Some 3, blk_prev = Some 1, pool_id = 0, blk_data = NULL\<rparr>,
     3 := \<lparr>blk_next = NULL, blk_prev = Some 2, pool_id = 0, blk_data = NULL\<rparr>)"

definition list3 :: list_t where
  "list3 = \<lparr>lhead = Some 1, ltail = Some 3, nb_elements = 3, lname = []\<rparr>"

lemma heap3_reps: "list_rep heap3 list3 ([1] @ 2 # [3])" "list2_rep heap3 list3 ([1] @ 2 # [3])"
  by (simp_all add: list_rep_def list2_rep_def heap3_def list3_def)

lemma remove_element_unlinks_example:
  "(\<exists>h' l'. list_remove_element (Some 2) (heap3, list3) = Some (Some 2, h', l') \<and> list_rep h' l' [1, 3]) \<and>
   (\<exists>h' l'. list2_remove_element (Some 2) (heap3, list3) = Some (Some 2, h', l') \<and> list2_rep h' l' [1, 3])"
  using remove_element_unlinks [OF heap3_reps] by simp

text \<open>
  Appending a list to another: both versions link the two chains into one well-formed list, and
  leave the sublist without head and tail; but while \<open>list_add_list\<close> also resets the sublist's
  counter, \<open>list2_add_list\<close> leaves it at the old length, so that a non-empty sublist is no longer
  well-formed.
\<close>

theorem add_list_concatenates:
  assumes "list_rep h l xs" "list_rep h s ys" "list2_rep h2 l2 xs" "list2_rep h2 s2 ys" "set xs \<inter> set ys = {}"
  shows "(case list_add_list (Some s) (h, l) of (h', s', l') \<Rightarrow>
      list_rep h' l' (xs @ ys) \<and> (\<exists>s''. s' = Some s'' \<and> list_rep h' s'' [])) \<and>
    (case list2_add_list (Some s2) (h2, l2) of (h', s', l') \<Rightarrow>
      list2_rep h' l' (xs @ ys) \<and> (\<exists>s''. s' = Some s'' \<and> nb_elements s'' = int (length ys) \<and>
        (list2_rep h' s'' [] \<longleftrightarrow> ys = [])))"
proof
  show "case list_add_list (Some s) (h, l) of (h', s', l') \<Rightarrow>
      list_rep h' l' (xs @ ys) \<and> (\<exists>s''. s' = Some s'' \<and> list_rep h' s'' [])"
    using list_add_list_rep [OF assms(1,2,5)] by (auto split: prod.splits)
  obtain h' s' l' where r: "list2_add_list (Some s2) (h2, l2) = (h', s', l')" by (metis prod_cases3)
  show "case list2_add_list (Some s2) (h2, l2) of (h', s', l') \<Rightarrow>
      list2_rep h' l' (xs @ ys) \<and> (\<exists>s''. s' = Some s'' \<and> nb_elements s'' = int (length ys) \<and>
        (list2_rep h' s'' [] \<longleftrightarrow> ys = []))"
    using list2_add_list_rep [OF assms(3,4,5) r] by (auto simp: r list2_rep_def)
qed

definition list4 :: list_t where
  "list4 = \<lparr>lhead = Some 4, ltail = Some 4, nb_elements = 1, lname = []\<rparr>"

lemma heap4_reps: "list_rep heap3 list4 [4]" "list2_rep heap3 list4 [4]"
  by (simp_all add: list_rep_def list2_rep_def heap3_def list4_def blank_heap_def)

theorem add_list_concatenates_witness:
  "case list2_add_list (Some list4) (heap3, list3) of (h', s', l') \<Rightarrow>
     list2_rep h' l' [1, 2, 3, 4] \<and> (\<exists>s''. s' = Some s'' \<and> nb_elements s'' = 1 \<and> \<not> list2_rep h' s'' [])"
  using add_list_concatenates [OF heap3_reps(1) heap4_reps(1) heap3_reps(2) heap4_reps(2)]
  by (auto split: prod.splits)

end
