(* ===== verification/MemPool.thy ===== *)
theory MemPool
  imports MemList
begin

text \<open>
  The block allocator of \<open>openair2/UTIL/MEM/mem_block.c\<close>, which supplies every PDU and SDU buffer
  of layer 2: fourteen free lists over one array of block headers, pool \<open>p\<close> holding blocks of
  \<open>64 * 2^p\<close> octets (pool 13, the copy pool, has headers without data). The state is the store
  of block headers and the list headers; addresses of data are offsets in the structure
  \<open>mem_block_var\<close>. The mutex \<open>mtex\<close> makes each call atomic, so a step of the model is a whole call.
  \<^term>\<open>None\<close> is a failed \<open>AssertFatal\<close>.
\<close>

section \<open>State and operations\<close>

record mem_pool =
  mem_blocks :: heap
  mem_lists :: "list_t list"

definition MEM_MNGT_MB12_BLOCK_SIZE :: nat where "MEM_MNGT_MB12_BLOCK_SIZE = 64 * 4096"
definition MEM_MNGT_POOL_ID_COPY :: nat where "MEM_MNGT_POOL_ID_COPY = 13"

definition block_size :: "nat \<Rightarrow> nat" where
  "block_size p = (if p \<le> 12 then 64 * 2 ^ p else 0)"

text \<open>The numbers of blocks; \<open>MEM_SCALE\<close> and the number for pool 8 depend on the build.\<close>

definition pool_sizes :: "nat \<Rightarrow> nat \<Rightarrow> nat list" where
  "pool_sizes mem_scale mb8 =
     [4096 * mem_scale, 4096 * mem_scale, 2048 * mem_scale, 2048 * mem_scale, 1024 * mem_scale,
      1024 * mem_scale, 1024 * mem_scale, 64 * mem_scale, mb8 * mem_scale, 8 * mem_scale,
      0 * mem_scale, 0 * mem_scale, 32 * mem_scale, 1024]"

text \<open>\<open>memset (memory, 0, sizeof (mem_pool))\<close>.\<close>

definition zero_block :: mem_block where
  "zero_block = \<lparr>blk_next = NULL, blk_prev = NULL, pool_id = 0, blk_data = NULL\<rparr>"

definition zero_list :: list_t where
  "zero_list = \<lparr>lhead = NULL, ltail = NULL, nb_elements = 0, lname = []\<rparr>"

text \<open>
  The inner loop body of \<open>pool_buffer_init\<close>: \<open>base\<close> is the offset of the array
  \<open>mem_pool<pool_index>\<close>, which follows those of the smaller pools.
\<close>

definition init_block :: "nat \<Rightarrow> nat \<Rightarrow> nat \<Rightarrow> nat \<Rightarrow> heap \<times> list_t \<Rightarrow> heap \<times> list_t" where
  "init_block pool_index base mb_index index s =
     (let h = fst s; a = mb_index + index;
          data = (if pool_index \<le> 12 then Some (base + index * block_size pool_index) else NULL)
      in list_add_tail_eurecom (Some a) (h(a := (h a)\<lparr>blk_data := data, pool_id := pool_index\<rparr>), snd s))"

fun init_pools :: "nat \<Rightarrow> nat \<Rightarrow> nat \<Rightarrow> nat list \<Rightarrow> heap \<Rightarrow> heap \<times> list_t list" where
  "init_pools pool_index base mb_index [] h = (h, [])"
| "init_pools pool_index base mb_index (n # ns) h =
     (let (h1, l) = fold (init_block pool_index base mb_index) [0..<n] (h, list_init (Some ''POOL'') zero_list);
          (h2, ls) = init_pools (pool_index + 1) (base + n * block_size pool_index) (mb_index + n) ns h1
      in (h2, l # ls))"

definition pool_buffer_init :: "nat list \<Rightarrow> mem_pool" where
  "pool_buffer_init sizes =
     (let (h, ls) = init_pools 0 0 0 sizes (\<lambda>_. zero_block) in \<lparr>mem_blocks = h, mem_lists = ls\<rparr>)"

definition free_mem_block :: "ptr \<Rightarrow> mem_pool \<Rightarrow> mem_pool" where
  "free_mem_block leP m =
     (case leP of
        None \<Rightarrow> m
      | Some a \<Rightarrow>
          let p = pool_id (mem_blocks m a) in
          if p \<le> MEM_MNGT_POOL_ID_COPY then
            (let (h, l) = list_add_tail_eurecom (Some a) (mem_blocks m, mem_lists m ! p)
             in m\<lparr>mem_blocks := h, mem_lists := (mem_lists m)[p := l]\<rparr>)
          else m)"

text \<open>The loop \<open>while ((size)) { pool_selected += 1; size = size >> 1; }\<close>.\<close>

fun select_pool :: "nat \<Rightarrow> nat \<Rightarrow> nat" where
  "select_pool sz pool_selected =
     (if sz = 0 then pool_selected else select_pool (sz div 2) (pool_selected + 1))"

declare select_pool.simps [simp del]

text \<open>The loop over the pools, \<open>do ... while (pool_selected++ < 12)\<close>.\<close>

function try_pools :: "nat \<Rightarrow> mem_pool \<Rightarrow> (ptr \<times> mem_pool) option" where
  "try_pools pool_selected m =
     (case list_remove_head (mem_blocks m, mem_lists m ! pool_selected) of
        (Some le, h, l) \<Rightarrow>
          if pool_id (h le) = pool_selected
          then Some (Some le, m\<lparr>mem_blocks := h, mem_lists := (mem_lists m)[pool_selected := l]\<rparr>)
          else None
      | (None, h, l) \<Rightarrow>
          if pool_selected < 12
          then try_pools (pool_selected + 1) (m\<lparr>mem_blocks := h, mem_lists := (mem_lists m)[pool_selected := l]\<rparr>)
          else Some (NULL, m\<lparr>mem_blocks := h, mem_lists := (mem_lists m)[pool_selected := l]\<rparr>))"
  by pat_completeness auto
termination by (relation "measure (\<lambda>(p, m). 12 - p)") auto

declare try_pools.simps [simp del]

definition get_free_mem_block :: "nat \<Rightarrow> mem_pool \<Rightarrow> (ptr \<times> mem_pool) option" where
  "get_free_mem_block sizeP m =
     (if sizeP > MEM_MNGT_MB12_BLOCK_SIZE then Some (NULL, m)
      else try_pools (select_pool (sizeP div 2 ^ 6) 0) m)"

text \<open>\<open>list_free\<close> of \<open>list.c\<close>, and \<open>list2_free\<close>, whose loop is the same.\<close>

partial_function (option) list_free :: "list_t \<Rightarrow> mem_pool \<Rightarrow> (list_t \<times> mem_pool) option" where
  "list_free l m =
     (case list_remove_head (mem_blocks m, l) of
        (Some le, h, l') \<Rightarrow> list_free l' (free_mem_block (Some le) (m\<lparr>mem_blocks := h\<rparr>))
      | (None, h, l') \<Rightarrow> Some (l', m\<lparr>mem_blocks := h\<rparr>))"

partial_function (option) list2_free :: "list2_t \<Rightarrow> mem_pool \<Rightarrow> (list2_t \<times> mem_pool) option" where
  "list2_free l m =
     (case list2_remove_head (mem_blocks m, l) of
        (Some le, h, l') \<Rightarrow> list2_free l' (free_mem_block (Some le) (m\<lparr>mem_blocks := h\<rparr>))
      | (None, h, l') \<Rightarrow> Some (l', m\<lparr>mem_blocks := h\<rparr>))"

section \<open>Pool selection\<close>

lemma select_pool_upper: "n < 2 ^ k \<Longrightarrow> select_pool n p \<le> p + k"
proof (induction k arbitrary: n p)
  case (Suc k)
  then have "n div 2 < 2 ^ k" by (simp add: less_mult_imp_div_less mult.commute)
  then have "select_pool (n div 2) (p + 1) \<le> (p + 1) + k" by (rule Suc.IH)
  then show ?case by (subst select_pool.simps) simp
qed (simp add: select_pool.simps)

lemma select_pool_lower: "p \<le> select_pool n p \<and> n < 2 ^ (select_pool n p - p)"
proof (induction n p rule: select_pool.induct)
  case (1 n p)
  show ?case
  proof (cases "n = 0")
    case False
    let ?q = "select_pool (n div 2) (p + 1)"
    have q: "p + 1 \<le> ?q" "n div 2 < 2 ^ (?q - (p + 1))" using 1 False by auto
    have "n < 2 * 2 ^ (?q - (p + 1))" using q(2) by linarith
    moreover have "?q - p = Suc (?q - (p + 1))" using q(1) by simp
    ultimately show ?thesis using False q(1) by (subst (1 2) select_pool.simps) simp
  qed (simp add: select_pool.simps)
qed

text \<open>A request of fewer than 262144 octets selects a pool with strictly larger blocks.\<close>

lemma selected_pool_fits:
  assumes "n < MEM_MNGT_MB12_BLOCK_SIZE"
  shows "select_pool (n div 2 ^ 6) 0 \<le> 12" "select_pool (n div 2 ^ 6) 0 \<le> q \<Longrightarrow> q \<le> 12 \<Longrightarrow> n < block_size q"
proof -
  let ?p = "select_pool (n div 2 ^ 6) 0"
  have "n div 2 ^ 6 < 2 ^ 12" using assms by (simp add: MEM_MNGT_MB12_BLOCK_SIZE_def)
  from select_pool_upper [OF this, of 0] show "?p \<le> 12" by simp
  assume q: "?p \<le> q" "q \<le> 12"
  have "n div 64 < 2 ^ ?p" using select_pool_lower [of 0 "n div 2 ^ 6"] by simp
  also have "(2::nat) ^ ?p \<le> 2 ^ q" using q by (simp add: power_increasing)
  finally show "n < block_size q" using q by (simp add: block_size_def)
qed

lemma select_pool_limit: "select_pool (MEM_MNGT_MB12_BLOCK_SIZE div 2 ^ 6) 0 = 13"
  by (simp add: MEM_MNGT_MB12_BLOCK_SIZE_def select_pool.simps)

section \<open>Representation of the pools\<close>

text \<open>
  \<open>pool_rep m xss\<close>: the free list of pool \<open>p\<close> is well formed and holds the blocks \<open>xss ! p\<close>, whose
  headers name pool \<open>p\<close>.
\<close>

definition pool_rep :: "mem_pool \<Rightarrow> nat list list \<Rightarrow> bool" where
  "pool_rep m xss \<longleftrightarrow> length (mem_lists m) = 14 \<and> length xss = 14 \<and>
     (\<forall>p<14. list_rep (mem_blocks m) (mem_lists m ! p) (xss ! p) \<and>
        (\<forall>a \<in> set (xss ! p). pool_id (mem_blocks m a) = p))"

definition same_hdr :: "heap \<Rightarrow> heap \<Rightarrow> bool" where
  "same_hdr h h' \<longleftrightarrow> (\<forall>a. pool_id (h' a) = pool_id (h a) \<and> blk_data (h' a) = blk_data (h a))"

lemma same_hdr_refl [simp]: "same_hdr h h"
  and same_hdr_trans: "same_hdr h h' \<Longrightarrow> same_hdr h' h'' \<Longrightarrow> same_hdr h h''"
  by (simp_all add: same_hdr_def)

lemma pool_repD:
  assumes "pool_rep m xss" "p < 14"
  shows "list_rep (mem_blocks m) (mem_lists m ! p) (xss ! p)"
    "a \<in> set (xss ! p) \<Longrightarrow> pool_id (mem_blocks m a) = p" "length (mem_lists m) = 14" "length xss = 14"
  using assms by (auto simp: pool_rep_def)

lemma pool_rep_disjoint:
  assumes "pool_rep m xss" "p < 14" "q < 14" "a \<in> set (xss ! p)" "a \<in> set (xss ! q)"
  shows "p = q"
  using assms pool_repD(2) by metis

lemma list_ops_same_hdr:
  "list_add_tail_eurecom (Some a) (h, l) = (h', l') \<Longrightarrow> same_hdr h h'"
  "list_remove_head (h, l) = (r, h', l') \<Longrightarrow> same_hdr h h'"
  "list2_remove_head (h, l) = (r, h', l') \<Longrightarrow> same_hdr h h'"
  by (auto simp: list_add_tail_eurecom_def list_remove_head_def list2_remove_head_def same_hdr_def Let_def
      split: option.splits if_splits)

text \<open>One pool's list changes, and with it only blocks that are in no other pool.\<close>

lemma pool_rep_update:
  assumes rep: "pool_rep m xss" and p: "p < 14"
    and new: "list_rep h' l' ys" "\<forall>a \<in> set ys. pool_id (h' a) = p"
    and frame: "\<And>q b. q < 14 \<Longrightarrow> q \<noteq> p \<Longrightarrow> b \<in> set (xss ! q) \<Longrightarrow> h' b = mem_blocks m b"
  shows "pool_rep (m\<lparr>mem_blocks := h', mem_lists := (mem_lists m)[p := l']\<rparr>) (xss[p := ys])"
  unfolding pool_rep_def
proof (intro conjI allI impI)
  note r = pool_repD [OF rep]
  show "length (mem_lists (m\<lparr>mem_blocks := h', mem_lists := (mem_lists m)[p := l']\<rparr>)) = 14"
    "length (xss[p := ys]) = 14" using r [OF p] by simp_all
  fix q :: nat assume q: "q < 14"
  have "q = p \<or> list_rep h' (mem_lists m ! q) (xss ! q) \<and> (\<forall>a \<in> set (xss ! q). pool_id (h' a) = q)"
    using list_rep_frame [OF r(1) [OF q], of h'] frame [OF q] r(2) [OF q] by auto
  then show "list_rep (mem_blocks (m\<lparr>mem_blocks := h', mem_lists := (mem_lists m)[p := l']\<rparr>))
      (mem_lists (m\<lparr>mem_blocks := h', mem_lists := (mem_lists m)[p := l']\<rparr>) ! q) (xss[p := ys] ! q)"
    "\<forall>a\<in>set (xss[p := ys] ! q).
      pool_id (mem_blocks (m\<lparr>mem_blocks := h', mem_lists := (mem_lists m)[p := l']\<rparr>) a) = q"
    using new r(3,4) [OF p] p by (cases "q = p"; simp)+
qed

lemma free_mem_block_rep:
  assumes rep: "pool_rep m xss" and p: "p < 14" "pool_id (mem_blocks m a) = p"
    and a: "\<And>q. q < 14 \<Longrightarrow> a \<notin> set (xss ! q)"
  shows "pool_rep (free_mem_block (Some a) m) (xss[p := xss ! p @ [a]])"
    "same_hdr (mem_blocks m) (mem_blocks (free_mem_block (Some a) m))"
    "\<And>b. b \<noteq> a \<Longrightarrow> b \<notin> set (xss ! p) \<Longrightarrow> mem_blocks (free_mem_block (Some a) m) b = mem_blocks m b"
proof -
  obtain h' l' where add: "list_add_tail_eurecom (Some a) (mem_blocks m, mem_lists m ! p) = (h', l')" by fastforce
  have eq: "free_mem_block (Some a) m = m\<lparr>mem_blocks := h', mem_lists := (mem_lists m)[p := l']\<rparr>"
    using p add by (simp add: free_mem_block_def MEM_MNGT_POOL_ID_COPY_def)
  note ad = list_add_tail_rep [OF pool_repD(1) [OF rep p(1)] a [OF p(1)] add]
  show hdr: "same_hdr (mem_blocks m) (mem_blocks (free_mem_block (Some a) m))"
    using list_ops_same_hdr(1) [OF add] by (simp add: eq)
  show "\<And>b. b \<noteq> a \<Longrightarrow> b \<notin> set (xss ! p) \<Longrightarrow> mem_blocks (free_mem_block (Some a) m) b = mem_blocks m b"
    using ad(2) by (simp add: eq)
  show "pool_rep (free_mem_block (Some a) m) (xss[p := xss ! p @ [a]])"
    unfolding eq
  proof (rule pool_rep_update [OF rep p(1) ad(1)])
    show "\<forall>b\<in>set (xss ! p @ [a]). pool_id (h' b) = p"
      using hdr p pool_repD(2) [OF rep p(1)] by (auto simp: same_hdr_def eq)
    show "h' b = mem_blocks m b" if "q < 14" "q \<noteq> p" "b \<in> set (xss ! q)" for q b
      using ad(2) [of b] that a pool_rep_disjoint [OF rep that(1) p(1) that(3)] by blast
  qed
qed

lemma try_pools_rep:
  assumes "pool_rep m xss" "p < 14"
  shows "(\<exists>q a xs m'. p \<le> q \<and> q < 14 \<and> (p \<le> 12 \<longrightarrow> q \<le> 12) \<and> xss ! q = a # xs \<and> try_pools p m = Some (Some a, m') \<and>
      pool_rep m' (xss[q := xs]) \<and> same_hdr (mem_blocks m) (mem_blocks m')) \<or>
    (\<forall>q. p \<le> q \<and> q \<le> max 12 p \<longrightarrow> xss ! q = []) \<and> try_pools p m = Some (NULL, m)"
  using assms
proof (induction p m rule: try_pools.induct)
  case (1 p m)
  note r = pool_repD [OF "1.prems"(1,2)]
  obtain rr h' l' where rem: "list_remove_head (mem_blocks m, mem_lists m ! p) = (rr, h', l')" by (metis prod_cases3)
  show ?case
  proof (cases "xss ! p")
    case Nil
    have eq: "rr = NULL" "h' = mem_blocks m" "l' = mem_lists m ! p"
      using list_remove_head_Nil [of "mem_blocks m" "mem_lists m ! p"] r(1) Nil rem by simp_all
    have m: "m\<lparr>mem_blocks := h', mem_lists := (mem_lists m)[p := l']\<rparr> = m" by (simp add: eq)
    show ?thesis
    proof (cases "p < 12")
      case True
      have step: "try_pools p m = try_pools (p + 1) m"
        using rem eq(1) True m by (subst try_pools.simps) simp
      have "(\<exists>q a xs m'. p + 1 \<le> q \<and> q < 14 \<and> (p + 1 \<le> 12 \<longrightarrow> q \<le> 12) \<and> xss ! q = a # xs \<and>
          try_pools (p + 1) m = Some (Some a, m') \<and> pool_rep m' (xss[q := xs]) \<and> same_hdr (mem_blocks m) (mem_blocks m')) \<or>
        (\<forall>q. p + 1 \<le> q \<and> q \<le> max 12 (p + 1) \<longrightarrow> xss ! q = []) \<and> try_pools (p + 1) m = Some (NULL, m)"
        using "1.IH" [OF rem [symmetric] eq(1) refl True] m eq "1.prems" True by simp
      then show ?thesis
      proof (elim disjE exE conjE)
        fix q a xs m'
        assume "p + 1 \<le> q" "q < 14" "p + 1 \<le> 12 \<longrightarrow> q \<le> 12" "xss ! q = a # xs" "try_pools (p + 1) m = Some (Some a, m')"
          "pool_rep m' (xss[q := xs])" "same_hdr (mem_blocks m) (mem_blocks m')"
        then show ?thesis using step True by (intro disjI1 exI [of _ q] exI [of _ a] exI [of _ xs] exI [of _ m']) simp
      next
        assume e: "\<forall>q. p + 1 \<le> q \<and> q \<le> max 12 (p + 1) \<longrightarrow> xss ! q = []" and t: "try_pools (p + 1) m = Some (NULL, m)"
        have "xss ! q = []" if "p \<le> q" "q \<le> max 12 p" for q
          using e [rule_format, of q] that Nil True by (cases "q = p") simp_all
        then show ?thesis using step t by simp
      qed
    next
      case False
      then have "try_pools p m = Some (NULL, m)" using rem eq(1) m by (subst try_pools.simps) simp
      then show ?thesis using Nil False by (intro disjI2) (auto simp: max_def)
    qed
  next
    case (Cons a xs)
    have rep': "list_rep (mem_blocks m) (mem_lists m ! p) (a # xs)" using r(1) Cons by simp
    note rh = list_remove_head_rep [OF rep' rem]
    have hdr: "same_hdr (mem_blocks m) h'" by (rule list_ops_same_hdr(2) [OF rem])
    have pid: "pool_id (h' b) = p" if "b \<in> set (a # xs)" for b
      using hdr r(2) [of b] Cons that by (simp add: same_hdr_def)
    let ?m' = "m\<lparr>mem_blocks := h', mem_lists := (mem_lists m)[p := l']\<rparr>"
    have "try_pools p m = Some (Some a, ?m')"
      using rem rh(1) pid by (subst try_pools.simps) simp
    moreover have "pool_rep ?m' (xss[p := xs])"
    proof (rule pool_rep_update [OF "1.prems" rh(2)])
      show "\<forall>b\<in>set xs. pool_id (h' b) = p" using pid by simp
      show "h' b = mem_blocks m b" if "q < 14" "q \<noteq> p" "b \<in> set (xss ! q)" for q b
        using rh(3) [of b] pool_rep_disjoint [OF "1.prems"(1) that(1) "1.prems"(2) that(3)] that(2) Cons by auto
    qed
    ultimately show ?thesis
      using Cons hdr "1.prems"(2) by (intro disjI1 exI [of _ p] exI [of _ a] exI [of _ xs] exI [of _ ?m']) simp
  qed
qed

section \<open>Initialisation\<close>

definition data_base :: "nat list \<Rightarrow> nat \<Rightarrow> nat" where
  "data_base sizes p = (\<Sum>q<p. sizes ! q * block_size q)"

definition first_block :: "nat list \<Rightarrow> nat \<Rightarrow> nat" where
  "first_block sizes p = (\<Sum>q<p. sizes ! q)"

text \<open>The headers as \<open>pool_buffer_init\<close> writes them; no later operation changes these fields.\<close>

definition hdr_ok :: "nat list \<Rightarrow> heap \<Rightarrow> bool" where
  "hdr_ok sizes h \<longleftrightarrow> (\<forall>p i. p < 14 \<longrightarrow> i < sizes ! p \<longrightarrow>
     pool_id (h (first_block sizes p + i)) = p \<and>
     blk_data (h (first_block sizes p + i)) = (if p \<le> 12 then Some (data_base sizes p + i * block_size p) else NULL))"

lemma init_block_fold:
  assumes "fold (init_block p base mb) [0..<n] (h, l0) = (h', l)" "list_rep h l0 []"
  shows "list_rep h' l [mb..<mb + n] \<and> (\<forall>i<n. pool_id (h' (mb + i)) = p \<and>
      blk_data (h' (mb + i)) = (if p \<le> 12 then Some (base + i * block_size p) else NULL)) \<and>
    (\<forall>b. b < mb \<or> mb + n \<le> b \<longrightarrow> h' b = h b)"
  using assms
proof (induction n arbitrary: h' l)
  case (Suc n)
  obtain h1 l1 where f: "fold (init_block p base mb) [0..<n] (h, l0) = (h1, l1)" by fastforce
  note IH = Suc.IH [OF f Suc.prems(2)]
  let ?a = "mb + n"
  let ?h2 = "h1(?a := (h1 ?a)\<lparr>blk_data := if p \<le> 12 then Some (base + n * block_size p) else NULL, pool_id := p\<rparr>)"
  have add: "list_add_tail_eurecom (Some ?a) (?h2, l1) = (h', l)"
  proof -
    have "init_block p base mb n (h1, l1) = (h', l)" using Suc.prems(1) f by simp
    then show ?thesis by (simp add: init_block_def Let_def split del: if_split)
  qed
  have rep: "list_rep ?h2 l1 [mb..<mb + n]" by (rule list_rep_frame [of h1]) (use IH in auto)
  have a: "?a \<notin> set [mb..<mb + n]" by simp
  note ad = list_add_tail_rep [OF rep a add]
  have hdr: "same_hdr ?h2 h'" by (rule list_ops_same_hdr(1) [OF add])
  have "pool_id (h' (mb + i)) = p \<and> blk_data (h' (mb + i)) = (if p \<le> 12 then Some (base + i * block_size p) else NULL)"
    if "i < Suc n" for i
    using hdr IH that by (cases "i = n") (auto simp: same_hdr_def)
  moreover have "h' b = h b" if "b < mb \<or> mb + Suc n \<le> b" for b
    using ad(2) [of b] IH that by auto
  ultimately show ?case using ad(1) by simp
qed simp

lemma sum_first_Suc: "(\<Sum>q<Suc i. f q) = f 0 + (\<Sum>q<i. f (Suc q))" for f :: "nat \<Rightarrow> nat"
  by (rule sum.lessThan_Suc_shift)

lemma init_pools_rep:
  assumes "init_pools p base mb ns h = (h', ls)"
  shows "length ls = length ns \<and> (\<forall>b<mb. h' b = h b) \<and> (\<forall>i<length ns.
    (let fb = mb + (\<Sum>q<i. ns ! q); db = base + (\<Sum>q<i. ns ! q * block_size (p + q)) in
     list_rep h' (ls ! i) [fb..<fb + ns ! i] \<and> (\<forall>j<ns ! i. pool_id (h' (fb + j)) = p + i \<and>
       blk_data (h' (fb + j)) = (if p + i \<le> 12 then Some (db + j * block_size (p + i)) else NULL))))"
  using assms
proof (induction p base mb ns h arbitrary: h' ls rule: init_pools.induct)
  case (2 p base mb n ns h)
  obtain h1 l where f: "fold (init_block p base mb) [0..<n] (h, list_init (Some ''POOL'') zero_list) = (h1, l)" by fastforce
  obtain ls1 where r: "init_pools (p + 1) (base + n * block_size p) (mb + n) ns h1 = (h', ls1)" and ls: "ls = l # ls1"
    using "2.prems" f by (auto split: prod.splits)
  note b = init_block_fold [OF f list_init_rep]
  note IH = "2.IH" [OF f [symmetric] refl r, unfolded Let_def]
  have frame: "\<forall>a<mb + n. h' a = h1 a" using IH by blast
  have l: "list_rep h' l [mb..<mb + n]" by (rule list_rep_frame [of h1]) (use b frame in auto)
  show ?case
    unfolding Let_def ls
  proof (intro conjI allI impI)
    fix i assume i: "i < length (n # ns)"
    show "list_rep h' ((l # ls1) ! i) [mb + (\<Sum>q<i. (n # ns) ! q)..<mb + (\<Sum>q<i. (n # ns) ! q) + (n # ns) ! i]"
      using i l IH by (cases i) (auto simp: sum_first_Suc add.assoc simp del: sum.lessThan_Suc)
    fix j assume j: "j < (n # ns) ! i"
    show "pool_id (h' (mb + (\<Sum>q<i. (n # ns) ! q) + j)) = p + i"
      using i j b frame IH by (cases i) (auto simp: sum_first_Suc add.assoc simp del: sum.lessThan_Suc)
    show "blk_data (h' (mb + (\<Sum>q<i. (n # ns) ! q) + j)) =
        (if p + i \<le> 12 then Some (base + (\<Sum>q<i. (n # ns) ! q * block_size (p + q)) + j * block_size (p + i)) else NULL)"
      using i j b frame IH by (cases i) (auto simp: sum_first_Suc add.assoc simp del: sum.lessThan_Suc)
  qed (use IH b frame in auto)
qed simp

lemma pool_buffer_init_rep:
  assumes "length sizes = 14"
  shows "pool_rep (pool_buffer_init sizes) (map (\<lambda>p. [first_block sizes p..<first_block sizes (Suc p)]) [0..<14])"
    "hdr_ok sizes (mem_blocks (pool_buffer_init sizes))"
proof -
  obtain h ls where r: "init_pools 0 0 0 sizes (\<lambda>_. zero_block) = (h, ls)" by fastforce
  have m: "pool_buffer_init sizes = \<lparr>mem_blocks = h, mem_lists = ls\<rparr>" by (simp add: pool_buffer_init_def r)
  note R = init_pools_rep [OF r, unfolded Let_def]
  show hdr: "hdr_ok sizes (mem_blocks (pool_buffer_init sizes))"
    using R assms by (simp add: m hdr_ok_def first_block_def data_base_def)
  have "list_rep h (ls ! p) [first_block sizes p..<first_block sizes (Suc p)]" if "p < 14" for p
    using R assms that by (simp add: first_block_def)
  moreover have "pool_id (h a) = p" if "p < 14" "first_block sizes p \<le> a" "a < first_block sizes (Suc p)" for p a
  proof -
    from that(2) obtain i where "a = first_block sizes p + i" by (auto simp: le_iff_add)
    then show ?thesis using hdr that by (simp add: m hdr_ok_def first_block_def)
  qed
  ultimately show "pool_rep (pool_buffer_init sizes) (map (\<lambda>p. [first_block sizes p..<first_block sizes (Suc p)]) [0..<14])"
    using R assms by (simp add: m pool_rep_def)
qed

section \<open>Reachable states\<close>

text \<open>
  \<open>mem_reach sizes m A\<close>: the allocator reaches state \<open>m\<close> with the blocks \<open>A\<close> handed out. The
  holder of a block may relink it (step \<open>client\<close>) and give it back once.
\<close>

inductive mem_reach :: "nat list \<Rightarrow> mem_pool \<Rightarrow> nat set \<Rightarrow> bool" for sizes where
  init: "mem_reach sizes (pool_buffer_init sizes) {}"
| alloc: "mem_reach sizes m A \<Longrightarrow> get_free_mem_block n m = Some (r, m') \<Longrightarrow> mem_reach sizes m' (A \<union> set_option r)"
| free: "mem_reach sizes m A \<Longrightarrow> a \<in> A \<Longrightarrow> mem_reach sizes (free_mem_block (Some a) m) (A - {a})"
| client: "mem_reach sizes m A \<Longrightarrow> \<forall>b. b \<notin> A \<longrightarrow> h' b = mem_blocks m b \<Longrightarrow> same_hdr (mem_blocks m) h' \<Longrightarrow>
    mem_reach sizes (m\<lparr>mem_blocks := h'\<rparr>) A"

definition free_blocks :: "nat list list \<Rightarrow> nat set" where
  "free_blocks xss = (\<Union>p<14. set (xss ! p))"

definition all_blocks :: "nat list \<Rightarrow> nat set" where
  "all_blocks sizes = {..<first_block sizes 14}"

definition mem_inv :: "nat list \<Rightarrow> mem_pool \<Rightarrow> nat set \<Rightarrow> nat list list \<Rightarrow> bool" where
  "mem_inv sizes m A xss \<longleftrightarrow> pool_rep m xss \<and> hdr_ok sizes (mem_blocks m) \<and>
     A \<subseteq> all_blocks sizes \<and> free_blocks xss = all_blocks sizes - A"

lemma hdr_ok_same: "hdr_ok sizes h \<Longrightarrow> same_hdr h h' \<Longrightarrow> hdr_ok sizes h'"
  by (simp add: hdr_ok_def same_hdr_def)

lemma block_in_pool:
  assumes "a \<in> all_blocks sizes"
  obtains p i where "p < 14" "i < sizes ! p" "a = first_block sizes p + i"
proof -
  have "\<exists>p i. p < k \<and> i < sizes ! p \<and> a = first_block sizes p + i" if "a < first_block sizes k" for k
    using that
  proof (induction k)
    case (Suc k)
    show ?case
    proof (cases "a < first_block sizes k")
      case False
      then have "a = first_block sizes k + (a - first_block sizes k)" "a - first_block sizes k < sizes ! k"
        using Suc.prems by (auto simp: first_block_def)
      then show ?thesis by blast
    next
      case True
      from Suc.IH [OF this] show ?thesis using less_SucI by blast
    qed
  qed (simp add: first_block_def)
  then show ?thesis using assms that unfolding all_blocks_def by blast
qed

lemma hdr_ok_pool_id: "hdr_ok sizes h \<Longrightarrow> a \<in> all_blocks sizes \<Longrightarrow> pool_id (h a) < 14"
  by (rule block_in_pool [of a sizes]) (auto simp: hdr_ok_def)

lemma in_free_blocks: "p < 14 \<Longrightarrow> a \<in> set (xss ! p) \<Longrightarrow> a \<in> free_blocks xss"
  by (auto simp: free_blocks_def)

lemma free_blocks_update:
  assumes "length xss = 14" "p < 14"
  shows "free_blocks (xss[p := ys]) = (\<Union>q\<in>{..<14} - {p}. set (xss ! q)) \<union> set ys"
proof -
  have "{..<14} = insert p ({..<14} - {p})" using assms by auto
  then have "free_blocks (xss[p := ys]) = set (xss[p := ys] ! p) \<union> (\<Union>q\<in>{..<14} - {p}. set (xss[p := ys] ! q))"
    unfolding free_blocks_def by (metis UN_insert)
  then show ?thesis using assms by auto
qed

lemma free_blocks_add:
  assumes "length xss = 14" "p < 14"
  shows "free_blocks (xss[p := xss ! p @ [a]]) = insert a (free_blocks xss)"
  using free_blocks_update [OF assms, of "xss ! p @ [a]"] free_blocks_update [OF assms, of "xss ! p"]
  by auto

lemma free_blocks_take:
  assumes rep: "pool_rep m xss" and p: "p < 14" and hd: "xss ! p = a # xs"
  shows "free_blocks (xss[p := xs]) = free_blocks xss - {a}" "a \<in> free_blocks xss"
proof -
  have len: "length xss = 14" using pool_repD(4) [OF rep p] .
  have "a \<notin> set (xss ! q)" if "q < 14" "q \<noteq> p" for q
    using pool_rep_disjoint [OF rep that(1) p] hd that(2) by auto
  moreover have "a \<notin> set xs" using pool_repD(1) [OF rep p] hd by (simp add: list_rep_def)
  ultimately show "free_blocks (xss[p := xs]) = free_blocks xss - {a}"
    using free_blocks_update [OF len p, of xs] free_blocks_update [OF len p, of "xss ! p"] unfolding list_update_id
    by (auto simp: hd)
  show "a \<in> free_blocks xss" using p hd by (auto intro: in_free_blocks)
qed

lemma free_mem_block_inv:
  assumes inv: "mem_inv sizes m A xss" and a: "a \<in> A"
  shows "\<exists>xss'. mem_inv sizes (free_mem_block (Some a) m) (A - {a}) xss'"
    "b \<in> A \<Longrightarrow> b \<noteq> a \<Longrightarrow> mem_blocks (free_mem_block (Some a) m) b = mem_blocks m b"
proof -
  let ?p = "pool_id (mem_blocks m a)"
  have rep: "pool_rep m xss" and p: "?p < 14"
    using inv a hdr_ok_pool_id by (auto simp: mem_inv_def)
  have out: "x \<notin> set (xss ! q)" if "q < 14" "x \<in> A" for q x
    using inv that by (auto simp: mem_inv_def dest: in_free_blocks)
  note F = free_mem_block_rep [OF rep p refl out [OF _ a]]
  have "mem_inv sizes (free_mem_block (Some a) m) (A - {a}) (xss[?p := xss ! ?p @ [a]])"
    using inv F(1) hdr_ok_same [OF _ F(2)] a free_blocks_add [OF pool_repD(4) [OF rep p] p, of a]
    by (auto simp: mem_inv_def)
  then show "\<exists>xss'. mem_inv sizes (free_mem_block (Some a) m) (A - {a}) xss'" by blast
  show "mem_blocks (free_mem_block (Some a) m) b = mem_blocks m b" if "b \<in> A" "b \<noteq> a"
    using F(3) [of b] out [OF p that(1)] that(2) by simp
qed

lemma get_free_mem_block_inv:
  assumes inv: "mem_inv sizes m A xss"
  shows "\<exists>r m' xss'. get_free_mem_block n m = Some (r, m') \<and> mem_inv sizes m' (A \<union> set_option r) xss'"
proof (cases "n > MEM_MNGT_MB12_BLOCK_SIZE")
  case True
  then show ?thesis using inv by (auto simp: get_free_mem_block_def)
next
  case False
  let ?p = "select_pool (n div 2 ^ 6) 0"
  have "n div 2 ^ 6 < 2 ^ 13" using False by (simp add: MEM_MNGT_MB12_BLOCK_SIZE_def)
  from select_pool_upper [OF this, of 0] have "?p < 14" by simp
  moreover have rep: "pool_rep m xss" using inv by (simp add: mem_inv_def)
  ultimately consider (some) q a xs m' where "q < 14" "xss ! q = a # xs" "try_pools ?p m = Some (Some a, m')"
      "pool_rep m' (xss[q := xs])" "same_hdr (mem_blocks m) (mem_blocks m')" | (none) "try_pools ?p m = Some (NULL, m)"
    using try_pools_rep by blast
  then show ?thesis
  proof cases
    case some
    note fb = free_blocks_take [OF rep some(1,2)]
    have "mem_inv sizes m' (A \<union> {a}) (xss[q := xs])"
      using inv some(4) hdr_ok_same [OF _ some(5)] fb by (auto simp: mem_inv_def)
    then show ?thesis using some(3) False by (auto simp: get_free_mem_block_def)
  next
    case none
    then show ?thesis using inv False by (auto simp: get_free_mem_block_def)
  qed
qed

lemma client_inv:
  assumes inv: "mem_inv sizes m A xss" and frame: "\<forall>b. b \<notin> A \<longrightarrow> h' b = mem_blocks m b" and hdr: "same_hdr (mem_blocks m) h'"
  shows "mem_inv sizes (m\<lparr>mem_blocks := h'\<rparr>) A xss"
proof -
  have "h' b = mem_blocks m b" if "p < 14" "b \<in> set (xss ! p)" for p b
    using inv frame in_free_blocks [OF that] by (auto simp: mem_inv_def)
  then have "pool_rep (m\<lparr>mem_blocks := h'\<rparr>) xss"
    using inv list_rep_frame unfolding mem_inv_def pool_rep_def by simp metis
  then show ?thesis using inv hdr_ok_same [OF _ hdr] by (simp add: mem_inv_def)
qed

lemma mem_reach_inv:
  assumes "mem_reach sizes m A" "length sizes = 14"
  shows "\<exists>xss. mem_inv sizes m A xss"
  using assms
proof (induction rule: mem_reach.induct)
  case init
  let ?xss = "map (\<lambda>p. [first_block sizes p..<first_block sizes (Suc p)]) [0..<14]"
  have "x \<in> free_blocks ?xss \<longleftrightarrow> x \<in> all_blocks sizes" for x
  proof
    assume "x \<in> all_blocks sizes"
    then obtain p i where "p < 14" "i < sizes ! p" "x = first_block sizes p + i" by (rule block_in_pool)
    then show "x \<in> free_blocks ?xss" by (auto simp: free_blocks_def first_block_def intro!: bexI [of _ p])
  next
    assume "x \<in> free_blocks ?xss"
    then obtain p where "p < 14" "x < first_block sizes (Suc p)" by (auto simp: free_blocks_def)
    moreover have "first_block sizes (Suc p) \<le> first_block sizes 14" if "p < 14"
      using that unfolding first_block_def by (intro sum_mono2) auto
    ultimately show "x \<in> all_blocks sizes" by (simp add: all_blocks_def)
  qed
  then show ?case using pool_buffer_init_rep [OF init] by (auto simp: mem_inv_def)
next
  case (alloc m A n r m')
  then obtain xss where "mem_inv sizes m A xss" by blast
  from get_free_mem_block_inv [OF this, of n] alloc.hyps(2) show ?case by auto
next
  case (free m A a)
  then obtain xss where "mem_inv sizes m A xss" by blast
  from free_mem_block_inv(1) [OF this free.hyps(2)] show ?case .
next
  case (client m A h')
  then show ?case using client_inv by blast
qed

section \<open>Giving back a whole list\<close>

locale freed_queue = block_queue +
  fixes free_all :: "list_t \<Rightarrow> mem_pool \<Rightarrow> (list_t \<times> mem_pool) option"
  assumes free_all_rec: "free_all l m =
      (case remove_head (mem_blocks m, l) of
         (Some le, h, l') \<Rightarrow> free_all l' (free_mem_block (Some le) (m\<lparr>mem_blocks := h\<rparr>))
       | (None, h, l') \<Rightarrow> Some (l', m\<lparr>mem_blocks := h\<rparr>))"
    and rep_frame: "rep h l xs \<Longrightarrow> (\<And>x. x \<in> set xs \<Longrightarrow> h' x = h x) \<Longrightarrow> rep h' l xs"
    and rep_distinct: "rep h l xs \<Longrightarrow> distinct xs"
    and remove_head_hdr: "remove_head (h, l) = (r, h', l') \<Longrightarrow> same_hdr h h'"
begin

lemma free_all_gives_back:
  assumes "mem_reach sizes m A" "length sizes = 14" "rep (mem_blocks m) l xs" "set xs \<subseteq> A"
  shows "\<exists>l' m'. free_all l m = Some (l', m') \<and> rep (mem_blocks m') l' [] \<and> mem_reach sizes m' (A - set xs)"
  using assms
proof (induction xs arbitrary: m l A)
  case Nil
  then show ?case using free_all_rec [of l m] remove_head_Nil [OF Nil.prems(3)] by simp
next
  case (Cons x xs)
  obtain r h' l' where rem: "remove_head (mem_blocks m, l) = (r, h', l')" by (metis prod_cases3)
  note rh = remove_head_rep [OF Cons.prems(3) rem] remove_head_frame [OF Cons.prems(3) rem]
  let ?m1 = "m\<lparr>mem_blocks := h'\<rparr>" and ?m2 = "free_mem_block (Some x) (m\<lparr>mem_blocks := h'\<rparr>)"
  have step: "free_all l m = free_all l' ?m2" using free_all_rec [of l m] rem rh by simp
  have "h' b = mem_blocks m b" if "b \<notin> A" for b
    by (rule rh(2)) (use that Cons.prems(4) in blast)
  then have reach1: "mem_reach sizes ?m1 A"
    using mem_reach.client [OF Cons.prems(1) _ remove_head_hdr [OF rem]] by blast
  then obtain xss where inv: "mem_inv sizes ?m1 A xss" using mem_reach_inv Cons.prems(2) by blast
  have xA: "x \<in> A" using Cons.prems(4) by simp
  have d: "distinct (x # xs)" by (rule rep_distinct [OF Cons.prems(3)])
  have "rep (mem_blocks ?m2) l' xs"
    by (rule rep_frame [of h']) (use rh free_mem_block_inv(2) [OF inv xA] d Cons.prems(4) in \<open>auto simp: subset_eq\<close>)
  moreover have "set xs \<subseteq> A - {x}" using d Cons.prems(4) by auto
  ultimately have "\<exists>l'' m'. free_all l' ?m2 = Some (l'', m') \<and> rep (mem_blocks m') l'' [] \<and>
      mem_reach sizes m' (A - {x} - set xs)"
    by (intro Cons.IH [OF mem_reach.free [OF reach1 xA] Cons.prems(2)])
  then show ?case using step by (simp add: Diff_insert2 [symmetric])
qed

end

interpretation lf: freed_queue list_rep list_add_tail_eurecom list_remove_head list_free
  by unfold_locales
    (rule list_free.simps, erule list_rep_frame, simp, simp add: list_rep_def, erule list_ops_same_hdr)

interpretation l2f: freed_queue list2_rep list2_add_tail list2_remove_head list2_free
  by unfold_locales
    (rule list2_free.simps, erule list2_rep_frame, simp, simp add: list2_rep_def, erule list_ops_same_hdr)

section \<open>Data areas\<close>

definition data_area :: "heap \<Rightarrow> nat \<Rightarrow> nat set" where
  "data_area h a = (case blk_data (h a) of None \<Rightarrow> {} | Some off \<Rightarrow> {off..<off + block_size (pool_id (h a))})"

lemma data_base_mono: "p \<le> q \<Longrightarrow> data_base sizes p \<le> data_base sizes q"
  unfolding data_base_def by (intro sum_mono2) auto

lemma first_block_mono: "p \<le> q \<Longrightarrow> first_block sizes p \<le> first_block sizes q"
  unfolding first_block_def by (intro sum_mono2) auto

lemma data_areas_ordered:
  assumes "p < q \<or> p = q \<and> i < j" "i < sizes ! p"
  shows "data_base sizes p + i * block_size p + block_size p \<le> data_base sizes q + j * block_size q"
proof -
  have "(i + 1) * block_size p \<le> sizes ! p * block_size p" using assms(2) by (intro mult_right_mono) auto
  then have next_pool: "data_base sizes p + i * block_size p + block_size p \<le> data_base sizes (Suc p)"
    by (simp add: data_base_def)
  show ?thesis
  proof (cases "p = q")
    case True
    then have "(i + 1) * block_size p \<le> j * block_size q" using assms by (intro mult_mono) auto
    then show ?thesis using True by simp
  next
    case False
    then show ?thesis using assms next_pool data_base_mono [of "Suc p" q sizes] by simp
  qed
qed

lemma data_areas_disjoint:
  assumes ok: "hdr_ok sizes h" and a: "a \<in> all_blocks sizes" and b: "b \<in> all_blocks sizes" and ne: "a \<noteq> b"
  shows "data_area h a \<inter> data_area h b = {}"
proof -
  obtain p i where p: "p < 14" "i < sizes ! p" "a = first_block sizes p + i" using a by (rule block_in_pool)
  obtain q j where q: "q < 14" "j < sizes ! q" "b = first_block sizes q + j" using b by (rule block_in_pool)
  have area: "data_area h a \<subseteq> {data_base sizes p + i * block_size p..<data_base sizes p + i * block_size p + block_size p}"
      "data_area h b \<subseteq> {data_base sizes q + j * block_size q..<data_base sizes q + j * block_size q + block_size q}"
    using ok p q by (simp_all add: hdr_ok_def data_area_def)
  have "p \<noteq> q \<or> i \<noteq> j" using ne p q by auto
  then consider "p < q \<or> p = q \<and> i < j" | "q < p \<or> q = p \<and> j < i" by linarith
  then show ?thesis
  proof cases
    case 1
    then show ?thesis using area data_areas_ordered [of p q i j sizes] p(2) by fastforce
  next
    case 2
    then show ?thesis using area data_areas_ordered [of q p j i sizes] q(2) by fastforce
  qed
qed

section \<open>Properties\<close>

text \<open>
  C7. In every reachable state, a request of fewer than 262144 octets does not fail its assertion
  and returns either a block that nobody holds, with a data area larger than the request and
  disjoint from the areas of all blocks handed out, or NULL; NULL only when every block of the
  selected pool and of all larger ones (up to pool 12) is handed out.
\<close>

theorem mem_alloc_sound:
  assumes reach: "mem_reach sizes m A" and len: "length sizes = 14" and n: "n < MEM_MNGT_MB12_BLOCK_SIZE"
  shows "\<exists>r m'. get_free_mem_block n m = Some (r, m') \<and>
    (case r of
       None \<Rightarrow> \<forall>a \<in> all_blocks sizes - A. pool_id (mem_blocks m a) \<notin> {select_pool (n div 2 ^ 6) 0..12}
     | Some a \<Rightarrow> a \<in> all_blocks sizes - A \<and> n < card (data_area (mem_blocks m') a) \<and>
         (\<forall>b \<in> A. data_area (mem_blocks m') a \<inter> data_area (mem_blocks m') b = {}))"
proof -
  let ?p = "select_pool (n div 2 ^ 6) 0"
  obtain xss where inv: "mem_inv sizes m A xss" using mem_reach_inv [OF reach len] by blast
  have rep: "pool_rep m xss" and hdr: "hdr_ok sizes (mem_blocks m)" and A: "A \<subseteq> all_blocks sizes"
    and fb: "free_blocks xss = all_blocks sizes - A" using inv by (simp_all add: mem_inv_def)
  have p: "?p \<le> 12" by (rule selected_pool_fits(1) [OF n])
  have get: "get_free_mem_block n m = try_pools ?p m" using n by (simp add: get_free_mem_block_def)
  from p have "?p < 14" by simp
  from try_pools_rep [OF rep this] p consider
      (some) q a xs m' where "?p \<le> q" "q \<le> 12" "xss ! q = a # xs" "try_pools ?p m = Some (Some a, m')"
        "pool_rep m' (xss[q := xs])" "same_hdr (mem_blocks m) (mem_blocks m')"
    | (none) "\<forall>q. ?p \<le> q \<and> q \<le> 12 \<longrightarrow> xss ! q = []" "try_pools ?p m = Some (NULL, m)"
    by (auto simp: max_def split: if_splits)
  then show ?thesis
  proof cases
    case some
    have a: "a \<in> all_blocks sizes - A" using free_blocks_take(2) [OF rep _ some(3)] some(2) fb by simp
    have hdr': "hdr_ok sizes (mem_blocks m')" by (rule hdr_ok_same [OF hdr some(6)])
    have q: "pool_id (mem_blocks m' a) = q"
      using pool_repD(2) [OF rep, of q a] some by (simp add: same_hdr_def)
    have "a \<in> all_blocks sizes" using a by simp
    then obtain p' i where p': "p' < 14" "i < sizes ! p'" "a = first_block sizes p' + i" by (rule block_in_pool)
    then have "p' = q" using hdr' q by (simp add: hdr_ok_def)
    then have "card (data_area (mem_blocks m') a) = block_size q"
      using hdr' p' some(2) by (simp add: hdr_ok_def data_area_def)
    then have "n < card (data_area (mem_blocks m') a)"
      using selected_pool_fits(2) [OF n some(1,2)] by simp
    moreover have "data_area (mem_blocks m') a \<inter> data_area (mem_blocks m') b = {}" if "b \<in> A" for b
      using data_areas_disjoint [OF hdr'] a A that by auto
    ultimately show ?thesis using get some(4) a by auto
  next
    case none
    have "pool_id (mem_blocks m a) \<notin> {?p..12}" if "a \<in> free_blocks xss" for a
      using that none(1) pool_repD(2) [OF rep] by (fastforce simp: free_blocks_def)
    then show ?thesis using get none(2) fb by auto
  qed
qed

text \<open>Two blocks in each pool.\<close>

definition sample_sizes :: "nat list" where "sample_sizes = replicate 14 2"

lemma sample_sizes_len: "length sample_sizes = 14"
  by (simp add: sample_sizes_def)

theorem mem_alloc_sound_witness:
  "\<exists>r m'. get_free_mem_block 1500 (pool_buffer_init sample_sizes) = Some (r, m') \<and>
     (case r of None \<Rightarrow> \<forall>a \<in> all_blocks sample_sizes. pool_id (mem_blocks (pool_buffer_init sample_sizes) a) \<notin> {5..12}
      | Some a \<Rightarrow> 1500 < card (data_area (mem_blocks m') a))"
proof -
  have "select_pool (1500 div 2 ^ 6) 0 = 5" by (simp add: select_pool.simps)
  then show ?thesis
    using mem_alloc_sound [OF mem_reach.init sample_sizes_len, of 1500]
    by (fastforce simp: MEM_MNGT_MB12_BLOCK_SIZE_def split: option.splits)
qed

text \<open>
  C22. No block is lost or duplicated: in every reachable state the fourteen free lists are well
  formed, each block of pool \<open>p\<close> that is not handed out is on list \<open>p\<close> exactly once, and no
  block that is handed out is on any list.
\<close>

theorem mem_blocks_conserved:
  assumes "mem_reach sizes m A" "length sizes = 14"
  shows "\<exists>xss. pool_rep m xss \<and> (\<forall>p<14. distinct (xss ! p) \<and>
    set (xss ! p) = {a \<in> all_blocks sizes - A. pool_id (mem_blocks m a) = p})"
proof -
  obtain xss where inv: "mem_inv sizes m A xss" using mem_reach_inv [OF assms] by blast
  have rep: "pool_rep m xss" and fb: "free_blocks xss = all_blocks sizes - A"
    using inv by (simp_all add: mem_inv_def)
  have "distinct (xss ! p) \<and> set (xss ! p) = {a \<in> all_blocks sizes - A. pool_id (mem_blocks m a) = p}"
    if p: "p < 14" for p
  proof (intro conjI set_eqI iffI)
    show "distinct (xss ! p)" using pool_repD(1) [OF rep p] by (simp add: list_rep_def)
    fix a
    show "a \<in> {a \<in> all_blocks sizes - A. pool_id (mem_blocks m a) = p}" if "a \<in> set (xss ! p)"
      using that fb in_free_blocks [OF p] pool_repD(2) [OF rep p] by auto
    show "a \<in> set (xss ! p)" if "a \<in> {a \<in> all_blocks sizes - A. pool_id (mem_blocks m a) = p}"
    proof -
      have "a \<in> free_blocks xss" using that fb by simp
      then obtain q where "q < 14" "a \<in> set (xss ! q)" by (auto simp: free_blocks_def)
      then show ?thesis using pool_repD(2) [OF rep] that by auto
    qed
  qed
  then show ?thesis using rep by blast
qed

theorem mem_blocks_conserved_witness:
  "\<exists>xss. pool_rep (pool_buffer_init sample_sizes) xss \<and>
     set (xss ! 3) = {a \<in> all_blocks sample_sizes. pool_id (mem_blocks (pool_buffer_init sample_sizes) a) = 3}"
proof -
  from mem_blocks_conserved [OF mem_reach.init sample_sizes_len] obtain xss where
    r: "pool_rep (pool_buffer_init sample_sizes) xss" and s: "\<forall>p<14. distinct (xss ! p) \<and>
      set (xss ! p) = {a \<in> all_blocks sample_sizes - {}. pool_id (mem_blocks (pool_buffer_init sample_sizes) a) = p}"
    by blast
  from s have "set (xss ! 3) = {a \<in> all_blocks sample_sizes. pool_id (mem_blocks (pool_buffer_init sample_sizes) a) = 3}"
    by simp
  with r show ?thesis by blast
qed

text \<open>
  \<open>list_free\<close> and \<open>list2_free\<close> terminate on a list of blocks that are handed out, empty it,
  and return exactly its blocks to the allocator.
\<close>

lemma list_free_gives_back:
  assumes "mem_reach sizes m A" "length sizes = 14" "set xs \<subseteq> A"
    and "list_rep (mem_blocks m) l xs" "list2_rep (mem_blocks m) l2 xs"
  shows "(\<exists>l' m'. list_free l m = Some (l', m') \<and> list_rep (mem_blocks m') l' [] \<and> mem_reach sizes m' (A - set xs)) \<and>
    (\<exists>l' m'. list2_free l2 m = Some (l', m') \<and> list2_rep (mem_blocks m') l' [] \<and> mem_reach sizes m' (A - set xs))"
  using lf.free_all_gives_back [OF assms(1,2,4,3)] l2f.free_all_gives_back [OF assms(1,2,5,3)] by blast

text \<open>
  The list of one block that has just been allocated.
\<close>

definition one_list :: "nat \<Rightarrow> list_t" where
  "one_list a = \<lparr>lhead = Some a, ltail = Some a, nb_elements = 1, lname = []\<rparr>"

lemma list_free_gives_back_example:
  "\<exists>m a l' m'. mem_reach sample_sizes m {a} \<and> list_free (one_list a) m = Some (l', m') \<and> mem_reach sample_sizes m' {}"
proof -
  let ?m0 = "pool_buffer_init sample_sizes"
  have r0: "mem_reach sample_sizes ?m0 {}" by (rule mem_reach.init)
  have p: "select_pool (100 div 2 ^ 6) 0 = 1" by (simp add: select_pool.simps)
  note init = pool_buffer_init_rep(1) [OF sample_sizes_len]
  have hd: "map (\<lambda>p. [first_block sample_sizes p..<first_block sample_sizes (Suc p)]) [0..<14] ! 1 = [2, 3]"
    by (simp add: first_block_def sample_sizes_def upt_rec)
  obtain a m where get: "get_free_mem_block 100 ?m0 = Some (Some a, m)"
    using try_pools_rep [OF init, of 1] hd p
    by (auto simp: get_free_mem_block_def MEM_MNGT_MB12_BLOCK_SIZE_def)
  have r1: "mem_reach sample_sizes m {a}" using mem_reach.alloc [OF r0 get] by simp
  let ?h = "set_prev a NULL (set_next a NULL (mem_blocks m))"
  let ?m1 = "m\<lparr>mem_blocks := ?h\<rparr>"
  have r2: "mem_reach sample_sizes ?m1 {a}"
    by (rule mem_reach.client [OF r1]) (simp_all add: same_hdr_def set_next_def set_prev_def)
  have reps: "list_rep (mem_blocks ?m1) (one_list a) [a]" "list2_rep (mem_blocks ?m1) (one_list a) [a]"
    by (simp_all add: list_rep_def list2_rep_def one_list_def)
  have "set [a] \<subseteq> {a}" by simp
  from list_free_gives_back [OF r2 sample_sizes_len this reps] r2 show ?thesis by auto
qed

text \<open>
  A request of exactly 262144 octets, the largest size \<open>get_free_mem_block\<close> accepts and the
  size of the blocks of pool 12, is never served from pool 12: the shift loop selects pool 13, the
  copy pool. The caller receives a block whose data pointer is NULL, or NULL if that pool is empty.
\<close>

theorem mem_alloc_limit_has_no_data:
  assumes reach: "mem_reach sizes m A" and len: "length sizes = 14"
  shows "\<exists>r m'. get_free_mem_block MEM_MNGT_MB12_BLOCK_SIZE m = Some (r, m') \<and>
    (case r of None \<Rightarrow> \<forall>a \<in> all_blocks sizes - A. pool_id (mem_blocks m a) \<noteq> MEM_MNGT_POOL_ID_COPY
     | Some a \<Rightarrow> pool_id (mem_blocks m' a) = MEM_MNGT_POOL_ID_COPY \<and> blk_data (mem_blocks m' a) = NULL)"
proof -
  obtain xss where inv: "mem_inv sizes m A xss" using mem_reach_inv [OF reach len] by blast
  have rep: "pool_rep m xss" and hdr: "hdr_ok sizes (mem_blocks m)" and fb: "free_blocks xss = all_blocks sizes - A"
    using inv by (simp_all add: mem_inv_def)
  have get: "get_free_mem_block MEM_MNGT_MB12_BLOCK_SIZE m = try_pools 13 m"
    by (simp only: get_free_mem_block_def select_pool_limit less_irrefl if_False)
  have le13: "q = 13" if "13 \<le> q" "q < 14" for q :: nat using that by simp
  from try_pools_rep [OF rep, of 13] consider
      (some) a xs m' where "xss ! 13 = a # xs" "try_pools 13 m = Some (Some a, m')" "same_hdr (mem_blocks m) (mem_blocks m')"
    | (none) "xss ! 13 = []" "try_pools 13 m = Some (NULL, m)"
    by (auto dest: le13)
  then show ?thesis
  proof cases
    case some
    have a: "a \<in> all_blocks sizes" using free_blocks_take(2) [OF rep _ some(1)] fb by simp
    have p: "pool_id (mem_blocks m a) = 13" using pool_repD(2) [OF rep, of 13 a] some(1) by simp
    obtain p' i where p': "p' < 14" "i < sizes ! p'" "a = first_block sizes p' + i" using a by (rule block_in_pool)
    then have "p' = 13" "blk_data (mem_blocks m a) = NULL" using hdr p by (auto simp: hdr_ok_def)
    then show ?thesis using some p by (auto simp: get same_hdr_def MEM_MNGT_POOL_ID_COPY_def)
  next
    case none
    have "pool_id (mem_blocks m a) \<noteq> 13" if "a \<in> free_blocks xss" for a
      using that none(1) pool_repD(2) [OF rep] by (fastforce simp: free_blocks_def)
    then show ?thesis using none(2) fb by (auto simp: get MEM_MNGT_POOL_ID_COPY_def)
  qed
qed

theorem mem_alloc_limit_has_no_data_witness:
  "\<exists>r m'. get_free_mem_block MEM_MNGT_MB12_BLOCK_SIZE (pool_buffer_init sample_sizes) = Some (r, m') \<and>
     (case r of None \<Rightarrow> \<forall>a \<in> all_blocks sample_sizes. pool_id (mem_blocks (pool_buffer_init sample_sizes) a) \<noteq> 13
      | Some a \<Rightarrow> blk_data (mem_blocks m' a) = NULL)"
  using mem_alloc_limit_has_no_data [OF mem_reach.init sample_sizes_len]
  by (fastforce simp: MEM_MNGT_POOL_ID_COPY_def split: option.splits)

end
