(* ===== verification/Snow3g.thy ===== *)
theory Snow3g
  imports Prelude
begin

text \<open>
  SNOW 3G as \<open>openair2/UTIL/OSA/osa_snow3g.c\<close> implements it (with the tables of
  \<open>osa_rijndael.c\<close>): the byte multiplications, the two S-boxes, the LFSR and FSM clocks, the key
  loading and the key stream generation. The context is the structure \<open>osa_snow_3g_context_t\<close>.
\<close>

section \<open>Tables and byte operations\<close>

definition OSA_SR :: "octet list" where
  "OSA_SR =
     [0x63, 0x7c, 0x77, 0x7b, 0xf2, 0x6b, 0x6f, 0xc5, 0x30, 0x01, 0x67, 0x2b, 0xfe, 0xd7, 0xab, 0x76,
      0xca, 0x82, 0xc9, 0x7d, 0xfa, 0x59, 0x47, 0xf0, 0xad, 0xd4, 0xa2, 0xaf, 0x9c, 0xa4, 0x72, 0xc0,
      0xb7, 0xfd, 0x93, 0x26, 0x36, 0x3f, 0xf7, 0xcc, 0x34, 0xa5, 0xe5, 0xf1, 0x71, 0xd8, 0x31, 0x15,
      0x04, 0xc7, 0x23, 0xc3, 0x18, 0x96, 0x05, 0x9a, 0x07, 0x12, 0x80, 0xe2, 0xeb, 0x27, 0xb2, 0x75,
      0x09, 0x83, 0x2c, 0x1a, 0x1b, 0x6e, 0x5a, 0xa0, 0x52, 0x3b, 0xd6, 0xb3, 0x29, 0xe3, 0x2f, 0x84,
      0x53, 0xd1, 0x00, 0xed, 0x20, 0xfc, 0xb1, 0x5b, 0x6a, 0xcb, 0xbe, 0x39, 0x4a, 0x4c, 0x58, 0xcf,
      0xd0, 0xef, 0xaa, 0xfb, 0x43, 0x4d, 0x33, 0x85, 0x45, 0xf9, 0x02, 0x7f, 0x50, 0x3c, 0x9f, 0xa8,
      0x51, 0xa3, 0x40, 0x8f, 0x92, 0x9d, 0x38, 0xf5, 0xbc, 0xb6, 0xda, 0x21, 0x10, 0xff, 0xf3, 0xd2,
      0xcd, 0x0c, 0x13, 0xec, 0x5f, 0x97, 0x44, 0x17, 0xc4, 0xa7, 0x7e, 0x3d, 0x64, 0x5d, 0x19, 0x73,
      0x60, 0x81, 0x4f, 0xdc, 0x22, 0x2a, 0x90, 0x88, 0x46, 0xee, 0xb8, 0x14, 0xde, 0x5e, 0x0b, 0xdb,
      0xe0, 0x32, 0x3a, 0x0a, 0x49, 0x06, 0x24, 0x5c, 0xc2, 0xd3, 0xac, 0x62, 0x91, 0x95, 0xe4, 0x79,
      0xe7, 0xc8, 0x37, 0x6d, 0x8d, 0xd5, 0x4e, 0xa9, 0x6c, 0x56, 0xf4, 0xea, 0x65, 0x7a, 0xae, 0x08,
      0xba, 0x78, 0x25, 0x2e, 0x1c, 0xa6, 0xb4, 0xc6, 0xe8, 0xdd, 0x74, 0x1f, 0x4b, 0xbd, 0x8b, 0x8a,
      0x70, 0x3e, 0xb5, 0x66, 0x48, 0x03, 0xf6, 0x0e, 0x61, 0x35, 0x57, 0xb9, 0x86, 0xc1, 0x1d, 0x9e,
      0xe1, 0xf8, 0x98, 0x11, 0x69, 0xd9, 0x8e, 0x94, 0x9b, 0x1e, 0x87, 0xe9, 0xce, 0x55, 0x28, 0xdf,
      0x8c, 0xa1, 0x89, 0x0d, 0xbf, 0xe6, 0x42, 0x68, 0x41, 0x99, 0x2d, 0x0f, 0xb0, 0x54, 0xbb, 0x16]"

definition OSA_SQ :: "octet list" where
  "OSA_SQ =
     [0x25, 0x24, 0x73, 0x67, 0xd7, 0xae, 0x5c, 0x30, 0xa4, 0xee, 0x6e, 0xcb, 0x7d, 0xb5, 0x82, 0xdb,
      0xe4, 0x8e, 0x48, 0x49, 0x4f, 0x5d, 0x6a, 0x78, 0x70, 0x88, 0xe8, 0x5f, 0x5e, 0x84, 0x65, 0xe2,
      0xd8, 0xe9, 0xcc, 0xed, 0x40, 0x2f, 0x11, 0x28, 0x57, 0xd2, 0xac, 0xe3, 0x4a, 0x15, 0x1b, 0xb9,
      0xb2, 0x80, 0x85, 0xa6, 0x2e, 0x02, 0x47, 0x29, 0x07, 0x4b, 0x0e, 0xc1, 0x51, 0xaa, 0x89, 0xd4,
      0xca, 0x01, 0x46, 0xb3, 0xef, 0xdd, 0x44, 0x7b, 0xc2, 0x7f, 0xbe, 0xc3, 0x9f, 0x20, 0x4c, 0x64,
      0x83, 0xa2, 0x68, 0x42, 0x13, 0xb4, 0x41, 0xcd, 0xba, 0xc6, 0xbb, 0x6d, 0x4d, 0x71, 0x21, 0xf4,
      0x8d, 0xb0, 0xe5, 0x93, 0xfe, 0x8f, 0xe6, 0xcf, 0x43, 0x45, 0x31, 0x22, 0x37, 0x36, 0x96, 0xfa,
      0xbc, 0x0f, 0x08, 0x52, 0x1d, 0x55, 0x1a, 0xc5, 0x4e, 0x23, 0x69, 0x7a, 0x92, 0xff, 0x5b, 0x5a,
      0xeb, 0x9a, 0x1c, 0xa9, 0xd1, 0x7e, 0x0d, 0xfc, 0x50, 0x8a, 0xb6, 0x62, 0xf5, 0x0a, 0xf8, 0xdc,
      0x03, 0x3c, 0x0c, 0x39, 0xf1, 0xb8, 0xf3, 0x3d, 0xf2, 0xd5, 0x97, 0x66, 0x81, 0x32, 0xa0, 0x00,
      0x06, 0xce, 0xf6, 0xea, 0xb7, 0x17, 0xf7, 0x8c, 0x79, 0xd6, 0xa7, 0xbf, 0x8b, 0x3f, 0x1f, 0x53,
      0x63, 0x75, 0x35, 0x2c, 0x60, 0xfd, 0x27, 0xd3, 0x94, 0xa5, 0x7c, 0xa1, 0x05, 0x58, 0x2d, 0xbd,
      0xd9, 0xc7, 0xaf, 0x6b, 0x54, 0x0b, 0xe0, 0x38, 0x04, 0xc8, 0x9d, 0xe7, 0x14, 0xb1, 0x87, 0x9c,
      0xdf, 0x6f, 0xf9, 0xda, 0x2a, 0xc4, 0x59, 0x16, 0x74, 0x91, 0xab, 0x26, 0x61, 0x76, 0x34, 0x2b,
      0xad, 0x99, 0xfb, 0x72, 0xec, 0x33, 0x12, 0xde, 0x98, 0x3b, 0xc0, 0x9b, 0x3e, 0x18, 0x10, 0x3a,
      0x56, 0xe1, 0x77, 0xc9, 0x1e, 0x9e, 0x95, 0xa3, 0x90, 0x19, 0xa8, 0x6c, 0x09, 0xd0, 0xf0, 0x86]"

definition OSA_MULx :: "octet \<Rightarrow> octet \<Rightarrow> octet" where
  "OSA_MULx V c = (if V AND 0x80 \<noteq> 0 then push_bit 1 V XOR c else push_bit 1 V)"

fun OSA_MULxPOW :: "octet \<Rightarrow> nat \<Rightarrow> octet \<Rightarrow> octet" where
  "OSA_MULxPOW V i c = (if i = 0 then V else OSA_MULx (OSA_MULxPOW V (i - 1) c) c)"

declare OSA_MULxPOW.simps [simp del]

text \<open>Four octets, the most significant first, as a 32-bit word.\<close>

definition word_of_octets :: "octet \<Rightarrow> octet \<Rightarrow> octet \<Rightarrow> octet \<Rightarrow> 32 word" where
  "word_of_octets b0 b1 b2 b3 =
     push_bit 24 (ucast b0) OR push_bit 16 (ucast b1) OR push_bit 8 (ucast b2) OR ucast b3"

definition OSA_MULalpha :: "octet \<Rightarrow> 32 word" where
  "OSA_MULalpha c = word_of_octets (OSA_MULxPOW c 23 0xa9) (OSA_MULxPOW c 245 0xa9)
     (OSA_MULxPOW c 48 0xa9) (OSA_MULxPOW c 239 0xa9)"

definition OSA_DIValpha :: "octet \<Rightarrow> 32 word" where
  "OSA_DIValpha c = word_of_octets (OSA_MULxPOW c 16 0xa9) (OSA_MULxPOW c 39 0xa9)
     (OSA_MULxPOW c 6 0xa9) (OSA_MULxPOW c 64 0xa9)"

text \<open>The octet \<open>(uint8_t)((w >> k) & 0xff)\<close>, and the lookup of it in a table.\<close>

definition octet_at :: "nat \<Rightarrow> 32 word \<Rightarrow> octet" where
  "octet_at k w = ucast (drop_bit k w)"

definition OSA_S1 :: "32 word \<Rightarrow> 32 word" where
  "OSA_S1 w =
     (let srw0 = OSA_SR ! unat (octet_at 24 w);
          srw1 = OSA_SR ! unat (octet_at 16 w);
          srw2 = OSA_SR ! unat (octet_at 8 w);
          srw3 = OSA_SR ! unat (octet_at 0 w);
          r0 = OSA_MULx srw0 0x1b XOR srw1 XOR srw2 XOR (OSA_MULx srw3 0x1b XOR srw3);
          r1 = (OSA_MULx srw0 0x1b XOR srw0) XOR OSA_MULx srw1 0x1b XOR srw2 XOR srw3;
          r2 = srw0 XOR (OSA_MULx srw1 0x1b XOR srw1) XOR OSA_MULx srw2 0x1b XOR srw3;
          r3 = srw0 XOR srw1 XOR (OSA_MULx srw2 0x1b XOR srw2) XOR OSA_MULx srw3 0x1b
      in word_of_octets r0 r1 r2 r3)"

definition OSA_S2 :: "32 word \<Rightarrow> 32 word" where
  "OSA_S2 w =
     (let sqw0 = OSA_SQ ! unat (octet_at 24 w);
          sqw1 = OSA_SQ ! unat (octet_at 16 w);
          sqw2 = OSA_SQ ! unat (octet_at 8 w);
          sqw3 = OSA_SQ ! unat (octet_at 0 w);
          r0 = OSA_MULx sqw0 0x69 XOR sqw1 XOR sqw2 XOR (OSA_MULx sqw3 0x69 XOR sqw3);
          r1 = (OSA_MULx sqw0 0x69 XOR sqw0) XOR OSA_MULx sqw1 0x69 XOR sqw2 XOR sqw3;
          r2 = sqw0 XOR (OSA_MULx sqw1 0x69 XOR sqw1) XOR OSA_MULx sqw2 0x69 XOR sqw3;
          r3 = sqw0 XOR sqw1 XOR (OSA_MULx sqw2 0x69 XOR sqw2) XOR OSA_MULx sqw3 0x69
      in word_of_octets r0 r1 r2 r3)"

section \<open>Registers and clocks\<close>

record osa_snow_3g_context =
  LFSR_S0 :: "32 word"
  LFSR_S1 :: "32 word"
  LFSR_S2 :: "32 word"
  LFSR_S3 :: "32 word"
  LFSR_S4 :: "32 word"
  LFSR_S5 :: "32 word"
  LFSR_S6 :: "32 word"
  LFSR_S7 :: "32 word"
  LFSR_S8 :: "32 word"
  LFSR_S9 :: "32 word"
  LFSR_S10 :: "32 word"
  LFSR_S11 :: "32 word"
  LFSR_S12 :: "32 word"
  LFSR_S13 :: "32 word"
  LFSR_S14 :: "32 word"
  LFSR_S15 :: "32 word"
  FSM_R1 :: "32 word"
  FSM_R2 :: "32 word"
  FSM_R3 :: "32 word"

definition shift_LFSR :: "32 word \<Rightarrow> osa_snow_3g_context \<Rightarrow> osa_snow_3g_context" where
  "shift_LFSR v ctx =
     ctx\<lparr>LFSR_S0 := LFSR_S1 ctx,
        LFSR_S1 := LFSR_S2 ctx,
        LFSR_S2 := LFSR_S3 ctx,
        LFSR_S3 := LFSR_S4 ctx,
        LFSR_S4 := LFSR_S5 ctx,
        LFSR_S5 := LFSR_S6 ctx,
        LFSR_S6 := LFSR_S7 ctx,
        LFSR_S7 := LFSR_S8 ctx,
        LFSR_S8 := LFSR_S9 ctx,
        LFSR_S9 := LFSR_S10 ctx,
        LFSR_S10 := LFSR_S11 ctx,
        LFSR_S11 := LFSR_S12 ctx,
        LFSR_S12 := LFSR_S13 ctx,
        LFSR_S13 := LFSR_S14 ctx,
        LFSR_S14 := LFSR_S15 ctx,
        LFSR_S15 := v\<rparr>"

definition osa_snow3g_clock_LFSR_initialization_mode :: "32 word \<Rightarrow> osa_snow_3g_context \<Rightarrow> osa_snow_3g_context" where
  "osa_snow3g_clock_LFSR_initialization_mode F ctx =
     (let v = (push_bit 8 (LFSR_S0 ctx) AND 0xffffff00) XOR OSA_MULalpha (octet_at 24 (LFSR_S0 ctx)) XOR
              LFSR_S2 ctx XOR (drop_bit 8 (LFSR_S11 ctx) AND 0x00ffffff) XOR
              OSA_DIValpha (octet_at 0 (LFSR_S11 ctx)) XOR F
      in shift_LFSR v ctx)"

definition osa_snow3g_clock_LFSR_key_stream_mode :: "osa_snow_3g_context \<Rightarrow> osa_snow_3g_context" where
  "osa_snow3g_clock_LFSR_key_stream_mode ctx =
     (let v = (push_bit 8 (LFSR_S0 ctx) AND 0xffffff00) XOR OSA_MULalpha (octet_at 24 (LFSR_S0 ctx)) XOR
              LFSR_S2 ctx XOR (drop_bit 8 (LFSR_S11 ctx) AND 0x00ffffff) XOR
              OSA_DIValpha (octet_at 0 (LFSR_S11 ctx))
      in shift_LFSR v ctx)"

definition osa_snow3g_clock_fsm :: "osa_snow_3g_context \<Rightarrow> 32 word \<times> osa_snow_3g_context" where
  "osa_snow3g_clock_fsm ctx =
     (let F = ((LFSR_S15 ctx + FSM_R1 ctx) AND 0xffffffff) XOR FSM_R2 ctx;
          r = (FSM_R2 ctx + (FSM_R3 ctx XOR LFSR_S5 ctx)) AND 0xffffffff
      in (F, ctx\<lparr>FSM_R3 := OSA_S2 (FSM_R2 ctx), FSM_R2 := OSA_S1 (FSM_R1 ctx), FSM_R1 := r\<rparr>))"

section \<open>Initialisation and key stream\<close>

definition load_key :: "32 word list \<Rightarrow> 32 word list \<Rightarrow> osa_snow_3g_context" where
  "load_key k IV =
     \<lparr>LFSR_S0 = k ! 0 XOR 0xffffffff, LFSR_S1 = k ! 1 XOR 0xffffffff,
      LFSR_S2 = k ! 2 XOR 0xffffffff, LFSR_S3 = k ! 3 XOR 0xffffffff,
      LFSR_S4 = k ! 0, LFSR_S5 = k ! 1, LFSR_S6 = k ! 2, LFSR_S7 = k ! 3,
      LFSR_S8 = k ! 0 XOR 0xffffffff, LFSR_S9 = k ! 1 XOR 0xffffffff XOR IV ! 3,
      LFSR_S10 = k ! 2 XOR 0xffffffff XOR IV ! 2, LFSR_S11 = k ! 3 XOR 0xffffffff,
      LFSR_S12 = k ! 0 XOR IV ! 1, LFSR_S13 = k ! 1, LFSR_S14 = k ! 2, LFSR_S15 = k ! 3 XOR IV ! 0,
      FSM_R1 = 0, FSM_R2 = 0, FSM_R3 = 0\<rparr>"

definition init_round :: "osa_snow_3g_context \<Rightarrow> osa_snow_3g_context" where
  "init_round ctx = (let (F, ctx1) = osa_snow3g_clock_fsm ctx in osa_snow3g_clock_LFSR_initialization_mode F ctx1)"

definition osa_snow3g_initialize :: "32 word list \<Rightarrow> 32 word list \<Rightarrow> osa_snow_3g_context" where
  "osa_snow3g_initialize k IV = (init_round ^^ 32) (load_key k IV)"

fun key_stream_loop :: "nat \<Rightarrow> osa_snow_3g_context \<Rightarrow> 32 word list \<times> osa_snow_3g_context" where
  "key_stream_loop 0 ctx = ([], ctx)"
| "key_stream_loop (Suc n) ctx =
     (let (F, ctx1) = osa_snow3g_clock_fsm ctx;
          z = F XOR LFSR_S0 ctx1;
          (zs, ctx2) = key_stream_loop n (osa_snow3g_clock_LFSR_key_stream_mode ctx1)
      in (z # zs, ctx2))"

definition osa_snow3g_generate_key_stream :: "nat \<Rightarrow> osa_snow_3g_context \<Rightarrow> 32 word list \<times> osa_snow_3g_context" where
  "osa_snow3g_generate_key_stream n ctx =
     (let ctx1 = snd (osa_snow3g_clock_fsm ctx);
          ctx2 = osa_snow3g_clock_LFSR_key_stream_mode ctx1
      in key_stream_loop n ctx2)"

lemma key_stream_loop_length [simp]: "length (fst (key_stream_loop n ctx)) = n"
  by (induction n arbitrary: ctx) (simp_all add: split_beta Let_def)

lemma key_stream_length [simp]: "length (fst (osa_snow3g_generate_key_stream n ctx)) = n"
  by (simp add: osa_snow3g_generate_key_stream_def Let_def)

text \<open>A longer key stream starts with the shorter one.\<close>

lemma key_stream_loop_prefix: "m \<le> n \<Longrightarrow> fst (key_stream_loop m ctx) = take m (fst (key_stream_loop n ctx))"
proof (induction m arbitrary: n ctx)
  case (Suc m)
  then obtain k where n: "n = Suc k" "m \<le> k" by (cases n) auto
  show ?case using Suc.IH [OF n(2)] by (simp add: n split_beta Let_def)
qed simp

section \<open>Linearity\<close>

lemma MULx_xor: "OSA_MULx (a XOR b) c = OSA_MULx a c XOR OSA_MULx b c"
proof -
  have bit7: "V AND 0x80 \<noteq> 0 \<longleftrightarrow> bit V 7" for V :: octet
    using and_exp_eq_0_iff_not_bit [of V 7] by simp
  have "push_bit 1 (a XOR b) = push_bit 1 a XOR push_bit 1 b" by (simp add: push_bit_xor)
  then show ?thesis
    unfolding OSA_MULx_def bit7 bit_xor_iff by (auto simp: ac_simps simp del: push_bit_eq_mult)
qed

lemma MULxPOW_xor: "OSA_MULxPOW (a XOR b) i c = OSA_MULxPOW a i c XOR OSA_MULxPOW b i c"
proof (induction i)
  case (Suc i)
  show ?case by (subst (1 2 3) OSA_MULxPOW.simps) (simp add: Suc MULx_xor)
qed (simp add: OSA_MULxPOW.simps)

lemma octet_bit: "bit b n \<Longrightarrow> n < 8" for b :: octet
  using bit_imp_le_length [of b n] by simp

lemma bit_word_of_octets:
  "bit (word_of_octets b0 b1 b2 b3) n \<longleftrightarrow>
     (if n < 8 then bit b3 n else if n < 16 then bit b2 (n - 8) else if n < 24 then bit b1 (n - 16)
      else if n < 32 then bit b0 (n - 24) else False)"
  unfolding word_of_octets_def by (auto simp: bit_simps dest: octet_bit)

lemma word_of_octets_xor:
  "word_of_octets (a0 XOR b0) (a1 XOR b1) (a2 XOR b2) (a3 XOR b3) =
     word_of_octets a0 a1 a2 a3 XOR word_of_octets b0 b1 b2 b3"
  by (rule bit_word_eqI) (simp add: bit_xor_iff bit_word_of_octets)

text \<open>The clock without the input \<open>F\<close> is linear over GF(2).\<close>

lemma MULalpha_xor: "OSA_MULalpha (a XOR b) = OSA_MULalpha a XOR OSA_MULalpha b"
  by (simp add: OSA_MULalpha_def MULxPOW_xor word_of_octets_xor)

lemma DIValpha_xor: "OSA_DIValpha (a XOR b) = OSA_DIValpha a XOR OSA_DIValpha b"
  by (simp add: OSA_DIValpha_def MULxPOW_xor word_of_octets_xor)

lemma octet_at_xor: "octet_at k (a XOR b) = octet_at k a XOR octet_at k b"
  unfolding octet_at_def by (rule bit_word_eqI) (auto simp: bit_simps)

section \<open>Multiplication and division by alpha\<close>

lemma MULxPOW_add: "OSA_MULxPOW V (i + j) c = OSA_MULxPOW (OSA_MULxPOW V j c) i c"
proof (induction i)
  case (Suc i)
  show ?case by (subst (1 2) OSA_MULxPOW.simps) (simp add: Suc)
qed (simp add: OSA_MULxPOW.simps)

lemma MULxPOW_0 [simp]: "OSA_MULxPOW 0 i c = 0"
  by (induction i) (subst OSA_MULxPOW.simps, simp add: OSA_MULx_def)+

lemma octet_basis:
  "c = (if bit c 0 then 1 else 0) XOR (if bit c 1 then 2 else 0) XOR (if bit c 2 then 4 else 0) XOR
       (if bit c 3 then 8 else 0) XOR (if bit c 4 then 16 else 0) XOR (if bit c 5 then 32 else 0) XOR
       (if bit c 6 then 64 else 0) XOR (if bit c 7 then 128 else 0)" for c :: octet
proof (rule bit_word_eqI)
  fix n assume "n < LENGTH(8)"
  then have "n \<in> {0, 1, 2, 3, 4, 5, 6, 7}" by auto
  then show "bit c n = bit ((if bit c 0 then 1 else 0) XOR (if bit c 1 then 2 else 0) XOR (if bit c 2 then 4 else 0) XOR
       (if bit c 3 then 8 else 0) XOR (if bit c 4 then 16 else 0) XOR (if bit c 5 then 32 else 0) XOR
       (if bit c 6 then 64 else 0) XOR (if bit c 7 then 128 else 0) :: octet) n"
    by (elim insertE) (simp_all add: bit_xor_iff)
qed

lemma MULxPOW_if: "OSA_MULxPOW (if b then v else 0) i c = (if b then OSA_MULxPOW v i c else 0)"
  by simp

lemma pow_1_255: "OSA_MULxPOW 1 255 0xa9 = 1"
  by code_simp

lemma pow_1_small:
  "OSA_MULxPOW 1 1 0xa9 = 2" "OSA_MULxPOW 1 2 0xa9 = 4" "OSA_MULxPOW 1 3 0xa9 = 8" "OSA_MULxPOW 1 4 0xa9 = 16"
  "OSA_MULxPOW 1 5 0xa9 = 32" "OSA_MULxPOW 1 6 0xa9 = 64" "OSA_MULxPOW 1 7 0xa9 = 128"
  by code_simp+

text \<open>The multiplier has order 255: this is what ties the exponents of the two functions together.\<close>

lemma pow_255_shift: "OSA_MULxPOW (OSA_MULxPOW 1 k 0xa9) 255 0xa9 = OSA_MULxPOW 1 k 0xa9"
  using MULxPOW_add [of 1 k 255 "0xa9"] MULxPOW_add [of 1 255 k "0xa9"] by (simp add: pow_1_255 add.commute)

lemma MULxPOW_255 [simp]: "OSA_MULxPOW c 255 0xa9 = c"
proof -
  note b = pow_255_shift [of 1] pow_255_shift [of 2] pow_255_shift [of 3] pow_255_shift [of 4]
    pow_255_shift [of 5] pow_255_shift [of 6] pow_255_shift [of 7]
  show ?thesis
    by (subst (1 2) octet_basis [of c]) (simp only: MULxPOW_xor MULxPOW_if pow_1_255 b [unfolded pow_1_small])
qed

lemma MULxPOW_mod: "255 \<le> i \<Longrightarrow> OSA_MULxPOW c i 0xa9 = OSA_MULxPOW c (i - 255) 0xa9"
  using MULxPOW_add [of c "i - 255" 255 "0xa9"] by simp

text \<open>The word operations inside the clocks: multiplication and division of a word by alpha.\<close>

definition mul_alpha :: "32 word \<Rightarrow> 32 word" where
  "mul_alpha w = (push_bit 8 w AND 0xffffff00) XOR OSA_MULalpha (octet_at 24 w)"

definition div_alpha :: "32 word \<Rightarrow> 32 word" where
  "div_alpha w = (drop_bit 8 w AND 0x00ffffff) XOR OSA_DIValpha (octet_at 0 w)"

lemma mask_bits: "bit (0xffffff00 :: 32 word) n \<longleftrightarrow> 8 \<le> n \<and> n < 32" "bit (0x00ffffff :: 32 word) n \<longleftrightarrow> n < 24"
proof -
  have eq: "(0xffffff00 :: 32 word) = push_bit 8 (mask 24)" "(0x00ffffff :: 32 word) = mask 24"
    by (simp_all add: mask_eq_exp_minus_1 push_bit_eq_mult)
  show "bit (0xffffff00 :: 32 word) n \<longleftrightarrow> 8 \<le> n \<and> n < 32"
    unfolding eq(1) bit_push_bit_iff bit_mask_iff by auto
  show "bit (0x00ffffff :: 32 word) n \<longleftrightarrow> n < 24"
    unfolding eq(2) bit_mask_iff by auto
qed

lemma word_octets: "w = word_of_octets (octet_at 24 w) (octet_at 16 w) (octet_at 8 w) (octet_at 0 w)"
  by (rule bit_word_eqI) (auto simp: bit_word_of_octets octet_at_def bit_simps)

lemma octet_at_word_of_octets [simp]:
  "octet_at 24 (word_of_octets b0 b1 b2 b3) = b0" "octet_at 16 (word_of_octets b0 b1 b2 b3) = b1"
  "octet_at 8 (word_of_octets b0 b1 b2 b3) = b2" "octet_at 0 (word_of_octets b0 b1 b2 b3) = b3"
  unfolding octet_at_def
  by (rule bit_word_eqI; simp add: bit_simps bit_word_of_octets)+

lemma shift_octets:
  "push_bit 8 (word_of_octets b0 b1 b2 b3) AND 0xffffff00 = word_of_octets b1 b2 b3 0"
  "drop_bit 8 (word_of_octets b0 b1 b2 b3) AND 0x00ffffff = word_of_octets 0 b0 b1 b2"
  by (rule bit_word_eqI, simp only: bit_and_iff mask_bits bit_push_bit_iff bit_drop_bit_eq bit_word_of_octets o_apply, auto)+

lemma div_mul_alpha: "div_alpha (mul_alpha w) = w"
proof -
  obtain b0 b1 b2 b3 where w: "w = word_of_octets b0 b1 b2 b3" using word_octets by blast
  have x: "mul_alpha w = word_of_octets (b1 XOR OSA_MULxPOW b0 23 0xa9) (b2 XOR OSA_MULxPOW b0 245 0xa9)
      (b3 XOR OSA_MULxPOW b0 48 0xa9) (OSA_MULxPOW b0 239 0xa9)"
    unfolding mul_alpha_def w shift_octets octet_at_word_of_octets OSA_MULalpha_def word_of_octets_xor [symmetric] by simp
  have p: "OSA_MULxPOW (OSA_MULxPOW b0 239 0xa9) 16 0xa9 = b0"
    "OSA_MULxPOW (OSA_MULxPOW b0 239 0xa9) 39 0xa9 = OSA_MULxPOW b0 23 0xa9"
    "OSA_MULxPOW (OSA_MULxPOW b0 239 0xa9) 6 0xa9 = OSA_MULxPOW b0 245 0xa9"
    "OSA_MULxPOW (OSA_MULxPOW b0 239 0xa9) 64 0xa9 = OSA_MULxPOW b0 48 0xa9"
    by (simp_all add: MULxPOW_add [symmetric] MULxPOW_mod)
  show ?thesis
    unfolding div_alpha_def x shift_octets octet_at_word_of_octets OSA_DIValpha_def p word_of_octets_xor [symmetric]
    by (simp add: w xor.assoc)
qed

lemma mul_div_alpha: "mul_alpha (div_alpha w) = w"
proof -
  have "inj mul_alpha" by (metis div_mul_alpha injI)
  then have "surj mul_alpha" by (simp add: finite_UNIV_inj_surj)
  then obtain v where "w = mul_alpha v" by blast
  then show ?thesis by (simp add: div_mul_alpha)
qed

section \<open>Properties\<close>

definition unclock_LFSR :: "osa_snow_3g_context \<Rightarrow> osa_snow_3g_context" where
  "unclock_LFSR ctx =
     ctx\<lparr>LFSR_S0 := div_alpha (LFSR_S15 ctx XOR LFSR_S1 ctx XOR div_alpha (LFSR_S10 ctx)),
        LFSR_S1 := LFSR_S0 ctx,
        LFSR_S2 := LFSR_S1 ctx,
        LFSR_S3 := LFSR_S2 ctx,
        LFSR_S4 := LFSR_S3 ctx,
        LFSR_S5 := LFSR_S4 ctx,
        LFSR_S6 := LFSR_S5 ctx,
        LFSR_S7 := LFSR_S6 ctx,
        LFSR_S8 := LFSR_S7 ctx,
        LFSR_S9 := LFSR_S8 ctx,
        LFSR_S10 := LFSR_S9 ctx,
        LFSR_S11 := LFSR_S10 ctx,
        LFSR_S12 := LFSR_S11 ctx,
        LFSR_S13 := LFSR_S12 ctx,
        LFSR_S14 := LFSR_S13 ctx,
        LFSR_S15 := LFSR_S14 ctx\<rparr>"

lemma clock_key_stream_mode_alpha:
  "osa_snow3g_clock_LFSR_key_stream_mode ctx =
     shift_LFSR (mul_alpha (LFSR_S0 ctx) XOR LFSR_S2 ctx XOR div_alpha (LFSR_S11 ctx)) ctx"
  by (simp add: osa_snow3g_clock_LFSR_key_stream_mode_def mul_alpha_def div_alpha_def Let_def xor.assoc)

lemma clock_initialization_mode_alpha:
  "osa_snow3g_clock_LFSR_initialization_mode F ctx =
     shift_LFSR (mul_alpha (LFSR_S0 ctx) XOR LFSR_S2 ctx XOR div_alpha (LFSR_S11 ctx) XOR F) ctx"
  by (simp add: osa_snow3g_clock_LFSR_initialization_mode_def mul_alpha_def div_alpha_def Let_def xor.assoc)

text \<open>
  C29. The feedback of the SNOW 3G shift register is the field operation it has to be: with the
  exponents of \<open>OSA_MULalpha\<close> and \<open>OSA_DIValpha\<close> the two word operations in the clocks are inverse
  to each other, so that a clock in key stream mode loses no state (the previous registers can be
  computed back), and the clock in initialisation mode is the same one with \<open>F\<close> added to the
  register that is shifted in.
\<close>

theorem snow3g_clock_is_reversible:
  "div_alpha (mul_alpha w) = w \<and> mul_alpha (div_alpha w) = w \<and>
   unclock_LFSR (osa_snow3g_clock_LFSR_key_stream_mode ctx) = ctx \<and>
   osa_snow3g_clock_LFSR_initialization_mode F ctx =
     (osa_snow3g_clock_LFSR_key_stream_mode ctx)
       \<lparr>LFSR_S15 := LFSR_S15 (osa_snow3g_clock_LFSR_key_stream_mode ctx) XOR F\<rparr>"
proof (intro conjI)
  have x: "(a XOR b XOR c) XOR b XOR c = a" for a b c :: "32 word"
    by (simp add: ac_simps)
  show "unclock_LFSR (osa_snow3g_clock_LFSR_key_stream_mode ctx) = ctx"
    by (simp add: clock_key_stream_mode_alpha unclock_LFSR_def shift_LFSR_def x div_mul_alpha)
  show "osa_snow3g_clock_LFSR_initialization_mode F ctx =
     (osa_snow3g_clock_LFSR_key_stream_mode ctx)
       \<lparr>LFSR_S15 := LFSR_S15 (osa_snow3g_clock_LFSR_key_stream_mode ctx) XOR F\<rparr>"
    by (simp add: clock_key_stream_mode_alpha clock_initialization_mode_alpha shift_LFSR_def xor.assoc)
qed (rule div_mul_alpha mul_div_alpha)+

end
