(* ===== verification/Osa.thy ===== *)
theory Osa
  imports Snow3g
begin

text \<open>
  The stream ciphers and integrity algorithms of \<open>openair2/UTIL/OSA\<close> that PDCP applies
  (\<open>osa_stream_eea.c\<close>, \<open>osa_stream_eia.c\<close>). A message is the buffer from the pointer
  \<open>message\<close> to the end of the memory that belongs to it, so that accesses behind the \<open>blength\<close>
  bits are visible; an access behind the buffer is a fault (\<^term>\<open>None\<close>), as is a failed
  \<open>DevAssert\<close>. The callers pass the message as the output buffer, so encryption is in place. AES
  in counter mode (nettle) and AES-CMAC (OpenSSL) are parameters, with the key and its length among their arguments.
  \<open>OsaSpec\<close> states what the algorithms compute.
\<close>

section \<open>Parameters of a call\<close>

record stream_cipher =
  sc_key :: "octet list"
  key_length :: nat
  sc_count :: "32 word"
  bearer :: octet
  direction :: octet
  blength :: "32 word"

type_synonym ctr_crypt = "octet list \<Rightarrow> nat \<Rightarrow> octet list \<Rightarrow> octet list \<Rightarrow> octet list"
type_synonym cmac_fun = "octet list \<Rightarrow> nat \<Rightarrow> octet list \<Rightarrow> octet list"

text \<open>\<open>hton_int32\<close> on a word read from, or written to, four octets.\<close>

definition be_word :: "octet list \<Rightarrow> nat \<Rightarrow> 32 word" where
  "be_word bs i = word_of_octets (bs ! i) (bs ! (i + 1)) (bs ! (i + 2)) (bs ! (i + 3))"

definition be_octets :: "32 word \<Rightarrow> octet list" where
  "be_octets w = [octet_at 24 w, octet_at 16 w, octet_at 8 w, octet_at 0 w]"

definition key_words :: "octet list \<Rightarrow> 32 word list" where
  "key_words k = [be_word k 12, be_word k 8, be_word k 4, be_word k 0]"

section \<open>Encryption\<close>

text \<open>\<open>stream_encrypt_eea0\<close> copies the octets onto themselves.\<close>

definition stream_encrypt_eea0 :: "stream_cipher \<Rightarrow> octet list \<Rightarrow> (int \<times> octet list) option" where
  "stream_encrypt_eea0 sc message =
     (let byte_length = unat (drop_bit 3 (blength sc + 7)) in
      if length message < byte_length then None else Some (0, message))"

definition eea1_iv :: "stream_cipher \<Rightarrow> 32 word list" where
  "eea1_iv sc =
     (let iv3 = sc_count sc;
          iv2 = push_bit 24 (push_bit 3 (ucast (bearer sc)) OR push_bit 2 (ucast (direction sc) AND 1)) in
      [iv2, iv3, iv2, iv3])"

definition eea1_key_stream :: "stream_cipher \<Rightarrow> nat \<Rightarrow> 32 word list" where
  "eea1_key_stream sc n =
     fst (osa_snow3g_generate_key_stream n (osa_snow3g_initialize (key_words (sc_key sc)) (eea1_iv sc)))"

definition stream_encrypt_eea1 :: "stream_cipher \<Rightarrow> octet list \<Rightarrow> (int \<times> octet list) option" where
  "stream_encrypt_eea1 sc message =
     (let n = unat ((blength sc + 31) div 32);
          zero_bit = unat (blength sc AND 7);
          KS = eea1_key_stream sc n;
          KS1 = (if zero_bit > 0 then KS[n - 1 := KS ! (n - 1) AND push_bit (8 - zero_bit) 0xFFFFFFFF] else KS);
          ks = concat (map be_octets KS1);
          ceil_index = unat (drop_bit 3 (blength sc + 7))
      in if key_length sc \<noteq> 16 \<or> length (sc_key sc) < 16 \<or> length message < 4 * n then None
         else let m1 = map2 (XOR) (take (4 * n) message) ks @ drop (4 * n) message;
                  m2 = (if zero_bit > 0
                        then m1[ceil_index - 1 := m1 ! (ceil_index - 1) AND push_bit (8 - zero_bit) 0xFF] else m1)
              in Some (0, m2))"

definition eea2_counter :: "stream_cipher \<Rightarrow> octet list" where
  "eea2_counter sc = be_octets (sc_count sc) @
     [push_bit 3 (bearer sc AND 0x1F) OR push_bit 2 (direction sc AND 1)] @ replicate 11 0"

definition stream_encrypt_eea2 :: "ctr_crypt \<Rightarrow> stream_cipher \<Rightarrow> octet list \<Rightarrow> (int \<times> octet list) option" where
  "stream_encrypt_eea2 ctr sc message =
     (let zero_bit = unat (blength sc AND 7);
          byte_length = unat (drop_bit 3 (blength sc)) + (if zero_bit > 0 then 1 else 0)
      in if length (sc_key sc) < 16 \<or> length message < byte_length then None
         else let d1 = ctr (sc_key sc) (key_length sc) (eea2_counter sc) (take byte_length message);
                  d2 = (if zero_bit > 0
                        then d1[byte_length - 1 := d1 ! (byte_length - 1) AND push_bit (8 - zero_bit) 0xFF] else d1)
              in Some (0, d2 @ drop byte_length message))"

definition stream_encrypt :: "ctr_crypt \<Rightarrow> octet \<Rightarrow> stream_cipher \<Rightarrow> octet list \<Rightarrow> (int \<times> octet list) option" where
  "stream_encrypt ctr algorithm sc message =
     (if algorithm = 0 then stream_encrypt_eea0 sc message
      else if algorithm = 1 then stream_encrypt_eea1 sc message
      else if algorithm = 2 then stream_encrypt_eea2 ctr sc message
      else Some (- 1, message))"

section \<open>Integrity\<close>

definition OSA_MUL64x :: "64 word \<Rightarrow> 64 word \<Rightarrow> 64 word" where
  "OSA_MUL64x V c = (if V AND 0x8000000000000000 \<noteq> 0 then push_bit 1 V XOR c else push_bit 1 V)"

fun OSA_MUL64xPOW :: "64 word \<Rightarrow> nat \<Rightarrow> 64 word \<Rightarrow> 64 word" where
  "OSA_MUL64xPOW V i c = (if i = 0 then V else OSA_MUL64x (OSA_MUL64xPOW V (i - 1) c) c)"

declare OSA_MUL64xPOW.simps [simp del]

definition OSA_MUL64 :: "64 word \<Rightarrow> 64 word \<Rightarrow> 64 word \<Rightarrow> 64 word" where
  "OSA_MUL64 V P c =
     fold (\<lambda>i result. if drop_bit i P AND 1 \<noteq> 0 then result XOR OSA_MUL64xPOW V i c else result) [0..<64] 0"

fun mask_loop :: "nat \<Rightarrow> 32 word \<Rightarrow> 32 word" where
  "mask_loop 0 m = m"
| "mask_loop (Suc n) m = mask_loop n (drop_bit 1 m XOR 0x80000000)"

definition osa_mask32bit :: "nat \<Rightarrow> 32 word" where
  "osa_mask32bit n = (if n mod 32 = 0 then 0xffffffff else mask_loop n 0)"

text \<open>The 32-bit word \<open>hton_int32 (message[i])\<close>.\<close>

definition msg_word :: "octet list \<Rightarrow> nat \<Rightarrow> (32 word) option" where
  "msg_word message i = (if 4 * i + 4 \<le> length message then Some (be_word message (4 * i)) else None)"

definition join64 :: "32 word \<Rightarrow> 32 word \<Rightarrow> 64 word" where
  "join64 a b = push_bit 32 (ucast a) OR ucast b"

fun eia1_blocks :: "nat \<Rightarrow> nat \<Rightarrow> 64 word \<Rightarrow> octet list \<Rightarrow> 64 word \<Rightarrow> (64 word) option" where
  "eia1_blocks 0 i P message EVAL = Some EVAL"
| "eia1_blocks (Suc n) i P message EVAL = do {
     m0 \<leftarrow> msg_word message (2 * i);
     m1 \<leftarrow> msg_word message (2 * i + 1);
     eia1_blocks n (i + 1) P message (OSA_MUL64 (EVAL XOR join64 m0 m1) P 0x1b) }"

definition eia1_iv :: "stream_cipher \<Rightarrow> 32 word list" where
  "eia1_iv sc =
     (let b = push_bit 27 (ucast (bearer sc) AND 0x1F) :: 32 word in
      [b XOR push_bit 15 (ucast (direction sc AND 1)), sc_count sc XOR push_bit 31 (ucast (direction sc)),
       b, sc_count sc])"

definition eia1_z :: "stream_cipher \<Rightarrow> 32 word list" where
  "eia1_z sc = fst (osa_snow3g_generate_key_stream 5 (osa_snow3g_initialize (key_words (sc_key sc)) (eia1_iv sc)))"

text \<open>The last block of the message, masked to the bits that belong to it.\<close>

definition eia1_last :: "stream_cipher \<Rightarrow> nat \<Rightarrow> octet list \<Rightarrow> (64 word) option" where
  "eia1_last sc D message =
     (let r = unat (blength sc) mod 64; rem_bits = (if r = 0 then 64 else r); mask32 = osa_mask32bit (rem_bits mod 32) in
      if D < 2 then None
      else if rem_bits > 32 then do {
        m0 \<leftarrow> msg_word message (2 * (D - 2));
        m1 \<leftarrow> msg_word message (2 * (D - 2) + 1);
        Some (join64 m0 (m1 AND mask32)) }
      else do {
        m0 \<leftarrow> msg_word message (2 * (D - 2));
        Some (join64 (m0 AND mask32) 0) })"

definition stream_compute_integrity_eia1 :: "stream_cipher \<Rightarrow> octet list \<Rightarrow> (octet list) option" where
  "stream_compute_integrity_eia1 sc message =
     (if length (sc_key sc) < 16 then None
      else
        let z = eia1_z sc; P = join64 (z ! 0) (z ! 1); Q = join64 (z ! 2) (z ! 3);
            D = (unat (blength sc) + 63) div 64 + 1
        in do {
          EVAL \<leftarrow> eia1_blocks (D - 2) 0 P message 0;
          M_D_2 \<leftarrow> eia1_last sc D message;
          let EVAL1 = OSA_MUL64 (EVAL XOR M_D_2) P 0x1b;
              EVAL2 = OSA_MUL64 (EVAL1 XOR ucast (blength sc)) Q 0x1b
          in Some (be_octets (ucast (drop_bit 32 EVAL2) XOR z ! 4)) })"

definition stream_compute_integrity_eia2 :: "cmac_fun \<Rightarrow> stream_cipher \<Rightarrow> octet list \<Rightarrow> (octet list) option" where
  "stream_compute_integrity_eia2 cmac sc message =
     (let zero_bit = unat (blength sc AND 7);
          m_length = unat (drop_bit 3 (blength sc)) + (if zero_bit > 0 then 1 else 0)
      in if length (sc_key sc) < 16 \<or> length message < m_length then None
         else Some (take 4 (cmac (sc_key sc) (key_length sc)
                (be_octets (sc_count sc) @ [push_bit 3 (bearer sc AND 0x1F) OR push_bit 2 (direction sc AND 1), 0, 0, 0] @
                 take m_length message))))"

text \<open>The status and, when it is 0, the four octets written to \<open>out\<close>.\<close>

definition stream_compute_integrity :: "cmac_fun \<Rightarrow> octet \<Rightarrow> stream_cipher \<Rightarrow> octet list \<Rightarrow> (int \<times> octet list) option" where
  "stream_compute_integrity cmac algorithm sc message =
     (if algorithm = 1 then map_option (\<lambda>mac. (0, mac)) (stream_compute_integrity_eia1 sc message)
      else if algorithm = 2 then map_option (\<lambda>mac. (0, mac)) (stream_compute_integrity_eia2 cmac sc message)
      else Some (- 1, []))"

definition stream_check_integrity :: "cmac_fun \<Rightarrow> octet \<Rightarrow> stream_cipher \<Rightarrow> octet list \<Rightarrow> octet list \<Rightarrow> int option" where
  "stream_check_integrity cmac algorithm sc message expected =
     (if algorithm \<noteq> 0 then do {
        (rc, result) \<leftarrow> stream_compute_integrity cmac algorithm sc message;
        (if rc \<noteq> 0 then Some (- 1)
         else if length expected < 4 then None
         else if result \<noteq> take 4 expected then Some (- 1) else Some 0) }
      else Some 0)"

section \<open>Encryption is its own inverse\<close>

lemma map2_xor_twice:
  "length xs \<le> length ks \<Longrightarrow> map2 (XOR) (map2 (XOR) xs ks) ks = xs" for xs :: "octet list"
proof (induction xs arbitrary: ks)
  case (Cons x xs)
  then show ?case by (cases ks) (simp_all add: xor.assoc)
qed simp

lemma eea1_key_stream_length [simp]: "length (eea1_key_stream sc n) = n"
  by (simp add: eea1_key_stream_def)

lemma be_octets_length: "length (concat (map be_octets ws)) = 4 * length ws"
  by (induction ws) (simp_all add: be_octets_def)

text \<open>On whole octets, the effect of 128-EEA1 in one equation.\<close>

lemma eea1_whole_octets:
  assumes "blength sc AND 7 = 0"
  shows "stream_encrypt_eea1 sc message =
    (let n = unat ((blength sc + 31) div 32) in
     if key_length sc \<noteq> 16 \<or> length (sc_key sc) < 16 \<or> length message < 4 * n then None
     else Some (0, map2 (XOR) (take (4 * n) message) (concat (map be_octets (eea1_key_stream sc n))) @ drop (4 * n) message))"
  using assms by (simp add: stream_encrypt_eea1_def Let_def)

lemma eea1_involutive:
  assumes "stream_encrypt_eea1 sc m = Some (rc, m')" "blength sc AND 7 = 0"
  shows "stream_encrypt_eea1 sc m' = Some (rc, m)" "length m' = length m"
proof -
  let ?n = "unat ((blength sc + 31) div 32)"
  let ?ks = "concat (map be_octets (eea1_key_stream sc ?n))"
  have ks: "length ?ks = 4 * ?n" by (simp add: be_octets_length)
  have ok: "\<not> (key_length sc \<noteq> 16 \<or> length (sc_key sc) < 16 \<or> length m < 4 * ?n)" and rc: "rc = 0"
    and m': "m' = map2 (XOR) (take (4 * ?n) m) ?ks @ drop (4 * ?n) m"
    using assms by (auto simp: eea1_whole_octets Let_def split: if_splits)
  have l: "length (map2 (XOR) (take (4 * ?n) m) ?ks) = 4 * ?n" using ok ks by simp
  then show len: "length m' = length m" using ok by (simp add: m')
  have "take (4 * ?n) m' = map2 (XOR) (take (4 * ?n) m) ?ks" "drop (4 * ?n) m' = drop (4 * ?n) m"
    using l by (simp_all add: m' del: length_map)
  then show "stream_encrypt_eea1 sc m' = Some (rc, m)"
    using ok rc len map2_xor_twice [of "take (4 * ?n) m" ?ks] ks assms(2) by (simp add: eea1_whole_octets Let_def)
qed

definition ctr_ok :: "ctr_crypt \<Rightarrow> bool" where
  "ctr_ok ctr \<longleftrightarrow> (\<forall>k l iv m. length (ctr k l iv m) = length m \<and> ctr k l iv (ctr k l iv m) = m)"

lemma stream_encrypt_involutive:
  assumes "stream_encrypt ctr alg sc m = Some (rc, m')" "blength sc AND 7 = 0" "ctr_ok ctr"
  shows "stream_encrypt ctr alg sc m' = Some (rc, m) \<and> length m' = length m"
proof -
  consider "alg = 0" | "alg = 1" | "alg = 2" | "alg \<notin> {0, 1, 2}" by blast
  then show ?thesis
  proof cases
    case 1
    then show ?thesis using assms by (auto simp: stream_encrypt_def stream_encrypt_eea0_def Let_def split: if_splits)
  next
    case 2
    then show ?thesis using assms eea1_involutive [of sc m rc m'] by (simp add: stream_encrypt_def)
  next
    case 3
    let ?n = "unat (drop_bit 3 (blength sc))"
    have n: "\<not> length m < ?n" "\<not> length (sc_key sc) < 16" and m': "m' = ctr (sc_key sc) (key_length sc) (eea2_counter sc) (take ?n m) @ drop ?n m" and "rc = 0"
      using 3 assms by (auto simp: stream_encrypt_def stream_encrypt_eea2_def Let_def split: if_splits)
    have "length (ctr (sc_key sc) (key_length sc) (eea2_counter sc) (take ?n m)) = ?n"
      using n assms(3) by (simp add: ctr_ok_def)
    then have "take ?n m' = ctr (sc_key sc) (key_length sc) (eea2_counter sc) (take ?n m)" "drop ?n m' = drop ?n m" "length m' = length m"
      using n by (simp_all add: m')
    then show ?thesis
      using 3 n assms \<open>rc = 0\<close> by (simp add: stream_encrypt_def stream_encrypt_eea2_def ctr_ok_def)
  next
    case 4
    then show ?thesis using assms by (auto simp: stream_encrypt_def)
  qed
qed

section \<open>The multiplication of 128-EIA1\<close>

definition additive :: "(64 word \<Rightarrow> 64 word) \<Rightarrow> bool" where
  "additive f \<longleftrightarrow> (\<forall>a b. f (a XOR b) = f a XOR f b)"

lemma additiveD: "additive f \<Longrightarrow> f (a XOR b) = f a XOR f b"
  by (simp add: additive_def)

lemma additive_0: "additive f \<Longrightarrow> f 0 = 0"
  using additiveD [of f 0 0] by simp

lemma additive_comp: "additive f \<Longrightarrow> additive g \<Longrightarrow> additive (\<lambda>x. f (g x))"
  by (simp add: additive_def)

lemma take_bit_Suc_xor:
  "take_bit (Suc k) w = take_bit k w XOR (if bit w k then push_bit k 1 else 0)" for w :: "64 word"
  by (rule bit_word_eqI) (auto simp: bit_simps less_Suc_eq)

text \<open>Two additive functions that agree on single bits agree.\<close>

lemma additive_ext:
  assumes f: "additive f" and g: "additive g" and basis: "\<And>i. i < 64 \<Longrightarrow> f (push_bit i 1) = g (push_bit i 1)"
  shows "f w = g w"
proof -
  have "f (take_bit k w) = g (take_bit k w)" if "k \<le> 64" for k
    using that
  proof (induction k)
    case 0
    then show ?case using additive_0 [OF f] additive_0 [OF g] by simp
  next
    case (Suc k)
    then show ?case
      using basis [of k] additive_0 [OF f] additive_0 [OF g]
      by (simp add: take_bit_Suc_xor additiveD [OF f] additiveD [OF g] del: take_bit_Suc push_bit_of_1)
  qed
  from this [of 64] show ?thesis using take_bit_length_eq [of w] by simp
qed

lemma MUL64x_additive: "additive (\<lambda>V. OSA_MUL64x V c)"
proof -
  have bit63: "V AND 0x8000000000000000 \<noteq> 0 \<longleftrightarrow> bit V 63" for V :: "64 word"
    using and_exp_eq_0_iff_not_bit [of V 63] by simp
  show ?thesis
    unfolding additive_def OSA_MUL64x_def bit63 bit_xor_iff
    by (auto simp: push_bit_xor ac_simps simp del: push_bit_eq_mult)
qed

lemma MUL64xPOW_additive: "additive (\<lambda>V. OSA_MUL64xPOW V i c)"
proof (induction i)
  case 0
  then show ?case by (simp add: additive_def OSA_MUL64xPOW.simps)
next
  case (Suc i)
  from additive_comp [OF MUL64x_additive [of c] this] show ?case
    by (subst OSA_MUL64xPOW.simps) simp
qed

lemma MUL64xPOW_add: "OSA_MUL64xPOW V (i + j) c = OSA_MUL64xPOW (OSA_MUL64xPOW V j c) i c"
proof (induction i)
  case (Suc i)
  show ?case by (subst (1 2) OSA_MUL64xPOW.simps) (simp add: Suc)
qed (simp add: OSA_MUL64xPOW.simps)

lemma MUL64xPOW_1: "i < 64 \<Longrightarrow> OSA_MUL64xPOW 1 i c = push_bit i 1"
proof (induction i)
  case (Suc i)
  have "\<not> bit (push_bit i 1 :: 64 word) 63" using Suc.prems by (simp add: bit_simps)
  then have "push_bit i (1 :: 64 word) AND 0x8000000000000000 = 0"
    using and_exp_eq_0_iff_not_bit [of "push_bit i (1 :: 64 word)" 63] by simp
  then have "OSA_MUL64x (push_bit i 1) c = push_bit (Suc i) 1"
    by (simp add: OSA_MUL64x_def)
  then show ?case using Suc by (subst OSA_MUL64xPOW.simps) simp
qed (simp add: OSA_MUL64xPOW.simps)

lemma fold_xor_split:
  "fold (\<lambda>i r. r XOR (f i XOR g i)) is (a XOR b) = fold (\<lambda>i r. r XOR f i) is a XOR fold (\<lambda>i r. r XOR g i) is b"
  for f g :: "nat \<Rightarrow> 64 word"
proof (induction "is" arbitrary: a b)
  case (Cons i "is")
  have "(a XOR b) XOR (f i XOR g i) = (a XOR f i) XOR (b XOR g i)" by (simp add: ac_simps)
  then show ?case using Cons [of "a XOR f i" "b XOR g i"] by simp
qed simp

lemmas fold_xor_split_0 = fold_xor_split [where a = 0 and b = 0, unfolded xor_self_eq]

lemma MUL64_fold:
  "OSA_MUL64 V P c = fold (\<lambda>i r. r XOR (if bit P i then OSA_MUL64xPOW V i c else 0)) [0..<64] 0"
proof -
  have "drop_bit i P AND 1 \<noteq> 0 \<longleftrightarrow> bit P i" for i
    by (simp add: and_one_eq bit_iff_odd_drop_bit odd_iff_mod_2_eq_one)
  then have "(\<lambda>i result. if drop_bit i P AND 1 \<noteq> 0 then result XOR OSA_MUL64xPOW V i c else result) =
      (\<lambda>i r. r XOR (if bit P i then OSA_MUL64xPOW V i c else 0))"
    by (auto simp: fun_eq_iff)
  then show ?thesis unfolding OSA_MUL64_def by simp
qed

lemma MUL64_additive_left: "additive (\<lambda>V. OSA_MUL64 V P c)"
proof (unfold additive_def MUL64_fold, intro allI)
  fix a b
  have "(\<lambda>i r. r XOR (if bit P i then OSA_MUL64xPOW (a XOR b) i c else 0)) =
      (\<lambda>i r. r XOR ((if bit P i then OSA_MUL64xPOW a i c else 0) XOR (if bit P i then OSA_MUL64xPOW b i c else 0)))"
    using additiveD [OF MUL64xPOW_additive] by (auto simp: fun_eq_iff)
  then show "fold (\<lambda>i r. r XOR (if bit P i then OSA_MUL64xPOW (a XOR b) i c else 0)) [0..<64] 0 =
      fold (\<lambda>i r. r XOR (if bit P i then OSA_MUL64xPOW a i c else 0)) [0..<64] 0 XOR
      fold (\<lambda>i r. r XOR (if bit P i then OSA_MUL64xPOW b i c else 0)) [0..<64] 0"
    by (simp only: fold_xor_split_0)
qed

lemma MUL64_additive_right: "additive (\<lambda>P. OSA_MUL64 V P c)"
proof (unfold additive_def MUL64_fold, intro allI)
  fix a b
  have "(\<lambda>i r. r XOR (if bit (a XOR b) i then OSA_MUL64xPOW V i c else 0)) =
      (\<lambda>i r. r XOR ((if bit a i then OSA_MUL64xPOW V i c else 0) XOR (if bit b i then OSA_MUL64xPOW V i c else 0)))"
    by (auto simp: fun_eq_iff bit_xor_iff)
  then show "fold (\<lambda>i r. r XOR (if bit (a XOR b) i then OSA_MUL64xPOW V i c else 0)) [0..<64] 0 =
      fold (\<lambda>i r. r XOR (if bit a i then OSA_MUL64xPOW V i c else 0)) [0..<64] 0 XOR
      fold (\<lambda>i r. r XOR (if bit b i then OSA_MUL64xPOW V i c else 0)) [0..<64] 0"
    by (simp only: fold_xor_split_0)
qed

lemma fold_xor_zero: "(\<And>i. i \<in> set is \<Longrightarrow> f i = 0) \<Longrightarrow> fold (\<lambda>i r. r XOR f i) is a = a"
  for f :: "nat \<Rightarrow> 64 word"
  by (induction "is" arbitrary: a) simp_all

lemma MUL64_basis: "j < 64 \<Longrightarrow> OSA_MUL64 V (push_bit j 1) c = OSA_MUL64xPOW V j c"
proof -
  assume j: "j < 64"
  let ?f = "\<lambda>i. if bit (push_bit j 1 :: 64 word) i then OSA_MUL64xPOW V i c else 0"
  have b: "bit (push_bit j 1 :: 64 word) i \<longleftrightarrow> i = j" if "i < 64" for i
    using that by (auto simp: bit_simps)
  have split: "[0..<64] = [0..<j] @ j # [Suc j..<64]" using j upt_add_eq_append [of 0 j "64 - j"] upt_conv_Cons [of j 64] by simp
  have "fold (\<lambda>i r. r XOR ?f i) [0..<j] 0 = 0"
    by (rule fold_xor_zero) (use j b in \<open>auto simp del: push_bit_of_1\<close>)
  moreover have "fold (\<lambda>i r. r XOR ?f i) [Suc j..<64] (OSA_MUL64xPOW V j c) = OSA_MUL64xPOW V j c"
    by (rule fold_xor_zero) (use j b in \<open>auto simp del: push_bit_of_1\<close>)
  ultimately show ?thesis
    unfolding MUL64_fold split using b [OF j] by (simp del: push_bit_of_1)
qed

lemma POW_basis: "i < 64 \<Longrightarrow> OSA_MUL64xPOW (push_bit i 1) j c = OSA_MUL64xPOW 1 (i + j) c"
  using MUL64xPOW_1 [of i c] MUL64xPOW_add [of 1 j i c] by (simp add: add.commute del: push_bit_of_1)

lemma MUL64_commute: "OSA_MUL64 V P c = OSA_MUL64 P V c"
proof -
  have step: "OSA_MUL64xPOW V j c = OSA_MUL64 (push_bit j 1) V c" if j: "j < 64" for j V
  proof (rule additive_ext [OF MUL64xPOW_additive MUL64_additive_right])
    fix i :: nat assume i: "i < 64"
    show "OSA_MUL64xPOW (push_bit i 1) j c = OSA_MUL64 (push_bit j 1) (push_bit i 1) c"
      unfolding MUL64_basis [OF i] POW_basis [OF i] POW_basis [OF j] by (simp add: add.commute)
  qed
  show ?thesis
  proof (rule additive_ext [OF MUL64_additive_right MUL64_additive_left])
    fix j :: nat assume "j < 64"
    then show "OSA_MUL64 V (push_bit j 1) c = OSA_MUL64 (push_bit j 1) V c"
      using step MUL64_basis by simp
  qed
qed

lemma POW_MUL64: "OSA_MUL64xPOW (OSA_MUL64 B C c) i c = OSA_MUL64 (OSA_MUL64xPOW B i c) C c"
proof (rule additive_ext [OF additive_comp [OF MUL64xPOW_additive MUL64_additive_right] MUL64_additive_right])
  fix k :: nat assume "k < 64"
  then show "OSA_MUL64xPOW (OSA_MUL64 B (push_bit k 1) c) i c = OSA_MUL64 (OSA_MUL64xPOW B i c) (push_bit k 1) c"
    by (simp add: MUL64_basis MUL64xPOW_add [symmetric] add.commute del: push_bit_of_1)
qed

lemma MUL64_assoc: "OSA_MUL64 (OSA_MUL64 A B c) C c = OSA_MUL64 A (OSA_MUL64 B C c) c"
proof (rule additive_ext [OF additive_comp [OF MUL64_additive_left MUL64_additive_left] MUL64_additive_left])
  fix i :: nat assume i: "i < 64"
  have "OSA_MUL64 (push_bit i 1) X c = OSA_MUL64xPOW X i c" for X
    using MUL64_commute [of X "push_bit i 1" c] MUL64_basis [OF i, of X c] by simp
  then show "OSA_MUL64 (OSA_MUL64 (push_bit i 1) B c) C c = OSA_MUL64 (push_bit i 1) (OSA_MUL64 B C c) c"
    by (simp add: POW_MUL64 del: push_bit_of_1)
qed

lemmas MUL64_xor_left = additiveD [OF MUL64_additive_left]

section \<open>The hash of 128-EIA1 as a polynomial\<close>

fun gf_pow :: "64 word \<Rightarrow> nat \<Rightarrow> 64 word" where
  "gf_pow P 0 = 1"
| "gf_pow P (Suc n) = OSA_MUL64 P (gf_pow P n) 0x1b"

fun hash_poly :: "64 word list \<Rightarrow> 64 word \<Rightarrow> 64 word" where
  "hash_poly [] P = 0"
| "hash_poly (m # ms) P = OSA_MUL64 m (gf_pow P (Suc (length ms))) 0x1b XOR hash_poly ms P"

definition msg_blocks :: "octet list \<Rightarrow> nat \<Rightarrow> nat \<Rightarrow> 64 word list" where
  "msg_blocks message i n = map (\<lambda>j. join64 (be_word message (8 * j)) (be_word message (8 * j + 4))) [i..<i + n]"

lemma MUL64_1 [simp]: "OSA_MUL64 V 1 c = V"
  using MUL64_basis [of 0 V c] by (simp add: OSA_MUL64xPOW.simps)

lemma hash_poly_snoc: "hash_poly (bs @ [M]) P = OSA_MUL64 (hash_poly bs P XOR M) P 0x1b"
proof (induction bs)
  case Nil
  then show ?case by simp
next
  case (Cons b bs)
  have "OSA_MUL64 b (gf_pow P (Suc (Suc (length bs)))) 0x1b = OSA_MUL64 (OSA_MUL64 b (gf_pow P (Suc (length bs))) 0x1b) P 0x1b"
    unfolding MUL64_assoc gf_pow.simps(2) [of P "Suc (length bs)"] by (simp only: MUL64_commute [of P])
  then show ?case using Cons by (simp add: MUL64_xor_left xor.assoc)
qed

lemma eia1_blocks_fold:
  assumes "8 * (i + n) \<le> length message"
  shows "eia1_blocks n i P message E = Some (fold (\<lambda>b E. OSA_MUL64 (E XOR b) P 0x1b) (msg_blocks message i n) E)"
  using assms
proof (induction n arbitrary: i E)
  case (Suc n)
  have w: "msg_word message (2 * i) = Some (be_word message (8 * i))"
    "msg_word message (2 * i + 1) = Some (be_word message (8 * i + 4))"
    using Suc.prems by (simp_all add: msg_word_def add.commute)
  have "msg_blocks message i (Suc n) = join64 (be_word message (8 * i)) (be_word message (8 * i + 4)) # msg_blocks message (i + 1) n"
    by (simp add: msg_blocks_def upt_rec)
  then show ?case using Suc.IH [of "i + 1"] Suc.prems w by simp
qed (simp add: msg_blocks_def)

lemma fold_hash_poly: "fold (\<lambda>b E. OSA_MUL64 (E XOR b) P 0x1b) bs 0 = hash_poly bs P"
  by (induction bs rule: rev_induct) (simp_all add: hash_poly_snoc)

definition eia1_nblocks :: "stream_cipher \<Rightarrow> nat" where
  "eia1_nblocks sc = (unat (blength sc) + 63) div 64"

lemma eia1_last_ok:
  assumes "blength sc \<noteq> 0" "8 * eia1_nblocks sc \<le> length message"
  shows "\<exists>M. eia1_last sc (eia1_nblocks sc + 1) message = Some M"
proof -
  have "unat (blength sc) > 0" using assms(1) by (simp add: unat_gt_0)
  then have "0 < (unat (blength sc) + 63) div 64" by simp
  then have "eia1_nblocks sc \<ge> 1" by (simp add: eia1_nblocks_def)
  then show ?thesis using assms(2) by (auto simp: eia1_last_def msg_word_def Let_def)
qed

lemma eea1_effect:
  assumes "blength sc = of_nat (8 * L)" "8 * L + 31 < 2 ^ 32" "key_length sc = 16" "16 \<le> length (sc_key sc)"
    and "4 * ((L + 3) div 4) \<le> length m"
  shows "\<exists>m'. stream_encrypt_eea1 sc m = Some (0, m') \<and> length m' = length m \<and>
    (\<forall>j < 4 * ((L + 3) div 4).
      m' ! j = m ! j XOR concat (map be_octets (eea1_key_stream sc ((L + 3) div 4))) ! j) \<and>
    (\<forall>j. 4 * ((L + 3) div 4) \<le> j \<longrightarrow> j < length m \<longrightarrow> m' ! j = m ! j)"
proof -
  let ?n = "(L + 3) div 4"
  let ?ks = "concat (map be_octets (eea1_key_stream sc ?n))"
  have whole: "blength sc AND 7 = 0"
  proof (rule bit_word_eqI)
    fix i assume "i < LENGTH(32)"
    have "(of_nat (8 * L) :: 32 word) = push_bit 3 (of_nat L)" by (simp add: push_bit_eq_mult mult.commute)
    moreover have "(7 :: 32 word) = mask 3" by (simp add: mask_eq_exp_minus_1)
    ultimately show "bit (blength sc AND 7) i = bit (0 :: 32 word) i"
      unfolding assms(1) by (simp only: bit_and_iff bit_push_bit_iff bit_mask_iff) simp
  qed
  have "unat (blength sc + 31) = 8 * L + 31"
  proof -
    have "blength sc + 31 = of_nat (8 * L + 31)" using assms(1) by simp
    then show ?thesis using assms(2) by (simp only: unat_of_nat) simp
  qed
  then have n: "unat ((blength sc + 31) div 32) = ?n" by (simp add: unat_div)
  have ks: "length ?ks = 4 * ?n" by (simp add: be_octets_length)
  let ?m' = "map2 (XOR) (take (4 * ?n) m) ?ks @ drop (4 * ?n) m"
  have l: "length (map2 (XOR) (take (4 * ?n) m) ?ks) = 4 * ?n" using assms(5) ks by simp
  have enc: "stream_encrypt_eea1 sc m = Some (0, ?m')"
    using whole assms(3-5) by (simp add: eea1_whole_octets n Let_def)
  have len: "length ?m' = length m" using l assms(5) by simp
  have inside: "?m' ! j = m ! j XOR ?ks ! j" if "j < 4 * ?n" for j
  proof -
    have "?m' ! j = map2 (XOR) (take (4 * ?n) m) ?ks ! j" using l that by (simp only: nth_append) simp
    then show ?thesis using that ks assms(5) by simp
  qed
  have outside: "?m' ! j = m ! j" if "4 * ?n \<le> j" "j < length m" for j
    using l that assms(5) by (simp only: nth_append) simp
  show ?thesis
    by (rule exI [of _ ?m']) (use enc len inside outside in blast)
qed

lemma unat_blength:
  assumes "blength sc = of_nat (8 * n)" "8 * n + 31 < 2 ^ 32"
  shows "unat (drop_bit 3 (blength sc + 7)) = n" "unat (drop_bit 3 (blength sc)) = n" "unat (blength sc AND 7) = 0"
    "unat (blength sc) = 8 * n"
proof -
  have u: "unat (blength sc) = 8 * n" using assms by (simp only: unat_of_nat) simp
  have "blength sc + 7 = of_nat (8 * n + 7)" using assms(1) by simp
  then have "unat (blength sc + 7) = 8 * n + 7" using assms(2) by (simp only: unat_of_nat) simp
  then show "unat (drop_bit 3 (blength sc + 7)) = n" by (simp add: drop_bit_eq_div unat_div)
  show "unat (drop_bit 3 (blength sc)) = n" "unat (blength sc) = 8 * n" using u by (simp_all add: drop_bit_eq_div unat_div)
  have "(7 :: 32 word) = mask 3" by (simp add: mask_eq_exp_minus_1)
  then have "unat (blength sc AND 7) = unat (blength sc) mod 8"
    by (simp only: take_bit_eq_mask [symmetric] unsigned_take_bit_eq) (simp add: take_bit_eq_mod)
  then show "unat (blength sc AND 7) = 0" using u by simp
qed

text \<open>
  Decryption of a buffer that agrees with the encrypted one on \<open>L\<close> octets, at least the message,
  gives back these octets: what the receiver's buffer holds behind them does not matter.
\<close>

lemma stream_decrypt_prefix:
  assumes enc: "stream_encrypt ctr alg sc m1 = Some (rc, m1')" and ctr: "ctr_ok ctr"
    and b: "blength sc = of_nat (8 * n)" "8 * n + 31 < 2 ^ 32"
    and L: "n \<le> L" "L \<le> length m1" "take L m2 = take L m1'" "n + 3 \<le> length m2" "L \<le> length m2"
  shows "\<exists>m2'. stream_encrypt ctr alg sc m2 = Some (rc, m2') \<and> take L m2' = take L m1"
proof -
  note u = unat_blength [OF b]
  have le: "4 * ((n + 3) div 4) \<le> length m2"
    using L(4) by (metis div_mult_mod_eq le_add1 le_trans mult.commute)
  have agree: "m2 ! i = m1' ! i" if "i < L" for i
    using L(3) that by (metis nth_take)
  consider "alg = 0" | "alg = 1" | "alg = 2" | "alg \<notin> {0, 1, 2}" by blast
  then show ?thesis
  proof cases
    case 1
    then show ?thesis using enc u L by (auto simp: stream_encrypt_def stream_encrypt_eea0_def split: if_splits)
  next
    case 2
    then have e1: "stream_encrypt_eea1 sc m1 = Some (rc, m1')" using enc by (simp add: stream_encrypt_def)
    have w: "blength sc AND 7 = 0" using u(3) by (simp add: unat_eq_0)
    have "unat ((blength sc + 31) div 32) = (n + 3) div 4"
    proof -
      have "blength sc + 31 = of_nat (8 * n + 31)" using b(1) by simp
      then have "unat (blength sc + 31) = 8 * n + 31" using b(2) by (simp only: unat_of_nat) simp
      then show ?thesis by (simp add: unat_div)
    qed
    then have k: "key_length sc = 16" "16 \<le> length (sc_key sc)" "4 * ((n + 3) div 4) \<le> length m1" and rc: "rc = 0"
      using e1 w by (auto simp: eea1_whole_octets Let_def split: if_splits)
    from eea1_effect [OF b k] e1 rc have m1': "length m1' = length m1"
      "\<forall>j < 4 * ((n + 3) div 4). m1' ! j = m1 ! j XOR concat (map be_octets (eea1_key_stream sc ((n + 3) div 4))) ! j"
      "\<forall>j. 4 * ((n + 3) div 4) \<le> j \<longrightarrow> j < length m1 \<longrightarrow> m1' ! j = m1 ! j" by auto
    from eea1_effect [OF b k(1,2) le] obtain m2' where m2': "stream_encrypt_eea1 sc m2 = Some (0, m2')" "length m2' = length m2"
      "\<forall>j < 4 * ((n + 3) div 4). m2' ! j = m2 ! j XOR concat (map be_octets (eea1_key_stream sc ((n + 3) div 4))) ! j"
      "\<forall>j. 4 * ((n + 3) div 4) \<le> j \<longrightarrow> j < length m2 \<longrightarrow> m2' ! j = m2 ! j" by auto
    have "take L m2' = take L m1"
    proof (rule nth_equalityI)
      show "length (take L m2') = length (take L m1)" using m2'(2) L by simp
      fix i assume "i < length (take L m2')"
      then have i: "i < L" by simp
      show "take L m2' ! i = take L m1 ! i"
      proof (cases "i < 4 * ((n + 3) div 4)")
        case True
        then show ?thesis using m2'(3) m1'(2) agree [OF i] i by (simp add: xor.assoc)
      next
        case False
        then show ?thesis using m2'(4) m1'(3) agree [OF i] i L by simp
      qed
    qed
    then show ?thesis using m2'(1) 2 rc by (simp add: stream_encrypt_def)
  next
    case 3
    have k: "\<not> length (sc_key sc) < 16" "\<not> length m1 < n" and rc: "rc = 0"
      and m1': "m1' = ctr (sc_key sc) (key_length sc) (eea2_counter sc) (take n m1) @ drop n m1"
      using 3 enc u by (auto simp: stream_encrypt_def stream_encrypt_eea2_def split: if_splits)
    have len: "length (ctr (sc_key sc) (key_length sc) (eea2_counter sc) (take n m1)) = n" using ctr k(2) by (simp add: ctr_ok_def)
    have "take n m2 = take n (take L m2)" using L(1) by (simp add: min_absorb1)
    also have "\<dots> = ctr (sc_key sc) (key_length sc) (eea2_counter sc) (take n m1)" using L(1,3) len m1' by (simp add: min_absorb1)
    finally have tn: "ctr (sc_key sc) (key_length sc) (eea2_counter sc) (take n m2) = take n m1" using ctr by (simp add: ctr_ok_def)
    let ?m2' = "take n m1 @ drop n m2"
    have "stream_encrypt ctr alg sc m2 = Some (0, ?m2')"
      using 3 u k L tn by (simp add: stream_encrypt_def stream_encrypt_eea2_def)
    moreover have "take L ?m2' = take L m1"
    proof (rule nth_equalityI)
      show "length (take L ?m2') = length (take L m1)" using L k by simp
      fix i assume "i < length (take L ?m2')"
      then have i: "i < L" by simp
      show "take L ?m2' ! i = take L m1 ! i"
        using agree [OF i] i k(2) len L m1' by (cases "i < n") (auto simp: nth_append)
    qed
    ultimately show ?thesis using rc by blast
  next
    case 4
    then show ?thesis using enc L by (auto simp: stream_encrypt_def)
  qed
qed

section \<open>The algorithms return\<close>

lemma stream_encrypt_total:
  assumes "blength sc = of_nat (8 * n)" "8 * n + 31 < 2 ^ 32" "key_length sc = 16"
    and "alg \<in> {1, 2} \<longrightarrow> 16 \<le> length (sc_key sc)" "n + 3 \<le> length m" "ctr_ok ctr"
  shows "\<exists>rc m'. stream_encrypt ctr alg sc m = Some (rc, m') \<and> length m' = length m"
proof -
  note u = unat_blength [OF assms(1,2)]
  have le: "4 * ((n + 3) div 4) \<le> length m"
    using assms(5) by (metis div_mult_mod_eq le_add1 le_trans mult.commute)
  consider "alg = 0" | "alg = 1" | "alg = 2" | "alg \<notin> {0, 1, 2}" by blast
  then show ?thesis
  proof cases
    case 2
    then show ?thesis using eea1_effect [OF assms(1,2,3) _ le] assms(4) by (auto simp: stream_encrypt_def)
  qed (use assms(4-6) u in \<open>auto simp: stream_encrypt_def stream_encrypt_eea0_def stream_encrypt_eea2_def ctr_ok_def\<close>)
qed

lemma compute_integrity_total:
  assumes "blength sc = of_nat (8 * n)" "8 * n + 31 < 2 ^ 32" "0 < n" "n + 7 \<le> length m"
    and "alg \<in> {1, 2} \<longrightarrow> 16 \<le> length (sc_key sc)"
  shows "\<exists>rc mac. stream_compute_integrity cmac alg sc m = Some (rc, mac) \<and> length mac \<le> 4"
proof -
  note u = unat_blength [OF assms(1,2)]
  have nb: "eia1_nblocks sc = (n + 7) div 8" using u(4) by (simp add: eia1_nblocks_def)
  have le: "8 * eia1_nblocks sc \<le> length m"
    unfolding nb using assms(4) by (metis div_mult_mod_eq le_add1 le_trans mult.commute)
  have nz: "blength sc \<noteq> 0" using u(4) assms(3) by auto
  obtain M where M: "eia1_last sc (eia1_nblocks sc + 1) m = Some M" using eia1_last_ok [OF nz le] by blast
  have bl: "eia1_blocks (eia1_nblocks sc - 1) 0 P m 0 = Some (hash_poly (msg_blocks m 0 (eia1_nblocks sc - 1)) P)" for P
    using eia1_blocks_fold [of 0 "eia1_nblocks sc - 1" m P 0] le by (simp add: fold_hash_poly)
  consider "alg = 1" | "alg = 2" | "alg \<notin> {1, 2}" by blast
  then show ?thesis
  proof cases
    case 1
    then show ?thesis using M bl assms(5)
      by (simp add: stream_compute_integrity_def stream_compute_integrity_eia1_def Let_def eia1_nblocks_def be_octets_def)
  next
    case 2
    then show ?thesis using u assms(4,5)
      by (simp add: stream_compute_integrity_def stream_compute_integrity_eia2_def)
  qed (simp add: stream_compute_integrity_def)
qed

lemma check_integrity_total:
  assumes "blength sc = of_nat (8 * n)" "8 * n + 31 < 2 ^ 32" "0 < n" "n + 7 \<le> length m"
    and "alg \<in> {1, 2} \<longrightarrow> 16 \<le> length (sc_key sc)" "4 \<le> length expected"
  shows "\<exists>rc. stream_check_integrity cmac alg sc m expected = Some rc"
  using compute_integrity_total [OF assms(1-5), of cmac] assms(6) by (auto simp: stream_check_integrity_def)

section \<open>Properties\<close>

definition sample_cipher :: stream_cipher where
  "sample_cipher = \<lparr>sc_key = replicate 16 7, key_length = 16, sc_count = 5, bearer = 2, direction = 1, blength = 16\<rparr>"

text \<open>A counter mode with a fixed key stream octet.\<close>

definition sample_ctr :: ctr_crypt where
  "sample_ctr k l iv m = map (\<lambda>x. x XOR 0x5a) m"

lemma sample_ctr_ok: "ctr_ok sample_ctr"
  by (simp add: ctr_ok_def sample_ctr_def o_def xor.assoc)

text \<open>
  C30. What 128-EEA1 touches: on \<open>L\<close> octets it adds the key stream to the first \<open>4 * ceil(L / 4)\<close>
  octets of the buffer and leaves the rest. When \<open>L\<close> is not a multiple of four, up to three octets
  behind the message are changed as well (for a signalling PDU these are octets of the MAC-I that
  follows the data).
\<close>

theorem eea1_footprint:
  assumes "blength sc = of_nat (8 * L)" "8 * L + 31 < 2 ^ 32" "key_length sc = 16" "16 \<le> length (sc_key sc)"
    and "4 * ((L + 3) div 4) \<le> length m"
  shows "\<exists>m'. stream_encrypt_eea1 sc m = Some (0, m') \<and> length m' = length m \<and>
    (\<forall>j < 4 * ((L + 3) div 4).
      m' ! j = m ! j XOR concat (map be_octets (eea1_key_stream sc ((L + 3) div 4))) ! j) \<and>
    (\<forall>j. 4 * ((L + 3) div 4) \<le> j \<longrightarrow> j < length m \<longrightarrow> m' ! j = m ! j)"
  by (rule eea1_effect [OF assms])

theorem eea1_footprint_witness:
  "\<exists>m'. stream_encrypt_eea1 sample_cipher [1, 2, 3, 4, 5] = Some (0, m') \<and>
     m' ! 3 = 4 XOR concat (map be_octets (eea1_key_stream sample_cipher 1)) ! 3 \<and> m' ! 4 = 5"
proof -
  have "\<exists>m'. stream_encrypt_eea1 sample_cipher [1, 2, 3, 4, 5] = Some (0, m') \<and> length m' = length [1, 2, 3, 4, 5 :: octet] \<and>
    (\<forall>j < 4 * ((2 + 3) div 4).
      m' ! j = [1, 2, 3, 4, 5] ! j XOR concat (map be_octets (eea1_key_stream sample_cipher ((2 + 3) div 4))) ! j) \<and>
    (\<forall>j. 4 * ((2 + 3) div 4) \<le> j \<longrightarrow> j < length [1, 2, 3, 4, 5 :: octet] \<longrightarrow> m' ! j = [1, 2, 3, 4, 5] ! j)"
    by (rule eea1_footprint [of sample_cipher 2]) (simp_all add: sample_cipher_def)
  then obtain m' where e: "stream_encrypt_eea1 sample_cipher [1, 2, 3, 4, 5] = Some (0, m')"
    and i: "\<forall>j < 4. m' ! j = [1, 2, 3, 4, 5] ! j XOR concat (map be_octets (eea1_key_stream sample_cipher 1)) ! j"
    and o: "\<forall>j. 4 \<le> j \<longrightarrow> j < 5 \<longrightarrow> m' ! j = [1, 2, 3, 4, 5 :: octet] ! j"
    by auto
  from i have "m' ! 3 = 4 XOR concat (map be_octets (eea1_key_stream sample_cipher 1)) ! 3"
    by (drule_tac spec [of _ 3]) simp
  moreover from o have "m' ! 4 = 5" by (drule_tac spec [of _ 4]) simp
  ultimately show ?thesis using e by blast
qed

end
