(* ===== verification/OsaSpec.thy ===== *)
theory OsaSpec
  imports Osa
begin

text \<open>
  What the algorithms of \<open>Osa\<close> are to compute, stated without the definitions that model the code: polynomials over GF(2)
  written as natural numbers, with long division as the reduction, and the ciphering and integrity functions 128-EEA1 and
  128-EIA1 (UEA2 and UIA2, 3GPP TS 35.215) on the bits of a message. Only the key stream of SNOW 3G is taken from
  \<open>Snow3g\<close>. The properties state that the code computes these functions.
\<close>

section \<open>Polynomials over GF(2)\<close>

text \<open>The number with bit \<open>i\<close> is the polynomial with the monomial \<open>x ^ i\<close>. The product without carries:\<close>

fun clmul :: "nat \<Rightarrow> nat \<Rightarrow> nat" where
  "clmul a b = (if b = 0 then 0 else (if odd b then a else 0) XOR 2 * clmul a (b div 2))"

declare clmul.simps [simp del]

text \<open>
  Long division by a polynomial \<open>m\<close> of degree 64: from the top, each bit \<open>64 + n\<close> is cleared by subtracting \<open>m * x ^ n\<close>. For
  a polynomial of degree less than 128, 64 steps leave the remainder.
\<close>

fun gf_divide :: "nat \<Rightarrow> nat \<Rightarrow> nat \<Rightarrow> nat" where
  "gf_divide m 0 x = x"
| "gf_divide m (Suc n) x = gf_divide m n (if bit x (64 + n) then x XOR push_bit n m else x)"

definition gf_mod :: "nat \<Rightarrow> nat \<Rightarrow> nat" where
  "gf_mod m x = gf_divide m 64 x"

lemma bit_double: "bit (2 * a) (Suc n) \<longleftrightarrow> bit a n" for a :: nat
  by (simp add: bit_Suc)

lemma double_xor: "2 * (a XOR b) = (2 * a) XOR (2 * b)" for a b :: nat
  using push_bit_xor [of 1 a b] unfolding push_bit_eq_mult by (simp add: mult.commute)

lemma xor_cancel: "a XOR (a XOR b) = b" for a b :: nat
  by (simp flip: xor.assoc)

lemma bit_power: "bit (2 ^ n :: nat) i \<longleftrightarrow> i = n"
  by (auto simp: bit_exp_iff)

lemma clmul_xor_left: "clmul (a XOR b) c = clmul a c XOR clmul b c"
proof (induction c rule: less_induct)
  case (less c)
  show ?case
  proof (cases "c = 0")
    case False
    then have "clmul (a XOR b) (c div 2) = clmul a (c div 2) XOR clmul b (c div 2)" using less by simp
    then show ?thesis using False
      by (subst (1 2 3) clmul.simps) (simp add: double_xor ac_simps)
  qed (simp add: clmul.simps)
qed

lemma clmul_double_left: "clmul (2 * a) c = 2 * clmul a c"
proof (induction c rule: less_induct)
  case (less c)
  show ?case
  proof (cases "c = 0")
    case False
    then have "clmul (2 * a) (c div 2) = 2 * clmul a (c div 2)" using less by simp
    then show ?thesis using False
      by (subst (1 2) clmul.simps) (simp add: double_xor)
  qed (simp add: clmul.simps)
qed

lemma clmul_0 [simp]: "clmul a 0 = 0" "clmul 0 b = 0"
proof -
  show "clmul a 0 = 0" by (simp add: clmul.simps)
  show "clmul 0 b = 0"
    by (induction b rule: less_induct) (subst clmul.simps, simp)
qed

lemma clmul_step: "clmul a b = (if odd b then a else 0) XOR 2 * clmul a (b div 2)"
  by (cases "b = 0") (simp_all add: clmul.simps [of a b])

lemma half_xor: "(a XOR b) div 2 = (a div 2) XOR (b div 2)" for a b :: nat
  using drop_bit_xor [of 1 a b] by (simp add: drop_bit_eq_div)

lemma odd_xor: "odd (a XOR b) \<longleftrightarrow> odd a \<noteq> odd b" for a b :: nat
  using bit_xor_iff [of a b 0] by (simp add: bit_0)

lemma clmul_xor_right: "clmul a (b XOR c) = clmul a b XOR clmul a c"
proof (induction "b + c" arbitrary: b c rule: less_induct)
  case less
  show ?case
  proof (cases "b + c = 0")
    case False
    then have "b div 2 + c div 2 < b + c" by linarith
    from less [OF this] have IH: "clmul a ((b XOR c) div 2) = clmul a (b div 2) XOR clmul a (c div 2)"
      by (simp only: half_xor)
    show ?thesis
      unfolding clmul_step [of a "b XOR c"] clmul_step [of a b] clmul_step [of a c] IH odd_xor
      by (auto simp: double_xor ac_simps xor_cancel)
  qed simp
qed

lemma clmul_power: "clmul a (2 ^ n) = push_bit n a"
proof (induction n)
  case 0
  then show ?case by (simp add: clmul_step [of a "Suc 0"])
next
  case (Suc n)
  then show ?case by (simp add: clmul_step [of a "2 * 2 ^ n"] push_bit_eq_mult)
qed

lemma gf_divide_xor: "gf_divide m n (x XOR y) = gf_divide m n x XOR gf_divide m n y"
proof (induction n arbitrary: x y)
  case (Suc n)
  show ?case
    by (simp add: Suc [symmetric] bit_xor_iff) (auto simp: ac_simps)
qed simp

lemma high_bit_zero: "x < 2 ^ k \<Longrightarrow> \<not> bit x k" for x :: nat
  by (simp add: bit_iff_odd)

lemma gf_divide_skip: "x < 2 ^ (64 + n) \<Longrightarrow> gf_divide m (Suc n) x = gf_divide m n x"
  using high_bit_zero [of x "64 + n"] by simp

text \<open>Multiplication by \<open>x\<close> before the division, or one more step behind it.\<close>

lemma gf_divide_double: "gf_divide m (Suc n) (2 * x) = gf_divide m (Suc 0) (2 * gf_divide m n x)"
proof (induction n arbitrary: x)
  case (Suc n)
  have "(if bit (2 * x) (64 + Suc n) then 2 * x XOR push_bit (Suc n) m else 2 * x) =
      2 * (if bit x (64 + n) then x XOR push_bit n m else x)"
    using bit_double [of x "64 + n"] by (simp add: double_xor push_bit_Suc push_bit_double mult.commute)
  then have "gf_divide m (Suc (Suc n)) (2 * x) =
      gf_divide m (Suc n) (2 * (if bit x (64 + n) then x XOR push_bit n m else x))"
    by (subst gf_divide.simps(2)) (simp only:)
  also have "\<dots> = gf_divide m (Suc 0) (2 * gf_divide m (Suc n) x)"
    unfolding Suc by (simp only: gf_divide.simps(2) [of m n])
  finally show ?case .
qed simp

lemma gf_mod_double:
  assumes "x < 2 ^ 127"
  shows "gf_mod m (2 * x) = (if bit (gf_mod m x) 63 then (2 * gf_mod m x) XOR m else 2 * gf_mod m x)"
proof -
  have "gf_mod m x = gf_divide m 63 x" using gf_divide_skip [of x 63 m] assms by (simp add: gf_mod_def)
  moreover have "gf_mod m (2 * x) = gf_divide m (Suc 0) (2 * gf_divide m 63 x)"
    using gf_divide_double [of m 63 x] by (simp add: gf_mod_def)
  ultimately show ?thesis using bit_double [of "gf_mod m x" 63] by simp
qed

lemma gf_mod_xor: "gf_mod m (x XOR y) = gf_mod m x XOR gf_mod m y"
  by (simp add: gf_mod_def gf_divide_xor)

text \<open>The long division leaves a remainder: a polynomial of degree less than 64 that differs from the dividend by a multiple of \<open>m\<close>.\<close>

lemma gf_divide_multiple: "\<exists>q. x = clmul m q XOR gf_divide m n x"
proof (induction n arbitrary: x)
  case (Suc n)
  let ?y = "if bit x (64 + n) then x XOR push_bit n m else x"
  obtain q where q: "?y = clmul m q XOR gf_divide m n ?y" using Suc by blast
  have "x = clmul m (if bit x (64 + n) then 2 ^ n else 0) XOR ?y"
    by (simp add: clmul_power ac_simps)
  also have "\<dots> = clmul m ((if bit x (64 + n) then 2 ^ n else 0) XOR q) XOR gf_divide m n ?y"
    by (subst q) (simp add: clmul_xor_right ac_simps)
  finally show ?case unfolding gf_divide.simps by blast
qed (auto intro: exI [of _ 0])

lemma gf_divide_degree:
  assumes "m < 2 ^ 65" "bit m 64" "x < 2 ^ (64 + n)"
  shows "gf_divide m n x < 2 ^ 64"
  using assms(3)
proof (induction n arbitrary: x)
  case (Suc n)
  let ?y = "if bit x (64 + n) then x XOR push_bit n m else x"
  have "\<not> bit ?y k" if "64 + n \<le> k" for k
  proof (cases "k = 64 + n")
    case True
    then show ?thesis using assms(2) by (simp add: bit_simps)
  next
    case False
    then have k: "64 + Suc n \<le> k" "65 \<le> k - n" using that by simp_all
    have "x < 2 ^ k" using Suc.prems power_increasing [OF k(1), of "2 :: nat"] by linarith
    moreover have "m < 2 ^ (k - n)" using assms(1) power_increasing [OF k(2), of "2 :: nat"] by linarith
    ultimately show ?thesis using high_bit_zero [of x k] high_bit_zero [of m "k - n"] by (simp add: bit_simps)
  qed
  then have "take_bit (64 + n) ?y = ?y"
    by (intro bit_eqI) (simp only: bit_take_bit_iff, metis not_le)
  then have "?y < 2 ^ (64 + n)" using take_bit_nat_less_exp [of "64 + n" ?y] by simp
  then show ?case using Suc.IH [of ?y] by simp
qed simp

section \<open>The multiplication of the code\<close>

text \<open>The modulus \<open>x ^ 64 + c\<close>.\<close>

definition modulus :: "64 word \<Rightarrow> nat" where
  "modulus c = 2 ^ 64 + unat c"

lemma modulus_xor: "modulus c = (2 ^ 64) XOR unat c"
proof -
  have "unat c < 2 ^ 64" using unsigned_less [of c] by simp
  then have "\<not> bit (unat c) 64" by (rule high_bit_zero)
  then have "2 ^ 64 AND unat c = 0" by (intro bit_eqI) (simp only: bit_and_iff bit_power bit_0_eq bot_apply, auto)
  then show ?thesis unfolding modulus_def by (rule disjunctive_add_eq_xor)
qed

lemma modulus_degree: "modulus c < 2 ^ 65" "bit (modulus c) 64"
proof -
  have u: "unat c < 2 ^ 64" using unsigned_less [of c] by simp
  then show "modulus c < 2 ^ 65" by (simp add: modulus_def)
  show "bit (modulus c) 64" using high_bit_zero [OF u] by (simp only: modulus_xor bit_xor_iff bit_power) simp
qed

lemma gf_mod_less: "x < 2 ^ 128 \<Longrightarrow> gf_mod (modulus c) x < 2 ^ 64"
  using gf_divide_degree [OF modulus_degree, of x 64 c] by (simp add: gf_mod_def)

lemma gf_mod_small: "x < 2 ^ 64 \<Longrightarrow> gf_mod m x = x"
proof -
  assume x: "x < 2 ^ 64"
  have "gf_divide m n x = x" for n
  proof (induction n)
    case (Suc n)
    have "x < 2 ^ (64 + n)" using x power_increasing [of 64 "64 + n" "2 :: nat"] by simp
    then show ?case using Suc gf_divide_skip [of x n m] by simp
  qed simp
  then show ?thesis by (simp add: gf_mod_def)
qed

lemma unat_xor: "unat (a XOR b) = unat a XOR unat b"
  by (simp add: unsigned_xor_eq)

lemma unat_MUL64x: "unat (OSA_MUL64x V c) = (if bit (unat V) 63 then (2 * unat V) XOR modulus c else 2 * unat V)"
proof -
  have b: "V AND 0x8000000000000000 \<noteq> 0 \<longleftrightarrow> bit (unat V) 63"
    using and_exp_eq_0_iff_not_bit [of V 63] by (simp add: bit_unsigned_iff)
  have u: "unat V < 2 ^ 64" using unsigned_less [of V] by simp
  have p: "unat (push_bit 1 V) = (if bit (unat V) 63 then (2 * unat V) XOR 2 ^ 64 else 2 * unat V)"
  proof (rule bit_eqI)
    fix i
    have "unat (push_bit 1 V) = take_bit 64 (2 * unat V)"
      unfolding unsigned_push_bit_eq by (simp add: push_bit_eq_mult mult.commute)
    moreover have "bit (2 * unat V) 64 = bit (unat V) 63" using bit_double [of "unat V" 63] by simp
    moreover have "\<not> bit (2 * unat V) i" if "65 \<le> i"
      using u power_increasing [OF that, of "2 :: nat"] by (intro high_bit_zero) simp
    ultimately show "bit (unat (push_bit 1 V)) i = bit (if bit (unat V) 63 then (2 * unat V) XOR 2 ^ 64 else 2 * unat V) i"
      by (cases "i < 64"; cases "i = 64"; cases "bit (unat V) 63") (simp_all only: if_True if_False bit_take_bit_iff bit_xor_iff bit_power, auto)
  qed
  show ?thesis
    using b p by (simp add: OSA_MUL64x_def unat_xor modulus_xor ac_simps)
qed

lemma unat_MUL64xPOW: "i \<le> 64 \<Longrightarrow> unat (OSA_MUL64xPOW V i c) = gf_mod (modulus c) (push_bit i (unat V))"
proof (induction i)
  case 0
  have "unat V < 2 ^ 64" using unsigned_less [of V] by simp
  then show ?case by (simp add: OSA_MUL64xPOW.simps gf_mod_small)
next
  case (Suc i)
  have "unat V < 2 ^ 64" using unsigned_less [of V] by simp
  then have "push_bit i (unat V) < 2 ^ i * 2 ^ 64" by (simp add: push_bit_eq_mult)
  also have "\<dots> \<le> 2 ^ 63 * 2 ^ 64"
    by (rule mult_right_mono [OF power_increasing]) (use Suc.prems in simp_all)
  finally have "push_bit i (unat V) < 2 ^ 127" by simp
  from gf_mod_double [OF this, of "modulus c"] Suc show ?case
    by (subst OSA_MUL64xPOW.simps) (simp add: unat_MUL64x push_bit_double push_bit_Suc mult.commute)
qed

lemma xor_less: "a < 2 ^ n \<Longrightarrow> b < 2 ^ n \<Longrightarrow> a XOR b < 2 ^ n" for a b :: nat
  using take_bit_xor [of n a b] by (metis take_bit_nat_eq_self take_bit_nat_less_exp)

lemma clmul_less: "a < 2 ^ j \<Longrightarrow> b < 2 ^ k \<Longrightarrow> clmul a b < 2 ^ (j + k)"
proof (induction k arbitrary: b)
  case (Suc k)
  have "clmul a (b div 2) < 2 ^ (j + k)" using Suc by simp
  then have "2 * clmul a (b div 2) < 2 ^ (j + Suc k)" by simp
  moreover have "(if odd b then a else 0) < 2 ^ (j + Suc k)"
    using Suc.prems(1) power_increasing [of j "j + Suc k" "2 :: nat"] by auto
  ultimately show ?case
    unfolding clmul_step [of a b] by (intro xor_less)
qed simp

text \<open>\<open>OSA_MUL64\<close> multiplies modulo \<open>x ^ 64 + c\<close>.\<close>

lemma unat_MUL64: "unat (OSA_MUL64 V P c) = gf_mod (modulus c) (clmul (unat V) (unat P))"
proof -
  let ?g = "\<lambda>P :: 64 word. of_nat (gf_mod (modulus c) (clmul (unat V) (unat P))) :: 64 word"
  have less: "gf_mod (modulus c) (clmul (unat V) (unat P)) < 2 ^ 64" for P :: "64 word"
    using clmul_less [of "unat V" 64 "unat P" 64] unsigned_less [of V] unsigned_less [of P] by (intro gf_mod_less) simp
  have u: "unat (?g P) = gf_mod (modulus c) (clmul (unat V) (unat P))" for P :: "64 word"
    using less [of P] by (simp add: unat_of_nat)
  have "additive ?g"
    unfolding additive_def
  proof (intro allI word_unat_eq_iff [THEN iffD2])
    fix a b :: "64 word"
    show "unat (?g (a XOR b)) = unat (?g a XOR ?g b)"
      by (subst u, subst unat_xor, subst unat_xor, subst (1 2) u) (simp only: clmul_xor_right gf_mod_xor)
  qed
  moreover have "OSA_MUL64 V (push_bit i 1) c = ?g (push_bit i 1)" if i: "i < 64" for i
  proof (rule word_unat_eq_iff [THEN iffD2])
    have "unat (push_bit i (1 :: 64 word)) = 2 ^ i"
      using i by (intro bit_eqI) (auto simp: bit_simps)
    then show "unat (OSA_MUL64 V (push_bit i 1) c) = unat (?g (push_bit i 1))"
      unfolding u MUL64_basis [OF i] using unat_MUL64xPOW [of i V c] i clmul_power [of "unat V" i] by simp
  qed
  ultimately have "OSA_MUL64 V P c = ?g P" by (rule additive_ext [OF MUL64_additive_right])
  then show ?thesis using u by simp
qed

text \<open>What the division leaves: the product less a multiple of the modulus.\<close>

lemma MUL64_multiple: "\<exists>q. clmul (unat V) (unat P) = clmul (modulus c) q XOR unat (OSA_MUL64 V P c)"
  using gf_divide_multiple [of "clmul (unat V) (unat P)" "modulus c" 64] by (simp add: unat_MUL64 gf_mod_def)

section \<open>Numbers and bits\<close>

text \<open>A string of octets as a number, the most significant octet first, and bit \<open>i\<close> of a message.\<close>

definition octets_number :: "octet list \<Rightarrow> nat" where
  "octets_number bs = foldl (\<lambda>a b. 256 * a + unat b) 0 bs"

definition msg_bit :: "octet list \<Rightarrow> nat \<Rightarrow> bool" where
  "msg_bit message i = bit (message ! (i div 8)) (7 - i mod 8)"

text \<open>
  The key stream of SNOW 3G for a key of 16 octets and the numbers \<open>IV0\<close>, \<open>IV1\<close>, \<open>IV2\<close>, \<open>IV3\<close>; the initial values of UEA2
  and UIA2 from COUNT, BEARER and DIRECTION.
\<close>

definition snow3g_words :: "octet list \<Rightarrow> nat list \<Rightarrow> nat \<Rightarrow> 32 word list" where
  "snow3g_words key iv n = fst (osa_snow3g_generate_key_stream n
     (osa_snow3g_initialize (map (\<lambda>i. of_nat (octets_number (take 4 (drop i key)))) [12, 8, 4, 0]) (map of_nat iv)))"

definition uea2_words :: "octet list \<Rightarrow> nat \<Rightarrow> nat \<Rightarrow> nat \<Rightarrow> nat \<Rightarrow> 32 word list" where
  "uea2_words key count BEARER DIR n =
     (let b = BEARER * 2 ^ 27 + DIR * 2 ^ 26 in snow3g_words key [b, count, b, count] n)"

definition uia2_words :: "octet list \<Rightarrow> nat \<Rightarrow> nat \<Rightarrow> nat \<Rightarrow> 32 word list" where
  "uia2_words key count BEARER DIR =
     (let FRESH = BEARER * 2 ^ 27 in snow3g_words key [FRESH XOR (DIR * 2 ^ 15), count XOR (DIR * 2 ^ 31), FRESH, count] 5)"

text \<open>
  UIA2: the message, padded with zero bits to blocks of 64, as the coefficients of a polynomial that is evaluated at \<open>P\<close>; the
  length is added and the sum multiplied by \<open>Q\<close>, modulo \<open>x ^ 64 + x ^ 4 + x ^ 3 + x + 1\<close>; the upper half is masked with \<open>z5\<close>.
\<close>

definition gf_mul :: "nat \<Rightarrow> nat \<Rightarrow> nat" where
  "gf_mul a b = gf_mod (2 ^ 64 + 2 ^ 4 + 2 ^ 3 + 2 + 1) (clmul a b)"

primrec gf_power :: "nat \<Rightarrow> nat \<Rightarrow> nat" where
  "gf_power P 0 = 1"
| "gf_power P (Suc n) = gf_mul P (gf_power P n)"

primrec gf_eval :: "nat list \<Rightarrow> nat \<Rightarrow> nat" where
  "gf_eval [] P = 0"
| "gf_eval (m # ms) P = gf_mul m (gf_power P (Suc (length ms))) XOR gf_eval ms P"

definition uia2_block :: "nat \<Rightarrow> octet list \<Rightarrow> nat \<Rightarrow> nat" where
  "uia2_block L message j =
     horner_sum of_bool 2 (map (\<lambda>k. 64 * j + 63 - k < L \<and> msg_bit message (64 * j + 63 - k)) [0..<64])"

definition uia2_mac :: "octet list \<Rightarrow> nat \<Rightarrow> nat \<Rightarrow> nat \<Rightarrow> nat \<Rightarrow> octet list \<Rightarrow> nat" where
  "uia2_mac key count BEARER DIR L message =
     (let z = map unat (uia2_words key count BEARER DIR);
          P = z ! 0 * 2 ^ 32 + z ! 1;
          Q = z ! 2 * 2 ^ 32 + z ! 3;
          EVAL = gf_eval (map (uia2_block L message) [0..<(L + 63) div 64]) P
      in (gf_mul (EVAL XOR L) Q div 2 ^ 32) XOR z ! 4)"

section \<open>The code computes them\<close>

lemma or_add: "a AND b = 0 \<Longrightarrow> a OR b = a + b" for a b :: "'a::len word"
  by (simp add: disjunctive_add_eq_or)

lemma word_of_octets_number: "word_of_octets a b c d = of_nat (octets_number [a, b, c, d])"
proof -
  have p: "push_bit k (ucast x) = of_nat (unat x * 2 ^ k)" for k and x :: octet
    by (simp add: push_bit_eq_mult)
  have "word_of_octets a b c d = push_bit 24 (ucast a) + push_bit 16 (ucast b) + push_bit 8 (ucast c) + ucast d"
    unfolding word_of_octets_def
    by (subst or_add, rule bit_word_eqI, force simp: bit_simps dest: bit_imp_le_length)+ simp
  also have "\<dots> = of_nat (unat a * 2 ^ 24 + unat b * 2 ^ 16 + unat c * 2 ^ 8 + unat d)"
    unfolding p by simp
  finally show ?thesis by (simp add: octets_number_def algebra_simps)
qed

lemma take_4_drop: "i + 4 \<le> length bs \<Longrightarrow> take 4 (drop i bs) = [bs ! i, bs ! (i + 1), bs ! (i + 2), bs ! (i + 3)]"
  by (simp add: take_Suc_conv_app_nth numeral_eq_Suc)

lemma be_word_number: "i + 4 \<le> length bs \<Longrightarrow> be_word bs i = of_nat (octets_number (take 4 (drop i bs)))"
  unfolding be_word_def word_of_octets_number by (simp add: take_4_drop)

lemma key_words_number: "16 \<le> length key \<Longrightarrow> key_words key = map (\<lambda>i. of_nat (octets_number (take 4 (drop i key)))) [12, 8, 4, 0]"
  unfolding key_words_def list.map by (intro arg_cong2 [of _ _ _ _ Cons] be_word_number refl) simp_all

lemma octet_bound: "unat b < 256" for b :: octet
  using unsigned_less [of b] by simp

lemma octets_number_be: "octets_number (be_octets w) = unat w"
proof -
  have "w = of_nat (octets_number (be_octets w))"
    using word_octets [of w] unfolding word_of_octets_number be_octets_def .
  moreover have "octets_number (be_octets w) < 2 ^ 32"
    using octet_bound [of "octet_at 24 w"] octet_bound [of "octet_at 16 w"] octet_bound [of "octet_at 8 w"] octet_bound [of "octet_at 0 w"]
    unfolding be_octets_def octets_number_def by simp
  moreover have "unat (of_nat n :: 32 word) = n" if "n < 2 ^ 32" for n
    using that by (simp add: unat_of_nat)
  ultimately show ?thesis by metis
qed


lemma low_bits: "ucast b AND 0x1F = (of_nat (unat b mod 2 ^ 5) :: 32 word)" "ucast b AND 1 = (of_nat (unat b mod 2) :: 32 word)"
  for b :: octet
proof -
  have m: "(0x1F :: 32 word) = mask 5" "(1 :: 32 word) = mask 1" by (simp_all add: mask_eq_exp_minus_1)
  have t: "ucast b AND mask n = (of_nat (unat b mod 2 ^ n) :: 32 word)" for n
    by (simp add: of_nat_take_bit flip: take_bit_eq_mask take_bit_eq_mod)
  show "ucast b AND 0x1F = (of_nat (unat b mod 2 ^ 5) :: 32 word)" unfolding m t ..
  show "ucast b AND 1 = (of_nat (unat b mod 2) :: 32 word)" unfolding m t by simp
qed

lemma push_number: "push_bit n (of_nat x) = (of_nat (x * 2 ^ n) :: 32 word)"
  by (simp add: push_bit_eq_mult)

lemma push_high: "push_bit n (ucast b) = (of_nat (unat b mod 2 ^ (32 - n) * 2 ^ n) :: 32 word)" if "n \<le> 32" for b :: octet
proof -
  have c: "push_bit n (ucast b) = (of_nat (unat b * 2 ^ n) :: 32 word)"
    using push_number [of n "unat b"] by simp
  have "(2 :: nat) ^ 32 = 2 ^ (32 - n) * 2 ^ n" using that by (simp flip: power_add)
  then have "unat b * 2 ^ n mod 2 ^ 32 = unat b mod 2 ^ (32 - n) * 2 ^ n"
    by (simp only: mod_mult_mult2)
  moreover have "LENGTH(32) = 32" by simp
  ultimately have "(of_nat (unat b * 2 ^ n) :: 32 word) = of_nat (unat b mod 2 ^ (32 - n) * 2 ^ n)"
    by (metis word_of_nat_eq_iff take_bit_eq_mod mod_mod_trivial)
  then show ?thesis using c by simp
qed


text \<open>The initial values of the code.\<close>

lemma eia1_iv_number:
  "eia1_iv sc =
     (let FRESH = unat (bearer sc) mod 32 * 2 ^ 27; DIR = unat (direction sc) mod 2 in
      map of_nat [FRESH XOR (DIR * 2 ^ 15), unat (sc_count sc) XOR (DIR * 2 ^ 31), FRESH, unat (sc_count sc)])"
proof -
  have h: "push_bit 31 (ucast d) = (of_nat (unat d mod 2 * 2 ^ 31) :: 32 word)" for d :: octet
    using push_high [of 31 d] by simp
  have k: "push_bit 27 (ucast d AND 0x1F) = (of_nat (unat d mod 32 * 2 ^ 27) :: 32 word)" for d :: octet
    unfolding low_bits push_number by simp
  have l: "push_bit 15 (ucast (d AND 1)) = (of_nat (unat d mod 2 * 2 ^ 15) :: 32 word)" for d :: octet
    unfolding unsigned_and_eq unsigned_1 low_bits push_number by simp
  have c: "sc_count sc = of_nat (unat (sc_count sc))" by simp
  show ?thesis
    unfolding eia1_iv_def Let_def h k l list.map of_nat_xor_eq c [symmetric] ..
qed

lemma eea1_iv_number:
  "eea1_iv sc =
     (let b = unat (bearer sc) mod 32 * 2 ^ 27 + unat (direction sc) mod 2 * 2 ^ 26 in
      map of_nat [b, unat (sc_count sc), b, unat (sc_count sc)])"
proof -
  have p: "push_bit 24 (push_bit 3 (ucast b)) = (of_nat (unat b mod 32 * 2 ^ 27) :: 32 word)" for b :: octet
    using push_high [of 27 b] by simp
  have q: "push_bit 24 (push_bit 2 (ucast d AND 1)) = (of_nat (unat d mod 2 * 2 ^ 26) :: 32 word)" for d :: octet
    unfolding low_bits push_bit_push_bit push_number by simp
  have "push_bit 24 (push_bit 3 (ucast b)) AND push_bit 24 (push_bit 2 (ucast d AND 1)) = (0 :: 32 word)" for b d :: octet
    unfolding push_bit_push_bit
    by (rule bit_word_eqI, simp only: bit_and_iff bit_push_bit_iff bit_1_iff bit_0_eq bot_apply, auto)
  then have "push_bit 24 (push_bit 3 (ucast b) OR push_bit 2 (ucast d AND 1)) =
      (of_nat (unat b mod 32 * 2 ^ 27 + unat d mod 2 * 2 ^ 26) :: 32 word)" for b d :: octet
    using or_add [of "push_bit 24 (push_bit 3 (ucast b)) :: 32 word" "push_bit 24 (push_bit 2 (ucast d AND 1))"]
    unfolding push_bit_or p q of_nat_add by blast
  then show ?thesis by (simp only: eea1_iv_def Let_def list.map) simp
qed

lemma eia1_z_number:
  assumes "16 \<le> length (sc_key sc)"
  shows "eia1_z sc = uia2_words (sc_key sc) (unat (sc_count sc)) (unat (bearer sc) mod 32) (unat (direction sc) mod 2)"
  unfolding eia1_z_def uia2_words_def snow3g_words_def Let_def key_words_number [OF assms] eia1_iv_number ..

lemma eea1_key_stream_number:
  assumes "16 \<le> length (sc_key sc)"
  shows "eea1_key_stream sc n = uea2_words (sc_key sc) (unat (sc_count sc)) (unat (bearer sc) mod 32) (unat (direction sc) mod 2) n"
  unfolding eea1_key_stream_def uea2_words_def snow3g_words_def Let_def key_words_number [OF assms] eea1_iv_number ..

text \<open>The bits of the words and blocks that the code reads.\<close>

lemma bit_be_word: "bit (be_word bs i) k \<longleftrightarrow> k < 32 \<and> bit (bs ! (i + 3 - k div 8)) (k mod 8)"
proof (cases "k < 32")
  case True
  define q where "q = k div 8"
  define r where "r = k mod 8"
  have k: "k = 8 * q + r" "r < 8" by (simp_all add: q_def r_def)
  then have "q = 0 \<or> q = 1 \<or> q = 2 \<or> q = 3" using True by auto
  then show ?thesis
    unfolding be_word_def bit_word_of_octets q_def [symmetric] r_def [symmetric] using k(2) by (auto simp: k(1))
next
  case False
  then show ?thesis by (simp add: be_word_def bit_word_of_octets)
qed

lemma bit_join64: "bit (join64 a b) k \<longleftrightarrow> (if k < 32 then bit b k else bit a (k - 32))"
  unfolding join64_def by (auto simp: bit_simps dest: bit_imp_le_length)

lemma msg_bit_block:
  assumes "k < 64"
  shows "msg_bit m (64 * j + 63 - k) \<longleftrightarrow> bit (m ! (8 * j + 7 - k div 8)) (k mod 8)"
proof -
  have "64 * j + 63 - k = 8 * (8 * j + 7 - k div 8) + (7 - k mod 8)"
    using assms div_mult_mod_eq [of k 8] mod_less_divisor [of 8 k] by linarith
  moreover have "(8 * a + b) div 8 = a" "(8 * a + b) mod 8 = b" if "b < 8" for a b :: nat
    using that by simp_all
  moreover have "7 - k mod 8 < 8" by simp
  ultimately have "(64 * j + 63 - k) div 8 = 8 * j + 7 - k div 8" "(64 * j + 63 - k) mod 8 = 7 - k mod 8"
    by metis+
  moreover have "7 - (7 - k mod 8) = k mod 8" by simp
  ultimately show ?thesis by (simp only: msg_bit_def)
qed

lemma bit_block_words:
  assumes "k < 64"
  shows "(if k < 32 then bit (be_word m (8 * j + 4)) k else bit (be_word m (8 * j)) (k - 32)) \<longleftrightarrow> msg_bit m (64 * j + 63 - k)"
proof (cases "k < 32")
  case True
  then show ?thesis unfolding msg_bit_block [OF assms] bit_be_word by (simp add: add.assoc)
next
  case False
  define k' where "k' = k - 32"
  have k: "k = k' + 8 * 4" "k' < 32" using False assms by (simp_all add: k'_def)
  have "k div 8 = k' div 8 + 4" "k mod 8 = k' mod 8" unfolding k(1) by (simp_all only: div_mult_self2 mod_mult_self2)
  moreover from this have "8 * j + 3 - k' div 8 = 8 * j + 7 - k div 8" by simp
  ultimately show ?thesis using k unfolding msg_bit_block [OF assms] bit_be_word by simp
qed

lemma bit_uia2_block: "bit (uia2_block L m j) k \<longleftrightarrow> k < 64 \<and> 64 * j + 63 - k < L \<and> msg_bit m (64 * j + 63 - k)"
  unfolding uia2_block_def bit_horner_sum_bit_iff by auto

lemma uia2_block_eqI:
  fixes M :: "64 word"
  assumes "\<And>k. k < 64 \<Longrightarrow> bit M k \<longleftrightarrow> 64 * j + 63 - k < L \<and> msg_bit m (64 * j + 63 - k)"
  shows "unat M = uia2_block L m j"
proof (rule bit_eqI)
  fix n
  show "bit (unat M) n = bit (uia2_block L m j) n"
    using assms [of n] bit_imp_le_length [of M n] by (cases "n < 64") (auto simp: bit_uia2_block bit_unsigned_iff)
qed

lemma whole_block:
  assumes "64 * (j + 1) \<le> L"
  shows "unat (join64 (be_word m (8 * j)) (be_word m (8 * j + 4))) = uia2_block L m j"
proof (rule uia2_block_eqI)
  fix k :: nat assume k: "k < 64"
  then have "64 * j + 63 - k < L" using assms by simp
  then show "bit (join64 (be_word m (8 * j)) (be_word m (8 * j + 4))) k \<longleftrightarrow> 64 * j + 63 - k < L \<and> msg_bit m (64 * j + 63 - k)"
    unfolding bit_join64 bit_block_words [OF k] by simp
qed

lemma bit_osa_mask32bit: "n < 32 \<Longrightarrow> bit (osa_mask32bit n) k \<longleftrightarrow> k < 32 \<and> (n = 0 \<or> 32 - n \<le> k)"
proof -
  assume n: "n < 32"
  have "\<forall>n \<in> set [0..<32]. osa_mask32bit n = (if n = 0 then mask 32 else push_bit (32 - n) (mask n))" by code_simp
  then have "osa_mask32bit n = (if n = 0 then mask 32 else push_bit (32 - n) (mask n))" using n by simp
  then show ?thesis using n by (auto simp: bit_simps)
qed

lemma last_block:
  assumes "unat (blength sc) = 64 * j + r" "0 < r" "r \<le> 64" "eia1_last sc (j + 2) m = Some M"
  shows "unat M = uia2_block (unat (blength sc)) m j"
proof (rule uia2_block_eqI)
  fix k :: nat assume k: "k < 64"
  have in_msg: "64 * j + 63 - k < unat (blength sc) \<longleftrightarrow> 64 - r \<le> k" using assms(1-3) k by auto
  have rem: "(if unat (blength sc) mod 64 = 0 then 64 else unat (blength sc) mod 64) = r"
  proof (cases "r = 64")
    case False
    then show ?thesis using assms(1-3) by simp
  qed (simp add: assms(1))
  have w0: "msg_word m (2 * j) = Some w \<Longrightarrow> w = be_word m (8 * j)" and w1: "msg_word m (2 * j + 1) = Some w \<Longrightarrow> w = be_word m (8 * j + 4)" for w
    by (auto simp: msg_word_def algebra_simps split: if_splits)
  show "bit M k \<longleftrightarrow> 64 * j + 63 - k < unat (blength sc) \<and> msg_bit m (64 * j + 63 - k)"
  proof (cases "32 < r")
    case True
    then have "M = join64 (be_word m (8 * j)) (be_word m (8 * j + 4) AND osa_mask32bit (r mod 32))"
      using assms(4) w0 w1 unfolding eia1_last_def Let_def rem by (auto split: bind_splits)
    moreover have "r mod 32 = (if r = 64 then 0 else r - 32)"
      using True assms(3) mod_less [of "r - 32" 32] le_mod_geq [of 32 r] by (auto simp del: mod_less)
    ultimately have "bit M k = ((if k < 32 then bit (be_word m (8 * j + 4)) k else bit (be_word m (8 * j)) (k - 32)) \<and> 64 - r \<le> k)"
      using True assms(3) by (cases "k < 32"; cases "r = 64") (auto simp: bit_join64 bit_and_iff bit_osa_mask32bit)
    then show ?thesis unfolding in_msg bit_block_words [OF k] by blast
  next
    case False
    then have "M = join64 (be_word m (8 * j) AND osa_mask32bit (r mod 32)) 0"
      using assms(4) w0 unfolding eia1_last_def Let_def rem by (auto split: bind_splits)
    moreover have "r mod 32 = (if r = 32 then 0 else r)" using False by auto
    ultimately have "bit M k = ((if k < 32 then bit (be_word m (8 * j + 4)) k else bit (be_word m (8 * j)) (k - 32)) \<and> 64 - r \<le> k)"
      using False k assms(2) by (cases "k < 32"; cases "r = 32") (auto simp: bit_join64 bit_and_iff bit_osa_mask32bit)
    then show ?thesis unfolding in_msg bit_block_words [OF k] by blast
  qed
qed

text \<open>The arithmetic of the code on words is that of the polynomials.\<close>

lemma gf_mul_word: "gf_mul (unat a) (unat b) = unat (OSA_MUL64 a b 0x1b)"
  using unat_MUL64 [of a b "0x1b"] by (simp add: gf_mul_def modulus_def)

lemma gf_power_word: "gf_power (unat P) n = unat (gf_pow P n)"
  by (induction n) (simp_all add: gf_mul_word)

lemma gf_eval_word: "gf_eval (map unat ms) (unat P) = unat (hash_poly ms P)"
  by (induction ms) (simp_all only: gf_eval.simps hash_poly.simps list.map length_map gf_power_word gf_mul_word unat_xor unat_0)

lemma unat_join64: "unat (join64 a b) = unat a * 2 ^ 32 + unat b"
proof -
  have "push_bit 32 (ucast a) AND ucast b = (0 :: 64 word)"
    by (rule bit_word_eqI, auto simp: bit_simps dest: bit_imp_le_length)
  then have j: "join64 a b = of_nat (unat a * 2 ^ 32 + unat b)"
    unfolding join64_def or_add [OF \<open>_ = 0\<close>] by (simp add: push_bit_eq_mult)
  have "unat a < 2 ^ 32" "unat b < 2 ^ 32" using unsigned_less [of a] unsigned_less [of b] by simp_all
  then have "unat a * 2 ^ 32 + unat b < 2 ^ 64" by simp
  then show ?thesis unfolding j by (simp only: unat_of_nat) simp
qed

lemma upper_half: "unat (ucast (drop_bit 32 w) :: 32 word) = unat w div 2 ^ 32" for w :: "64 word"
proof -
  have "unat w < 2 ^ 64" using unsigned_less [of w, where ?'a = nat] by simp
  then have "unat w div 2 ^ 32 < 2 ^ 32" by (simp add: less_mult_imp_div_less)
  moreover have "unat (drop_bit 32 w) = unat w div 2 ^ 32" by (simp add: drop_bit_eq_div unat_div)
  ultimately show ?thesis unfolding unsigned_ucast_eq by (simp add: take_bit_nat_eq_self)
qed

lemma unat_long: "unat (ucast w :: 64 word) = unat w" for w :: "32 word"
proof -
  have "unat w < 2 ^ 64" using unsigned_less [of w, where ?'a = nat] by simp
  then show ?thesis unfolding unsigned_ucast_eq by (simp add: take_bit_nat_eq_self)
qed

lemma eia1_mac_number:
  assumes "16 \<le> length (sc_key sc)" "blength sc \<noteq> 0" "8 * eia1_nblocks sc \<le> length m"
  shows "\<exists>mac. stream_compute_integrity_eia1 sc m = Some mac \<and> length mac = 4 \<and>
    octets_number mac = uia2_mac (sc_key sc) (unat (sc_count sc)) (unat (bearer sc) mod 32) (unat (direction sc) mod 2) (unat (blength sc)) m"
proof -
  let ?n = "eia1_nblocks sc" and ?L = "unat (blength sc)"
  have L: "0 < ?L" using assms(2) by (simp add: unat_gt_0)
  then have n: "?n = Suc (?n - 1)" by (simp add: eia1_nblocks_def)
  obtain M where M: "eia1_last sc (?n + 1) m = Some M" using eia1_last_ok [OF assms(2,3)] by blast
  let ?bs = "msg_blocks m 0 (?n - 1) @ [M]"
  let ?E = "hash_poly ?bs (join64 (eia1_z sc ! 0) (eia1_z sc ! 1))"
  let ?R = "OSA_MUL64 (?E XOR ucast (blength sc)) (join64 (eia1_z sc ! 2) (eia1_z sc ! 3)) 0x1b"
  let ?w = "ucast (drop_bit 32 ?R) XOR eia1_z sc ! 4 :: 32 word"
  have "eia1_blocks (?n - 1) 0 P m 0 = Some (hash_poly (msg_blocks m 0 (?n - 1)) P)" for P
    using eia1_blocks_fold [of 0 "?n - 1" m P 0] assms(3) by (simp add: fold_hash_poly)
  then have mac: "stream_compute_integrity_eia1 sc m = Some (be_octets ?w)"
    using M assms(1) by (simp add: stream_compute_integrity_eia1_def Let_def hash_poly_snoc eia1_nblocks_def)
  have r: "64 * (?n - 1) < ?L" "?L \<le> 64 * ?n" using L by (simp_all add: eia1_nblocks_def)
  have "unat M = uia2_block ?L m (?n - 1)"
    by (rule last_block [where r = "?L - 64 * (?n - 1)"]) (use r n M in simp_all)
  moreover have "map unat (msg_blocks m 0 (?n - 1)) = map (uia2_block ?L m) [0..<?n - 1]"
    unfolding msg_blocks_def map_map by (rule map_cong) (use r whole_block in auto)
  ultimately have blocks: "map unat ?bs = map (uia2_block ?L m) [0..<(?L + 63) div 64]"
    using upt_Suc_append [of 0 "?n - 1"] unfolding eia1_nblocks_def [symmetric] n [symmetric] by simp
  have z: "length (eia1_z sc) = 5" by (simp add: eia1_z_def)
  have "unat ?w = (unat ?R div 2 ^ 32) XOR unat (eia1_z sc ! 4)"
    unfolding unat_xor upper_half ..
  also have "unat ?R = gf_mul (gf_eval (map (uia2_block ?L m) [0..<(?L + 63) div 64]) (unat (eia1_z sc ! 0) * 2 ^ 32 + unat (eia1_z sc ! 1)) XOR ?L)
      (unat (eia1_z sc ! 2) * 2 ^ 32 + unat (eia1_z sc ! 3))"
    unfolding gf_mul_word [symmetric] unat_xor blocks [symmetric] unat_join64 [symmetric] gf_eval_word unat_long ..
  finally show ?thesis
    unfolding mac uia2_mac_def Let_def eia1_z_number [OF assms(1), symmetric]
    using z by (simp add: octets_number_be nth_map) (simp add: be_octets_def)
qed

text \<open>128-EEA1 on the bits of the message, for any number of bits.\<close>

lemma nth_be_octets: "i < 4 * length ws \<Longrightarrow> concat (map be_octets ws) ! i = be_octets (ws ! (i div 4)) ! (i mod 4)"
proof (induction ws arbitrary: i)
  case (Cons w ws)
  have l: "length (be_octets w) = 4" by (simp add: be_octets_def)
  show ?case
  proof (cases "i < 4")
    case False
    then have "i div 4 = Suc ((i - 4) div 4)" "i mod 4 = (i - 4) mod 4" by (simp_all add: le_div_geq le_mod_geq)
    then show ?thesis using Cons.IH [of "i - 4"] Cons.prems False by (simp add: nth_append l)
  qed (simp add: nth_append l)
qed simp

lemma bit_be_octets: "q < 4 \<Longrightarrow> bit (be_octets w ! q) (7 - r) \<longleftrightarrow> bit w (31 - (8 * q + r))" if "r < 8"
proof -
  assume "q < 4"
  then have "q = 0 \<or> q = 1 \<or> q = 2 \<or> q = 3" by linarith
  moreover have e: "7 - r < 8" "24 + (7 - r) = 31 - r" "16 + (7 - r) = 31 - (8 + r)" "8 + (7 - r) = 31 - (16 + r)"
    using that by simp_all
  ultimately show ?thesis
    by (elim disjE) (simp_all add: be_octets_def octet_at_def bit_unsigned_iff bit_drop_bit_eq e)
qed

lemma key_stream_bit:
  assumes "i < 32 * length ws"
  shows "bit (concat (map be_octets ws) ! (i div 8)) (7 - i mod 8) \<longleftrightarrow> bit (ws ! (i div 32)) (31 - i mod 32)"
proof -
  have "i div 8 < 4 * length ws" using assms by (simp add: less_mult_imp_div_less)
  moreover have "i div 8 div 4 = i div 32" by (simp add: div_mult2_eq [symmetric])
  moreover have "8 * (i div 8 mod 4) + i mod 8 = i mod 32" using mod_mult2_eq [of i 8 4] by simp
  ultimately show ?thesis using bit_be_octets [of "i mod 8" "i div 8 mod 4"] by (simp add: nth_be_octets)
qed

lemma list_update_bit:
  "length (xs[j := y]) = length xs" "i \<noteq> j \<Longrightarrow> xs[j := y] ! i = xs ! i" "j < length xs \<Longrightarrow> xs[j := y] ! j = y"
  by simp_all

lemma eea1_bits:
  assumes "key_length sc = 16" "16 \<le> length (sc_key sc)" "unat (blength sc) + 31 < 2 ^ 32"
    and "4 * ((unat (blength sc) + 31) div 32) \<le> length m"
  shows "\<exists>m'. stream_encrypt_eea1 sc m = Some (0, m') \<and> length m' = length m \<and>
    (\<forall>i < unat (blength sc). msg_bit m' i \<longleftrightarrow>
       msg_bit m i \<noteq> bit (eea1_key_stream sc ((unat (blength sc) + 31) div 32) ! (i div 32)) (31 - i mod 32)) \<and>
    (\<forall>i. unat (blength sc) \<le> i \<and> i < 8 * ((unat (blength sc) + 7) div 8) \<longrightarrow> \<not> msg_bit m' i) \<and>
    (\<forall>j. 4 * ((unat (blength sc) + 31) div 32) \<le> j \<and> j < length m \<longrightarrow> m' ! j = m ! j)"
proof -
  define L where "L = unat (blength sc)"
  define n where "n = (L + 31) div 32"
  define zb where "zb = L mod 8"
  have "unat (blength sc + 31) = L + 31" "unat (blength sc + 7) = L + 7"
    using assms(3) by (simp_all add: L_def unat_word_ariths)
  then have u: "unat ((blength sc + 31) div 32) = n" "unat (drop_bit 3 (blength sc + 7)) = (L + 7) div 8"
    by (simp_all add: n_def unat_div drop_bit_eq_div)
  have z: "unat (blength sc AND 7) = zb"
  proof -
    have "(7 :: 32 word) = mask 3" by (simp add: mask_eq_exp_minus_1)
    then show ?thesis
      unfolding zb_def L_def by (simp only: take_bit_eq_mask [symmetric] unsigned_take_bit_eq) (simp add: take_bit_eq_mod)
  qed
  define KS where "KS = eea1_key_stream sc n"
  define KS1 where "KS1 = (if zb > 0 then KS[n - 1 := KS ! (n - 1) AND push_bit (8 - zb) 0xFFFFFFFF] else KS)"
  define m1 where "m1 = map2 (XOR) (take (4 * n) m) (concat (map be_octets KS1)) @ drop (4 * n) m"
  define c where "c = (L + 7) div 8"
  define m2 where "m2 = (if zb > 0 then m1[c - 1 := m1 ! (c - 1) AND push_bit (8 - zb) 0xFF] else m1)"
  have enc: "stream_encrypt_eea1 sc m = Some (0, m2)"
    using assms(1,2,4) unfolding stream_encrypt_eea1_def Let_def u z L_def [symmetric] n_def [symmetric] c_def [symmetric]
      KS_def [symmetric] KS1_def [symmetric] m1_def [symmetric] m2_def [symmetric] by simp
  have len: "length KS1 = n" "length (concat (map be_octets KS1)) = 4 * n" "4 * n \<le> length m"
    using assms(4) by (simp_all add: KS1_def KS_def be_octets_length n_def L_def)
  then have lm: "length m1 = length m" "length m2 = length m" by (simp_all add: m1_def m2_def)
  have in1: "m1 ! j = m ! j XOR concat (map be_octets KS1) ! j" if "j < 4 * n" for j
    using that len by (simp add: m1_def nth_append)
  have out1: "m1 ! j = m ! j" if "4 * n \<le> j" "j < length m" for j
    using that len by (simp add: m1_def nth_append)
  have c: "8 * c < L + 8" "L \<le> 8 * c" "c \<le> 4 * n" "L \<le> 32 * n" by (simp_all add: c_def n_def)
  have zc: "zb < 8" "zb = 0 \<Longrightarrow> L = 8 * c" "0 < zb \<Longrightarrow> L = 8 * (c - 1) + zb"
  proof -
    obtain q where q: "L = 8 * q + zb" unfolding zb_def by (metis mult_div_mod_eq)
    show "zb < 8" by (simp add: zb_def)
    have "c = (if zb = 0 then q else q + 1)" unfolding c_def q using \<open>zb < 8\<close> by auto
    then show "zb = 0 \<Longrightarrow> L = 8 * c" "0 < zb \<Longrightarrow> L = 8 * (c - 1) + zb" using q by simp_all
  qed
  have ff: "bit (push_bit k (0xFF :: octet)) b \<longleftrightarrow> k \<le> b \<and> b < 8" "bit (push_bit k (0xFFFFFFFF :: 32 word)) b \<longleftrightarrow> k \<le> b \<and> b < 32" for k b
  proof -
    have e: "(0xFF :: octet) = mask 8" "(0xFFFFFFFF :: 32 word) = mask 32" by (simp_all add: mask_eq_exp_minus_1)
    show "bit (push_bit k (0xFF :: octet)) b \<longleftrightarrow> k \<le> b \<and> b < 8" "bit (push_bit k (0xFFFFFFFF :: 32 word)) b \<longleftrightarrow> k \<le> b \<and> b < 32"
      unfolding e by (simp_all only: bit_push_bit_iff bit_mask_iff) auto
  qed
  have split: "i = 8 * (i div 8) + i mod 8" "i mod 8 < 8" for i :: nat by simp_all
  have m2: "msg_bit m2 i \<longleftrightarrow> msg_bit m1 i \<and> (0 < zb \<longrightarrow> i div 8 = c - 1 \<longrightarrow> i mod 8 < zb)" if i: "i < 8 * c" for i
  proof (cases "0 < zb \<and> i div 8 = c - 1")
    case True
    then have "m2 ! (i div 8) = m1 ! (i div 8) AND push_bit (8 - zb) 0xFF"
      using i c(3) len(3) lm(1) by (simp add: m2_def)
    moreover have "8 - zb \<le> 7 - i mod 8 \<longleftrightarrow> i mod 8 < zb" using split(2) [of i] zc(1) True by linarith
    moreover have "7 - i mod 8 < 8" by linarith
    ultimately show ?thesis using True by (simp add: msg_bit_def bit_and_iff ff(1))
  qed (auto simp: m2_def msg_bit_def)
  have ks: "bit (KS1 ! (i div 32)) (31 - i mod 32) \<longleftrightarrow> bit (KS ! (i div 32)) (31 - i mod 32)" if i: "i < L" for i
  proof (cases "0 < zb \<and> i div 32 = n - 1")
    case True
    then have "KS1 ! (i div 32) = KS ! (i div 32) AND push_bit (8 - zb) 0xFFFFFFFF"
      using i c(4) by (simp add: KS1_def KS_def)
    moreover have "i = 32 * (n - 1) + i mod 32" using True by (metis mult_div_mod_eq)
    then have "8 - zb \<le> 31 - i mod 32" using i zc(3) c(2-4) True by linarith
    moreover have "31 - i mod 32 < 32" by linarith
    ultimately show ?thesis by (simp add: bit_and_iff ff(2))
  qed (auto simp: KS1_def)
  have bits: "msg_bit m2 i \<longleftrightarrow> msg_bit m i \<noteq> bit (KS ! (i div 32)) (31 - i mod 32)" if i: "i < L" for i
  proof -
    have "i mod 8 < zb" if "0 < zb" "i div 8 = c - 1"
      using split(1) [of i, unfolded that(2)] i zc(3) [OF that(1)] by linarith
    moreover have "i div 8 < 4 * n" "i < 8 * c" "i < 32 * length KS1" using i c len(1) by auto
    ultimately have "msg_bit m2 i \<longleftrightarrow> msg_bit m i \<noteq> bit (KS1 ! (i div 32)) (31 - i mod 32)"
      using m2 [of i] in1 [of "i div 8"] key_stream_bit [of i KS1] unfolding msg_bit_def by (simp add: bit_xor_iff)
    then show ?thesis unfolding ks [OF i] .
  qed
  moreover have "\<not> msg_bit m2 i" if i: "L \<le> i" "i < 8 * c" for i
  proof -
    have "0 < zb" using zc(2) i by auto
    moreover from this have "i div 8 = c - 1" using zc(1,3) i split [of i] by linarith
    moreover from this have "zb \<le> i mod 8" using split(1) [of i] zc(3) [OF \<open>0 < zb\<close>] i(1) by linarith
    ultimately show ?thesis using m2 [OF i(2)] by simp
  qed
  moreover have "m2 ! j = m ! j" if "4 * n \<le> j" "j < length m" for j
  proof (cases "0 < zb")
    case True
    then have "0 < c" using c(2) zc(3) by simp
    then have "c - 1 \<noteq> j" using that(1) c(3) by linarith
    then show ?thesis using out1 [OF that] by (simp add: m2_def)
  qed (simp add: m2_def out1 that)
  ultimately show ?thesis
    using enc lm(2) unfolding L_def [symmetric] n_def [symmetric] c_def [symmetric] KS_def [symmetric] by blast
qed

lemma octets_number_inject:
  assumes "length xs = 4" "length ys = 4" "octets_number xs = octets_number ys"
  shows "xs = ys"
proof -
  obtain a b c d where x: "xs = [a, b, c, d]" using assms(1) by (auto simp: length_Suc_conv numeral_eq_Suc)
  obtain a' b' c' d' where y: "ys = [a', b', c', d']" using assms(2) by (auto simp: length_Suc_conv numeral_eq_Suc)
  have "word_of_octets a b c d = word_of_octets a' b' c' d'"
    using assms(3) unfolding word_of_octets_number x y by simp
  then show ?thesis unfolding x y by (metis octet_at_word_of_octets)
qed

section \<open>Properties\<close>

text \<open>
  C31. \<open>OSA_MUL64\<close> is the multiplication of polynomials over GF(2) modulo \<open>x ^ 64 + c\<close>: its result is what long division
  of the product by this polynomial leaves, that is, it differs from the product by a multiple of the polynomial.
\<close>

theorem mul64_is_polynomial_product:
  "unat (OSA_MUL64 V P c) = gf_mod (2 ^ 64 + unat c) (clmul (unat V) (unat P)) \<and>
   (\<exists>q. clmul (unat V) (unat P) = clmul (2 ^ 64 + unat c) q XOR unat (OSA_MUL64 V P c))"
  using unat_MUL64 [of V P c] MUL64_multiple [of V P c] unfolding modulus_def by blast

text \<open>
  C12. 128-EIA1 is UIA2: for a message of one bit or more whose buffer covers its last block of 64 bits,
  \<open>stream_compute_integrity_eia1\<close> returns the four octets of \<^const>\<open>uia2_mac\<close> for the key, the counter, the lower five bits of
  the bearer, the lowest bit of the direction and the first \<open>blength\<close> bits of the buffer.
\<close>

theorem eia1_is_uia2:
  assumes "16 \<le> length (sc_key sc)" "blength sc \<noteq> 0" "8 * eia1_nblocks sc \<le> length m"
  shows "\<exists>mac. stream_compute_integrity_eia1 sc m = Some mac \<and> length mac = 4 \<and>
    octets_number mac = uia2_mac (sc_key sc) (unat (sc_count sc)) (unat (bearer sc) mod 32) (unat (direction sc) mod 2) (unat (blength sc)) m"
  by (rule eia1_mac_number [OF assms])

theorem eia1_is_uia2_witness:
  "\<exists>mac. stream_compute_integrity_eia1 sample_cipher [1, 2, 3, 4, 5, 6, 7, 8] = Some mac \<and> length mac = 4 \<and>
    octets_number mac = uia2_mac (replicate 16 7) 5 2 1 16 [1, 2, 3, 4, 5, 6, 7, 8]"
proof -
  have f: "sc_key sample_cipher = replicate 16 7" "unat (sc_count sample_cipher) = 5" "unat (bearer sample_cipher) mod 32 = 2"
    "unat (direction sample_cipher) mod 2 = 1" "unat (blength sample_cipher) = 16"
    by (simp_all add: sample_cipher_def)
  show ?thesis
    using eia1_is_uia2 [of sample_cipher "[1, 2, 3, 4, 5, 6, 7, 8]"]
    unfolding f eia1_nblocks_def by (simp add: sample_cipher_def)
qed

text \<open>
  C26. The receiver's check with 128-EIA1: under the conditions of the computation it accepts exactly the four octets whose number is
  the MAC of UIA2 for the message, and rejects all others.
\<close>

theorem eia1_check_accepts_uia2_mac:
  assumes "16 \<le> length (sc_key sc)" "blength sc \<noteq> 0" "8 * eia1_nblocks sc \<le> length m" "4 \<le> length expected"
  shows "stream_check_integrity cmac 1 sc m expected =
    Some (if octets_number (take 4 expected) =
        uia2_mac (sc_key sc) (unat (sc_count sc)) (unat (bearer sc) mod 32) (unat (direction sc) mod 2) (unat (blength sc)) m
      then 0 else - 1)"
proof -
  obtain mac where mac: "stream_compute_integrity_eia1 sc m = Some mac" "length mac = 4"
      "octets_number mac = uia2_mac (sc_key sc) (unat (sc_count sc)) (unat (bearer sc) mod 32) (unat (direction sc) mod 2) (unat (blength sc)) m"
    using eia1_mac_number [OF assms(1-3)] by blast
  have "mac = take 4 expected \<longleftrightarrow> octets_number (take 4 expected) = octets_number mac"
    using octets_number_inject [of mac "take 4 expected"] mac(2) assms(4) by auto
  then show ?thesis
    using mac assms(4) by (auto simp: stream_check_integrity_def stream_compute_integrity_def)
qed

theorem eia1_check_accepts_uia2_mac_witness:
  "\<exists>mac. length mac = 4 \<and> octets_number mac = uia2_mac (replicate 16 7) 5 2 1 16 [1, 2, 3, 4, 5, 6, 7, 8] \<and>
    stream_check_integrity (\<lambda>k l m. []) 1 sample_cipher [1, 2, 3, 4, 5, 6, 7, 8] mac = Some 0 \<and>
    stream_check_integrity (\<lambda>k l m. []) 1 sample_cipher [1, 2, 3, 4, 5, 6, 7, 8] (mac[0 := NOT (mac ! 0)]) = Some (- 1)"
proof -
  have f: "sc_key sample_cipher = replicate 16 7" "unat (sc_count sample_cipher) = 5" "unat (bearer sample_cipher) mod 32 = 2"
    "unat (direction sample_cipher) mod 2 = 1" "unat (blength sample_cipher) = 16" "blength sample_cipher \<noteq> 0"
    by (simp_all add: sample_cipher_def)
  let ?m = "[1, 2, 3, 4, 5, 6, 7, 8] :: octet list"
  have h: "16 \<le> length (sc_key sample_cipher)" "8 * eia1_nblocks sample_cipher \<le> length ?m"
    by (simp_all add: f eia1_nblocks_def)
  obtain mac where mac: "length mac = 4" "octets_number mac = uia2_mac (replicate 16 7) 5 2 1 16 ?m"
    using eia1_mac_number [OF h(1) f(6) h(2)] unfolding f by blast
  let ?bad = "mac[0 := NOT (mac ! 0)]"
  have "NOT (mac ! 0) \<noteq> mac ! 0" using bit_not_iff [of "mac ! 0" 0] by (metis bit_0 possible_bit_0)
  then have "?bad \<noteq> mac" using mac(1) by (metis nth_list_update_eq zero_less_numeral)
  then have "octets_number ?bad \<noteq> octets_number mac" using octets_number_inject [of ?bad mac] mac(1) by auto
  then show ?thesis
    using eia1_check_accepts_uia2_mac [OF h(1) f(6) h(2), of mac "\<lambda>k l m. []"]
      eia1_check_accepts_uia2_mac [OF h(1) f(6) h(2), of ?bad "\<lambda>k l m. []"] mac
    unfolding f by (intro exI [of _ mac]) simp
qed

text \<open>
  C20. 128-EEA1 is UEA2: for a message of any number of bits, \<open>stream_encrypt_eea1\<close> adds to each of them the bit at its place
  in the key stream of SNOW 3G for the key, the counter, the bearer and the direction. It clears the bits up to the end of the last
  octet and leaves every octet behind the last word of the key stream unchanged.
\<close>

theorem eea1_is_uea2:
  assumes "key_length sc = 16" "16 \<le> length (sc_key sc)" "unat (blength sc) + 31 < 2 ^ 32"
    and "4 * ((unat (blength sc) + 31) div 32) \<le> length m"
  shows "\<exists>m'. stream_encrypt_eea1 sc m = Some (0, m') \<and> length m' = length m \<and>
    (\<forall>i < unat (blength sc). msg_bit m' i \<longleftrightarrow>
       msg_bit m i \<noteq> bit (uea2_words (sc_key sc) (unat (sc_count sc)) (unat (bearer sc) mod 32) (unat (direction sc) mod 2)
         ((unat (blength sc) + 31) div 32) ! (i div 32)) (31 - i mod 32)) \<and>
    (\<forall>i. unat (blength sc) \<le> i \<and> i < 8 * ((unat (blength sc) + 7) div 8) \<longrightarrow> \<not> msg_bit m' i) \<and>
    (\<forall>j. 4 * ((unat (blength sc) + 31) div 32) \<le> j \<and> j < length m \<longrightarrow> m' ! j = m ! j)"
  using eea1_bits [OF assms] unfolding eea1_key_stream_number [OF assms(2)] .

theorem eea1_is_uea2_witness:
  "\<exists>m'. stream_encrypt_eea1 (sample_cipher\<lparr>blength := 13\<rparr>) [1, 2, 3, 4, 5] = Some (0, m') \<and>
     (msg_bit m' 7 \<longleftrightarrow> \<not> bit (uea2_words (replicate 16 7) 5 2 1 1 ! 0) 24) \<and> \<not> msg_bit m' 14 \<and> m' ! 4 = 5"
proof -
  let ?sc = "sample_cipher\<lparr>blength := 13\<rparr>"
  have f: "sc_key ?sc = replicate 16 7" "unat (sc_count ?sc) = 5" "unat (bearer ?sc) mod 32 = 2"
    "unat (direction ?sc) mod 2 = 1" "unat (blength ?sc) = 13" "key_length ?sc = 16"
    by (simp_all add: sample_cipher_def)
  obtain m' where "stream_encrypt_eea1 ?sc [1, 2, 3, 4, 5] = Some (0, m')"
      and b: "\<forall>i < 13. msg_bit m' i \<longleftrightarrow> msg_bit [1, 2, 3, 4, 5] i \<noteq> bit (uea2_words (replicate 16 7) 5 2 1 1 ! (i div 32)) (31 - i mod 32)"
      and z: "\<forall>i. 13 \<le> i \<and> i < 16 \<longrightarrow> \<not> msg_bit m' i" and o: "\<forall>j. 4 \<le> j \<and> j < 5 \<longrightarrow> m' ! j = [1, 2, 3, 4, 5] ! j"
    using eea1_is_uea2 [of ?sc "[1, 2, 3, 4, 5]"] unfolding f by auto
  moreover have "msg_bit [1, 2, 3, 4, 5] 7" by (simp add: msg_bit_def)
  ultimately show ?thesis
    using spec [OF b, of 7] spec [OF z, of 14] spec [OF o, of 4] by (intro exI [of _ m']) simp
qed

end
