(* ===== verification/Pdcp.thy ===== *)
theory Pdcp
  imports Prelude
begin

text \<open>
  PDCP sequence numbering and headers (\<open>openair2/LAYER2/PDCP_v10.1.0\<close>): \<open>pdcp_sequence_manager.c\<close>,
  \<open>pdcp_primitives.c\<close> and \<open>util_mark_nth_bit_of_octet\<close> of \<open>pdcp_util.c\<close>. Sequence numbers
  (\<open>pdcp_sn_t\<close>) are 16-bit and hyper frame numbers (\<open>pdcp_hfn_t\<close>) 32-bit words; the comparisons
  of the code are on promoted \<open>int\<close> values and are written with \<^const>\<open>uint\<close>. An entity pointer
  that the code tests for NULL is an option.
\<close>

section \<open>The entity\<close>

datatype rlc_mode_t = RLC_MODE_NONE | RLC_MODE_AM | RLC_MODE_TM | RLC_MODE_UM

record pdcp_t =
  header_compression_profile :: "16 word"
  is_ue :: bool
  is_srb :: bool
  cipheringAlgorithm :: octet
  integrityProtAlgorithm :: octet
  kUPenc :: "octet list option"
  kRRCint :: "octet list option"
  kRRCenc :: "octet list option"
  security_activated :: octet
  rlc_mode :: rlc_mode_t
  status_report :: octet
  seq_num_size :: octet
  lcid :: nat
  rb_id :: nat
  next_pdcp_tx_sn :: "16 word"
  next_pdcp_rx_sn :: "16 word"
  next_pdcp_rx_sn_before_integrity :: "16 word"
  tx_hfn :: "32 word"
  rx_hfn :: "32 word"
  rx_hfn_offset :: int
  last_submitted_pdcp_rx_sn :: "16 word"
  missing_pdu_bitmap :: "octet list"
  first_missing_pdu :: int

section \<open>Sequence manager\<close>

definition pdcp_init_seq_numbers :: "pdcp_t option \<Rightarrow> bool \<times> pdcp_t option" where
  "pdcp_init_seq_numbers pdcp_entity =
     (case pdcp_entity of
        None \<Rightarrow> (False, None)
      | Some e \<Rightarrow> (True, Some (e\<lparr>next_pdcp_tx_sn := 0, next_pdcp_rx_sn := 0, tx_hfn := 0, rx_hfn := 0,
                            last_submitted_pdcp_rx_sn := 4095\<rparr>)))"

definition pdcp_is_seq_num_size_valid :: "pdcp_t option \<Rightarrow> bool" where
  "pdcp_is_seq_num_size_valid pdcp_entity =
     (case pdcp_entity of
        None \<Rightarrow> False
      | Some e \<Rightarrow> \<not> (seq_num_size e \<noteq> 5 \<and> seq_num_size e \<noteq> 7 \<and> seq_num_size e \<noteq> 12))"

definition pdcp_calculate_max_seq_num_for_given_size :: "octet \<Rightarrow> 16 word" where
  "pdcp_calculate_max_seq_num_for_given_size sz = push_bit (unat sz) 1 - 1"

definition pdcp_is_seq_num_valid :: "16 word \<Rightarrow> octet \<Rightarrow> bool" where
  "pdcp_is_seq_num_valid seq_num sz \<longleftrightarrow> seq_num \<ge> 0 \<and> seq_num \<le> pdcp_calculate_max_seq_num_for_given_size sz"

definition pdcp_get_next_tx_seq_number :: "pdcp_t option \<Rightarrow> 16 word \<times> pdcp_t option" where
  "pdcp_get_next_tx_seq_number pdcp_entity =
     (if \<not> pdcp_is_seq_num_size_valid pdcp_entity then (- 1, pdcp_entity)
      else case pdcp_entity of
        None \<Rightarrow> (- 1, None)
      | Some e \<Rightarrow>
          (next_pdcp_tx_sn e,
           Some (if next_pdcp_tx_sn e = pdcp_calculate_max_seq_num_for_given_size (seq_num_size e)
                 then e\<lparr>next_pdcp_tx_sn := 0, tx_hfn := tx_hfn e + 1\<rparr>
                 else e\<lparr>next_pdcp_tx_sn := next_pdcp_tx_sn e + 1\<rparr>)))"

definition pdcp_advance_rx_window :: "pdcp_t \<Rightarrow> bool \<times> pdcp_t" where
  "pdcp_advance_rx_window e =
     (if \<not> pdcp_is_seq_num_size_valid (Some e) then (False, e)
      else
        (True,
         if next_pdcp_rx_sn e = pdcp_calculate_max_seq_num_for_given_size (seq_num_size e)
         then e\<lparr>next_pdcp_rx_sn := 0, rx_hfn := rx_hfn e + 1\<rparr>
         else e\<lparr>next_pdcp_rx_sn := next_pdcp_rx_sn e + 1\<rparr>))"

definition util_mark_nth_bit_of_octet :: "octet \<Rightarrow> nat \<Rightarrow> octet" where
  "util_mark_nth_bit_of_octet oct index = oct OR drop_bit index 0x80"

definition pdcp_mark_current_pdu_as_received :: "16 word \<Rightarrow> pdcp_t \<Rightarrow> pdcp_t option" where
  "pdcp_mark_current_pdu_as_received seq_num e =
     (let octet_index = unat seq_num div 8; bm = missing_pdu_bitmap e in
      if octet_index < length bm
      then Some (e\<lparr>missing_pdu_bitmap :=
                    bm[octet_index := util_mark_nth_bit_of_octet (bm ! octet_index) (unat seq_num mod 8)]\<rparr>)
      else None)"

text \<open>
  The three cases of \<open>pdcp_is_rx_seq_number_valid\<close>: signalling bearers, data bearers over RLC AM,
  and data bearers over RLC UM. The result is the returned flag and the entity.
\<close>

definition rx_srb :: "16 word \<Rightarrow> pdcp_t \<Rightarrow> bool \<times> pdcp_t" where
  "rx_srb seq_num e =
     (let e1 = (if uint seq_num < uint (next_pdcp_rx_sn e)
                then e\<lparr>rx_hfn := rx_hfn e + 1, rx_hfn_offset := 0\<rparr>
                else e\<lparr>rx_hfn_offset := 0\<rparr>);
          e2 = e1\<lparr>next_pdcp_rx_sn_before_integrity := next_pdcp_rx_sn e1, next_pdcp_rx_sn := seq_num\<rparr>
      in (True, snd (pdcp_advance_rx_window e2)))"

definition rx_drb_am :: "16 word \<Rightarrow> pdcp_t \<Rightarrow> bool \<times> pdcp_t" where
  "rx_drb_am seq_num e =
     (let reordering_window = (if seq_num_size e = 7 then 64 else 2048) :: int;
          sn = uint seq_num; last_sn = uint (last_submitted_pdcp_rx_sn e); next_sn = uint (next_pdcp_rx_sn e)
      in if sn - last_sn > reordering_window \<or> (0 \<le> last_sn - sn \<and> last_sn - sn < reordering_window)
         then (False, e\<lparr>rx_hfn_offset := (if sn > next_sn then - 1 else 0)\<rparr>)
         else if next_sn - sn > reordering_window
         then (True, e\<lparr>rx_hfn := rx_hfn e + 1, rx_hfn_offset := 0, next_pdcp_rx_sn := next_pdcp_rx_sn e + 1\<rparr>)
         else if sn - next_sn \<ge> reordering_window
         then (True, e\<lparr>rx_hfn_offset := - 1\<rparr>)
         else if sn \<ge> next_sn
         then (True, snd (pdcp_advance_rx_window (e\<lparr>rx_hfn_offset := 0, next_pdcp_rx_sn := seq_num\<rparr>)))
         else if sn < next_sn then (True, e\<lparr>rx_hfn_offset := 0\<rparr>)
         else (True, e))"

definition rx_drb_um :: "16 word \<Rightarrow> pdcp_t \<Rightarrow> bool \<times> pdcp_t" where
  "rx_drb_um seq_num e =
     (let e1 = (if uint seq_num < uint (next_pdcp_rx_sn e) then e\<lparr>rx_hfn := rx_hfn e + 1\<rparr> else e);
          e2 = e1\<lparr>next_pdcp_rx_sn := seq_num\<rparr>
      in (True, snd (pdcp_advance_rx_window e2)))"

definition pdcp_is_rx_seq_number_valid :: "16 word \<Rightarrow> pdcp_t option \<Rightarrow> bool \<Rightarrow> (bool \<times> pdcp_t option) option" where
  "pdcp_is_rx_seq_number_valid seq_num pdcp_entity srb_flagP =
     (if \<not> pdcp_is_seq_num_size_valid pdcp_entity then Some (False, pdcp_entity)
      else case pdcp_entity of
        None \<Rightarrow> Some (False, None)
      | Some e \<Rightarrow>
          if \<not> pdcp_is_seq_num_valid seq_num (seq_num_size e) then Some (False, Some e)
          else do {
            e1 \<leftarrow> pdcp_mark_current_pdu_as_received seq_num e;
            Some (map_prod id Some
              (if srb_flagP then rx_srb seq_num e1
               else case rlc_mode e1 of
                 RLC_MODE_AM \<Rightarrow> rx_drb_am seq_num e1
               | RLC_MODE_UM \<Rightarrow> rx_drb_um seq_num e1
               | _ \<Rightarrow> (False, e1))) })"

section \<open>Headers\<close>

definition pdcp_get_dc_filed :: "octet list option \<Rightarrow> octet option" where
  "pdcp_get_dc_filed pdu_buffer =
     (case pdu_buffer of
        None \<Rightarrow> Some 0
      | Some [] \<Rightarrow> None
      | Some (b0 # _) \<Rightarrow> Some (drop_bit 8 (b0 AND 0xF0)))"

definition pdcp_get_sequence_number_of_pdu_with_long_sn :: "octet list option \<Rightarrow> (16 word) option" where
  "pdcp_get_sequence_number_of_pdu_with_long_sn pdu_buffer =
     (case pdu_buffer of
        None \<Rightarrow> Some 0
      | Some (b0 # b1 # _) \<Rightarrow> Some (push_bit 8 (ucast (b0 AND 0x0F)) OR ucast (b1 AND 0xFF))
      | Some _ \<Rightarrow> None)"

definition pdcp_get_sequence_number_of_pdu_with_short_sn :: "octet list option \<Rightarrow> octet option" where
  "pdcp_get_sequence_number_of_pdu_with_short_sn pdu_buffer =
     (case pdu_buffer of
        None \<Rightarrow> Some 0
      | Some [] \<Rightarrow> None
      | Some (b0 # _) \<Rightarrow> Some (b0 AND 0x7F))"

definition pdcp_get_sequence_number_of_pdu_with_SRB_sn :: "octet list option \<Rightarrow> octet option" where
  "pdcp_get_sequence_number_of_pdu_with_SRB_sn pdu_buffer =
     (case pdu_buffer of
        None \<Rightarrow> Some 0
      | Some [] \<Rightarrow> None
      | Some (b0 # _) \<Rightarrow> Some (b0 AND 0x1F))"

record long_sn_header =
  hdr_dc :: octet
  hdr_sn :: "16 word"

record status_report_pdu =
  first_missing_sn :: "16 word"

text \<open>The serialisers write into the buffer they are given; a buffer that is too short is a fault.\<close>

definition pdcp_serialize_control_plane_data_pdu_with_SRB_sn_buffer ::
    "octet list option \<Rightarrow> octet option \<Rightarrow> (bool \<times> octet list option) option" where
  "pdcp_serialize_control_plane_data_pdu_with_SRB_sn_buffer pdu_buffer pdu_sn =
     (case (pdu_buffer, pdu_sn) of
        (Some buf, Some sn) \<Rightarrow> if buf = [] then None else Some (True, Some (buf[0 := sn AND 0x1F]))
      | _ \<Rightarrow> Some (False, pdu_buffer))"

definition pdcp_serialize_user_plane_data_pdu_with_long_sn_buffer ::
    "octet list option \<Rightarrow> long_sn_header option \<Rightarrow> (bool \<times> octet list option) option" where
  "pdcp_serialize_user_plane_data_pdu_with_long_sn_buffer pdu_buffer pdu =
     (case (pdu_buffer, pdu) of
        (Some buf, Some p) \<Rightarrow>
          if length buf < 2 then None
          else
            let buf1 = buf[1 := ucast (hdr_sn p AND 0xFF)];
                buf2 = buf1[0 := ucast (drop_bit 8 (hdr_sn p) AND 0xFF)];
                buf3 = (if hdr_dc p = 1 then buf2[0 := buf2 ! 0 OR 0x80] else buf2)
            in Some (True, Some buf3)
      | _ \<Rightarrow> Some (False, pdu_buffer))"

definition pdcp_serialize_control_pdu_for_pdcp_status_report ::
    "octet list option \<Rightarrow> octet list \<Rightarrow> status_report_pdu option \<Rightarrow> (bool \<times> octet list option) option" where
  "pdcp_serialize_control_pdu_for_pdcp_status_report pdu_buffer bitmap pdu =
     (case (pdu_buffer, pdu) of
        (Some buf, Some p) \<Rightarrow>
          if length buf < 514 \<or> length bitmap < 512 then None
          else
            let b0 = util_mark_nth_bit_of_octet (buf ! 0) 1 OR ucast (drop_bit 8 (first_missing_sn p) AND 0xFF);
                b1 = buf ! 1 OR ucast (first_missing_sn p AND 0xFF)
            in Some (True, Some ([b0, b1] @ take 512 bitmap @ drop 514 buf))
      | _ \<Rightarrow> Some (False, pdu_buffer))"

section \<open>Sequence number spaces\<close>

text \<open>\<open>sn_space e\<close> is the number of sequence numbers of the entity: 32, 128 or 4096.\<close>

definition sn_bits :: "pdcp_t \<Rightarrow> nat" where
  "sn_bits e = unat (seq_num_size e)"

abbreviation sn_space :: "pdcp_t \<Rightarrow> nat" where
  "sn_space e \<equiv> 2 ^ sn_bits e"

lemma size_valid_cases:
  assumes "pdcp_is_seq_num_size_valid (Some e)"
  obtains "seq_num_size e = 5" "sn_bits e = 5" | "seq_num_size e = 7" "sn_bits e = 7" | "seq_num_size e = 12" "sn_bits e = 12"
  using assms by (auto simp: pdcp_is_seq_num_size_valid_def sn_bits_def)

lemma max_seq_num:
  assumes "pdcp_is_seq_num_size_valid (Some e)"
  shows "unat (pdcp_calculate_max_seq_num_for_given_size (seq_num_size e)) = sn_space e - 1"
    "sn_space e \<le> 4096" "2 \<le> sn_space e"
  using assms
  by (rule size_valid_cases; simp add: pdcp_calculate_max_seq_num_for_given_size_def push_bit_eq_mult)+

lemma seq_num_valid_iff:
  assumes "pdcp_is_seq_num_size_valid (Some e)"
  shows "pdcp_is_seq_num_valid s (seq_num_size e) \<longleftrightarrow> unat s < sn_space e"
  using max_seq_num [OF assms] by (auto simp: pdcp_is_seq_num_valid_def word_le_nat_alt)

lemma eq_max_iff:
  assumes "pdcp_is_seq_num_size_valid (Some e)"
  shows "s = pdcp_calculate_max_seq_num_for_given_size (seq_num_size e) \<longleftrightarrow> Suc (unat s) = sn_space e"
  using max_seq_num [OF assms] by (auto simp: word_unat_eq_iff)

section \<open>Numbering as a counter\<close>

text \<open>
  \<open>tx_sync e k\<close>: the transmitter has numbered \<open>k\<close> PDUs; its sequence number and its hyper frame
  number are remainder and quotient of \<open>k\<close>. \<open>rx_sync e j\<close> says the same of the receiver that
  expects PDU \<open>j\<close>.
\<close>

definition tx_sync :: "pdcp_t \<Rightarrow> nat \<Rightarrow> bool" where
  "tx_sync e k \<longleftrightarrow> unat (next_pdcp_tx_sn e) = k mod sn_space e \<and> tx_hfn e = of_nat (k div sn_space e)"

definition rx_sync :: "pdcp_t \<Rightarrow> nat \<Rightarrow> bool" where
  "rx_sync e j \<longleftrightarrow> unat (next_pdcp_rx_sn e) = j mod sn_space e \<and> rx_hfn e = of_nat (j div sn_space e)"

lemma inc_no_wrap: "Suc (unat s) \<noteq> M \<Longrightarrow> unat s < M \<Longrightarrow> M \<le> 4096 \<Longrightarrow> unat (s + 1) = Suc (unat s)"
  for s :: "16 word"
  by (simp add: unat_word_ariths)

lemma next_tx_sync:
  assumes v: "pdcp_is_seq_num_size_valid (Some e)" and s: "tx_sync e k"
  shows "\<exists>e'. pdcp_get_next_tx_seq_number (Some e) = (of_nat (k mod sn_space e), Some e') \<and>
    tx_sync e' (Suc k) \<and> (\<exists>sn hfn. e' = e\<lparr>next_pdcp_tx_sn := sn, tx_hfn := hfn\<rparr>)"
proof -
  let ?M = "sn_space e"
  note M = max_seq_num [OF v]
  have sn: "unat (next_pdcp_tx_sn e) = k mod ?M" and hfn: "tx_hfn e = of_nat (k div ?M)"
    using s by (simp_all add: tx_sync_def)
  have lt: "unat (next_pdcp_tx_sn e) < ?M" using sn M by simp
  have ret: "next_pdcp_tx_sn e = of_nat (k mod ?M)" using of_nat_unat [of "next_pdcp_tx_sn e", where 'a = "16 word"] sn by simp
  show ?thesis
  proof (cases "Suc (k mod ?M) = ?M")
    case True
    let ?e' = "e\<lparr>next_pdcp_tx_sn := 0, tx_hfn := tx_hfn e + 1\<rparr>"
    have "pdcp_get_next_tx_seq_number (Some e) = (of_nat (k mod ?M), Some ?e')"
      using v eq_max_iff [OF v, of "next_pdcp_tx_sn e"] sn True ret by (simp add: pdcp_get_next_tx_seq_number_def)
    moreover have "tx_sync ?e' (Suc k)"
      using True hfn by (simp add: tx_sync_def sn_bits_def mod_Suc div_Suc)
    moreover have "\<exists>sn hfn. ?e' = e\<lparr>next_pdcp_tx_sn := sn, tx_hfn := hfn\<rparr>" by blast
    ultimately show ?thesis by blast
  next
    case False
    let ?e' = "e\<lparr>next_pdcp_tx_sn := next_pdcp_tx_sn e + 1\<rparr>"
    have "pdcp_get_next_tx_seq_number (Some e) = (of_nat (k mod ?M), Some ?e')"
      using v eq_max_iff [OF v, of "next_pdcp_tx_sn e"] sn False ret by (simp add: pdcp_get_next_tx_seq_number_def)
    moreover have "tx_sync ?e' (Suc k)"
      using False hfn sn lt inc_no_wrap [of "next_pdcp_tx_sn e" ?M] M by (simp add: tx_sync_def sn_bits_def mod_Suc div_Suc)
    moreover have "?e' = e\<lparr>next_pdcp_tx_sn := next_pdcp_tx_sn e + 1, tx_hfn := tx_hfn e\<rparr>" by simp
    ultimately show ?thesis by blast
  qed
qed

lemma advance_rx_sync:
  assumes v: "pdcp_is_seq_num_size_valid (Some e)" and s: "rx_sync e k"
  shows "rx_sync (snd (pdcp_advance_rx_window e)) (Suc k)"
    "\<exists>sn hfn. snd (pdcp_advance_rx_window e) = e\<lparr>next_pdcp_rx_sn := sn, rx_hfn := hfn\<rparr>"
proof -
  let ?M = "sn_space e"
  note M = max_seq_num [OF v]
  have sn: "unat (next_pdcp_rx_sn e) = k mod ?M" and hfn: "rx_hfn e = of_nat (k div ?M)"
    using s by (simp_all add: rx_sync_def)
  have lt: "unat (next_pdcp_rx_sn e) < ?M" using sn M by simp
  have eq: "next_pdcp_rx_sn e = pdcp_calculate_max_seq_num_for_given_size (seq_num_size e) \<longleftrightarrow> Suc (k mod ?M) = ?M"
    using eq_max_iff [OF v] sn by simp
  show "rx_sync (snd (pdcp_advance_rx_window e)) (Suc k)"
    using v hfn sn lt inc_no_wrap [of "next_pdcp_rx_sn e" ?M] M
    by (auto simp: pdcp_advance_rx_window_def eq rx_sync_def sn_bits_def mod_Suc div_Suc)
  have "snd (pdcp_advance_rx_window e) = e\<lparr>next_pdcp_rx_sn := 0, rx_hfn := rx_hfn e + 1\<rparr> \<or>
      snd (pdcp_advance_rx_window e) = e\<lparr>next_pdcp_rx_sn := next_pdcp_rx_sn e + 1, rx_hfn := rx_hfn e\<rparr>"
    using v by (simp add: pdcp_advance_rx_window_def)
  then show "\<exists>sn hfn. snd (pdcp_advance_rx_window e) = e\<lparr>next_pdcp_rx_sn := sn, rx_hfn := hfn\<rparr>" by blast
qed

text \<open>Less than a whole cycle ahead, the wrap of the sequence number shows in the comparison.\<close>

lemma quot_rem: "r < M \<Longrightarrow> (q * M + r) mod M = r \<and> (q * M + r) div M = q" for r :: nat
  by simp

lemma cycle_cases:
  assumes "j \<le> k" "k < j + M" "0 < M"
  shows "(j mod M \<le> k mod M \<and> k div M = j div M) \<or> (k mod M < j mod M \<and> k div M = Suc (j div M))"
proof -
  obtain g where k: "k = j + g" "g < M" using assms by (metis add_less_cancel_left le_Suc_ex)
  have jm: "j = j div M * M + j mod M" by simp
  show ?thesis
  proof (cases "j mod M + g < M")
    case True
    have "k = j div M * M + (j mod M + g)" using k jm by linarith
    then have "k mod M = j mod M + g" "k div M = j div M" using quot_rem [OF True, of "j div M"] by simp_all
    then show ?thesis by simp
  next
    case False
    have "j mod M < M" using assms(3) by simp
    then have lt: "j mod M + g - M < M" using k by linarith
    have "k = Suc (j div M) * M + (j mod M + g - M)" using k jm False by simp
    then have "k mod M = j mod M + g - M" "k div M = Suc (j div M)"
      using quot_rem [OF lt, of "Suc (j div M)"] by simp_all
    then show ?thesis using k False \<open>j mod M < M\<close> by auto
  qed
qed

lemma rx_wrap_sync:
  assumes v: "pdcp_is_seq_num_size_valid (Some e)" and s: "rx_sync e j" and k: "j \<le> k" "k < j + sn_space e"
    and sn: "sn = of_nat (k mod sn_space e)"
    and h: "h = (if uint sn < uint (next_pdcp_rx_sn e) then rx_hfn e + 1 else rx_hfn e)"
  shows "rx_sync (e\<lparr>next_pdcp_rx_sn := sn, rx_hfn := h\<rparr>) k"
proof -
  let ?M = "sn_space e"
  note M = max_seq_num [OF v]
  have "k mod ?M < ?M" using M by simp
  from less_le_trans [OF this M(2)] have "k mod ?M < 2 ^ 16" by simp
  then have unat: "unat sn = k mod ?M" by (simp add: sn unat_of_nat)
  have lt: "uint sn < uint (next_pdcp_rx_sn e) \<longleftrightarrow> k mod ?M < j mod ?M"
    using s unat by (simp add: rx_sync_def word_less_nat_alt flip: word_less_def)
  have "h = of_nat (k div ?M)"
    using cycle_cases [OF k] s M(3) lt by (auto simp: h rx_sync_def)
  then show ?thesis by (simp add: rx_sync_def sn_bits_def unat)
qed

lemma size_valid_update [simp]:
  "pdcp_is_seq_num_size_valid (Some (e\<lparr>rx_hfn := h\<rparr>)) = pdcp_is_seq_num_size_valid (Some e)"
  "pdcp_is_seq_num_size_valid (Some (e\<lparr>next_pdcp_rx_sn := s\<rparr>)) = pdcp_is_seq_num_size_valid (Some e)"
  "pdcp_is_seq_num_size_valid (Some (e\<lparr>rx_hfn_offset := i\<rparr>)) = pdcp_is_seq_num_size_valid (Some e)"
  "pdcp_is_seq_num_size_valid (Some (e\<lparr>next_pdcp_rx_sn_before_integrity := s\<rparr>)) = pdcp_is_seq_num_size_valid (Some e)"
  "pdcp_is_seq_num_size_valid (Some (e\<lparr>missing_pdu_bitmap := m\<rparr>)) = pdcp_is_seq_num_size_valid (Some e)"
  by (simp_all add: pdcp_is_seq_num_size_valid_def)

lemma sync_update [simp]:
  "rx_sync (e\<lparr>rx_hfn_offset := i\<rparr>) k = rx_sync e k"
  "rx_sync (e\<lparr>next_pdcp_rx_sn_before_integrity := s\<rparr>) k = rx_sync e k"
  "rx_sync (e\<lparr>missing_pdu_bitmap := m\<rparr>) k = rx_sync e k"
  "sn_bits (e\<lparr>missing_pdu_bitmap := m\<rparr>) = sn_bits e"
  "sn_bits (e\<lparr>rx_hfn_offset := i\<rparr>) = sn_bits e"
  "sn_bits (e\<lparr>next_pdcp_rx_sn_before_integrity := s\<rparr>) = sn_bits e"
  "sn_bits (e\<lparr>next_pdcp_rx_sn := s\<rparr>) = sn_bits e"
  "sn_bits (e\<lparr>rx_hfn := h\<rparr>) = sn_bits e"
  by (simp_all add: rx_sync_def sn_bits_def)

lemma rx_um_sync:
  assumes v: "pdcp_is_seq_num_size_valid (Some e)" and s: "rx_sync e j" and k: "j \<le> k" "k < j + sn_space e"
  shows "\<exists>sn hfn. rx_drb_um (of_nat (k mod sn_space e)) e = (True, e\<lparr>next_pdcp_rx_sn := sn, rx_hfn := hfn\<rparr>) \<and>
    rx_sync (e\<lparr>next_pdcp_rx_sn := sn, rx_hfn := hfn\<rparr>) (Suc k)"
proof -
  let ?sn = "of_nat (k mod sn_space e) :: 16 word"
  define h where "h = (if uint ?sn < uint (next_pdcp_rx_sn e) then rx_hfn e + 1 else rx_hfn e)"
  let ?e1 = "e\<lparr>next_pdcp_rx_sn := ?sn, rx_hfn := h\<rparr>"
  have s1: "rx_sync ?e1 k" by (rule rx_wrap_sync [OF v s k refl h_def])
  have v1: "pdcp_is_seq_num_size_valid (Some ?e1)" using v by simp
  have um: "rx_drb_um ?sn e = (True, snd (pdcp_advance_rx_window ?e1))"
    by (cases e) (simp add: rx_drb_um_def Let_def h_def)
  obtain sn hfn where a: "snd (pdcp_advance_rx_window ?e1) = ?e1\<lparr>next_pdcp_rx_sn := sn, rx_hfn := hfn\<rparr>"
    using advance_rx_sync(2) [OF v1 s1] by blast
  then have "snd (pdcp_advance_rx_window ?e1) = e\<lparr>next_pdcp_rx_sn := sn, rx_hfn := hfn\<rparr>" by (cases e) simp
  then show ?thesis using um advance_rx_sync(1) [OF v1 s1] by metis
qed

lemma rx_srb_sync:
  assumes v: "pdcp_is_seq_num_size_valid (Some e)" and s: "rx_sync e j" and k: "j \<le> k" "k < j + sn_space e"
  shows "\<exists>sn hfn b. rx_srb (of_nat (k mod sn_space e)) e =
      (True, e\<lparr>rx_hfn_offset := 0, next_pdcp_rx_sn_before_integrity := b, next_pdcp_rx_sn := sn, rx_hfn := hfn\<rparr>) \<and>
    rx_sync (e\<lparr>next_pdcp_rx_sn := sn, rx_hfn := hfn\<rparr>) (Suc k)"
proof -
  let ?sn = "of_nat (k mod sn_space e) :: 16 word"
  define h where "h = (if uint ?sn < uint (next_pdcp_rx_sn e) then rx_hfn e + 1 else rx_hfn e)"
  let ?b = "next_pdcp_rx_sn e"
  let ?e0 = "e\<lparr>next_pdcp_rx_sn := ?sn, rx_hfn := h\<rparr>"
  let ?e1 = "?e0\<lparr>rx_hfn_offset := 0, next_pdcp_rx_sn_before_integrity := ?b\<rparr>"
  have "rx_sync ?e0 k" by (rule rx_wrap_sync [OF v s k refl h_def])
  then have s1: "rx_sync ?e1 k" by simp
  have v1: "pdcp_is_seq_num_size_valid (Some ?e1)" using v by simp
  have srb: "rx_srb ?sn e = (True, snd (pdcp_advance_rx_window ?e1))"
    by (cases e) (simp add: rx_srb_def Let_def h_def)
  obtain sn hfn where a: "snd (pdcp_advance_rx_window ?e1) = ?e1\<lparr>next_pdcp_rx_sn := sn, rx_hfn := hfn\<rparr>"
    using advance_rx_sync(2) [OF v1 s1] by blast
  let ?r = "e\<lparr>rx_hfn_offset := 0, next_pdcp_rx_sn_before_integrity := ?b, next_pdcp_rx_sn := sn, rx_hfn := hfn\<rparr>"
  have r: "snd (pdcp_advance_rx_window ?e1) = ?r" unfolding a by (cases e) simp
  then have "rx_sync ?r (Suc k)" using advance_rx_sync(1) [OF v1 s1] by simp
  then have "rx_sync (e\<lparr>next_pdcp_rx_sn := sn, rx_hfn := hfn\<rparr>) (Suc k)" by (simp add: rx_sync_def sn_bits_def)
  then show ?thesis using srb r by metis
qed

section \<open>The status bitmap\<close>

definition received_bit :: "octet list \<Rightarrow> nat \<Rightarrow> bool" where
  "received_bit bm s = bit (bm ! (s div 8)) (7 - s mod 8)"

lemma mark_bit: "i < 8 \<Longrightarrow> n < 8 \<Longrightarrow> bit (util_mark_nth_bit_of_octet b i) n \<longleftrightarrow> bit b n \<or> n = 7 - i"
proof -
  assume i: "i < 8" and n: "n < 8"
  have "(0x80 :: octet) = push_bit 7 1" by (simp add: push_bit_eq_mult)
  then have "bit (drop_bit i 0x80 :: octet) n \<longleftrightarrow> n = 7 - i"
    using i n by (simp only: bit_drop_bit_eq bit_push_bit_iff bit_1_iff o_apply) auto
  then show ?thesis by (simp add: util_mark_nth_bit_of_octet_def bit_or_iff)
qed

lemma mark_received:
  assumes "length bm = 512" "s < 4096" "t < 4096"
  shows "received_bit (bm[s div 8 := util_mark_nth_bit_of_octet (bm ! (s div 8)) (s mod 8)]) t \<longleftrightarrow>
    t = s \<or> received_bit bm t"
proof (cases "t div 8 = s div 8")
  case True
  have "s div 8 < 512" using assms by simp
  moreover have "7 - t mod 8 = 7 - s mod 8 \<longleftrightarrow> t = s"
  proof
    assume "7 - t mod 8 = 7 - s mod 8"
    moreover have "t mod 8 < 8" "s mod 8 < 8" by simp_all
    ultimately have "t mod 8 = s mod 8" by linarith
    then show "t = s" using True by (metis div_mult_mod_eq)
  qed simp
  ultimately show ?thesis using True assms mark_bit by (simp add: received_bit_def) blast
next
  case False
  then show ?thesis by (auto simp: received_bit_def)
qed

lemma advance_bitmap [simp]: "missing_pdu_bitmap (snd (pdcp_advance_rx_window e)) = missing_pdu_bitmap e"
  by (simp add: pdcp_advance_rx_window_def)

lemma rx_bitmap:
  "missing_pdu_bitmap (snd (rx_srb s e)) = missing_pdu_bitmap e"
  "missing_pdu_bitmap (snd (rx_drb_um s e)) = missing_pdu_bitmap e"
  "missing_pdu_bitmap (snd (rx_drb_am s e)) = missing_pdu_bitmap e"
  by (simp_all add: rx_srb_def rx_drb_um_def rx_drb_am_def Let_def)

text \<open>On a valid sequence number the check marks the bitmap and runs one of the three cases.\<close>

lemma rx_valid_eq:
  assumes "pdcp_is_seq_num_size_valid (Some e)" "unat s < sn_space e" "length (missing_pdu_bitmap e) = 512"
  shows "pdcp_is_rx_seq_number_valid s (Some e) srb =
    (let e1 = e\<lparr>missing_pdu_bitmap := (missing_pdu_bitmap e)
                [unat s div 8 := util_mark_nth_bit_of_octet (missing_pdu_bitmap e ! (unat s div 8)) (unat s mod 8)]\<rparr> in
     Some (map_prod id Some
       (if srb then rx_srb s e1
        else case rlc_mode e1 of RLC_MODE_AM \<Rightarrow> rx_drb_am s e1 | RLC_MODE_UM \<Rightarrow> rx_drb_um s e1 | _ \<Rightarrow> (False, e1))))"
proof -
  have "unat s < 4096" using assms max_seq_num [OF assms(1)] by linarith
  then show ?thesis
    using assms by (simp add: pdcp_is_rx_seq_number_valid_def seq_num_valid_iff pdcp_mark_current_pdu_as_received_def Let_def)
qed

section \<open>Properties\<close>

fun tx_run :: "nat \<Rightarrow> pdcp_t option \<Rightarrow> (16 word) list \<times> pdcp_t option" where
  "tx_run 0 e = ([], e)"
| "tx_run (Suc n) e =
     (let (sn, e1) = pdcp_get_next_tx_seq_number e; (sns, e2) = tx_run n e1 in (sn # sns, e2))"

lemma tx_run_sync:
  assumes "pdcp_is_seq_num_size_valid (Some e)" "tx_sync e k"
  shows "\<exists>e'. tx_run n (Some e) = (map (\<lambda>i. of_nat (i mod sn_space e)) [k..<k + n], Some e') \<and>
    tx_sync e' (k + n) \<and> sn_bits e' = sn_bits e"
  using assms
proof (induction n arbitrary: e k)
  case (Suc n)
  obtain e1 sn hfn where e1: "pdcp_get_next_tx_seq_number (Some e) = (of_nat (k mod sn_space e), Some e1)"
      "tx_sync e1 (Suc k)" "e1 = e\<lparr>next_pdcp_tx_sn := sn, tx_hfn := hfn\<rparr>"
    using next_tx_sync [OF Suc.prems] by blast
  have bits: "sn_bits e1 = sn_bits e" and v1: "pdcp_is_seq_num_size_valid (Some e1)"
    using e1(3) Suc.prems(1) by (simp_all add: sn_bits_def pdcp_is_seq_num_size_valid_def)
  obtain e2 where e2: "tx_run n (Some e1) = (map (\<lambda>i. of_nat (i mod sn_space e)) [Suc k..<Suc k + n], Some e2)"
      "tx_sync e2 (Suc k + n)" "sn_bits e2 = sn_bits e"
    using Suc.IH [OF v1 e1(2)] bits by auto
  have "[k..<k + Suc n] = k # [Suc k..<Suc k + n]" by (simp add: upt_rec)
  then show ?case using e1(1) e2 by (simp add: Let_def)
qed simp

text \<open>
  C21. Transmit numbering: an entity with a 5, 7 or 12-bit sequence number that has numbered \<open>k\<close> PDUs
  since its initialisation gives the next one the number \<open>k\<close> modulo the sequence number space, and its
  hyper frame number counts the completed cycles (modulo \<open>2^32\<close>), for every \<open>k\<close>.
\<close>

theorem pdcp_tx_numbering:
  assumes "pdcp_is_seq_num_size_valid (Some e)" "pdcp_init_seq_numbers (Some e) = (True, Some e0)"
  shows "\<exists>e'. tx_run k (Some e0) = (map (\<lambda>i. of_nat (i mod sn_space e)) [0..<k], Some e') \<and>
    fst (pdcp_get_next_tx_seq_number (Some e')) = of_nat (k mod sn_space e) \<and> tx_hfn e' = of_nat (k div sn_space e)"
proof -
  have v: "pdcp_is_seq_num_size_valid (Some e0)" "tx_sync e0 0" "sn_bits e0 = sn_bits e"
    using assms by (auto simp: pdcp_init_seq_numbers_def tx_sync_def sn_bits_def pdcp_is_seq_num_size_valid_def)
  from tx_run_sync [OF v(1,2), of k] v(3) obtain e' where
    e': "tx_run k (Some e0) = (map (\<lambda>i. of_nat (i mod sn_space e)) [0..<k], Some e')" "tx_sync e' k" "sn_bits e' = sn_bits e"
    by auto
  have "pdcp_is_seq_num_size_valid (Some e')"
    using assms(1) e'(3) by (simp add: pdcp_is_seq_num_size_valid_def sn_bits_def word_unat_eq_iff)
  from next_tx_sync [OF this e'(2)] e' show ?thesis by (auto simp: tx_sync_def)
qed

definition sample_entity :: "octet \<Rightarrow> rlc_mode_t \<Rightarrow> pdcp_t" where
  "sample_entity sz mode =
     \<lparr>header_compression_profile = 0, is_ue = False, is_srb = False, cipheringAlgorithm = 0, integrityProtAlgorithm = 0,
      kUPenc = None, kRRCint = None, kRRCenc = None, security_activated = 0, rlc_mode = mode, status_report = 0,
      seq_num_size = sz, lcid = 3, rb_id = 1, next_pdcp_tx_sn = 9, next_pdcp_rx_sn = 9,
      next_pdcp_rx_sn_before_integrity = 0, tx_hfn = 3, rx_hfn = 3, rx_hfn_offset = 0,
      last_submitted_pdcp_rx_sn = 4095, missing_pdu_bitmap = replicate 512 0, first_missing_pdu = - 1\<rparr>"

lemma sample_entity_valid:
  "pdcp_is_seq_num_size_valid (Some (sample_entity 5 m))" "pdcp_is_seq_num_size_valid (Some (sample_entity 7 m))"
  "pdcp_is_seq_num_size_valid (Some (sample_entity 12 m))"
  "sn_bits (sample_entity 5 m) = 5" "sn_bits (sample_entity 7 m) = 7" "sn_bits (sample_entity 12 m) = 12"
  "length (missing_pdu_bitmap (sample_entity s m)) = 512"
  by (simp_all add: pdcp_is_seq_num_size_valid_def sample_entity_def sn_bits_def)

theorem pdcp_tx_numbering_witness:
  "\<exists>e0 e'. pdcp_init_seq_numbers (Some (sample_entity 5 RLC_MODE_AM)) = (True, Some e0) \<and>
     tx_run 33 (Some e0) = (map (\<lambda>i. of_nat (i mod 32)) [0..<33], Some e') \<and>
     fst (pdcp_get_next_tx_seq_number (Some e')) = 1 \<and> tx_hfn e' = 1"
proof -
  obtain e0 where e0: "pdcp_init_seq_numbers (Some (sample_entity 5 RLC_MODE_AM)) = (True, Some e0)"
    by (simp add: pdcp_init_seq_numbers_def)
  from pdcp_tx_numbering [OF sample_entity_valid(1) e0, of 33] e0 show ?thesis
    by (auto simp: sample_entity_valid)
qed

text \<open>
  Reception marks the status bitmap: for every valid sequence number the check of
  \<open>pdcp_is_rx_seq_number_valid\<close> stays inside the 512 octets, sets the bit of that number (most
  significant bit first) and no other bit, whether the PDU is then accepted or not.
\<close>

theorem pdcp_rx_marks_bitmap:
  assumes "pdcp_is_seq_num_size_valid (Some e)" "unat s < sn_space e" "length (missing_pdu_bitmap e) = 512"
  shows "\<exists>ok e'. pdcp_is_rx_seq_number_valid s (Some e) srb = Some (ok, Some e') \<and>
    length (missing_pdu_bitmap e') = 512 \<and>
    (\<forall>t<4096. received_bit (missing_pdu_bitmap e') t \<longleftrightarrow> t = unat s \<or> received_bit (missing_pdu_bitmap e) t)"
proof -
  let ?bm = "(missing_pdu_bitmap e)[unat s div 8 := util_mark_nth_bit_of_octet (missing_pdu_bitmap e ! (unat s div 8)) (unat s mod 8)]"
  let ?e1 = "e\<lparr>missing_pdu_bitmap := ?bm\<rparr>"
  define r where "r = (if srb then rx_srb s ?e1 else case rlc_mode ?e1 of
      RLC_MODE_AM \<Rightarrow> rx_drb_am s ?e1 | RLC_MODE_UM \<Rightarrow> rx_drb_um s ?e1 | _ \<Rightarrow> (False, ?e1))"
  have "pdcp_is_rx_seq_number_valid s (Some e) srb = Some (fst r, Some (snd r))"
    using rx_valid_eq [OF assms, of srb] unfolding r_def Let_def by (simp add: map_prod_def split_beta)
  moreover have bm: "missing_pdu_bitmap (snd r) = ?bm"
    unfolding r_def by (auto simp: rx_bitmap split: rlc_mode_t.splits)
  moreover have "unat s < 4096" using assms(2) max_seq_num(2) [OF assms(1)] by linarith
  ultimately show ?thesis using mark_received [OF assms(3)] assms(3) by (metis length_list_update)
qed

theorem pdcp_rx_marks_bitmap_witness:
  "\<exists>ok e'. pdcp_is_rx_seq_number_valid 77 (Some (sample_entity 7 RLC_MODE_UM)) False = Some (ok, Some e') \<and>
     received_bit (missing_pdu_bitmap e') 77 \<and> \<not> received_bit (missing_pdu_bitmap e') 78"
proof -
  have 0: "\<not> received_bit (missing_pdu_bitmap (sample_entity 7 RLC_MODE_UM)) 78"
    by (simp add: received_bit_def sample_entity_def)
  have "unat (77 :: 16 word) < sn_space (sample_entity 7 RLC_MODE_UM)" by (simp add: sample_entity_valid)
  from pdcp_rx_marks_bitmap [OF sample_entity_valid(2) this sample_entity_valid(7), of False]
  obtain ok e' where r: "pdcp_is_rx_seq_number_valid 77 (Some (sample_entity 7 RLC_MODE_UM)) False = Some (ok, Some e')"
    and b: "\<forall>t<4096. received_bit (missing_pdu_bitmap e') t \<longleftrightarrow>
      t = unat (77 :: 16 word) \<or> received_bit (missing_pdu_bitmap (sample_entity 7 RLC_MODE_UM)) t" by blast
  from b have "received_bit (missing_pdu_bitmap e') 77" by (drule_tac spec [of _ 77]) simp
  moreover from b 0 have "\<not> received_bit (missing_pdu_bitmap e') 78" by (drule_tac spec [of _ 78]) simp
  ultimately show ?thesis using r by blast
qed

lemma advance_in_range:
  assumes v: "pdcp_is_seq_num_size_valid (Some e)" and lt: "unat (next_pdcp_rx_sn e) < sn_space e"
  shows "unat (next_pdcp_rx_sn (snd (pdcp_advance_rx_window e))) < sn_space e"
proof (cases "Suc (unat (next_pdcp_rx_sn e)) = sn_space e")
  case True
  then show ?thesis using v eq_max_iff [OF v, of "next_pdcp_rx_sn e"] by (simp add: pdcp_advance_rx_window_def)
next
  case False
  then show ?thesis
    using v lt eq_max_iff [OF v, of "next_pdcp_rx_sn e"] inc_no_wrap [OF False lt max_seq_num(2) [OF v]]
    by (simp add: pdcp_advance_rx_window_def)
qed

lemma rx_cases_in_range:
  assumes v: "pdcp_is_seq_num_size_valid (Some e)" and s: "unat s < sn_space e"
    and n: "unat (next_pdcp_rx_sn e) < sn_space e"
  shows "unat (next_pdcp_rx_sn (snd (rx_srb s e))) < sn_space e"
    "unat (next_pdcp_rx_sn (snd (rx_drb_um s e))) < sn_space e"
    "unat (next_pdcp_rx_sn (snd (rx_drb_am s e))) < sn_space e \<or>
      unat (next_pdcp_rx_sn e) + 1 = sn_space e \<and> unat (next_pdcp_rx_sn (snd (rx_drb_am s e))) = sn_space e \<and>
      uint (next_pdcp_rx_sn e) - uint s > (if seq_num_size e = 7 then 64 else 2048)"
proof -
  have adv: "unat (next_pdcp_rx_sn (snd (pdcp_advance_rx_window x))) < sn_space e"
    if "seq_num_size x = seq_num_size e" "next_pdcp_rx_sn x = s" for x
    using advance_in_range [of x] v s that by (simp add: sn_bits_def pdcp_is_seq_num_size_valid_def)
  show "unat (next_pdcp_rx_sn (snd (rx_srb s e))) < sn_space e"
    "unat (next_pdcp_rx_sn (snd (rx_drb_um s e))) < sn_space e"
    by (simp_all add: rx_srb_def rx_drb_um_def Let_def adv)
  have "unat (next_pdcp_rx_sn e) + 1 < 2 ^ 16" using n max_seq_num(2) [OF v] by simp
  then have "unat (next_pdcp_rx_sn e + 1) = unat (next_pdcp_rx_sn e) + 1" by (simp add: unat_word_ariths)
  then show "unat (next_pdcp_rx_sn (snd (rx_drb_am s e))) < sn_space e \<or>
      unat (next_pdcp_rx_sn e) + 1 = sn_space e \<and> unat (next_pdcp_rx_sn (snd (rx_drb_am s e))) = sn_space e \<and>
      uint (next_pdcp_rx_sn e) - uint s > (if seq_num_size e = 7 then 64 else 2048)"
    using n unfolding rx_drb_am_def Let_def by (auto simp: adv split: if_splits)
qed

text \<open>
  The expected receive number stays a sequence number. After any PDU with a valid number,
  \<open>next_pdcp_rx_sn\<close> is again below the size of the sequence number space, with one exception: over RLC
  AM, in the branch for a PDU more than a reordering window behind the expected number, the code
  increments the expected number without the wrap that \<open>pdcp_advance_rx_window\<close> performs everywhere
  else, so that from the last number of the space it leaves the space.
\<close>

theorem pdcp_rx_next_in_range:
  assumes "pdcp_is_seq_num_size_valid (Some e)" "unat s < sn_space e" "length (missing_pdu_bitmap e) = 512"
    and "unat (next_pdcp_rx_sn e) < sn_space e"
  shows "\<exists>ok e'. pdcp_is_rx_seq_number_valid s (Some e) srb = Some (ok, Some e') \<and>
    (unat (next_pdcp_rx_sn e') < sn_space e \<or>
     \<not> srb \<and> rlc_mode e = RLC_MODE_AM \<and> unat (next_pdcp_rx_sn e) + 1 = sn_space e \<and>
     unat (next_pdcp_rx_sn e') = sn_space e \<and>
     uint (next_pdcp_rx_sn e) - uint s > (if seq_num_size e = 7 then 64 else 2048))"
proof -
  let ?bm = "(missing_pdu_bitmap e)[unat s div 8 := util_mark_nth_bit_of_octet (missing_pdu_bitmap e ! (unat s div 8)) (unat s mod 8)]"
  let ?e1 = "e\<lparr>missing_pdu_bitmap := ?bm\<rparr>"
  define r where "r = (if srb then rx_srb s ?e1 else case rlc_mode ?e1 of
      RLC_MODE_AM \<Rightarrow> rx_drb_am s ?e1 | RLC_MODE_UM \<Rightarrow> rx_drb_um s ?e1 | _ \<Rightarrow> (False, ?e1))"
  have eq: "pdcp_is_rx_seq_number_valid s (Some e) srb = Some (fst r, Some (snd r))"
    using rx_valid_eq [OF assms(1-3), of srb] unfolding r_def Let_def by (simp add: map_prod_def split_beta)
  have "pdcp_is_seq_num_size_valid (Some ?e1)" using assms(1) by simp
  note c = rx_cases_in_range [OF this, of s]
  show ?thesis
    by (rule exI [of _ "fst r"], rule exI [of _ "snd r"])
      (use c assms in \<open>auto simp: eq r_def split: rlc_mode_t.splits\<close>)
qed

theorem pdcp_rx_next_in_range_witness:
  "\<exists>e'. pdcp_is_rx_seq_number_valid 0 (Some (sample_entity 12 RLC_MODE_AM\<lparr>next_pdcp_rx_sn := 4095, last_submitted_pdcp_rx_sn := 4094\<rparr>)) False
      = Some (True, Some e') \<and> unat (next_pdcp_rx_sn e') = 4096"
proof -
  let ?e = "sample_entity 12 RLC_MODE_AM\<lparr>next_pdcp_rx_sn := 4095, last_submitted_pdcp_rx_sn := 4094\<rparr>"
  have v: "pdcp_is_seq_num_size_valid (Some ?e)" "unat (0 :: 16 word) < sn_space ?e" "length (missing_pdu_bitmap ?e) = 512"
      "unat (next_pdcp_rx_sn ?e) < sn_space ?e"
    by (simp_all add: pdcp_is_seq_num_size_valid_def sample_entity_def sn_bits_def)
  have "pdcp_is_rx_seq_number_valid 0 (Some ?e) False =
      Some (True, Some (?e\<lparr>missing_pdu_bitmap := (missing_pdu_bitmap ?e)[0 := 0x80],
        rx_hfn := rx_hfn ?e + 1, rx_hfn_offset := 0, next_pdcp_rx_sn := 4096\<rparr>))"
    using rx_valid_eq [OF v(1-3), of False]
    by (simp add: rx_drb_am_def sample_entity_def util_mark_nth_bit_of_octet_def)
  moreover from pdcp_rx_next_in_range [OF v, of False] obtain ok e' where
    "pdcp_is_rx_seq_number_valid 0 (Some ?e) False = Some (ok, Some e')"
    "unat (next_pdcp_rx_sn e') < sn_space ?e \<or> unat (next_pdcp_rx_sn e') = sn_space ?e" by blast
  ultimately show ?thesis by (auto simp: sn_bits_def sample_entity_def)
qed

lemma long_sn_octets:
  fixes sn :: "16 word"
  assumes "unat sn < 4096"
  shows "push_bit 8 (ucast (ucast (drop_bit 8 sn AND 0xFF) AND 0x0F :: octet)) OR ucast (ucast (sn AND 0xFF) AND 0xFF :: octet) = sn"
    "push_bit 8 (ucast ((ucast (drop_bit 8 sn AND 0xFF) OR 0x80) AND 0x0F :: octet)) OR ucast (ucast (sn AND 0xFF) AND 0xFF :: octet) = sn"
    "ucast (drop_bit 8 sn AND 0xFF) AND (0x80 :: octet) = 0"
proof -
  have m: "(0xFF :: 16 word) = mask 8" "(0xFF :: octet) = mask 8" "(0x0F :: octet) = mask 4" "(0x80 :: octet) = push_bit 7 1"
    by (simp_all add: mask_eq_exp_minus_1 push_bit_eq_mult)
  have hi: "\<not> bit sn n" if "12 \<le> n" for n
  proof -
    have "take_bit 12 sn = sn" using assms by (simp add: take_bit_eq_mod word_unat_eq_iff unat_mod)
    then show ?thesis using that bit_take_bit_iff [of 12 sn n] by simp
  qed
  have b: "bit sn n \<Longrightarrow> n < 12" for n using hi [of n] by (cases "n < 12") auto
  show "push_bit 8 (ucast (ucast (drop_bit 8 sn AND 0xFF) AND 0x0F :: octet)) OR ucast (ucast (sn AND 0xFF) AND 0xFF :: octet) = sn"
    "push_bit 8 (ucast ((ucast (drop_bit 8 sn AND 0xFF) OR 0x80) AND 0x0F :: octet)) OR ucast (ucast (sn AND 0xFF) AND 0xFF :: octet) = sn"
    unfolding m by (rule bit_word_eqI; auto simp: bit_simps simp del: mask_numeral push_bit_numeral push_bit_of_1 dest: b)+
  show "ucast (drop_bit 8 sn AND 0xFF) AND (0x80 :: octet) = 0"
    unfolding m by (rule bit_word_eqI; auto simp: bit_simps simp del: mask_numeral push_bit_numeral push_bit_of_1 dest: b)
qed

text \<open>
  C32. Header round trips: what the serialisers write, the parsers read back. For a 12-bit sequence
  number the two octets carry the number and, in the first bit, the data flag; for a 5-bit one the
  first octet carries the number. The other octets of the buffer are not changed. The function
  \<open>pdcp_get_dc_filed\<close>, in contrast, returns 0 for every buffer.
\<close>

theorem pdcp_header_round_trip:
  assumes "2 \<le> length buf" "unat sn < 4096" "unat srb_sn < 32"
  shows "\<exists>buf'. pdcp_serialize_user_plane_data_pdu_with_long_sn_buffer (Some buf) (Some \<lparr>hdr_dc = dc, hdr_sn = sn\<rparr>) = Some (True, Some buf') \<and>
      pdcp_get_sequence_number_of_pdu_with_long_sn (Some buf') = Some sn \<and>
      (buf' ! 0 AND 0x80 \<noteq> 0 \<longleftrightarrow> dc = 1) \<and> drop 2 buf' = drop 2 buf \<and> length buf' = length buf \<and>
      pdcp_get_dc_filed (Some buf') = Some 0 \<and>
    (\<exists>buf'. pdcp_serialize_control_plane_data_pdu_with_SRB_sn_buffer (Some buf) (Some srb_sn) = Some (True, Some buf') \<and>
      pdcp_get_sequence_number_of_pdu_with_SRB_sn (Some buf') = Some srb_sn \<and> drop 1 buf' = drop 1 buf \<and>
      length buf' = length buf)"
proof -
  obtain b0 b1 rest where buf: "buf = b0 # b1 # rest" using assms(1) by (cases buf; cases "tl buf") auto
  note o = long_sn_octets [OF assms(2)]
  let ?h = "ucast (drop_bit 8 sn AND 0xFF) :: octet"
  let ?buf' = "(if dc = 1 then ?h OR 0x80 else ?h) # ucast (sn AND 0xFF) # rest"
  have "pdcp_serialize_user_plane_data_pdu_with_long_sn_buffer (Some buf) (Some \<lparr>hdr_dc = dc, hdr_sn = sn\<rparr>) = Some (True, Some ?buf')"
    by (simp add: pdcp_serialize_user_plane_data_pdu_with_long_sn_buffer_def buf)
  moreover have "pdcp_get_sequence_number_of_pdu_with_long_sn (Some ?buf') = Some sn"
    using o(1,2) by (simp add: pdcp_get_sequence_number_of_pdu_with_long_sn_def)
  moreover have "?buf' ! 0 AND 0x80 \<noteq> 0 \<longleftrightarrow> dc = 1"
    using o(3) by (simp add: bit.conj_disj_distrib2)
  moreover have "pdcp_get_dc_filed (Some ?buf') = Some 0"
    by (simp add: pdcp_get_dc_filed_def)
  moreover have "srb_sn AND 0x1F = srb_sn"
  proof -
    have "(0x1F :: octet) = mask 5" by (simp add: mask_eq_exp_minus_1)
    moreover have "take_bit 5 srb_sn = srb_sn" using assms(3) by (simp add: take_bit_eq_mod word_unat_eq_iff unat_mod)
    ultimately show ?thesis by (simp only: take_bit_eq_mask)
  qed
  then have "\<exists>buf'. pdcp_serialize_control_plane_data_pdu_with_SRB_sn_buffer (Some buf) (Some srb_sn) = Some (True, Some buf') \<and>
      pdcp_get_sequence_number_of_pdu_with_SRB_sn (Some buf') = Some srb_sn \<and> drop 1 buf' = drop 1 buf \<and> length buf' = length buf"
    by (simp add: pdcp_serialize_control_plane_data_pdu_with_SRB_sn_buffer_def pdcp_get_sequence_number_of_pdu_with_SRB_sn_def buf)
  ultimately show ?thesis by (intro exI [of _ ?buf']) (simp add: buf)
qed

theorem pdcp_header_round_trip_witness:
  "\<exists>buf'. pdcp_serialize_user_plane_data_pdu_with_long_sn_buffer (Some [7, 7, 9]) (Some \<lparr>hdr_dc = 1, hdr_sn = 3000\<rparr>) = Some (True, Some buf') \<and>
      pdcp_get_sequence_number_of_pdu_with_long_sn (Some buf') = Some 3000 \<and> pdcp_get_dc_filed (Some buf') = Some 0"
  using pdcp_header_round_trip [of "[7, 7, 9]" 3000 17 1] by auto

lemma status_octet:
  fixes sn :: "16 word"
  assumes "unat sn < 4096"
  shows "push_bit 8 (ucast ((0x40 OR ucast (drop_bit 8 sn AND 0xFF)) AND 0x0F :: octet)) OR ucast (ucast (sn AND 0xFF) AND 0xFF :: octet) = sn"
    "bit (0x40 OR ucast (drop_bit 8 sn AND 0xFF) :: octet) 6" "\<not> bit (0x40 OR ucast (drop_bit 8 sn AND 0xFF) :: octet) 7"
proof -
  have m: "(0xFF :: 16 word) = mask 8" "(0xFF :: octet) = mask 8" "(0x0F :: octet) = mask 4" "(0x40 :: octet) = push_bit 6 1"
    by (simp_all add: mask_eq_exp_minus_1 push_bit_eq_mult)
  have "take_bit 12 sn = sn" using assms by (simp add: take_bit_eq_mod word_unat_eq_iff unat_mod)
  then have b: "bit sn n \<Longrightarrow> n < 12" for n using bit_take_bit_iff [of 12 sn n] by simp
  show "push_bit 8 (ucast ((0x40 OR ucast (drop_bit 8 sn AND 0xFF)) AND 0x0F :: octet)) OR ucast (ucast (sn AND 0xFF) AND 0xFF :: octet) = sn"
    unfolding m by (rule bit_word_eqI; auto simp: bit_simps simp del: mask_numeral push_bit_numeral push_bit_of_1 dest: b)
  show "bit (0x40 OR ucast (drop_bit 8 sn AND 0xFF) :: octet) 6" "\<not> bit (0x40 OR ucast (drop_bit 8 sn AND 0xFF) :: octet) 7"
    unfolding m by (auto simp: bit_simps simp del: mask_numeral push_bit_numeral push_bit_of_1 dest: b)
qed

text \<open>
  The PDCP status report: in a zeroed buffer \<open>pdcp_serialize_control_pdu_for_pdcp_status_report\<close>
  writes the first missing number where the long sequence number parser finds it, followed by the
  bitmap. Of the four leading bits it sets the second one and leaves the first, the D/C bit, at 0,
  although its comment speaks of the leftmost bit.
\<close>

theorem pdcp_status_report_layout:
  assumes "unat fms < 4096" "length bitmap = 512"
  shows "\<exists>b0 b1. pdcp_serialize_control_pdu_for_pdcp_status_report (Some (replicate 514 0)) bitmap (Some \<lparr>first_missing_sn = fms\<rparr>) =
      Some (True, Some (b0 # b1 # bitmap)) \<and>
    pdcp_get_sequence_number_of_pdu_with_long_sn (Some (b0 # b1 # bitmap)) = Some fms \<and> bit b0 6 \<and> \<not> bit b0 7"
proof -
  let ?b0 = "0x40 OR ucast (drop_bit 8 fms AND 0xFF) :: octet" and ?b1 = "ucast (fms AND 0xFF) :: octet"
  have m: "util_mark_nth_bit_of_octet 0 1 = 0x40" by (simp add: util_mark_nth_bit_of_octet_def)
  have "pdcp_serialize_control_pdu_for_pdcp_status_report (Some (replicate 514 0)) bitmap (Some \<lparr>first_missing_sn = fms\<rparr>) =
      Some (True, Some (?b0 # ?b1 # bitmap))"
    using assms(2) m by (simp add: pdcp_serialize_control_pdu_for_pdcp_status_report_def Let_def)
  moreover have "pdcp_get_sequence_number_of_pdu_with_long_sn (Some (?b0 # ?b1 # bitmap)) = Some fms"
    using status_octet(1) [OF assms(1)] by (simp add: pdcp_get_sequence_number_of_pdu_with_long_sn_def)
  ultimately show ?thesis using status_octet(2,3) [OF assms(1)] by blast
qed

theorem pdcp_status_report_layout_witness:
  "\<exists>b0 b1. pdcp_serialize_control_pdu_for_pdcp_status_report (Some (replicate 514 0)) (replicate 512 3) (Some \<lparr>first_missing_sn = 100\<rparr>) =
      Some (True, Some (b0 # b1 # replicate 512 3)) \<and> \<not> bit b0 7"
  using pdcp_status_report_layout [of 100 "replicate 512 3"] by auto

end
