(* ===== verification/PdcpData.thy ===== *)
theory PdcpData
  imports Pdcp Osa
begin

text \<open>
  PDCP security and data transfer: \<open>pdcp_security.c\<close>, and \<open>pdcp_data_req\<close>, \<open>pdcp_data_ind\<close>,
  \<open>pdcp_config_req_asn1\<close>, \<open>pdcp_config_set_security\<close> and \<open>rrc_pdcp_config_req\<close> of \<open>pdcp.c\<close>, as
  built with \<open>ENABLE_SECURITY\<close>. The entity that \<open>hashtable_get\<close> finds is passed in (\<^term>\<open>None\<close> when
  it finds none) and its new state is returned. A block from \<open>get_free_mem_block\<close> is its data area
  (\<^term>\<open>None\<close> when the allocator returned NULL); a write behind it is a fault. The result of
  \<open>rlc_data_req\<close> is an argument, the calls to RRC, GTP-U and the SDU list are outputs.
\<close>

section \<open>COUNT and security (pdcp_security.c)\<close>

text \<open>The generated ASN.1 enumeration: \<open>PDCP_Config__rlc_UM__pdcp_SN_Size_len7bits\<close> and \<open>len12bits\<close>.\<close>

definition SN_Size_len7bits :: octet where "SN_Size_len7bits = 0"
definition SN_Size_len12bits :: octet where "SN_Size_len12bits = 1"

definition maxDRB :: nat where "maxDRB = 11"
definition NB_RB_MAX :: nat where "NB_RB_MAX = maxDRB + 3"

definition pdcp_get_next_count_tx :: "pdcp_t \<Rightarrow> bool \<Rightarrow> 16 word \<Rightarrow> 32 word" where
  "pdcp_get_next_count_tx e srb_flagP pdcp_sn =
     (if srb_flagP then push_bit 5 (tx_hfn e) OR ucast (pdcp_sn AND 0x001F)
      else if seq_num_size e = SN_Size_len7bits then push_bit 7 (tx_hfn e) OR ucast (pdcp_sn AND 0x07F)
      else push_bit 12 (tx_hfn e) OR ucast (pdcp_sn AND 0x0FFF))"

definition pdcp_get_next_count_rx :: "pdcp_t \<Rightarrow> bool \<Rightarrow> 16 word \<Rightarrow> 32 word \<times> pdcp_t" where
  "pdcp_get_next_count_rx e srb_flagP pdcp_sn =
     (let hfn = rx_hfn e + of_int (rx_hfn_offset e);
          cnt = (if srb_flagP then push_bit 5 hfn OR ucast (pdcp_sn AND 0x001F)
                 else if seq_num_size e = SN_Size_len7bits then push_bit 7 hfn OR ucast (pdcp_sn AND 0x007F)
                 else push_bit 12 hfn OR ucast (pdcp_sn AND 0x0FFF))
      in (cnt, e\<lparr>rx_hfn_offset := 0\<rparr>))"

text \<open>The external algorithms used by \<open>stream_encrypt\<close> and \<open>stream_compute_integrity\<close>.\<close>

record secu_lib =
  aes_ctr :: ctr_crypt
  aes_cmac :: cmac_fun

definition key_of :: "octet list option \<Rightarrow> octet list" where
  "key_of k = (case k of None \<Rightarrow> [] | Some ks \<Rightarrow> ks)"

definition pdcp_apply_security :: "secu_lib \<Rightarrow> pdcp_t \<Rightarrow> bool \<Rightarrow> nat \<Rightarrow> nat \<Rightarrow> 16 word \<Rightarrow> octet list \<Rightarrow> nat \<Rightarrow> octet list option" where
  "pdcp_apply_security lib e srb_flagP rbid pdcp_header_len current_sn buf sdu_buffer_size =
     (if \<not> rbid < NB_RB_MAX then None
      else
        let sc0 = \<lparr>sc_key = [], key_length = 16, sc_count = pdcp_get_next_count_tx e srb_flagP current_sn,
                   bearer = of_int (int rbid - 1), direction = (if is_ue e then 0 else 1), blength = 0\<rparr>
        in do {
          (buf1, key) \<leftarrow>
            (if srb_flagP then do {
               (rc, mac) \<leftarrow> stream_compute_integrity (aes_cmac lib) (integrityProtAlgorithm e)
                 (sc0\<lparr>sc_key := drop 16 (key_of (kRRCint e)), blength := of_nat (8 * (pdcp_header_len + sdu_buffer_size))\<rparr>) buf;
               b \<leftarrow> (if rc = 0 then write_at (pdcp_header_len + sdu_buffer_size) mac buf else Some buf);
               Some (b, key_of (kRRCenc e)) }
             else Some (buf, key_of (kUPenc e)));
          (rc, tail) \<leftarrow> stream_encrypt (aes_ctr lib) (cipheringAlgorithm e)
            (sc0\<lparr>sc_key := key, blength := of_nat (8 * sdu_buffer_size)\<rparr>) (drop pdcp_header_len buf1);
          Some (take pdcp_header_len buf1 @ tail) })"

definition pdcp_validate_security ::
    "secu_lib \<Rightarrow> pdcp_t \<Rightarrow> bool \<Rightarrow> nat \<Rightarrow> nat \<Rightarrow> 16 word \<Rightarrow> octet list \<Rightarrow> nat \<Rightarrow> (int \<times> octet list \<times> pdcp_t) option" where
  "pdcp_validate_security lib e srb_flagP rbid pdcp_header_len current_sn buf sdu_buffer_size =
     (if \<not> rbid < NB_RB_MAX then None
      else
        let (cnt, e1) = pdcp_get_next_count_rx e srb_flagP current_sn;
            sc0 = \<lparr>sc_key = (if srb_flagP then key_of (kRRCenc e) else key_of (kUPenc e)), key_length = 16, sc_count = cnt,
                   bearer = of_int (int rbid - 1), direction = (if is_ue e then 1 else 0),
                   blength = of_nat (8 * (sdu_buffer_size - pdcp_header_len))\<rparr>
        in do {
          (rc, tail) \<leftarrow> stream_encrypt (aes_ctr lib) (cipheringAlgorithm e) sc0 (drop pdcp_header_len buf);
          let buf1 = take pdcp_header_len buf @ tail in
          if srb_flagP then do {
            rc2 \<leftarrow> stream_check_integrity (aes_cmac lib) (integrityProtAlgorithm e)
              (sc0\<lparr>sc_key := drop 16 (key_of (kRRCint e)), blength := of_nat (8 * sdu_buffer_size)\<rparr>) buf1
              (drop sdu_buffer_size buf1);
            Some (if rc2 \<noteq> 0 then - 1 else 0, buf1, e1) }
          else Some (0, buf1, e1) })"

section \<open>Data request (pdcp_data_req)\<close>

datatype pdcp_transmission_mode = PDCP_TRANSMISSION_MODE_UNKNOWN | PDCP_TRANSMISSION_MODE_CONTROL |
  PDCP_TRANSMISSION_MODE_DATA | PDCP_TRANSMISSION_MODE_TRANSPARENT

datatype rlc_op_status = RLC_OP_STATUS_OK | RLC_OP_STATUS_BAD_PARAMETER | RLC_OP_STATUS_INTERNAL_ERROR |
  RLC_OP_STATUS_OUT_OF_RESSOURCES | RLC_OP_STATUS_OTHER

record data_req_result =
  dr_ret :: bool
  dr_configured :: "bool option"
  dr_exit :: bool
  dr_entity :: "pdcp_t option"
  dr_pdu :: "octet list option"
  dr_freed :: bool

text \<open>The switch on the status of \<open>rlc_data_req\<close> at the end.\<close>

definition data_req_status :: "rlc_op_status \<Rightarrow> bool" where
  "data_req_status st =
     (case st of RLC_OP_STATUS_OK \<Rightarrow> True | RLC_OP_STATUS_BAD_PARAMETER \<Rightarrow> False | RLC_OP_STATUS_INTERNAL_ERROR \<Rightarrow> False
      | RLC_OP_STATUS_OUT_OF_RESSOURCES \<Rightarrow> False | RLC_OP_STATUS_OTHER \<Rightarrow> False)"

text \<open>The header: number the PDU and serialise the header; the number that is then checked.\<close>

definition data_req_header ::
    "bool \<Rightarrow> pdcp_transmission_mode \<Rightarrow> pdcp_t \<Rightarrow> octet list \<Rightarrow> nat \<Rightarrow> (bool \<times> 16 word \<times> pdcp_t option \<times> octet list) option" where
  "data_req_header srb_flagP modeP e blk sdu_buffer_sizeP =
     (let (sn, e1) = pdcp_get_next_tx_seq_number (Some e) in
      if srb_flagP then do {
        blk1 \<leftarrow> write_at (sdu_buffer_sizeP + 1) [0, 0, 0, 0] blk;
        (ok, blk2) \<leftarrow> pdcp_serialize_control_plane_data_pdu_with_SRB_sn_buffer (Some blk1) (Some (ucast sn));
        Some (ok, ucast (ucast sn :: octet), e1, key_of blk2) }
      else do {
        (ok, blk2) \<leftarrow> pdcp_serialize_user_plane_data_pdu_with_long_sn_buffer (Some blk)
          (Some \<lparr>hdr_dc = (if modeP = PDCP_TRANSMISSION_MODE_DATA then 1 else 0), hdr_sn = sn\<rparr>);
        Some (ok, sn, e1, key_of blk2) })"

definition data_req_non_transparent ::
    "secu_lib \<Rightarrow> bool \<Rightarrow> nat \<Rightarrow> pdcp_transmission_mode \<Rightarrow> octet list \<Rightarrow> pdcp_t \<Rightarrow> octet list option \<Rightarrow> (octet list \<Rightarrow> rlc_op_status)
      \<Rightarrow> data_req_result \<Rightarrow> data_req_result option" where
  "data_req_non_transparent lib srb_flagP rb_idP modeP sdu e blk rlc_data_req r =
     (let pdcp_header_len = (if srb_flagP then 1 else 2);
          pdcp_tailer_len = (if srb_flagP then 4 else 0);
          n = length sdu;
          pdcp_pdu_size = unat (of_nat (n + pdcp_header_len + pdcp_tailer_len) :: 16 word)
      in case blk of
        None \<Rightarrow> Some r
      | Some b \<Rightarrow> do {
          (ok, current_sn, e1, b1) \<leftarrow> data_req_header srb_flagP modeP e b n;
          if \<not> ok then Some (r\<lparr>dr_entity := e1\<rparr>)
          else if current_sn > pdcp_calculate_max_seq_num_for_given_size (seq_num_size e)
          then Some (r\<lparr>dr_entity := e1, dr_freed := True\<rparr>)
          else do {
            b2 \<leftarrow> write_at pdcp_header_len sdu b1;
            b3 \<leftarrow> write_at (pdcp_header_len + n) (replicate pdcp_tailer_len 0) b2;
            e2 \<leftarrow> e1;
            b4 \<leftarrow> (if security_activated e2 \<noteq> 0 \<and> (cipheringAlgorithm e2 \<noteq> 0 \<or> integrityProtAlgorithm e2 \<noteq> 0)
                   then pdcp_apply_security lib e2 srb_flagP (rb_idP mod maxDRB) pdcp_header_len current_sn b3 n
                   else Some b3);
            Some (r\<lparr>dr_entity := Some e2, dr_pdu := Some (take pdcp_pdu_size b4),
                    dr_ret := data_req_status (rlc_data_req (take pdcp_pdu_size b4))\<rparr>) } })"

definition pdcp_data_req ::
    "secu_lib \<Rightarrow> nat \<Rightarrow> nat \<Rightarrow> bool \<Rightarrow> nat \<Rightarrow> pdcp_transmission_mode \<Rightarrow> octet list \<Rightarrow> pdcp_t option \<Rightarrow> octet list option
      \<Rightarrow> (octet list \<Rightarrow> rlc_op_status) \<Rightarrow> data_req_result option" where
  "pdcp_data_req lib max_ip_packet_size nb_rb_mbms_max srb_flagP rb_idP modeP sdu pdcp_p blk rlc_data_req =
     (let n = length sdu;
          r0 = \<lparr>dr_ret = False, dr_configured = None, dr_exit = (n > max_ip_packet_size), dr_entity = pdcp_p,
                dr_pdu = None, dr_freed = False\<rparr>
      in if n = 0 then Some (r0\<lparr>dr_exit := False\<rparr>)
         else if modeP = PDCP_TRANSMISSION_MODE_TRANSPARENT \<and> \<not> rb_idP < nb_rb_mbms_max then Some r0
         else if modeP \<noteq> PDCP_TRANSMISSION_MODE_TRANSPARENT \<and> srb_flagP \<and> \<not> rb_idP < 3 then Some r0
         else if modeP \<noteq> PDCP_TRANSMISSION_MODE_TRANSPARENT \<and> \<not> srb_flagP \<and> \<not> rb_idP < maxDRB then Some r0
         else if pdcp_p = None \<and> modeP \<noteq> PDCP_TRANSMISSION_MODE_TRANSPARENT then Some (r0\<lparr>dr_configured := Some False\<rparr>)
         else
           let r = (if pdcp_p = None then r0 else r0\<lparr>dr_configured := Some True\<rparr>) in
           if modeP = PDCP_TRANSMISSION_MODE_TRANSPARENT then
             (case blk of
                None \<Rightarrow> Some (r\<lparr>dr_ret := data_req_status RLC_OP_STATUS_OUT_OF_RESSOURCES\<rparr>)
              | Some b \<Rightarrow> do {
                  b1 \<leftarrow> write_at 0 sdu b;
                  Some (r\<lparr>dr_pdu := Some (take n b1), dr_ret := data_req_status (rlc_data_req (take n b1))\<rparr>) })
           else
             (case pdcp_p of
                None \<Rightarrow> None
              | Some e \<Rightarrow> data_req_non_transparent lib srb_flagP rb_idP modeP sdu e blk rlc_data_req r))"

section \<open>Data indication (pdcp_data_ind)\<close>

datatype pdcp_delivery =
    To_RRC nat "octet list"
  | To_GTPU nat "octet list"
  | To_SDU_list nat "octet list"

record data_ind_result =
  di_ret :: bool
  di_entity :: "pdcp_t option"
  di_out :: "pdcp_delivery list"
  di_freed :: bool

text \<open>The build and run-time switches that \<open>pdcp_data_ind\<close> reads, and the context of the call.\<close>

record data_ind_ctxt =
  enb_flag :: bool
  ctx_module_id :: nat
  link_gtpu :: bool
  otg_enabled :: bool
  nb_rb_mbms_max :: nat
  new_sdu_ok :: bool

text \<open>Header length, trailer length and sequence number of the PDU.\<close>

definition data_ind_parse :: "bool \<Rightarrow> pdcp_t \<Rightarrow> octet list \<Rightarrow> (nat \<times> nat \<times> 16 word) option" where
  "data_ind_parse srb_flagP e buf =
     (if srb_flagP then do {
        sn \<leftarrow> pdcp_get_sequence_number_of_pdu_with_SRB_sn (Some buf);
        Some (1, 4, ucast sn) }
      else if seq_num_size e = 7 then do {
        sn \<leftarrow> pdcp_get_sequence_number_of_pdu_with_short_sn (Some buf);
        Some (1, 0, ucast sn) }
      else if seq_num_size e = 12 then do {
        sn \<leftarrow> pdcp_get_sequence_number_of_pdu_with_long_sn (Some buf);
        Some (2, 0, sn) }
      else Some (0, 0, 0))"

text \<open>\<open>pdcp_validate_security\<close> when security is on; its status is not used by the caller.\<close>

definition data_ind_security ::
    "secu_lib \<Rightarrow> bool \<Rightarrow> nat \<Rightarrow> nat \<Rightarrow> 16 word \<Rightarrow> octet list \<Rightarrow> nat \<Rightarrow> pdcp_t \<Rightarrow> (octet list \<times> pdcp_t) option" where
  "data_ind_security lib srb_flagP rb_idP pdcp_header_len sequence_number buf sz e =
     (if security_activated e = 1 then do {
        (rc, buf1, e1) \<leftarrow> pdcp_validate_security lib e srb_flagP rb_idP pdcp_header_len sequence_number buf sz;
        Some (buf1, e1) }
      else Some (buf, e))"

text \<open>The last part: to GTP-U in the eNB, otherwise into the SDU list.\<close>

definition data_ind_deliver ::
    "data_ind_ctxt \<Rightarrow> bool \<Rightarrow> nat \<Rightarrow> 16 word \<Rightarrow> nat \<Rightarrow> octet list \<Rightarrow> nat \<Rightarrow> pdcp_t option \<Rightarrow> data_ind_result option" where
  "data_ind_deliver ctxt srb_flagP rbid sequence_number payload_offset buf sz pdcp_p =
     (let payload = take (sz - payload_offset) (drop payload_offset buf);
          done = \<lparr>di_ret = True, di_entity = pdcp_p, di_out = [], di_freed = True\<rparr>
      in if otg_enabled ctxt then Some done
         else if link_gtpu ctxt \<and> enb_flag ctxt \<and> \<not> srb_flagP then Some (done\<lparr>di_out := [To_GTPU (rbid + 4) payload]\<rparr>)
         else if \<not> new_sdu_ok ctxt then Some done
         else case pdcp_p of
           None \<Rightarrow> None
         | Some e \<Rightarrow>
             if sz < payload_offset then None
             else Some (done\<lparr>di_entity := Some (if rlc_mode e = RLC_MODE_AM
                                              then e\<lparr>last_submitted_pdcp_rx_sn := sequence_number\<rparr> else e),
                          di_out := [To_SDU_list (if enb_flag ctxt then rbid + ctx_module_id ctxt * maxDRB else rbid) payload]\<rparr>))"

definition pdcp_data_ind ::
    "secu_lib \<Rightarrow> data_ind_ctxt \<Rightarrow> bool \<Rightarrow> bool \<Rightarrow> nat \<Rightarrow> nat \<Rightarrow> octet list \<Rightarrow> pdcp_t option \<Rightarrow> data_ind_result option" where
  "pdcp_data_ind lib ctxt srb_flagP MBMS_flagP rb_idP sdu_buffer_sizeP buf pdcp_p =
     (let fail = \<lparr>di_ret = False, di_entity = pdcp_p, di_out = [], di_freed = False\<rparr>;
          rbid = (if MBMS_flagP then rb_idP else rb_idP mod maxDRB)
      in if MBMS_flagP \<and> \<not> rb_idP < nb_rb_mbms_max ctxt then Some fail
         else if \<not> MBMS_flagP \<and> \<not> rbid < maxDRB then Some fail
         else if \<not> MBMS_flagP \<and> \<not> rbid > 0 then Some fail
         else if \<not> MBMS_flagP \<and> pdcp_p = None then Some (fail\<lparr>di_freed := True\<rparr>)
         else if sdu_buffer_sizeP = 0 then Some fail
         else if MBMS_flagP then data_ind_deliver ctxt srb_flagP rbid 0 0 buf sdu_buffer_sizeP None
         else case pdcp_p of
           None \<Rightarrow> None
         | Some e \<Rightarrow> do {
             (pdcp_header_len, pdcp_tailer_len, sequence_number) \<leftarrow> data_ind_parse srb_flagP e buf;
             if sdu_buffer_sizeP < pdcp_header_len + pdcp_tailer_len then Some (fail\<lparr>di_freed := True\<rparr>)
             else do {
               (ok, e1_p) \<leftarrow> pdcp_is_rx_seq_number_valid sequence_number (Some e) srb_flagP;
               e1 \<leftarrow> e1_p;
               (buf1, e2) \<leftarrow> data_ind_security lib srb_flagP rb_idP pdcp_header_len sequence_number buf
                 (sdu_buffer_sizeP - pdcp_tailer_len) e1;
               if srb_flagP then
                 Some \<lparr>di_ret = True, di_entity = Some e2,
                       di_out = [To_RRC rbid (take (sdu_buffer_sizeP - pdcp_header_len - pdcp_tailer_len) (drop pdcp_header_len buf1))],
                       di_freed = True\<rparr>
               else data_ind_deliver ctxt srb_flagP rbid sequence_number pdcp_header_len buf1 sdu_buffer_sizeP (Some e2) } })"

section \<open>Configuration\<close>

definition pdcp_config_set_security ::
    "pdcp_t \<Rightarrow> octet \<Rightarrow> octet list option \<Rightarrow> octet list option \<Rightarrow> octet list option \<Rightarrow> pdcp_t" where
  "pdcp_config_set_security e security_modeP enc intk up =
     (if security_modeP \<ge> 0 \<and> security_modeP \<le> 0x77
      then e\<lparr>cipheringAlgorithm := security_modeP AND 0x0f,
             integrityProtAlgorithm := drop_bit 4 security_modeP AND 0xf,
             kRRCenc := enc, kRRCint := intk, kUPenc := up, security_activated := 1\<rparr>
      else e)"

datatype config_action = CONFIG_ACTION_ADD | CONFIG_ACTION_REMOVE | CONFIG_ACTION_MODIFY |
  CONFIG_ACTION_SET_SECURITY_MODE | CONFIG_ACTION_OTHER

definition size_of_rb_sn :: "octet \<Rightarrow> octet" where
  "size_of_rb_sn rb_snP = (if rb_snP = SN_Size_len12bits then 12 else if rb_snP = SN_Size_len7bits then 7 else 5)"

text \<open>\<open>memset (pdcp_pP, 0, sizeof(pdcp_t))\<close>.\<close>

definition zero_entity :: pdcp_t where
  "zero_entity =
     \<lparr>header_compression_profile = 0, is_ue = False, is_srb = False, cipheringAlgorithm = 0, integrityProtAlgorithm = 0,
      kUPenc = None, kRRCint = None, kRRCenc = None, security_activated = 0, rlc_mode = RLC_MODE_NONE, status_report = 0,
      seq_num_size = 0, lcid = 0, rb_id = 0, next_pdcp_tx_sn = 0, next_pdcp_rx_sn = 0,
      next_pdcp_rx_sn_before_integrity = 0, tx_hfn = 0, rx_hfn = 0, rx_hfn_offset = 0,
      last_submitted_pdcp_rx_sn = 0, missing_pdu_bitmap = replicate 512 0, first_missing_pdu = 0\<rparr>"

definition pdcp_config_req_asn1 ::
    "bool \<Rightarrow> pdcp_t option \<Rightarrow> bool \<Rightarrow> rlc_mode_t \<Rightarrow> config_action \<Rightarrow> nat \<Rightarrow> nat \<Rightarrow> octet \<Rightarrow> octet \<Rightarrow> 16 word \<Rightarrow> octet
      \<Rightarrow> octet list option \<Rightarrow> octet list option \<Rightarrow> octet list option \<Rightarrow> pdcp_t option" where
  "pdcp_config_req_asn1 enb pdcp_pP srb_flagP rlc_modeP actionP lc_idP rb_idP rb_snP rb_reportP profileP security_modeP enc intk up =
     (case pdcp_pP of
        None \<Rightarrow> None
      | Some e \<Rightarrow>
          (case actionP of
             CONFIG_ACTION_ADD \<Rightarrow>
               let e1 = e\<lparr>is_ue := \<not> enb, is_srb := srb_flagP, lcid := lc_idP, rb_id := rb_idP,
                          header_compression_profile := profileP, status_report := rb_reportP,
                          seq_num_size := size_of_rb_sn rb_snP, rlc_mode := rlc_modeP,
                          next_pdcp_tx_sn := 0, next_pdcp_rx_sn := 0, next_pdcp_rx_sn_before_integrity := 0,
                          tx_hfn := 0, rx_hfn := 0, last_submitted_pdcp_rx_sn := 4095,
                          first_missing_pdu := - 1, rx_hfn_offset := 0\<rparr>
               in Some (if security_modeP \<noteq> 0xff then pdcp_config_set_security e1 security_modeP enc intk up else e1)
           | CONFIG_ACTION_MODIFY \<Rightarrow>
               let e1 = e\<lparr>header_compression_profile := profileP, status_report := rb_reportP, rlc_mode := rlc_modeP\<rparr>;
                   e2 = (if security_modeP \<noteq> 0xff then pdcp_config_set_security e1 security_modeP enc intk up else e1)
               in Some (e2\<lparr>seq_num_size := size_of_rb_sn rb_snP\<rparr>)
           | CONFIG_ACTION_REMOVE \<Rightarrow> Some zero_entity
           | CONFIG_ACTION_SET_SECURITY_MODE \<Rightarrow> Some (pdcp_config_set_security e security_modeP enc intk up)
           | CONFIG_ACTION_OTHER \<Rightarrow> None))"

text \<open>
  \<open>rrc_pdcp_config_req\<close>: the entity before and after, \<^term>\<open>None\<close> for an entity that is not in the
  collection; the outer option is the failed \<open>DevParam\<close>. \<open>DTCH\<close> is 3.
\<close>

definition config_add :: "bool \<Rightarrow> bool \<Rightarrow> nat \<Rightarrow> pdcp_t \<Rightarrow> pdcp_t" where
  "config_add enb srb_flagP rb_idP e =
     e\<lparr>is_srb := srb_flagP, rb_id := rb_idP, is_ue := \<not> enb, next_pdcp_tx_sn := 0, next_pdcp_rx_sn := 0,
       tx_hfn := 0, rx_hfn := 0, last_submitted_pdcp_rx_sn := 4095,
       seq_num_size := (if rb_idP < 3 then 5 else 12), first_missing_pdu := - 1\<rparr>"

definition rrc_pdcp_config_req ::
    "bool \<Rightarrow> bool \<Rightarrow> config_action \<Rightarrow> nat \<Rightarrow> octet \<Rightarrow> pdcp_t option \<Rightarrow> pdcp_t option option" where
  "rrc_pdcp_config_req enb srb_flagP actionP rb_idP security_modeP pdcp_p =
     (case pdcp_p of
        Some e \<Rightarrow>
          (case actionP of
             CONFIG_ACTION_ADD \<Rightarrow> Some (Some (config_add enb srb_flagP rb_idP e))
           | CONFIG_ACTION_MODIFY \<Rightarrow> Some (Some e)
           | CONFIG_ACTION_REMOVE \<Rightarrow> Some None
           | CONFIG_ACTION_SET_SECURITY_MODE \<Rightarrow>
               Some (Some (if security_modeP \<ge> 0 \<and> security_modeP \<le> 0x77
                           then e\<lparr>cipheringAlgorithm := security_modeP AND 0x0f,
                                  integrityProtAlgorithm := drop_bit 4 security_modeP AND 0xf\<rparr>
                           else e))
           | CONFIG_ACTION_OTHER \<Rightarrow> None)
      | None \<Rightarrow>
          (case actionP of
             CONFIG_ACTION_ADD \<Rightarrow> Some (Some (config_add enb srb_flagP rb_idP zero_entity))
           | _ \<Rightarrow> Some None))"

section \<open>Hyper frame number synchronisation\<close>

text \<open>
  A transmitting and a receiving entity joined by a lossy channel that keeps the order: for every PDU
  the flag says whether it is delivered. The result lists, for the delivered PDUs, the COUNT values
  that transmitter and receiver use for it.
\<close>

fun count_channel :: "bool \<Rightarrow> bool list \<Rightarrow> pdcp_t \<Rightarrow> pdcp_t \<Rightarrow> (32 word \<times> 32 word) list option" where
  "count_channel srb [] t e = Some []"
| "count_channel srb (d # ds) t e = do {
     let (sn, t_p) = pdcp_get_next_tx_seq_number (Some t);
     t1 \<leftarrow> t_p;
     (if d then do {
        (ok, e_p) \<leftarrow> pdcp_is_rx_seq_number_valid sn (Some e) srb;
        e1 \<leftarrow> e_p;
        let (cnt, e2) = pdcp_get_next_count_rx e1 srb sn;
        cs \<leftarrow> count_channel srb ds t1 e2;
        Some ((pdcp_get_next_count_tx t1 srb sn, cnt) # cs) }
      else count_channel srb ds t1 e) }"

text \<open>Fewer than \<open>M\<close> PDUs are lost in a row, \<open>g\<close> of them just before.\<close>

fun no_burst :: "nat \<Rightarrow> nat \<Rightarrow> bool list \<Rightarrow> bool" where
  "no_burst M g [] \<longleftrightarrow> True"
| "no_burst M g (True # ds) \<longleftrightarrow> no_burst M 0 ds"
| "no_burst M g (False # ds) \<longleftrightarrow> g + 1 < M \<and> no_burst M (g + 1) ds"

definition rx_ready :: "bool \<Rightarrow> pdcp_t \<Rightarrow> bool" where
  "rx_ready srb e \<longleftrightarrow> pdcp_is_seq_num_size_valid (Some e) \<and> length (missing_pdu_bitmap e) = 512 \<and>
     rx_hfn_offset e = 0 \<and> (srb \<or> rlc_mode e = RLC_MODE_UM)"

definition sec_fields :: "pdcp_t \<Rightarrow> octet \<times> octet \<times> octet list option \<times> octet list option \<times> octet list option \<times> octet \<times> bool" where
  "sec_fields e = (cipheringAlgorithm e, integrityProtAlgorithm e, kUPenc e, kRRCint e, kRRCenc e, security_activated e, is_ue e)"

lemma rx_step_sync:
  assumes r: "rx_ready srb e" and s: "rx_sync e j" and k: "j \<le> k" "k < j + sn_space e"
  shows "\<exists>e1. pdcp_is_rx_seq_number_valid (of_nat (k mod sn_space e)) (Some e) srb = Some (True, Some e1) \<and>
    rx_ready srb e1 \<and> rx_sync e1 (Suc k) \<and> seq_num_size e1 = seq_num_size e \<and> sec_fields e1 = sec_fields e"
proof -
  let ?sn = "of_nat (k mod sn_space e) :: 16 word"
  have v: "pdcp_is_seq_num_size_valid (Some e)" and bm: "length (missing_pdu_bitmap e) = 512" using r by (simp_all add: rx_ready_def)
  note M = max_seq_num [OF v]
  have lt: "k mod sn_space e < sn_space e" using M by simp
  from less_le_trans [OF lt M(2)] have u: "unat ?sn = k mod sn_space e" by (simp add: unat_of_nat)
  let ?bm = "(missing_pdu_bitmap e)[unat ?sn div 8 := util_mark_nth_bit_of_octet (missing_pdu_bitmap e ! (unat ?sn div 8)) (unat ?sn mod 8)]"
  let ?e1 = "e\<lparr>missing_pdu_bitmap := ?bm\<rparr>"
  have v1: "pdcp_is_seq_num_size_valid (Some ?e1)" "rx_sync ?e1 j" "sn_bits ?e1 = sn_bits e" using v s by simp_all
  have k1: "k < j + sn_space ?e1" using k by simp
  note eq = rx_valid_eq [OF v _ bm, of ?sn srb, unfolded Let_def]
  show ?thesis
  proof (cases srb)
    case True
    obtain sn hfn b where x: "rx_srb (of_nat (k mod sn_space e)) ?e1 =
        (True, ?e1\<lparr>rx_hfn_offset := 0, next_pdcp_rx_sn_before_integrity := b, next_pdcp_rx_sn := sn, rx_hfn := hfn\<rparr>)"
        "rx_sync (?e1\<lparr>next_pdcp_rx_sn := sn, rx_hfn := hfn\<rparr>) (Suc k)"
      using rx_srb_sync [OF v1(1,2) k(1) k1] v1(3) by metis
    let ?e2 = "?e1\<lparr>rx_hfn_offset := 0, next_pdcp_rx_sn_before_integrity := b, next_pdcp_rx_sn := sn, rx_hfn := hfn\<rparr>"
    have "pdcp_is_rx_seq_number_valid ?sn (Some e) srb = Some (True, Some ?e2)"
      using eq u lt True x(1) by simp
    moreover have "rx_ready srb ?e2 \<and> rx_sync ?e2 (Suc k) \<and> seq_num_size ?e2 = seq_num_size e \<and> sec_fields ?e2 = sec_fields e"
      using r x(2) True by (simp add: rx_ready_def rx_sync_def sn_bits_def pdcp_is_seq_num_size_valid_def sec_fields_def)
    ultimately show ?thesis by blast
  next
    case False
    then have um: "rlc_mode ?e1 = RLC_MODE_UM" using r by (simp add: rx_ready_def)
    obtain sn hfn where x: "rx_drb_um (of_nat (k mod sn_space e)) ?e1 = (True, ?e1\<lparr>next_pdcp_rx_sn := sn, rx_hfn := hfn\<rparr>)"
        "rx_sync (?e1\<lparr>next_pdcp_rx_sn := sn, rx_hfn := hfn\<rparr>) (Suc k)"
      using rx_um_sync [OF v1(1,2) k(1) k1] v1(3) by metis
    let ?e2 = "?e1\<lparr>next_pdcp_rx_sn := sn, rx_hfn := hfn\<rparr>"
    have "pdcp_is_rx_seq_number_valid ?sn (Some e) srb = Some (True, Some ?e2)"
      using eq u lt False um x(1) by simp
    moreover have "rx_ready srb ?e2 \<and> rx_sync ?e2 (Suc k) \<and> seq_num_size ?e2 = seq_num_size e \<and> sec_fields ?e2 = sec_fields e"
      using r x(2) by (simp add: rx_ready_def pdcp_is_seq_num_size_valid_def sec_fields_def)
    ultimately show ?thesis by blast
  qed
qed

lemma counts_agree:
  assumes "tx_sync t k" "rx_sync e k" "seq_num_size e = seq_num_size t" "rx_hfn_offset e = 0"
  shows "fst (pdcp_get_next_count_rx e srb sn) = pdcp_get_next_count_tx t srb sn"
  using assms by (simp add: tx_sync_def rx_sync_def pdcp_get_next_count_rx_def pdcp_get_next_count_tx_def sn_bits_def)

lemma count_channel_sync:
  assumes "tx_sync t k" "rx_sync e (k - g)" "g \<le> k" "g < sn_space e" "rx_ready srb e" "seq_num_size t = seq_num_size e"
    and "no_burst (sn_space e) g ds"
  shows "\<exists>cs. count_channel srb ds t e = Some cs \<and> length cs = length (filter (\<lambda>d. d) ds) \<and> (\<forall>(a, b) \<in> set cs. a = b)"
  using assms
proof (induction ds arbitrary: t e k g)
  case (Cons d ds)
  have bits: "sn_bits t = sn_bits e" and vt: "pdcp_is_seq_num_size_valid (Some t)"
    using Cons.prems(5,6) by (simp_all add: sn_bits_def rx_ready_def pdcp_is_seq_num_size_valid_def)
  obtain t1 where t1: "pdcp_get_next_tx_seq_number (Some t) = (of_nat (k mod sn_space e), Some t1)"
      "tx_sync t1 (Suc k)" "seq_num_size t1 = seq_num_size e"
    using next_tx_sync [OF vt Cons.prems(1)] bits Cons.prems(6) by auto
  have bits1: "sn_bits t1 = sn_bits e" using t1(3) by (simp add: sn_bits_def)
  show ?case
  proof (cases d)
    case True
    have "k < (k - g) + sn_space e" using Cons.prems(3,4) by linarith
    from rx_step_sync [OF Cons.prems(5,2) _ this] obtain e1 where
      e1: "pdcp_is_rx_seq_number_valid (of_nat (k mod sn_space e)) (Some e) srb = Some (True, Some e1)"
        "rx_ready srb e1" "rx_sync e1 (Suc k)" "seq_num_size e1 = seq_num_size e" by auto
    obtain cnt e2 where c: "pdcp_get_next_count_rx e1 srb (of_nat (k mod sn_space e)) = (cnt, e2)" by fastforce
    have e2: "e2 = e1\<lparr>rx_hfn_offset := 0\<rparr>" using c by (simp add: pdcp_get_next_count_rx_def Let_def)
    have bits2: "sn_bits e2 = sn_bits e" using e1(4) e2 by (simp add: sn_bits_def)
    have cnt: "cnt = pdcp_get_next_count_tx t1 srb (of_nat (k mod sn_space e))"
      using counts_agree [OF t1(2) e1(3)] e1(2,4) t1(3) c by (metis fst_conv rx_ready_def)
    have "\<exists>cs. count_channel srb ds t1 e2 = Some cs \<and> length cs = length (filter (\<lambda>d. d) ds) \<and> (\<forall>(a, b) \<in> set cs. a = b)"
    proof (rule Cons.IH [OF t1(2), of e2 0])
      show "rx_sync e2 (Suc k - 0)" "rx_ready srb e2" "seq_num_size t1 = seq_num_size e2" "0 < sn_space e2"
        using e1 e2 t1(3) by (simp_all add: rx_ready_def pdcp_is_seq_num_size_valid_def)
      show "no_burst (sn_space e2) 0 ds" using Cons.prems(7) True bits2 by simp
    qed simp
    then show ?thesis using t1(1) e1(1) c cnt True by (auto simp: Let_def)
  next
    case False
    have "\<exists>cs. count_channel srb ds t1 e = Some cs \<and> length cs = length (filter (\<lambda>d. d) ds) \<and> (\<forall>(a, b) \<in> set cs. a = b)"
      by (rule Cons.IH [OF t1(2), of e "g + 1"]) (use Cons.prems t1(3) False in simp_all)
    then show ?thesis using t1(1) False by (simp add: Let_def)
  qed
qed simp

section \<open>COUNT values\<close>

lemma or_low_bits: "unat s < 2 ^ n \<Longrightarrow> push_bit n h OR s = push_bit n h + s" for h s :: "32 word"
proof -
  assume s: "unat s < 2 ^ n"
  have b: "bit s i \<Longrightarrow> i < n" for i
  proof -
    assume b: "bit s i"
    have "take_bit n s = s" using s by (simp add: word_unat_eq_iff unsigned_take_bit_eq take_bit_nat_eq_self_iff)
    then show "i < n" using b bit_take_bit_iff [of n s i] by simp
  qed
  have "push_bit n h AND s = 0"
    by (rule bit_word_eqI) (auto simp: bit_and_iff bit_push_bit_iff dest: b)
  then show ?thesis by (simp add: disjunctive_add_eq_or)
qed

text \<open>The COUNT of PDU \<open>k\<close>: the hyper frame number has been stepped already when the number wraps.\<close>

definition count_of :: "nat \<Rightarrow> nat \<Rightarrow> nat" where
  "count_of M k = (Suc k div M) * M + k mod M"

lemma count_of_cases: "0 < M \<Longrightarrow> count_of M k = (if Suc (k mod M) = M then k + M else k)"
proof (cases "Suc (k mod M) = M")
  case True
  then have "count_of M k = Suc (k div M) * M + k mod M" by (simp add: count_of_def div_Suc mod_Suc)
  also have "\<dots> = (k div M * M + k mod M) + M" by simp
  finally show ?thesis using True by simp
next
  case False
  then have "Suc k div M = k div M" by (simp add: div_Suc mod_Suc)
  then show ?thesis using False by (simp add: count_of_def)
qed

lemma count_of_inj: "0 < M \<Longrightarrow> count_of M i = count_of M j \<Longrightarrow> i = j"
  by (auto simp: count_of_cases split: if_splits)

lemma push_bit_of_nat: "push_bit n (of_nat a :: 32 word) = of_nat (a * 2 ^ n)"
  by (simp add: push_bit_eq_mult)

lemma count_tx_value:
  assumes t: "tx_sync t (Suc k)" and sz: "srb \<and> seq_num_size t = 5 \<or> \<not> srb \<and> seq_num_size t = 12"
  shows "pdcp_get_next_count_tx t srb (of_nat (k mod sn_space t)) = of_nat (count_of (sn_space t) k)"
proof -
  let ?n = "sn_bits t"
  have n: "?n = 5 \<and> srb \<or> ?n = 12 \<and> \<not> srb" using sz by (auto simp: sn_bits_def)
  have mask5: "(of_nat r :: 16 word) AND 0x1F = of_nat r" if "r < 32" for r
  proof -
    have "(0x1F :: 16 word) = mask 5" by (simp add: mask_eq_exp_minus_1)
    moreover have "take_bit 5 r = r" using that by (simp add: take_bit_nat_eq_self_iff)
    then have "take_bit 5 (of_nat r :: 16 word) = of_nat r" by (simp add: of_nat_take_bit [symmetric])
    ultimately show ?thesis by (simp only: take_bit_eq_mask)
  qed
  have mask12: "(of_nat r :: 16 word) AND 0xFFF = of_nat r" if "r < 4096" for r
  proof -
    have "(0xFFF :: 16 word) = mask 12" by (simp add: mask_eq_exp_minus_1)
    moreover have "take_bit 12 r = r" using that by (simp add: take_bit_nat_eq_self_iff)
    then have "take_bit 12 (of_nat r :: 16 word) = of_nat r" by (simp add: of_nat_take_bit [symmetric])
    ultimately show ?thesis by (simp only: take_bit_eq_mask)
  qed
  have lt: "k mod 2 ^ ?n < 2 ^ ?n" by simp
  then have u: "ucast (of_nat (k mod 2 ^ ?n) :: 16 word) = (of_nat (k mod 2 ^ ?n) :: 32 word)"
    using n by (auto simp: unsigned_of_nat take_bit_nat_eq_self)
  have "unat (of_nat (k mod 2 ^ ?n) :: 32 word) < 2 ^ ?n"
    using n by (auto simp: unat_of_nat)
  note orl = or_low_bits [OF this, of "tx_hfn t"]
  have h: "tx_hfn t = of_nat (Suc k div 2 ^ ?n)" using t by (simp add: tx_sync_def)
  have "pdcp_get_next_count_tx t srb (of_nat (k mod 2 ^ ?n)) = push_bit ?n (tx_hfn t) OR of_nat (k mod 2 ^ ?n)"
    using n sz u mask5 [of "k mod 32"] mask12 [of "k mod 4096"]
    by (auto simp: pdcp_get_next_count_tx_def SN_Size_len7bits_def)
  also note orl
  also note h
  finally show ?thesis by (simp add: push_bit_of_nat count_of_def)
qed

section \<open>Data path, end to end\<close>

text \<open>
  Two entities at the ends of a bearer: same algorithms, keys and sequence number size, one of them
  in the UE. With security on, the keys have the length the algorithms read.
\<close>

definition peers :: "pdcp_t \<Rightarrow> pdcp_t \<Rightarrow> bool" where
  "peers t e \<longleftrightarrow> seq_num_size t = seq_num_size e \<and> cipheringAlgorithm t = cipheringAlgorithm e \<and>
     integrityProtAlgorithm t = integrityProtAlgorithm e \<and> kUPenc t = kUPenc e \<and> kRRCint t = kRRCint e \<and>
     kRRCenc t = kRRCenc e \<and> security_activated t = security_activated e \<and> is_ue t = (\<not> is_ue e) \<and>
     (security_activated t = 0 \<or> security_activated t = 1 \<and> 16 \<le> length (key_of (kUPenc t)) \<and>
        16 \<le> length (key_of (kRRCenc t)) \<and> 32 \<le> length (key_of (kRRCint t)))"

text \<open>The parameters of the cipher call on both sides.\<close>

definition data_params :: "pdcp_t \<Rightarrow> bool \<Rightarrow> nat \<Rightarrow> 32 word \<Rightarrow> bool \<Rightarrow> nat \<Rightarrow> stream_cipher" where
  "data_params e srb rbid cnt ue n =
     \<lparr>sc_key = (if srb then key_of (kRRCenc e) else key_of (kUPenc e)), key_length = 16, sc_count = cnt,
      bearer = of_int (int rbid - 1), direction = (if ue then 0 else 1), blength = of_nat (8 * n)\<rparr>"

lemma apply_security_ok:
  assumes rb: "rbid < NB_RB_MAX" and ctr: "ctr_ok (aes_ctr lib)" and h: "length hdr = hlen" "0 < hlen" "hlen \<le> 2"
    and n: "0 < length sdu" "length sdu \<le> 8188" and rest: "13 \<le> length rest"
    and keys: "16 \<le> length (key_of (kUPenc t))" "16 \<le> length (key_of (kRRCenc t))" "32 \<le> length (key_of (kRRCint t))"
  shows "\<exists>m1 c rc. pdcp_apply_security lib t srb rbid hlen sn (hdr @ sdu @ rest) (length sdu) = Some (hdr @ c) \<and>
    stream_encrypt (aes_ctr lib) (cipheringAlgorithm t)
      (data_params t srb rbid (pdcp_get_next_count_tx t srb sn) (is_ue t) (length sdu)) m1 = Some (rc, c) \<and>
    take (length sdu) m1 = sdu \<and> length m1 = length sdu + length rest \<and> length c = length m1"
proof -
  let ?n = "length sdu"
  let ?sc = "data_params t srb rbid (pdcp_get_next_count_tx t srb sn) (is_ue t) ?n"
  have enc: "\<exists>rc c. stream_encrypt (aes_ctr lib) (cipheringAlgorithm t) ?sc (sdu @ r) = Some (rc, c) \<and> length c = ?n + length r"
    if "13 \<le> length r" for r
    using stream_encrypt_total [of ?sc ?n "cipheringAlgorithm t" "sdu @ r" "aes_ctr lib"] n ctr keys that
    by (simp add: data_params_def)
  show ?thesis
  proof (cases srb)
    case False
    obtain rc c where c: "stream_encrypt (aes_ctr lib) (cipheringAlgorithm t) ?sc (sdu @ rest) = Some (rc, c)" "length c = ?n + length rest"
      using enc [OF rest] by blast
    have "pdcp_apply_security lib t srb rbid hlen sn (hdr @ sdu @ rest) ?n = Some (hdr @ c)"
      using c(1) rb h False by (simp add: pdcp_apply_security_def data_params_def)
    then show ?thesis using c by (intro exI [of _ "sdu @ rest"] exI [of _ c] exI [of _ rc]) simp
  next
    case True
    let ?sci = "\<lparr>sc_key = drop 16 (key_of (kRRCint t)), key_length = 16, sc_count = pdcp_get_next_count_tx t srb sn,
        bearer = of_int (int rbid - 1), direction = (if is_ue t then 0 else 1), blength = of_nat (8 * (hlen + ?n))\<rparr>"
    have "\<exists>rci mac. stream_compute_integrity (aes_cmac lib) (integrityProtAlgorithm t) ?sci (hdr @ sdu @ rest) = Some (rci, mac) \<and>
        length mac \<le> 4"
      by (rule compute_integrity_total [of _ "hlen + ?n"]) (use n h rest keys in auto)
    then obtain rci mac where mac:
        "stream_compute_integrity (aes_cmac lib) (integrityProtAlgorithm t) ?sci (hdr @ sdu @ rest) = Some (rci, mac)" "length mac \<le> 4"
      by blast
    let ?r = "if rci = 0 then mac @ drop (length mac) rest else rest"
    have w: "(if rci = 0 then write_at (hlen + ?n) mac (hdr @ sdu @ rest) else Some (hdr @ sdu @ rest)) = Some (hdr @ sdu @ ?r)"
      using write_at_split [of "hdr @ sdu" "hlen + ?n" mac rest] mac(2) rest h by simp
    have lr: "length ?r = length rest" using mac(2) rest by simp
    obtain rc c where c: "stream_encrypt (aes_ctr lib) (cipheringAlgorithm t) ?sc (sdu @ ?r) = Some (rc, c)" "length c = ?n + length rest"
      using enc [of ?r] lr rest by auto
    have "pdcp_apply_security lib t srb rbid hlen sn (hdr @ sdu @ rest) ?n = Some (hdr @ c)"
      using c(1) rb h True mac(1) w
      by (simp only: pdcp_apply_security_def data_params_def Let_def if_True stream_cipher.update_convs if_False not_not)
         simp
    then show ?thesis using c lr by (intro exI [of _ "sdu @ ?r"] exI [of _ c] exI [of _ rc]) simp
  qed
qed

lemma validate_security_ok:
  assumes rb: "rbid < NB_RB_MAX" and ctr: "ctr_ok (aes_ctr lib)" and h: "length hdr = hlen" "0 < hlen" "hlen \<le> 2"
    and n: "0 < n" "n \<le> 8188"
    and enc: "stream_encrypt (aes_ctr lib) (cipheringAlgorithm e) (data_params e srb rbid cnt (\<not> is_ue e) n) m1 = Some (rc, c)"
    and cnt: "fst (pdcp_get_next_count_rx e srb sn) = cnt"
    and m: "n \<le> length m1" "take n m2 = take n c" "n + 13 \<le> length m2"
    and keys: "16 \<le> length (key_of (kUPenc e))" "16 \<le> length (key_of (kRRCenc e))" "32 \<le> length (key_of (kRRCint e))"
  shows "\<exists>rc' m2'. pdcp_validate_security lib e srb rbid hlen sn (hdr @ m2) (hlen + n) =
      Some (rc', hdr @ m2', e\<lparr>rx_hfn_offset := 0\<rparr>) \<and> take n m2' = take n m1"
proof -
  let ?sc = "data_params e srb rbid cnt (\<not> is_ue e) n"
  have "\<exists>m2'. stream_encrypt (aes_ctr lib) (cipheringAlgorithm e) ?sc m2 = Some (rc, m2') \<and> take n m2' = take n m1"
    by (rule stream_decrypt_prefix [OF enc ctr]) (use n m in \<open>auto simp: data_params_def\<close>)
  then obtain m2' where m2': "stream_encrypt (aes_ctr lib) (cipheringAlgorithm e) ?sc m2 = Some (rc, m2')" "take n m2' = take n m1"
    by blast
  have "\<exists>rc m'. stream_encrypt (aes_ctr lib) (cipheringAlgorithm e) ?sc m2 = Some (rc, m') \<and> length m' = length m2"
    by (rule stream_encrypt_total [of _ n]) (use n m keys ctr in \<open>auto simp: data_params_def\<close>)
  then have len: "length m2' = length m2" using m2'(1) by auto
  have c: "pdcp_get_next_count_rx e srb sn = (cnt, e\<lparr>rx_hfn_offset := 0\<rparr>)"
    using cnt by (simp add: pdcp_get_next_count_rx_def Let_def)
  let ?sci = "?sc\<lparr>sc_key := drop 16 (key_of (kRRCint e)), blength := of_nat (8 * (hlen + n))\<rparr>"
  have "\<exists>rc2. stream_check_integrity (aes_cmac lib) (integrityProtAlgorithm e) ?sci (hdr @ m2') (drop (hlen + n) (hdr @ m2')) = Some rc2"
    by (rule check_integrity_total [of _ "hlen + n"]) (use n h m keys len in \<open>auto simp: data_params_def\<close>)
  then obtain rc2 where rc2: "stream_check_integrity (aes_cmac lib) (integrityProtAlgorithm e) ?sci (hdr @ m2') (drop (hlen + n) (hdr @ m2')) = Some rc2"
    by blast
  have sc: "\<lparr>sc_key = (if srb then key_of (kRRCenc e) else key_of (kUPenc e)), key_length = 16, sc_count = cnt,
      bearer = of_int (int rbid - 1), direction = (if is_ue e then 1 else 0), blength = of_nat (8 * (hlen + n - hlen))\<rparr> = ?sc"
    by (simp add: data_params_def)
  have val: "pdcp_validate_security lib e srb rbid hlen sn (hdr @ m2) (hlen + n) =
      Some (if srb \<and> rc2 \<noteq> 0 then - 1 else 0, hdr @ m2', e\<lparr>rx_hfn_offset := 0\<rparr>)"
    unfolding pdcp_validate_security_def c Let_def prod.case sc
    using rb m2'(1) rc2 h by (cases srb) simp_all
  then show ?thesis using m2'(2) by blast
qed

text \<open>The header octets of the two formats.\<close>

definition pdu_header :: "bool \<Rightarrow> 16 word \<Rightarrow> octet list" where
  "pdu_header srb sn =
     (if srb then [ucast sn AND 0x1F] else [ucast (drop_bit 8 sn AND 0xFF) OR 0x80, ucast (sn AND 0xFF)])"

lemma pdu_header_parse:
  assumes "srb \<and> unat sn < 32 \<and> seq_num_size e = 5 \<or> \<not> srb \<and> unat sn < 4096 \<and> seq_num_size e = 12"
  shows "data_ind_parse srb e (pdu_header srb sn @ r) = Some (if srb then 1 else 2, if srb then 4 else 0, sn)"
proof (cases srb)
  case True
  then have sn: "unat sn < 32" using assms by simp
  have m: "(0x1F :: octet) = mask 5" by (simp add: mask_eq_exp_minus_1)
  have "take_bit 5 sn = sn" using sn by (simp add: word_unat_eq_iff unsigned_take_bit_eq take_bit_nat_eq_self)
  then have b: "bit sn i \<Longrightarrow> i < 5" for i using bit_take_bit_iff [of 5 sn i] by simp
  have "ucast (ucast sn AND 0x1F AND 0x1F :: octet) = sn"
    unfolding m by (rule bit_word_eqI) (auto simp: bit_simps simp del: mask_numeral dest: b)
  then show ?thesis using True
    by (simp add: data_ind_parse_def pdu_header_def pdcp_get_sequence_number_of_pdu_with_SRB_sn_def)
next
  case False
  then have sn: "unat sn < 4096" and s: "seq_num_size e = 12" using assms by simp_all
  show ?thesis using False s long_sn_octets(2) [OF sn]
    by (simp add: data_ind_parse_def pdu_header_def pdcp_get_sequence_number_of_pdu_with_long_sn_def)
qed

lemma ucast_octet_id: "ucast (ucast x :: octet) = x" if "unat x < 256" for x :: "16 word"
proof -
  have "take_bit 8 x = x" using that by (simp add: word_unat_eq_iff unsigned_take_bit_eq take_bit_nat_eq_self)
  then have b: "bit x i \<Longrightarrow> i < 8" for i using bit_take_bit_iff [of 8 x i] by simp
  show ?thesis by (rule bit_word_eqI) (auto simp: bit_simps dest: b)
qed

lemma data_req_header_ok:
  assumes t: "tx_sync t k" and v: "pdcp_is_seq_num_size_valid (Some t)" and sz: "srb \<and> seq_num_size t = 5 \<or> \<not> srb \<and> seq_num_size t = 12"
    and b: "n + 16 \<le> length blk"
  shows "\<exists>t1 r. data_req_header srb PDCP_TRANSMISSION_MODE_DATA t blk n =
      Some (True, of_nat (k mod sn_space t), Some t1, pdu_header srb (of_nat (k mod sn_space t)) @ r) \<and>
    tx_sync t1 (Suc k) \<and> length (pdu_header srb (of_nat (k mod sn_space t)) @ r) = length blk \<and>
    (\<exists>sn hfn. t1 = t\<lparr>next_pdcp_tx_sn := sn, tx_hfn := hfn\<rparr>)"
proof -
  let ?sn = "of_nat (k mod sn_space t) :: 16 word"
  obtain t1 where t1: "pdcp_get_next_tx_seq_number (Some t) = (?sn, Some t1)" "tx_sync t1 (Suc k)"
      "\<exists>sn hfn. t1 = t\<lparr>next_pdcp_tx_sn := sn, tx_hfn := hfn\<rparr>" using next_tx_sync [OF v t] by blast
  show ?thesis
  proof (cases srb)
    case True
    have bits: "sn_bits t = 5" using sz True by (simp add: sn_bits_def)
    then have u: "unat ?sn < 32" by (simp add: unat_of_nat)
    have uu: "ucast (ucast ?sn :: octet) = ?sn" by (rule ucast_octet_id) (use u in simp)
    obtain w where w: "write_at (n + 1) [0, 0, 0, 0] blk = Some w" "length w = length blk"
      using b by (auto simp: write_at_def)
    then obtain w0 ws where ws: "w = w0 # ws" using b by (cases w) auto
    have "data_req_header srb PDCP_TRANSMISSION_MODE_DATA t blk n = Some (True, ?sn, Some t1, pdu_header srb ?sn @ ws)"
      using True t1(1) w(1) ws uu
      by (simp add: data_req_header_def pdcp_serialize_control_plane_data_pdu_with_SRB_sn_buffer_def pdu_header_def key_of_def)
    then show ?thesis using t1(2,3) w(2) ws True by (intro exI [of _ t1] exI [of _ ws]) (simp add: pdu_header_def)
  next
    case False
    obtain b0 b1 r where blk: "blk = b0 # b1 # r" using b by (cases blk; cases "tl blk") auto
    have "data_req_header srb PDCP_TRANSMISSION_MODE_DATA t blk n = Some (True, ?sn, Some t1, pdu_header srb ?sn @ r)"
      using False t1(1) blk
      by (simp add: data_req_header_def pdcp_serialize_user_plane_data_pdu_with_long_sn_buffer_def pdu_header_def key_of_def)
    then show ?thesis using t1(2,3) False blk by (intro exI [of _ t1] exI [of _ r]) (simp add: pdu_header_def)
  qed
qed

abbreviation hlen_of :: "bool \<Rightarrow> nat" where "hlen_of srb \<equiv> (if srb then 1 else 2)"
abbreviation tlen_of :: "bool \<Rightarrow> nat" where "tlen_of srb \<equiv> (if srb then 4 else 0)"

definition secured :: "pdcp_t \<Rightarrow> bool" where
  "secured t \<longleftrightarrow> security_activated t \<noteq> 0 \<and> (cipheringAlgorithm t \<noteq> 0 \<or> integrityProtAlgorithm t \<noteq> 0)"

lemma pdu_header_length [simp]: "length (pdu_header srb sn) = hlen_of srb"
  by (simp add: pdu_header_def)

lemma sn_not_above_max:
  assumes v: "pdcp_is_seq_num_size_valid (Some t)"
  shows "\<not> (of_nat (k mod sn_space t) :: 16 word) > pdcp_calculate_max_seq_num_for_given_size (seq_num_size t)"
    "unat (of_nat (k mod sn_space t) :: 16 word) < sn_space t"
proof -
  have lt: "k mod sn_space t < sn_space t" using max_seq_num [OF v] by simp
  from less_le_trans [OF lt max_seq_num(2) [OF v]] have u: "unat (of_nat (k mod sn_space t) :: 16 word) = k mod sn_space t"
    by (simp add: unat_of_nat)
  then show "unat (of_nat (k mod sn_space t) :: 16 word) < sn_space t" using lt by simp
  then show "\<not> (of_nat (k mod sn_space t) :: 16 word) > pdcp_calculate_max_seq_num_for_given_size (seq_num_size t)"
    using max_seq_num(1) [OF v] by (simp add: word_less_nat_alt)
qed

lemma data_req_pdu:
  assumes t: "tx_sync t k" and v: "pdcp_is_seq_num_size_valid (Some t)" and sz: "srb \<and> seq_num_size t = 5 \<or> \<not> srb \<and> seq_num_size t = 12"
    and p: "peers t e" and ctr: "ctr_ok (aes_ctr lib)" and rb: "rb < maxDRB" and n: "0 < length sdu" "length sdu \<le> 8188"
    and b: "length sdu + 16 \<le> length blk" and sn: "sn = of_nat (k mod sn_space t)"
  shows "\<exists>t1 c m1 rc. data_req_non_transparent lib srb rb PDCP_TRANSMISSION_MODE_DATA sdu t (Some blk) rlc r =
      Some (r\<lparr>dr_entity := Some t1, dr_pdu := Some (pdu_header srb sn @ take (length sdu + tlen_of srb) c),
              dr_ret := data_req_status (rlc (pdu_header srb sn @ take (length sdu + tlen_of srb) c))\<rparr>) \<and>
    tx_sync t1 (Suc k) \<and> (\<exists>sn hfn. t1 = t\<lparr>next_pdcp_tx_sn := sn, tx_hfn := hfn\<rparr>) \<and>
    take (length sdu) m1 = sdu \<and> length sdu + tlen_of srb \<le> length c \<and> length m1 = length c \<and>
    (if secured t then stream_encrypt (aes_ctr lib) (cipheringAlgorithm t)
       (data_params t srb rb (pdcp_get_next_count_tx t1 srb sn) (is_ue t) (length sdu)) m1 = Some (rc, c) else c = m1)"
proof -
  let ?n = "length sdu" and ?h = "pdu_header srb sn" and ?hl = "hlen_of srb" and ?tl = "tlen_of srb"
  obtain t1 r0 where hd: "data_req_header srb PDCP_TRANSMISSION_MODE_DATA t blk ?n = Some (True, sn, Some t1, ?h @ r0)"
      "tx_sync t1 (Suc k)" "length (?h @ r0) = length blk" and t1: "\<exists>sn hfn. t1 = t\<lparr>next_pdcp_tx_sn := sn, tx_hfn := hfn\<rparr>"
    using data_req_header_ok [OF t v sz b] sn by blast
  let ?rest = "replicate ?tl 0 @ drop ?tl (drop ?n r0)"
  have lr: "?n + 14 \<le> length r0" using hd(3) b by (simp split: if_splits)
  have w1: "write_at ?hl sdu (?h @ r0) = Some (?h @ sdu @ drop ?n r0)"
    by (rule write_at_split) (use lr in simp_all)
  have w2: "write_at (?hl + ?n) (replicate ?tl 0) (?h @ sdu @ drop ?n r0) = Some (?h @ sdu @ ?rest)"
    using write_at_split [of "?h @ sdu" "?hl + ?n" "replicate ?tl 0" "drop ?n r0"] lr by (cases srb) simp_all
  have rest: "13 \<le> length ?rest" "?tl \<le> length ?rest" using lr by auto
  have size16: "unat (of_nat (?n + ?hl + ?tl) :: 16 word) = ?n + ?hl + ?tl"
  proof -
    have "?n + ?hl + ?tl < 2 ^ 16" using n by simp
    then show ?thesis by (simp only: unat_of_nat) simp
  qed
  have fields: "security_activated t1 = security_activated t" "cipheringAlgorithm t1 = cipheringAlgorithm t"
      "integrityProtAlgorithm t1 = integrityProtAlgorithm t" "kUPenc t1 = kUPenc t" "kRRCenc t1 = kRRCenc t"
      "kRRCint t1 = kRRCint t" "is_ue t1 = is_ue t"
    using t1 by auto
  have "\<exists>c m1 rc. (if secured t then pdcp_apply_security lib t1 srb (rb mod maxDRB) ?hl sn (?h @ sdu @ ?rest) ?n
        else Some (?h @ sdu @ ?rest)) = Some (?h @ c) \<and> take ?n m1 = sdu \<and> ?n + ?tl \<le> length c \<and> length m1 = length c \<and>
      (if secured t then stream_encrypt (aes_ctr lib) (cipheringAlgorithm t)
         (data_params t srb rb (pdcp_get_next_count_tx t1 srb sn) (is_ue t) ?n) m1 = Some (rc, c) else c = m1)"
  proof (cases "secured t")
    case True
    then have keys: "16 \<le> length (key_of (kUPenc t1))" "16 \<le> length (key_of (kRRCenc t1))" "32 \<le> length (key_of (kRRCint t1))"
      using p by (auto simp: secured_def peers_def fields)
    have rb': "rb mod maxDRB = rb" "rb < NB_RB_MAX" using rb by (simp_all add: NB_RB_MAX_def)
    have hl: "0 < ?hl" "?hl \<le> 2" by simp_all
    have dp: "data_params t1 = data_params t" by (simp add: data_params_def fields fun_eq_iff)
    obtain m1 c rc where "pdcp_apply_security lib t1 srb (rb mod maxDRB) ?hl sn (?h @ sdu @ ?rest) ?n = Some (?h @ c)"
        "stream_encrypt (aes_ctr lib) (cipheringAlgorithm t)
          (data_params t srb rb (pdcp_get_next_count_tx t1 srb sn) (is_ue t) ?n) m1 = Some (rc, c)"
        "take ?n m1 = sdu" "length m1 = ?n + length ?rest" "length c = length m1"
      using apply_security_ok [OF rb'(2) ctr pdu_header_length hl n rest(1) keys, of srb sn] unfolding rb'(1) dp fields by metis
    then show ?thesis using True rest by (intro exI [of _ c] exI [of _ m1] exI [of _ rc]) simp
  next
    case False
    then show ?thesis using rest by (intro exI [of _ "sdu @ ?rest"]) simp
  qed
  then obtain c m1 rc where c: "(if secured t then pdcp_apply_security lib t1 srb (rb mod maxDRB) ?hl sn (?h @ sdu @ ?rest) ?n
        else Some (?h @ sdu @ ?rest)) = Some (?h @ c)" "take ?n m1 = sdu" "?n + ?tl \<le> length c" "length m1 = length c"
      "if secured t then stream_encrypt (aes_ctr lib) (cipheringAlgorithm t)
         (data_params t srb rb (pdcp_get_next_count_tx t1 srb sn) (is_ue t) ?n) m1 = Some (rc, c) else c = m1"
    by blast
  have "data_req_non_transparent lib srb rb PDCP_TRANSMISSION_MODE_DATA sdu t (Some blk) rlc r =
      Some (r\<lparr>dr_entity := Some t1, dr_pdu := Some (?h @ take (?n + ?tl) c), dr_ret := data_req_status (rlc (?h @ take (?n + ?tl) c))\<rparr>)"
  proof -
    have sec: "(security_activated t1 \<noteq> 0 \<and> (cipheringAlgorithm t1 \<noteq> 0 \<or> integrityProtAlgorithm t1 \<noteq> 0)) = secured t"
      by (simp add: secured_def fields)
    have max: "(sn > pdcp_calculate_max_seq_num_for_given_size (seq_num_size t)) = False"
      using sn_not_above_max(1) [OF v, of k] sn by simp
    have tk: "take (?n + ?hl + ?tl) (?h @ c) = ?h @ take (?n + ?tl) c" by simp
    show ?thesis
      by (simp only: data_req_non_transparent_def Let_def option.case hd(1) Option.bind.simps prod.case not_True_eq_False
          if_False max w1 w2 sec c(1) size16 tk)
  qed
  then show ?thesis using c t1 hd(2) by (intro exI [of _ t1] exI [of _ c] exI [of _ m1] exI [of _ rc]) simp
qed

definition delivery :: "data_ind_ctxt \<Rightarrow> bool \<Rightarrow> nat \<Rightarrow> octet list \<Rightarrow> pdcp_delivery" where
  "delivery ctxt srb rb sdu =
     (if srb then To_RRC rb sdu
      else if link_gtpu ctxt \<and> enb_flag ctxt then To_GTPU (rb + 4) sdu
      else To_SDU_list (if enb_flag ctxt then rb + ctx_module_id ctxt * maxDRB else rb) sdu)"

lemma peers_sec_fields: "peers t e \<Longrightarrow> sec_fields e1 = sec_fields e \<Longrightarrow> seq_num_size e1 = seq_num_size e \<Longrightarrow> peers t e1"
  unfolding peers_def sec_fields_def prod.inject by (elim conjE) (simp only: simp_thms)

lemma data_ind_security_ok:
  assumes p: "peers t e1" and ctr: "ctr_ok (aes_ctr lib)" and rb: "rb < maxDRB" and n: "0 < n" "n \<le> 8188"
    and cnt: "fst (pdcp_get_next_count_rx e1 srb sn) = cnt"
    and enc: "if secured t then stream_encrypt (aes_ctr lib) (cipheringAlgorithm t) (data_params t srb rb cnt (is_ue t) n) m1 = Some (rc, c)
              else c = m1"
    and m: "n \<le> length m1" "take n m2 = take n c" "n + 13 \<le> length m2" and off: "rx_hfn_offset e1 = 0"
  shows "\<exists>m2'. data_ind_security lib srb rb (hlen_of srb) sn (pdu_header srb sn @ m2) (hlen_of srb + n) e1 =
      Some (pdu_header srb sn @ m2', e1) \<and> take n m2' = take n m1"
proof (cases "security_activated t = 0")
  case True
  then have "security_activated e1 = 0" "\<not> secured t" using p by (simp_all add: peers_def secured_def)
  then show ?thesis using enc m by (simp add: data_ind_security_def)
next
  case False
  then have sa: "security_activated e1 = 1" "security_activated t = 1"
    and keys: "16 \<le> length (key_of (kUPenc e1))" "16 \<le> length (key_of (kRRCenc e1))" "32 \<le> length (key_of (kRRCint e1))"
    and alg: "cipheringAlgorithm t = cipheringAlgorithm e1" and ue: "is_ue t = (\<not> is_ue e1)"
    using p by (auto simp: peers_def)
  have dp: "data_params t = data_params e1" using p by (simp add: data_params_def peers_def fun_eq_iff)
  have rb': "rb < NB_RB_MAX" using rb by (simp add: NB_RB_MAX_def)
  have "\<exists>rc. stream_encrypt (aes_ctr lib) (cipheringAlgorithm e1) (data_params e1 srb rb cnt (\<not> is_ue e1) n) m1 = Some (rc, c)"
  proof (cases "secured t")
    case True
    then show ?thesis using enc alg ue dp by auto
  next
    case not_sec: False
    then have "cipheringAlgorithm e1 = 0" "c = m1" using sa alg enc by (auto simp: secured_def)
    moreover have "blength (data_params e1 srb rb cnt (\<not> is_ue e1) n) = of_nat (8 * n)" "8 * n + 31 < 2 ^ 32"
      using n by (simp_all add: data_params_def)
    ultimately show ?thesis using unat_blength(1) [of "data_params e1 srb rb cnt (\<not> is_ue e1) n" n] m(1)
      by (simp add: stream_encrypt_def stream_encrypt_eea0_def)
  qed
  then obtain rc' where e: "stream_encrypt (aes_ctr lib) (cipheringAlgorithm e1) (data_params e1 srb rb cnt (\<not> is_ue e1) n) m1 = Some (rc', c)"
    by blast
  have hl: "0 < hlen_of srb" "hlen_of srb \<le> 2" by simp_all
  have same: "e1\<lparr>rx_hfn_offset := 0\<rparr> = e1" using off by (cases e1) simp
  obtain rc2 m2' where v: "pdcp_validate_security lib e1 srb rb (hlen_of srb) sn (pdu_header srb sn @ m2) (hlen_of srb + n) =
      Some (rc2, pdu_header srb sn @ m2', e1)" "take n m2' = take n m1"
    using validate_security_ok [OF rb' ctr pdu_header_length [of srb sn] hl n e cnt m keys] unfolding same by blast
  have act: "(security_activated e1 = 1) = True" using sa(1) by simp
  show ?thesis by (intro exI [of _ m2']) (simp only: data_ind_security_def act if_True v Option.bind.simps prod.case)
qed

lemma data_ind_delivers:
  assumes rr: "rx_ready srb e" and rs: "rx_sync e j" and k: "j \<le> k" "k < j + sn_space e"
    and sz: "srb \<and> seq_num_size e = 5 \<or> \<not> srb \<and> seq_num_size e = 12" and p: "peers t e" and ctr: "ctr_ok (aes_ctr lib)"
    and rb: "0 < rb" "rb < maxDRB" and n: "0 < n" "n \<le> 8188" and ctxt: "\<not> otg_enabled ctxt" "new_sdu_ok ctxt"
    and t1: "tx_sync t1 (Suc k)" "seq_num_size t1 = seq_num_size t" and sn: "sn = of_nat (k mod sn_space e)"
    and enc: "if secured t then stream_encrypt (aes_ctr lib) (cipheringAlgorithm t)
         (data_params t srb rb (pdcp_get_next_count_tx t1 srb sn) (is_ue t) n) m1 = Some (rc, c) else c = m1"
    and m1: "take n m1 = sdu" "n \<le> length m1" "n + tlen_of srb \<le> length c" and spare: "16 \<le> length spare"
  shows "\<exists>e2. pdcp_data_ind lib ctxt srb False rb (hlen_of srb + n + tlen_of srb)
      (pdu_header srb sn @ take (n + tlen_of srb) c @ spare) (Some e) =
    Some \<lparr>di_ret = True, di_entity = Some e2, di_out = [delivery ctxt srb rb sdu], di_freed = True\<rparr> \<and>
    rx_ready srb e2 \<and> rx_sync e2 (Suc k) \<and> peers t e2"
proof -
  have v: "pdcp_is_seq_num_size_valid (Some e)" using rr by (simp add: rx_ready_def)
  obtain e1 where e1: "pdcp_is_rx_seq_number_valid sn (Some e) srb = Some (True, Some e1)" "rx_ready srb e1"
      "rx_sync e1 (Suc k)" "seq_num_size e1 = seq_num_size e" "sec_fields e1 = sec_fields e"
    using rx_step_sync [OF rr rs k] sn by blast
  have p1: "peers t e1" by (rule peers_sec_fields [OF p e1(5,4)])
  have cnt: "fst (pdcp_get_next_count_rx e1 srb sn) = pdcp_get_next_count_tx t1 srb sn"
    by (rule counts_agree [OF t1(1) e1(3)]) (use t1(2) p1 e1(2) in \<open>simp_all add: peers_def rx_ready_def\<close>)
  let ?m2 = "take (n + tlen_of srb) c @ spare"
  have m2: "take n ?m2 = take n c" "n + 13 \<le> length ?m2" using m1(3) spare by (simp_all add: min_absorb1)
  have off: "rx_hfn_offset e1 = 0" using e1(2) by (simp add: rx_ready_def)
  obtain m2' where val: "data_ind_security lib srb rb (hlen_of srb) sn (pdu_header srb sn @ ?m2) (hlen_of srb + n) e1 =
      Some (pdu_header srb sn @ m2', e1)" "take n m2' = sdu"
    using data_ind_security_ok [OF p1 ctr rb(2) n cnt enc m1(2) m2 off] m1(1) by auto
  have "unat sn < sn_space e" using sn_not_above_max(2) [OF v, of k] sn by simp
  then have "srb \<and> unat sn < 32 \<and> seq_num_size e = 5 \<or> \<not> srb \<and> unat sn < 4096 \<and> seq_num_size e = 12"
    using sz by (auto simp: sn_bits_def)
  note parse = pdu_header_parse [OF this, of ?m2]
  have rbid: "rb mod maxDRB = rb" using rb by simp
  show ?thesis
  proof (cases srb)
    case True
    have "pdcp_data_ind lib ctxt srb False rb (hlen_of srb + n + tlen_of srb) (pdu_header srb sn @ ?m2) (Some e) =
        Some \<lparr>di_ret = True, di_entity = Some e1, di_out = [To_RRC rb (take n (drop 1 (pdu_header srb sn @ m2')))], di_freed = True\<rparr>"
      using parse e1(1) val(1) rb rbid n True by (simp add: pdcp_data_ind_def)
    moreover have "take n (drop 1 (pdu_header srb sn @ m2')) = sdu" using val(2) True by (simp add: pdu_header_def)
    ultimately show ?thesis using True e1 p1 by (auto simp: delivery_def)
  next
    case False
    have "pdcp_data_ind lib ctxt srb False rb (hlen_of srb + n + tlen_of srb) (pdu_header srb sn @ ?m2) (Some e) =
        data_ind_deliver ctxt srb rb sn 2 (pdu_header srb sn @ m2') (n + 2) (Some e1)"
      using parse e1(1) val(1) rb rbid n False by (simp add: pdcp_data_ind_def)
    moreover have "take n (drop 2 (pdu_header srb sn @ m2')) = sdu" using val(2) False by (simp add: pdu_header_def)
    moreover have "rlc_mode e1 = RLC_MODE_UM" using e1(2) False by (simp add: rx_ready_def)
    ultimately show ?thesis using False ctxt e1 p1 by (auto simp: delivery_def data_ind_deliver_def)
  qed
qed

text \<open>
  A bearer: the SDUs go through \<open>pdcp_data_req\<close> of one entity; the PDUs whose flag is set reach
  \<open>pdcp_data_ind\<close> of the other one, in order. \<open>alloc n\<close> is the data area that \<open>get_free_mem_block\<close>
  gives for an SDU of \<open>n\<close> octets, \<open>spare\<close> what follows the PDU in the receiver's block.
\<close>

fun data_channel ::
    "secu_lib \<Rightarrow> data_ind_ctxt \<Rightarrow> nat \<Rightarrow> bool \<Rightarrow> nat \<Rightarrow> (nat \<Rightarrow> octet list) \<Rightarrow> octet list \<Rightarrow> (octet list \<times> bool) list
      \<Rightarrow> pdcp_t \<Rightarrow> pdcp_t \<Rightarrow> pdcp_delivery list option" where
  "data_channel lib ctxt maxip srb rb alloc spare [] t e = Some []"
| "data_channel lib ctxt maxip srb rb alloc spare ((sdu, d) # xs) t e = do {
     r \<leftarrow> pdcp_data_req lib maxip (nb_rb_mbms_max ctxt) srb rb PDCP_TRANSMISSION_MODE_DATA sdu (Some t)
       (Some (alloc (length sdu))) (\<lambda>pdu. RLC_OP_STATUS_OK);
     t1 \<leftarrow> dr_entity r;
     pdu \<leftarrow> dr_pdu r;
     if d then do {
       i \<leftarrow> pdcp_data_ind lib ctxt srb False rb (length pdu) (pdu @ spare) (Some e);
       e1 \<leftarrow> di_entity i;
       outs \<leftarrow> data_channel lib ctxt maxip srb rb alloc spare xs t1 e1;
       Some (di_out i @ outs) }
     else data_channel lib ctxt maxip srb rb alloc spare xs t1 e }"

text \<open>What the two ends and their surroundings have to satisfy.\<close>

definition bearer_ok :: "secu_lib \<Rightarrow> data_ind_ctxt \<Rightarrow> bool \<Rightarrow> nat \<Rightarrow> (nat \<Rightarrow> octet list) \<Rightarrow> octet list \<Rightarrow> bool" where
  "bearer_ok lib ctxt srb rb alloc spare \<longleftrightarrow> ctr_ok (aes_ctr lib) \<and> 0 < rb \<and> rb < (if srb then 3 else maxDRB) \<and>
     \<not> otg_enabled ctxt \<and> new_sdu_ok ctxt \<and> (\<forall>n. n + 16 \<le> length (alloc n)) \<and> 16 \<le> length spare"

lemma data_channel_step:
  assumes b: "bearer_ok lib ctxt srb rb alloc spare" and t: "tx_sync t k" and rs: "rx_sync e (k - g)" "g \<le> k" "g < sn_space e"
    and rr: "rx_ready srb e" and sz: "srb \<and> seq_num_size e = 5 \<or> \<not> srb \<and> seq_num_size e = 12" and p: "peers t e"
    and n: "0 < length sdu" "length sdu \<le> 8188"
  shows "\<exists>r t1 pdu. pdcp_data_req lib maxip (nb_rb_mbms_max ctxt) srb rb PDCP_TRANSMISSION_MODE_DATA sdu (Some t)
       (Some (alloc (length sdu))) (\<lambda>pdu. RLC_OP_STATUS_OK) = Some r \<and> dr_entity r = Some t1 \<and> dr_pdu r = Some pdu \<and>
    tx_sync t1 (Suc k) \<and> peers t1 e \<and>
    (\<exists>i e1. pdcp_data_ind lib ctxt srb False rb (length pdu) (pdu @ spare) (Some e) = Some i \<and> di_entity i = Some e1 \<and>
       di_out i = [delivery ctxt srb rb sdu] \<and> rx_ready srb e1 \<and> rx_sync e1 (Suc k) \<and> peers t1 e1)"
proof -
  have bits: "sn_bits t = sn_bits e" "seq_num_size t = seq_num_size e" and vt: "pdcp_is_seq_num_size_valid (Some t)"
    using p rr by (simp_all add: sn_bits_def rx_ready_def pdcp_is_seq_num_size_valid_def peers_def)
  have szt: "srb \<and> seq_num_size t = 5 \<or> \<not> srb \<and> seq_num_size t = 12" using sz bits by simp
  have ctr: "ctr_ok (aes_ctr lib)" and rb: "0 < rb" "rb < maxDRB" "srb \<Longrightarrow> rb < 3" and ctxt: "\<not> otg_enabled ctxt" "new_sdu_ok ctxt"
    and room: "length sdu + 16 \<le> length (alloc (length sdu))" "16 \<le> length spare"
    using b by (auto simp: bearer_ok_def maxDRB_def split: if_splits)
  let ?sn = "of_nat (k mod sn_space t) :: 16 word"
  let ?r = "\<lparr>dr_ret = False, dr_configured = Some True, dr_exit = (length sdu > maxip), dr_entity = Some t, dr_pdu = None, dr_freed = False\<rparr>"
  obtain t1 c m1 rc where q: "data_req_non_transparent lib srb rb PDCP_TRANSMISSION_MODE_DATA sdu t (Some (alloc (length sdu))) (\<lambda>pdu. RLC_OP_STATUS_OK) ?r =
      Some (?r\<lparr>dr_entity := Some t1, dr_pdu := Some (pdu_header srb ?sn @ take (length sdu + tlen_of srb) c), dr_ret := data_req_status RLC_OP_STATUS_OK\<rparr>)"
    "tx_sync t1 (Suc k)" "\<exists>sn hfn. t1 = t\<lparr>next_pdcp_tx_sn := sn, tx_hfn := hfn\<rparr>" "take (length sdu) m1 = sdu"
    "length sdu + tlen_of srb \<le> length c" "length m1 = length c"
    "if secured t then stream_encrypt (aes_ctr lib) (cipheringAlgorithm t)
       (data_params t srb rb (pdcp_get_next_count_tx t1 srb ?sn) (is_ue t) (length sdu)) m1 = Some (rc, c) else c = m1"
    using data_req_pdu [OF t vt szt p ctr rb(2) n room(1) refl, where rlc = "\<lambda>pdu. RLC_OP_STATUS_OK" and r = ?r] by blast
  have req: "pdcp_data_req lib maxip (nb_rb_mbms_max ctxt) srb rb PDCP_TRANSMISSION_MODE_DATA sdu (Some t) (Some (alloc (length sdu))) (\<lambda>pdu. RLC_OP_STATUS_OK) =
      data_req_non_transparent lib srb rb PDCP_TRANSMISSION_MODE_DATA sdu t (Some (alloc (length sdu))) (\<lambda>pdu. RLC_OP_STATUS_OK) ?r"
    using n rb by (cases srb) (simp_all add: pdcp_data_req_def Let_def)
  have s1: "seq_num_size t1 = seq_num_size t" and pt: "peers t1 x = peers t x" for x using q(3) by (auto simp: peers_def)
  have k: "k - g \<le> k" "k < k - g + sn_space e" using rs by linarith+
  have len: "length sdu \<le> length m1" using q(5,6) by simp
  obtain e2 where ind: "pdcp_data_ind lib ctxt srb False rb (hlen_of srb + length sdu + tlen_of srb)
      (pdu_header srb ?sn @ take (length sdu + tlen_of srb) c @ spare) (Some e) =
    Some \<lparr>di_ret = True, di_entity = Some e2, di_out = [delivery ctxt srb rb sdu], di_freed = True\<rparr>"
    "rx_ready srb e2" "rx_sync e2 (Suc k)" "peers t e2"
    using data_ind_delivers [OF rr rs(1) k sz p ctr rb(1,2) n ctxt q(2) s1 _ q(7) q(4) len q(5) room(2)] bits by auto
  have "length (pdu_header srb ?sn @ take (length sdu + tlen_of srb) c) = hlen_of srb + length sdu + tlen_of srb" using q(5) by simp
  then show ?thesis using req q(1,2) ind pt p by (simp del: length_append)
qed

lemma data_channel_ok:
  assumes b: "bearer_ok lib ctxt srb rb alloc spare" and "tx_sync t k" "rx_sync e (k - g)" "g \<le> k" "g < sn_space e"
    and "rx_ready srb e" and sz: "srb \<and> seq_num_size e = 5 \<or> \<not> srb \<and> seq_num_size e = 12" and "peers t e"
    and "\<forall>(sdu, d) \<in> set xs. 0 < length sdu \<and> length sdu \<le> 8188" "no_burst (sn_space e) g (map snd xs)"
  shows "data_channel lib ctxt maxip srb rb alloc spare xs t e =
    Some (map (\<lambda>(sdu, d). delivery ctxt srb rb sdu) (filter snd xs))"
  using assms
proof (induction xs arbitrary: t e k g)
  case (Cons x xs)
  obtain sdu d where x: "x = (sdu, d)" by fastforce
  have n: "0 < length sdu" "length sdu \<le> 8188" and ns: "\<forall>(sdu, d) \<in> set xs. 0 < length sdu \<and> length sdu \<le> 8188"
    using Cons.prems(9) x by auto
  obtain r t1 pdu i e1 where s: "pdcp_data_req lib maxip (nb_rb_mbms_max ctxt) srb rb PDCP_TRANSMISSION_MODE_DATA sdu (Some t)
       (Some (alloc (length sdu))) (\<lambda>pdu. RLC_OP_STATUS_OK) = Some r" "dr_entity r = Some t1" "dr_pdu r = Some pdu"
    "tx_sync t1 (Suc k)" "peers t1 e"
    and i: "pdcp_data_ind lib ctxt srb False rb (length pdu) (pdu @ spare) (Some e) = Some i" "di_entity i = Some e1"
       "di_out i = [delivery ctxt srb rb sdu]" "rx_ready srb e1" "rx_sync e1 (Suc k)" "peers t1 e1"
    using data_channel_step [OF Cons.prems(1-8) n] by blast
  show ?case
  proof (cases d)
    case True
    have sz1: "seq_num_size e1 = seq_num_size e" using i(6) s(5) by (simp add: peers_def)
    have "data_channel lib ctxt maxip srb rb alloc spare xs t1 e1 = Some (map (\<lambda>(sdu, d). delivery ctxt srb rb sdu) (filter snd xs))"
    proof (rule Cons.IH [OF b s(4), of e1 0])
      show "rx_sync e1 (Suc k - 0)" "srb \<and> seq_num_size e1 = 5 \<or> \<not> srb \<and> seq_num_size e1 = 12" using i(5) sz1 Cons.prems(7) by simp_all
      show "no_burst (sn_space e1) 0 (map snd xs)" using Cons.prems(10) x True sz1 by (simp add: sn_bits_def)
    qed (use i ns in simp_all)
    then show ?thesis using x True s(1-3) i(1-3) by simp
  next
    case False
    have "data_channel lib ctxt maxip srb rb alloc spare xs t1 e = Some (map (\<lambda>(sdu, d). delivery ctxt srb rb sdu) (filter snd xs))"
      by (rule Cons.IH [OF b s(4), of e "g + 1"]) (use Cons.prems x False s(5) ns in simp_all)
    then show ?thesis using x False s(1-3) by simp
  qed
qed simp

lemma config_req_asn1_ready:
  assumes "pdcp_config_req_asn1 enb (Some z) srb mode CONFIG_ACTION_ADD lc rb sn report profile sec enc intk up = Some e"
    and "rx_hfn_offset z = 0" "length (missing_pdu_bitmap z) = 512" "srb \<or> mode = RLC_MODE_UM"
  shows "rx_ready srb e" "tx_sync e 0" "rx_sync e 0" "is_ue e = (\<not> enb)" "seq_num_size e = size_of_rb_sn sn"
proof -
  have "seq_num_size e = size_of_rb_sn sn" "rx_hfn_offset e = 0" "length (missing_pdu_bitmap e) = 512" "rlc_mode e = mode"
      "next_pdcp_tx_sn e = 0" "next_pdcp_rx_sn e = 0" "tx_hfn e = 0" "rx_hfn e = 0" "is_ue e = (\<not> enb)"
    using assms(1-3) by (auto simp: pdcp_config_req_asn1_def pdcp_config_set_security_def Let_def split: if_splits)
  then show "rx_ready srb e" "tx_sync e 0" "rx_sync e 0" "is_ue e = (\<not> enb)" "seq_num_size e = size_of_rb_sn sn"
    using assms(4) by (auto simp: rx_ready_def tx_sync_def rx_sync_def pdcp_is_seq_num_size_valid_def size_of_rb_sn_def)
qed

lemma config_req_asn1_peers:
  assumes "pdcp_config_req_asn1 enb (Some z) srb mode CONFIG_ACTION_ADD lc rb sn report profile sec enc intk up = Some t"
    and "pdcp_config_req_asn1 (\<not> enb) (Some z) srb mode CONFIG_ACTION_ADD lc rb sn report profile sec enc intk up = Some e"
    and "security_activated z = 0"
    and "sec \<le> 0x77 \<longrightarrow> 16 \<le> length (key_of up) \<and> 16 \<le> length (key_of enc) \<and> 32 \<le> length (key_of intk)"
  shows "peers t e"
  using assms by (auto simp: pdcp_config_req_asn1_def pdcp_config_set_security_def Let_def peers_def split: if_splits)

section \<open>Properties\<close>

text \<open>The COUNT values of the first \<open>n\<close> PDUs that an entity sends.\<close>

fun tx_counts :: "bool \<Rightarrow> nat \<Rightarrow> pdcp_t \<Rightarrow> 32 word list option" where
  "tx_counts srb 0 t = Some []"
| "tx_counts srb (Suc n) t = do {
     let (sn, t_p) = pdcp_get_next_tx_seq_number (Some t);
     t1 \<leftarrow> t_p;
     cs \<leftarrow> tx_counts srb n t1;
     Some (pdcp_get_next_count_tx t1 srb sn # cs) }"

lemma tx_counts_eq:
  assumes "tx_sync t k" "pdcp_is_seq_num_size_valid (Some t)" "srb \<and> seq_num_size t = 5 \<or> \<not> srb \<and> seq_num_size t = 12"
  shows "tx_counts srb n t = Some (map (\<lambda>i. of_nat (count_of (sn_space t) i)) [k..<k + n])"
  using assms
proof (induction n arbitrary: t k)
  case (Suc n)
  obtain t1 where t1: "pdcp_get_next_tx_seq_number (Some t) = (of_nat (k mod sn_space t), Some t1)"
      "tx_sync t1 (Suc k)" "\<exists>sn hfn. t1 = t\<lparr>next_pdcp_tx_sn := sn, tx_hfn := hfn\<rparr>"
    using next_tx_sync [OF Suc.prems(2,1)] by auto
  have f: "seq_num_size t1 = seq_num_size t" "sn_bits t1 = sn_bits t" using t1(3) by (auto simp: sn_bits_def)
  have v: "pdcp_is_seq_num_size_valid (Some t1)" using Suc.prems(2) f(1) by (simp add: pdcp_is_seq_num_size_valid_def)
  have c: "pdcp_get_next_count_tx t1 srb (of_nat (k mod sn_space t)) = of_nat (count_of (sn_space t) k)"
    using count_tx_value [OF t1(2), of srb] Suc.prems(3) f by simp
  have ih: "tx_counts srb n t1 = Some (map (\<lambda>i. of_nat (count_of (sn_space t) i)) [Suc k..<Suc k + n])"
    using Suc.IH [OF t1(2) v] Suc.prems(3) f by simp
  have r: "[k..<k + Suc n] = k # [Suc k..<Suc k + n]" by (simp add: upt_conv_Cons)
  show ?case unfolding r using t1(1) c ih by simp
qed simp

lemma count_of_bound: "0 < M \<Longrightarrow> i < n \<Longrightarrow> count_of M i < n + M"
  by (simp add: count_of_cases)

lemma tx_counts_distinct:
  assumes "n + M \<le> 2 ^ 32" "0 < M"
  shows "distinct (map (\<lambda>i. of_nat (count_of M i) :: 32 word) [0..<n])"
proof -
  have "inj_on (\<lambda>i. of_nat (count_of M i) :: 32 word) {0..<n}"
  proof (rule inj_onI)
    fix i j assume i: "i \<in> {0..<n}" "j \<in> {0..<n}" and e: "(of_nat (count_of M i) :: 32 word) = of_nat (count_of M j)"
    have b: "count_of M i < 2 ^ 32" "count_of M j < 2 ^ 32"
      using i assms count_of_bound [of M i n] count_of_bound [of M j n] by auto
    have "unat (of_nat (count_of M i) :: 32 word) = unat (of_nat (count_of M j) :: 32 word)" using e by simp
    then have "count_of M i = count_of M j" using b by (simp add: unat_of_nat)
    then show "i = j" by (rule count_of_inj [OF assms(2)])
  qed
  then show ?thesis by (simp add: distinct_map)
qed

text \<open>
  C2. A bearer delivers what it is given. Two entities made by \<open>pdcp_config_req_asn1\<close> with the
  same configuration, one in the eNB and one in the UE, a signalling bearer or an unacknowledged data
  bearer with 12-bit numbers (not a data bearer with 7-bit numbers, which corrupts SDUs, nor one over
  acknowledged mode), security off or on with any of the algorithms, SDUs of 1 to 8188 octets: as long as fewer PDUs
  are lost in a row than there are sequence numbers, every PDU that arrives gives exactly its SDU to
  RRC, to GTP-U or to the SDU list, through numbering, header, integrity, ciphering, the receive
  window, deciphering and header removal.
\<close>
theorem pdcp_bearer_delivers:
  assumes "pdcp_config_req_asn1 enb (Some zero_entity) srb mode CONFIG_ACTION_ADD lc rb sn report profile sec enc intk up = Some t"
    and "pdcp_config_req_asn1 (\<not> enb) (Some zero_entity) srb mode CONFIG_ACTION_ADD lc rb sn report profile sec enc intk up = Some e"
    and "sec \<le> 0x77 \<longrightarrow> 16 \<le> length (key_of up) \<and> 16 \<le> length (key_of enc) \<and> 32 \<le> length (key_of intk)"
    and "srb \<and> sn \<noteq> SN_Size_len7bits \<and> sn \<noteq> SN_Size_len12bits \<or> \<not> srb \<and> sn = SN_Size_len12bits \<and> mode = RLC_MODE_UM"
    and "bearer_ok lib ctxt srb rb alloc spare"
    and "\<forall>(sdu, d) \<in> set xs. 0 < length sdu \<and> length sdu \<le> 8188"
    and "no_burst (if srb then 32 else 4096) 0 (map snd xs)"
  shows "data_channel lib ctxt maxip srb rb alloc spare xs t e =
    Some (map (\<lambda>(sdu, d). delivery ctxt srb rb sdu) (filter snd xs))"
proof -
  have z: "rx_hfn_offset zero_entity = 0" "length (missing_pdu_bitmap zero_entity) = 512" "security_activated zero_entity = 0"
    by (simp_all add: zero_entity_def)
  have mode: "srb \<or> mode = RLC_MODE_UM" using assms(4) by blast
  note rt = config_req_asn1_ready [OF assms(1) z(1,2) mode] and re = config_req_asn1_ready [OF assms(2) z(1,2) mode]
  have sz: "srb \<and> seq_num_size e = 5 \<or> \<not> srb \<and> seq_num_size e = 12"
    using re(5) assms(4) by (auto simp: size_of_rb_sn_def SN_Size_len7bits_def SN_Size_len12bits_def)
  then have sp: "sn_space e = (if srb then 32 else 4096)" by (auto simp: sn_bits_def)
  show ?thesis
    by (rule data_channel_ok [OF assms(5) rt(2), of e 0])
      (use re sz sp assms(6,7) config_req_asn1_peers [OF assms(1,2) z(3) assms(3)] in simp_all)
qed

definition sample_ctxt :: data_ind_ctxt where
  "sample_ctxt = \<lparr>enb_flag = False, ctx_module_id = 0, link_gtpu = False, otg_enabled = False, nb_rb_mbms_max = 16, new_sdu_ok = True\<rparr>"

definition sample_lib :: secu_lib where
  "sample_lib = \<lparr>aes_ctr = sample_ctr, aes_cmac = (\<lambda>k l m. rev m)\<rparr>"

theorem pdcp_bearer_delivers_witness:
  "\<exists>t e. pdcp_config_req_asn1 True (Some zero_entity) True RLC_MODE_AM CONFIG_ACTION_ADD 1 1 5 0 0 0x21
        (Some (replicate 32 7)) (Some (replicate 32 8)) (Some (replicate 32 9)) = Some t \<and>
      pdcp_config_req_asn1 False (Some zero_entity) True RLC_MODE_AM CONFIG_ACTION_ADD 1 1 5 0 0 0x21
        (Some (replicate 32 7)) (Some (replicate 32 8)) (Some (replicate 32 9)) = Some e \<and> security_activated t = 1 \<and>
      data_channel sample_lib sample_ctxt 1500 True 1 (\<lambda>n. replicate (n + 16) 0) (replicate 16 0)
        [([1, 2, 3], True), ([4], False), ([5, 6], True)] t e = Some [To_RRC 1 [1, 2, 3], To_RRC 1 [5, 6]]"
proof -
  obtain t e where te: "pdcp_config_req_asn1 True (Some zero_entity) True RLC_MODE_AM CONFIG_ACTION_ADD 1 1 5 0 0 0x21
        (Some (replicate 32 7)) (Some (replicate 32 8)) (Some (replicate 32 9)) = Some t"
      "pdcp_config_req_asn1 (\<not> True) (Some zero_entity) True RLC_MODE_AM CONFIG_ACTION_ADD 1 1 5 0 0 0x21
        (Some (replicate 32 7)) (Some (replicate 32 8)) (Some (replicate 32 9)) = Some e" "security_activated t = 1"
    by (simp add: pdcp_config_req_asn1_def pdcp_config_set_security_def)
  have "data_channel sample_lib sample_ctxt 1500 True 1 (\<lambda>n. replicate (n + 16) 0) (replicate 16 0)
        [([1, 2, 3], True), ([4], False), ([5, 6], True)] t e =
      Some (map (\<lambda>(sdu, d). delivery sample_ctxt True 1 sdu) (filter snd [([1, 2, 3], True), ([4], False), ([5, 6], True)]))"
    by (rule pdcp_bearer_delivers [OF te(1,2)])
      (simp_all add: key_of_def SN_Size_len7bits_def SN_Size_len12bits_def bearer_ok_def sample_lib_def sample_ctxt_def sample_ctr_ok)
  then show ?thesis using te by (simp add: delivery_def)
qed

text \<open>
  C13. No COUNT value, and so no key stream, is used twice: the COUNT values of the first \<open>n\<close> PDUs of
  a new entity are pairwise different while \<open>n\<close> plus the number of sequence numbers is at most
  \<open>2^32\<close>. They are not 0, 1, 2, ...: the hyper frame number is stepped before the COUNT is formed, so
  the PDU with the highest sequence number has the COUNT of the next hyper frame.
\<close>
theorem pdcp_count_unique:
  assumes "pdcp_config_req_asn1 enb (Some zero_entity) srb mode CONFIG_ACTION_ADD lc rb sn report profile sec enc intk up = Some t"
    and "srb \<and> sn \<noteq> SN_Size_len7bits \<and> sn \<noteq> SN_Size_len12bits \<or> \<not> srb \<and> sn = SN_Size_len12bits"
    and "n + (if srb then 32 else 4096) \<le> 2 ^ 32"
  shows "\<exists>cs. tx_counts srb n t = Some cs \<and> length cs = n \<and> distinct cs \<and>
    (\<forall>i < n. cs ! i = of_nat (if Suc (i mod (if srb then 32 else 4096)) = (if srb then 32 else 4096)
                            then i + (if srb then 32 else 4096) else i))"
proof -
  let ?M = "if srb then 32 else 4096 :: nat"
  have sz: "seq_num_size t = (if srb then 5 else 12)" "tx_sync t 0"
    using assms(1,2) by (auto simp: pdcp_config_req_asn1_def pdcp_config_set_security_def Let_def size_of_rb_sn_def tx_sync_def
        SN_Size_len7bits_def SN_Size_len12bits_def split: if_splits)
  then have v: "pdcp_is_seq_num_size_valid (Some t)" and M: "sn_space t = ?M"
    by (auto simp: pdcp_is_seq_num_size_valid_def sn_bits_def split: if_splits)
  have "tx_counts srb n t = Some (map (\<lambda>i. of_nat (count_of ?M i)) [0..<n])"
    using tx_counts_eq [OF sz(2) v, of srb n] sz(1) unfolding M by simp
  moreover have "distinct (map (\<lambda>i. of_nat (count_of ?M i) :: 32 word) [0..<n])"
    by (rule tx_counts_distinct [OF assms(3)]) simp
  ultimately show ?thesis by (intro exI [of _ "map (\<lambda>i. of_nat (count_of ?M i)) [0..<n]"]) (auto simp: count_of_cases)
qed

theorem pdcp_count_unique_witness:
  "\<exists>t cs. pdcp_config_req_asn1 False (Some zero_entity) True RLC_MODE_AM CONFIG_ACTION_ADD 1 1 5 0 0 0xff None None None = Some t \<and>
      tx_counts True 40 t = Some cs \<and> distinct cs \<and> cs ! 30 = 30 \<and> cs ! 31 = 63 \<and> cs ! 32 = 32"
proof -
  obtain t where t: "pdcp_config_req_asn1 False (Some zero_entity) True RLC_MODE_AM CONFIG_ACTION_ADD 1 1 5 0 0 0xff None None None = Some t"
    by (simp add: pdcp_config_req_asn1_def)
  have "\<exists>cs. tx_counts True 40 t = Some cs \<and> length cs = 40 \<and> distinct cs \<and>
    (\<forall>i < 40. cs ! i = of_nat (if Suc (i mod (if True then 32 else 4096)) = (if True then 32 else 4096)
                            then i + (if True then 32 else 4096) else i))"
    by (rule pdcp_count_unique [OF t]) (simp_all add: SN_Size_len7bits_def SN_Size_len12bits_def)
  then obtain cs where cs: "tx_counts True 40 t = Some cs" "distinct cs"
    "\<And>i. i < 40 \<Longrightarrow> cs ! i = of_nat (if Suc (i mod 32) = 32 then i + 32 else i)" by auto
  show ?thesis using t cs(1,2) cs(3) [of 30] cs(3) [of 31] cs(3) [of 32] by auto
qed

text \<open>
  C33. A failed integrity check has no effect. Whatever \<open>pdcp_validate_security\<close> returns for a PDU on
  a signalling bearer, \<open>pdcp_data_ind\<close> gives the deciphered octets to RRC and returns TRUE; the same
  for the verdict of the sequence number check.
\<close>
theorem srb_delivery_ignores_checks:
  assumes "0 < rb" "rb < maxDRB" "5 \<le> sz"
    and "pdcp_get_sequence_number_of_pdu_with_SRB_sn (Some buf) = Some sn"
    and "pdcp_is_rx_seq_number_valid (ucast sn) (Some e) True = Some (ok, Some e1)" "security_activated e1 = 1"
    and "pdcp_validate_security lib e1 True rb 1 (ucast sn) buf (sz - 4) = Some (rc, buf1, e2)"
  shows "pdcp_data_ind lib ctxt True False rb sz buf (Some e) =
    Some \<lparr>di_ret = True, di_entity = Some e2, di_out = [To_RRC rb (take (sz - 5) (drop 1 buf1))], di_freed = True\<rparr>"
  using assms by (simp add: pdcp_data_ind_def data_ind_parse_def data_ind_security_def)

theorem srb_delivery_ignores_checks_witness:
  "\<exists>e1 e2 buf1.
    pdcp_is_rx_seq_number_valid 9 (Some ((sample_entity 5 RLC_MODE_AM)
        \<lparr>security_activated := 1, integrityProtAlgorithm := 2, kRRCint := Some (replicate 32 0)\<rparr>)) True = Some (True, Some e1) \<and>
    pdcp_validate_security sample_lib e1 True 1 1 9 [9, 1, 2, 0, 0, 0, 0] 3 = Some (- 1, buf1, e2) \<and>
    pdcp_data_ind sample_lib sample_ctxt True False 1 7 [9, 1, 2, 0, 0, 0, 0]
      (Some ((sample_entity 5 RLC_MODE_AM)
        \<lparr>security_activated := 1, integrityProtAlgorithm := 2, kRRCint := Some (replicate 32 0)\<rparr>)) =
      Some \<lparr>di_ret = True, di_entity = Some e2, di_out = [To_RRC 1 [1, 2]], di_freed = True\<rparr>"
proof -
  let ?e = "(sample_entity 5 RLC_MODE_AM)\<lparr>security_activated := 1, integrityProtAlgorithm := 2, kRRCint := Some (replicate 32 0)\<rparr>"
  have c: "(9 :: octet) AND 0x1F = 9" by simp
  obtain e1 where e1: "pdcp_is_rx_seq_number_valid (ucast (9 :: octet)) (Some ?e) True = Some (True, Some e1)"
      "security_activated e1 = 1" "cipheringAlgorithm e1 = 0" "integrityProtAlgorithm e1 = 2" "kRRCint e1 = Some (replicate 32 0)" "kRRCenc e1 = None"
    by (simp add: pdcp_is_rx_seq_number_valid_def sample_entity_def pdcp_is_seq_num_valid_def pdcp_calculate_max_seq_num_for_given_size_def
        pdcp_is_seq_num_size_valid_def pdcp_mark_current_pdu_as_received_def rx_srb_def pdcp_advance_rx_window_def Let_def)
  have "\<exists>e2. pdcp_validate_security sample_lib e1 True 1 1 (ucast (9 :: octet)) [9, 1, 2, 0, 0, 0, 0] (7 - 4) =
      Some (- 1, [9, 1, 2, 0, 0, 0, 0], e2)"
    by (simp add: pdcp_validate_security_def e1 pdcp_get_next_count_rx_def Let_def NB_RB_MAX_def maxDRB_def stream_encrypt_def
        stream_encrypt_eea0_def stream_check_integrity_def stream_compute_integrity_def stream_compute_integrity_eia2_def
        key_of_def sample_lib_def drop_bit_eq_div)
  then obtain e2 where v: "pdcp_validate_security sample_lib e1 True 1 1 (ucast (9 :: octet)) [9, 1, 2, 0, 0, 0, 0] (7 - 4) =
      Some (- 1, [9, 1, 2, 0, 0, 0, 0], e2)" by blast
  have "pdcp_data_ind sample_lib sample_ctxt True False 1 7 [9, 1, 2, 0, 0, 0, 0] (Some ?e) =
      Some \<lparr>di_ret = True, di_entity = Some e2, di_out = [To_RRC 1 (take (7 - 5) (drop 1 [9, 1, 2, 0, 0, 0, 0]))], di_freed = True\<rparr>"
    by (rule srb_delivery_ignores_checks [OF _ _ _ _ e1(1,2) v])
      (simp_all add: maxDRB_def pdcp_get_sequence_number_of_pdu_with_SRB_sn_def)
  then show ?thesis using e1(1) v by auto
qed

lemma advance_keeps:
  "security_activated (snd (pdcp_advance_rx_window e)) = security_activated e" "rlc_mode (snd (pdcp_advance_rx_window e)) = rlc_mode e"
  by (simp_all add: pdcp_advance_rx_window_def Let_def)

lemma low_sn_octets:
  assumes "m < 128"
  shows "ucast (drop_bit 8 (of_nat m :: 16 word) AND 0xFF) = (0 :: octet)"
    "ucast ((of_nat m :: 16 word) AND 0xFF) = (of_nat m :: octet)"
proof -
  let ?sn = "of_nat m :: 16 word"
  have u: "unat ?sn = m" using assms by (simp add: unat_of_nat)
  have "unat (drop_bit 8 ?sn) = drop_bit 8 (unat ?sn)" by (rule unat_drop_bit_eq)
  also have "\<dots> = 0" unfolding u using assms by (simp add: drop_bit_eq_div)
  finally have "unat (drop_bit 8 ?sn) = 0" .
  then have "drop_bit 8 ?sn = 0" by (simp only: word_unat_eq_iff unat_0)
  then show "ucast (drop_bit 8 ?sn AND 0xFF) = (0 :: octet)" by (simp only: and_zero_eq and.left_neutral zero_and_eq) simp
  have m: "(0xFF :: 16 word) = mask 8" by (simp add: mask_eq_exp_minus_1)
  have "unat (take_bit 8 ?sn) = m" using assms by (simp add: unsigned_take_bit_eq u take_bit_nat_eq_self)
  then have "unat (ucast (take_bit 8 ?sn) :: octet) = m" using assms by (simp add: unsigned_ucast_eq take_bit_nat_eq_self)
  then show "ucast (?sn AND 0xFF) = (of_nat m :: octet)"
    using assms unfolding m take_bit_eq_mask [symmetric] by (simp add: word_unat_eq_iff unat_of_nat)
qed

text \<open>
  C34. On a data bearer with 7-bit numbers the two ends disagree about the header.
  \<open>pdcp_data_req\<close> always writes the two-octet header, \<open>pdcp_data_ind\<close> removes one octet: the SDU
  arrives with the octet of its sequence number in front.
\<close>
theorem short_sn_bearer_corrupts_sdu:
  assumes "tx_sync t k" "seq_num_size t = 7" "security_activated t = 0" "rb < maxDRB" "0 < rb"
    and "rx_ready False e" "seq_num_size e = 7" "security_activated e = 0"
    and "0 < length sdu" "length sdu \<le> 8188" "length sdu + 2 \<le> length blk" "\<not> otg_enabled ctxt" "new_sdu_ok ctxt"
  shows "\<exists>r pdu i. pdcp_data_req lib maxip nmbms False rb PDCP_TRANSMISSION_MODE_DATA sdu (Some t) (Some blk) rlc = Some r \<and>
    dr_pdu r = Some pdu \<and> pdcp_data_ind lib ctxt False False rb (length pdu) (pdu @ spare) (Some e) = Some i \<and>
    di_out i = [delivery ctxt False rb (of_nat (k mod 128) # sdu)]"
proof -
  let ?sn = "of_nat (k mod 128) :: 16 word" and ?n = "length sdu"
  have v: "pdcp_is_seq_num_size_valid (Some t)" "pdcp_is_seq_num_size_valid (Some e)" and bits: "sn_bits t = 7" "sn_bits e = 7"
    using assms by (simp_all add: pdcp_is_seq_num_size_valid_def sn_bits_def)
  obtain t1 where t1: "pdcp_get_next_tx_seq_number (Some t) = (?sn, Some t1)" "\<exists>sn hfn. t1 = t\<lparr>next_pdcp_tx_sn := sn, tx_hfn := hfn\<rparr>"
    using next_tx_sync [OF v(1) assms(1)] bits by auto
  obtain b0 b1 r where blk: "blk = b0 # b1 # r" "?n \<le> length r" using assms(11) by (cases blk; cases "tl blk") auto
  have lt: "k mod 128 < 128" by simp
  have u: "unat ?sn = k mod 128" using lt by (simp add: unat_of_nat)
  note hl = low_sn_octets [OF lt]
  let ?pdu = "0x80 # of_nat (k mod 128) # sdu"
  have hdr: "data_req_header False PDCP_TRANSMISSION_MODE_DATA t blk ?n = Some (True, ?sn, Some t1, 0x80 # of_nat (k mod 128) # r)"
    using t1(1) blk hl
    by (simp add: data_req_header_def pdcp_serialize_user_plane_data_pdu_with_long_sn_buffer_def key_of_def)
  have max: "\<not> ?sn > pdcp_calculate_max_seq_num_for_given_size (seq_num_size t)" using sn_not_above_max(1) [OF v(1), of k] bits by simp
  have w: "write_at 2 sdu (0x80 # of_nat (k mod 128) # r) = Some (?pdu @ drop ?n r)"
    using write_at_split [of "[0x80, of_nat (k mod 128)]" 2 sdu r] blk by simp
  have w2: "write_at (2 + ?n) [] (?pdu @ drop ?n r) = Some (?pdu @ drop ?n r)" by (simp add: write_at_def)
  have size16: "unat (of_nat (?n + 2 + 0) :: 16 word) = ?n + 2"
    using assms(10) by (simp only: unat_of_nat) simp
  then have tk: "take (unat (of_nat ?n + 2 :: 16 word)) (?pdu @ drop ?n r) = ?pdu" by (simp add: add.commute)
  have sec: "security_activated t1 = 0" using t1(2) assms(3) by auto
  have req: "\<exists>r. pdcp_data_req lib maxip nmbms False rb PDCP_TRANSMISSION_MODE_DATA sdu (Some t) (Some blk) rlc = Some r \<and> dr_pdu r = Some ?pdu"
    using assms(4,9) hdr max w w2 tk sec
    by (simp add: pdcp_data_req_def data_req_non_transparent_def Let_def)
  have p: "data_ind_parse False e (?pdu @ spare) = Some (1, 0, 0)"
    using assms(7) by (simp add: data_ind_parse_def pdcp_get_sequence_number_of_pdu_with_short_sn_def)
  have rv: "\<exists>ok e1. pdcp_is_rx_seq_number_valid 0 (Some e) False = Some (ok, Some e1) \<and> security_activated e1 = 0 \<and> rlc_mode e1 = RLC_MODE_UM"
    using assms(6,8) bits v(2) rx_valid_eq [OF v(2), of 0 False] by (auto simp: rx_ready_def rx_drb_um_def Let_def advance_keeps)
  then obtain ok e1 where e1: "pdcp_is_rx_seq_number_valid 0 (Some e) False = Some (ok, Some e1)" "security_activated e1 = 0" "rlc_mode e1 = RLC_MODE_UM"
    by blast
  have "\<exists>i. pdcp_data_ind lib ctxt False False rb (length ?pdu) (?pdu @ spare) (Some e) = Some i \<and>
      di_out i = [delivery ctxt False rb (of_nat (k mod 128) # sdu)]"
    using p e1 assms(4,5,12,13)
    by (simp add: pdcp_data_ind_def data_ind_security_def data_ind_deliver_def delivery_def Let_def)
  then show ?thesis using req by blast
qed

theorem short_sn_bearer_corrupts_sdu_witness:
  "\<exists>r pdu i. pdcp_data_req sample_lib 1500 16 False 1 PDCP_TRANSMISSION_MODE_DATA [1, 2, 3] (Some (sample_entity 7 RLC_MODE_UM))
      (Some (replicate 8 0)) (\<lambda>pdu. RLC_OP_STATUS_OK) = Some r \<and> dr_pdu r = Some pdu \<and>
    pdcp_data_ind sample_lib sample_ctxt False False 1 (length pdu) (pdu @ []) (Some (sample_entity 7 RLC_MODE_UM)) = Some i \<and>
    di_out i = [To_SDU_list 1 [9, 1, 2, 3]]"
proof -
  have d: "delivery sample_ctxt False 1 (of_nat (393 mod 128) # [1, 2, 3]) = To_SDU_list 1 [9, 1, 2, 3]"
    by (simp add: delivery_def sample_ctxt_def)
  show ?thesis unfolding d [symmetric]
    by (rule short_sn_bearer_corrupts_sdu)
      (simp_all add: tx_sync_def sn_bits_def sample_entity_def rx_ready_def pdcp_is_seq_num_size_valid_def maxDRB_def sample_ctxt_def)
qed

end
