(* ===== verification/RlcUm.thy ===== *)
theory RlcUm
  imports Prelude
begin

text \<open>
  The RLC unacknowledged mode entity: \<open>rlc_um_entity.h\<close>, \<open>rlc_um_fsm.c\<close>,
  \<open>rlc_um_control_primitives.c\<close>, and the t-Reordering timer of \<open>rlc_um_dar.c\<close>. Sequence numbers
  and the signed sizes are integers: the \<open>int16_t\<close> and \<open>int32_t\<close> values of the code stay far from
  their bounds. Blocks of the memory pool are their data areas.
\<close>

section \<open>The entity\<close>

datatype rlc_protocol_state = RLC_NULL_STATE | RLC_DATA_TRANSFER_READY_STATE | RLC_RESET_PENDING_STATE |
  RLC_RESET_AND_SUSPEND_STATE | RLC_LOCAL_SUSPEND_STATE

record rlc_um_timer =
  ms_time_out :: "32 word"
  ms_start :: "32 word"
  ms_duration :: "32 word"
  running :: bool
  timed_out :: bool

text \<open>An SDU in the input list: \<open>struct rlc_um_tx_sdu_management\<close> and the octets behind it.\<close>

record tx_sdu =
  sdu_data :: "octet list"
  sdu_creation_time :: int
  sdu_remaining_size :: nat
  sdu_segmented_size :: nat
  sdu_size :: nat

record rlc_um_stats =
  stat_tx_pdcp_sdu :: "32 word"
  stat_tx_pdcp_bytes :: "32 word"
  stat_tx_data_pdu :: "32 word"
  stat_tx_data_bytes :: "32 word"
  stat_rx_pdcp_sdu :: "32 word"
  stat_rx_pdcp_bytes :: "32 word"
  stat_rx_data_pdus_duplicate :: "32 word"
  stat_rx_data_bytes_duplicate :: "32 word"
  stat_rx_data_pdu :: "32 word"
  stat_rx_data_bytes :: "32 word"
  stat_rx_data_pdu_dropped :: "32 word"
  stat_rx_data_bytes_dropped :: "32 word"
  stat_rx_data_pdu_out_of_window :: "32 word"
  stat_rx_data_bytes_out_of_window :: "32 word"
  stat_timer_reordering_timed_out :: "32 word"

record rlc_um_entity =
  initialized :: bool
  protocol_state :: rlc_protocol_state
  is_data_plane :: bool
  is_mxch :: bool
  vt_us :: "16 word"
  vr_ur :: int
  vr_ux :: int
  vr_uh :: int
  t_reordering :: rlc_um_timer
  tx_sn_length :: nat
  rx_sn_length :: nat
  tx_header_min_length_in_bytes :: nat
  rx_header_min_length_in_bytes :: nat
  tx_sn_modulo :: int
  rx_sn_modulo :: int
  rx_um_window_size :: int
  tx_um_window_size :: int
  input_sdus :: "tx_sdu list"
  buffer_occupancy :: int
  nb_bytes_requested_by_mac :: nat
  pdus_to_mac_layer :: "octet list list"
  output_sdu_in_construction :: "octet list option"
  output_sdu_size_to_write :: nat
  dar_buffer :: "octet list option list"
  channel_id :: nat
  um_rb_id :: nat
  last_reassemblied_sn :: int
  last_reassemblied_missing_sn :: int
  reassembly_missing_sn_detected :: bool
  first_pdu :: bool
  um_stats :: rlc_um_stats

definition RLC_UM_SN_10_BITS_MODULO :: int where "RLC_UM_SN_10_BITS_MODULO = 1024"
definition RLC_UM_WINDOW_SIZE_SN_10_BITS :: int where "RLC_UM_WINDOW_SIZE_SN_10_BITS = 512"
definition RLC_UM_SN_5_BITS_MODULO :: int where "RLC_UM_SN_5_BITS_MODULO = 32"
definition RLC_UM_WINDOW_SIZE_SN_5_BITS :: int where "RLC_UM_WINDOW_SIZE_SN_5_BITS = 16"
definition RLC_UM_SEGMENT_NB_MAX_LI_PER_PDU :: nat where "RLC_UM_SEGMENT_NB_MAX_LI_PER_PDU = 128"
definition RLC_SDU_MAX_SIZE_DATA_PLANE :: nat where "RLC_SDU_MAX_SIZE_DATA_PLANE = 9000"
definition RLC_SDU_MAX_SIZE_CONTROL_PLANE :: nat where "RLC_SDU_MAX_SIZE_CONTROL_PLANE = 2000"

lemmas um_constants = RLC_UM_SN_10_BITS_MODULO_def RLC_UM_WINDOW_SIZE_SN_10_BITS_def RLC_UM_SN_5_BITS_MODULO_def
  RLC_UM_WINDOW_SIZE_SN_5_BITS_def RLC_UM_SEGMENT_NB_MAX_LI_PER_PDU_def RLC_SDU_MAX_SIZE_DATA_PLANE_def
  RLC_SDU_MAX_SIZE_CONTROL_PLANE_def

section \<open>Protocol states (rlc_um_fsm.c)\<close>

definition RLC_UM_RECEIVE_CRLC_CONFIG_REQ_ENTER_NULL_STATE_EVENT :: octet where
  "RLC_UM_RECEIVE_CRLC_CONFIG_REQ_ENTER_NULL_STATE_EVENT = 0x00"
definition RLC_UM_RECEIVE_CRLC_CONFIG_REQ_ENTER_DATA_TRANSFER_READY_STATE_EVENT :: octet where
  "RLC_UM_RECEIVE_CRLC_CONFIG_REQ_ENTER_DATA_TRANSFER_READY_STATE_EVENT = 0x01"
definition RLC_UM_RECEIVE_CRLC_SUSPEND_REQ_EVENT :: octet where "RLC_UM_RECEIVE_CRLC_SUSPEND_REQ_EVENT = 0x10"
definition RLC_UM_TRANSMIT_CRLC_SUSPEND_CNF_EVENT :: octet where "RLC_UM_TRANSMIT_CRLC_SUSPEND_CNF_EVENT = 0x11"
definition RLC_UM_RECEIVE_CRLC_RESUME_REQ_EVENT :: octet where "RLC_UM_RECEIVE_CRLC_RESUME_REQ_EVENT = 0x12"

lemmas um_events = RLC_UM_RECEIVE_CRLC_CONFIG_REQ_ENTER_NULL_STATE_EVENT_def
  RLC_UM_RECEIVE_CRLC_CONFIG_REQ_ENTER_DATA_TRANSFER_READY_STATE_EVENT_def RLC_UM_RECEIVE_CRLC_SUSPEND_REQ_EVENT_def
  RLC_UM_TRANSMIT_CRLC_SUSPEND_CNF_EVENT_def RLC_UM_RECEIVE_CRLC_RESUME_REQ_EVENT_def

text \<open>The return value, whether \<open>macphy_exit\<close> was called, and the entity.\<close>

definition rlc_um_fsm_notify_event :: "rlc_um_entity \<Rightarrow> octet \<Rightarrow> nat \<times> bool \<times> rlc_um_entity" where
  "rlc_um_fsm_notify_event e eventP =
     (case protocol_state e of
        RLC_NULL_STATE \<Rightarrow>
          if eventP = RLC_UM_RECEIVE_CRLC_CONFIG_REQ_ENTER_DATA_TRANSFER_READY_STATE_EVENT
          then (1, False, e\<lparr>protocol_state := RLC_DATA_TRANSFER_READY_STATE\<rparr>)
          else (0, True, e)
      | RLC_DATA_TRANSFER_READY_STATE \<Rightarrow>
          if eventP = RLC_UM_RECEIVE_CRLC_CONFIG_REQ_ENTER_NULL_STATE_EVENT
          then (1, False, e\<lparr>protocol_state := RLC_NULL_STATE\<rparr>)
          else if eventP = RLC_UM_RECEIVE_CRLC_SUSPEND_REQ_EVENT \<or> eventP = RLC_UM_TRANSMIT_CRLC_SUSPEND_CNF_EVENT
          then (1, False, e\<lparr>protocol_state := RLC_LOCAL_SUSPEND_STATE\<rparr>)
          else (0, False, e)
      | RLC_LOCAL_SUSPEND_STATE \<Rightarrow>
          if eventP = RLC_UM_RECEIVE_CRLC_CONFIG_REQ_ENTER_NULL_STATE_EVENT
          then (1, False, e\<lparr>protocol_state := RLC_NULL_STATE\<rparr>)
          else if eventP = RLC_UM_RECEIVE_CRLC_RESUME_REQ_EVENT
          then (1, False, e\<lparr>protocol_state := RLC_DATA_TRANSFER_READY_STATE\<rparr>)
          else (0, False, e)
      | RLC_RESET_PENDING_STATE \<Rightarrow> (0, False, e)
      | RLC_RESET_AND_SUSPEND_STATE \<Rightarrow> (0, False, e))"

section \<open>The t-Reordering timer (rlc_um_dar.c)\<close>

text \<open>\<open>now\<close> is \<open>PROTOCOL_CTXT_TIME_MILLI_SECONDS(ctxt_pP)\<close>.\<close>

definition rlc_um_stop_and_reset_timer_reordering :: "rlc_um_entity \<Rightarrow> rlc_um_entity" where
  "rlc_um_stop_and_reset_timer_reordering e =
     e\<lparr>t_reordering := (t_reordering e)\<lparr>running := False, ms_time_out := 0, ms_start := 0, timed_out := False\<rparr>\<rparr>"

definition rlc_um_start_timer_reordering :: "32 word \<Rightarrow> rlc_um_entity \<Rightarrow> rlc_um_entity" where
  "rlc_um_start_timer_reordering now e =
     (let t = (t_reordering e)\<lparr>timed_out := False\<rparr> in
      if ms_duration t > 0
      then e\<lparr>t_reordering := t\<lparr>running := True, ms_time_out := now + ms_duration t, ms_start := now\<rparr>\<rparr>
      else e\<lparr>t_reordering := t\<rparr>)"

definition rlc_um_init_timer_reordering :: "rlc_um_entity \<Rightarrow> 32 word \<Rightarrow> rlc_um_entity" where
  "rlc_um_init_timer_reordering e ms_durationP =
     e\<lparr>t_reordering := \<lparr>ms_time_out = 0, ms_start = 0, ms_duration = ms_durationP, running = False, timed_out = False\<rparr>\<rparr>"

text \<open>The condition of \<open>rlc_um_check_timer_dar_time_out\<close>.\<close>

definition timer_expired :: "32 word \<Rightarrow> rlc_um_timer \<Rightarrow> bool" where
  "timer_expired now t \<longleftrightarrow>
     (ms_start t < ms_time_out t \<and> (now \<ge> ms_time_out t \<or> now < ms_start t)) \<or>
     (ms_start t > ms_time_out t \<and> now < ms_start t \<and> now \<ge> ms_time_out t)"

section \<open>Configuration (rlc_um_control_primitives.c)\<close>

definition zero_stats :: rlc_um_stats where
  "zero_stats =
     \<lparr>stat_tx_pdcp_sdu = 0, stat_tx_pdcp_bytes = 0, stat_tx_data_pdu = 0, stat_tx_data_bytes = 0, stat_rx_pdcp_sdu = 0,
      stat_rx_pdcp_bytes = 0, stat_rx_data_pdus_duplicate = 0, stat_rx_data_bytes_duplicate = 0, stat_rx_data_pdu = 0,
      stat_rx_data_bytes = 0, stat_rx_data_pdu_dropped = 0, stat_rx_data_bytes_dropped = 0,
      stat_rx_data_pdu_out_of_window = 0, stat_rx_data_bytes_out_of_window = 0, stat_timer_reordering_timed_out = 0\<rparr>"

text \<open>\<open>memset (rlc_pP, 0, sizeof (rlc_um_entity_t))\<close>: the pointer to the reception buffer is NULL.\<close>

definition zero_um :: rlc_um_entity where
  "zero_um =
     \<lparr>initialized = False, protocol_state = RLC_NULL_STATE, is_data_plane = False, is_mxch = False, vt_us = 0, vr_ur = 0,
      vr_ux = 0, vr_uh = 0,
      t_reordering = \<lparr>ms_time_out = 0, ms_start = 0, ms_duration = 0, running = False, timed_out = False\<rparr>,
      tx_sn_length = 0, rx_sn_length = 0, tx_header_min_length_in_bytes = 0, rx_header_min_length_in_bytes = 0,
      tx_sn_modulo = 0, rx_sn_modulo = 0, rx_um_window_size = 0, tx_um_window_size = 0, input_sdus = [],
      buffer_occupancy = 0, nb_bytes_requested_by_mac = 0, pdus_to_mac_layer = [], output_sdu_in_construction = None,
      output_sdu_size_to_write = 0, dar_buffer = [], channel_id = 0, um_rb_id = 0, last_reassemblied_sn = 0,
      last_reassemblied_missing_sn = 0, reassembly_missing_sn_detected = False, first_pdu = False, um_stats = zero_stats\<rparr>"

definition rlc_um_init :: "rlc_um_entity \<Rightarrow> rlc_um_entity" where
  "rlc_um_init e =
     (if initialized e then e
      else zero_um\<lparr>protocol_state := RLC_NULL_STATE, rx_sn_length := 10, rx_header_min_length_in_bytes := 2,
                  tx_sn_length := 10, tx_header_min_length_in_bytes := 2, dar_buffer := replicate 1024 None,
                  first_pdu := True, initialized := True\<rparr>)"

definition rlc_um_reset_state_variables :: "rlc_um_entity \<Rightarrow> rlc_um_entity" where
  "rlc_um_reset_state_variables e = e\<lparr>buffer_occupancy := 0, vt_us := 0, vr_ur := 0, vr_ux := 0, vr_uh := 0\<rparr>"

text \<open>The blocks given back, and the entity.\<close>

definition rlc_um_cleanup :: "rlc_um_entity \<Rightarrow> octet list list \<times> rlc_um_entity" where
  "rlc_um_cleanup e =
     (pdus_to_mac_layer e @ map sdu_data (input_sdus e) @
      (case output_sdu_in_construction e of None \<Rightarrow> [] | Some b \<Rightarrow> [b]) @
      List.map_filter id (take 1024 (dar_buffer e)), zero_um)"

definition rlc_um_configure :: "rlc_um_entity \<Rightarrow> 32 word \<Rightarrow> nat \<Rightarrow> nat \<Rightarrow> nat \<Rightarrow> rlc_um_entity" where
  "rlc_um_configure e timer_reorderingP rx_sn_field_lengthP tx_sn_field_lengthP is_mXchP =
     (if rx_sn_field_lengthP \<notin> {0, 5, 10} then e
      else
        let e1 = (if rx_sn_field_lengthP = 10
                  then e\<lparr>rx_sn_length := 10, rx_sn_modulo := RLC_UM_SN_10_BITS_MODULO,
                         rx_um_window_size := RLC_UM_WINDOW_SIZE_SN_10_BITS, rx_header_min_length_in_bytes := 2\<rparr>
                  else if rx_sn_field_lengthP = 5
                  then e\<lparr>rx_sn_length := 5, rx_sn_modulo := RLC_UM_SN_5_BITS_MODULO,
                         rx_um_window_size := RLC_UM_WINDOW_SIZE_SN_5_BITS, rx_header_min_length_in_bytes := 1\<rparr>
                  else e)
        in
        if tx_sn_field_lengthP \<notin> {0, 5, 10} then e1
        else
          let e2 = (if tx_sn_field_lengthP = 10
                    then e1\<lparr>tx_sn_length := 10, tx_sn_modulo := RLC_UM_SN_10_BITS_MODULO,
                           tx_um_window_size := RLC_UM_WINDOW_SIZE_SN_10_BITS, tx_header_min_length_in_bytes := 2\<rparr>
                    else if tx_sn_field_lengthP = 5
                    then e1\<lparr>tx_sn_length := 5, tx_sn_modulo := RLC_UM_SN_5_BITS_MODULO,
                           tx_um_window_size := RLC_UM_WINDOW_SIZE_SN_5_BITS, tx_header_min_length_in_bytes := 1\<rparr>
                    else e1);
              e3 = (if is_mXchP > 0 then e2\<lparr>tx_um_window_size := 0, rx_um_window_size := 0\<rparr> else e2);
              e4 = e3\<lparr>is_mxch := is_mXchP \<noteq> 0, last_reassemblied_sn := rx_sn_modulo e3 - 1,
                      last_reassemblied_missing_sn := rx_sn_modulo e3 - 1, reassembly_missing_sn_detected := False\<rparr>;
              e5 = (rlc_um_init_timer_reordering e4 timer_reorderingP)\<lparr>first_pdu := True\<rparr>
          in rlc_um_reset_state_variables e5)"

definition rlc_um_set_debug_infos :: "rlc_um_entity \<Rightarrow> bool \<Rightarrow> nat \<Rightarrow> nat \<Rightarrow> rlc_um_entity" where
  "rlc_um_set_debug_infos e srb_flagP rb_idP chan_idP = e\<lparr>um_rb_id := rb_idP, channel_id := chan_idP, is_data_plane := \<not> srb_flagP\<rparr>"

text \<open>\<open>config_req_rlc_um\<close> for the entity found in the collection.\<close>

definition config_req_rlc_um :: "rlc_um_entity \<Rightarrow> bool \<Rightarrow> 32 word \<Rightarrow> nat \<Rightarrow> nat \<Rightarrow> nat \<Rightarrow> nat \<Rightarrow> bool \<times> rlc_um_entity" where
  "config_req_rlc_um e srb_flagP timer_reordering sn_field_length is_mXch rb_idP chan_idP =
     (let (ret, exited, e1) = rlc_um_fsm_notify_event (rlc_um_init e)
            RLC_UM_RECEIVE_CRLC_CONFIG_REQ_ENTER_DATA_TRANSFER_READY_STATE_EVENT
      in (exited,
          if ret \<noteq> 0
          then rlc_um_configure (rlc_um_set_debug_infos e1 srb_flagP rb_idP chan_idP)
                 timer_reordering sn_field_length sn_field_length is_mXch
          else e1))"

text \<open>The generated ASN.1 enumeration \<open>SN_FieldLength\<close> and the table of timer values.\<close>

definition sn_FieldLength_bits :: "int \<Rightarrow> nat option" where
  "sn_FieldLength_bits v = (if v = 0 then Some 5 else if v = 1 then Some 10 else None)"

definition t_Reordering_tab :: "32 word list" where
  "t_Reordering_tab =
     [0, 5, 10, 15, 20, 25, 30, 35, 40, 45, 50, 55, 60, 65, 70, 75, 80, 85, 90, 95, 100, 110, 120, 130, 140, 150, 160,
      170, 180, 190, 200]"

text \<open>
  \<open>config_req_rlc_um_asn1\<close> for the entity found in the collection, as built with Rel10: \<open>ul\<close> is the
  field length of \<open>ul_rlc_pP\<close>, \<open>dl\<close> the field length and the timer index of \<open>dl_rlc_pP\<close>, \<^term>\<open>None\<close>
  for a NULL pointer. For a multicast bearer it is asserted that only \<open>dl_rlc_pP\<close> is given; a failed assertion ends the process
  like the exit of the state machine.
\<close>

definition config_req_rlc_um_asn1 ::
    "bool \<Rightarrow> rlc_um_entity \<Rightarrow> bool \<Rightarrow> nat \<Rightarrow> int option \<Rightarrow> (int \<times> nat) option \<Rightarrow> nat \<Rightarrow> nat \<Rightarrow> bool \<times> rlc_um_entity" where
  "config_req_rlc_um_asn1 enb_flag e srb_flagP mbms_flagP ul dl rb_idP chan_idP =
     (if mbms_flagP \<noteq> 0 \<and> (dl = None \<or> ul \<noteq> None) then (True, e) else
      let (ret, exited, e1) = rlc_um_fsm_notify_event (rlc_um_init e)
            RLC_UM_RECEIVE_CRLC_CONFIG_REQ_ENTER_DATA_TRANSFER_READY_STATE_EVENT;
          e2 = rlc_um_set_debug_infos e1 srb_flagP rb_idP chan_idP;
          ul_len = (case ul of None \<Rightarrow> Some 0 | Some l \<Rightarrow> sn_FieldLength_bits l);
          dl_len = (case dl of None \<Rightarrow> Some 0 | Some (l, t) \<Rightarrow> sn_FieldLength_bits l);
          t_reord = (case dl of None \<Rightarrow> Some 0
                     | Some (l, t) \<Rightarrow> if t < length t_Reordering_tab then Some (t_Reordering_tab ! t) else None)
      in (exited,
          if ret = 0 then e1
          else case (ul_len, dl_len, t_reord) of
            (Some ul_l, Some dl_l, Some tr) \<Rightarrow>
              if enb_flag then rlc_um_configure e2 tr ul_l dl_l mbms_flagP
              else rlc_um_configure e2 tr dl_l ul_l mbms_flagP
          | _ \<Rightarrow> e2))"

end
