(* ===== verification/RlcUmRx.thy ===== *)
theory RlcUmRx
  imports RlcUm
begin

text \<open>
  The receiving side of RLC unacknowledged mode: \<open>rlc_um_reassembly.c\<close>, \<open>rlc_um_dar.c\<close>,
  \<open>rlc_um_receiver.c\<close> and the reception functions of \<open>rlc_um.c\<close>. The state is the entity together with
  the SDUs given to \<open>rlc_data_ind\<close> so far. \<open>alloc\<close> is \<open>get_free_mem_block\<close>: the data area for a size,
  \<^term>\<open>None\<close> for NULL. A PDU is the octets of its transport block. The mutex is taken to be free.
\<close>

type_synonym um_state = "rlc_um_entity \<times> octet list list"
type_synonym allocator = "nat \<Rightarrow> octet list option"

abbreviation on_stats :: "(rlc_um_stats \<Rightarrow> rlc_um_stats) \<Rightarrow> rlc_um_entity \<Rightarrow> rlc_um_entity" where
  "on_stats f e \<equiv> e\<lparr>um_stats := f (um_stats e)\<rparr>"

section \<open>Reassembly (rlc_um_reassembly.c)\<close>

definition rlc_um_clear_rx_sdu :: "rlc_um_entity \<Rightarrow> rlc_um_entity" where
  "rlc_um_clear_rx_sdu e = e\<lparr>output_sdu_size_to_write := 0\<rparr>"

definition sdu_max_size :: "rlc_um_entity \<Rightarrow> nat" where
  "sdu_max_size e = (if is_data_plane e then RLC_SDU_MAX_SIZE_DATA_PLANE else RLC_SDU_MAX_SIZE_CONTROL_PLANE)"

definition rlc_um_reassembly :: "allocator \<Rightarrow> octet list \<Rightarrow> rlc_um_entity \<Rightarrow> rlc_um_entity option" where
  "rlc_um_reassembly alloc src e =
     (if length src \<le> 0 then Some e
      else
        let e1 = (case output_sdu_in_construction e of
                    None \<Rightarrow> e\<lparr>output_sdu_in_construction := alloc (sdu_max_size e), output_sdu_size_to_write := 0\<rparr>
                  | Some b \<Rightarrow> e)
        in case output_sdu_in_construction e1 of
             Some b \<Rightarrow>
               if output_sdu_size_to_write e1 + length src \<le> sdu_max_size e
               then do {
                 b1 \<leftarrow> write_at (output_sdu_size_to_write e1) src b;
                 Some (e1\<lparr>output_sdu_in_construction := Some b1,
                          output_sdu_size_to_write := output_sdu_size_to_write e1 + length src\<rparr>) }
               else Some (e1\<lparr>output_sdu_size_to_write := 0\<rparr>)
           | None \<Rightarrow> Some e1)"

definition rlc_um_send_sdu :: "um_state \<Rightarrow> um_state" where
  "rlc_um_send_sdu s =
     (case output_sdu_in_construction (fst s) of
        None \<Rightarrow> s
      | Some b \<Rightarrow>
          let e = fst s; n = output_sdu_size_to_write e in
          if n > 0
          then (on_stats (\<lambda>t. t\<lparr>stat_rx_pdcp_sdu := stat_rx_pdcp_sdu t + 1, stat_rx_pdcp_bytes := stat_rx_pdcp_bytes t + of_nat n\<rparr>)
                  (e\<lparr>output_sdu_in_construction := None, output_sdu_size_to_write := 0\<rparr>), snd s @ [take n b])
          else (e\<lparr>output_sdu_size_to_write := 0\<rparr>, snd s))"

section \<open>Length indicators\<close>

text \<open>
  The loop of \<open>rlc_um_read_length_indicators\<close>: \<open>pos\<close> is the offset of \<open>e_liP\<close>, \<open>lis\<close> the indicators read
  so far, \<open>sz\<close> is \<open>*data_size_pP\<close>. A read behind the PDU or a write behind \<open>li_array\<close> is a fault.
\<close>

definition li_of_b12 :: "octet \<Rightarrow> octet \<Rightarrow> nat" where
  "li_of_b12 b1 b2 = 16 * unat (b1 AND 0x7F) + unat (drop_bit 4 (b2 AND 0xF0))"

definition li_of_b23 :: "octet \<Rightarrow> octet \<Rightarrow> nat" where
  "li_of_b23 b2 b3 = 256 * unat (b2 AND 0x07) + unat b3"

function read_li_loop :: "octet list \<Rightarrow> nat \<Rightarrow> nat list \<Rightarrow> int \<Rightarrow> (bool \<times> nat list \<times> int) option" where
  "read_li_loop pdu pos lis sz =
     (if \<not> pos + 1 < length pdu then None
      else if \<not> length lis < RLC_UM_SEGMENT_NB_MAX_LI_PER_PDU then None
      else
        let b1 = pdu ! pos; b2 = pdu ! (pos + 1);
            li1 = li_of_b12 b1 b2;
            lis1 = lis @ [li1];
            sz1 = sz - int li1 - 2
        in if b1 AND 0x80 \<noteq> 0 then
             (if \<not> pos + 2 < length pdu then None
              else if \<not> length lis1 < RLC_UM_SEGMENT_NB_MAX_LI_PER_PDU then None
              else
                let li2 = li_of_b23 b2 (pdu ! (pos + 2));
                    lis2 = lis1 @ [li2];
                    sz2 = sz1 - int li2 - 1
                in if length lis2 > RLC_UM_SEGMENT_NB_MAX_LI_PER_PDU then Some (False, lis2, sz2)
                   else if b2 AND 0x08 = 0 then Some (True, lis2, sz2)
                   else read_li_loop pdu (pos + 3) lis2 sz2)
           else Some (length lis1 \<le> RLC_UM_SEGMENT_NB_MAX_LI_PER_PDU, lis1, sz1))"
  by pat_completeness auto

termination
  by (relation "measure (\<lambda>(pdu, pos, lis, sz). length pdu - pos)") auto

declare read_li_loop.simps [simp del]

text \<open>The status, the indicators, the size that remains and the new offset of \<open>*data_ppP\<close>.\<close>

definition rlc_um_read_length_indicators :: "octet list \<Rightarrow> nat \<Rightarrow> int \<Rightarrow> (int \<times> nat list \<times> int \<times> nat) option" where
  "rlc_um_read_length_indicators pdu data_p sz = do {
     (ok, lis, rest) \<leftarrow> read_li_loop pdu data_p [] sz;
     if \<not> ok then Some (- 1, lis, rest, data_p)
     else Some (if rest > 0 then 0 else - 1, lis, rest, data_p + (length lis * 3 + 1) div 2) }"

section \<open>Reassembly of one PDU\<close>

definition slice :: "octet list \<Rightarrow> nat \<Rightarrow> nat \<Rightarrow> octet list option" where
  "slice pdu off n = (if off + n \<le> length pdu then Some (take n (drop off pdu)) else None)"

text \<open>\<open>for (...) \{ rlc_um_reassembly (data_p, li_array[i]); rlc_um_send_sdu; data_p += li_array[i]; \}\<close>\<close>

fun reassemble_lis :: "allocator \<Rightarrow> octet list \<Rightarrow> nat \<Rightarrow> nat list \<Rightarrow> um_state \<Rightarrow> (um_state \<times> nat) option" where
  "reassemble_lis alloc pdu off [] s = Some (s, off)"
| "reassemble_lis alloc pdu off (li # lis) s = do {
     src \<leftarrow> slice pdu off li;
     e1 \<leftarrow> rlc_um_reassembly alloc src (fst s);
     reassemble_lis alloc pdu (off + li) lis (rlc_um_send_sdu (e1, snd s)) }"

definition drop_pdu :: "octet list \<Rightarrow> rlc_um_entity \<Rightarrow> rlc_um_entity" where
  "drop_pdu pdu e = on_stats (\<lambda>t. t\<lparr>stat_rx_data_pdu_dropped := stat_rx_data_pdu_dropped t + 1,
     stat_rx_data_bytes_dropped := stat_rx_data_bytes_dropped t + of_nat (length pdu)\<rparr>) e"

text \<open>A PDU whose data field follows the fixed part at once.\<close>

definition reassemble_no_li :: "allocator \<Rightarrow> octet list \<Rightarrow> nat \<Rightarrow> octet list \<Rightarrow> um_state \<Rightarrow> um_state option" where
  "reassemble_no_li alloc pdu fi data s =
     (let e = fst s in
      if fi = 0 then do {
        e1 \<leftarrow> rlc_um_reassembly alloc data (rlc_um_clear_rx_sdu e);
        let s1 = rlc_um_send_sdu (e1, snd s);
        Some ((fst s1)\<lparr>reassembly_missing_sn_detected := False\<rparr>, snd s1) }
      else if fi = 1 then do {
        e1 \<leftarrow> rlc_um_reassembly alloc data (rlc_um_clear_rx_sdu e);
        Some (e1\<lparr>reassembly_missing_sn_detected := False\<rparr>, snd s) }
      else if fi = 2 then
        (if \<not> reassembly_missing_sn_detected e then do {
           e1 \<leftarrow> rlc_um_reassembly alloc data e;
           let s1 = rlc_um_send_sdu (e1, snd s);
           Some ((fst s1)\<lparr>reassembly_missing_sn_detected := False\<rparr>, snd s1) }
         else Some ((drop_pdu pdu e)\<lparr>reassembly_missing_sn_detected := False\<rparr>, snd s))
      else
        (if \<not> reassembly_missing_sn_detected e then do {
           e1 \<leftarrow> rlc_um_reassembly alloc data e;
           Some (e1, snd s) }
         else Some ((drop_pdu pdu e)\<lparr>reassembly_missing_sn_detected := True\<rparr>, snd s)))"

text \<open>A PDU with length indicators \<open>lis\<close>; \<open>off\<close> is the offset of the data field, \<open>n\<close> the size of its last part.\<close>

definition reassemble_li :: "allocator \<Rightarrow> octet list \<Rightarrow> nat \<Rightarrow> nat list \<Rightarrow> nat \<Rightarrow> nat \<Rightarrow> um_state \<Rightarrow> um_state option" where
  "reassemble_li alloc pdu fi lis off n s =
     (let e = fst s;
          skip = (fi \<ge> 2 \<and> reassembly_missing_sn_detected e);
          e1 = (if fi < 2 then rlc_um_clear_rx_sdu e
                else if skip
                then on_stats (\<lambda>t. t\<lparr>stat_rx_data_bytes_dropped := stat_rx_data_bytes_dropped t + of_nat (lis ! 0)\<rparr>) e
                else e)
      in do {
        (s1, off1) \<leftarrow> reassemble_lis alloc pdu (if skip then off + lis ! 0 else off) (if skip then drop 1 lis else lis) (e1, snd s);
        src \<leftarrow> slice pdu off1 n;
        e2 \<leftarrow> rlc_um_reassembly alloc src (fst s1);
        let s2 = (if fi = 0 \<or> fi = 2 then rlc_um_send_sdu (e2, snd s1) else (e2, snd s1));
        Some ((fst s2)\<lparr>reassembly_missing_sn_detected := False\<rparr>, snd s2) })"

text \<open>The body of the loop of \<open>rlc_um_try_reassembly\<close> for a PDU that is there.\<close>

definition reassemble_pdu :: "allocator \<Rightarrow> octet list \<Rightarrow> um_state \<Rightarrow> um_state option" where
  "reassemble_pdu alloc pdu s =
     (let hl = (if rx_sn_length (fst s) = 10 then 2 else 1) in
      if length pdu < hl \<or> length pdu < 1 then None
      else
        let b1 = pdu ! 0;
            ext = (if rx_sn_length (fst s) = 10 then b1 AND 0x04 \<noteq> 0 else b1 AND 0x20 \<noteq> 0);
            fi = (if rx_sn_length (fst s) = 10 then unat (drop_bit 3 (b1 AND 0x18)) else unat (drop_bit 6 (b1 AND 0xC0)))
        in if \<not> ext then reassemble_no_li alloc pdu fi (drop hl pdu) s
           else do {
             (rc, lis, rest, off) \<leftarrow> rlc_um_read_length_indicators pdu hl (int (length pdu) - int hl);
             if rc \<ge> 0 then reassemble_li alloc pdu fi lis off (nat rest) s
             else Some ((drop_pdu pdu (fst s))\<lparr>reassembly_missing_sn_detected := True\<rparr>, snd s) })"

section \<open>Reception buffer and windows (rlc_um_dar.c)\<close>

definition rlc_um_get_pdu_from_dar_buffer :: "rlc_um_entity \<Rightarrow> int \<Rightarrow> octet list option option" where
  "rlc_um_get_pdu_from_dar_buffer e snP =
     (if 0 \<le> snP \<and> snP < int (length (dar_buffer e)) then Some (dar_buffer e ! nat snP) else None)"

definition rlc_um_remove_pdu_from_dar_buffer :: "int \<Rightarrow> rlc_um_entity \<Rightarrow> rlc_um_entity" where
  "rlc_um_remove_pdu_from_dar_buffer snP e = e\<lparr>dar_buffer := (dar_buffer e)[nat snP := None]\<rparr>"

definition rlc_um_store_pdu_in_dar_buffer :: "octet list \<Rightarrow> int \<Rightarrow> rlc_um_entity \<Rightarrow> rlc_um_entity" where
  "rlc_um_store_pdu_in_dar_buffer pdu snP e = e\<lparr>dar_buffer := (dar_buffer e)[nat snP := Some pdu]\<rparr>"

text \<open>The body of the loop of \<open>rlc_um_try_reassembly\<close> for one sequence number.\<close>

definition slot_body :: "allocator \<Rightarrow> int \<Rightarrow> octet list option \<Rightarrow> um_state \<Rightarrow> um_state option" where
  "slot_body alloc sn slot s =
     (case slot of
        Some pdu \<Rightarrow>
          let e = fst s;
              e1 = (if c_mod (last_reassemblied_sn e + 1) (rx_sn_modulo e) \<noteq> sn then rlc_um_clear_rx_sdu e else e)
          in do {
            (e2, out) \<leftarrow> reassemble_pdu alloc pdu (e1\<lparr>last_reassemblied_sn := sn\<rparr>, snd s);
            Some (rlc_um_remove_pdu_from_dar_buffer sn e2, out) }
      | None \<Rightarrow>
          Some (rlc_um_clear_rx_sdu ((fst s)\<lparr>last_reassemblied_missing_sn := sn, reassembly_missing_sn_detected := True\<rparr>), snd s))"

text \<open>The loop of \<open>rlc_um_try_reassembly\<close>. One round per sequence number is all it can take.\<close>

fun try_reassembly_loop :: "nat \<Rightarrow> allocator \<Rightarrow> int \<Rightarrow> int \<Rightarrow> um_state \<Rightarrow> um_state option" where
  "try_reassembly_loop 0 alloc end_sn sn s = None"
| "try_reassembly_loop (Suc fuel) alloc end_sn sn s = do {
     slot \<leftarrow> rlc_um_get_pdu_from_dar_buffer (fst s) sn;
     s1 \<leftarrow> slot_body alloc sn slot s;
     let sn1 = c_mod (sn + 1) (rx_sn_modulo (fst s1));
     if sn1 = vr_uh (fst s1) \<or> sn1 = end_sn then Some s1
     else try_reassembly_loop fuel alloc end_sn sn1 s1 }"

definition rlc_um_try_reassembly :: "allocator \<Rightarrow> int \<Rightarrow> int \<Rightarrow> um_state \<Rightarrow> um_state option" where
  "rlc_um_try_reassembly alloc start_snP end_snP s =
     (let m = rx_sn_modulo (fst s);
          end_sn = (if end_snP < 0 then end_snP + m else end_snP);
          start_sn = (if start_snP < 0 then start_snP + m else start_snP)
      in if start_sn = end_sn then Some s
         else try_reassembly_loop (nat m) alloc end_sn start_sn s)"

definition rlc_um_in_window :: "rlc_um_entity \<Rightarrow> int \<Rightarrow> int \<Rightarrow> int \<Rightarrow> int" where
  "rlc_um_in_window e lower_boundP snP higher_boundP =
     (let modulus = vr_uh e - rx_um_window_size e;
          lower = c_mod (lower_boundP - modulus) (rx_sn_modulo e);
          higher = c_mod (higher_boundP - modulus) (rx_sn_modulo e);
          sn = c_mod (snP - modulus) (rx_sn_modulo e)
      in if lower > sn then - 2
         else if higher < sn then - 1
         else if lower = sn then (if higher = sn then 3 else 1)
         else if higher = sn then 2
         else 0)"

definition rlc_um_in_reordering_window :: "rlc_um_entity \<Rightarrow> int \<Rightarrow> int" where
  "rlc_um_in_reordering_window e snP =
     (let modulus = vr_uh e - rx_um_window_size e;
          sn_mod = c_mod (snP - modulus) (rx_sn_modulo e)
      in if 0 \<le> sn_mod \<and> sn_mod < rx_um_window_size e then 0 else - 1)"

section \<open>Reception of a PDU\<close>

text \<open>
  The parts of \<open>rlc_um_receive_process_dar\<close>. First the PDU that falls outside of the reordering
  window: move the window, reassemble what has fallen out of it, move VR(UR) into it.
\<close>

definition dar_move_window :: "allocator \<Rightarrow> int \<Rightarrow> um_state \<Rightarrow> um_state option" where
  "dar_move_window alloc sn s =
     (if rlc_um_in_reordering_window (fst s) sn < 0 then
        let e = (fst s)\<lparr>vr_uh := c_mod (sn + 1) (rx_sn_modulo (fst s))\<rparr>;
            w = vr_uh e - rx_um_window_size e;
            in_window = (if w < 0 then w + rx_sn_modulo e else w)
        in if rlc_um_in_reordering_window e (vr_ur e) \<noteq> 0 then do {
             s1 \<leftarrow> rlc_um_try_reassembly alloc (vr_ur e) in_window (e, snd s);
             Some (if rlc_um_in_reordering_window (fst s1) (vr_ur (fst s1)) < 0
                   then ((fst s1)\<lparr>vr_ur := in_window\<rparr>, snd s1) else s1) }
           else Some (e, snd s)
      else Some s)"

text \<open>The \<open>do ... while\<close> loop that moves VR(UR) over the PDUs received.\<close>

fun advance_vr_ur :: "nat \<Rightarrow> rlc_um_entity \<Rightarrow> rlc_um_entity option" where
  "advance_vr_ur 0 e = None"
| "advance_vr_ur (Suc fuel) e = do {
     let e1 = e\<lparr>vr_ur := c_mod (vr_ur e + 1) (rx_sn_modulo e)\<rparr>;
     slot \<leftarrow> rlc_um_get_pdu_from_dar_buffer e1 (vr_ur e1);
     if slot \<noteq> None \<and> vr_ur e1 \<noteq> vr_uh e1 then advance_vr_ur fuel e1 else Some e1 }"

definition dar_advance :: "allocator \<Rightarrow> int \<Rightarrow> um_state \<Rightarrow> um_state option" where
  "dar_advance alloc sn s = do {
     slot \<leftarrow> (if sn = vr_ur (fst s) then rlc_um_get_pdu_from_dar_buffer (fst s) (vr_ur (fst s)) else Some None);
     if slot \<noteq> None then do {
       e1 \<leftarrow> advance_vr_ur (nat (rx_sn_modulo (fst s))) (fst s);
       rlc_um_try_reassembly alloc sn (vr_ur e1) (e1, snd s) }
     else Some s }"

text \<open>Stop or start t-Reordering.\<close>

definition dar_timer :: "32 word \<Rightarrow> rlc_um_entity \<Rightarrow> rlc_um_entity" where
  "dar_timer now e =
     (let e1 = (if running (t_reordering e) \<and> vr_uh e \<noteq> vr_ux e \<and> rlc_um_in_reordering_window e (vr_ux e) < 0
                then rlc_um_stop_and_reset_timer_reordering e else e);
          w = rlc_um_in_window e1 (vr_ur e1) (vr_ux e1) (vr_uh e1);
          e2 = (if running (t_reordering e1) \<and> (w = - 2 \<or> w = 1) then rlc_um_stop_and_reset_timer_reordering e1 else e1)
      in if \<not> running (t_reordering e2) \<and> rlc_um_in_window e2 (vr_ur e2) (vr_uh e2) (vr_uh e2) = 2
         then (rlc_um_start_timer_reordering now e2)\<lparr>vr_ux := vr_uh e2\<rparr>
         else e2)"

definition pdu_sn :: "nat \<Rightarrow> octet list \<Rightarrow> int option" where
  "pdu_sn sn_length pdu =
     (if sn_length = 10 then (if 2 \<le> length pdu then Some (256 * uint (pdu ! 0 AND 0x03) + uint (pdu ! 1)) else None)
      else if sn_length = 5 then (if 1 \<le> length pdu then Some (uint (pdu ! 0 AND 0x1F)) else None)
      else None)"

definition rlc_um_receive_process_dar :: "32 word \<Rightarrow> allocator \<Rightarrow> octet list \<Rightarrow> um_state \<Rightarrow> um_state option" where
  "rlc_um_receive_process_dar now alloc pdu s = do {
     let e = fst s;
     sn \<leftarrow> pdu_sn (rx_sn_length e) pdu;
     let in_window = rlc_um_in_window e (vr_uh e - rx_um_window_size e) sn (vr_ur e);
     if in_window = 1 \<or> in_window = 0
     then Some (on_stats (\<lambda>t. t\<lparr>stat_rx_data_pdu_out_of_window := stat_rx_data_pdu_out_of_window t + 1,
                  stat_rx_data_bytes_out_of_window := stat_rx_data_bytes_out_of_window t + of_nat (length pdu)\<rparr>) e, snd s)
     else do {
       slot \<leftarrow> rlc_um_get_pdu_from_dar_buffer e sn;
       let e1 = (if slot \<noteq> None
                 then on_stats (\<lambda>t. t\<lparr>stat_rx_data_pdus_duplicate := stat_rx_data_pdus_duplicate t + 1,
                        stat_rx_data_bytes_duplicate := stat_rx_data_bytes_duplicate t + of_nat (length pdu)\<rparr>) e
                 else e);
       if slot \<noteq> None \<and> rlc_um_in_window e (vr_ur e) sn (vr_uh e) = 0 then Some (e1, snd s)
       else do {
         let e2 = (if slot \<noteq> None then rlc_um_remove_pdu_from_dar_buffer sn e1 else e1);
         let e3 = rlc_um_store_pdu_in_dar_buffer pdu sn e2;
         s1 \<leftarrow> dar_move_window alloc sn (e3, snd s);
         s2 \<leftarrow> dar_advance alloc sn s1;
         Some (dar_timer now (fst s2), snd s2) } } }"

section \<open>Expiry of t-Reordering\<close>

fun skip_received :: "nat \<Rightarrow> rlc_um_entity \<Rightarrow> rlc_um_entity option" where
  "skip_received 0 e = None"
| "skip_received (Suc fuel) e = do {
     slot \<leftarrow> rlc_um_get_pdu_from_dar_buffer e (vr_ur e);
     if slot \<noteq> None then skip_received fuel (e\<lparr>vr_ur := c_mod (vr_ur e + 1) (rx_sn_modulo e)\<rparr>) else Some e }"

definition rlc_um_check_timer_dar_time_out :: "32 word \<Rightarrow> allocator \<Rightarrow> um_state \<Rightarrow> um_state option" where
  "rlc_um_check_timer_dar_time_out now alloc s =
     (let e = fst s in
      if running (t_reordering e) \<and> timer_expired now (t_reordering e) then do {
        let e1 = on_stats (\<lambda>t. t\<lparr>stat_timer_reordering_timed_out := stat_timer_reordering_timed_out t + 1\<rparr>) e;
        let old_vr_ur = vr_ur e1;
        e2 \<leftarrow> skip_received (nat (rx_sn_modulo e1) + 1) (e1\<lparr>vr_ur := vr_ux e1\<rparr>);
        s3 \<leftarrow> rlc_um_try_reassembly alloc old_vr_ur (vr_ur e2) (e2, snd s);
        let e3 = fst s3;
        Some (if rlc_um_in_window e3 (vr_ur e3) (vr_uh e3) (vr_uh e3) = 2
              then (rlc_um_start_timer_reordering now e3)\<lparr>vr_ux := vr_uh e3\<rparr>
              else rlc_um_stop_and_reset_timer_reordering e3, snd s3) }
      else Some s)"

section \<open>Receiver (rlc_um_receiver.c, rlc_um.c)\<close>

fun rlc_um_receive :: "32 word \<Rightarrow> allocator \<Rightarrow> octet list list \<Rightarrow> um_state \<Rightarrow> um_state option" where
  "rlc_um_receive now alloc [] s = Some s"
| "rlc_um_receive now alloc (pdu # pdus) s = do {
     let e = on_stats (\<lambda>t. t\<lparr>stat_rx_data_bytes := stat_rx_data_bytes t + of_nat (length pdu),
                             stat_rx_data_pdu := stat_rx_data_pdu t + 1\<rparr>) (fst s);
     s1 \<leftarrow> (if length pdu > 0 then rlc_um_receive_process_dar now alloc pdu (e, snd s) else Some (e, snd s));
     rlc_um_receive now alloc pdus s1 }"

definition rlc_um_rx :: "32 word \<Rightarrow> allocator \<Rightarrow> octet list list \<Rightarrow> um_state \<Rightarrow> um_state option" where
  "rlc_um_rx now alloc pdus s =
     (case protocol_state (fst s) of
        RLC_NULL_STATE \<Rightarrow> Some s
      | RLC_DATA_TRANSFER_READY_STATE \<Rightarrow> rlc_um_receive now alloc pdus s
      | RLC_LOCAL_SUSPEND_STATE \<Rightarrow> Some s
      | RLC_RESET_PENDING_STATE \<Rightarrow> Some s
      | RLC_RESET_AND_SUSPEND_STATE \<Rightarrow> Some s)"

definition rlc_um_mac_data_indication :: "32 word \<Rightarrow> allocator \<Rightarrow> octet list list \<Rightarrow> um_state \<Rightarrow> um_state option" where
  "rlc_um_mac_data_indication now alloc pdus s = do {
     s1 \<leftarrow> rlc_um_rx now alloc pdus s;
     rlc_um_check_timer_dar_time_out now alloc s1 }"

section \<open>Frame of the reassembly\<close>

text \<open>
  What reassembly reads and writes, \<open>core\<close>, and everything else, \<open>rest\<close>. The statistics are written
  but never read.
\<close>

definition core :: "rlc_um_entity \<Rightarrow> octet list option \<times> nat \<times> bool \<times> bool \<times> nat" where
  "core e = (output_sdu_in_construction e, output_sdu_size_to_write e, reassembly_missing_sn_detected e, is_data_plane e, rx_sn_length e)"

definition rest :: "rlc_um_entity \<Rightarrow> rlc_um_entity" where
  "rest e = e\<lparr>output_sdu_in_construction := None, output_sdu_size_to_write := 0, reassembly_missing_sn_detected := False,
     um_stats := zero_stats\<rparr>"

definition core_st :: "um_state \<Rightarrow> (octet list option \<times> nat \<times> bool \<times> bool \<times> nat) \<times> octet list list" where
  "core_st s = (core (fst s), snd s)"

lemma rest_fields:
  assumes "rest e' = rest e"
  shows "vr_ur e' = vr_ur e" "vr_ux e' = vr_ux e" "vr_uh e' = vr_uh e" "t_reordering e' = t_reordering e"
    "rx_sn_modulo e' = rx_sn_modulo e" "rx_um_window_size e' = rx_um_window_size e" "dar_buffer e' = dar_buffer e"
    "last_reassemblied_sn e' = last_reassemblied_sn e" "protocol_state e' = protocol_state e" "rx_sn_length e' = rx_sn_length e"
    "is_data_plane e' = is_data_plane e"
  using arg_cong [OF assms, of vr_ur] arg_cong [OF assms, of vr_ux] arg_cong [OF assms, of vr_uh] arg_cong [OF assms, of t_reordering]
    arg_cong [OF assms, of rx_sn_modulo] arg_cong [OF assms, of rx_um_window_size] arg_cong [OF assms, of dar_buffer]
    arg_cong [OF assms, of last_reassemblied_sn] arg_cong [OF assms, of protocol_state] arg_cong [OF assms, of rx_sn_length]
    arg_cong [OF assms, of is_data_plane]
  by (simp_all add: rest_def)

lemma reassembly_rest: "rlc_um_reassembly alloc src e = Some e' \<Longrightarrow> rest e' = rest e"
  by (auto simp: rlc_um_reassembly_def rest_def Let_def bind_eq_Some_conv split: option.splits if_splits)

lemma reassembly_core_eq:
  "map_option core (rlc_um_reassembly alloc src e) =
     (if src = [] then Some (core e)
      else case (case output_sdu_in_construction e of None \<Rightarrow> alloc (sdu_max_size e) | Some b \<Rightarrow> Some b) of
        None \<Rightarrow> Some (None, 0, snd (snd (core e)))
      | Some b \<Rightarrow>
          let n = (if output_sdu_in_construction e = None then 0 else output_sdu_size_to_write e) in
          if n + length src \<le> sdu_max_size e
          then map_option (\<lambda>b1. (Some b1, n + length src, snd (snd (core e)))) (write_at n src b)
          else Some (Some b, 0, snd (snd (core e))))"
proof (cases "output_sdu_in_construction e")
  case None
  show ?thesis
  proof (cases "alloc (sdu_max_size e)")
    case (Some b)
    then show ?thesis using \<open>output_sdu_in_construction e = None\<close>
      by (cases "write_at 0 src b") (simp_all add: rlc_um_reassembly_def core_def)
  qed (use None in \<open>simp add: rlc_um_reassembly_def core_def\<close>)
next
  case (Some b)
  then show ?thesis
    by (cases "write_at (output_sdu_size_to_write e) src b") (simp_all add: rlc_um_reassembly_def core_def)
qed

lemma reassembly_core:
  assumes "core e = core e'"
  shows "map_option core (rlc_um_reassembly alloc src e) = map_option core (rlc_um_reassembly alloc src e')"
proof -
  have "output_sdu_in_construction e = output_sdu_in_construction e'" "output_sdu_size_to_write e = output_sdu_size_to_write e'"
      "sdu_max_size e = sdu_max_size e'"
    using assms by (simp_all add: core_def sdu_max_size_def)
  then show ?thesis unfolding reassembly_core_eq by (simp only: assms)
qed

lemma send_sdu_rest: "rest (fst (rlc_um_send_sdu s)) = rest (fst s)"
  by (auto simp: rlc_um_send_sdu_def rest_def Let_def split: option.splits)

lemma send_sdu_core_eq:
  "core_st (rlc_um_send_sdu s) =
     (case fst (core (fst s)) of
        None \<Rightarrow> core_st s
      | Some b \<Rightarrow>
          if fst (snd (core (fst s))) > 0 then ((None, 0, snd (snd (core (fst s)))), snd s @ [take (fst (snd (core (fst s)))) b])
          else ((Some b, 0, snd (snd (core (fst s)))), snd s))"
  by (simp add: rlc_um_send_sdu_def core_st_def core_def Let_def split: option.split)

lemma send_sdu_core: "core_st s = core_st s' \<Longrightarrow> core_st (rlc_um_send_sdu s) = core_st (rlc_um_send_sdu s')"
proof -
  assume eq: "core_st s = core_st s'"
  then have "core (fst s) = core (fst s')" "snd s = snd s'" by (simp_all add: core_st_def)
  then show ?thesis unfolding send_sdu_core_eq by (simp only: eq)
qed

lemma clear_rest [simp]: "rest (rlc_um_clear_rx_sdu e) = rest e"
  by (simp add: rlc_um_clear_rx_sdu_def rest_def)

lemma drop_pdu_rest [simp]: "rest (drop_pdu pdu e) = rest e" "core (drop_pdu pdu e) = core e"
  by (simp_all add: drop_pdu_def rest_def core_def)

lemma missing_rest [simp]: "rest (e\<lparr>reassembly_missing_sn_detected := b\<rparr>) = rest e"
  by (simp add: rest_def)

lemma stats_rest [simp]: "rest (e\<lparr>um_stats := t\<rparr>) = rest e" "core (e\<lparr>um_stats := t\<rparr>) = core e"
  by (simp_all add: rest_def core_def)

lemma reassemble_lis_rest: "reassemble_lis alloc pdu off lis s = Some (s', off') \<Longrightarrow> rest (fst s') = rest (fst s)"
proof (induction lis arbitrary: off s)
  case (Cons li lis)
  then obtain src e1 where "rlc_um_reassembly alloc src (fst s) = Some e1"
    "reassemble_lis alloc pdu (off + li) lis (rlc_um_send_sdu (e1, snd s)) = Some (s', off')"
    by (auto simp: bind_eq_Some_conv)
  from Cons.IH [OF this(2)] reassembly_rest [OF this(1)] show ?case using send_sdu_rest [of "(e1, snd s)"] by simp
qed simp

lemma reassemble_no_li_rest: "reassemble_no_li alloc pdu fi d s = Some s' \<Longrightarrow> rest (fst s') = rest (fst s)"
  by (auto simp: reassemble_no_li_def Let_def bind_eq_Some_conv send_sdu_rest dest!: reassembly_rest split: if_splits)

lemma reassemble_li_rest: "reassemble_li alloc pdu fi lis off n s = Some s' \<Longrightarrow> rest (fst s') = rest (fst s)"
  by (auto simp: reassemble_li_def Let_def bind_eq_Some_conv send_sdu_rest dest!: reassembly_rest reassemble_lis_rest split: if_splits)

lemma reassemble_pdu_rest: "reassemble_pdu alloc pdu s = Some s' \<Longrightarrow> rest (fst s') = rest (fst s)"
  by (auto simp: reassemble_pdu_def Let_def bind_eq_Some_conv dest!: reassemble_no_li_rest reassemble_li_rest split: if_splits)

lemma bind_map_cong:
  assumes "map_option f a = map_option f b" "\<And>x y. f x = f y \<Longrightarrow> map_option g (F x) = map_option g (G y)"
  shows "map_option g (Option.bind a F) = map_option g (Option.bind b G)"
  using assms by (cases a; cases b) auto

lemma core_st_pair: "core e = core e' \<Longrightarrow> core_st (e, out) = core_st (e', out)"
  by (simp add: core_st_def)

lemma core_st_fields:
  assumes "core_st s = core_st s'"
  shows "core (fst s) = core (fst s')" "snd s = snd s'"
    "reassembly_missing_sn_detected (fst s) = reassembly_missing_sn_detected (fst s')" "rx_sn_length (fst s) = rx_sn_length (fst s')"
  using assms by (simp_all add: core_st_def core_def)

lemma core_upd:
  assumes "core e = core e'"
  shows "core (rlc_um_clear_rx_sdu e) = core (rlc_um_clear_rx_sdu e')"
    "core (e\<lparr>reassembly_missing_sn_detected := b\<rparr>) = core (e'\<lparr>reassembly_missing_sn_detected := b\<rparr>)"
  using assms by (simp_all add: core_def rlc_um_clear_rx_sdu_def)

lemma core_st_missing:
  assumes "core_st s = core_st s'"
  shows "core_st ((fst s)\<lparr>reassembly_missing_sn_detected := b\<rparr>, snd s) = core_st ((fst s')\<lparr>reassembly_missing_sn_detected := b\<rparr>, snd s')"
  using assms by (simp add: core_st_def core_def)

lemma reassemble_lis_core:
  assumes "core_st s = core_st s'"
  shows "map_option (map_prod core_st id) (reassemble_lis alloc pdu off lis s) =
    map_option (map_prod core_st id) (reassemble_lis alloc pdu off lis s')"
  using assms
proof (induction lis arbitrary: off s s')
  case (Cons li lis)
  note c = core_st_fields [OF Cons.prems]
  show ?case
  proof (cases "slice pdu off li")
    case (Some src)
    have "map_option (map_prod core_st id) (Option.bind (rlc_um_reassembly alloc src (fst s)) (\<lambda>e1. reassemble_lis alloc pdu (off + li) lis (rlc_um_send_sdu (e1, snd s)))) =
        map_option (map_prod core_st id) (Option.bind (rlc_um_reassembly alloc src (fst s')) (\<lambda>e1. reassemble_lis alloc pdu (off + li) lis (rlc_um_send_sdu (e1, snd s'))))"
      unfolding c(2) by (rule bind_map_cong [OF reassembly_core [OF c(1)]]) (intro Cons.IH send_sdu_core core_st_pair)
    then show ?thesis using Some by (simp only: reassemble_lis.simps Option.bind.simps)
  qed simp
qed simp

lemma reassemble_no_li_core:
  assumes "core_st s = core_st s'"
  shows "map_option core_st (reassemble_no_li alloc pdu fi d s) = map_option core_st (reassemble_no_li alloc pdu fi d s')"
proof -
  note c = core_st_fields [OF assms]
  have a: "map_option core_st (Option.bind (rlc_um_reassembly alloc d e) (\<lambda>e1. Some ((fst (rlc_um_send_sdu (e1, snd s')))\<lparr>reassembly_missing_sn_detected := b\<rparr>, snd (rlc_um_send_sdu (e1, snd s'))))) =
      map_option core_st (Option.bind (rlc_um_reassembly alloc d e') (\<lambda>e1. Some ((fst (rlc_um_send_sdu (e1, snd s')))\<lparr>reassembly_missing_sn_detected := b\<rparr>, snd (rlc_um_send_sdu (e1, snd s')))))"
    if "core e = core e'" for e e' b
    by (rule bind_map_cong [OF reassembly_core [OF that]]) (unfold option.map, intro arg_cong [where f = Some] core_st_missing send_sdu_core core_st_pair)
  have b: "map_option core_st (Option.bind (rlc_um_reassembly alloc d e) (\<lambda>e1. Some (e1\<lparr>reassembly_missing_sn_detected := b\<rparr>, snd s'))) =
      map_option core_st (Option.bind (rlc_um_reassembly alloc d e') (\<lambda>e1. Some (e1\<lparr>reassembly_missing_sn_detected := b\<rparr>, snd s')))"
    if "core e = core e'" for e e' b
    by (rule bind_map_cong [OF reassembly_core [OF that]]) (simp add: core_st_def core_def)
  have d: "map_option core_st (Option.bind (rlc_um_reassembly alloc d e) (\<lambda>e1. Some (e1, snd s'))) =
      map_option core_st (Option.bind (rlc_um_reassembly alloc d e') (\<lambda>e1. Some (e1, snd s')))"
    if "core e = core e'" for e e'
    by (rule bind_map_cong [OF reassembly_core [OF that]]) (simp add: core_st_def)
  have e: "core_st ((drop_pdu pdu (fst s))\<lparr>reassembly_missing_sn_detected := b\<rparr>, snd s') =
      core_st ((drop_pdu pdu (fst s'))\<lparr>reassembly_missing_sn_detected := b\<rparr>, snd s')" for b
    using c(1) by (simp add: core_st_def core_def drop_pdu_def)
  show ?thesis
    unfolding reassemble_no_li_def Let_def c(2,3)
    using a [OF core_upd(1) [OF c(1)], of False] b [OF core_upd(1) [OF c(1)], of False] a [OF c(1), of False] d [OF c(1)]
      e [of False] e [of True]
    by (simp only: option.map split: if_split) blast
qed

lemma reassemble_li_core:
  assumes "core_st s = core_st s'"
  shows "map_option core_st (reassemble_li alloc pdu fi lis off n s) = map_option core_st (reassemble_li alloc pdu fi lis off n s')"
proof -
  note c = core_st_fields [OF assms]
  let ?skip = "fi \<ge> 2 \<and> reassembly_missing_sn_detected (fst s')"
  let ?e1 = "\<lambda>e. if fi < 2 then rlc_um_clear_rx_sdu e
                else if ?skip
                then on_stats (\<lambda>t. t\<lparr>stat_rx_data_bytes_dropped := stat_rx_data_bytes_dropped t + of_nat (lis ! 0)\<rparr>) e
                else e"
  let ?last = "\<lambda>s1 e2. Some ((fst (if fi = 0 \<or> fi = 2 then rlc_um_send_sdu (e2, snd s1) else (e2, snd s1)))\<lparr>reassembly_missing_sn_detected := False\<rparr>,
        snd (if fi = 0 \<or> fi = 2 then rlc_um_send_sdu (e2, snd s1) else (e2, snd s1)))"
  let ?k = "\<lambda>(s1, off1). Option.bind (slice pdu off1 n) (\<lambda>src. Option.bind (rlc_um_reassembly alloc src (fst s1)) (?last s1))"
  have e1: "core_st (?e1 (fst s), snd s) = core_st (?e1 (fst s'), snd s')"
  proof -
    have "core (?e1 (fst s)) = core (?e1 (fst s'))"
      by (cases "fi < 2"; cases ?skip) (simp_all only: simp_thms if_True if_False stats_rest core_upd(1) [OF c(1)] c(1))
    then show ?thesis unfolding c(2) by (rule core_st_pair)
  qed
  have last: "map_option core_st (?last s1 x) = map_option core_st (?last s2 y)" if "core x = core y" "snd s1 = snd s2" for s1 s2 x y
  proof -
    have "core_st (if fi = 0 \<or> fi = 2 then rlc_um_send_sdu (x, snd s2) else (x, snd s2)) =
        core_st (if fi = 0 \<or> fi = 2 then rlc_um_send_sdu (y, snd s2) else (y, snd s2))"
      by (cases "fi = 0 \<or> fi = 2") (simp_all only: if_True if_False send_sdu_core [OF core_st_pair [OF that(1)]] core_st_pair [OF that(1)])
    then show ?thesis unfolding option.map that(2) by (intro arg_cong [where f = Some] core_st_missing)
  qed
  have k: "map_option core_st (?k x) = map_option core_st (?k y)" if "map_prod core_st id x = map_prod core_st id y" for x y
  proof -
    obtain s1 o1 s2 where xy: "x = (s1, o1)" "y = (s2, o1)" "core_st s1 = core_st s2"
      using \<open>map_prod core_st id x = map_prod core_st id y\<close> by (cases x; cases y) auto
    note d = core_st_fields [OF xy(3)]
    show ?thesis
    proof (cases "slice pdu o1 n")
      case (Some src)
      have "map_option core_st (Option.bind (rlc_um_reassembly alloc src (fst s1)) (?last s1)) =
          map_option core_st (Option.bind (rlc_um_reassembly alloc src (fst s2)) (?last s2))"
        by (rule bind_map_cong [OF reassembly_core [OF d(1)]]) (rule last [OF _ d(2)])
      then show ?thesis using xy Some by (simp only: prod.case Option.bind.simps)
    qed (simp only: xy prod.case Option.bind.simps option.map)
  qed
  have "map_option core_st (Option.bind (reassemble_lis alloc pdu (if ?skip then off + lis ! 0 else off) (if ?skip then drop 1 lis else lis) (?e1 (fst s), snd s)) ?k) =
      map_option core_st (Option.bind (reassemble_lis alloc pdu (if ?skip then off + lis ! 0 else off) (if ?skip then drop 1 lis else lis) (?e1 (fst s'), snd s')) ?k)"
    by (rule bind_map_cong [OF reassemble_lis_core [OF e1] k])
  then show ?thesis unfolding reassemble_li_def Let_def c(3) .
qed

lemma reassemble_pdu_core:
  assumes "core_st s = core_st s'"
  shows "map_option core_st (reassemble_pdu alloc pdu s) = map_option core_st (reassemble_pdu alloc pdu s')"
proof -
  note c = core_st_fields [OF assms]
  let ?hl = "if rx_sn_length (fst s') = 10 then 2 else 1 :: nat"
  have d: "core_st ((drop_pdu pdu (fst s))\<lparr>reassembly_missing_sn_detected := True\<rparr>, snd s) =
      core_st ((drop_pdu pdu (fst s'))\<lparr>reassembly_missing_sn_detected := True\<rparr>, snd s')"
    using c(1,2) by (simp add: core_st_def core_def drop_pdu_def)
  have x: "map_option core_st (if rc \<ge> 0 then reassemble_li alloc pdu fi lis off (nat r) s
        else Some ((drop_pdu pdu (fst s))\<lparr>reassembly_missing_sn_detected := True\<rparr>, snd s)) =
      map_option core_st (if rc \<ge> 0 then reassemble_li alloc pdu fi lis off (nat r) s'
        else Some ((drop_pdu pdu (fst s'))\<lparr>reassembly_missing_sn_detected := True\<rparr>, snd s'))" for rc :: int and fi lis off r
    using reassemble_li_core [OF assms, of alloc pdu fi lis off "nat r"] d by (simp only: option.map split: if_split) blast
  show ?thesis
    unfolding reassemble_pdu_def Let_def c(4)
    by (cases "rlc_um_read_length_indicators pdu ?hl (int (length pdu) - int ?hl)")
      (auto simp only: reassemble_no_li_core [OF assms] x option.map Option.bind.simps prod.case split: if_split)
qed

end
