(* ===== verification/RlcUmRef.thy ===== *)
theory RlcUmRef
  imports RlcUmRx
begin

text \<open>
  The receiver of RLC unacknowledged mode against a reference receiver on unbounded counters: the
  window tests, the reassembly loop, the reception of PDUs and the expiry of t-Reordering are shown to
  do what the reference does, and reassembly is shown not to fault on PDUs whose indicators can be read.
\<close>

section \<open>Window arithmetic\<close>

text \<open>
  Sequence numbers are residues of unbounded counters. With a window of \<open>W\<close> and \<open>2 * W\<close> sequence
  numbers, \<open>v\<close> is what the code computes with the truncating \<open>%\<close> for a counter within \<open>W\<close> of VR(UH):
  its distance from the lower edge of the window, or a negative number when it is beyond VR(UH).
\<close>

lemma c_mod_window:
  assumes "0 < W" "H - W \<le> y" "y < H + W"
  defines "v \<equiv> c_mod (y mod (2 * W) - (H mod (2 * W) - W)) (2 * W)"
  shows "v = y - (H - W) \<or> (v = y - (H - W) - 2 * W \<and> H < y \<and> v < 0)"
proof -
  let ?m = "2 * W" and ?a = "y mod (2 * W) - (H mod (2 * W) - W)" and ?d = "y - (H - W)"
  have r: "0 \<le> y mod ?m" "y mod ?m < ?m" "0 \<le> H mod ?m" "H mod ?m < ?m" using assms(1) by simp_all
  have d: "0 \<le> ?d" "?d < ?m" using assms(2,3) by simp_all
  obtain k where k: "?a = ?d + ?m * k"
  proof
    have "y mod ?m = y - ?m * (y div ?m)" "H mod ?m = H - ?m * (H div ?m)" by (simp_all add: minus_mult_div_eq_mod)
    then show "?a = ?d + ?m * (H div ?m - y div ?m)" by (simp add: algebra_simps)
  qed
  have lo: "- W < ?a" "?a < 3 * W" using r by linarith+
  have "k \<in> {- 1, 0, 1}"
  proof -
    have "?m * k > ?m * (- 2)" using k lo d assms(1) by linarith
    then have "- 2 < k" using assms(1) by (simp only: mult_less_cancel_left_pos)
    moreover have "?m * k < ?m * 2" using k lo d assms(1) by linarith
    then have "k < 2" using assms(1) by (simp only: mult_less_cancel_left_pos)
    ultimately show ?thesis by auto
  qed
  then consider "?a = ?d - ?m" | "?a = ?d" | "?a = ?d + ?m" using k by fastforce
  then show ?thesis
  proof cases
    case 1
    then have "?a < 0" "- ?m < ?a" using d lo assms(1) by linarith+
    then have "v = ?a" unfolding v_def by (rule c_mod_small_neg)
    then show ?thesis using 1 lo \<open>?a < 0\<close> by linarith
  next
    case 2
    then show ?thesis unfolding v_def using d c_mod_small [of ?a ?m] by simp
  next
    case 3
    then have "0 \<le> ?a" "0 < ?m" using d assms(1) by linarith+
    then have "v = ?a mod ?m" unfolding v_def by (rule c_mod_nonneg)
    also have "\<dots> = ?d mod ?m" unfolding 3 by (rule mod_add_self2)
    also have "\<dots> = ?d" using d by (rule mod_pos_pos_trivial)
    finally show ?thesis by blast
  qed
qed

section \<open>Reassembly in sequence\<close>

text \<open>
  The reference for the loop of \<open>rlc_um_try_reassembly\<close>: take the PDUs of consecutive numbers, \<^term>\<open>None\<close>
  for a missing one, and reassemble them in that order.
\<close>

definition slot_step :: "allocator \<Rightarrow> octet list option \<Rightarrow> um_state \<Rightarrow> um_state option" where
  "slot_step alloc slot s =
     (case slot of
        Some pdu \<Rightarrow> reassemble_pdu alloc pdu s
      | None \<Rightarrow> Some (rlc_um_clear_rx_sdu ((fst s)\<lparr>reassembly_missing_sn_detected := True\<rparr>), snd s))"

fun run_slots :: "allocator \<Rightarrow> octet list option list \<Rightarrow> um_state \<Rightarrow> um_state option" where
  "run_slots alloc [] s = Some s"
| "run_slots alloc (c # cs) s = Option.bind (slot_step alloc c s) (run_slots alloc cs)"

lemma run_slots_append: "run_slots alloc (cs @ ds) s = Option.bind (run_slots alloc cs s) (run_slots alloc ds)"
proof (induction cs arbitrary: s)
  case (Cons c cs)
  then show ?case by (cases "slot_step alloc c s") simp_all
qed simp

lemma slot_step_core:
  assumes "core_st s = core_st s'"
  shows "map_option core_st (slot_step alloc slot s) = map_option core_st (slot_step alloc slot s')"
proof (cases slot)
  case None
  then show ?thesis using core_st_fields(1,2) [OF assms] by (simp add: slot_step_def core_st_def core_def rlc_um_clear_rx_sdu_def)
next
  case (Some pdu)
  then show ?thesis using reassemble_pdu_core [OF assms] by (simp only: slot_step_def option.case)
qed

lemma run_slots_core:
  assumes "core_st s = core_st s'"
  shows "map_option core_st (run_slots alloc cs s) = map_option core_st (run_slots alloc cs s')"
  using assms
proof (induction cs arbitrary: s s')
  case (Cons c cs)
  show ?case unfolding run_slots.simps by (rule bind_map_cong [OF slot_step_core [OF Cons.prems] Cons.IH])
qed simp

text \<open>Everything that the loop leaves alone.\<close>

definition frame :: "rlc_um_entity \<Rightarrow> rlc_um_entity" where
  "frame e = (rest e)\<lparr>dar_buffer := [], last_reassemblied_sn := 0, last_reassemblied_missing_sn := 0\<rparr>"

lemma frame_fields:
  assumes "frame e' = frame e"
  shows "vr_ur e' = vr_ur e" "vr_ux e' = vr_ux e" "vr_uh e' = vr_uh e" "t_reordering e' = t_reordering e"
    "rx_sn_modulo e' = rx_sn_modulo e" "rx_um_window_size e' = rx_um_window_size e" "rx_sn_length e' = rx_sn_length e"
    "protocol_state e' = protocol_state e"
  using arg_cong [OF assms, of vr_ur] arg_cong [OF assms, of vr_ux] arg_cong [OF assms, of vr_uh] arg_cong [OF assms, of t_reordering]
    arg_cong [OF assms, of rx_sn_modulo] arg_cong [OF assms, of rx_um_window_size] arg_cong [OF assms, of rx_sn_length]
    arg_cong [OF assms, of protocol_state]
  by (simp_all add: frame_def rest_def)

lemma frame_rest: "rest e' = rest e \<Longrightarrow> frame e' = frame e"
  by (simp add: frame_def)

text \<open>The buffer seen from the counter \<open>a\<close>: slot \<open>y mod 2 W\<close> holds the PDU of \<open>y\<close>.\<close>

definition view :: "int \<Rightarrow> int \<Rightarrow> (int \<Rightarrow> octet list option) \<Rightarrow> rlc_um_entity \<Rightarrow> bool" where
  "view W a B e \<longleftrightarrow> 2 * W \<le> int (length (dar_buffer e)) \<and> rx_sn_modulo e = 2 * W \<and>
     (\<forall>y. a \<le> y \<and> y < a + 2 * W \<longrightarrow> dar_buffer e ! nat (y mod (2 * W)) = B y)"

text \<open>The last PDU reassembled is the one before \<open>a\<close>, or no SDU is in construction.\<close>

definition last_ok :: "int \<Rightarrow> int \<Rightarrow> rlc_um_entity \<Rightarrow> bool" where
  "last_ok W a e \<longleftrightarrow> 0 \<le> last_reassemblied_sn e \<and> last_reassemblied_sn e < 2 * W \<and>
     ((last_reassemblied_sn e + 1) mod (2 * W) = a mod (2 * W) \<or> output_sdu_size_to_write e = 0)"

lemma slot_in_buffer:
  assumes "0 < W" "view W a B e"
  shows "0 \<le> y mod (2 * W)" "y mod (2 * W) < int (length (dar_buffer e))" "nat (y mod (2 * W)) < length (dar_buffer e)"
proof -
  show b: "0 \<le> y mod (2 * W)" using assms(1) by simp
  have "y mod (2 * W) < 2 * W" using assms(1) by simp
  moreover have "2 * W \<le> int (length (dar_buffer e))" using assms(2) by (simp add: view_def)
  ultimately show "y mod (2 * W) < int (length (dar_buffer e))" by (rule less_le_trans)
  then show "nat (y mod (2 * W)) < length (dar_buffer e)" using b by linarith
qed

lemma view_get:
  assumes "0 < W" "view W a B e" "a \<le> y" "y < a + 2 * W"
  shows "rlc_um_get_pdu_from_dar_buffer e (y mod (2 * W)) = Some (B y)"
proof -
  note l = slot_in_buffer [OF assms(1,2), of y]
  show ?thesis using l assms(2-4) by (simp add: view_def rlc_um_get_pdu_from_dar_buffer_def)
qed

lemma mod_eq_close: "(y mod m = z mod m) = (y = z)" if "\<bar>y - z\<bar> < m" for y z m :: int
proof
  assume "y mod m = z mod m"
  then have "m dvd y - z" by (simp add: mod_eq_dvd_iff)
  then show "y = z" using that dvd_imp_le_int [of "y - z" m] by (cases "y = z") auto
qed simp

lemma view_clear:
  assumes W: "0 < W" and v: "view W a B e"
  shows "view W (a + 1) (B(a + 2 * W := None)) (rlc_um_remove_pdu_from_dar_buffer (a mod (2 * W)) e)"
  unfolding view_def
proof (intro conjI allI impI)
  fix y assume y: "a + 1 \<le> y \<and> y < a + 1 + 2 * W"
  let ?i = "\<lambda>y. nat (y mod (2 * W))"
  have r: "0 \<le> a mod (2 * W)" "a mod (2 * W) < 2 * W" "0 \<le> y mod (2 * W)" "y mod (2 * W) < 2 * W" using W by simp_all
  have len: "?i a < length (dar_buffer e)" by (rule slot_in_buffer [OF W v])
  show "dar_buffer (rlc_um_remove_pdu_from_dar_buffer (a mod (2 * W)) e) ! ?i y = (B(a + 2 * W := None)) y"
  proof (cases "y = a + 2 * W")
    case True
    then have "?i y = ?i a" by simp
    then show ?thesis using True len by (simp add: rlc_um_remove_pdu_from_dar_buffer_def)
  next
    case False
    then have "y mod (2 * W) \<noteq> a mod (2 * W)" using y mod_eq_close [of y a "2 * W"] by auto
    then have "?i y \<noteq> ?i a" using r by (simp add: nat_eq_iff)
    then show ?thesis using False y v by (simp add: rlc_um_remove_pdu_from_dar_buffer_def view_def)
  qed
qed (use v in \<open>simp_all add: view_def rlc_um_remove_pdu_from_dar_buffer_def\<close>)

lemma view_skip: "view W a B e \<Longrightarrow> B a = None \<Longrightarrow> 0 < W \<Longrightarrow> view W (a + 1) (B(a + 2 * W := None)) e"
proof -
  assume W: "0 < W" and v: "view W a B e" and B: "B a = None"
  have "rlc_um_remove_pdu_from_dar_buffer (a mod (2 * W)) e = e"
  proof -
    have "dar_buffer e ! nat (a mod (2 * W)) = None" using v B W by (simp add: view_def)
    then have "(dar_buffer e)[nat (a mod (2 * W)) := None] = dar_buffer e" by (metis list_update_id)
    then show ?thesis by (simp add: rlc_um_remove_pdu_from_dar_buffer_def)
  qed
  then show ?thesis using view_clear [OF W v] by simp
qed

lemma core_frame_upds [simp]:
  "core (e\<lparr>last_reassemblied_sn := x\<rparr>) = core e" "core (rlc_um_remove_pdu_from_dar_buffer sn e) = core e"
  "frame (e\<lparr>last_reassemblied_sn := x\<rparr>) = frame e" "frame (rlc_um_remove_pdu_from_dar_buffer sn e) = frame e"
  "frame (rlc_um_clear_rx_sdu e) = frame e" "frame (e\<lparr>last_reassemblied_missing_sn := y, reassembly_missing_sn_detected := b\<rparr>) = frame e"
  by (simp_all add: core_def frame_def rest_def rlc_um_remove_pdu_from_dar_buffer_def rlc_um_clear_rx_sdu_def)

lemma view_cong: "dar_buffer e' = dar_buffer e \<Longrightarrow> rx_sn_modulo e' = rx_sn_modulo e \<Longrightarrow> view W a B e' = view W a B e"
  by (simp add: view_def)

lemma slot_body_step:
  assumes W: "0 < W" and v: "view W a B (fst s)" and l: "last_ok W a (fst s)" and B: "B (a + 2 * W) = None"
    and c: "core_st s = core_st t" and t: "slot_step alloc (B a) t = Some t'"
  shows "\<exists>s'. slot_body alloc (a mod (2 * W)) (B a) s = Some s' \<and> core_st s' = core_st t' \<and> frame (fst s') = frame (fst s) \<and>
    view W (a + 1) B (fst s') \<and> last_ok W (a + 1) (fst s')"
proof (cases "B a")
  case None
  let ?s' = "(rlc_um_clear_rx_sdu ((fst s)\<lparr>last_reassemblied_missing_sn := a mod (2 * W), reassembly_missing_sn_detected := True\<rparr>), snd s)"
  have "core_st ?s' = core_st t'" using t c None by (auto simp: slot_step_def core_st_def core_def rlc_um_clear_rx_sdu_def)
  moreover have "view W (a + 1) B (fst ?s')"
    using view_skip [OF v None W] B by (simp add: rlc_um_clear_rx_sdu_def view_def fun_upd_idem)
  moreover have "last_ok W (a + 1) (fst ?s')" using l by (simp add: last_ok_def rlc_um_clear_rx_sdu_def)
  ultimately show ?thesis using None by (intro exI [of _ ?s']) (simp add: slot_body_def)
next
  case (Some pdu)
  let ?sn = "a mod (2 * W)" and ?e = "fst s"
  have m: "rx_sn_modulo ?e = 2 * W" using v by (simp add: view_def)
  have "(if c_mod (last_reassemblied_sn ?e + 1) (rx_sn_modulo ?e) \<noteq> ?sn then rlc_um_clear_rx_sdu ?e else ?e) = ?e"
  proof (cases "output_sdu_size_to_write ?e = 0")
    case True
    then have "rlc_um_clear_rx_sdu ?e = ?e" by (simp add: rlc_um_clear_rx_sdu_def)
    then show ?thesis by simp
  next
    case False
    then have "(last_reassemblied_sn ?e + 1) mod (2 * W) = ?sn" "0 \<le> last_reassemblied_sn ?e" using l by (simp_all add: last_ok_def)
    then show ?thesis using m W by (simp add: c_mod_nonneg)
  qed
  note e1 = this
  let ?q = "(?e\<lparr>last_reassemblied_sn := ?sn\<rparr>, snd s)"
  have "core_st ?q = core_st t" using c by (simp add: core_st_def)
  then have "map_option core_st (reassemble_pdu alloc pdu ?q) = map_option core_st (reassemble_pdu alloc pdu t)" by (rule reassemble_pdu_core)
  also have "\<dots> = Some (core_st t')" using t Some by (simp add: slot_step_def)
  finally obtain e2 out where r: "reassemble_pdu alloc pdu ?q = Some (e2, out)" "core_st (e2, out) = core_st t'" by auto
  have re: "rest e2 = rest (?e\<lparr>last_reassemblied_sn := ?sn\<rparr>)" using reassemble_pdu_rest [OF r(1)] by simp
  note f = rest_fields [OF re]
  let ?s' = "(rlc_um_remove_pdu_from_dar_buffer ?sn e2, out)"
  have body: "slot_body alloc ?sn (B a) s = Some ?s'" by (simp only: slot_body_def Some option.case Let_def e1 r(1) Option.bind.simps prod.case)
  have "view W a B e2" using v f by (simp add: view_def)
  then have "view W (a + 1) B (fst ?s')" using view_clear [OF W, of a B e2] B by (simp add: fun_upd_idem)
  moreover have "last_ok W (a + 1) (fst ?s')"
    using f(8) W by (simp add: last_ok_def rlc_um_remove_pdu_from_dar_buffer_def mod_simps)
  moreover have "core_st ?s' = core_st t'" using r(2) by (simp add: core_st_def)
  moreover have "frame (fst ?s') = frame ?e" using frame_rest [OF re] by simp
  ultimately show ?thesis using body by blast
qed

lemma try_reassembly_loop_ok:
  assumes "0 < W" "view W a B (fst s)" "last_ok W a (fst s)" "\<And>y. a + 2 * W \<le> y \<Longrightarrow> B y = None"
    and "core_st s = core_st t" "run_slots alloc (map B [a..b - 1]) t = Some t'"
    and "a < b" "b \<le> a + 2 * W" "nat (b - a) \<le> fuel"
    and "b mod (2 * W) = vr_uh (fst s) \<or> b mod (2 * W) = end_sn"
    and "\<And>y. a < y \<Longrightarrow> y < b \<Longrightarrow> y mod (2 * W) \<noteq> vr_uh (fst s) \<and> y mod (2 * W) \<noteq> end_sn"
  shows "\<exists>s'. try_reassembly_loop fuel alloc end_sn (a mod (2 * W)) s = Some s' \<and> core_st s' = core_st t' \<and>
    frame (fst s') = frame (fst s) \<and> view W b B (fst s') \<and> last_ok W b (fst s')"
  using assms
proof (induction fuel arbitrary: a s t)
  case 0
  then show ?case by simp
next
  case (Suc fuel)
  note p = Suc.prems
  have "[a..b - 1] = a # [a + 1..b - 1]" using p(7) by (simp add: upto_rec1)
  then obtain t1 where t1: "slot_step alloc (B a) t = Some t1" "run_slots alloc (map B [a + 1..b - 1]) t1 = Some t'"
    using p(6) by (cases "slot_step alloc (B a) t") auto
  obtain s1 where s1: "slot_body alloc (a mod (2 * W)) (B a) s = Some s1" "core_st s1 = core_st t1" "frame (fst s1) = frame (fst s)"
      "view W (a + 1) B (fst s1)" "last_ok W (a + 1) (fst s1)"
    using slot_body_step [OF p(1-3) p(4) [OF order_refl] p(5) t1(1)] by blast
  note f = frame_fields [OF s1(3)]
  have g: "rlc_um_get_pdu_from_dar_buffer (fst s) (a mod (2 * W)) = Some (B a)" by (rule view_get [OF p(1,2)]) (use p(1) in simp_all)
  have m: "rx_sn_modulo (fst s1) = 2 * W" using s1(4) by (simp add: view_def)
  have "c_mod (a mod (2 * W) + 1) (2 * W) = (a mod (2 * W) + 1) mod (2 * W)" using p(1) by (intro c_mod_nonneg) simp_all
  then have nx: "c_mod (a mod (2 * W) + 1) (rx_sn_modulo (fst s1)) = (a + 1) mod (2 * W)" using m by (simp add: mod_simps)
  have step: "try_reassembly_loop (Suc fuel) alloc end_sn (a mod (2 * W)) s =
      (if (a + 1) mod (2 * W) = vr_uh (fst s) \<or> (a + 1) mod (2 * W) = end_sn then Some s1
       else try_reassembly_loop fuel alloc end_sn ((a + 1) mod (2 * W)) s1)"
    using s1(1) g nx f(3) by (simp add: Let_def)
  show ?case
  proof (cases "a + 1 = b")
    case True
    then have "t1 = t'" using t1(2) by simp
    then show ?thesis using step p(10) True s1 by simp
  next
    case False
    then have ab: "a + 1 < b" using p(7) by simp
    have "\<exists>s'. try_reassembly_loop fuel alloc end_sn ((a + 1) mod (2 * W)) s1 = Some s' \<and> core_st s' = core_st t' \<and>
        frame (fst s') = frame (fst s1) \<and> view W b B (fst s') \<and> last_ok W b (fst s')"
      by (rule Suc.IH [OF p(1) s1(4,5) _ s1(2) t1(2) ab]) (use p f in auto)
    then show ?thesis using step p(11) [of "a + 1"] ab s1(3) by simp
  qed
qed

section \<open>Reference receiver\<close>

text \<open>
  The receiver of 36.322, section 5.1.2.2, on unbounded counters: VR(UR), VR(UH), VR(UX) while
  t-Reordering runs, and the reception buffer. Each step also gives the slots that are reassembled.
  The one difference from the text of the standard is the code's: VR(UR) only moves over received
  PDUs when the PDU that arrives has number VR(UR).
\<close>

record um_ref =
  rR :: int
  rH :: int
  rX :: "int option"
  rB :: "int \<Rightarrow> octet list option"

fun next_missing :: "nat \<Rightarrow> (int \<Rightarrow> octet list option) \<Rightarrow> int \<Rightarrow> int" where
  "next_missing 0 B y = y"
| "next_missing (Suc n) B y = (if B y = None then y else next_missing n B (y + 1))"

definition ref_timer :: "int \<Rightarrow> bool \<Rightarrow> int \<Rightarrow> int \<Rightarrow> int option \<Rightarrow> int option" where
  "ref_timer W dur R H X =
     (let X1 = (case X of None \<Rightarrow> None
                | Some x \<Rightarrow> if x \<noteq> H \<and> x < H - W \<or> x < R \<or> x = R \<and> x \<noteq> H then None else Some x)
      in if X1 = None \<and> R < H \<and> dur then Some H else X1)"

definition ref_receive :: "int \<Rightarrow> bool \<Rightarrow> int \<Rightarrow> octet list \<Rightarrow> um_ref \<Rightarrow> octet list option list \<times> um_ref" where
  "ref_receive W dur x pdu st =
     (if rH st - W \<le> x \<and> x < rR st then ([], st)
      else if rR st < x \<and> x < rH st \<and> rB st x \<noteq> None then ([], st)
      else
        let B1 = (rB st)(x := Some pdu);
            H1 = max (rH st) (x + 1);
            R1 = max (rR st) (H1 - W);
            R2 = (if x = R1 then next_missing (nat (H1 - (R1 + 1))) B1 (R1 + 1) else R1)
        in (map B1 [rR st..R2 - 1],
            \<lparr>rR = R2, rH = H1, rX = ref_timer W dur R2 H1 (rX st), rB = (\<lambda>y. if y < R2 then None else B1 y)\<rparr>))"

definition ref_expire :: "bool \<Rightarrow> um_ref \<Rightarrow> octet list option list \<times> um_ref" where
  "ref_expire dur st =
     (case rX st of
        None \<Rightarrow> ([], st)
      | Some x \<Rightarrow>
          let R2 = next_missing (nat (rH st - x)) (rB st) x
          in (map (rB st) [rR st..R2 - 1],
              \<lparr>rR = R2, rH = rH st, rX = (if R2 < rH st \<and> dur then Some (rH st) else None), rB = (\<lambda>y. if y < R2 then None else rB st y)\<rparr>))"

definition um_sim :: "int \<Rightarrow> rlc_um_entity \<Rightarrow> um_ref \<Rightarrow> bool" where
  "um_sim W e st \<longleftrightarrow> 0 < W \<and> rx_um_window_size e = W \<and> vr_ur e = rR st mod (2 * W) \<and> vr_uh e = rH st mod (2 * W) \<and>
     rR st \<le> rH st \<and> rH st \<le> rR st + W \<and> view W (rR st) (rB st) e \<and> last_ok W (rR st) e \<and>
     (\<forall>y. rB st y \<noteq> None \<longrightarrow> rR st \<le> y \<and> y < rH st) \<and>
     (case rX st of None \<Rightarrow> \<not> running (t_reordering e)
      | Some x \<Rightarrow> running (t_reordering e) \<and> 0 < ms_duration (t_reordering e) \<and> vr_ux e = x mod (2 * W) \<and> x \<le> rH st \<and>
          (rR st < x \<or> rR st = x \<and> x = rH st))"

text \<open>The window tests of the code, on counters.\<close>

definition windowed :: "int \<Rightarrow> int \<Rightarrow> rlc_um_entity \<Rightarrow> bool" where
  "windowed W H e \<longleftrightarrow> 0 < W \<and> rx_um_window_size e = W \<and> rx_sn_modulo e = 2 * W \<and> vr_uh e = H mod (2 * W)"

lemma in_window_low:
  assumes "windowed W H e" "H - W \<le> x" "x < H + W" "H - W \<le> R" "R \<le> H"
  shows "(rlc_um_in_window e (vr_uh e - rx_um_window_size e) (x mod (2 * W)) (R mod (2 * W)) \<in> {0, 1}) = (x < R)"
proof -
  have W: "0 < W" "rx_um_window_size e = W" "rx_sn_modulo e = 2 * W" "vr_uh e = H mod (2 * W)" using assms(1) by (simp_all add: windowed_def)
  have z: "c_mod 0 (2 * W) = 0" using W(1) by (simp add: c_mod_small)
  have r: "c_mod (R mod (2 * W) - (H mod (2 * W) - W)) (2 * W) = R - (H - W)"
    using c_mod_window [OF W(1) assms(4)] assms(5) W(1) by fastforce
  show ?thesis
    using c_mod_window [OF W(1) assms(2,3)] z r W assms(2,4,5)
    by (auto simp: rlc_um_in_window_def Let_def)
qed

lemma in_window_mid:
  assumes "windowed W H e" "H - W \<le> x" "x < H + W" "H - W \<le> R" "R \<le> H"
  shows "(rlc_um_in_window e (R mod (2 * W)) (x mod (2 * W)) (vr_uh e) = 0) = (R < x \<and> x < H)"
    "x \<le> H \<Longrightarrow> (rlc_um_in_window e (R mod (2 * W)) (x mod (2 * W)) (vr_uh e) \<in> {- 2, 1}) = (x < R \<or> x = R \<and> x \<noteq> H)"
    "(rlc_um_in_window e (R mod (2 * W)) (vr_uh e) (vr_uh e) = 2) = (R < H)"
proof -
  have W: "0 < W" "rx_um_window_size e = W" "rx_sn_modulo e = 2 * W" "vr_uh e = H mod (2 * W)" using assms(1) by (simp_all add: windowed_def)
  have h: "c_mod (H mod (2 * W) - (H mod (2 * W) - W)) (2 * W) = W" using W(1) by (simp add: c_mod_small)
  have r: "c_mod (R mod (2 * W) - (H mod (2 * W) - W)) (2 * W) = R - (H - W)"
    using c_mod_window [OF W(1) assms(4)] assms(5) W(1) by fastforce
  show "(rlc_um_in_window e (R mod (2 * W)) (x mod (2 * W)) (vr_uh e) = 0) = (R < x \<and> x < H)"
    using c_mod_window [OF W(1) assms(2,3)] h r W assms(2,4,5) by (auto simp: rlc_um_in_window_def Let_def)
  show "x \<le> H \<Longrightarrow> (rlc_um_in_window e (R mod (2 * W)) (x mod (2 * W)) (vr_uh e) \<in> {- 2, 1}) = (x < R \<or> x = R \<and> x \<noteq> H)"
    using c_mod_window [OF W(1) assms(2,3)] h r W assms(2,4,5) by (auto simp: rlc_um_in_window_def Let_def)
  show "(rlc_um_in_window e (R mod (2 * W)) (vr_uh e) (vr_uh e) = 2) = (R < H)"
    using h r W assms(4,5) by (auto simp: rlc_um_in_window_def Let_def)
qed

lemma in_reordering:
  assumes "windowed W H e" "H - 2 * W \<le> x" "x < H + W"
  shows "rlc_um_in_reordering_window e (x mod (2 * W)) = (if H - W \<le> x \<and> x < H then 0 else - 1)"
proof -
  have W: "0 < W" "rx_um_window_size e = W" "rx_sn_modulo e = 2 * W" "vr_uh e = H mod (2 * W)" using assms(1) by (simp_all add: windowed_def)
  show ?thesis
  proof (cases "H - W \<le> x")
    case True
    then show ?thesis using c_mod_window [OF W(1) True assms(3)] W by (auto simp: rlc_um_in_reordering_window_def Let_def)
  next
    case False
    then have b: "H - W \<le> x + 2 * W" "x + 2 * W < H + W" using assms(2) W(1) by linarith+
    have e: "(x + 2 * W) mod (2 * W) = x mod (2 * W)" by simp
    show ?thesis using c_mod_window [OF W(1) b] W False b assms(2) unfolding e by (auto simp: rlc_um_in_reordering_window_def Let_def)
  qed
qed

lemma view_store:
  assumes W: "0 < W" and v: "view W a B e" and x: "a \<le> x" "x < a + 2 * W"
  shows "view W a (B(x := Some pdu)) (rlc_um_store_pdu_in_dar_buffer pdu (x mod (2 * W)) e)"
  unfolding view_def
proof (intro conjI allI impI)
  fix y assume y: "a \<le> y \<and> y < a + 2 * W"
  note b = slot_in_buffer [OF W v]
  show "dar_buffer (rlc_um_store_pdu_in_dar_buffer pdu (x mod (2 * W)) e) ! nat (y mod (2 * W)) = (B(x := Some pdu)) y"
  proof (cases "y = x")
    case True
    then show ?thesis using b(3) [of x] by (simp add: rlc_um_store_pdu_in_dar_buffer_def)
  next
    case False
    have "\<bar>y - x\<bar> < 2 * W" using y x by linarith
    then have "y mod (2 * W) \<noteq> x mod (2 * W)" using False mod_eq_close by blast
    then have "nat (y mod (2 * W)) \<noteq> nat (x mod (2 * W))" using b(1) by (simp add: nat_eq_iff)
    then show ?thesis using False y v by (simp add: rlc_um_store_pdu_in_dar_buffer_def view_def)
  qed
qed (use v in \<open>simp_all add: view_def rlc_um_store_pdu_in_dar_buffer_def\<close>)

lemma lower_edge: "(let w = H mod (2 * W) - W in if w < 0 then w + 2 * W else w) = (H - W) mod (2 * W)" if "0 < W" for W :: int
proof -
  have r: "0 \<le> H mod (2 * W)" "H mod (2 * W) < 2 * W" using that by simp_all
  have e: "(H - W) mod (2 * W) = (H mod (2 * W) - W) mod (2 * W)" by (simp add: mod_diff_left_eq)
  show ?thesis
  proof (cases "H mod (2 * W) - W < 0")
    case True
    have "(H mod (2 * W) - W) mod (2 * W) = (H mod (2 * W) - W + 2 * W) mod (2 * W)" by (rule mod_add_self2 [symmetric])
    also have "\<dots> = H mod (2 * W) - W + 2 * W" by (rule mod_pos_pos_trivial) (use True r in linarith)+
    finally show ?thesis using True e by (simp only: Let_def if_True)
  next
    case False
    have "(H mod (2 * W) - W) mod (2 * W) = H mod (2 * W) - W" by (rule mod_pos_pos_trivial) (use False r that in linarith)+
    then show ?thesis using False e by (simp only: Let_def if_False)
  qed
qed

lemma try_reassembly_ok:
  assumes W: "0 < W" and v: "view W a B (fst s)" and l: "last_ok W a (fst s)" and B: "\<And>y. a + 2 * W \<le> y \<Longrightarrow> B y = None"
    and c: "core_st s = core_st t" and r: "run_slots alloc (map B [a..b - 1]) t = Some t'"
    and ab: "a < b" "b < a + 2 * W" and H: "vr_uh (fst s) = H mod (2 * W)" "b \<le> H" "H \<le> a + 2 * W"
  shows "\<exists>s'. rlc_um_try_reassembly alloc (a mod (2 * W)) (b mod (2 * W)) s = Some s' \<and> core_st s' = core_st t' \<and>
    frame (fst s') = frame (fst s) \<and> view W b B (fst s') \<and> last_ok W b (fst s')"
proof -
  have m: "rx_sn_modulo (fst s) = 2 * W" using v by (simp add: view_def)
  have ne: "a mod (2 * W) \<noteq> b mod (2 * W)" using mod_eq_close [of a b "2 * W"] ab by auto
  have nn: "\<not> a mod (2 * W) < 0" "\<not> b mod (2 * W) < 0" using W by (simp_all add: not_less)
  have no: "y mod (2 * W) \<noteq> vr_uh (fst s) \<and> y mod (2 * W) \<noteq> b mod (2 * W)" if "a < y" "y < b" for y
    using mod_eq_close [of y H "2 * W"] mod_eq_close [of y b "2 * W"] that ab H by auto
  have "\<exists>s'. try_reassembly_loop (nat (2 * W)) alloc (b mod (2 * W)) (a mod (2 * W)) s = Some s' \<and> core_st s' = core_st t' \<and>
    frame (fst s') = frame (fst s) \<and> view W b B (fst s') \<and> last_ok W b (fst s')"
    by (rule try_reassembly_loop_ok [OF W v l B c r]) (use ab no in auto)
  then show ?thesis using m ne nn by (simp add: rlc_um_try_reassembly_def Let_def)
qed

text \<open>What moving the window and VR(UR) leave alone.\<close>

definition outer :: "rlc_um_entity \<Rightarrow> int \<times> rlc_um_timer \<times> nat \<times> rlc_protocol_state" where
  "outer e = (vr_ux e, t_reordering e, rx_sn_length e, protocol_state e)"

lemma outer_frame: "frame e' = frame e \<Longrightarrow> outer e' = outer e"
  using frame_fields [of e' e] by (simp add: outer_def)

lemma view_upds [simp]:
  "view W a B (e\<lparr>vr_uh := h\<rparr>) = view W a B e" "view W a B (e\<lparr>vr_ur := h\<rparr>) = view W a B e"
  "last_ok W a (e\<lparr>vr_uh := h\<rparr>) = last_ok W a e" "last_ok W a (e\<lparr>vr_ur := h\<rparr>) = last_ok W a e"
  "core (e\<lparr>vr_uh := h\<rparr>) = core e" "core (e\<lparr>vr_ur := h\<rparr>) = core e"
  "outer (e\<lparr>vr_uh := h\<rparr>) = outer e" "outer (e\<lparr>vr_ur := h\<rparr>) = outer e"
  by (simp_all add: view_def last_ok_def core_def outer_def)

lemma dar_move_window_ok:
  assumes wd: "windowed W H (fst s)" and ur: "vr_ur (fst s) = R mod (2 * W)" and RH: "R \<le> H" "H \<le> R + W"
    and x: "R \<le> x" "x < H + W" and v: "view W R B (fst s)" and l: "last_ok W R (fst s)"
    and B: "\<And>y. R + 2 * W \<le> y \<Longrightarrow> B y = None" and c: "core_st s = core_st t"
    and H1: "H1 = max H (x + 1)" and R1: "R1 = max R (H1 - W)" and r: "run_slots alloc (map B [R..R1 - 1]) t = Some t'"
  shows "\<exists>s'. dar_move_window alloc (x mod (2 * W)) s = Some s' \<and> core_st s' = core_st t' \<and> windowed W H1 (fst s') \<and>
    vr_ur (fst s') = R1 mod (2 * W) \<and> view W R1 B (fst s') \<and> last_ok W R1 (fst s') \<and> outer (fst s') = outer (fst s)"
proof -
  have W: "0 < W" "rx_um_window_size (fst s) = W" "rx_sn_modulo (fst s) = 2 * W" using wd by (simp_all add: windowed_def)
  have inr: "rlc_um_in_reordering_window (fst s) (x mod (2 * W)) = (if H - W \<le> x \<and> x < H then 0 else - 1)"
    by (rule in_reordering [OF wd]) (use RH x W in linarith)+
  show ?thesis
  proof (cases "x < H")
    case True
    then have h1: "H1 = H" "R1 = R" using H1 R1 RH by simp_all
    have "dar_move_window alloc (x mod (2 * W)) s = Some s" using inr True x RH by (simp add: dar_move_window_def)
    then show ?thesis using h1 r c wd ur v l by simp
  next
    case False
    let ?e = "(fst s)\<lparr>vr_uh := H1 mod (2 * W)\<rparr>"
    have h1: "H1 = x + 1" using H1 False by simp
    have up: "c_mod (x mod (2 * W) + 1) (2 * W) = H1 mod (2 * W)" using W(1) h1 by (simp add: c_mod_nonneg mod_simps)
    have wd1: "windowed W H1 ?e" using W by (simp add: windowed_def)
    have edge: "(if H1 mod (2 * W) - W < 0 then H1 mod (2 * W) - W + 2 * W else H1 mod (2 * W) - W) = (H1 - W) mod (2 * W)"
      using lower_edge [OF W(1), of H1] by (simp only: Let_def)
    have inr2: "rlc_um_in_reordering_window ?e (R mod (2 * W)) = (if H1 - W \<le> R \<and> R < H1 then 0 else - 1)"
      by (rule in_reordering [OF wd1]) (use RH x W h1 False in linarith)+
    show ?thesis
    proof (cases "H1 - W \<le> R")
      case True
      then have r1: "R1 = R" using R1 by simp
      have "dar_move_window alloc (x mod (2 * W)) s = Some (?e, snd s)"
        using inr False up inr2 True x h1 RH ur W by (simp add: dar_move_window_def Let_def)
      then show ?thesis using r1 r c wd1 ur v l by (simp add: core_st_def)
    next
      case out: False
      then have r1: "R1 = H1 - W" using R1 by simp
      have c': "core_st (?e, snd s) = core_st t" using c by (simp add: core_st_def)
      obtain s1 where s1: "rlc_um_try_reassembly alloc (R mod (2 * W)) (R1 mod (2 * W)) (?e, snd s) = Some s1" "core_st s1 = core_st t'"
          "frame (fst s1) = frame ?e" "view W R1 B (fst s1)" "last_ok W R1 (fst s1)"
        using try_reassembly_ok [OF W(1), of R B "(?e, snd s)" t alloc R1 t' H1] v l B c' r out r1 RH x h1 W(1) by auto
      note f = frame_fields [OF s1(3)]
      have wd2: "windowed W H1 (fst s1)" using f W by (simp add: windowed_def)
      have inr3: "rlc_um_in_reordering_window (fst s1) (R mod (2 * W)) = - 1"
        using in_reordering [OF wd2, of R] RH x W h1 False out by auto
      have neg: "(rlc_um_in_reordering_window (fst s) (x mod (2 * W)) < 0) = True" using inr False by simp
      have fl: "vr_uh ?e = H1 mod (2 * W)" "rx_um_window_size ?e = W" "rx_sn_modulo ?e = 2 * W" "vr_ur ?e = R mod (2 * W)" using W ur by simp_all
      have ne: "(rlc_um_in_reordering_window ?e (R mod (2 * W)) \<noteq> 0) = True" using inr2 out by simp
      have ur1: "vr_ur (fst s1) = R mod (2 * W)" using f(1) ur by simp
      have neg3: "(rlc_um_in_reordering_window (fst s1) (R mod (2 * W)) < 0) = True" using inr3 by simp
      have "dar_move_window alloc (x mod (2 * W)) s = Some ((fst s1)\<lparr>vr_ur := R1 mod (2 * W)\<rparr>, snd s1)"
        by (simp only: dar_move_window_def Let_def neg if_True W(3) up fl edge ne s1(1) [unfolded r1] Option.bind.simps ur1 neg3 r1)
      then show ?thesis using s1 wd2 outer_frame [OF s1(3)] by (simp add: core_st_def windowed_def)
    qed
  qed
qed

lemma next_missing_bounds: "y \<le> next_missing n B y" "next_missing n B y \<le> y + int n"
  by (induction n arbitrary: y) (auto intro: order_trans [OF _ add_mono] simp: algebra_simps, (smt (verit))+)

lemma advance_vr_ur_ok:
  assumes "0 < W" "view W R B e" "vr_uh e = H mod (2 * W)" "H \<le> R + W" "vr_ur e = a mod (2 * W)" "R \<le> a" "a < H" "nat (H - a) \<le> fuel"
  shows "advance_vr_ur fuel e = Some (e\<lparr>vr_ur := next_missing (nat (H - (a + 1))) B (a + 1) mod (2 * W)\<rparr>)"
  using assms
proof (induction fuel arbitrary: a e)
  case (Suc fuel)
  note p = Suc.prems
  let ?e1 = "e\<lparr>vr_ur := (a + 1) mod (2 * W)\<rparr>"
  have m: "rx_sn_modulo e = 2 * W" using p(2) by (simp add: view_def)
  have up: "c_mod (vr_ur e + 1) (rx_sn_modulo e) = (a + 1) mod (2 * W)" using p(1,5) m by (simp add: c_mod_nonneg mod_simps)
  have g: "rlc_um_get_pdu_from_dar_buffer ?e1 ((a + 1) mod (2 * W)) = Some (B (a + 1))"
    by (rule view_get [OF p(1), of R]) (use p in \<open>simp, linarith, linarith\<close>)
  have hne: "((a + 1) mod (2 * W) \<noteq> vr_uh e) = (a + 1 \<noteq> H)" using p mod_eq_close [of "a + 1" H "2 * W"] by auto
  have step: "advance_vr_ur (Suc fuel) e = (if B (a + 1) \<noteq> None \<and> a + 1 \<noteq> H then advance_vr_ur fuel ?e1 else Some ?e1)"
    using up g hne by (simp add: Let_def)
  show ?case
  proof (cases "B (a + 1) \<noteq> None \<and> a + 1 \<noteq> H")
    case True
    then have lt: "a + 1 < H" using p(7) by simp
    have "advance_vr_ur fuel ?e1 = Some (?e1\<lparr>vr_ur := next_missing (nat (H - (a + 1 + 1))) B (a + 1 + 1) mod (2 * W)\<rparr>)"
      by (rule Suc.IH) (use p lt in auto)
    moreover have "nat (H - (a + 1)) = Suc (nat (H - (a + 1 + 1)))" using lt by simp
    moreover have "next_missing (Suc n) B (a + 1) = next_missing n B (a + 1 + 1)" for n using True by auto
    ultimately show ?thesis using step True by (simp del: next_missing.simps advance_vr_ur.simps)
  next
    case False
    then have "next_missing (nat (H - (a + 1))) B (a + 1) = a + 1" by (cases "nat (H - (a + 1))") auto
    then show ?thesis using step False by (simp only: if_False)
  qed
qed simp

lemma dar_advance_ok:
  assumes wd: "windowed W H (fst s)" and ur: "vr_ur (fst s) = R mod (2 * W)" and RH: "R \<le> H" "H \<le> R + W"
    and x: "x < H" "R - 2 * W < x" and v: "view W R B (fst s)" and l: "last_ok W R (fst s)"
    and B: "\<And>y. R + 2 * W \<le> y \<Longrightarrow> B y = None" and Bx: "B x \<noteq> None" and c: "core_st s = core_st t"
    and R2: "R2 = (if x = R then next_missing (nat (H - (R + 1))) B (R + 1) else R)"
    and r: "run_slots alloc (map B [R..R2 - 1]) t = Some t'"
  shows "\<exists>s'. dar_advance alloc (x mod (2 * W)) s = Some s' \<and> core_st s' = core_st t' \<and> windowed W H (fst s') \<and>
    vr_ur (fst s') = R2 mod (2 * W) \<and> view W R2 B (fst s') \<and> last_ok W R2 (fst s') \<and> outer (fst s') = outer (fst s)"
proof -
  have W: "0 < W" "rx_um_window_size (fst s) = W" "rx_sn_modulo (fst s) = 2 * W" "vr_uh (fst s) = H mod (2 * W)" using wd by (simp_all add: windowed_def)
  have ne: "(x mod (2 * W) = vr_ur (fst s)) = (x = R)" unfolding ur by (rule mod_eq_close) (use x RH W in linarith)
  show ?thesis
  proof (cases "x = R")
    case False
    then show ?thesis using ne R2 r c wd ur v l by (simp add: dar_advance_def)
  next
    case True
    let ?e1 = "(fst s)\<lparr>vr_ur := R2 mod (2 * W)\<rparr>"
    have r2: "R2 = next_missing (nat (H - (R + 1))) B (R + 1)" using R2 True by simp
    have b: "R < R2" "R2 \<le> H" using next_missing_bounds [where y = "R + 1" and n = "nat (H - (R + 1))" and B = B] r2 x True by auto
    have adv: "advance_vr_ur (nat (rx_sn_modulo (fst s))) (fst s) = Some ?e1"
      unfolding r2 by (rule advance_vr_ur_ok [OF W(1) v W(4) RH(2) ur]) (use x True RH W in auto)
    have g: "rlc_um_get_pdu_from_dar_buffer (fst s) (R mod (2 * W)) = Some (B R)" by (rule view_get [OF W(1) v]) (use W(1) in simp_all)
    have c': "core_st (?e1, snd s) = core_st t" using c by (simp add: core_st_def)
    obtain s1 where s1: "rlc_um_try_reassembly alloc (R mod (2 * W)) (R2 mod (2 * W)) (?e1, snd s) = Some s1" "core_st s1 = core_st t'"
        "frame (fst s1) = frame ?e1" "view W R2 B (fst s1)" "last_ok W R2 (fst s1)"
      using try_reassembly_ok [OF W(1), of R B "(?e1, snd s)" t alloc R2 t' H] v l B c' r b RH W(1,4) by auto
    note f = frame_fields [OF s1(3)]
    have "dar_advance alloc (x mod (2 * W)) s = Some s1"
      using ne True g Bx adv s1(1) ur by (auto simp: dar_advance_def)
    then show ?thesis using s1 f W outer_frame [OF s1(3)] by (simp add: windowed_def)
  qed
qed

lemma dar_timer_ok:
  fixes now :: "32 word"
  assumes wd: "windowed W H e" and ur: "vr_ur e = R mod (2 * W)" and RH: "R \<le> H" "H \<le> R + W"
    and X: "case X of None \<Rightarrow> \<not> running (t_reordering e)
            | Some x \<Rightarrow> running (t_reordering e) \<and> 0 < ms_duration (t_reordering e) \<and> vr_ux e = x mod (2 * W) \<and> H - 2 * W < x \<and> x \<le> H"
    and dur: "dur = (ms_duration (t_reordering e) > 0)"
  defines "e' \<equiv> dar_timer now e" and "X' \<equiv> ref_timer W dur R H X"
  shows "(case X' of None \<Rightarrow> \<not> running (t_reordering e')
      | Some x \<Rightarrow> running (t_reordering e') \<and> 0 < ms_duration (t_reordering e') \<and> vr_ux e' = x mod (2 * W) \<and> x \<le> H \<and> (R < x \<or> R = x \<and> x = H)) \<and>
    (\<exists>t ux. e' = e\<lparr>t_reordering := t, vr_ux := ux\<rparr> \<and> ms_duration t = ms_duration (t_reordering e))"
proof -
  have W: "0 < W" "rx_um_window_size e = W" "rx_sn_modulo e = 2 * W" "vr_uh e = H mod (2 * W)" using wd by (simp_all add: windowed_def)
  let ?st = rlc_um_stop_and_reset_timer_reordering
  have wd': "windowed W H (?st e)" using wd by (simp add: windowed_def rlc_um_stop_and_reset_timer_reordering_def)
  have stf: "vr_ur (?st e) = vr_ur e" "vr_uh (?st e) = vr_uh e" "\<not> running (t_reordering (?st e))" "vr_ux (?st e) = vr_ux e"
      "ms_duration (t_reordering (?st e)) = ms_duration (t_reordering e)" "\<exists>t. ?st e = e\<lparr>t_reordering := t\<rparr> \<and> ms_duration t = ms_duration (t_reordering e)"
    by (auto simp: rlc_um_stop_and_reset_timer_reordering_def)
  define stop where "stop = (case X of None \<Rightarrow> True | Some x \<Rightarrow> x \<noteq> H \<and> x < H - W \<or> x < R \<or> x = R \<and> x \<noteq> H)"
  have run: "running (t_reordering e) = (X \<noteq> None)" using X by (cases X) simp_all
  define e2 where "e2 = (if stop \<and> X \<noteq> None then ?st e else e)"
  have low: "H - W \<le> R" using RH(2) by simp
  have e2': "(let e1 = (if running (t_reordering e) \<and> vr_uh e \<noteq> vr_ux e \<and> rlc_um_in_reordering_window e (vr_ux e) < 0 then ?st e else e);
        w = rlc_um_in_window e1 (vr_ur e1) (vr_ux e1) (vr_uh e1)
      in if running (t_reordering e1) \<and> (w = - 2 \<or> w = 1) then ?st e1 else e1) = e2"
  proof (cases X)
    case None
    then show ?thesis using run by (simp add: e2_def Let_def)
  next
    case (Some x)
    then have x: "vr_ux e = x mod (2 * W)" "H - 2 * W < x" "x \<le> H" using X by simp_all
    have ne: "(vr_uh e \<noteq> vr_ux e \<and> rlc_um_in_reordering_window e (vr_ux e) < 0) = (x \<noteq> H \<and> x < H - W)"
    proof -
      have "rlc_um_in_reordering_window e (x mod (2 * W)) = (if H - W \<le> x \<and> x < H then 0 else - 1)"
        by (rule in_reordering [OF wd]) (use x W in linarith)+
      moreover have "(H mod (2 * W) \<noteq> x mod (2 * W)) = (x \<noteq> H)" using mod_eq_close [of H x "2 * W"] x W by auto
      ultimately show ?thesis using x W by auto
    qed
    show ?thesis
    proof (cases "x \<noteq> H \<and> x < H - W")
      case True
      then show ?thesis using run ne Some stf by (simp add: e2_def stop_def Let_def)
    next
      case False
      then have "H - W \<le> x" using x W by linarith
      then have "(rlc_um_in_window e (vr_ur e) (vr_ux e) (vr_uh e) \<in> {- 2, 1}) = (x < R \<or> x = R \<and> x \<noteq> H)"
        unfolding ur x(1) by (intro in_window_mid(2) [OF wd _ _ low RH(1)]) (use x W in linarith)+
      then show ?thesis using run ne Some False by (simp add: e2_def stop_def Let_def) auto
    qed
  qed
  have wd2: "windowed W H e2" and f2: "vr_ur e2 = R mod (2 * W)" "vr_uh e2 = H mod (2 * W)"
      "ms_duration (t_reordering e2) = ms_duration (t_reordering e)" "running (t_reordering e2) = (\<not> stop)"
    using wd wd' stf ur W run by (auto simp: e2_def stop_def split: option.splits)
  obtain t2 where t2: "e2 = e\<lparr>t_reordering := t2\<rparr>" "ms_duration t2 = ms_duration (t_reordering e)"
  proof (cases "stop \<and> X \<noteq> None")
    case True
    then show ?thesis using stf(6) that by (auto simp: e2_def)
  next
    case False
    have "e = e\<lparr>t_reordering := t_reordering e\<rparr>" by simp
    then show ?thesis using False by (intro that [of "t_reordering e"]) (simp_all only: e2_def if_False)
  qed
  have w2: "(rlc_um_in_window e2 (vr_ur e2) (vr_uh e2) (vr_uh e2) = 2) = (R < H)"
    using in_window_mid(3) [OF wd2 low _ low RH(1)] f2 W(1) RH by simp
  have e': "e' = (if stop \<and> R < H then (rlc_um_start_timer_reordering now e2)\<lparr>vr_ux := vr_uh e2\<rparr> else e2)"
    unfolding e'_def dar_timer_def using e2' f2(4) w2 by (simp add: Let_def)
  have X': "X' = (if stop then if R < H \<and> dur then Some H else None else X)"
    unfolding X'_def ref_timer_def stop_def by (cases X) simp_all
  show ?thesis
  proof (cases "stop \<and> R < H \<and> dur")
    case True
    let ?t = "t2\<lparr>timed_out := False, running := True, ms_time_out := now + ms_duration t2, ms_start := now\<rparr>"
    have "e' = e\<lparr>t_reordering := ?t, vr_ux := H mod (2 * W)\<rparr>"
      using e' True t2 f2 dur by (simp add: rlc_um_start_timer_reordering_def Let_def)
    moreover have "X' = Some H" using X' True by simp
    moreover have "running ?t" "ms_duration ?t = ms_duration (t_reordering e)" using t2 by simp_all
    ultimately show ?thesis using True dur by (intro conjI exI [of _ ?t] exI [of _ "H mod (2 * W)"]) simp_all
  next
    case False
    have "\<exists>t3 ux. e' = e\<lparr>t_reordering := t3, vr_ux := ux\<rparr> \<and> ms_duration t3 = ms_duration (t_reordering e) \<and>
        running t3 = running t2 \<and> (stop \<or> ux = vr_ux e)"
    proof (cases "stop \<and> R < H")
      case True
      then have "e' = e\<lparr>t_reordering := t2\<lparr>timed_out := False\<rparr>, vr_ux := vr_uh e\<rparr>"
        using e' t2 dur False by (simp add: rlc_um_start_timer_reordering_def Let_def)
      then show ?thesis using True t2(2) by (intro exI [of _ "t2\<lparr>timed_out := False\<rparr>"] exI [of _ "vr_uh e"]) simp
    next
      case False
      then have "e' = e\<lparr>t_reordering := t2, vr_ux := vr_ux e\<rparr>" using e' t2(1) by auto
      then show ?thesis using t2(2) by (intro exI [of _ t2] exI [of _ "vr_ux e"]) simp
    qed
    then obtain t3 ux where t3: "e' = e\<lparr>t_reordering := t3, vr_ux := ux\<rparr>" "ms_duration t3 = ms_duration (t_reordering e)"
      "running t3 = running t2" "stop \<or> ux = vr_ux e" by blast
    have "running t3 = (\<not> stop)" using t3(3) f2(4) t2 by simp
    moreover have "X' = (if stop then None else X)" using X' False by auto
    moreover have "stop \<or> (\<exists>x. X = Some x \<and> 0 < ms_duration (t_reordering e) \<and> vr_ux e = x mod (2 * W) \<and> x \<le> H \<and> (R < x \<or> R = x \<and> x = H))"
      using X unfolding stop_def by (cases X) auto
    ultimately have "case X' of None \<Rightarrow> \<not> running (t_reordering e')
        | Some x \<Rightarrow> running (t_reordering e') \<and> 0 < ms_duration (t_reordering e') \<and> vr_ux e' = x mod (2 * W) \<and> x \<le> H \<and> (R < x \<or> R = x \<and> x = H)"
      using t3 by (cases stop) auto
    then show ?thesis using t3(1,2) by blast
  qed
qed

section \<open>The receiver refines the reference\<close>

lemma view_weaken: "view W a B e \<Longrightarrow> (\<And>y. a \<le> y \<Longrightarrow> B' y = B y) \<Longrightarrow> view W a B' e"
  by (simp add: view_def)

lemma timer_upds [simp]:
  "view W a B (e\<lparr>t_reordering := t, vr_ux := ux\<rparr>) = view W a B e" "last_ok W a (e\<lparr>t_reordering := t, vr_ux := ux\<rparr>) = last_ok W a e"
  "core (e\<lparr>t_reordering := t, vr_ux := ux\<rparr>) = core e"
  by (simp_all add: view_def last_ok_def core_def)

lemma um_sim_stats [simp]: "um_sim W (e\<lparr>um_stats := t\<rparr>) st = um_sim W e st"
  by (cases "rX st") (simp_all add: um_sim_def view_def last_ok_def)

lemma run_slots_split:
  assumes "a \<le> b" "b \<le> c" "run_slots alloc (map B [a..c - 1]) t = Some t'"
  obtains t1 where "run_slots alloc (map B [a..b - 1]) t = Some t1" "run_slots alloc (map B [b..c - 1]) t1 = Some t'"
proof -
  have "[a..c - 1] = [a..b - 1] @ [b..c - 1]" using assms(1,2) by (cases "b = c") (simp_all add: upto_split1)
  then show ?thesis using assms(3) that by (auto simp: run_slots_append bind_eq_Some_conv)
qed

text \<open>The counters after a PDU that is stored.\<close>

definition next_H :: "um_ref \<Rightarrow> int \<Rightarrow> int" where
  "next_H st x = max (rH st) (x + 1)"

definition next_R :: "int \<Rightarrow> um_ref \<Rightarrow> int \<Rightarrow> octet list \<Rightarrow> int" where
  "next_R W st x pdu =
     (let R1 = max (rR st) (next_H st x - W)
      in if x = R1 then next_missing (nat (next_H st x - (R1 + 1))) ((rB st)(x := Some pdu)) (R1 + 1) else R1)"

lemma next_R_bounds:
  assumes "rR st \<le> rH st" "rH st \<le> rR st + W" "0 < W"
  shows "max (rR st) (next_H st x - W) \<le> next_R W st x pdu" "next_R W st x pdu \<le> next_H st x"
proof -
  let ?R1 = "max (rR st) (next_H st x - W)" and ?B = "(rB st)(x := Some pdu)"
  have h: "x < next_H st x" "?R1 \<le> next_H st x" using assms by (simp_all add: next_H_def)
  note b = next_missing_bounds [where y = "?R1 + 1" and n = "nat (next_H st x - (?R1 + 1))" and B = ?B]
  show "?R1 \<le> next_R W st x pdu" using b(1) by (auto simp: next_R_def Let_def)
  show "next_R W st x pdu \<le> next_H st x" using b(2) h by (auto simp: next_R_def Let_def)
qed

lemma dar_tail_ok:
  fixes now :: "32 word"
  assumes sim: "um_sim W e0 st" and x: "rR st \<le> x" "x < rH st + W" and c: "core_st (e, out) = core_st t"
    and wd: "windowed W (rH st) e" and ur: "vr_ur e = rR st mod (2 * W)" and v: "view W (rR st) ((rB st)(x := Some pdu)) e"
    and l: "last_ok W (rR st) e" and o: "outer e = outer e0" and dur: "dur = (ms_duration (t_reordering e0) > 0)"
    and r: "run_slots alloc (map ((rB st)(x := Some pdu)) [rR st..next_R W st x pdu - 1]) t = Some t'"
  defines "st' \<equiv> \<lparr>rR = next_R W st x pdu, rH = next_H st x, rX = ref_timer W dur (next_R W st x pdu) (next_H st x) (rX st),
      rB = (\<lambda>y. if y < next_R W st x pdu then None else ((rB st)(x := Some pdu)) y)\<rparr>"
  shows "\<exists>s1 s2. dar_move_window alloc (x mod (2 * W)) (e, out) = Some s1 \<and> dar_advance alloc (x mod (2 * W)) s1 = Some s2 \<and>
    um_sim W (dar_timer now (fst s2)) st' \<and> core_st (dar_timer now (fst s2), snd s2) = core_st t' \<and>
    (ms_duration (t_reordering (dar_timer now (fst s2))) > 0) = dur \<and> protocol_state (dar_timer now (fst s2)) = protocol_state e0"
proof -
  let ?R = "rR st" and ?H = "rH st" and ?B = "(rB st)(x := Some pdu)" and ?sn = "x mod (2 * W)"
  let ?H1 = "next_H st x" and ?R2 = "next_R W st x pdu"
  let ?R1 = "max ?R (?H1 - W)"
  have W: "0 < W" "?R \<le> ?H" "?H \<le> ?R + W" "\<And>y. rB st y \<noteq> None \<Longrightarrow> ?R \<le> y \<and> y < ?H" using sim by (simp_all add: um_sim_def)
  note b = next_R_bounds [OF W(2,3,1), of x pdu]
  have B: "?B y = None" if "?R + 2 * W \<le> y" for y using W(4) [of y] that x W(1-3) by (cases "rB st y") auto
  have h: "x < ?H1" "?H1 \<le> ?H + W" "?H \<le> ?H1" "?R1 \<le> x" using x W by (simp_all add: next_H_def)
  obtain t1 where t1: "run_slots alloc (map ?B [?R..?R1 - 1]) t = Some t1" "run_slots alloc (map ?B [?R1..?R2 - 1]) t1 = Some t'"
    by (rule run_slots_split [OF _ b(1) r]) simp_all
  obtain s1 where s1: "dar_move_window alloc ?sn (e, out) = Some s1" "core_st s1 = core_st t1" "windowed W ?H1 (fst s1)"
      "vr_ur (fst s1) = ?R1 mod (2 * W)" "view W ?R1 ?B (fst s1)" "last_ok W ?R1 (fst s1)" "outer (fst s1) = outer e"
    using dar_move_window_ok [of W ?H "(e, out)" ?R x ?B t ?H1 ?R1 alloc t1] wd ur W x v l B c t1(1) by (auto simp: next_H_def)
  have "\<exists>s'. dar_advance alloc ?sn s1 = Some s' \<and> core_st s' = core_st t' \<and> windowed W ?H1 (fst s') \<and>
      vr_ur (fst s') = ?R2 mod (2 * W) \<and> view W ?R2 ?B (fst s') \<and> last_ok W ?R2 (fst s') \<and> outer (fst s') = outer (fst s1)"
    by (rule dar_advance_ok [OF s1(3,4) _ _ h(1) _ s1(5,6) B _ s1(2) _ t1(2)]) (use h W in \<open>auto simp: next_R_def Let_def\<close>)
  then obtain s2 where s2: "dar_advance alloc ?sn s1 = Some s2" "core_st s2 = core_st t'" "windowed W ?H1 (fst s2)"
      "vr_ur (fst s2) = ?R2 mod (2 * W)" "view W ?R2 ?B (fst s2)" "last_ok W ?R2 (fst s2)" "outer (fst s2) = outer (fst s1)" by blast
  have o2: "vr_ux (fst s2) = vr_ux e0" "t_reordering (fst s2) = t_reordering e0" "protocol_state (fst s2) = protocol_state e0"
    using s2(7) s1(7) o by (simp_all add: outer_def)
  have RH: "?R2 \<le> ?H1" "?H1 \<le> ?R2 + W" using b by linarith+
  have X: "case rX st of None \<Rightarrow> \<not> running (t_reordering (fst s2))
      | Some y \<Rightarrow> running (t_reordering (fst s2)) \<and> 0 < ms_duration (t_reordering (fst s2)) \<and> vr_ux (fst s2) = y mod (2 * W) \<and> ?H1 - 2 * W < y \<and> y \<le> ?H1"
    using sim h W unfolding o2 um_sim_def by (auto split: option.splits)
  note T = dar_timer_ok [OF s2(3,4) RH X, of dur now, unfolded o2(2), OF dur]
  obtain tr ux where e': "dar_timer now (fst s2) = (fst s2)\<lparr>t_reordering := tr, vr_ux := ux\<rparr>" "ms_duration tr = ms_duration (t_reordering e0)"
    using T by blast
  have "um_sim W (dar_timer now (fst s2)) st'"
    unfolding um_sim_def
  proof (intro conjI)
    have "y < ?H1" if "?B y \<noteq> None" for y using W(4) [of y] h that by (cases "y = x") auto
    then show "\<forall>y. rB st' y \<noteq> None \<longrightarrow> rR st' \<le> y \<and> y < rH st'" by (simp add: st'_def)
    show "view W (rR st') (rB st') (dar_timer now (fst s2))"
      unfolding e'(1) timer_upds st'_def um_ref.simps by (rule view_weaken [OF s2(5)]) simp
    show "case rX st' of None \<Rightarrow> \<not> running (t_reordering (dar_timer now (fst s2)))
        | Some y \<Rightarrow> running (t_reordering (dar_timer now (fst s2))) \<and> 0 < ms_duration (t_reordering (dar_timer now (fst s2))) \<and> vr_ux (dar_timer now (fst s2)) = y mod (2 * W) \<and>
            y \<le> rH st' \<and> (rR st' < y \<or> rR st' = y \<and> y = rH st')"
      unfolding st'_def um_ref.simps using T by (rule conjunct1)
  qed (use s2 RH W(1) in \<open>simp_all add: e'(1) st'_def windowed_def\<close>)
  moreover have "core_st (dar_timer now (fst s2), snd s2) = core_st t'" using s2(2) unfolding e'(1) core_st_def by simp
  moreover have "(ms_duration (t_reordering (dar_timer now (fst s2))) > 0) = dur" "protocol_state (dar_timer now (fst s2)) = protocol_state e0"
    using e' dur o2(3) by simp_all
  ultimately show ?thesis using s1(1) s2(1) by blast
qed

lemma process_dar_ok:
  fixes now :: "32 word"
  assumes sim: "um_sim W e st" and sn: "pdu_sn (rx_sn_length e) pdu = Some (x mod (2 * W))"
    and x: "rH st - W \<le> x" "x < rH st + W" and c: "core_st (e, out) = core_st t"
    and dur: "dur = (ms_duration (t_reordering e) > 0)" and ref: "ref_receive W dur x pdu st = (cs, st')"
    and r: "run_slots alloc cs t = Some t'"
  shows "\<exists>s'. rlc_um_receive_process_dar now alloc pdu (e, out) = Some s' \<and> um_sim W (fst s') st' \<and> core_st s' = core_st t' \<and>
    (ms_duration (t_reordering (fst s')) > 0) = dur \<and> protocol_state (fst s') = protocol_state e"
proof -
  let ?R = "rR st" and ?H = "rH st" and ?B = "rB st" and ?sn = "x mod (2 * W)"
  have W: "0 < W" "rx_um_window_size e = W" "vr_ur e = ?R mod (2 * W)" "vr_uh e = ?H mod (2 * W)" "?R \<le> ?H" "?H \<le> ?R + W"
      "view W ?R ?B e" "last_ok W ?R e" "\<And>y. ?B y \<noteq> None \<Longrightarrow> ?R \<le> y \<and> y < ?H"
    using sim by (simp_all add: um_sim_def)
  have wd: "windowed W ?H e" using W by (simp add: windowed_def view_def)
  have low: "?H - W \<le> ?R" using W(6) by simp
  have in1: "(rlc_um_in_window e (vr_uh e - rx_um_window_size e) ?sn (vr_ur e) = 1 \<or>
      rlc_um_in_window e (vr_uh e - rx_um_window_size e) ?sn (vr_ur e) = 0) = (x < ?R)"
    using in_window_low [OF wd x low W(5)] unfolding W(3) by auto
  have in2: "(rlc_um_in_window e (vr_ur e) ?sn (vr_uh e) = 0) = (?R < x \<and> x < ?H)"
    unfolding W(3) by (rule in_window_mid(1) [OF wd x low W(5)])
  show ?thesis
  proof (cases "x < ?R")
    case True
    then have cs: "cs = []" "st' = st" using ref x by (simp_all add: ref_receive_def)
    have "rlc_um_receive_process_dar now alloc pdu (e, out) =
        Some (on_stats (\<lambda>t. t\<lparr>stat_rx_data_pdu_out_of_window := stat_rx_data_pdu_out_of_window t + 1,
                  stat_rx_data_bytes_out_of_window := stat_rx_data_bytes_out_of_window t + of_nat (length pdu)\<rparr>) e, out)"
      using sn in1 True by (simp add: rlc_um_receive_process_dar_def Let_def)
    then show ?thesis using cs sim c r dur by (simp add: um_sim_stats core_st_def)
  next
    case False
    then have xR: "?R \<le> x" by simp
    have g: "rlc_um_get_pdu_from_dar_buffer e ?sn = Some (?B x)" by (rule view_get [OF W(1,7) xR]) (use x W(6) in linarith)
    let ?dup = "on_stats (\<lambda>t. t\<lparr>stat_rx_data_pdus_duplicate := stat_rx_data_pdus_duplicate t + 1,
                        stat_rx_data_bytes_duplicate := stat_rx_data_bytes_duplicate t + of_nat (length pdu)\<rparr>) e"
    define e1 where "e1 = (if ?B x \<noteq> None then ?dup else e)"
    define e3 where "e3 = rlc_um_store_pdu_in_dar_buffer pdu ?sn (if ?B x \<noteq> None then rlc_um_remove_pdu_from_dar_buffer ?sn e1 else e1)"
    have step: "rlc_um_receive_process_dar now alloc pdu (e, out) =
        (if ?R < x \<and> x < ?H \<and> ?B x \<noteq> None then Some (e1, out)
         else do { s1 \<leftarrow> dar_move_window alloc ?sn (e3, out);
                   s2 \<leftarrow> dar_advance alloc ?sn s1;
                   Some (dar_timer now (fst s2), snd s2) })"
      unfolding rlc_um_receive_process_dar_def using sn in1 in2 False g
      by (simp add: Let_def e1_def e3_def del: bind_eq_Some_conv not_None_eq)
    show ?thesis
    proof (cases "?R < x \<and> x < ?H \<and> ?B x \<noteq> None")
      case True
      then have cs: "cs = []" "st' = st" using ref False by (simp_all add: ref_receive_def)
      have "rlc_um_receive_process_dar now alloc pdu (e, out) = Some (?dup, out)" using step True by (simp add: e1_def)
      then show ?thesis using cs sim c r dur by (simp add: core_st_def)
    next
      case fresh: False
      have R2: "(if x = max ?R (max ?H (x + 1) - W) then next_missing (nat (max ?H (x + 1) - (max ?R (max ?H (x + 1) - W) + 1))) (?B(x := Some pdu))
          (max ?R (max ?H (x + 1) - W) + 1) else max ?R (max ?H (x + 1) - W)) = next_R W st x pdu"
        by (simp only: next_R_def next_H_def Let_def)
      have cs: "map (?B(x := Some pdu)) [?R..next_R W st x pdu - 1] = cs"
        "\<lparr>rR = next_R W st x pdu, rH = next_H st x, rX = ref_timer W dur (next_R W st x pdu) (next_H st x) (rX st),
          rB = (\<lambda>y. if y < next_R W st x pdu then None else (?B(x := Some pdu)) y)\<rparr> = st'"
        using ref False fresh unfolding ref_receive_def Let_def R2 by (auto simp: next_H_def)
      have e3: "e3 = e\<lparr>dar_buffer := (dar_buffer e)[nat ?sn := Some pdu], um_stats := um_stats e3\<rparr>"
        by (simp add: e3_def e1_def rlc_um_store_pdu_in_dar_buffer_def rlc_um_remove_pdu_from_dar_buffer_def)
      have f: "core e3 = core e" "windowed W ?H e3 = windowed W ?H e" "vr_ur e3 = vr_ur e" "last_ok W ?R e3 = last_ok W ?R e" "outer e3 = outer e"
        "view W ?R (?B(x := Some pdu)) e3 = view W ?R (?B(x := Some pdu)) (rlc_um_store_pdu_in_dar_buffer pdu ?sn e)"
        by (subst e3, simp add: core_def windowed_def last_ok_def outer_def view_def rlc_um_store_pdu_in_dar_buffer_def)+
      have v: "view W ?R (?B(x := Some pdu)) e3" unfolding f by (rule view_store [OF W(1,7) xR]) (use x W(6) in linarith)
      have c3: "core_st (e3, out) = core_st t" using c f(1) by (simp add: core_st_def)
      note T = dar_tail_ok [OF sim xR x(2) c3 _ _ v _ f(5) dur, unfolded f cs, OF wd W(3) W(8) r, of now]
      show ?thesis using T step fresh by auto
    qed
  qed
qed

text \<open>The loop at expiry stops at VR(UH) at the latest: that number has not been received.\<close>

lemma skip_received_ok:
  assumes "0 < W" "view W R B e" "B H = None" "H < R + 2 * W" "vr_ur e = a mod (2 * W)" "R \<le> a" "a \<le> H" "nat (H - a) < fuel"
  shows "skip_received fuel e = Some (e\<lparr>vr_ur := next_missing (nat (H - a)) B a mod (2 * W)\<rparr>)"
  using assms
proof (induction fuel arbitrary: a e)
  case (Suc fuel)
  note p = Suc.prems
  let ?e1 = "e\<lparr>vr_ur := (a + 1) mod (2 * W)\<rparr>"
  have m: "rx_sn_modulo e = 2 * W" using p(2) by (simp add: view_def)
  have up: "c_mod (vr_ur e + 1) (rx_sn_modulo e) = (a + 1) mod (2 * W)" using p(1,5) m by (simp add: c_mod_nonneg mod_simps)
  have g: "rlc_um_get_pdu_from_dar_buffer e (vr_ur e) = Some (B a)"
    unfolding p(5) by (rule view_get [OF p(1,2,6)]) (use p in linarith)
  have step: "skip_received (Suc fuel) e = (if B a \<noteq> None then skip_received fuel ?e1 else Some e)" using up g by simp
  show ?case
  proof (cases "B a = None")
    case True
    have "next_missing (nat (H - a)) B a = a" using True by (cases "nat (H - a)") simp_all
    then show ?thesis using step True p(5) by (simp del: skip_received.simps)
  next
    case False
    then have lt: "a < H" using p(3,7) by (cases "a = H") auto
    have "skip_received fuel ?e1 = Some (?e1\<lparr>vr_ur := next_missing (nat (H - (a + 1))) B (a + 1) mod (2 * W)\<rparr>)"
      by (rule Suc.IH) (use p lt in auto)
    moreover have "nat (H - a) = Suc (nat (H - (a + 1)))" using lt by simp
    moreover have "next_missing (Suc n) B a = next_missing n B (a + 1)" for n using False by auto
    ultimately show ?thesis using step False by (simp del: skip_received.simps next_missing.simps)
  qed
qed simp

lemma expiry_ok:
  fixes now :: "32 word"
  assumes sim: "um_sim W e st" and ex: "timer_expired now (t_reordering e)" and c: "core_st (e, out) = core_st t"
    and dur: "dur = (ms_duration (t_reordering e) > 0)" and ref: "ref_expire dur st = (cs, st')"
    and r: "run_slots alloc cs t = Some t'"
  shows "\<exists>s'. rlc_um_check_timer_dar_time_out now alloc (e, out) = Some s' \<and> um_sim W (fst s') st' \<and> core_st s' = core_st t' \<and>
    (ms_duration (t_reordering (fst s')) > 0) = dur \<and> protocol_state (fst s') = protocol_state e"
proof (cases "rX st")
  case None
  then have "rlc_um_check_timer_dar_time_out now alloc (e, out) = Some (e, out)"
    using sim by (simp add: rlc_um_check_timer_dar_time_out_def um_sim_def)
  moreover have "cs = []" "st' = st" using ref None by (simp_all add: ref_expire_def)
  ultimately show ?thesis using sim c r dur by simp
next
  case (Some x)
  let ?R = "rR st" and ?H = "rH st" and ?B = "rB st"
  have W: "0 < W" "rx_um_window_size e = W" "vr_ur e = ?R mod (2 * W)" "vr_uh e = ?H mod (2 * W)" "?R \<le> ?H" "?H \<le> ?R + W"
      "view W ?R ?B e" "last_ok W ?R e" "\<And>y. ?B y \<noteq> None \<Longrightarrow> ?R \<le> y \<and> y < ?H"
    and X: "running (t_reordering e) \<and> 0 < ms_duration (t_reordering e)" "vr_ux e = x mod (2 * W)" "?R \<le> x" "x \<le> ?H" "?R < x \<or> x = ?R \<and> x = ?H"
    using sim Some by (auto simp: um_sim_def)
  define R2 where "R2 = next_missing (nat (?H - x)) ?B x"
  have b: "x \<le> R2" "R2 \<le> ?H" using next_missing_bounds [where y = x and n = "nat (?H - x)" and B = ?B] X(4) by (auto simp: R2_def)
  have cs: "map ?B [?R..R2 - 1] = cs"
      "\<lparr>rR = R2, rH = ?H, rX = (if R2 < ?H \<and> dur then Some ?H else None), rB = (\<lambda>y. if y < R2 then None else ?B y)\<rparr> = st'"
    using ref Some by (simp_all add: ref_expire_def R2_def Let_def)
  let ?e1 = "on_stats (\<lambda>t. t\<lparr>stat_timer_reordering_timed_out := stat_timer_reordering_timed_out t + 1\<rparr>) e"
  let ?e2 = "?e1\<lparr>vr_ur := R2 mod (2 * W)\<rparr>"
  have v1: "view W ?R ?B (?e1\<lparr>vr_ur := y\<rparr>)" "last_ok W ?R (?e1\<lparr>vr_ur := y\<rparr>)" for y using W(7,8) by (simp_all add: view_def last_ok_def)
  have BH: "?B y = None" if "?H \<le> y" for y using W(9) [of y] that by (cases "?B y") auto
  have m: "rx_sn_modulo e = 2 * W" using W(7) by (simp add: view_def)
  have skip: "skip_received (nat (rx_sn_modulo ?e1) + 1) (?e1\<lparr>vr_ur := vr_ux ?e1\<rparr>) = Some ?e2"
    using skip_received_ok [OF W(1) v1(1) BH, of ?H "vr_ux ?e1" x "nat (rx_sn_modulo ?e1) + 1"] X W m by (simp add: R2_def)
  have c2: "core_st (?e2, out) = core_st t" using c by (simp add: core_st_def)
  have "\<exists>s3. rlc_um_try_reassembly alloc (?R mod (2 * W)) (R2 mod (2 * W)) (?e2, out) = Some s3 \<and> core_st s3 = core_st t' \<and>
      frame (fst s3) = frame ?e2 \<and> view W R2 ?B (fst s3) \<and> last_ok W R2 (fst s3)"
  proof (cases "?R = R2")
    case True
    then have "t' = t" using r cs(1) by simp
    then show ?thesis using True c2 v1 by (simp add: rlc_um_try_reassembly_def Let_def)
  next
    case False
    then have "?R < R2" using b X(3) by simp
    then show ?thesis
      using try_reassembly_ok [OF W(1), of ?R ?B "(?e2, out)" t alloc R2 t' ?H] v1 BH c2 r cs(1) b W by auto
  qed
  then obtain s3 where s3: "rlc_um_try_reassembly alloc (?R mod (2 * W)) (R2 mod (2 * W)) (?e2, out) = Some s3" "core_st s3 = core_st t'"
      "frame (fst s3) = frame ?e2" "view W R2 ?B (fst s3)" "last_ok W R2 (fst s3)" by blast
  note f = frame_fields [OF s3(3)]
  let ?e3 = "fst s3"
  have wd: "windowed W ?H ?e3" using f W m by (simp add: windowed_def)
  have d3: "0 < ms_duration (t_reordering ?e3)" using f(4) X(1) by simp
  define e4 where "e4 = (if R2 < ?H then (rlc_um_start_timer_reordering now ?e3)\<lparr>vr_ux := vr_uh ?e3\<rparr> else rlc_um_stop_and_reset_timer_reordering ?e3)"
  have w: "(rlc_um_in_window ?e3 (vr_ur ?e3) (vr_uh ?e3) (vr_uh ?e3) = 2) = (R2 < ?H)"
    using in_window_mid(3) [OF wd, of ?H R2] f(1) b X W by auto
  have "rlc_um_check_timer_dar_time_out now alloc (e, out) = Some (e4, snd s3)"
    unfolding rlc_um_check_timer_dar_time_out_def Let_def fst_conv snd_conv
    using X(1) ex skip s3(1) w W(3) by (simp add: e4_def)
  moreover obtain tr ux where e4: "e4 = ?e3\<lparr>t_reordering := tr, vr_ux := ux\<rparr>" "ms_duration tr = ms_duration (t_reordering e)"
      "running tr = (R2 < ?H)" "R2 < ?H \<Longrightarrow> ux = ?H mod (2 * W)"
  proof (cases "R2 < ?H")
    case True
    let ?t = "(t_reordering ?e3)\<lparr>timed_out := False, running := True, ms_time_out := now + ms_duration (t_reordering ?e3), ms_start := now\<rparr>"
    have "e4 = ?e3\<lparr>t_reordering := ?t, vr_ux := ?H mod (2 * W)\<rparr>"
      using True d3 f(3) W(4) by (simp add: e4_def rlc_um_start_timer_reordering_def Let_def)
    then show ?thesis using True f(4) by (intro that [where tr = ?t and ux = "?H mod (2 * W)"]) simp_all
  next
    case False
    let ?t = "(t_reordering ?e3)\<lparr>running := False, ms_time_out := 0, ms_start := 0, timed_out := False\<rparr>"
    have "e4 = ?e3\<lparr>t_reordering := ?t, vr_ux := vr_ux ?e3\<rparr>" using False by (simp add: e4_def rlc_um_stop_and_reset_timer_reordering_def)
    then show ?thesis using False f(4) by (intro that [where tr = ?t and ux = "vr_ux ?e3"]) simp_all
  qed
  moreover have "um_sim W e4 st'"
    unfolding cs(2) [symmetric] um_sim_def e4(1) timer_upds
    using s3(4,5) b W f e4 X(1,3) dur BH by (auto intro: view_weaken)
  moreover have "core_st (e4, snd s3) = core_st t'" using s3(2) unfolding e4(1) core_st_def by simp
  ultimately show ?thesis using dur f(8) by simp
qed

section \<open>Properties of the receiver\<close>

lemma run_slots_length: "run_slots alloc cs t = Some t' \<Longrightarrow> rx_sn_length (fst t') = rx_sn_length (fst t)"
proof (induction cs arbitrary: t)
  case (Cons c cs)
  then obtain t1 where t1: "slot_step alloc c t = Some t1" "run_slots alloc cs t1 = Some t'" by (auto simp: bind_eq_Some_conv)
  have "rx_sn_length (fst t1) = rx_sn_length (fst t)"
    using t1(1) rest_fields(10) [OF reassemble_pdu_rest] by (auto simp: slot_step_def rlc_um_clear_rx_sdu_def split: option.splits)
  then show ?case using Cons.IH [OF t1(2)] by simp
qed simp

text \<open>The reference on a sequence of PDUs, each with its counter, and what it takes of the counters.\<close>

fun ref_receive_all :: "int \<Rightarrow> bool \<Rightarrow> (int \<times> octet list) list \<Rightarrow> um_ref \<Rightarrow> octet list option list \<times> um_ref" where
  "ref_receive_all W dur [] st = ([], st)"
| "ref_receive_all W dur (p # ps) st =
     (let (c, st1) = ref_receive W dur (fst p) (snd p) st; (cs, st2) = ref_receive_all W dur ps st1 in (c @ cs, st2))"

fun in_reach :: "int \<Rightarrow> bool \<Rightarrow> (int \<times> octet list) list \<Rightarrow> um_ref \<Rightarrow> bool" where
  "in_reach W dur [] st \<longleftrightarrow> True"
| "in_reach W dur (p # ps) st \<longleftrightarrow> rH st - W \<le> fst p \<and> fst p < rH st + W \<and> in_reach W dur ps (snd (ref_receive W dur (fst p) (snd p) st))"

lemma receive_ok:
  fixes now :: "32 word"
  assumes "um_sim W e st" "dur = (ms_duration (t_reordering e) > 0)" "in_reach W dur ps st"
    and "\<And>x pdu. (x, pdu) \<in> set ps \<Longrightarrow> pdu_sn (rx_sn_length e) pdu = Some (x mod (2 * W))"
    and "core_st (e, out) = core_st t" "ref_receive_all W dur ps st = (cs, st')" "run_slots alloc cs t = Some t'"
  shows "\<exists>s'. rlc_um_receive now alloc (map snd ps) (e, out) = Some s' \<and> um_sim W (fst s') st' \<and> core_st s' = core_st t'"
  using assms
proof (induction ps arbitrary: e out st t cs)
  case Nil
  then show ?case by auto
next
  case (Cons p ps)
  note a = Cons.prems
  obtain x pdu where p: "p = (x, pdu)" by (cases p)
  let ?e = "on_stats (\<lambda>t. t\<lparr>stat_rx_data_bytes := stat_rx_data_bytes t + of_nat (length pdu), stat_rx_data_pdu := stat_rx_data_pdu t + 1\<rparr>) e"
  obtain c st1 where r1: "ref_receive W dur x pdu st = (c, st1)" by (cases "ref_receive W dur x pdu st")
  obtain cs2 st2 where r2: "ref_receive_all W dur ps st1 = (cs2, st2)" by (cases "ref_receive_all W dur ps st1")
  have cs: "cs = c @ cs2" "st' = st2" using a(6) p r1 r2 by simp_all
  obtain t1 where t1: "run_slots alloc c t = Some t1" "run_slots alloc cs2 t1 = Some t'"
    using a(7) cs by (auto simp: run_slots_append bind_eq_Some_conv)
  have sn: "pdu_sn (rx_sn_length e) pdu = Some (x mod (2 * W))" using a(4) p by simp
  have ne: "length pdu > 0" using sn by (auto simp: pdu_sn_def split: if_splits)
  have c': "core_st (?e, out) = core_st t" using a(5) by (simp add: core_st_def)
  obtain s1 where s1: "rlc_um_receive_process_dar now alloc pdu (?e, out) = Some s1" "um_sim W (fst s1) st1" "core_st s1 = core_st t1"
      "(ms_duration (t_reordering (fst s1)) > 0) = dur"
    using process_dar_ok [of W ?e st pdu x out t dur c st1 alloc t1 now] a(1-3) sn p r1 t1(1) c' by auto
  have len: "rx_sn_length (fst s1) = rx_sn_length e"
    using core_st_fields(4) [OF s1(3)] core_st_fields(4) [OF a(5)] run_slots_length [OF t1(1)] by simp
  have reach: "in_reach W dur ps st1" using a(3) p r1 by simp
  have "\<exists>s'. rlc_um_receive now alloc (map snd ps) (fst s1, snd s1) = Some s' \<and> um_sim W (fst s') st' \<and> core_st s' = core_st t'"
    by (rule Cons.IH [OF s1(2) s1(4) [symmetric] reach _ _ r2 [folded cs(2)] t1(2)]) (use a(4) len s1(3) in simp_all)
  then show ?case using ne s1(1) p by simp
qed

text \<open>
  When reassembly does not fault: the allocator gives at least what was asked for, the SDU in construction
  has the space of an SDU, and the length indicators of a PDU can be read.
\<close>

definition alloc_ok :: "allocator \<Rightarrow> bool" where
  "alloc_ok alloc \<longleftrightarrow> (\<forall>n b. alloc n = Some b \<longrightarrow> n \<le> length b)"

definition sdu_ok :: "rlc_um_entity \<Rightarrow> bool" where
  "sdu_ok e \<longleftrightarrow> (case output_sdu_in_construction e of None \<Rightarrow> True | Some b \<Rightarrow> sdu_max_size e \<le> length b)"

definition readable :: "nat \<Rightarrow> octet list \<Rightarrow> bool" where
  "readable sn_length pdu \<longleftrightarrow>
     (let hl = (if sn_length = 10 then 2 else 1) in
      hl \<le> length pdu \<and>
      ((if sn_length = 10 then pdu ! 0 AND 0x04 \<noteq> 0 else pdu ! 0 AND 0x20 \<noteq> 0) \<longrightarrow>
       read_li_loop pdu hl [] (int (length pdu) - int hl) \<noteq> None))"

lemma write_at_total: "i + length bs \<le> length buf \<Longrightarrow> \<exists>buf'. write_at i bs buf = Some buf' \<and> length buf' = length buf"
  by (simp add: write_at_def)

lemma reassembly_total:
  assumes "alloc_ok alloc" "sdu_ok e"
  shows "\<exists>e'. rlc_um_reassembly alloc src e = Some e' \<and> sdu_ok e'"
proof -
  define ob where "ob = (case output_sdu_in_construction e of None \<Rightarrow> alloc (sdu_max_size e) | Some b \<Rightarrow> Some b)"
  define n where "n = (if output_sdu_in_construction e = None then 0 else output_sdu_size_to_write e)"
  have ob: "sdu_max_size e \<le> length b" if "ob = Some b" for b
    using that assms unfolding ob_def alloc_ok_def sdu_ok_def by (auto split: option.splits)
  have wr: "write_at n src b \<noteq> None" if "ob = Some b" "n + length src \<le> sdu_max_size e" for b
    using ob [OF that(1)] that(2) by (simp add: write_at_def)
  have "map_option core (rlc_um_reassembly alloc src e) \<noteq> None"
    unfolding reassembly_core_eq ob_def [symmetric] n_def [symmetric] Let_def
    using wr by (cases ob) (auto simp del: not_None_eq not_Some_eq)
  then obtain e' where e': "rlc_um_reassembly alloc src e = Some e'" by auto
  have "sdu_max_size e' = sdu_max_size e" using rest_fields(11) [OF reassembly_rest [OF e']] by (simp add: sdu_max_size_def)
  moreover have "core e' = core e \<or> output_sdu_in_construction e' = None \<or> (\<exists>b b'. ob = Some b \<and> output_sdu_in_construction e' = Some b' \<and> length b' = length b)"
    using reassembly_core_eq [of alloc src e] unfolding e' ob_def [symmetric] n_def [symmetric] Let_def
    by (auto simp: core_def write_at_def split: option.splits if_splits)
  ultimately have "sdu_ok e'" using ob assms(2) by (auto simp: sdu_ok_def core_def split: option.splits)
  then show ?thesis using e' by blast
qed

lemma send_sdu_ok: "sdu_ok (fst s) \<Longrightarrow> sdu_ok (fst (rlc_um_send_sdu s))"
  by (auto simp: rlc_um_send_sdu_def sdu_ok_def sdu_max_size_def Let_def split: option.splits)

lemma sdu_ok_upds [simp]:
  "sdu_ok (rlc_um_clear_rx_sdu e) = sdu_ok e" "sdu_ok (e\<lparr>reassembly_missing_sn_detected := b\<rparr>) = sdu_ok e" "sdu_ok (drop_pdu pdu e) = sdu_ok e"
  "sdu_ok (e\<lparr>um_stats := u\<rparr>) = sdu_ok e"
  by (simp_all add: sdu_ok_def rlc_um_clear_rx_sdu_def drop_pdu_def sdu_max_size_def split: option.split)

lemma reassemble_lis_total:
  assumes "alloc_ok alloc" "sdu_ok (fst s)" "off + sum_list lis \<le> length pdu"
  shows "\<exists>s'. reassemble_lis alloc pdu off lis s = Some (s', off + sum_list lis) \<and> sdu_ok (fst s')"
  using assms(2,3)
proof (induction lis arbitrary: off s)
  case (Cons li lis)
  obtain e1 where e1: "rlc_um_reassembly alloc (take li (drop off pdu)) (fst s) = Some e1" "sdu_ok e1"
    using reassembly_total [OF assms(1) Cons.prems(1)] by blast
  have "sdu_ok (fst (rlc_um_send_sdu (e1, snd s)))" using e1(2) send_sdu_ok [of "(e1, snd s)"] by simp
  from Cons.IH [OF this, of "off + li"] Cons.prems(2) e1(1) show ?case by (auto simp: slice_def add.assoc)
qed simp

text \<open>The indicators read, their octets and the size that remains.\<close>

lemma read_li_loop_spec:
  assumes "read_li_loop pdu pos lis sz = Some (ok, lis', r)"
  shows "\<exists>new. lis' = lis @ new \<and> new \<noteq> [] \<and> r = sz - int (sum_list new) - int ((3 * length new + 1) div 2)"
  using assms
proof (induction pdu pos lis sz rule: read_li_loop.induct)
  case (1 pdu pos lis sz)
  define li1 where "li1 = li_of_b12 (pdu ! pos) (pdu ! (pos + 1))"
  define li2 where "li2 = li_of_b23 (pdu ! (pos + 1)) (pdu ! (pos + 2))"
  show ?case
  proof (cases "read_li_loop pdu (pos + 3) (lis @ [li1, li2]) (sz - int li1 - 2 - int li2 - 1) = Some (ok, lis', r) \<and>
      pos + 2 < length pdu \<and> length lis + 1 < RLC_UM_SEGMENT_NB_MAX_LI_PER_PDU \<and> pdu ! pos AND 0x80 \<noteq> 0 \<and> pdu ! (pos + 1) AND 0x08 \<noteq> 0")
    case True
    then have "\<exists>new. lis' = (lis @ [li1, li2]) @ new \<and> new \<noteq> [] \<and> r = sz - int li1 - 2 - int li2 - 1 - int (sum_list new) - int ((3 * length new + 1) div 2)"
      using "1.IH" [of "pdu ! pos" "pdu ! (pos + 1)" li1 "lis @ [li1]" "sz - int li1 - 2" li2 "lis @ [li1, li2]" "sz - int li1 - 2 - int li2 - 1"]
      by (simp add: li1_def li2_def)
    then obtain new where "lis' = lis @ (li1 # li2 # new)" "r = sz - int li1 - 2 - int li2 - 1 - int (sum_list new) - int ((3 * length new + 1) div 2)"
      by auto
    then show ?thesis by (intro exI [of _ "li1 # li2 # new"]) simp
  next
    case False
    then have "(lis' = lis @ [li1, li2] \<and> r = sz - int li1 - 2 - int li2 - 1) \<or> (lis' = lis @ [li1] \<and> r = sz - int li1 - 2)"
      using "1.prems" by (subst (asm) read_li_loop.simps) (auto simp: Let_def li1_def li2_def split: if_splits)
    then show ?thesis by auto
  qed
qed

lemma reassemble_no_li_total:
  assumes "alloc_ok alloc" "sdu_ok (fst s)"
  shows "\<exists>s'. reassemble_no_li alloc pdu fi d s = Some s' \<and> sdu_ok (fst s')"
proof -
  have r: "\<exists>e'. rlc_um_reassembly alloc d e = Some e' \<and> sdu_ok e'" if "sdu_ok e" for e by (rule reassembly_total [OF assms(1) that])
  obtain e1 where e1: "rlc_um_reassembly alloc d (rlc_um_clear_rx_sdu (fst s)) = Some e1" "sdu_ok e1"
    using r [of "rlc_um_clear_rx_sdu (fst s)"] assms(2) by auto
  obtain e2 where e2: "rlc_um_reassembly alloc d (fst s) = Some e2" "sdu_ok e2" using r assms(2) by blast
  show ?thesis
    using e1 e2 assms(2) send_sdu_ok [of "(e1, snd s)"] send_sdu_ok [of "(e2, snd s)"]
    by (auto simp: reassemble_no_li_def Let_def)
qed

lemma reassemble_li_total:
  assumes "alloc_ok alloc" "sdu_ok (fst s)" "lis \<noteq> []" "off + sum_list lis + n \<le> length pdu"
  shows "\<exists>s'. reassemble_li alloc pdu fi lis off n s = Some s' \<and> sdu_ok (fst s')"
proof -
  let ?skip = "fi \<ge> 2 \<and> reassembly_missing_sn_detected (fst s)"
  define e1 where "e1 = (if fi < 2 then rlc_um_clear_rx_sdu (fst s) else if ?skip
      then on_stats (\<lambda>t. t\<lparr>stat_rx_data_bytes_dropped := stat_rx_data_bytes_dropped t + of_nat (lis ! 0)\<rparr>) (fst s) else fst s)"
  define o1 where "o1 = (if ?skip then off + lis ! 0 else off)"
  define l1 where "l1 = (if ?skip then drop 1 lis else lis)"
  have ok: "sdu_ok (fst (e1, snd s))" using assms(2) by (simp add: e1_def)
  have o1: "o1 + sum_list l1 = off + sum_list lis" using assms(3) by (cases lis) (simp_all add: o1_def l1_def)
  obtain s1 where s1: "reassemble_lis alloc pdu o1 l1 (e1, snd s) = Some (s1, off + sum_list lis)" "sdu_ok (fst s1)"
    using reassemble_lis_total [OF assms(1) ok, of o1 l1 pdu] o1 assms(4) by auto
  have sl: "slice pdu (off + sum_list lis) n = Some (take n (drop (off + sum_list lis) pdu))" using assms(4) by (simp add: slice_def)
  obtain e2 where e2: "rlc_um_reassembly alloc (take n (drop (off + sum_list lis) pdu)) (fst s1) = Some e2" "sdu_ok e2"
    using reassembly_total [OF assms(1) s1(2)] by blast
  have "sdu_ok (fst (rlc_um_send_sdu (e2, snd s1)))" using send_sdu_ok [of "(e2, snd s1)"] e2(2) by simp
  then show ?thesis
    unfolding reassemble_li_def Let_def e1_def [symmetric] o1_def [symmetric] l1_def [symmetric] s1(1) Option.bind.simps prod.case sl e2(1)
    using e2(2) by simp
qed

lemma reassemble_pdu_total:
  assumes "alloc_ok alloc" "sdu_ok (fst s)" "readable (rx_sn_length (fst s)) pdu"
  shows "\<exists>s'. reassemble_pdu alloc pdu s = Some s' \<and> sdu_ok (fst s')"
proof -
  let ?hl = "if rx_sn_length (fst s) = 10 then 2 else 1 :: nat"
  define fi where "fi = (if rx_sn_length (fst s) = 10 then unat (drop_bit 3 (pdu ! 0 AND 0x18)) else unat (drop_bit 6 (pdu ! 0 AND 0xC0)))"
  define ext where "ext = (if rx_sn_length (fst s) = 10 then pdu ! 0 AND 0x04 \<noteq> 0 else pdu ! 0 AND 0x20 \<noteq> 0)"
  have hl: "?hl \<le> length pdu" "\<not> (length pdu < ?hl \<or> length pdu < 1)" using assms(3) by (auto simp: readable_def Let_def split: if_splits)
  have eq: "reassemble_pdu alloc pdu s = (if \<not> ext then reassemble_no_li alloc pdu fi (drop ?hl pdu) s
      else do { (rc, lis, rest, off) \<leftarrow> rlc_um_read_length_indicators pdu ?hl (int (length pdu) - int ?hl);
             if rc \<ge> 0 then reassemble_li alloc pdu fi lis off (nat rest) s
             else Some ((drop_pdu pdu (fst s))\<lparr>reassembly_missing_sn_detected := True\<rparr>, snd s) })"
    using hl(2) unfolding reassemble_pdu_def Let_def fi_def ext_def by (simp only: if_False)
  show ?thesis
  proof (cases ext)
    case False
    then show ?thesis using eq reassemble_no_li_total [OF assms(1,2)] by simp
  next
    case True
    then obtain ok lis r where l: "read_li_loop pdu ?hl [] (int (length pdu) - int ?hl) = Some (ok, lis, r)"
      using assms(3) by (auto simp: readable_def Let_def ext_def)
    have sp: "lis \<noteq> []" "r = int (length pdu) - int ?hl - int (sum_list lis) - int ((3 * length lis + 1) div 2)"
      using read_li_loop_spec [OF l] by auto
    show ?thesis
    proof (cases "ok \<and> r > 0")
      case False
      then have "reassemble_pdu alloc pdu s = Some ((drop_pdu pdu (fst s))\<lparr>reassembly_missing_sn_detected := True\<rparr>, snd s)"
        using eq l True by (auto simp: rlc_um_read_length_indicators_def)
      then show ?thesis using assms(2) by simp
    next
      case ok: True
      then have "reassemble_pdu alloc pdu s = reassemble_li alloc pdu fi lis (?hl + (length lis * 3 + 1) div 2) (nat r) s"
        using eq l True by (simp add: rlc_um_read_length_indicators_def)
      moreover have "?hl + (length lis * 3 + 1) div 2 + sum_list lis + nat r \<le> length pdu"
      proof -
        have "nat r = length pdu - ?hl - sum_list lis - (3 * length lis + 1) div 2" "?hl + sum_list lis + (3 * length lis + 1) div 2 < length pdu"
          using sp(2) ok by linarith+
        then show ?thesis by (simp only: mult.commute) linarith
      qed
      ultimately show ?thesis using reassemble_li_total [OF assms(1,2) sp(1)] by simp
    qed
  qed
qed

lemma run_slots_total:
  assumes "alloc_ok alloc" "sdu_ok (fst s)" "\<forall>pdu. Some pdu \<in> set cs \<longrightarrow> readable (rx_sn_length (fst s)) pdu"
  shows "\<exists>s'. run_slots alloc cs s = Some s' \<and> sdu_ok (fst s')"
  using assms(2,3)
proof (induction cs arbitrary: s)
  case (Cons c cs)
  obtain s1 where s1: "slot_step alloc c s = Some s1" "sdu_ok (fst s1)"
  proof (cases c)
    case None
    then show ?thesis using that Cons.prems(1) by (simp add: slot_step_def)
  next
    case (Some pdu)
    then have "readable (rx_sn_length (fst s)) pdu" using Cons.prems(2) by simp
    then show ?thesis using reassemble_pdu_total [OF assms(1) Cons.prems(1)] that Some by (fastforce simp: slot_step_def)
  qed
  have "rx_sn_length (fst s1) = rx_sn_length (fst s)" using run_slots_length [of alloc "[c]" s s1] s1(1) by simp
  then have "\<forall>pdu. Some pdu \<in> set cs \<longrightarrow> readable (rx_sn_length (fst s1)) pdu" using Cons.prems(2) by simp
  from Cons.IH [OF s1(2) this] show ?case using s1(1) by simp
qed simp

section \<open>Theorems\<close>

definition um_start :: um_ref where
  "um_start = \<lparr>rR = 0, rH = 0, rX = None, rB = (\<lambda>y. None)\<rparr>"

definition um_window :: "nat \<Rightarrow> int" where
  "um_window sn_length = (if sn_length = 10 then 512 else 16)"

lemma init_dar: "\<not> initialized e \<Longrightarrow> length (dar_buffer (rlc_um_init e)) = 1024 \<and> (\<forall>i < 1024. dar_buffer (rlc_um_init e) ! i = None)"
  by (simp add: rlc_um_init_def zero_um_def)

lemma init_fields:
  "\<not> initialized e \<Longrightarrow> protocol_state (rlc_um_init e) = RLC_NULL_STATE \<and> output_sdu_in_construction (rlc_um_init e) = None \<and>
    output_sdu_size_to_write (rlc_um_init e) = 0 \<and> reassembly_missing_sn_detected (rlc_um_init e) = False"
  by (simp add: rlc_um_init_def zero_um_def)

text \<open>\<open>rlc_um_configure\<close> on a clean entity gives a receiver in its first state.\<close>

lemma configure_sim:
  fixes tr :: "32 word"
  assumes rx: "rx = 5 \<or> rx = 10" and tx: "tx = 0 \<or> tx = 5 \<or> tx = 10"
    and buf: "length (dar_buffer e) = 1024" "\<forall>i < 1024. dar_buffer e ! i = None" and sdu: "output_sdu_in_construction e = None"
  defines "e' \<equiv> rlc_um_configure e tr rx tx 0"
  shows "um_sim (um_window rx) e' um_start" "sdu_ok e'" "rx_sn_length e' = rx" "ms_duration (t_reordering e') = tr"
    "protocol_state e' = protocol_state e" "is_data_plane e' = is_data_plane e"
    "output_sdu_in_construction e' = None" "reassembly_missing_sn_detected e' = False"
proof -
  have f: "rx_um_window_size e' = um_window rx" "rx_sn_modulo e' = 2 * um_window rx" "vr_ur e' = 0" "vr_uh e' = 0" "dar_buffer e' = dar_buffer e"
      "last_reassemblied_sn e' = 2 * um_window rx - 1" "\<not> running (t_reordering e')" "output_sdu_in_construction e' = None"
      "reassembly_missing_sn_detected e' = False" "rx_sn_length e' = rx" "ms_duration (t_reordering e') = tr"
      "protocol_state e' = protocol_state e" "is_data_plane e' = is_data_plane e"
    using rx tx sdu unfolding e'_def
    by (auto simp: rlc_um_configure_def Let_def rlc_um_reset_state_variables_def rlc_um_init_timer_reordering_def um_window_def um_constants)
  have W: "0 < um_window rx" "2 * um_window rx \<le> 1024" by (simp_all add: um_window_def)
  have nx: "dar_buffer e ! nat (y mod (2 * um_window rx)) = None" for y
  proof -
    have "0 \<le> y mod (2 * um_window rx)" "y mod (2 * um_window rx) < 2 * um_window rx" using W by simp_all
    then have "nat (y mod (2 * um_window rx)) < 1024" using W by linarith
    then show ?thesis using buf(2) by simp
  qed
  have v: "view (um_window rx) 0 (\<lambda>y. None) e'"
    unfolding view_def f(2,5) by (intro conjI allI impI nx refl) (use W buf(1) in simp)
  show "um_sim (um_window rx) e' um_start"
    using f W v by (simp add: um_sim_def um_start_def last_ok_def)
  show "sdu_ok e'" "rx_sn_length e' = rx" "ms_duration (t_reordering e') = tr" "protocol_state e' = protocol_state e"
    "is_data_plane e' = is_data_plane e" "output_sdu_in_construction e' = None" "reassembly_missing_sn_detected e' = False"
    using f by (simp_all add: sdu_ok_def)
qed

lemma sdu_ok_core: "core e = core e' \<Longrightarrow> sdu_ok e = sdu_ok e'"
  by (simp add: core_def sdu_ok_def sdu_max_size_def split: option.splits)

lemma config_sim:
  fixes tr :: "32 word" and srb :: bool and rb ch :: nat
  assumes "rx = 5 \<or> rx = 10"
  defines "e \<equiv> snd (config_req_rlc_um zero_um srb tr rx 0 rb ch)"
  shows "um_sim (um_window rx) e um_start" "sdu_ok e" "rx_sn_length e = rx" "ms_duration (t_reordering e) = tr"
    "protocol_state e = RLC_DATA_TRANSFER_READY_STATE" "output_sdu_in_construction e = None" "is_data_plane e = (\<not> srb)"
    "reassembly_missing_sn_detected e = False"
proof -
  let ?e = "rlc_um_set_debug_infos ((rlc_um_init zero_um)\<lparr>protocol_state := RLC_DATA_TRANSFER_READY_STATE\<rparr>) srb rb ch"
  have "\<not> initialized zero_um" by (simp add: zero_um_def)
  note i = init_dar [OF this] init_fields [OF this]
  have e: "e = rlc_um_configure ?e tr rx rx 0"
    using i by (simp add: e_def config_req_rlc_um_def rlc_um_fsm_notify_event_def)
  have b: "length (dar_buffer ?e) = 1024" "\<forall>i < 1024. dar_buffer ?e ! i = None" "output_sdu_in_construction ?e = None"
      "protocol_state ?e = RLC_DATA_TRANSFER_READY_STATE" "is_data_plane ?e = (\<not> srb)"
    using i by (simp_all add: rlc_um_set_debug_infos_def)
  have t: "rx = 0 \<or> rx = 5 \<or> rx = 10" using assms(1) by blast
  note c = configure_sim [OF assms(1) t b(1-3), of tr, folded e]
  show "um_sim (um_window rx) e um_start" "sdu_ok e" "rx_sn_length e = rx" "ms_duration (t_reordering e) = tr"
    "protocol_state e = RLC_DATA_TRANSFER_READY_STATE" "output_sdu_in_construction e = None" "is_data_plane e = (\<not> srb)"
    "reassembly_missing_sn_detected e = False"
    using c b(4,5) by simp_all
qed

text \<open>
  C6. \<open>rlc_um_rx\<close> on the PDUs of a transport indication, in any order, with gaps and duplicates: if each PDU
  carries the residue of a counter within the window of VR(UH) and the indicators of the PDUs that are
  reassembled can be read, the entity ends in the state of the reference receiver and passes up the SDUs
  that reassembling the reference's slots in sequence gives. It never faults.
\<close>

theorem um_receiver_refines_reference:
  fixes now :: "32 word"
  assumes "um_sim W e st" "protocol_state e = RLC_DATA_TRANSFER_READY_STATE" "dur = (ms_duration (t_reordering e) > 0)"
    and "in_reach W dur ps st" "\<forall>(x, pdu) \<in> set ps. pdu_sn (rx_sn_length e) pdu = Some (x mod (2 * W))"
    and "alloc_ok alloc" "sdu_ok e" "ref_receive_all W dur ps st = (cs, st')"
    and "\<forall>pdu. Some pdu \<in> set cs \<longrightarrow> readable (rx_sn_length e) pdu"
  shows "\<exists>e' t. rlc_um_rx now alloc (map snd ps) (e, out) = Some (e', snd t) \<and> run_slots alloc cs (e, out) = Some t \<and>
    um_sim W e' st' \<and> sdu_ok e'"
proof -
  obtain t where t: "run_slots alloc cs (e, out) = Some t" "sdu_ok (fst t)"
    using run_slots_total [of alloc "(e, out)" cs] assms(6,7,9) by auto
  have sn: "pdu_sn (rx_sn_length e) pdu = Some (x mod (2 * W))" if "(x, pdu) \<in> set ps" for x pdu using assms(5) that by auto
  obtain s' where s': "rlc_um_receive now alloc (map snd ps) (e, out) = Some s'" "um_sim W (fst s') st'" "core_st s' = core_st t"
    using receive_ok [OF assms(1,3,4) sn refl assms(8) t(1), of now] by blast
  have "snd s' = snd t" "sdu_ok (fst s')" using core_st_fields(2) [OF s'(3)] sdu_ok_core [OF core_st_fields(1) [OF s'(3)]] t(2) by simp_all
  then show ?thesis using s' t(1) assms(2) by (intro exI [of _ "fst s'"] exI [of _ t]) (simp add: rlc_um_rx_def prod_eq_iff)
qed

text \<open>A bearer with 5-bit sequence numbers, as configured, and an allocator that always succeeds.\<close>

definition um_example :: rlc_um_entity where
  "um_example = snd (config_req_rlc_um zero_um True 35 5 0 3 3)"

definition um_alloc :: allocator where
  "um_alloc n = Some (replicate n 0)"

lemma um_example_facts:
  "um_sim 16 um_example um_start" "sdu_ok um_example" "rx_sn_length um_example = 5" "ms_duration (t_reordering um_example) = 35"
  "protocol_state um_example = RLC_DATA_TRANSFER_READY_STATE" "output_sdu_in_construction um_example = None"
  "is_data_plane um_example = False" "reassembly_missing_sn_detected um_example = False" "alloc_ok um_alloc"
  using config_sim [of 5 True 35 3 3] by (simp_all add: um_example_def um_window_def alloc_ok_def um_alloc_def)

lemma um_example_slots:
  "fst (ref_receive_all 16 True [(1, [1, 0xBB]), (0, [0, 0xAA])] um_start) = [Some [0, 0xAA], Some [1, 0xBB]]"
  by (simp add: um_start_def ref_receive_def Let_def eval_nat_numeral upto.simps)

lemma run_two_example:
  "map_option snd (run_slots um_alloc [Some [0, 0xAA], Some [1, 0xBB]] (um_example, [])) = Some [[0xAA], [0xBB]]"
  using um_example_facts(3,6,7,8)
  by (simp add: slot_step_def reassemble_pdu_def reassemble_no_li_def rlc_um_reassembly_def rlc_um_clear_rx_sdu_def um_alloc_def
      rlc_um_send_sdu_def sdu_max_size_def um_constants write_at_def Let_def)

theorem um_receiver_refines_reference_witness:
  "\<exists>e'. rlc_um_rx 7 um_alloc [[1, 0xBB], [0, 0xAA]] (um_example, []) = Some (e', [[0xAA], [0xBB]])"
proof -
  have dur: "True = (ms_duration (t_reordering um_example) > 0)" by (simp add: um_example_facts)
  have reach: "in_reach 16 True [(1, [1, 0xBB]), (0, [0, 0xAA])] um_start" by (simp add: um_start_def ref_receive_def Let_def)
  obtain st' where st': "ref_receive_all 16 True [(1, [1, 0xBB]), (0, [0, 0xAA])] um_start = ([Some [0, 0xAA], Some [1, 0xBB]], st')"
    using um_example_slots by (metis prod.collapse)
  obtain e' t where "rlc_um_rx 7 um_alloc [[1, 0xBB], [0, 0xAA]] (um_example, []) = Some (e', snd t)"
      "run_slots um_alloc [Some [0, 0xAA], Some [1, 0xBB]] (um_example, []) = Some t"
    using um_receiver_refines_reference [OF um_example_facts(1,5) dur reach _ um_example_facts(9,2) st', of 7 "[]"]
    by (auto simp: pdu_sn_def um_example_facts readable_def)
  then show ?thesis using run_two_example by simp
qed

text \<open>
  C9. \<open>rlc_um_check_timer_dar_time_out\<close> when t-Reordering has expired: the entity gives up what is missing
  below VR(UX), passes up what the reference's slots give, moves VR(UR) to the next number not received and
  starts t-Reordering again exactly when there is a gap left. It never faults.
\<close>

theorem um_expiry_refines_reference:
  fixes now :: "32 word"
  assumes "um_sim W e st" "timer_expired now (t_reordering e)" "alloc_ok alloc" "sdu_ok e"
    and "ref_expire (ms_duration (t_reordering e) > 0) st = (cs, st')" "\<forall>pdu. Some pdu \<in> set cs \<longrightarrow> readable (rx_sn_length e) pdu"
  shows "\<exists>e' t. rlc_um_check_timer_dar_time_out now alloc (e, out) = Some (e', snd t) \<and> run_slots alloc cs (e, out) = Some t \<and>
    um_sim W e' st' \<and> sdu_ok e'"
proof -
  obtain t where t: "run_slots alloc cs (e, out) = Some t" "sdu_ok (fst t)"
    using run_slots_total [of alloc "(e, out)" cs] assms(3,4,6) by auto
  obtain s' where s': "rlc_um_check_timer_dar_time_out now alloc (e, out) = Some s'" "um_sim W (fst s') st'" "core_st s' = core_st t"
    using expiry_ok [OF assms(1,2) refl refl assms(5) t(1)] by blast
  have "snd s' = snd t" "sdu_ok (fst s')" using core_st_fields(2) [OF s'(3)] sdu_ok_core [OF core_st_fields(1) [OF s'(3)]] t(2) by simp_all
  then show ?thesis using s' t(1) by (intro exI [of _ "fst s'"] exI [of _ t]) (simp add: prod_eq_iff)
qed

text \<open>The example bearer after PDU 1 came in first: t-Reordering runs from 7 to 42.\<close>

definition um_gap :: rlc_um_entity where
  "um_gap = (rlc_um_store_pdu_in_dar_buffer [1, 0xBB] 1 um_example)\<lparr>vr_uh := 2, vr_ux := 2,
     t_reordering := \<lparr>ms_time_out = 42, ms_start = 7, ms_duration = 35, running = True, timed_out = False\<rparr>\<rparr>"

definition um_gap_ref :: um_ref where
  "um_gap_ref = \<lparr>rR = 0, rH = 2, rX = Some 2, rB = (\<lambda>y. None)(1 := Some [1, 0xBB])\<rparr>"

lemma um_gap_facts:
  "um_sim 16 um_gap um_gap_ref" "sdu_ok um_gap" "core um_gap = core um_example" "rx_sn_length um_gap = 5"
  "ref_expire True um_gap_ref = ([None, Some [1, 0xBB]], snd (ref_expire True um_gap_ref))"
proof -
  let ?e = "rlc_um_store_pdu_in_dar_buffer [1, 0xBB] 1 um_example"
  have s: "um_sim 16 um_example um_start" by (rule um_example_facts)
  then have "view 16 0 (\<lambda>y. None) um_example" by (simp add: um_sim_def um_start_def)
  then have v: "view 16 0 ((\<lambda>y. None)(1 := Some [1, 0xBB])) ?e" using view_store [of 16 0 "\<lambda>y. None" um_example 1 "[1, 0xBB]"] by simp
  show "um_sim 16 um_gap um_gap_ref"
    using s v unfolding um_sim_def um_gap_ref_def um_gap_def um_start_def
    by (simp add: view_def last_ok_def rlc_um_store_pdu_in_dar_buffer_def)
  show c: "core um_gap = core um_example" by (simp add: um_gap_def core_def rlc_um_store_pdu_in_dar_buffer_def)
  show "sdu_ok um_gap" using sdu_ok_core [OF c] um_example_facts(2) by simp
  show "rx_sn_length um_gap = 5" using um_example_facts(3) by (simp add: um_gap_def rlc_um_store_pdu_in_dar_buffer_def)
  have "fst (ref_expire True um_gap_ref) = map ((\<lambda>y. None)(1 := Some [1, 0xBB])) [0..1]"
    by (simp add: um_gap_ref_def ref_expire_def Let_def)
  also have "[0..1] = [0, 1 :: int]" by (simp add: upto.simps)
  finally show "ref_expire True um_gap_ref = ([None, Some [1, 0xBB]], snd (ref_expire True um_gap_ref))" by (simp add: prod_eq_iff)
qed

lemma run_gap_example: "map_option snd (run_slots um_alloc [None, Some [1, 0xBB]] (um_gap, [])) = Some [[0xBB]]"
proof -
  have c: "output_sdu_in_construction um_gap = None" "rx_sn_length um_gap = 5" "is_data_plane um_gap = False"
    using um_gap_facts(3,4) um_example_facts(6,7) by (simp_all add: core_def)
  show ?thesis using c
    by (simp add: slot_step_def reassemble_pdu_def reassemble_no_li_def rlc_um_reassembly_def rlc_um_clear_rx_sdu_def um_alloc_def
        rlc_um_send_sdu_def sdu_max_size_def um_constants write_at_def Let_def)
qed

theorem um_expiry_refines_reference_witness:
  "\<exists>e'. rlc_um_check_timer_dar_time_out 42 um_alloc (um_gap, []) = Some (e', [[0xBB]])"
proof -
  have x: "timer_expired 42 (t_reordering um_gap)" "(ms_duration (t_reordering um_gap) > 0) = True"
    by (simp_all add: um_gap_def timer_expired_def)
  obtain e' t where "rlc_um_check_timer_dar_time_out 42 um_alloc (um_gap, []) = Some (e', snd t)"
      "run_slots um_alloc [None, Some [1, 0xBB]] (um_gap, []) = Some t"
    using um_expiry_refines_reference [OF um_gap_facts(1) x(1) um_example_facts(9) um_gap_facts(2), unfolded x(2), OF um_gap_facts(5), of "[]"]
    by (auto simp: um_gap_facts(4) readable_def)
  then show ?thesis using run_gap_example by simp
qed

text \<open>
  C24. t-Reordering, started at \<open>t0\<close> with a duration that is not 0, has expired at \<open>now\<close> exactly when that many
  milliseconds have passed on the 32-bit clock, whether or not the clock has wrapped around in between.
\<close>

theorem um_timer_exact:
  fixes now t0 :: "32 word"
  assumes "ms_duration (t_reordering e) > 0"
  shows "running (t_reordering (rlc_um_start_timer_reordering t0 e)) \<and>
    timer_expired now (t_reordering (rlc_um_start_timer_reordering t0 e)) = (ms_duration (t_reordering e) \<le> now - t0)"
proof -
  let ?d = "ms_duration (t_reordering e)"
  have d: "0 < unat ?d" using assms by (simp add: word_less_nat_alt)
  have b: "unat now < 2 ^ 32" "unat t0 < 2 ^ 32" "unat ?d < 2 ^ 32" using unsigned_less [of now] unsigned_less [of t0] unsigned_less [of ?d] by simp_all
  have s: "unat (t0 + ?d) = (if unat t0 + unat ?d < 2 ^ 32 then unat t0 + unat ?d else unat t0 + unat ?d - 2 ^ 32)"
    using b by (simp add: unat_word_ariths mod_if)
  have m: "unat (now - t0) = (if unat t0 \<le> unat now then unat now - unat t0 else unat now + 2 ^ 32 - unat t0)"
    using b by (simp add: unat_sub_if_size word_size)
  show ?thesis
    using assms d b
    by (simp add: rlc_um_start_timer_reordering_def Let_def timer_expired_def word_less_nat_alt word_le_nat_alt s m) linarith
qed

theorem um_timer_exact_witness:
  "timer_expired 4 (t_reordering (rlc_um_start_timer_reordering 4294967265 um_example)) \<and>
   \<not> timer_expired 3 (t_reordering (rlc_um_start_timer_reordering 4294967265 um_example))"
proof -
  have d: "ms_duration (t_reordering um_example) > 0" by (simp add: um_example_facts)
  show ?thesis using um_timer_exact [OF d, of 4294967265 4] um_timer_exact [OF d, of 4294967265 3] by (simp add: um_example_facts)
qed

text \<open>
  C25. \<open>config_req_rlc_um_asn1\<close> on an entity that is not in use, with field lengths and a timer value of the
  tables, on either side: the receiver starts in the first state of the reference, with the window of the
  direction it receives from, ready to transfer data.
\<close>

theorem um_config_starts_receiver:
  assumes "\<not> initialized e" "ul = 0 \<or> ul = 1" "dl = 0 \<or> dl = 1" "t < length t_Reordering_tab"
  shows "let e' = snd (config_req_rlc_um_asn1 enb e srb 0 (Some ul) (Some (dl, t)) rb ch); rx = (if enb then ul else dl) in
    um_sim (if rx = 1 then 512 else 16) e' um_start \<and> sdu_ok e' \<and> protocol_state e' = RLC_DATA_TRANSFER_READY_STATE \<and>
    ms_duration (t_reordering e') = t_Reordering_tab ! t"
proof -
  let ?e = "rlc_um_set_debug_infos ((rlc_um_init e)\<lparr>protocol_state := RLC_DATA_TRANSFER_READY_STATE\<rparr>) srb rb ch"
  let ?l = "\<lambda>v::int. if v = 1 then 10 else 5 :: nat" and ?tr = "t_Reordering_tab ! t"
  note i = init_dar [OF assms(1)] init_fields [OF assms(1)]
  have sn: "sn_FieldLength_bits v = Some (?l v)" if "v = 0 \<or> v = 1" for v using that by (auto simp: sn_FieldLength_bits_def)
  have e: "snd (config_req_rlc_um_asn1 enb e srb 0 (Some ul) (Some (dl, t)) rb ch) =
      rlc_um_configure ?e ?tr (?l (if enb then ul else dl)) (?l (if enb then dl else ul)) 0"
    using i assms(4) sn [OF assms(2)] sn [OF assms(3)] by (simp add: config_req_rlc_um_asn1_def rlc_um_fsm_notify_event_def Let_def)
  have b: "length (dar_buffer ?e) = 1024" "\<forall>i < 1024. dar_buffer ?e ! i = None" "output_sdu_in_construction ?e = None"
      "protocol_state ?e = RLC_DATA_TRANSFER_READY_STATE"
    using i by (simp_all add: rlc_um_set_debug_infos_def)
  have l: "?l v = 5 \<or> ?l v = 10" "?l v = 0 \<or> ?l v = 5 \<or> ?l v = 10" for v by auto
  note c = configure_sim [OF l(1) [of "if enb then ul else dl"] l(2) [of "if enb then dl else ul"] b(1-3), of ?tr]
  show ?thesis unfolding Let_def e using c b(4) by (auto simp: um_window_def split: if_splits)
qed

theorem um_config_starts_receiver_witness:
  "um_sim 512 (snd (config_req_rlc_um_asn1 True zero_um False 0 (Some 1) (Some (0, 7)) 3 3)) um_start"
proof -
  have "\<not> initialized zero_um" "7 < length t_Reordering_tab" by (simp_all add: zero_um_def t_Reordering_tab_def)
  then show ?thesis using um_config_starts_receiver [of zero_um 1 0 7 True False 3 3] by (simp add: Let_def)
qed

end
