(* ===== verification/RlcUmTx.thy ===== *)
theory RlcUmTx
  imports RlcUmRx
begin

text \<open>
  The transmitting side of RLC unacknowledged mode: \<open>rlc_um_segment.c\<close> and the transmission functions of
  \<open>rlc_um.c\<close>. \<open>alloc\<close> gives for \<open>data_pdu_size\<close> the part of the block behind \<open>struct mac_tb_req\<close>, whose octets
  are arbitrary. An SDU has at most 65535 octets. The assertion of the last branch of the filling loop is active (\<open>USER_MODE\<close>, no \<open>EXMIMO\<close>).
\<close>

section \<open>Size of the PDU\<close>

definition max_li_overhead :: "nat \<Rightarrow> nat" where
  "max_li_overhead nb_elements = (if nb_elements \<le> 1 then 0 else ((nb_elements - 1) * 3) div 2 + (nb_elements - 1) mod 2)"

definition data_pdu_size :: "rlc_um_entity \<Rightarrow> nat" where
  "data_pdu_size e =
     (let need = u32 (buffer_occupancy e + int (tx_header_min_length_in_bytes e) + int (max_li_overhead (length (input_sdus e))))
      in if int (nb_bytes_requested_by_mac e) \<ge> need then nat need else nb_bytes_requested_by_mac e)"

section \<open>How many SDUs fill the PDU\<close>

text \<open>\<open>test_reduce\<close> is what the loop takes off \<open>pdu_remaining_size\<close>.\<close>

record um_test =
  test_pdu_remaining_size :: int
  test_li_length_in_bytes :: nat
  test_num_li :: nat
  test_remaining_size_to_substract :: nat
  test_remaining_num_li_to_substract :: nat
  test_reduce :: nat

definition test_stop :: "nat \<Rightarrow> um_test \<Rightarrow> um_test" where
  "test_stop n t = t\<lparr>test_pdu_remaining_size := 0, test_remaining_size_to_substract := 0,
     test_remaining_num_li_to_substract := 0, test_reduce := n\<rparr>"

fun test_fill :: "tx_sdu list \<Rightarrow> um_test \<Rightarrow> um_test" where
  "test_fill [] t = t"
| "test_fill (s # ss) t =
     (let a = int (sdu_remaining_size s); r = test_pdu_remaining_size t; li = test_li_length_in_bytes t XOR 3
      in if a > r then test_stop 0 t
         else if a = r then test_stop 0 t
         else if a + int li = r then test_stop li t
         else if a + int li < r then
           test_fill ss (t\<lparr>test_num_li := test_num_li t + 1, test_pdu_remaining_size := r - (a + int li),
             test_remaining_size_to_substract := li, test_remaining_num_li_to_substract := 1, test_li_length_in_bytes := li\<rparr>)
         else test_stop 1 t)"

definition test_start :: "int \<Rightarrow> um_test" where
  "test_start r = \<lparr>test_pdu_remaining_size = r, test_li_length_in_bytes = 1, test_num_li = 0,
     test_remaining_size_to_substract = 0, test_remaining_num_li_to_substract = 0, test_reduce = 0\<rparr>"

section \<open>Filling the PDU\<close>

text \<open>The PDU behind the block header, \<open>data\<close> and \<open>e_li_p\<close> as offsets in it, and the variables of the loop.\<close>

record um_fill =
  f_pdu :: "octet list"
  f_data :: nat
  f_e_li :: nat
  f_li_length :: nat
  f_num_li :: nat
  f_remaining :: int
  f_bo :: int
  f_last :: bool

text \<open>Copy \<open>n\<close> octets of the SDU to \<open>data\<close>.\<close>

definition copy_sdu :: "tx_sdu \<Rightarrow> int \<Rightarrow> um_fill \<Rightarrow> octet list option" where
  "copy_sdu s n f =
     (if n < 0 then None
      else do {
        src \<leftarrow> slice (sdu_data s) (sdu_segmented_size s) (nat n);
        write_at (f_data f) src (f_pdu f) })"

text \<open>Write the length indicator of the SDU: the first or the second one of a triple of octets.\<close>

definition write_li :: "nat \<Rightarrow> nat \<Rightarrow> bool \<Rightarrow> nat \<Rightarrow> octet list \<Rightarrow> octet list option" where
  "write_li li pos ext n buf =
     (if li = 2 then write_at pos [(if ext then 0x80 else 0) OR of_nat (n div 16), push_bit 4 (of_nat n)] buf
      else if \<not> pos + 1 < length buf then None
      else write_at (pos + 1) [buf ! (pos + 1) OR (if ext then 0x08 else 0) OR of_nat (n div 256), of_nat n AND 0xFF] buf)"

fun fill_sdus :: "nat \<Rightarrow> tx_sdu list \<Rightarrow> um_fill \<Rightarrow> (tx_sdu list \<times> um_fill) option" where
  "fill_sdus test_num [] f = Some ([], f)"
| "fill_sdus test_num (s # ss) f =
     (let n = sdu_remaining_size s; a = int n; r = f_remaining f; li = f_li_length f XOR 3
      in if a > r then do {
           p \<leftarrow> copy_sdu s r f;
           Some (s\<lparr>sdu_remaining_size := n - nat r, sdu_segmented_size := sdu_segmented_size s + nat r\<rparr> # ss,
                 f\<lparr>f_pdu := p, f_last := False, f_bo := f_bo f - r, f_remaining := 0\<rparr>) }
         else if a = r then do {
           p \<leftarrow> copy_sdu s r f;
           Some (ss, f\<lparr>f_pdu := p, f_last := True, f_bo := f_bo f - a, f_remaining := 0\<rparr>) }
         else if a + int li < r then do {
           p \<leftarrow> copy_sdu s a f;
           p1 \<leftarrow> write_li li (f_e_li f) (f_num_li f + 1 \<noteq> test_num) n p;
           fill_sdus test_num ss
             (f\<lparr>f_pdu := p1, f_data := f_data f + n, f_li_length := li, f_num_li := f_num_li f + 1,
                f_e_li := (if li = 2 then f_e_li f else f_e_li f + 3),
                f_remaining := r - (a + int li), f_bo := f_bo f - a\<rparr>) }
         else None)"

section \<open>Segmentation\<close>

text \<open>
  What the two functions share: \<open>hl\<close> is the length of the fixed part, \<open>fix\<close> tells whether the size of the
  PDU follows the reduction, \<open>header\<close> gives the fixed part for the framing info, the extension bit and VT(US).
\<close>

definition um_segment :: "nat \<Rightarrow> bool \<Rightarrow> (nat \<Rightarrow> bool \<Rightarrow> 16 word \<Rightarrow> octet list) \<Rightarrow> allocator \<Rightarrow> rlc_um_entity \<Rightarrow> rlc_um_entity option" where
  "um_segment hl fix header alloc e =
     (if input_sdus e = [] then Some e
      else
        let size = data_pdu_size e in
        case alloc size of
          None \<Rightarrow> Some e
        | Some block \<Rightarrow> do {
            p0 \<leftarrow> write_at 0 (replicate 4 0) block;
            let r = int size - int hl;
            let t = test_fill (input_sdus e) (test_start r);
            let unused = test_remaining_num_li_to_substract t > 0;
            let num_li = (if unused then test_num_li t - 1 else test_num_li t);
            let r1 = r - int (test_reduce t) - (if unused then int (test_remaining_size_to_substract t) else 0);
            let size1 = (if fix then size - test_reduce t else size);
            let first = (sdu_remaining_size (input_sdus e ! 0) = sdu_size (input_sdus e ! 0));
            (sdus, f) \<leftarrow> fill_sdus num_li (input_sdus e)
              \<lparr>f_pdu = p0, f_data = hl + (num_li * 3 + 1) div 2, f_e_li = hl, f_li_length = 1, f_num_li = 0,
               f_remaining = r1, f_bo = buffer_occupancy e, f_last = False\<rparr>;
            let fi = (if first then 0 else 2) + (if f_last f then 0 else 1);
            p1 \<leftarrow> write_at 0 (header fi (f_num_li f > 0) (vt_us e)) (f_pdu f);
            let tb_size = int size1 - f_remaining f;
            if tb_size > 0 \<and> nat tb_size \<le> length p1
            then Some (e\<lparr>input_sdus := sdus, buffer_occupancy := f_bo f, vt_us := vt_us e + 1,
                         pdus_to_mac_layer := pdus_to_mac_layer e @ [take (nat tb_size) p1]\<rparr>)
            else None })"

definition header_10 :: "nat \<Rightarrow> bool \<Rightarrow> 16 word \<Rightarrow> octet list" where
  "header_10 fi ext sn = [of_nat (fi * 8) OR (if ext then 0x04 else 0) OR ucast (drop_bit 8 sn AND 0x03), ucast (sn AND 0xFF)]"

definition header_5 :: "nat \<Rightarrow> bool \<Rightarrow> 16 word \<Rightarrow> octet list" where
  "header_5 fi ext sn = [of_nat (fi * 64) OR (if ext then 0x20 else 0) OR ucast (sn AND 0x1F)]"

definition rlc_um_segment_10 :: "allocator \<Rightarrow> rlc_um_entity \<Rightarrow> rlc_um_entity option" where
  "rlc_um_segment_10 alloc e =
     (if nb_bytes_requested_by_mac e < 3 then Some e else um_segment 2 False header_10 alloc e)"

definition rlc_um_segment_5 :: "allocator \<Rightarrow> rlc_um_entity \<Rightarrow> rlc_um_entity option" where
  "rlc_um_segment_5 alloc e =
     (if nb_bytes_requested_by_mac e < 2 then Some e else um_segment 1 True header_5 alloc e)"

section \<open>Service interface (rlc_um.c)\<close>

definition rlc_um_get_buffer_occupancy :: "rlc_um_entity \<Rightarrow> nat" where
  "rlc_um_get_buffer_occupancy e = (if buffer_occupancy e > 0 then nat (buffer_occupancy e) else 0)"

definition rlc_um_get_pdus :: "allocator \<Rightarrow> rlc_um_entity \<Rightarrow> rlc_um_entity option" where
  "rlc_um_get_pdus alloc e =
     (case protocol_state e of
        RLC_DATA_TRANSFER_READY_STATE \<Rightarrow> do {
          e1 \<leftarrow> (if tx_sn_length e = 10 then rlc_um_segment_10 alloc e else Some e);
          (if tx_sn_length e1 = 5 then rlc_um_segment_5 alloc e1 else Some e1) }
      | RLC_NULL_STATE \<Rightarrow> Some e
      | RLC_LOCAL_SUSPEND_STATE \<Rightarrow> Some e
      | RLC_RESET_PENDING_STATE \<Rightarrow> Some e
      | RLC_RESET_AND_SUSPEND_STATE \<Rightarrow> Some e)"

definition rlc_um_set_nb_bytes_requested_by_mac :: "nat \<Rightarrow> rlc_um_entity \<Rightarrow> rlc_um_entity" where
  "rlc_um_set_nb_bytes_requested_by_mac tb_size e = e\<lparr>nb_bytes_requested_by_mac := tb_size\<rparr>"

text \<open>The PDUs, the buffer occupancy reported to an eNB, and the entity. A PDU without octets is an assertion.\<close>

definition rlc_um_mac_data_request :: "allocator \<Rightarrow> rlc_um_entity \<Rightarrow> (octet list list \<times> nat \<times> rlc_um_entity) option" where
  "rlc_um_mac_data_request alloc e = do {
     e1 \<leftarrow> rlc_um_get_pdus alloc e;
     let pdus = pdus_to_mac_layer e1;
     let bo = rlc_um_get_buffer_occupancy e1;
     if list_all (\<lambda>p. 0 < length p) pdus
     then Some (pdus, if bo > 0 then bo + tx_header_min_length_in_bytes e1 else bo,
                on_stats (\<lambda>t. t\<lparr>stat_tx_data_pdu := stat_tx_data_pdu t + of_nat (length pdus),
                                stat_tx_data_bytes := stat_tx_data_bytes t + of_nat (sum_list (map length pdus))\<rparr>)
                  (e1\<lparr>pdus_to_mac_layer := []\<rparr>))
     else None }"

definition rlc_um_data_req :: "int \<Rightarrow> octet list \<Rightarrow> rlc_um_entity \<Rightarrow> rlc_um_entity" where
  "rlc_um_data_req frame sdu e =
     (let n = length sdu;
          e1 = on_stats (\<lambda>t. t\<lparr>stat_tx_pdcp_sdu := stat_tx_pdcp_sdu t + 1, stat_tx_pdcp_bytes := stat_tx_pdcp_bytes t + of_nat n\<rparr>) e
      in e1\<lparr>buffer_occupancy := buffer_occupancy e1 + int n,
            input_sdus := input_sdus e1 @ [\<lparr>sdu_data = sdu, sdu_creation_time = frame, sdu_remaining_size = n,
                                            sdu_segmented_size = 0, sdu_size = n\<rparr>]\<rparr>)"

text \<open>\<open>struct mac_status_resp\<close>, as far as the function fills it.\<close>

record mac_status_resp =
  buffer_occupancy_in_pdus :: nat
  buffer_occupancy_in_bytes :: nat
  head_sdu_remaining_size_to_send :: nat
  head_sdu_creation_time :: "32 word"
  head_sdu_is_segmented :: bool

definition rlc_um_mac_status_indication ::
    "32 word \<Rightarrow> allocator \<Rightarrow> int \<Rightarrow> nat \<Rightarrow> bool \<Rightarrow> um_state \<Rightarrow> (mac_status_resp \<times> um_state) option" where
  "rlc_um_mac_status_indication now alloc frame tbs_size enb_flag s = do {
     s1 \<leftarrow> rlc_um_check_timer_dar_time_out now alloc s;
     let e = (fst s1)\<lparr>nb_bytes_requested_by_mac := tbs_size\<rparr>;
     let bo = rlc_um_get_buffer_occupancy e;
     let resp = (case input_sdus e of
       [] \<Rightarrow> \<lparr>buffer_occupancy_in_pdus = 0, buffer_occupancy_in_bytes = bo, head_sdu_remaining_size_to_send = 0,
               head_sdu_creation_time = 0, head_sdu_is_segmented = False\<rparr>
     | s # ss \<Rightarrow>
         if bo > 0 then
           let diff_time = frame - sdu_creation_time s in
           \<lparr>buffer_occupancy_in_pdus = length (input_sdus e),
            buffer_occupancy_in_bytes = (if enb_flag then bo + tx_header_min_length_in_bytes e else bo),
            head_sdu_remaining_size_to_send = sdu_remaining_size s,
            head_sdu_creation_time = (if diff_time > 0 then of_int diff_time else of_int (0xFFFFFFFF - diff_time + frame)),
            head_sdu_is_segmented = (sdu_size s \<noteq> sdu_remaining_size s)\<rparr>
         else \<lparr>buffer_occupancy_in_pdus = 0, buffer_occupancy_in_bytes = bo, head_sdu_remaining_size_to_send = 0,
               head_sdu_creation_time = 0, head_sdu_is_segmented = False\<rparr>);
     Some (resp, e, snd s1) }"

end
