(* ===== verification/RlcUmSeg.thy ===== *)
theory RlcUmSeg
  imports RlcUmTx RlcUmRef
begin

text \<open>
  What the segmentation of RLC UM puts on the air and what the receiver makes of it: the layout of a UMD
  PDU as a function of the pieces of SDUs in it, its reading by the receiver, and the transfer of SDUs
  from one entity to the other.
\<close>

section \<open>Layout of a UMD PDU\<close>

fun li_octets :: "nat list \<Rightarrow> octet list" where
  "li_octets [] = []"
| "li_octets [l] = [of_nat (l div 16), push_bit 4 (of_nat l)]"
| "li_octets (l1 # l2 # ls) =
     [0x80 OR of_nat (l1 div 16), push_bit 4 (of_nat l1) OR (if ls \<noteq> [] then 0x08 else 0) OR of_nat (l2 div 256), of_nat l2] @ li_octets ls"

lemma length_li_octets: "length (li_octets ls) = (length ls * 3 + 1) div 2"
  by (induction ls rule: li_octets.induct) auto

lemma unat_of_nat_8 [simp]: "k < 256 \<Longrightarrow> unat (of_nat k :: octet) = k"
  by (simp add: unat_of_nat take_bit_nat_eq_self)

lemma masks_8: "(0x7F :: octet) = mask 7" "(0xFF :: octet) = mask 8" "(0x07 :: octet) = mask 3" "(0x0F :: octet) = mask 4"
  "(0x80 :: octet) = push_bit 7 1" "(0x08 :: octet) = push_bit 3 1" "(0xF0 :: octet) = push_bit 4 (mask 4)"
  by (simp_all add: mask_eq_exp_minus_1 push_bit_eq_mult)

lemma small_octet_bit: "k < 2 ^ n \<Longrightarrow> n \<le> m \<Longrightarrow> \<not> bit (of_nat k :: octet) m"
proof -
  assume "k < 2 ^ n" "n \<le> m"
  then have "k < 2 ^ m" by (elim less_le_trans) simp
  then have "\<not> bit k m" by (simp add: bit_iff_odd)
  then show ?thesis by (simp add: bit_simps)
qed

lemma and_low: "k < 2 ^ n \<Longrightarrow> n \<le> 8 \<Longrightarrow> of_nat k AND mask n = (of_nat k :: octet)"
  by (simp add: take_bit_eq_mask [symmetric] word_unat_eq_iff unsigned_take_bit_eq unat_of_nat take_bit_nat_eq_self min_def)

lemma and_high: "k < 2 ^ n \<Longrightarrow> of_nat k AND push_bit n w = (0 :: octet)"
proof -
  assume k: "k < 2 ^ n"
  have "\<not> bit (of_nat k AND push_bit n w :: octet) m" for m
    using small_octet_bit [OF k, of m] by (auto simp: bit_simps)
  then show ?thesis by (simp add: bit_eq_iff)
qed

lemma b1_fields:
  assumes "l < 2048"
  shows "unat (of_nat (l div 16) AND 0x7F :: octet) = l div 16" "unat ((0x80 OR of_nat (l div 16)) AND 0x7F :: octet) = l div 16"
    "(0x80 OR of_nat (l div 16)) AND 0x80 \<noteq> (0 :: octet)" "of_nat (l div 16) AND 0x80 = (0 :: octet)"
proof -
  have k: "l div 16 < 2 ^ 7" using assms by simp
  have w: "of_nat (l div 16) AND 0x7F = (of_nat (l div 16) :: octet)" unfolding masks_8 by (rule and_low [OF k]) simp
  show u: "unat (of_nat (l div 16) AND 0x7F :: octet) = l div 16" unfolding w using k by simp
  have "(0x80 OR of_nat (l div 16)) AND 0x7F = (0x80 AND 0x7F) OR (of_nat (l div 16) AND 0x7F :: octet)" by (rule bit.conj_disj_distrib2)
  then show "unat ((0x80 OR of_nat (l div 16)) AND 0x7F :: octet) = l div 16" using u by simp
  show h: "of_nat (l div 16) AND 0x80 = (0 :: octet)" unfolding masks_8 by (rule and_high [OF k])
  have "(0x80 OR of_nat (l div 16)) AND 0x80 = (0x80 AND 0x80) OR (of_nat (l div 16) AND 0x80 :: octet)" by (rule bit.conj_disj_distrib2)
  then show "(0x80 OR of_nat (l div 16)) AND 0x80 \<noteq> (0 :: octet)" using h by simp
qed

lemma drop_bit_high: "drop_bit 4 (w AND 0xF0) = drop_bit 4 (w :: octet)"
proof (rule bit_eqI)
  fix n
  have "bit w (4 + n) \<Longrightarrow> n < 4" using bit_imp_le_length [of w "4 + n"] by simp
  then show "bit (drop_bit 4 (w AND 0xF0)) n = bit (drop_bit 4 w) n" unfolding masks_8 by (auto simp: bit_simps)
qed

lemma b2_high:
  "unat (drop_bit 4 (push_bit 4 (of_nat l) AND 0xF0 :: octet)) = l mod 16"
  "k < 8 \<Longrightarrow> c \<in> {0, 0x08} \<Longrightarrow> unat (drop_bit 4 ((push_bit 4 (of_nat l) OR c OR of_nat k) AND 0xF0 :: octet)) = l mod 16"
proof -
  note d = drop_bit_high
  have u: "unat (drop_bit 4 (push_bit 4 (of_nat l) :: octet)) = l mod 16"
  proof -
    have "push_bit 4 (of_nat l) = (of_nat (l * 16) :: octet)" by (simp add: push_bit_eq_mult)
    then have "unat (push_bit 4 (of_nat l) :: octet) = (l * 16) mod 256" by (simp only: unat_of_nat take_bit_eq_mod) simp
    then have "unat (drop_bit 4 (push_bit 4 (of_nat l) :: octet)) = (l * 16) mod 256 div 16"
      using unat_drop_bit_eq [of 4 "push_bit 4 (of_nat l) :: octet"] by (simp only: drop_bit_eq_div [where 'a = nat]) simp
    also have "(l * 16) mod 256 = (l mod 16) * 16" using mult_mod_left [of l 16 16] by simp
    finally show ?thesis by simp
  qed
  show "unat (drop_bit 4 (push_bit 4 (of_nat l) AND 0xF0 :: octet)) = l mod 16" unfolding d by (rule u)
  show "unat (drop_bit 4 ((push_bit 4 (of_nat l) OR c OR of_nat k) AND 0xF0 :: octet)) = l mod 16" if "k < 8" "c \<in> {0, 0x08}"
  proof -
    have "unat (drop_bit 4 (of_nat k :: octet)) = drop_bit 4 k" using that(1) unat_drop_bit_eq [of 4 "of_nat k :: octet"] by simp
    then have "drop_bit 4 (of_nat k :: octet) = 0" using that(1) by (simp add: word_unat_eq_iff drop_bit_eq_div [where 'a = nat])
    moreover have "drop_bit 4 c = 0" using that(2) by (auto simp: drop_bit_eq_div)
    ultimately show ?thesis unfolding d drop_bit_or using u by simp
  qed
qed

lemma b2_low:
  assumes "k < 8" "c \<in> {0, 0x08}"
  shows "unat ((push_bit 4 (of_nat l) OR c OR of_nat k) AND 0x07 :: octet) = k" "(push_bit 4 (of_nat l) OR c OR of_nat k) AND 0x08 = (c :: octet)"
proof -
  have s: "push_bit 4 (of_nat l) AND 0x07 = (0 :: octet)" unfolding masks_8 by (auto intro!: bit_eqI simp: bit_simps)
  have "(0x08 :: octet) = 2 ^ 3" by simp
  then have s8: "push_bit 4 (of_nat l) AND 0x08 = (0 :: octet)" by (simp only: and_exp_eq_0_iff_not_bit) (simp add: bit_simps)
  have k: "of_nat k AND 0x07 = (of_nat k :: octet)" "of_nat k AND 0x08 = (0 :: octet)"
    using and_low [of k 3] and_high [of k 3 1] assms(1) unfolding masks_8 by simp_all
  have c: "c AND 0x07 = 0" "c AND 0x08 = c" using assms(2) by auto
  show "unat ((push_bit 4 (of_nat l) OR c OR of_nat k) AND 0x07 :: octet) = k" unfolding bit.conj_disj_distrib2 s k c using assms(1) by simp
  show "(push_bit 4 (of_nat l) OR c OR of_nat k) AND 0x08 = (c :: octet)" unfolding bit.conj_disj_distrib2 s8 k c by simp
qed

text \<open>The receiver reads back the indicators.\<close>

lemma read_li_one:
  assumes "pos + 1 < length pdu" "length lis < 128" "pdu ! pos AND 0x80 = 0" "li_of_b12 (pdu ! pos) (pdu ! (pos + 1)) = l"
  shows "read_li_loop pdu pos lis sz = Some (True, lis @ [l], sz - int l - 2)"
  using assms by (subst read_li_loop.simps) (simp add: Let_def um_constants)

lemma read_li_two:
  assumes "pos + 2 < length pdu" "length lis + 2 \<le> 128" "pdu ! pos AND 0x80 \<noteq> 0" "li_of_b12 (pdu ! pos) (pdu ! (pos + 1)) = l1"
    "li_of_b23 (pdu ! (pos + 1)) (pdu ! (pos + 2)) = l2"
  shows "read_li_loop pdu pos lis sz =
    (if pdu ! (pos + 1) AND 0x08 = 0 then Some (True, lis @ [l1, l2], sz - int l1 - 2 - int l2 - 1)
     else read_li_loop pdu (pos + 3) (lis @ [l1, l2]) (sz - int l1 - 2 - int l2 - 1))"
  using assms by (subst read_li_loop.simps) (simp add: Let_def um_constants)

lemma read_li_octets:
  assumes "ls \<noteq> []" "\<forall>l \<in> set ls. l < 2048" "length lis + length ls \<le> 128" "pos = length pre"
  shows "read_li_loop (pre @ li_octets ls @ post) pos lis sz =
    Some (True, lis @ ls, sz - int (sum_list ls) - int ((length ls * 3 + 1) div 2))"
  using assms
proof (induction ls arbitrary: lis sz pre pos rule: li_octets.induct)
  case (2 l)
  then have l: "l < 2048" by simp
  have n: "(pre @ li_octets [l] @ post) ! pos = of_nat (l div 16)" "(pre @ li_octets [l] @ post) ! (pos + 1) = push_bit 4 (of_nat l)"
    using "2.prems"(4) by (simp_all add: nth_append)
  have "li_of_b12 (of_nat (l div 16)) (push_bit 4 (of_nat l)) = l" using b1_fields(1) [OF l] b2_high(1) [of l] by (simp add: li_of_b12_def)
  then have "read_li_loop (pre @ li_octets [l] @ post) pos lis sz = Some (True, lis @ [l], sz - int l - 2)"
    using "2.prems"(3) "2.prems"(4) b1_fields(4) [OF l] read_li_one [of pos "pre @ li_octets [l] @ post" lis l sz, unfolded n] by simp
  then show ?case by simp
next
  case (3 l1 l2 ls)
  let ?b1 = "0x80 OR of_nat (l1 div 16) :: octet" and ?b3 = "of_nat l2 :: octet"
  let ?b2 = "push_bit 4 (of_nat l1) OR (if ls \<noteq> [] then 0x08 else 0) OR of_nat (l2 div 256) :: octet"
  define pdu where "pdu = pre @ li_octets (l1 # l2 # ls) @ post"
  have l: "l1 < 2048" "l2 < 2048" "l2 div 256 < 8" using "3.prems" by auto
  have pdu: "pdu = (pre @ [?b1, ?b2, ?b3]) @ li_octets ls @ post" by (simp add: pdu_def)
  have n: "pdu ! pos = ?b1" "pdu ! (pos + 1) = ?b2" "pdu ! (pos + 2) = ?b3" using "3.prems"(4) by (simp_all add: pdu nth_append)
  have c: "(if ls \<noteq> [] then 0x08 else 0 :: octet) \<in> {0, 0x08}" by simp
  have li1: "li_of_b12 ?b1 ?b2 = l1" using b1_fields(2) [OF l(1)] b2_high(2) [OF l(3) c, of l1] by (simp add: li_of_b12_def)
  have li2: "li_of_b23 ?b2 ?b3 = l2"
  proof -
    have "unat ?b3 = l2 mod 256" by (simp add: unat_of_nat take_bit_eq_mod)
    then show ?thesis using b2_low(1) [OF l(3) c, of l1] by (simp add: li_of_b23_def)
  qed
  have e2: "(?b2 AND 0x08 = 0) = (ls = [])" using b2_low(2) [OF l(3) c, of l1] by simp
  have bounds: "pos + 2 < length pdu" "length lis + 2 \<le> 128" using "3.prems"(3,4) by (simp_all add: pdu)
  have step: "read_li_loop pdu pos lis sz =
      (if ls = [] then Some (True, lis @ [l1, l2], sz - int l1 - 2 - int l2 - 1)
       else read_li_loop pdu (pos + 3) (lis @ [l1, l2]) (sz - int l1 - 2 - int l2 - 1))"
    using read_li_two [OF bounds, of l1 l2 sz, unfolded n e2] b1_fields(3) [OF l(1)] li1 li2 by blast
  show ?case
  proof (cases "ls = []")
    case True
    then show ?thesis using step by (simp add: pdu_def)
  next
    case False
    have "read_li_loop ((pre @ [?b1, ?b2, ?b3]) @ li_octets ls @ post) (pos + 3) (lis @ [l1, l2]) (sz - int l1 - 2 - int l2 - 1) =
        Some (True, (lis @ [l1, l2]) @ ls, sz - int l1 - 2 - int l2 - 1 - int (sum_list ls) - int ((length ls * 3 + 1) div 2))"
      by (rule "3.IH" [OF False]) (use "3.prems" in auto)
    then show ?thesis using step False unfolding pdu_def [symmetric] pdu [symmetric] by simp
  qed
qed simp

section \<open>Filling\<close>

abbreviation rest_of :: "tx_sdu \<Rightarrow> octet list" where
  "rest_of s \<equiv> drop (sdu_segmented_size s) (sdu_data s)"

definition sdu_wf :: "tx_sdu \<Rightarrow> bool" where
  "sdu_wf s \<longleftrightarrow> 0 < sdu_remaining_size s \<and> sdu_segmented_size s + sdu_remaining_size s = sdu_size s \<and>
     sdu_size s = length (sdu_data s) \<and> sdu_size s < 2048"

text \<open>
  The reference for filling: cut \<open>n\<close> octets off the queue. It gives the pieces of SDUs, whether the last
  piece ends its SDU, and the queue that remains.
\<close>

fun pieces :: "nat \<Rightarrow> tx_sdu list \<Rightarrow> octet list list \<times> bool \<times> tx_sdu list" where
  "pieces n [] = ([], False, [])"
| "pieces n (s # ss) =
     (let a = sdu_remaining_size s
      in if n < a then ([take n (rest_of s)], False, s\<lparr>sdu_remaining_size := a - n, sdu_segmented_size := sdu_segmented_size s + n\<rparr> # ss)
         else if a = n then ([rest_of s], True, ss)
         else let (cs, fin, ss') = pieces (n - a) ss in (rest_of s # cs, fin, ss'))"

text \<open>The octets of \<open>k\<close> indicators from a position in a triple on, and when \<open>k\<close> indicators are what \<open>r\<close> octets take.\<close>

fun li_bytes :: "nat \<Rightarrow> nat \<Rightarrow> nat" where
  "li_bytes li 0 = 0"
| "li_bytes li (Suc k) = (3 - li) + li_bytes (3 - li) k"

fun fits :: "nat \<Rightarrow> int \<Rightarrow> tx_sdu list \<Rightarrow> nat \<Rightarrow> bool" where
  "fits li r [] k = False"
| "fits li r (s # ss) 0 = (0 < r \<and> r \<le> int (sdu_remaining_size s))"
| "fits li r (s # ss) (Suc k) = (int (sdu_remaining_size s) + int (3 - li) < r \<and>
     fits (3 - li) (r - (int (sdu_remaining_size s) + int (3 - li))) ss k)"

lemma li_bytes_1: "li_bytes 1 k = (k * 3 + 1) div 2" and li_bytes_2: "li_bytes 2 k = (k * 3) div 2"
proof -
  have "li_bytes 1 k = (k * 3 + 1) div 2 \<and> li_bytes 2 k = (k * 3) div 2" by (induction k) auto
  then show "li_bytes 1 k = (k * 3 + 1) div 2" "li_bytes 2 k = (k * 3) div 2" by blast+
qed

lemma fits_room: "fits li r ss k \<Longrightarrow> int (li_bytes li k) < r"
proof (induction li r ss k rule: fits.induct)
  case (3 li r s ss k)
  then have "int (li_bytes (3 - li) k) < r - (int (sdu_remaining_size s) + int (3 - li))" by simp
  then show ?case by simp
qed simp_all

lemma xor_3: "li = 1 \<or> li = 2 \<Longrightarrow> li XOR 3 = 3 - (li :: nat)"
  by auto

lemma rest_of_wf: "sdu_wf s \<Longrightarrow> length (rest_of s) = sdu_remaining_size s"
  by (auto simp: sdu_wf_def)

lemma copy_sdu_ok:
  assumes "sdu_wf s" "n \<le> sdu_remaining_size s" "f_pdu f = X @ T" "f_data f = length X" "n \<le> length T"
  shows "copy_sdu s (int n) f = Some (X @ take n (rest_of s) @ drop n T)"
proof -
  have l: "sdu_segmented_size s + n \<le> length (sdu_data s)" using assms(1,2) by (auto simp: sdu_wf_def)
  then have "length (take n (rest_of s)) = n" by simp
  then show ?thesis using assms l write_at_split [of X "length X" "take n (rest_of s)" T] by (simp add: copy_sdu_def slice_def)
qed

lemma fill_last:
  assumes "sdu_wf s" "0 < n" "n \<le> sdu_remaining_size s" "f_remaining f = int n" "f_pdu f = X @ T" "f_data f = length X" "n \<le> length T"
    and "pieces n (s # ss) = (cs, fin, ss')"
  shows "fill_sdus tn (s # ss) f = Some (ss', f\<lparr>f_pdu := X @ concat cs @ drop n T, f_last := fin, f_bo := f_bo f - int n, f_remaining := 0\<rparr>) \<and> length cs = 1"
proof (cases "n < sdu_remaining_size s")
  case True
  then show ?thesis using assms copy_sdu_ok [OF assms(1,3,5,6,7)] by (auto simp: Let_def)
next
  case False
  then have n: "n = sdu_remaining_size s" using assms(3) by simp
  have "take n (rest_of s) = rest_of s" using rest_of_wf [OF assms(1)] n by simp
  then show ?thesis using assms(4,8) n copy_sdu_ok [OF assms(1,3,5,6,7)] by (auto simp: Let_def)
qed

text \<open>One SDU that is followed by another one.\<close>

lemma fill_step:
  assumes "sdu_wf s" "f_li_length f = li" "li = 1 \<or> li = 2" "f_remaining f = r" "int (sdu_remaining_size s) + int (3 - li) < r"
    and "f_pdu f = X @ T" "f_data f = length X" "sdu_remaining_size s \<le> length T"
    and "write_li (3 - li) (f_e_li f) (f_num_li f + 1 \<noteq> tn) (sdu_remaining_size s) (X @ rest_of s @ drop (sdu_remaining_size s) T) = Some p"
  shows "fill_sdus tn (s # ss) f = fill_sdus tn ss
    (f\<lparr>f_pdu := p, f_data := f_data f + sdu_remaining_size s, f_li_length := 3 - li, f_num_li := f_num_li f + 1,
       f_e_li := (if li = 1 then f_e_li f else f_e_li f + 3), f_remaining := r - (int (sdu_remaining_size s) + int (3 - li)),
       f_bo := f_bo f - int (sdu_remaining_size s)\<rparr>)"
proof -
  let ?n = "sdu_remaining_size s"
  have "take ?n (rest_of s) = rest_of s" using rest_of_wf [OF assms(1)] by simp
  then have c: "copy_sdu s (int ?n) f = Some (X @ rest_of s @ drop ?n T)" using copy_sdu_ok [OF assms(1) order_refl assms(6-8)] by simp
  have li: "f_li_length f XOR 3 = 3 - li" "(3 - li = 2) = (li = 1)" using assms(2,3) xor_3 by auto
  have cs: "\<not> int ?n > r" "int ?n \<noteq> r" using assms(5) by auto
  show ?thesis using assms(4,5,9) c li cs by (simp only: fill_sdus.simps Let_def if_False if_True Option.bind.simps simp_thms)
qed

lemma pieces_step:
  assumes "fits li r (s # ss) (Suc k)" "r' = r - (int (sdu_remaining_size s) + int (3 - li))"
    and "pieces (nat r - li_bytes li (Suc k)) (s # ss) = (cs, fin, ss')"
  obtains cs' where "cs = rest_of s # cs'" "pieces (nat r' - li_bytes (3 - li) k) ss = (cs', fin, ss')"
    "nat r - li_bytes li (Suc k) = sdu_remaining_size s + (nat r' - li_bytes (3 - li) k)" "0 < nat r' - li_bytes (3 - li) k"
proof -
  have "fits (3 - li) r' ss k" using assms(1,2) by simp
  then have b: "int (li_bytes (3 - li) k) < r'" by (rule fits_room)
  have n: "nat r - li_bytes li (Suc k) = sdu_remaining_size s + (nat r' - li_bytes (3 - li) k)" "0 < nat r' - li_bytes (3 - li) k"
    using b assms(2) by (simp_all, linarith)
  obtain cs' fin' ss'' where p: "pieces (nat r' - li_bytes (3 - li) k) ss = (cs', fin', ss'')" by (metis prod_cases3)
  have u: "pieces (sdu_remaining_size s + m) (s # ss) = (rest_of s # cs', fin', ss'')" if "pieces m ss = (cs', fin', ss'')" "0 < m" for m
    using that by (simp add: Let_def)
  show ?thesis using assms(3) unfolding n(1) u [OF p n(2)] using that [OF _ _ n] p by auto
qed

lemma write_li_first: "length A = pos \<Longrightarrow> length J = Suc (Suc j) \<Longrightarrow>
  write_li 2 pos ext n (A @ J @ B) = Some (A @ [(if ext then 0x80 else 0) OR of_nat (n div 16), push_bit 4 (of_nat n)] @ drop 2 J @ B)"
  using write_at_split [of A pos "[(if ext then 0x80 else 0) OR of_nat (n div 16), push_bit 4 (of_nat n)]" "J @ B"]
  by (simp add: write_li_def numeral_2_eq_2)

lemma octet_and_FF: "w AND 0xFF = (w :: octet)"
  unfolding masks_8 by (simp add: take_bit_eq_mask [symmetric] take_bit_word_eq_self)

lemma write_li_second: "length A = pos \<Longrightarrow>
  write_li 1 pos ext n (A @ [b1, b2, b3] @ B) = Some (A @ [b1, b2 OR (if ext then 0x08 else 0) OR of_nat (n div 256), of_nat n] @ B)"
  using write_at_split [of "A @ [b1]" "pos + 1" "[b2 OR (if ext then 0x08 else 0) OR of_nat (n div 256), of_nat n]" "[b2, b3] @ B"]
  by (simp add: write_li_def octet_and_FF nth_append)

lemma map_length_butlast_Cons: "cs \<noteq> [] \<Longrightarrow> map length (butlast (c # cs)) = length c # map length (butlast cs)"
  by simp

lemma fill_pair:
  assumes wf: "sdu_wf s" "sdu_wf s2" and li: "f_li_length f = 1" and r: "f_remaining f = r"
    and r1: "r1 = r - (int (sdu_remaining_size s) + 2)" and r2: "r2 = r1 - (int (sdu_remaining_size s2) + 1)"
    and fit: "int (sdu_remaining_size s) + 2 < r" "int (sdu_remaining_size s2) + 1 < r1"
    and pdu: "f_pdu f = A @ ([j0, j1, j2] @ J2) @ M @ T" and A: "length A = f_e_li f" and d: "f_data f = length (A @ ([j0, j1, j2] @ J2) @ M)"
    and T: "sdu_remaining_size s \<le> length T" "sdu_remaining_size s2 \<le> length (drop (sdu_remaining_size s) T)"
  shows "fill_sdus (f_num_li f + Suc (Suc k)) (s # s2 # ss) f = fill_sdus (f_num_li f + Suc (Suc k)) ss
    (f\<lparr>f_pdu := (A @ [0x80 OR of_nat (sdu_remaining_size s div 16),
         push_bit 4 (of_nat (sdu_remaining_size s)) OR (if k \<noteq> 0 then 0x08 else 0) OR of_nat (sdu_remaining_size s2 div 256),
         of_nat (sdu_remaining_size s2)]) @ J2 @ (M @ rest_of s @ rest_of s2) @ drop (sdu_remaining_size s2) (drop (sdu_remaining_size s) T),
       f_data := f_data f + sdu_remaining_size s + sdu_remaining_size s2, f_li_length := 1, f_num_li := f_num_li f + 2,
       f_e_li := f_e_li f + 3, f_remaining := r2, f_bo := f_bo f - int (sdu_remaining_size s) - int (sdu_remaining_size s2)\<rparr>)"
proof -
  let ?n = "sdu_remaining_size s" and ?n2 = "sdu_remaining_size s2" and ?tn = "f_num_li f + Suc (Suc k)"
  let ?b1 = "0x80 OR of_nat (?n div 16) :: octet" and ?b2 = "push_bit 4 (of_nat ?n) :: octet"
  have len: "length (rest_of s) = ?n" "length (rest_of s2) = ?n2" using wf rest_of_wf by auto
  have w1: "write_li 2 (f_e_li f) True ?n ((A @ ([j0, j1, j2] @ J2) @ M) @ rest_of s @ drop ?n T) =
      Some (A @ [?b1, ?b2] @ [j2] @ J2 @ M @ rest_of s @ drop ?n T)"
    using write_li_first [OF A, of "[j0, j1, j2] @ J2" "Suc (length J2)" True ?n "M @ rest_of s @ drop ?n T"] by simp
  define f1 where "f1 = f\<lparr>f_pdu := A @ [?b1, ?b2] @ [j2] @ J2 @ M @ rest_of s @ drop ?n T, f_data := f_data f + ?n, f_li_length := 2,
      f_num_li := f_num_li f + 1, f_e_li := f_e_li f, f_remaining := r1, f_bo := f_bo f - int ?n\<rparr>"
  have step1: "fill_sdus ?tn (s # s2 # ss) f = fill_sdus ?tn (s2 # ss) f1"
    using fill_step [OF wf(1) li _ r, of "A @ ([j0, j1, j2] @ J2) @ M" T ?tn _ "s2 # ss"] w1 pdu d T(1) fit(1) by (simp add: f1_def r1)
  have w2: "write_li 1 (f_e_li f) (k \<noteq> 0) ?n2 ((A @ [?b1, ?b2, j2] @ J2 @ M @ rest_of s) @ rest_of s2 @ drop ?n2 (drop ?n T)) =
      Some (A @ [?b1, ?b2 OR (if k \<noteq> 0 then 0x08 else 0) OR of_nat (?n2 div 256), of_nat ?n2] @ J2 @ M @ rest_of s @ rest_of s2 @ drop ?n2 (drop ?n T))"
    using write_li_second [OF A, of "k \<noteq> 0" ?n2 ?b1 ?b2 j2 "J2 @ M @ rest_of s @ rest_of s2 @ drop ?n2 (drop ?n T)"] by simp
  show ?thesis
    unfolding step1 using fill_step [of s2 f1 2 r1 "A @ [?b1, ?b2, j2] @ J2 @ M @ rest_of s" "drop ?n T" ?tn _ ss] w2 wf len d T(2) fit(2)
    by (simp add: f1_def r2)
qed

lemma fill_ok:
  assumes "fits 1 r ss k" "\<forall>s \<in> set ss. sdu_wf s" "f_li_length f = 1" "f_remaining f = r" "f_pdu f = A @ J @ M @ T"
    and "length A = f_e_li f" "length J = li_bytes 1 k" "f_data f = length (A @ J @ M)" "nat r - li_bytes 1 k \<le> length T"
    and "pieces (nat r - li_bytes 1 k) ss = (cs, fin, ss')"
  shows "\<exists>f'. fill_sdus (f_num_li f + k) ss f = Some (ss', f') \<and>
    f_pdu f' = A @ li_octets (map length (butlast cs)) @ M @ concat cs @ drop (nat r - li_bytes 1 k) T \<and>
    f_num_li f' = f_num_li f + k \<and> f_remaining f' = 0 \<and> f_last f' = fin \<and> f_bo f' = f_bo f - int (nat r - li_bytes 1 k) \<and>
    length cs = k + 1"
  using assms
proof (induction k arbitrary: r ss f A J M T cs rule: induct_nat_012)
  case 0
  obtain s ss1 where ss: "ss = s # ss1" using "0.prems"(1) by (cases ss) auto
  have "fill_sdus (f_num_li f + 0) (s # ss1) f = Some (ss', f\<lparr>f_pdu := (A @ J @ M) @ concat cs @ drop (nat r) T, f_last := fin,
      f_bo := f_bo f - int (nat r), f_remaining := 0\<rparr>) \<and> length cs = 1"
    by (rule fill_last) (use "0.prems" ss in auto)
  moreover have "butlast cs = []" if "length cs = 1" using that by (auto simp: length_Suc_conv)
  ultimately show ?case using ss "0.prems"(7) by auto
next
  case 1
  note p = "1.prems"
  obtain s ss1 where ss: "ss = s # ss1" using p(1) by (cases ss) auto
  let ?n = "sdu_remaining_size s"
  define r' where "r' = r - (int ?n + 2)"
  obtain cs1 where cs1: "cs = rest_of s # cs1" "pieces (nat r' - li_bytes 2 0) ss1 = (cs1, fin, ss')"
      "nat r - li_bytes 1 (Suc 0) = ?n + (nat r' - li_bytes 2 0)" "0 < nat r' - li_bytes 2 0"
    by (rule pieces_step [OF p(1) [unfolded ss], of r' cs fin ss']) (use p(10) ss in \<open>simp_all add: r'_def\<close>)
  have wf: "sdu_wf s" "length (rest_of s) = ?n" using p(2) ss rest_of_wf by auto
  let ?L = "[of_nat (?n div 16), push_bit 4 (of_nat ?n)] :: octet list"
  have w: "write_li 2 (f_e_li f) False ?n ((A @ J @ M) @ rest_of s @ drop ?n T) = Some (A @ ?L @ (M @ rest_of s @ drop ?n T))"
    using write_li_first [OF p(6), of J 0 False ?n "M @ rest_of s @ drop ?n T"] p(7) by simp
  define f1 where "f1 = f\<lparr>f_pdu := A @ ?L @ (M @ rest_of s @ drop ?n T), f_data := f_data f + ?n, f_li_length := 2, f_num_li := f_num_li f + 1,
       f_e_li := f_e_li f, f_remaining := r', f_bo := f_bo f - int ?n\<rparr>"
  have step: "fill_sdus (f_num_li f + 1) (s # ss1) f = fill_sdus (f_num_li f + 1) ss1 f1"
    using fill_step [OF wf(1) p(3) _ p(4), of "A @ J @ M" T "f_num_li f + 1" _ ss1] w p(1,5,8,9) cs1(3) ss by (simp add: f1_def r'_def)
  obtain s2 ss2 where ss1: "ss1 = s2 # ss2" using p(1) ss by (cases ss1) auto
  have last: "fill_sdus (f_num_li f + 1) (s2 # ss2) f1 = Some (ss', f1\<lparr>f_pdu := (A @ ?L @ M @ rest_of s) @ concat cs1 @ drop (nat r') (drop ?n T),
      f_last := fin, f_bo := f_bo f1 - int (nat r'), f_remaining := 0\<rparr>) \<and> length cs1 = 1"
    by (rule fill_last) (use p(1,2,7,8,9) cs1 ss ss1 wf in \<open>auto simp: f1_def r'_def\<close>)
  have "map length (butlast cs) = [?n]" using cs1(1) last wf(2) by (auto simp: length_Suc_conv)
  then show ?case using step last ss ss1 cs1 p(7) by (auto simp: f1_def add.commute)
next
  case (ge2 k)
  note p = ge2.prems
  obtain s ss1 where ss: "ss = s # ss1" using p(1) by (cases ss) auto
  obtain s2 ss2 where ss1: "ss1 = s2 # ss2" using p(1) ss by (cases ss1) auto
  let ?n = "sdu_remaining_size s" and ?n2 = "sdu_remaining_size s2"
  define r1 where "r1 = r - (int ?n + 2)"
  define r2 where "r2 = r1 - (int ?n2 + 1)"
  have fit: "fits 2 r1 (s2 # ss2) (Suc k)" "int ?n + 2 < r" "int ?n2 + 1 < r1" "fits 1 r2 ss2 k" using p(1) ss ss1 by (simp_all add: r1_def r2_def)
  obtain cs1 where cs1: "cs = rest_of s # cs1" "pieces (nat r1 - li_bytes 2 (Suc k)) (s2 # ss2) = (cs1, fin, ss')"
      "nat r - li_bytes 1 (Suc (Suc k)) = ?n + (nat r1 - li_bytes 2 (Suc k))" "0 < nat r1 - li_bytes 2 (Suc k)"
    by (rule pieces_step [OF p(1) [unfolded ss], of r1 cs fin ss']) (use p(10) ss ss1 in \<open>simp_all add: r1_def\<close>)
  obtain cs2 where cs2: "cs1 = rest_of s2 # cs2" "pieces (nat r2 - li_bytes 1 k) ss2 = (cs2, fin, ss')"
      "nat r1 - li_bytes 2 (Suc k) = ?n2 + (nat r2 - li_bytes 1 k)" "0 < nat r2 - li_bytes 1 k"
    by (rule pieces_step [OF fit(1), of r2 cs1 fin ss']) (use cs1(2) in \<open>simp_all add: r2_def\<close>)
  have wf: "sdu_wf s" "length (rest_of s) = ?n" "sdu_wf s2" "length (rest_of s2) = ?n2" using p(2) ss ss1 rest_of_wf by auto
  have room: "nat r - li_bytes 1 (Suc (Suc k)) = ?n + (?n2 + (nat r2 - li_bytes 1 k))" using cs1(3) cs2(3) by (simp only:)
  then have T: "?n \<le> length T" "?n2 \<le> length (drop ?n T)" "nat r2 - li_bytes 1 k \<le> length (drop ?n2 (drop ?n T))" using p(9) by simp_all
  have "length J = Suc (Suc (Suc (li_bytes 1 k)))" using p(7) by (simp add: numeral_eq_Suc)
  then obtain j0 j1 j2 J2 where J: "J = [j0, j1, j2] @ J2" "length J2 = li_bytes 1 k" by (auto simp: length_Suc_conv)
  let ?tn = "f_num_li f + Suc (Suc k)"
  let ?oct = "[0x80 OR of_nat (?n div 16), push_bit 4 (of_nat ?n) OR (if k \<noteq> 0 then 0x08 else 0) OR of_nat (?n2 div 256), of_nat ?n2] :: octet list"
  define f2 where "f2 = f\<lparr>f_pdu := (A @ ?oct) @ J2 @ (M @ rest_of s @ rest_of s2) @ drop ?n2 (drop ?n T), f_data := f_data f + ?n + ?n2,
      f_li_length := 1, f_num_li := f_num_li f + 2, f_e_li := f_e_li f + 3, f_remaining := r2, f_bo := f_bo f - int ?n - int ?n2\<rparr>"
  have step: "fill_sdus ?tn (s # s2 # ss2) f = fill_sdus ?tn ss2 f2"
    unfolding f2_def
    by (rule fill_pair [OF wf(1,3) p(3,4) r1_def r2_def fit(2,3) _ p(6) _ T(1,2)]) (use p(5,8) J in simp_all)
  have "\<exists>f'. fill_sdus (f_num_li f2 + k) ss2 f2 = Some (ss', f') \<and>
    f_pdu f' = (A @ ?oct) @ li_octets (map length (butlast cs2)) @ (M @ rest_of s @ rest_of s2) @ concat cs2 @
      drop (nat r2 - li_bytes 1 k) (drop ?n2 (drop ?n T)) \<and>
    f_num_li f' = f_num_li f2 + k \<and> f_remaining f' = 0 \<and> f_last f' = fin \<and> f_bo f' = f_bo f2 - int (nat r2 - li_bytes 1 k) \<and> length cs2 = k + 1"
    by (rule ge2.IH(1) [OF fit(4), of f2 _ J2 _ "drop ?n2 (drop ?n T)"]) (use p(2,6,8) ss ss1 J wf cs2 T in \<open>auto simp: f2_def\<close>)
  then obtain f' where f': "fill_sdus (f_num_li f2 + k) ss2 f2 = Some (ss', f')"
    "f_pdu f' = (A @ ?oct) @ li_octets (map length (butlast cs2)) @ (M @ rest_of s @ rest_of s2) @ concat cs2 @
      drop (nat r2 - li_bytes 1 k) (drop ?n2 (drop ?n T))"
    "f_num_li f' = f_num_li f2 + k" "f_remaining f' = 0" "f_last f' = fin" "f_bo f' = f_bo f2 - int (nat r2 - li_bytes 1 k)" "length cs2 = k + 1"
    by blast
  have ne: "cs2 \<noteq> []" "(map length (butlast cs2) \<noteq> []) = (k \<noteq> 0)" using f'(7) by (auto simp: length_Suc_conv)
  have oct: "li_octets (map length (butlast cs)) = ?oct @ li_octets (map length (butlast cs2))" using cs1(1) cs2(1) ne wf by simp
  have cc: "concat cs = rest_of s @ rest_of s2 @ concat cs2" using cs1(1) cs2(1) by simp
  have pdu: "f_pdu f' = A @ li_octets (map length (butlast cs)) @ M @ concat cs @ drop (nat r - li_bytes 1 (Suc (Suc k))) T"
    unfolding f'(2) oct room cc drop_drop by (simp only: append_assoc ac_simps)
  show ?case
    using step f'(1) pdu f'(3-7) cs1(1) cs2(1) ss ss1 unfolding room by (intro exI [of _ f']) (simp add: f2_def)
qed

section \<open>The number of indicators\<close>

fun needed :: "nat \<Rightarrow> tx_sdu list \<Rightarrow> nat" where
  "needed li [] = 0"
| "needed li [s] = sdu_remaining_size s"
| "needed li (s # s2 # ss) = sdu_remaining_size s + (3 - li) + needed (3 - li) (s2 # ss)"

lemma needed_eq: "ss \<noteq> [] \<Longrightarrow> needed li ss = sum_list (map sdu_remaining_size ss) + li_bytes li (length ss - 1)"
  by (induction li ss rule: needed.induct) simp_all

lemma overhead_eq: "ss \<noteq> [] \<Longrightarrow> sum_list (map sdu_remaining_size ss) + max_li_overhead (length ss) = needed 1 ss"
proof -
  assume ne: "ss \<noteq> []"
  have m: "(m * 3) div 2 + m mod 2 = (m * 3 + 1) div 2" for m :: nat by presburger
  have "max_li_overhead (length ss) = li_bytes 1 (length ss - 1)"
  proof (cases "length ss \<le> 1")
    case False
    then show ?thesis by (simp only: max_li_overhead_def if_False m li_bytes_1)
  qed (simp add: max_li_overhead_def)
  then show ?thesis using needed_eq [OF ne, of 1] by simp
qed

text \<open>
  The first loop finds a number of indicators that the second loop uses up, when the PDU is no larger than
  what the queue needs.
\<close>

lemma test_fill_fits:
  assumes "ss \<noteq> []" "\<forall>s \<in> set ss. 0 < sdu_remaining_size s" "li = 1 \<or> li = 2" "test_li_length_in_bytes t = li"
    and "test_pdu_remaining_size t = r" "0 < r" "r \<le> int (needed li ss)" "test_reduce t = 0"
  shows "\<exists>k. test_num_li (test_fill ss t) = test_num_li t + k \<and> test_remaining_num_li_to_substract (test_fill ss t) = 0 \<and>
    fits li (r - int (test_reduce (test_fill ss t))) ss k"
  using assms
proof (induction ss arbitrary: li r t)
  case (Cons s ss)
  note p = Cons.prems
  let ?a = "sdu_remaining_size s" and ?l = "3 - li"
  have l: "test_li_length_in_bytes t XOR 3 = ?l" "?l = 1 \<or> ?l = 2" using p(3,4) xor_3 by auto
  have a: "0 < ?a" using p(2) by simp
  consider "int ?a \<ge> r" | "int ?a + int ?l = r" | "int ?a + int ?l < r" | "int ?a < r" "r < int ?a + int ?l" by linarith
  then show ?case
  proof cases
    case 1
    then have "test_fill (s # ss) t = test_stop 0 t" using l p(5) by (auto simp: Let_def)
    then show ?thesis using 1 p(6) by (intro exI [of _ 0]) (simp add: test_stop_def)
  next
    case 2
    then have "test_fill (s # ss) t = test_stop ?l t" using l p(5) by (auto simp: Let_def)
    moreover have "r - int ?l = int ?a" using 2 by simp
    ultimately show ?thesis using a by (intro exI [of _ 0]) (simp add: test_stop_def)
  next
    case 4
    then have "?l = 2" "r = int ?a + 1" using l(2) by auto
    then have "test_fill (s # ss) t = test_stop 1 t" "r - 1 = int ?a" using l p(5) by (auto simp: Let_def)
    then show ?thesis using a by (intro exI [of _ 0]) (simp add: test_stop_def)
  next
    case 3
    define t1 where "t1 = t\<lparr>test_num_li := test_num_li t + 1, test_pdu_remaining_size := r - (int ?a + int ?l),
        test_remaining_size_to_substract := ?l, test_remaining_num_li_to_substract := 1, test_li_length_in_bytes := ?l\<rparr>"
    have step: "test_fill (s # ss) t = test_fill ss t1" using 3 l(1) p(5) by (simp add: Let_def t1_def)
    have ne: "ss \<noteq> []" using 3 p(7) by auto
    then have nd: "needed li (s # ss) = ?a + ?l + needed ?l ss" by (cases ss) simp_all
    have "\<exists>k. test_num_li (test_fill ss t1) = test_num_li t1 + k \<and> test_remaining_num_li_to_substract (test_fill ss t1) = 0 \<and>
        fits ?l (r - (int ?a + int ?l) - int (test_reduce (test_fill ss t1))) ss k"
      by (rule Cons.IH) (use ne p(2,7,8) l(2) 3 nd in \<open>auto simp: t1_def\<close>)
    then obtain k where k: "test_num_li (test_fill ss t1) = test_num_li t + Suc k" "test_remaining_num_li_to_substract (test_fill ss t1) = 0"
        "fits ?l (r - (int ?a + int ?l) - int (test_reduce (test_fill ss t1))) ss k" by (auto simp: t1_def)
    have "int ?a + int ?l < r - int (test_reduce (test_fill ss t1))" using fits_room [OF k(3)] by linarith
    moreover have "r - (int ?a + int ?l) - int d = r - int d - (int ?a + int ?l)" for d by simp
    ultimately have "fits li (r - int (test_reduce (test_fill ss t1))) (s # ss) (Suc k)" using k(3) by (simp only: fits.simps)
    then show ?thesis unfolding step using k(1,2) by blast
  qed
qed simp

section \<open>Segmentation\<close>

text \<open>The PDU that carries the pieces \<open>cs\<close>; \<open>first\<close> and \<open>fin\<close> tell whether its ends are ends of SDUs.\<close>

definition umd :: "(nat \<Rightarrow> bool \<Rightarrow> 16 word \<Rightarrow> octet list) \<Rightarrow> bool \<Rightarrow> bool \<Rightarrow> 16 word \<Rightarrow> octet list list \<Rightarrow> octet list" where
  "umd header first fin sn cs =
     header ((if first then 0 else 2) + (if fin then 0 else 1)) (length cs > 1) sn @ li_octets (map length (butlast cs)) @ concat cs"

definition tx_ok :: "nat \<Rightarrow> rlc_um_entity \<Rightarrow> bool" where
  "tx_ok hl e \<longleftrightarrow> tx_header_min_length_in_bytes e = hl \<and> (\<forall>s \<in> set (input_sdus e). sdu_wf s) \<and>
     (\<forall>s \<in> set (tl (input_sdus e)). sdu_segmented_size s = 0) \<and>
     buffer_occupancy e = int (sum_list (map sdu_remaining_size (input_sdus e))) \<and> length (input_sdus e) \<le> 1000000"

definition unsegmented :: "rlc_um_entity \<Rightarrow> bool" where
  "unsegmented e \<longleftrightarrow> sdu_remaining_size (input_sdus e ! 0) = sdu_size (input_sdus e ! 0)"

lemma sum_sdu_bound: "\<forall>s \<in> set ss. sdu_wf s \<Longrightarrow> sum_list (map sdu_remaining_size ss) \<le> 2047 * length ss"
proof (induction ss)
  case (Cons s ss)
  then have "sdu_remaining_size s \<le> 2047" by (auto simp: sdu_wf_def)
  then show ?case using Cons by simp
qed simp

lemma take3:
  assumes "a + b \<le> length p"
  shows "take a p @ take b (drop a p) @ drop b (drop a p) = p" "length (take a p) = a" "length (take b (drop a p)) = b"
    "length (drop b (drop a p)) = length p - (a + b)"
proof -
  show "take a p @ take b (drop a p) @ drop b (drop a p) = p" by (simp only: append_take_drop_id)
qed (use assms in simp_all)

lemma pieces_length: "pieces n ss = (cs, fin, ss') \<Longrightarrow> length cs \<le> length ss"
proof (induction n ss arbitrary: cs rule: pieces.induct)
  case (2 n s ss)
  then show ?case by (cases "pieces (n - sdu_remaining_size s) ss") (auto simp: Let_def split: if_splits)
qed simp

lemma pieces_octets:
  assumes "pieces n ss = (cs, fin, ss')" "\<forall>s \<in> set ss. sdu_wf s" "n \<le> sum_list (map sdu_remaining_size ss)"
  shows "length (concat cs) = n"
  using assms
proof (induction n ss arbitrary: cs rule: pieces.induct)
  case (2 n s ss)
  have "length (rest_of s) = sdu_remaining_size s" using "2.prems"(2) rest_of_wf by simp
  then show ?case using 2 by (cases "pieces (n - sdu_remaining_size s) ss") (auto simp: Let_def split: if_splits)
qed simp

lemma fits_sum: "fits li r ss k \<Longrightarrow> nat r - li_bytes li k \<le> sum_list (map sdu_remaining_size ss)"
proof (induction li r ss k rule: fits.induct)
  case (3 li r s ss k)
  then have "nat (r - (int (sdu_remaining_size s) + int (3 - li))) - li_bytes (3 - li) k \<le> sum_list (map sdu_remaining_size ss)" by simp
  then show ?case by simp
next
  case (2 li r s ss)
  then have "nat r \<le> sdu_remaining_size s" unfolding fits.simps by linarith
  then show ?case by simp
qed simp

lemma data_pdu_size_eq:
  assumes "tx_ok hl e" "input_sdus e \<noteq> []" "hl \<le> 4"
  shows "data_pdu_size e = min (nb_bytes_requested_by_mac e) (needed 1 (input_sdus e) + hl)"
proof -
  let ?ss = "input_sdus e"
  have o: "sum_list (map sdu_remaining_size ?ss) + max_li_overhead (length ?ss) = needed 1 ?ss" by (rule overhead_eq [OF assms(2)])
  have wf: "\<forall>s \<in> set ?ss. sdu_wf s" "length ?ss \<le> 1000000" using assms(1) by (simp_all add: tx_ok_def)
  have "needed 1 ?ss \<le> 2049 * length ?ss"
  proof -
    have "((length ?ss - 1) * 3 + 1) div 2 \<le> 2 * length ?ss" by linarith
    then show ?thesis using sum_sdu_bound [OF wf(1)] needed_eq [OF assms(2), of 1] unfolding li_bytes_1 by linarith
  qed
  then have n: "needed 1 ?ss + hl \<le> 2049000004" using wf(2) assms(3) by linarith
  have "buffer_occupancy e + int (tx_header_min_length_in_bytes e) + int (max_li_overhead (length ?ss)) = int (needed 1 ?ss + hl)"
    using o assms(1) by (simp add: tx_ok_def)
  moreover have "u32 (int (needed 1 ?ss + hl)) = int (needed 1 ?ss + hl)" using n by (intro u32_id) simp_all
  ultimately show ?thesis unfolding data_pdu_size_def Let_def by (simp only: min_def split: if_split) linarith
qed

lemma write_at_0: "length hd' = length A \<Longrightarrow> write_at 0 hd' (A @ X) = Some (hd' @ X)"
  using write_at_split [of "[]" 0 hd' "A @ X"] by simp

text \<open>The second loop on a fresh block.\<close>

lemma fill_block:
  fixes bo :: int and b :: bool
  assumes fit: "fits 1 r ss k" and wf: "\<forall>s \<in> set ss. sdu_wf s" and len: "hl + nat r \<le> length p0"
    and ps: "pieces (nat r - li_bytes 1 k) ss = (cs, fin, ss')"
  defines "f \<equiv> \<lparr>f_pdu = p0, f_data = hl + (k * 3 + 1) div 2, f_e_li = hl, f_li_length = 1, f_num_li = 0, f_remaining = r, f_bo = bo, f_last = b\<rparr>"
  shows "\<exists>f' A T. fill_sdus k ss f = Some (ss', f') \<and> f_pdu f' = A @ li_octets (map length (butlast cs)) @ concat cs @ T \<and> length A = hl \<and>
    f_num_li f' = k \<and> f_remaining f' = 0 \<and> f_last f' = fin \<and> f_bo f' = bo - int (nat r - li_bytes 1 k) \<and> length cs = k + 1 \<and>
    hl + length (li_octets (map length (butlast cs))) + length (concat cs) = hl + nat r \<and> T = drop (hl + nat r) p0"
proof -
  have rm: "int (li_bytes 1 k) < r" by (rule fits_room [OF fit])
  define A where "A = take hl p0"
  define J where "J = take (li_bytes 1 k) (drop hl p0)"
  define T where "T = drop (li_bytes 1 k) (drop hl p0)"
  have "hl + li_bytes 1 k \<le> length p0" using len rm by linarith
  note AJT = take3 [OF this, folded A_def J_def T_def]
  have T: "nat r - li_bytes 1 k \<le> length T" using AJT(4) len rm by linarith
  obtain f' where f': "fill_sdus (f_num_li f + k) ss f = Some (ss', f')"
    "f_pdu f' = A @ li_octets (map length (butlast cs)) @ [] @ concat cs @ drop (nat r - li_bytes 1 k) T"
    "f_num_li f' = f_num_li f + k" "f_remaining f' = 0" "f_last f' = fin" "f_bo f' = f_bo f - int (nat r - li_bytes 1 k)" "length cs = k + 1"
  proof -
    have "\<exists>f'. fill_sdus (f_num_li f + k) ss f = Some (ss', f') \<and>
      f_pdu f' = A @ li_octets (map length (butlast cs)) @ [] @ concat cs @ drop (nat r - li_bytes 1 k) T \<and>
      f_num_li f' = f_num_li f + k \<and> f_remaining f' = 0 \<and> f_last f' = fin \<and> f_bo f' = f_bo f - int (nat r - li_bytes 1 k) \<and> length cs = k + 1"
      by (rule fill_ok [OF fit wf _ _ _ _ AJT(3) _ T ps]) (use AJT in \<open>simp_all add: f_def li_bytes_1 [unfolded One_nat_def]\<close>)
    then show ?thesis using that by blast
  qed
  have c: "length (concat cs) = nat r - li_bytes 1 k" by (rule pieces_octets [OF ps wf fits_sum [OF fit]])
  have l: "length (li_octets (map length (butlast cs))) = li_bytes 1 k"
    using f'(7) by (simp add: length_li_octets li_bytes_1 [unfolded One_nat_def])
  have s: "hl + li_bytes 1 k + (nat r - li_bytes 1 k) = hl + nat r" using rm by linarith
  have "nat r - li_bytes 1 k + (li_bytes 1 k + hl) = hl + nat r" using s by linarith
  then have dT: "drop (nat r - li_bytes 1 k) T = drop (hl + nat r) p0" unfolding T_def drop_drop by (simp only: add.commute)
  have n0: "f_num_li f = 0" "f_bo f = bo" by (simp_all add: f_def)
  show ?thesis using f' AJT(2) dT unfolding c l s n0
    by (intro exI [of _ f'] exI [of _ A] exI [of _ "drop (nat r - li_bytes 1 k) T"]) simp
qed

text \<open>
  The PDU for \<open>k\<close> indicators. When the size does not follow the reduction, the octets of the block behind the
  data go out with the PDU.
\<close>

lemma um_segment_fits:
  assumes ok: "tx_ok hl e" and ne: "input_sdus e \<noteq> []" and hl: "hl \<le> 4" and hd: "\<And>fi ext sn. length (header fi ext sn) = hl"
    and nb: "data_pdu_size e < 32768" and al: "alloc (data_pdu_size e) = Some block" "max 4 (data_pdu_size e) \<le> length block"
  defines "t \<equiv> test_fill (input_sdus e) (test_start (int (data_pdu_size e) - int hl))"
  assumes k: "test_num_li t = k" "test_remaining_num_li_to_substract t = 0" "fits 1 (int (data_pdu_size e) - int hl - int (test_reduce t)) (input_sdus e) k"
    and n: "n = data_pdu_size e - hl - test_reduce t - li_bytes 1 k" and ps: "pieces n (input_sdus e) = (cs, fin, ss')"
  defines "pdu \<equiv> umd header (unsegmented e) fin (vt_us e) cs"
  shows "0 < n \<and> n \<le> sum_list (map sdu_remaining_size (input_sdus e)) \<and> length pdu = data_pdu_size e - test_reduce t \<and>
    um_segment hl fx header alloc e = Some (e\<lparr>input_sdus := ss', buffer_occupancy := buffer_occupancy e - int n, vt_us := vt_us e + 1,
      pdus_to_mac_layer := pdus_to_mac_layer e @
        [pdu @ take (if fx then 0 else test_reduce t) (drop (length pdu) (replicate 4 0 @ drop 4 block))]\<rparr>)"
proof -
  let ?ss = "input_sdus e" and ?size = "data_pdu_size e"
  have wf: "\<forall>s \<in> set ?ss. sdu_wf s" using ok by (simp add: tx_ok_def)
  define r' where "r' = int ?size - int hl - int (test_reduce t)"
  have rm: "int (li_bytes 1 k) < r'" using fits_room [OF k(3)] by (simp add: r'_def)
  have n': "nat r' - li_bytes 1 k = n" using n rm by (simp add: r'_def)
  define p0 where "p0 = replicate 4 0 @ drop 4 block"
  have p0: "write_at 0 (replicate 4 0) block = Some p0" "length p0 = length block" using al(2) by (simp_all add: write_at_def p0_def)
  have sz: "hl + nat r' = ?size - test_reduce t" "hl + nat r' \<le> length p0" using al(2) rm p0(2) by (auto simp: r'_def)
  let ?f = "\<lparr>f_pdu = p0, f_data = hl + (k * 3 + 1) div 2, f_e_li = hl, f_li_length = 1, f_num_li = 0, f_remaining = r', f_bo = buffer_occupancy e, f_last = False\<rparr>"
  obtain f' A T where f': "fill_sdus k ?ss ?f = Some (ss', f')" "f_pdu f' = A @ li_octets (map length (butlast cs)) @ concat cs @ T" "length A = hl"
      "f_num_li f' = k" "f_remaining f' = 0" "f_last f' = fin" "f_bo f' = buffer_occupancy e - int n" "length cs = k + 1"
      "hl + length (li_octets (map length (butlast cs))) + length (concat cs) = hl + nat r'" "T = drop (hl + nat r') p0"
    using fill_block [OF k(3) [folded r'_def] wf sz(2) ps [folded n'], of "buffer_occupancy e" False, unfolded n'] by blast
  define h where "h = header ((if unsegmented e then 0 else 2) + (if fin then 0 else 1)) (k > 0) (vt_us e)"
  have pdu: "pdu = h @ li_octets (map length (butlast cs)) @ concat cs" using f'(8) by (simp add: umd_def h_def pdu_def)
  have w: "write_at 0 h (f_pdu f') = Some (pdu @ T)" unfolding f'(2) pdu using write_at_0 [of h A] f'(3) hd by (simp add: h_def)
  have lpdu: "length pdu = ?size - test_reduce t" using f'(9) sz(1) hd unfolding pdu by (simp add: h_def)
  define tb where "tb = (if fx then ?size - test_reduce t else ?size)"
  have red: "test_reduce t \<le> ?size" "0 < n" "0 < length pdu" using rm sz(1) n' lpdu by (auto simp: r'_def)
  have tb_pos: "0 < tb" using nb red lpdu by (auto simp: tb_def)
  have tk: "tb \<le> length (pdu @ T)" "take tb (pdu @ T) = pdu @ take (if fx then 0 else test_reduce t) (drop (length pdu) p0)"
    using lpdu red sz f'(10) al(2) p0(2) by (auto simp: tb_def)
  have r1: "int ?size - int hl - int (test_reduce t) - (if 0 < test_remaining_num_li_to_substract t then int (test_remaining_size_to_substract t) else 0) = r'"
    using k(2) by (simp add: r'_def)
  have num: "(if 0 < test_remaining_num_li_to_substract t then test_num_li t - 1 else test_num_li t) = k" using k by simp
  have hdr: "header ((if sdu_remaining_size (?ss ! 0) = sdu_size (?ss ! 0) then 0 else 2) + (if fin then 0 else 1)) (0 < k) (vt_us e) = h"
    by (simp add: h_def unsegmented_def)
  have "um_segment hl fx header alloc e = Some (e\<lparr>input_sdus := ss', buffer_occupancy := buffer_occupancy e - int n, vt_us := vt_us e + 1,
      pdus_to_mac_layer := pdus_to_mac_layer e @ [take tb (pdu @ T)]\<rparr>)"
    unfolding um_segment_def Let_def t_def [symmetric] tb_def [symmetric] num r1
    using ne al(1) p0(1) f'(1,4,5,6,7) w tb_pos tk(1) hdr by simp
  moreover have "n \<le> sum_list (map sdu_remaining_size ?ss)" using fits_sum [OF k(3)] n' by (simp add: r'_def)
  ultimately show ?thesis using red lpdu tk(2) by (simp add: p0_def)
qed

lemma um_segment_ok:
  assumes ok: "tx_ok hl e" and ne: "input_sdus e \<noteq> []" and hl: "hl \<le> 4" and hd: "\<And>fi ext sn. length (header fi ext sn) = hl"
    and nb: "hl < nb_bytes_requested_by_mac e" "nb_bytes_requested_by_mac e < 32768"
    and al: "alloc (data_pdu_size e) = Some block" "max 4 (data_pdu_size e) \<le> length block"
    and fx: "fix \<or> test_reduce (test_fill (input_sdus e) (test_start (int (data_pdu_size e) - int hl))) = 0"
  shows "\<exists>n cs fin ss'. 0 < n \<and> n \<le> sum_list (map sdu_remaining_size (input_sdus e)) \<and> pieces n (input_sdus e) = (cs, fin, ss') \<and>
    um_segment hl fix header alloc e = Some (e\<lparr>input_sdus := ss', buffer_occupancy := buffer_occupancy e - int n, vt_us := vt_us e + 1,
      pdus_to_mac_layer := pdus_to_mac_layer e @ [umd header (unsegmented e) fin (vt_us e) cs]\<rparr>) \<and>
    length (umd header (unsegmented e) fin (vt_us e) cs) \<le> nb_bytes_requested_by_mac e \<and> length cs \<le> length (input_sdus e)"
proof -
  let ?ss = "input_sdus e" and ?size = "data_pdu_size e"
  define r where "r = int ?size - int hl"
  define t where "t = test_fill ?ss (test_start r)"
  have pos: "\<forall>s \<in> set ?ss. 0 < sdu_remaining_size s" using ok by (auto simp: tx_ok_def sdu_wf_def)
  have size: "?size = min (nb_bytes_requested_by_mac e) (needed 1 ?ss + hl)" by (rule data_pdu_size_eq [OF ok ne hl])
  have "0 < needed 1 ?ss" using pos ne needed_eq [OF ne, of 1] by (cases ?ss) auto
  then have r: "0 < r" "r \<le> int (needed 1 ?ss)" "?size \<le> nb_bytes_requested_by_mac e" using size nb by (auto simp: r_def)
  obtain k where k: "test_num_li t = k" "test_remaining_num_li_to_substract t = 0" "fits 1 (r - int (test_reduce t)) ?ss k"
    using test_fill_fits [OF ne pos, of 1 "test_start r" r] r by (auto simp: t_def test_start_def)
  define n where "n = ?size - hl - test_reduce t - li_bytes 1 k"
  obtain cs fin ss' where ps: "pieces n ?ss = (cs, fin, ss')" by (metis prod_cases3)
  have "?size < 32768" using r(3) nb(2) by simp
  note seg = um_segment_fits [where header = header and fx = "fix" and alloc = alloc, OF ok ne hl hd this al k [unfolded t_def r_def] n_def [unfolded t_def r_def] ps, folded r_def, folded t_def]
  have "fix \<or> test_reduce t = 0" using fx by (simp add: t_def r_def)
  then have z: "take (if fix then 0 else test_reduce t) X = []" for X :: "octet list" by auto
  show ?thesis using seg ps r(3) pieces_length [OF ps] unfolding z
    by (intro exI [of _ n] exI [of _ cs] exI [of _ fin] exI [of _ ss']) simp
qed

section \<open>What a receiver makes of the pieces\<close>

text \<open>The reference for the reassembly: the SDUs passed up and the octets kept.\<close>

fun deliver :: "octet list \<Rightarrow> octet list list \<Rightarrow> bool \<Rightarrow> octet list list \<times> octet list" where
  "deliver acc [] fin = ([], acc)"
| "deliver acc [c] fin = (if fin then ([acc @ c], []) else ([], acc @ c))"
| "deliver acc (c # cs) fin = (let (ds, acc') = deliver [] cs fin in ((acc @ c) # ds, acc'))"

definition pieces_ok :: "nat \<Rightarrow> octet list \<Rightarrow> octet list list \<Rightarrow> bool" where
  "pieces_ok limit acc cs \<longleftrightarrow> cs \<noteq> [] \<and> (\<forall>c \<in> set cs. c \<noteq> [] \<and> length c \<le> limit \<and> length c < 2048) \<and> length acc + length (hd cs) \<le> limit"

text \<open>What of the first SDU of the queue has been sent.\<close>

definition sent_part :: "tx_sdu list \<Rightarrow> octet list" where
  "sent_part q = (case q of [] \<Rightarrow> [] | s # ss \<Rightarrow> take (sdu_segmented_size s) (sdu_data s))"

definition queue_ok :: "nat \<Rightarrow> tx_sdu list \<Rightarrow> bool" where
  "queue_ok limit q \<longleftrightarrow> (\<forall>s \<in> set q. sdu_wf s \<and> sdu_size s \<le> limit) \<and> (\<forall>s \<in> set (tl q). sdu_segmented_size s = 0)"

lemma queue_ok_tl: "queue_ok limit (s # ss) \<Longrightarrow> queue_ok limit ss \<and> sent_part ss = []"
  by (cases ss) (auto simp: queue_ok_def sent_part_def)

lemma sent_rest:
  assumes "sdu_wf s" "n \<le> sdu_remaining_size s"
  shows "take (sdu_segmented_size s) (sdu_data s) @ rest_of s = sdu_data s"
    "take (sdu_segmented_size s) (sdu_data s) @ take n (rest_of s) = take (sdu_segmented_size s + n) (sdu_data s)"
    "length (rest_of s) = sdu_remaining_size s" "length (take (sdu_segmented_size s) (sdu_data s)) = sdu_segmented_size s"
  using assms by (auto simp: take_add sdu_wf_def)

lemma pieces_deliver:
  assumes "pieces n q = (cs, fin, q')" "queue_ok limit q" "0 < n" "n \<le> sum_list (map sdu_remaining_size q)"
  shows "pieces_ok limit (sent_part q) cs \<and> snd (deliver (sent_part q) cs fin) = sent_part q' \<and>
    fst (deliver (sent_part q) cs fin) @ map sdu_data q' = map sdu_data q \<and> queue_ok limit q' \<and> length q' \<le> length q \<and>
    sum_list (map sdu_remaining_size q') = sum_list (map sdu_remaining_size q) - n"
  using assms
proof (induction n q arbitrary: cs rule: pieces.induct)
  case (2 n s ss)
  let ?a = "sdu_remaining_size s" and ?acc = "take (sdu_segmented_size s) (sdu_data s)"
  have wf: "sdu_wf s" "sdu_size s \<le> limit" "0 < ?a" "sdu_segmented_size s + ?a = sdu_size s" "sdu_size s < 2048"
    using "2.prems"(2) by (auto simp: queue_ok_def sdu_wf_def)
  note tl = queue_ok_tl [OF "2.prems"(2)]
  note sr = sent_rest [OF wf(1)]
  have sp: "sent_part (s # ss) = ?acc" by (simp add: sent_part_def)
  consider "n < ?a" | "n = ?a" | "?a < n" by linarith
  then show ?case
  proof cases
    case 1
    let ?s = "s\<lparr>sdu_remaining_size := ?a - n, sdu_segmented_size := sdu_segmented_size s + n\<rparr>"
    have r: "cs = [take n (rest_of s)]" "fin = False" "q' = ?s # ss" using "2.prems"(1) 1 by simp_all
    have n: "n \<le> ?a" "length (take n (rest_of s)) = n" using 1 sr(3) [of n] by simp_all
    have "queue_ok limit q'" using "2.prems"(2) 1 unfolding r by (auto simp: queue_ok_def sdu_wf_def)
    moreover have "pieces_ok limit ?acc cs" unfolding r pieces_ok_def using n sr(4) [of n] wf "2.prems"(3) by auto
    ultimately show ?thesis unfolding sp using sr(2) [OF n(1)] 1 by (simp add: r sent_part_def)
  next
    case 2
    then have r: "cs = [rest_of s]" "fin = True" "q' = ss" using "2.prems"(1) by simp_all
    have "pieces_ok limit ?acc cs" unfolding r pieces_ok_def using sr(3,4) [of 0] wf by auto
    then show ?thesis unfolding sp using sr(1) [of 0] tl 2 by (simp add: r)
  next
    case 3
    then obtain cs' where r: "cs = rest_of s # cs'" "pieces (n - ?a) ss = (cs', fin, q')"
      using "2.prems"(1) by (auto simp: Let_def split: prod.splits)
    have s: "n - ?a \<le> sum_list (map sdu_remaining_size ss)" "0 < n - ?a" using "2.prems"(4) 3 by simp_all
    note ih = "2.IH" [OF refl _ _ r(2) conjunct1 [OF tl] s(2,1), unfolded conjunct2 [OF tl]]
    obtain x y where xy: "cs' = x # y" using ih 3 by (cases cs') (auto simp: pieces_ok_def)
    have "pieces_ok limit ?acc cs" using ih 3 sr(3,4) [of 0] wf unfolding r by (auto simp: pieces_ok_def)
    then show ?thesis unfolding sp using ih 3 sr(1) [of 0] "2.prems"(4) by (simp add: r(1) xy split_beta Let_def)
  qed
qed simp

end
