(* ===== verification/RlcUmLink.thy ===== *)
theory RlcUmLink
  imports RlcUmSeg
begin

text \<open>
  Two RLC UM entities connected by a channel that keeps the order: what the receiver makes of the PDUs
  of the transmitter, and the transfer of SDUs from end to end.
\<close>

section \<open>Reassembly of the pieces\<close>

text \<open>The receiver holds the octets \<open>acc\<close> of an SDU whose end has not arrived.\<close>

definition holds :: "octet list \<Rightarrow> rlc_um_entity \<Rightarrow> bool" where
  "holds acc e \<longleftrightarrow> \<not> reassembly_missing_sn_detected e \<and> sdu_ok e \<and> output_sdu_size_to_write e = length acc \<and>
     (acc \<noteq> [] \<longrightarrow> (\<exists>b. output_sdu_in_construction e = Some b \<and> take (length acc) b = acc))"

lemma holds_core: "core e = core e' \<Longrightarrow> holds acc e = holds acc e'"
  using sdu_ok_core [of e e'] by (simp add: holds_def core_def)

lemma holds_upds [simp]: "holds acc (e\<lparr>um_stats := t\<rparr>) = holds acc e"
  by (rule holds_core) simp

lemma holds_missing: "holds acc e \<Longrightarrow> holds acc (e\<lparr>reassembly_missing_sn_detected := False\<rparr>)"
  by (simp add: holds_def)

lemma holds_clear: "holds [] e \<Longrightarrow> holds [] (rlc_um_clear_rx_sdu e)"
  by (simp add: holds_def) (simp add: rlc_um_clear_rx_sdu_def)

lemma put_ok:
  assumes "holds acc e" "alloc_ok alloc" "\<forall>n. alloc n \<noteq> None" "length acc + length src \<le> sdu_max_size e" "src \<noteq> []"
  shows "\<exists>e'. rlc_um_reassembly alloc src e = Some e' \<and> holds (acc @ src) e' \<and> rest e' = rest e"
proof -
  obtain b e1 where e1: "e1 = e\<lparr>output_sdu_in_construction := Some b, output_sdu_size_to_write := length acc\<rparr>" "take (length acc) b = acc"
      "sdu_max_size e \<le> length b"
      "(case output_sdu_in_construction e of None \<Rightarrow> e\<lparr>output_sdu_in_construction := alloc (sdu_max_size e), output_sdu_size_to_write := 0\<rparr> | Some b \<Rightarrow> e) = e1"
  proof (cases "output_sdu_in_construction e")
    case None
    then have "acc = []" using assms(1) by (auto simp: holds_def)
    moreover obtain b where "alloc (sdu_max_size e) = Some b" using assms(3) by blast
    moreover have "sdu_max_size e \<le> length b" using assms(2) calculation(2) by (auto simp: alloc_ok_def)
    ultimately show ?thesis using None
      by (intro that [of "e\<lparr>output_sdu_in_construction := Some b, output_sdu_size_to_write := length acc\<rparr>" b]) simp_all
  next
    case (Some b)
    then have "take (length acc) b = acc" using assms(1) by (cases "acc = []") (auto simp: holds_def)
    moreover have "sdu_max_size e \<le> length b" using assms(1) Some by (auto simp: holds_def sdu_ok_def)
    moreover have "e = e\<lparr>output_sdu_in_construction := Some b, output_sdu_size_to_write := length acc\<rparr>"
      using Some assms(1) by (cases e) (simp add: holds_def)
    ultimately show ?thesis using that [of e b] Some by simp
  qed
  have w: "write_at (length acc) src b = Some (acc @ src @ drop (length acc + length src) b)"
    using assms(4) e1(2,3) by (simp add: write_at_def)
  have "rlc_um_reassembly alloc src e = Some (e1\<lparr>output_sdu_in_construction := Some (acc @ src @ drop (length acc + length src) b),
      output_sdu_size_to_write := length acc + length src\<rparr>)"
    unfolding rlc_um_reassembly_def Let_def e1(4) using assms(4,5) w by (simp add: e1(1))
  moreover have "holds (acc @ src) (e1\<lparr>output_sdu_in_construction := Some (acc @ src @ drop (length acc + length src) b),
      output_sdu_size_to_write := length acc + length src\<rparr>)"
    using assms(1,4) e1(3) by (simp add: holds_def sdu_ok_def sdu_max_size_def e1(1))
  ultimately show ?thesis by (auto simp: rest_def e1(1))
qed

lemma send_ok:
  assumes "holds acc e" "acc \<noteq> []"
  shows "\<exists>e'. rlc_um_send_sdu (e, out) = (e', out @ [acc]) \<and> holds [] e' \<and> rest e' = rest e"
proof -
  obtain b where b: "output_sdu_in_construction e = Some b" "take (length acc) b = acc" "output_sdu_size_to_write e = length acc"
    using assms by (auto simp: holds_def)
  then show ?thesis using assms by (auto simp: rlc_um_send_sdu_def Let_def holds_def sdu_ok_def rest_def)
qed

lemma lis_ok:
  assumes "holds acc e" "alloc_ok alloc" "\<forall>n. alloc n \<noteq> None" "pieces_ok (sdu_max_size e) acc (cs @ [c])" "pdu = pre @ concat cs @ post" "off = length pre"
  shows "\<exists>e'. reassemble_lis alloc pdu off (map length cs) (e, out) = Some ((e', out @ fst (deliver acc (cs @ [c]) False)), off + length (concat cs)) \<and>
    rest e' = rest e \<and> (\<exists>acc'. holds acc' e' \<and> snd (deliver acc (cs @ [c]) False) = acc' @ c \<and> pieces_ok (sdu_max_size e) acc' [c] \<and>
    deliver acc (cs @ [c]) True = (fst (deliver acc (cs @ [c]) False) @ [acc' @ c], []))"
  using assms
proof (induction cs arbitrary: acc e out pre off)
  case Nil
  then show ?case by auto
next
  case (Cons d cs)
  note p = Cons.prems
  have d: "d \<noteq> []" "length acc + length d \<le> sdu_max_size e" using p(4) by (auto simp: pieces_ok_def)
  obtain e1 where e1: "rlc_um_reassembly alloc d e = Some e1" "holds (acc @ d) e1" "rest e1 = rest e" using put_ok [OF p(1-3) d(2,1)] by blast
  obtain e2 where e2: "rlc_um_send_sdu (e1, out) = (e2, out @ [acc @ d])" "holds [] e2" "rest e2 = rest e1"
    using send_ok [OF e1(2), of out] d(1) by auto
  have m: "sdu_max_size e2 = sdu_max_size e" using rest_fields(11) [OF e1(3)] rest_fields(11) [OF e2(3)] by (simp add: sdu_max_size_def)
  have po: "pieces_ok (sdu_max_size e2) [] (cs @ [c])" using p(4) unfolding m by (cases cs) (auto simp: pieces_ok_def)
  have sl: "slice pdu off (length d) = Some d" using p(5,6) by (simp add: slice_def)
  have pdu: "pdu = (pre @ d) @ concat cs @ post" using p(5) by simp
  obtain x y where xy: "cs @ [c] = x # y" by (cases cs) auto
  have dv: "deliver acc ((d # cs) @ [c]) fin = (let (ds, acc') = deliver [] (cs @ [c]) fin in ((acc @ d) # ds, acc'))" for fin
    using xy by simp
  obtain e' acc' where e': "reassemble_lis alloc pdu (off + length d) (map length cs) (e2, out @ [acc @ d]) =
      Some ((e', (out @ [acc @ d]) @ fst (deliver [] (cs @ [c]) False)), off + length d + length (concat cs))" "rest e' = rest e2"
      "holds acc' e'" "snd (deliver [] (cs @ [c]) False) = acc' @ c" "pieces_ok (sdu_max_size e2) acc' [c]"
      "deliver [] (cs @ [c]) True = (fst (deliver [] (cs @ [c]) False) @ [acc' @ c], [])"
    using Cons.IH [OF e2(2) p(2,3) po pdu, of "off + length d" "out @ [acc @ d]"] p(6) by auto
  have step: "reassemble_lis alloc pdu off (map length (d # cs)) (e, out) =
      Some ((e', (out @ [acc @ d]) @ fst (deliver [] (cs @ [c]) False)), off + length d + length (concat cs))"
    using sl e1(1) e2(1) e'(1) by simp
  show ?case unfolding step dv using e' e1(3) e2(3) m by (intro exI [of _ e'] conjI exI [of _ acc']) (simp_all add: split_beta Let_def)
qed

text \<open>The framing info of a PDU that starts with the rest of \<open>acc\<close>'s SDU, or with a new one, and ends an SDU or not.\<close>

abbreviation fi_of :: "bool \<Rightarrow> bool \<Rightarrow> nat" where
  "fi_of first fin \<equiv> (if first then 0 else 2) + (if fin then 0 else 1)"

lemma cleared:
  assumes "holds acc e" "e0 = (if acc = [] then rlc_um_clear_rx_sdu e else e)"
  shows "holds acc e0" "rest e0 = rest e" "sdu_max_size e0 = sdu_max_size e" "\<not> reassembly_missing_sn_detected e"
proof -
  have "rest e0 = rest e" using assms(2) by simp
  then show "rest e0 = rest e" "sdu_max_size e0 = sdu_max_size e" using rest_fields(11) [of e0 e] by (simp_all add: sdu_max_size_def)
  show "holds acc e0" using assms holds_clear [of e] by (cases "acc = []") simp_all
  show "\<not> reassembly_missing_sn_detected e" using assms(1) by (simp add: holds_def)
qed

lemma no_li_ok:
  assumes "holds acc e" "alloc_ok alloc" "\<forall>n. alloc n \<noteq> None" "pieces_ok (sdu_max_size e) acc [c]" "fi = fi_of (acc = []) fin"
  shows "\<exists>e'. reassemble_no_li alloc pdu fi c (e, out) = Some (e', out @ fst (deliver acc [c] fin)) \<and>
    holds (snd (deliver acc [c] fin)) e' \<and> rest e' = rest e"
proof -
  define e0 where "e0 = (if acc = [] then rlc_um_clear_rx_sdu e else e)"
  note e0 = cleared [OF assms(1) e0_def]
  have c: "c \<noteq> []" "length acc + length c \<le> sdu_max_size e0" using assms(4) e0(3) by (auto simp: pieces_ok_def)
  obtain e1 where e1: "rlc_um_reassembly alloc c e0 = Some e1" "holds (acc @ c) e1" "rest e1 = rest e0" using put_ok [OF e0(1) assms(2,3) c(2,1)] by blast
  obtain e2 where e2: "rlc_um_send_sdu (e1, out) = (e2, out @ [acc @ c])" "holds [] e2" "rest e2 = rest e1"
    using send_ok [OF e1(2), of out] c(1) by auto
  show ?thesis
  proof (cases fin)
    case True
    then have "reassemble_no_li alloc pdu fi c (e, out) = Some (e2\<lparr>reassembly_missing_sn_detected := False\<rparr>, out @ [acc @ c])"
      using assms(5) e1(1) e2(1) e0(4) by (cases "acc = []") (simp_all add: reassemble_no_li_def e0_def)
    then show ?thesis using True holds_missing [OF e2(2)] e1(3) e2(3) e0(2) by simp
  next
    case False
    have "reassemble_no_li alloc pdu fi c (e, out) = Some ((if acc = [] then e1\<lparr>reassembly_missing_sn_detected := False\<rparr> else e1), out)"
      using False assms(5) e1(1) e0(4) by (cases "acc = []") (simp_all add: reassemble_no_li_def e0_def)
    then show ?thesis using False holds_missing [OF e1(2)] e1 e0(2) by (cases "acc = []") simp_all
  qed
qed

lemma li_ok:
  assumes "holds acc e" "alloc_ok alloc" "\<forall>n. alloc n \<noteq> None" "pieces_ok (sdu_max_size e) acc (cs @ [c])" "fi = fi_of (acc = []) fin"
    and "off = length pre" "pdu = pre @ concat cs @ c"
  shows "\<exists>e'. reassemble_li alloc pdu fi (map length cs) off (length c) (e, out) = Some (e', out @ fst (deliver acc (cs @ [c]) fin)) \<and>
    holds (snd (deliver acc (cs @ [c]) fin)) e' \<and> rest e' = rest e"
proof -
  define e0 where "e0 = (if fi < 2 then rlc_um_clear_rx_sdu e else e)"
  have fi: "(fi < 2) = (acc = [])" "(fi = 0 \<or> fi = 2) = fin" using assms(5) by auto
  note e0 = cleared [OF assms(1) e0_def [unfolded fi(1)]]
  obtain e1 acc' where e1: "reassemble_lis alloc pdu off (map length cs) (e0, out) =
      Some ((e1, out @ fst (deliver acc (cs @ [c]) False)), off + length (concat cs))" "rest e1 = rest e0" "holds acc' e1"
      "snd (deliver acc (cs @ [c]) False) = acc' @ c" "pieces_ok (sdu_max_size e0) acc' [c]"
      "deliver acc (cs @ [c]) True = (fst (deliver acc (cs @ [c]) False) @ [acc' @ c], [])"
    using lis_ok [OF e0(1) assms(2,3) assms(4) [folded e0(3)] assms(7,6), of out] by blast
  have m: "sdu_max_size e1 = sdu_max_size e0" using rest_fields(11) [OF e1(2)] by (simp add: sdu_max_size_def)
  have c: "c \<noteq> []" "length acc' + length c \<le> sdu_max_size e1" using e1(5) m by (auto simp: pieces_ok_def)
  obtain e2 where e2: "rlc_um_reassembly alloc c e1 = Some e2" "holds (acc' @ c) e2" "rest e2 = rest e1" using put_ok [OF e1(3) assms(2,3) c(2,1)] by blast
  have sl: "slice pdu (off + length (concat cs)) (length c) = Some c" using assms(6,7) by (simp add: slice_def)
  define s2 where "s2 = (if fin then rlc_um_send_sdu (e2, out @ fst (deliver acc (cs @ [c]) False)) else (e2, out @ fst (deliver acc (cs @ [c]) False)))"
  have step: "reassemble_li alloc pdu fi (map length cs) off (length c) (e, out) = Some ((fst s2)\<lparr>reassembly_missing_sn_detected := False\<rparr>, snd s2)"
    unfolding reassemble_li_def Let_def using e0(4) e1(1) sl e2(1) fi(2) by (cases "fi < 2") (simp_all add: e0_def s2_def)
  show ?thesis
  proof (cases fin)
    case True
    obtain e3 where "rlc_um_send_sdu (e2, out @ fst (deliver acc (cs @ [c]) False)) = (e3, (out @ fst (deliver acc (cs @ [c]) False)) @ [acc' @ c])"
        "holds [] e3" "rest e3 = rest e2"
      using send_ok [OF e2(2)] c(1) by blast
    then show ?thesis using True step e1(2,6) e2(3) e0(2) holds_missing [of "[]" e3] by (simp add: s2_def)
  next
    case False
    then show ?thesis using step e1(2,4) e2(2,3) e0(2) holds_missing [of "acc' @ c" e2] by (simp add: s2_def)
  qed
qed

section \<open>The PDUs of the transmitter\<close>

text \<open>What the two layouts of the fixed part have in common.\<close>

locale umd_header =
  fixes header :: "nat \<Rightarrow> bool \<Rightarrow> 16 word \<Rightarrow> octet list" and hl sn_length :: nat and W :: int
  assumes header_length: "length (header fi ext sn) = hl"
    and hl_eq: "hl = (if sn_length = 10 then 2 else 1)"
    and header_ext: "fi < 4 \<Longrightarrow> (if sn_length = 10 then header fi ext sn ! 0 AND 0x04 \<noteq> 0 else header fi ext sn ! 0 AND 0x20 \<noteq> 0) = ext"
    and header_fi: "fi < 4 \<Longrightarrow> (if sn_length = 10 then unat (drop_bit 3 (header fi ext sn ! 0 AND 0x18)) else unat (drop_bit 6 (header fi ext sn ! 0 AND 0xC0))) = fi"
    and header_sn: "fi < 4 \<Longrightarrow> pdu_sn sn_length (header fi ext sn @ p) = Some (uint sn mod (2 * W))"
    and window: "0 < W" "2 * W dvd 65536"
begin

text \<open>A PDU of the transmitter, reassembled.\<close>

lemma umd_reassembled:
  assumes h: "holds acc e" and al: "alloc_ok alloc" "\<forall>n. alloc n \<noteq> None" and po: "pieces_ok (sdu_max_size e) acc cs"
    and n: "length cs \<le> 129" and l: "rx_sn_length e = sn_length"
  shows "\<exists>e'. reassemble_pdu alloc (umd header (acc = []) fin sn cs) (e, out) = Some (e', out @ fst (deliver acc cs fin)) \<and>
    holds (snd (deliver acc cs fin)) e' \<and> rest e' = rest e"
proof -
  define hd' where "hd' = header (fi_of (acc = []) fin) (1 < length cs) sn"
  define pdu where "pdu = umd header (acc = []) fin sn cs"
  have pdu: "pdu = hd' @ li_octets (map length (butlast cs)) @ concat cs" by (simp add: pdu_def hd'_def umd_def)
  have fi4: "fi_of (acc = []) fin < 4" by simp
  have lh: "length hd' = hl" "0 < hl" using header_length hl_eq by (simp_all add: hd'_def)
  have b1: "pdu ! 0 = hd' ! 0" using lh by (simp add: pdu nth_append)
  have eq: "reassemble_pdu alloc pdu (e, out) =
      (if \<not> 1 < length cs then reassemble_no_li alloc pdu (fi_of (acc = []) fin) (drop hl pdu) (e, out)
       else do {
             (rc, lis, rest, off) \<leftarrow> rlc_um_read_length_indicators pdu hl (int (length pdu) - int hl);
             if rc \<ge> 0 then reassemble_li alloc pdu (fi_of (acc = []) fin) lis off (nat rest) (e, out)
             else Some ((drop_pdu pdu e)\<lparr>reassembly_missing_sn_detected := True\<rparr>, out) })"
  proof -
    have "\<not> (length pdu < hl \<or> length pdu < 1)" using lh by (simp add: pdu)
    then show ?thesis
      unfolding reassemble_pdu_def Let_def fst_conv snd_conv l hl_eq [symmetric] b1
        header_ext [OF fi4, of "1 < length cs" sn, folded hd'_def] header_fi [OF fi4, of "1 < length cs" sn, folded hd'_def]
      by (simp only: if_False)
  qed
  show ?thesis
  proof (cases "1 < length cs")
    case False
    then obtain c where c: "cs = [c]" using po by (cases cs) (auto simp: pieces_ok_def)
    then have "drop hl pdu = c" using lh by (simp add: pdu)
    then show ?thesis using False eq no_li_ok [OF h al po [unfolded c] refl, of pdu fin out] c unfolding pdu_def by simp
  next
    case True
    then obtain ds c where cs: "cs = ds @ [c]" "ds \<noteq> []" by (cases cs rule: rev_cases) auto
    define ls where "ls = map length ds"
    have ls: "ls \<noteq> []" "\<forall>l \<in> set ls. l < 2048" "length ls \<le> 128" using po n cs by (auto simp: ls_def pieces_ok_def)
    have c0: "0 < length c" using po cs by (auto simp: pieces_ok_def)
    have pdu': "pdu = hd' @ li_octets ls @ concat ds @ c" unfolding pdu by (simp add: cs(1) ls_def)
    have lp: "int (length pdu) - int hl - int (sum_list ls) - int ((length ls * 3 + 1) div 2) = int (length c)"
      unfolding pdu' using lh by (simp add: length_li_octets ls_def length_concat)
    have "read_li_loop pdu hl [] (int (length pdu) - int hl) = Some (True, ls, int (length c))"
      using read_li_octets [OF ls(1,2), of "[]" hl hd' "concat ds @ c" "int (length pdu) - int hl"] ls(3) lh(1) lp unfolding pdu' [symmetric] by simp
    then have "rlc_um_read_length_indicators pdu hl (int (length pdu) - int hl) = Some (0, ls, int (length c), hl + (length ls * 3 + 1) div 2)"
      using c0 by (simp add: rlc_um_read_length_indicators_def)
    then have "reassemble_pdu alloc pdu (e, out) =
        reassemble_li alloc pdu (fi_of (acc = []) fin) ls (hl + (length ls * 3 + 1) div 2) (length c) (e, out)"
      using eq True by simp
    moreover have lo: "hl + (length ls * 3 + 1) div 2 = length (hd' @ li_octets ls)" using lh(1) by (simp add: length_li_octets)
    moreover have "pdu = (hd' @ li_octets ls) @ concat ds @ c" using pdu' by simp
    note li_ok [OF h al po [unfolded cs(1)] refl lo this, of fin out]
    ultimately show ?thesis unfolding pdu_def [symmetric] ls_def [symmetric] cs(1) [symmetric] by (simp only:)
  qed
qed

end

lemma low_octet:
  fixes sn :: "16 word"
  assumes "n \<le> 8"
  shows "(ucast (sn AND mask n) :: octet) AND push_bit n w = 0" "(ucast (sn AND mask n) :: octet) AND mask n = ucast (sn AND mask n)"
    "uint (ucast (sn AND mask n) :: octet) = uint sn mod 2 ^ n"
proof -
  show "(ucast (sn AND mask n) :: octet) AND push_bit n w = 0" by (rule bit_eqI) (auto simp: bit_simps)
  show "(ucast (sn AND mask n) :: octet) AND mask n = ucast (sn AND mask n)" by (rule bit_eqI) (auto simp: bit_simps)
  have "uint (sn AND mask n) = take_bit n (uint sn)" using assms by (simp only: take_bit_eq_mask [symmetric] unsigned_take_bit_eq)
  then have "uint (ucast (sn AND mask n) :: octet) = take_bit 8 (take_bit n (uint sn))" by (simp add: unsigned_ucast_eq)
  then show "uint (ucast (sn AND mask n) :: octet) = uint sn mod 2 ^ n" using assms
    by (simp only: take_bit_take_bit min_absorb2) (simp only: take_bit_eq_mod)
qed

lemma fi_cases: "fi < 4 \<Longrightarrow> fi = 0 \<or> fi = 1 \<or> fi = 2 \<or> fi = (3 :: nat)"
  by linarith

interpretation umd_5: umd_header header_5 1 5 16
proof unfold_locales
  fix fi ext and sn :: "16 word" and p :: "octet list"
  let ?x = "ucast (sn AND 0x1F) :: octet"
  have m: "(0x1F :: 16 word) = mask 5" "(0x1F :: octet) = mask 5" "(0x20 :: octet) = push_bit 5 1" "(0xC0 :: octet) = push_bit 5 6"
    by (simp_all add: mask_eq_exp_minus_1 push_bit_eq_mult)
  have x: "?x AND 0x20 = 0" "?x AND 0xC0 = 0" "?x AND 0x1F = ?x" "uint ?x = uint sn mod 32"
    unfolding m using low_octet(1) [of 5 sn 1] low_octet(1) [of 5 sn 6] low_octet(2,3) [of 5 sn] by simp_all
  show "length (header_5 fi ext sn) = 1" by (simp add: header_5_def)
  assume "fi < 4"
  then have fi: "fi = 0 \<or> fi = 1 \<or> fi = 2 \<or> fi = 3" by (rule fi_cases)
  show "(if (5::nat) = 10 then header_5 fi ext sn ! 0 AND 0x04 \<noteq> 0 else header_5 fi ext sn ! 0 AND 0x20 \<noteq> 0) = ext"
    using fi by (auto simp: header_5_def bit.conj_disj_distrib2 x)
  show "(if (5::nat) = 10 then unat (drop_bit 3 (header_5 fi ext sn ! 0 AND 0x18)) else unat (drop_bit 6 (header_5 fi ext sn ! 0 AND 0xC0))) = fi"
    using fi by (auto simp: header_5_def bit.conj_disj_distrib2 x drop_bit_eq_div)
  show "pdu_sn 5 (header_5 fi ext sn @ p) = Some (uint sn mod (2 * 16))"
    using fi by (auto simp: header_5_def pdu_sn_def bit.conj_disj_distrib2 x)
qed simp_all

interpretation umd_10: umd_header header_10 2 10 512
proof unfold_locales
  fix fi ext and sn :: "16 word" and p :: "octet list"
  let ?x = "ucast (drop_bit 8 sn AND 0x03) :: octet" and ?y = "ucast (sn AND 0xFF) :: octet"
  have m: "(0x03 :: 16 word) = mask 2" "(0xFF :: 16 word) = mask 8" "(0x03 :: octet) = mask 2" "(0x04 :: octet) = push_bit 2 1" "(0x18 :: octet) = push_bit 2 6"
    by (simp_all add: mask_eq_exp_minus_1 push_bit_eq_mult)
  have x: "?x AND 0x04 = 0" "?x AND 0x18 = 0" "?x AND 0x03 = ?x" "uint ?x = uint sn div 256 mod 4" "uint ?y = uint sn mod 256"
    unfolding m using low_octet(1) [of 2 "drop_bit 8 sn" 1] low_octet(1) [of 2 "drop_bit 8 sn" 6] low_octet(2,3) [of 2 "drop_bit 8 sn"] low_octet(3) [of 8 sn]
    by (simp_all add: drop_bit_eq_div uint_div_distrib)
  have "uint sn mod 1024 = 256 * (uint sn div 256 mod 4) + uint sn mod 256" using zmod_zmult2_eq [of 4 "uint sn" 256] by simp
  note x = x this
  show "length (header_10 fi ext sn) = 2" by (simp add: header_10_def)
  assume "fi < 4"
  then have fi: "fi = 0 \<or> fi = 1 \<or> fi = 2 \<or> fi = 3" by (rule fi_cases)
  show "(if (10::nat) = 10 then header_10 fi ext sn ! 0 AND 0x04 \<noteq> 0 else header_10 fi ext sn ! 0 AND 0x20 \<noteq> 0) = ext"
    using fi by (auto simp: header_10_def bit.conj_disj_distrib2 x)
  show "(if (10::nat) = 10 then unat (drop_bit 3 (header_10 fi ext sn ! 0 AND 0x18)) else unat (drop_bit 6 (header_10 fi ext sn ! 0 AND 0xC0))) = fi"
    using fi by (auto simp: header_10_def bit.conj_disj_distrib2 x)
  show "pdu_sn 10 (header_10 fi ext sn @ p) = Some (uint sn mod (2 * 512))"
    using fi by (auto simp: header_10_def pdu_sn_def bit.conj_disj_distrib2 x)
qed simp_all

section \<open>The receiver between two PDUs\<close>

text \<open>PDUs follow each other: nothing is buffered and t-Reordering is not running.\<close>

definition at_rest :: "int \<Rightarrow> um_ref" where
  "at_rest c = \<lparr>rR = c, rH = c, rX = None, rB = (\<lambda>y. None)\<rparr>"

lemma ref_in_order: "0 < W \<Longrightarrow> ref_receive W dur c pdu (at_rest c) = ([Some pdu], at_rest (c + 1))"
  by (simp add: ref_receive_def at_rest_def ref_timer_def Let_def max_def fun_eq_iff upto.simps [of c c])

definition rx_inv :: "int \<Rightarrow> nat \<Rightarrow> int \<Rightarrow> octet list \<Rightarrow> rlc_um_entity \<Rightarrow> bool" where
  "rx_inv W sn_length c acc e \<longleftrightarrow> um_sim W e (at_rest c) \<and> protocol_state e = RLC_DATA_TRANSFER_READY_STATE \<and>
     rx_sn_length e = sn_length \<and> holds acc e"

lemma at_rest_timer: "um_sim W e (at_rest c) \<Longrightarrow> rlc_um_check_timer_dar_time_out now alloc (e, out) = Some (e, out)"
  by (simp add: um_sim_def at_rest_def rlc_um_check_timer_dar_time_out_def)

lemma sdu_max_size_2000: "2000 \<le> sdu_max_size e"
  by (simp add: sdu_max_size_def um_constants)

lemma pieces_ok_mono: "pieces_ok a acc cs \<Longrightarrow> a \<le> b \<Longrightarrow> pieces_ok b acc cs"
  by (auto simp: pieces_ok_def)

context umd_header begin

lemma umd_received:
  fixes now :: "32 word"
  assumes inv: "rx_inv W sn_length c acc e" and al: "alloc_ok alloc" "\<forall>n. alloc n \<noteq> None" and po: "pieces_ok 2000 acc cs"
    and n: "length cs \<le> 129" and sn: "uint sn mod (2 * W) = c mod (2 * W)"
  shows "\<exists>e'. rlc_um_mac_data_indication now alloc [umd header (acc = []) fin sn cs] (e, out) = Some (e', out @ fst (deliver acc cs fin)) \<and>
    rx_inv W sn_length (c + 1) (snd (deliver acc cs fin)) e'"
proof -
  define pdu where "pdu = umd header (acc = []) fin sn cs"
  have i: "um_sim W e (at_rest c)" "protocol_state e = RLC_DATA_TRANSFER_READY_STATE" "rx_sn_length e = sn_length" "holds acc e"
    using inv by (simp_all add: rx_inv_def)
  obtain t where t: "reassemble_pdu alloc pdu (e, out) = Some (t, out @ fst (deliver acc cs fin))" "holds (snd (deliver acc cs fin)) t" "rest t = rest e"
    using umd_reassembled [OF i(4) al pieces_ok_mono [OF po sdu_max_size_2000] n i(3), of fin sn out, folded pdu_def] by blast
  have run: "run_slots alloc [Some pdu] (e, out) = Some (t, out @ fst (deliver acc cs fin))" using t(1) by (simp add: slot_step_def)
  let ?e = "on_stats (\<lambda>t. t\<lparr>stat_rx_data_bytes := stat_rx_data_bytes t + of_nat (length pdu), stat_rx_data_pdu := stat_rx_data_pdu t + 1\<rparr>) e"
  have "fi_of (acc = []) fin < 4" by simp
  from header_sn [OF this, of "1 < length cs" sn] have psn: "pdu_sn (rx_sn_length ?e) pdu = Some (c mod (2 * W))"
    using i(3) sn by (simp add: pdu_def umd_def)
  obtain s' where s': "rlc_um_receive_process_dar now alloc pdu (?e, out) = Some s'" "um_sim W (fst s') (at_rest (c + 1))"
      "core_st s' = core_st (t, out @ fst (deliver acc cs fin))" "protocol_state (fst s') = protocol_state ?e"
  proof -
    have "\<exists>s'. rlc_um_receive_process_dar now alloc pdu (?e, out) = Some s' \<and> um_sim W (fst s') (at_rest (c + 1)) \<and>
        core_st s' = core_st (t, out @ fst (deliver acc cs fin)) \<and> (ms_duration (t_reordering (fst s')) > 0) = (ms_duration (t_reordering ?e) > 0) \<and>
        protocol_state (fst s') = protocol_state ?e"
      by (rule process_dar_ok [OF _ psn _ _ _ refl ref_in_order [OF window(1)] run]) (use i(1) window(1) in \<open>simp_all add: core_st_def at_rest_def\<close>)
    then show ?thesis using that by blast
  qed
  have len: "length pdu > 0" using header_length hl_eq by (simp add: pdu_def umd_def)
  have f: "snd s' = out @ fst (deliver acc cs fin)" "core (fst s') = core t" "rx_sn_length (fst s') = sn_length"
    using core_st_fields [OF s'(3)] rest_fields(10) [OF t(3)] i(3) by simp_all
  have "rlc_um_mac_data_indication now alloc [pdu] (e, out) = Some (fst s', snd s')"
    using i(2) s'(1) len at_rest_timer [OF s'(2), of now alloc "snd s'"] by (simp add: rlc_um_mac_data_indication_def rlc_um_rx_def)
  then show ?thesis using s'(2,4) i(2) f t(2) holds_core [OF f(2)] unfolding pdu_def [symmetric] by (simp add: rx_inv_def)
qed

end

section \<open>The link\<close>

text \<open>PDCP submits an SDU in a frame, or the MAC grants a number of octets at some time and the PDUs arrive.\<close>

datatype um_event = Data int "octet list" | Grant "32 word" nat

definition um_link_step :: "allocator \<Rightarrow> allocator \<Rightarrow> um_event \<Rightarrow> rlc_um_entity \<times> um_state \<Rightarrow> (rlc_um_entity \<times> um_state) option" where
  "um_link_step talloc ralloc ev s =
     (case ev of
        Data fr sdu \<Rightarrow> Some (rlc_um_data_req fr sdu (fst s), snd s)
      | Grant now nb \<Rightarrow> do {
          (pdus, bo, tx) \<leftarrow> rlc_um_mac_data_request talloc (rlc_um_set_nb_bytes_requested_by_mac nb (fst s));
          rx \<leftarrow> rlc_um_mac_data_indication now ralloc pdus (snd s);
          Some (tx, rx) })"

fun um_link_run :: "allocator \<Rightarrow> allocator \<Rightarrow> um_event list \<Rightarrow> rlc_um_entity \<times> um_state \<Rightarrow> (rlc_um_entity \<times> um_state) option" where
  "um_link_run talloc ralloc [] s = Some s"
| "um_link_run talloc ralloc (ev # evs) s = Option.bind (um_link_step talloc ralloc ev s) (um_link_run talloc ralloc evs)"

definition submitted :: "um_event list \<Rightarrow> octet list list" where
  "submitted evs = concat (map (\<lambda>ev. case ev of Data fr sdu \<Rightarrow> [sdu] | Grant now nb \<Rightarrow> []) evs)"

text \<open>
  What the code relies on, along a run: SDUs have 1 to 2000 octets, a grant is less than 32768 octets and
  finds at most 129 SDUs, so that the receiver can read the indicators, and with 10-bit
  sequence numbers the first loop takes nothing off the PDU, as it does when the grant ends one or two octets behind an
  SDU that others follow; the last property of this theory states what goes out then.
\<close>

definition exact :: "rlc_um_entity \<Rightarrow> bool" where
  "exact e \<longleftrightarrow> test_reduce (test_fill (input_sdus e) (test_start (int (data_pdu_size e) - int (tx_header_min_length_in_bytes e)))) = 0"

definition event_ok :: "um_event \<Rightarrow> rlc_um_entity \<Rightarrow> bool" where
  "event_ok ev e \<longleftrightarrow>
     (case ev of
        Data fr sdu \<Rightarrow> 0 < length sdu \<and> length sdu \<le> 2000 \<and> length (input_sdus e) < 1000000
      | Grant now nb \<Rightarrow> nb < 32768 \<and> length (input_sdus e) \<le> 129 \<and>
          (tx_sn_length e = 10 \<longrightarrow> exact (rlc_um_set_nb_bytes_requested_by_mac nb e)))"

fun events_ok :: "allocator \<Rightarrow> allocator \<Rightarrow> um_event list \<Rightarrow> rlc_um_entity \<times> um_state \<Rightarrow> bool" where
  "events_ok talloc ralloc [] s \<longleftrightarrow> True"
| "events_ok talloc ralloc (ev # evs) s \<longleftrightarrow> event_ok ev (fst s) \<and>
     (case um_link_step talloc ralloc ev s of None \<Rightarrow> True | Some s' \<Rightarrow> events_ok talloc ralloc evs s')"

definition block_ok :: "allocator \<Rightarrow> bool" where
  "block_ok alloc \<longleftrightarrow> (\<forall>n b. alloc n = Some b \<longrightarrow> max 4 n \<le> length b)"

definition tx_inv :: "nat \<Rightarrow> nat \<Rightarrow> rlc_um_entity \<Rightarrow> bool" where
  "tx_inv hl sn_length e \<longleftrightarrow> tx_ok hl e \<and> tx_sn_length e = sn_length \<and> protocol_state e = RLC_DATA_TRANSFER_READY_STATE \<and>
     pdus_to_mac_layer e = [] \<and> queue_ok 2000 (input_sdus e)"

lemma um_segment_tx_sn_length: "pred_option (\<lambda>e'. tx_sn_length e' = tx_sn_length e) (um_segment hl fx header alloc e)"
  by (simp add: um_segment_def Let_def split_beta split: option.split bind_split)

text \<open>A transmitter and its layout of the fixed part.\<close>

locale um_transmitter = umd_header +
  fixes fx :: bool
  assumes get_pdus: "tx_sn_length e = sn_length \<Longrightarrow> protocol_state e = RLC_DATA_TRANSFER_READY_STATE \<Longrightarrow>
      rlc_um_get_pdus alloc e = (if nb_bytes_requested_by_mac e \<le> hl then Some e else um_segment hl fx header alloc e)"
    and fixed: "fx \<or> sn_length = 10"
begin

text \<open>A request gives no PDU and leaves the queue alone, or it gives one PDU with the front of the queue.\<close>

lemma request_ok:
  assumes inv: "tx_inv hl sn_length e0" and ev: "event_ok (Grant now nb) e0" and al: "block_ok alloc"
  defines "e \<equiv> rlc_um_set_nb_bytes_requested_by_mac nb e0"
  shows "\<exists>pdus bo e'. rlc_um_mac_data_request alloc e = Some (pdus, bo, e') \<and> tx_inv hl sn_length e' \<and>
    (pdus = [] \<and> input_sdus e' = input_sdus e0 \<and> vt_us e' = vt_us e0 \<and> (nb \<le> hl \<or> input_sdus e0 = [] \<or> alloc (data_pdu_size e) = None) \<or>
     (\<exists>n cs fin. 0 < n \<and> n \<le> sum_list (map sdu_remaining_size (input_sdus e0)) \<and> pieces n (input_sdus e0) = (cs, fin, input_sdus e') \<and>
        pdus = [umd header (sent_part (input_sdus e0) = []) fin (vt_us e0) cs] \<and> length (hd pdus) \<le> nb \<and>
        vt_us e' = vt_us e0 + 1 \<and> length cs \<le> length (input_sdus e0)))"
proof -
  have i: "tx_ok hl e" "tx_sn_length e = sn_length" "protocol_state e = RLC_DATA_TRANSFER_READY_STATE" "pdus_to_mac_layer e = []"
      "queue_ok 2000 (input_sdus e)" "nb_bytes_requested_by_mac e = nb" "input_sdus e = input_sdus e0" "vt_us e = vt_us e0"
      "tx_header_min_length_in_bytes e = hl"
    using inv by (simp_all add: tx_inv_def e_def rlc_um_set_nb_bytes_requested_by_mac_def tx_ok_def)
  have len: "hl \<le> 4" using hl_eq by simp
  show ?thesis
  proof (cases "nb \<le> hl \<or> input_sdus e = [] \<or> alloc (data_pdu_size e) = None")
    case True
    then have "rlc_um_get_pdus alloc e = Some e" using get_pdus [OF i(2,3), of alloc] i(6) by (auto simp: um_segment_def Let_def)
    then obtain bo where "rlc_um_mac_data_request alloc e = Some ([], bo, on_stats (\<lambda>t. t\<lparr>stat_tx_data_pdu := stat_tx_data_pdu t + of_nat 0,
        stat_tx_data_bytes := stat_tx_data_bytes t + of_nat 0\<rparr>) (e\<lparr>pdus_to_mac_layer := []\<rparr>))" (is "_ = Some (_, _, ?e')")
      using i(4) by (simp add: rlc_um_mac_data_request_def Let_def)
    moreover have "tx_inv hl sn_length ?e'" using i by (simp add: tx_inv_def tx_ok_def)
    moreover have "input_sdus ?e' = input_sdus e0" "vt_us ?e' = vt_us e0" using i by simp_all
    ultimately show ?thesis using True [unfolded i(7)] by blast
  next
    case False
    then obtain block where b: "alloc (data_pdu_size e) = Some block" "max 4 (data_pdu_size e) \<le> length block" using al by (auto simp: block_ok_def)
    have nb: "hl < nb_bytes_requested_by_mac e" "nb_bytes_requested_by_mac e < 32768" using False i(6) ev by (simp_all add: event_ok_def)
    have ex: "fx \<or> test_reduce (test_fill (input_sdus e) (test_start (int (data_pdu_size e) - int hl))) = 0"
      using fixed ev i(2,9) by (auto simp: event_ok_def exact_def e_def rlc_um_set_nb_bytes_requested_by_mac_def)
    have ne: "input_sdus e \<noteq> []" using False by simp
    obtain n cs fin q' where s: "0 < n" "n \<le> sum_list (map sdu_remaining_size (input_sdus e))" "pieces n (input_sdus e) = (cs, fin, q')"
        "um_segment hl fx header alloc e = Some (e\<lparr>input_sdus := q', buffer_occupancy := buffer_occupancy e - int n, vt_us := vt_us e + 1,
          pdus_to_mac_layer := pdus_to_mac_layer e @ [umd header (unsegmented e) fin (vt_us e) cs]\<rparr>)"
        "length (umd header (unsegmented e) fin (vt_us e) cs) \<le> nb_bytes_requested_by_mac e" "length cs \<le> length (input_sdus e)"
      using um_segment_ok [of hl e header alloc block fx, OF i(1) ne len header_length nb b ex] by blast
    define pdu where "pdu = umd header (unsegmented e) fin (vt_us e) cs"
    define e1 where "e1 = e\<lparr>input_sdus := q', buffer_occupancy := buffer_occupancy e - int n, vt_us := vt_us e + 1, pdus_to_mac_layer := [pdu]\<rparr>"
    have g: "rlc_um_get_pdus alloc e = Some e1"
      using get_pdus [OF i(2,3), of alloc] nb(1) s(4) i(4) by (simp add: e1_def pdu_def)
    have u: "unsegmented e = (sent_part (input_sdus e0) = [])"
      using ne i(5) unfolding i(7) by (cases "input_sdus e0") (auto simp: unsegmented_def sent_part_def i(7) queue_ok_def sdu_wf_def)
    have pos: "0 < length pdu" using header_length hl_eq by (simp add: pdu_def umd_def)
    note d = pieces_deliver [OF s(3) i(5) s(1,2)]
    let ?e' = "on_stats (\<lambda>t. t\<lparr>stat_tx_data_pdu := stat_tx_data_pdu t + of_nat 1, stat_tx_data_bytes := stat_tx_data_bytes t + of_nat (length pdu)\<rparr>) (e1\<lparr>pdus_to_mac_layer := []\<rparr>)"
    obtain bo where r: "rlc_um_mac_data_request alloc e = Some ([pdu], bo, ?e')"
      using pos by (simp add: rlc_um_mac_data_request_def g Let_def) (simp add: e1_def)
    have bo': "buffer_occupancy e - int n = int (sum_list (map sdu_remaining_size q'))" "length q' \<le> 1000000"
        "(\<forall>s \<in> set q'. sdu_wf s)" "(\<forall>s \<in> set (tl q'). sdu_segmented_size s = 0)" "queue_ok 2000 q'"
      using i(1) d s(2) by (auto simp: tx_ok_def queue_ok_def)
    have "tx_inv hl sn_length ?e'" using bo' i unfolding tx_inv_def tx_ok_def by (simp add: e1_def)
    moreover have "input_sdus ?e' = q'" "vt_us ?e' = vt_us e0 + 1" using i(8) by (simp_all add: e1_def)
    ultimately show ?thesis using r s u i(6,7,8)
      by (intro exI [of _ "[pdu]"] exI [of _ bo] exI [of _ ?e'] conjI disjI2 exI [of _ n] exI [of _ cs] exI [of _ fin]) (simp_all add: pdu_def)
  qed
qed

end

lemma segment_10_eq: "rlc_um_segment_10 alloc e = (if nb_bytes_requested_by_mac e \<le> 2 then Some e else um_segment 2 False header_10 alloc e)"
  by (auto simp: rlc_um_segment_10_def)

lemma segment_5_eq: "rlc_um_segment_5 alloc e = (if nb_bytes_requested_by_mac e \<le> 1 then Some e else um_segment 1 True header_5 alloc e)"
  by (auto simp: rlc_um_segment_5_def)

interpretation tx_5: um_transmitter header_5 1 5 16 True
proof unfold_locales
  fix e :: rlc_um_entity and alloc
  assume "tx_sn_length e = 5" "protocol_state e = RLC_DATA_TRANSFER_READY_STATE"
  then show "rlc_um_get_pdus alloc e = (if nb_bytes_requested_by_mac e \<le> 1 then Some e else um_segment 1 True header_5 alloc e)"
    by (simp add: rlc_um_get_pdus_def segment_5_eq)
qed simp

interpretation tx_10: um_transmitter header_10 2 10 512 False
proof unfold_locales
  fix e :: rlc_um_entity and alloc
  assume "tx_sn_length e = 10" "protocol_state e = RLC_DATA_TRANSFER_READY_STATE"
  then show "rlc_um_get_pdus alloc e = (if nb_bytes_requested_by_mac e \<le> 2 then Some e else um_segment 2 False header_10 alloc e)"
    using um_segment_tx_sn_length [of e 2 False header_10 alloc]
    by (cases "um_segment 2 False header_10 alloc e") (simp_all add: rlc_um_get_pdus_def segment_10_eq)
qed simp

section \<open>Runs of the link\<close>

text \<open>
  The invariant: the receiver is at rest at the number of the next PDU and holds what has been sent of the
  first SDU in the queue, and the SDUs delivered followed by those in the queue are the SDUs submitted.
\<close>

definition link_inv :: "int \<Rightarrow> nat \<Rightarrow> nat \<Rightarrow> octet list list \<Rightarrow> rlc_um_entity \<times> um_state \<Rightarrow> bool" where
  "link_inv W hl sn_length sub s \<longleftrightarrow> tx_inv hl sn_length (fst s) \<and>
     (\<exists>c. rx_inv W sn_length c (sent_part (input_sdus (fst s))) (fst (snd s)) \<and> uint (vt_us (fst s)) mod (2 * W) = c mod (2 * W)) \<and>
     snd (snd s) @ map sdu_data (input_sdus (fst s)) = sub"

definition backlog :: "rlc_um_entity \<times> um_state \<Rightarrow> nat" where
  "backlog s = sum_list (map sdu_remaining_size (input_sdus (fst s)))"

lemma vt_us_next:
  fixes sn :: "16 word"
  assumes "m dvd 65536" "0 < m" "uint sn mod m = c mod m"
  shows "uint (sn + 1) mod m = (c + 1) mod m"
proof -
  have "uint (sn + 1) mod m = (uint sn + 1) mod 65536 mod m" by (simp add: uint_word_ariths)
  also have "\<dots> = (uint sn + 1) mod m" using assms(1) by (rule mod_mod_cancel)
  also have "\<dots> = (c + 1) mod m" using assms(3) by (rule mod_add_cong) simp
  finally show ?thesis .
qed

lemma data_req_ok:
  assumes "tx_inv hl sn_length e" "0 < length sdu" "length sdu \<le> 2000" "length (input_sdus e) < 1000000"
  shows "tx_inv hl sn_length (rlc_um_data_req fr sdu e)" "sent_part (input_sdus (rlc_um_data_req fr sdu e)) = sent_part (input_sdus e)"
    "map sdu_data (input_sdus (rlc_um_data_req fr sdu e)) = map sdu_data (input_sdus e) @ [sdu]" "vt_us (rlc_um_data_req fr sdu e) = vt_us e"
    "backlog (rlc_um_data_req fr sdu e, r) = backlog (e, r) + length sdu"
proof -
  let ?s = "\<lparr>sdu_data = sdu, sdu_creation_time = fr, sdu_remaining_size = length sdu, sdu_segmented_size = 0, sdu_size = length sdu\<rparr>"
  have q: "input_sdus (rlc_um_data_req fr sdu e) = input_sdus e @ [?s]" by (simp add: rlc_um_data_req_def Let_def)
  have "set (tl (input_sdus e @ [?s])) \<subseteq> set (tl (input_sdus e)) \<union> {?s}" by (cases "input_sdus e") auto
  then show "tx_inv hl sn_length (rlc_um_data_req fr sdu e)"
    using assms unfolding tx_inv_def tx_ok_def queue_ok_def q by (auto simp: rlc_um_data_req_def Let_def sdu_wf_def)
  show "sent_part (input_sdus (rlc_um_data_req fr sdu e)) = sent_part (input_sdus e)" unfolding q by (cases "input_sdus e") (simp_all add: sent_part_def)
  show "map sdu_data (input_sdus (rlc_um_data_req fr sdu e)) = map sdu_data (input_sdus e) @ [sdu]" "vt_us (rlc_um_data_req fr sdu e) = vt_us e"
    "backlog (rlc_um_data_req fr sdu e, r) = backlog (e, r) + length sdu"
    by (simp_all add: rlc_um_data_req_def Let_def backlog_def)
qed

lemma submitted_simps [simp]:
  "submitted [] = []" "submitted (Data fr sdu # evs) = sdu # submitted evs" "submitted (Grant now nb # evs) = submitted evs"
  "submitted (evs @ evs') = submitted evs @ submitted evs'"
  by (simp_all add: submitted_def)

context um_transmitter begin

lemma link_step_ok:
  assumes inv: "link_inv W hl sn_length sub s" and ev: "event_ok ev (fst s)" and al: "block_ok talloc" "alloc_ok ralloc" "\<forall>n. ralloc n \<noteq> None"
  shows "\<exists>s'. um_link_step talloc ralloc ev s = Some s' \<and> link_inv W hl sn_length (sub @ submitted [ev]) s' \<and>
    (\<forall>now nb. ev = Grant now nb \<longrightarrow> backlog s' \<le> backlog s) \<and> backlog s' \<le> backlog s + length (concat (submitted [ev])) \<and>
    (\<forall>now nb. ev = Grant now nb \<and> hl < nb \<and> (\<forall>n. talloc n \<noteq> None) \<and> 0 < backlog s \<longrightarrow> backlog s' < backlog s)"
proof -
  obtain tx rx out where s: "s = (tx, rx, out)" by (cases s) auto
  obtain c where i: "tx_inv hl sn_length tx" "rx_inv W sn_length c (sent_part (input_sdus tx)) rx" "uint (vt_us tx) mod (2 * W) = c mod (2 * W)"
      "out @ map sdu_data (input_sdus tx) = sub"
    using inv by (auto simp: link_inv_def s)
  show ?thesis
  proof (cases ev)
    case (Data fr sdu)
    then have d: "0 < length sdu" "length sdu \<le> 2000" "length (input_sdus tx) < 1000000" using ev by (simp_all add: event_ok_def s)
    note r = data_req_ok(1-4) [OF i(1) d, of fr] data_req_ok(5) [OF i(1) d, of fr "(rx, out)"]
    have "link_inv W hl sn_length (sub @ [sdu]) (rlc_um_data_req fr sdu tx, rx, out)"
      using r i unfolding link_inv_def by auto
    then show ?thesis using r(5) by (simp add: Data um_link_step_def s)
  next
    case (Grant now nb)
    have ev': "event_ok (Grant now nb) tx" using ev by (simp add: Grant s)
    let ?e = "rlc_um_set_nb_bytes_requested_by_mac nb tx"
    obtain pdus bo tx' where r: "rlc_um_mac_data_request talloc ?e = Some (pdus, bo, tx')" "tx_inv hl sn_length tx'"
        "pdus = [] \<and> input_sdus tx' = input_sdus tx \<and> vt_us tx' = vt_us tx \<and> (nb \<le> hl \<or> input_sdus tx = [] \<or> talloc (data_pdu_size ?e) = None) \<or>
         (\<exists>n cs fin. 0 < n \<and> n \<le> sum_list (map sdu_remaining_size (input_sdus tx)) \<and> pieces n (input_sdus tx) = (cs, fin, input_sdus tx') \<and>
            pdus = [umd header (sent_part (input_sdus tx) = []) fin (vt_us tx) cs] \<and> length (hd pdus) \<le> nb \<and>
            vt_us tx' = vt_us tx + 1 \<and> length cs \<le> length (input_sdus tx))"
      using request_ok [OF i(1) ev' al(1)] by blast
    show ?thesis
    proof (cases "pdus = []")
      case True
      then have q: "input_sdus tx' = input_sdus tx" "vt_us tx' = vt_us tx" "nb \<le> hl \<or> input_sdus tx = [] \<or> talloc (data_pdu_size ?e) = None" using r(3) by auto
      have sim: "um_sim W rx (at_rest c)" "protocol_state rx = RLC_DATA_TRANSFER_READY_STATE" using i(2) by (simp_all add: rx_inv_def)
      have "rlc_um_mac_data_indication now ralloc [] (rx, out) = Some (rx, out)"
        using sim(2) at_rest_timer [OF sim(1), of now ralloc out] by (simp add: rlc_um_mac_data_indication_def rlc_um_rx_def)
      then have "um_link_step talloc ralloc ev s = Some (tx', rx, out)" using r(1) True by (simp add: um_link_step_def Grant s)
      moreover have "link_inv W hl sn_length sub (tx', rx, out)" using i r(2) q unfolding link_inv_def by auto
      moreover have "nb \<le> hl \<or> backlog s = 0 \<or> \<not> (\<forall>n. talloc n \<noteq> None)" using q(3) by (auto simp: backlog_def s)
      ultimately show ?thesis using q(1) by (auto simp: Grant backlog_def s)
    next
      case False
      then obtain n cs fin where p: "0 < n" "n \<le> sum_list (map sdu_remaining_size (input_sdus tx))" "pieces n (input_sdus tx) = (cs, fin, input_sdus tx')"
          "pdus = [umd header (sent_part (input_sdus tx) = []) fin (vt_us tx) cs]" "vt_us tx' = vt_us tx + 1" "length cs \<le> length (input_sdus tx)"
        using r(3) by blast
      have q: "queue_ok 2000 (input_sdus tx)" "length cs \<le> 129" using i(1) ev' p(6) by (simp_all add: tx_inv_def event_ok_def)
      note d = pieces_deliver [OF p(3) q(1) p(1,2)]
      obtain rx' where rx: "rlc_um_mac_data_indication now ralloc pdus (rx, out) = Some (rx', out @ fst (deliver (sent_part (input_sdus tx)) cs fin))"
          "rx_inv W sn_length (c + 1) (snd (deliver (sent_part (input_sdus tx)) cs fin)) rx'"
        using umd_received [OF i(2) al(2,3) conjunct1 [OF d] q(2) i(3), of now fin out] p(4) by blast
      have "um_link_step talloc ralloc ev s = Some (tx', rx', out @ fst (deliver (sent_part (input_sdus tx)) cs fin))"
        using r(1) rx(1) by (simp add: um_link_step_def Grant s)
      moreover have "uint (vt_us tx') mod (2 * W) = (c + 1) mod (2 * W)" unfolding p(5) by (rule vt_us_next) (use window i(3) in simp_all)
      then have "link_inv W hl sn_length sub (tx', rx', out @ fst (deliver (sent_part (input_sdus tx)) cs fin))"
        using r(2) rx(2) d i(4) unfolding link_inv_def by auto
      moreover have "backlog (tx', rx', out @ fst (deliver (sent_part (input_sdus tx)) cs fin)) < backlog s"
        using d p(1,2) by (simp add: backlog_def s)
      ultimately show ?thesis by (auto simp: Grant)
    qed
  qed
qed

lemma link_run_ok:
  assumes "link_inv W hl sn_length sub s" "events_ok talloc ralloc evs s" "block_ok talloc" "alloc_ok ralloc" "\<forall>n. ralloc n \<noteq> None"
  shows "\<exists>s'. um_link_run talloc ralloc evs s = Some s' \<and> link_inv W hl sn_length (sub @ submitted evs) s' \<and>
    backlog s' \<le> backlog s + length (concat (submitted evs))"
  using assms(1,2)
proof (induction evs arbitrary: s sub)
  case (Cons ev evs)
  obtain s1 where s1: "um_link_step talloc ralloc ev s = Some s1" "link_inv W hl sn_length (sub @ submitted [ev]) s1"
      "backlog s1 \<le> backlog s + length (concat (submitted [ev]))"
    using link_step_ok [OF Cons.prems(1) _ assms(3-5), of ev] Cons.prems(2) by auto
  have split: "submitted (ev # evs) = submitted [ev] @ submitted evs" using submitted_simps(4) [of "[ev]" evs] by simp
  show ?case using Cons.IH [OF s1(2)] Cons.prems(2) s1(1,3) unfolding split by fastforce
qed simp

text \<open>Each grant that has room for an octet takes at least one octet off the queue.\<close>

lemma link_drains:
  assumes "link_inv W hl sn_length sub s" "events_ok talloc ralloc evs s" "block_ok talloc" "alloc_ok ralloc" "\<forall>n. ralloc n \<noteq> None"
    "\<forall>n. talloc n \<noteq> None" "\<forall>ev \<in> set evs. \<exists>now nb. ev = Grant now nb \<and> hl < nb" "backlog s \<le> length evs"
  shows "\<exists>s'. um_link_run talloc ralloc evs s = Some s' \<and> link_inv W hl sn_length sub s' \<and> backlog s' = 0"
  using assms(1,2,7,8)
proof (induction evs arbitrary: s)
  case (Cons ev evs)
  obtain now nb where ev: "ev = Grant now nb" "hl < nb" using Cons.prems(3) by auto
  have ok: "event_ok ev (fst s)" using Cons.prems(2) by simp
  obtain s1 where s1: "um_link_step talloc ralloc ev s = Some s1" "link_inv W hl sn_length sub s1" "backlog s1 \<le> backlog s"
      "0 < backlog s \<Longrightarrow> backlog s1 < backlog s"
    using link_step_ok [OF Cons.prems(1) ok assms(3-5)] ev assms(6) by auto
  have "backlog s1 \<le> length evs" using s1(3,4) Cons.prems(4) by (cases "backlog s = 0") auto
  then show ?case using Cons.IH [OF s1(2)] Cons.prems(2,3) s1(1) by simp
qed simp

end

text \<open>Two entities as configured.\<close>

lemma config_link_inv:
  fixes tr tr' :: "32 word"
  assumes "sn = 5 \<or> sn = 10"
  shows "link_inv (um_window sn) (if sn = 10 then 2 else 1) sn []
    (snd (config_req_rlc_um zero_um srb tr sn 0 rb ch), snd (config_req_rlc_um zero_um srb' tr' sn 0 rb' ch'), [])"
proof -
  let ?tx = "snd (config_req_rlc_um zero_um srb tr sn 0 rb ch)" and ?rx = "snd (config_req_rlc_um zero_um srb' tr' sn 0 rb' ch')"
  note rx = config_sim [OF assms, of srb' tr' rb' ch'] and tx = config_sim [OF assms, of srb tr rb ch]
  have f: "input_sdus ?tx = []" "buffer_occupancy ?tx = 0" "vt_us ?tx = 0" "pdus_to_mac_layer ?tx = []" "output_sdu_size_to_write ?rx = 0"
      "tx_sn_length ?tx = sn" "tx_header_min_length_in_bytes ?tx = (if sn = 10 then 2 else 1)"
    using assms by (auto simp: config_req_rlc_um_def rlc_um_init_def zero_um_def rlc_um_fsm_notify_event_def um_events Let_def
        rlc_um_configure_def rlc_um_reset_state_variables_def rlc_um_init_timer_reordering_def rlc_um_set_debug_infos_def)
  have "at_rest 0 = um_start" by (simp add: at_rest_def um_start_def)
  then have "rx_inv (um_window sn) sn 0 [] ?rx" using rx f(5) by (simp add: rx_inv_def holds_def)
  moreover have "tx_inv (if sn = 10 then 2 else 1) sn ?tx" using f tx(5) by (simp add: tx_inv_def tx_ok_def queue_ok_def)
  ultimately show ?thesis using f(1,3) unfolding link_inv_def by (auto simp: sent_part_def intro!: exI [of _ 0])
qed

section \<open>Theorems\<close>

lemma link_inv_run:
  fixes tr tr' :: "32 word"
  assumes "sn = 5 \<or> sn = 10" "block_ok talloc" "alloc_ok ralloc" "\<forall>n. ralloc n \<noteq> None"
    "events_ok talloc ralloc evs (snd (config_req_rlc_um zero_um srb tr sn 0 rb ch), snd (config_req_rlc_um zero_um srb' tr' sn 0 rb' ch'), [])"
  shows "\<exists>s'. um_link_run talloc ralloc evs (snd (config_req_rlc_um zero_um srb tr sn 0 rb ch), snd (config_req_rlc_um zero_um srb' tr' sn 0 rb' ch'), []) = Some s' \<and>
    link_inv (um_window sn) (if sn = 10 then 2 else 1) sn (submitted evs) s' \<and> backlog s' \<le> length (concat (submitted evs))"
proof -
  let ?s = "(snd (config_req_rlc_um zero_um srb tr sn 0 rb ch), snd (config_req_rlc_um zero_um srb' tr' sn 0 rb' ch'), [])"
  note inv = config_link_inv [OF assms(1), of srb tr rb ch srb' tr' rb' ch']
  have b: "backlog ?s = 0" using inv by (simp add: link_inv_def backlog_def)
  from assms(1) show ?thesis
  proof
    assume sn: "sn = 5"
    then have "link_inv 16 1 5 [] ?s" using inv by (simp add: um_window_def)
    from tx_5.link_run_ok [OF this _ assms(2-4), of evs] assms(5) b sn show ?thesis by (simp add: um_window_def)
  next
    assume sn: "sn = 10"
    then have "link_inv 512 2 10 [] ?s" using inv by (simp add: um_window_def)
    from tx_10.link_run_ok [OF this _ assms(2-4), of evs] assms(5) b sn show ?thesis by (simp add: um_window_def)
  qed
qed

text \<open>
  C1. Two UM entities as \<open>config_req_rlc_um\<close> leaves them, SDUs of 1 to 2000 octets submitted with \<open>rlc_um_data_req\<close> and
  grants of less than 32768 octets between them, which find at most 129 SDUs queued and, with 10-bit sequence numbers, do not end one or
  two octets behind an SDU that others follow; the PDUs of each grant are given to \<open>rlc_um_mac_data_indication\<close> of the other entity.
  Nothing faults, and the SDUs delivered followed by the SDUs still queued are after the run the SDUs
  submitted, in order, without loss, duplication or change. The allocator of the transmitter may fail at any time.
\<close>

theorem um_link_in_order:
  fixes tr tr' :: "32 word"
  assumes "sn = 5 \<or> sn = 10" "block_ok talloc" "alloc_ok ralloc" "\<forall>n. ralloc n \<noteq> None"
    "events_ok talloc ralloc evs (snd (config_req_rlc_um zero_um srb tr sn 0 rb ch), snd (config_req_rlc_um zero_um srb' tr' sn 0 rb' ch'), [])"
  shows "\<exists>tx rx out. um_link_run talloc ralloc evs
      (snd (config_req_rlc_um zero_um srb tr sn 0 rb ch), snd (config_req_rlc_um zero_um srb' tr' sn 0 rb' ch'), []) = Some (tx, rx, out) \<and>
    out @ map sdu_data (input_sdus tx) = submitted evs"
proof -
  obtain s' where "um_link_run talloc ralloc evs
      (snd (config_req_rlc_um zero_um srb tr sn 0 rb ch), snd (config_req_rlc_um zero_um srb' tr' sn 0 rb' ch'), []) = Some s'"
      "link_inv (um_window sn) (if sn = 10 then 2 else 1) sn (submitted evs) s'"
    using link_inv_run [OF assms] by blast
  then show ?thesis by (cases s') (auto simp: link_inv_def)
qed

text \<open>With 5-bit numbers the conditions on a run hold when at most 129 SDUs are submitted.\<close>

definition event_small :: "um_event \<Rightarrow> bool" where
  "event_small ev = (case ev of Data fr sdu \<Rightarrow> 0 < length sdu \<and> length sdu \<le> 2000 | Grant now nb \<Rightarrow> nb < 32768)"

lemma small_events_ok:
  assumes "link_inv 16 1 5 sub s" "length (sub @ submitted evs) \<le> 129" "\<forall>ev \<in> set evs. event_small ev"
    and al: "block_ok talloc" "alloc_ok ralloc" "\<forall>n. ralloc n \<noteq> None"
  shows "events_ok talloc ralloc evs s"
  using assms(1-3)
proof (induction evs arbitrary: s sub)
  case (Cons ev evs)
  have sub: "submitted (ev # evs) = submitted [ev] @ submitted evs" using submitted_simps(4) [of "[ev]" evs] by simp
  have "snd (snd s) @ map sdu_data (input_sdus (fst s)) = sub" "tx_sn_length (fst s) = 5" using Cons.prems(1) by (simp_all add: link_inv_def tx_inv_def)
  then have "length (input_sdus (fst s)) \<le> length sub" "tx_sn_length (fst s) = 5" by auto
  then have ok: "event_ok ev (fst s)" using Cons.prems(2,3) by (cases ev) (auto simp: event_ok_def event_small_def)
  obtain s1 where s1: "um_link_step talloc ralloc ev s = Some s1" "link_inv 16 1 5 (sub @ submitted [ev]) s1"
    using tx_5.link_step_ok [OF Cons.prems(1) ok al] by blast
  have "events_ok talloc ralloc evs s1" by (rule Cons.IH [OF s1(2)]) (use Cons.prems(2,3) sub in simp_all)
  then show ?case using ok s1(1) by simp
qed simp

text \<open>With 10-bit numbers they hold when no two SDUs wait at a time.\<close>

lemma exact_one:
  assumes "tx_ok hl e" "hl \<le> 4" "length (input_sdus e) \<le> 1"
  shows "exact e"
proof (cases "input_sdus e")
  case Nil
  then show ?thesis by (simp add: exact_def test_start_def)
next
  case (Cons s ss)
  then have q: "input_sdus e = [s]" using assms(3) by simp
  then have "data_pdu_size e \<le> sdu_remaining_size s + hl" using data_pdu_size_eq [OF assms(1) _ assms(2)] by simp
  moreover have "tx_header_min_length_in_bytes e = hl" using assms(1) by (simp add: tx_ok_def)
  ultimately show ?thesis by (simp add: exact_def q test_start_def test_stop_def Let_def)
qed

lemma single_events_ok:
  assumes "link_inv 512 2 10 sub s" "length (sub @ submitted evs) \<le> 1" "\<forall>ev \<in> set evs. event_small ev"
    and al: "block_ok talloc" "alloc_ok ralloc" "\<forall>n. ralloc n \<noteq> None"
  shows "events_ok talloc ralloc evs s"
  using assms(1-3)
proof (induction evs arbitrary: s sub)
  case (Cons ev evs)
  have sub: "submitted (ev # evs) = submitted [ev] @ submitted evs" using submitted_simps(4) [of "[ev]" evs] by simp
  have inv: "snd (snd s) @ map sdu_data (input_sdus (fst s)) = sub" "tx_ok 2 (fst s)" using Cons.prems(1) by (simp_all add: link_inv_def tx_inv_def)
  then have q: "length (input_sdus (fst s)) \<le> length sub" by auto
  have ok: "event_ok ev (fst s)"
  proof (cases ev)
    case (Grant now nb)
    have "tx_ok 2 (rlc_um_set_nb_bytes_requested_by_mac nb (fst s))"
      using inv(2) by (simp add: tx_ok_def rlc_um_set_nb_bytes_requested_by_mac_def)
    then have "exact (rlc_um_set_nb_bytes_requested_by_mac nb (fst s))"
      by (rule exact_one) (use q Cons.prems(2) in \<open>simp_all add: rlc_um_set_nb_bytes_requested_by_mac_def\<close>)
    then show ?thesis using q Cons.prems(2,3) by (simp add: Grant event_ok_def event_small_def)
  qed (use q Cons.prems(2,3) in \<open>simp add: event_ok_def event_small_def\<close>)
  obtain s1 where s1: "um_link_step talloc ralloc ev s = Some s1" "link_inv 512 2 10 (sub @ submitted [ev]) s1"
    using tx_10.link_step_ok [OF Cons.prems(1) ok al] by blast
  have "events_ok talloc ralloc evs s1" by (rule Cons.IH [OF s1(2)]) (use Cons.prems(2,3) sub in simp_all)
  then show ?case using ok s1(1) by simp
qed simp

definition um_blocks :: allocator where
  "um_blocks n = Some (replicate (max 4 n) 0xFF)"

lemma um_example_ok:
  assumes "length (submitted evs) \<le> 129" "\<forall>ev \<in> set evs. event_small ev"
  shows "events_ok um_blocks um_alloc evs (um_example, um_example, [])" "block_ok um_blocks" "alloc_ok um_alloc" "\<forall>n. um_alloc n \<noteq> None"
    "\<forall>n. um_blocks n \<noteq> None"
proof -
  show al: "block_ok um_blocks" "alloc_ok um_alloc" "\<forall>n. um_alloc n \<noteq> None" "\<forall>n. um_blocks n \<noteq> None"
    by (simp_all add: block_ok_def um_blocks_def um_example_facts um_alloc_def)
  have "link_inv 16 1 5 [] (um_example, um_example, [])" using config_link_inv [of 5 True 35 3 3 True 35 3 3] by (simp add: um_window_def um_example_def)
  then show "events_ok um_blocks um_alloc evs (um_example, um_example, [])" by (rule small_events_ok) (use assms al in simp_all)
qed

definition um_example_10 :: rlc_um_entity where
  "um_example_10 = snd (config_req_rlc_um zero_um True 35 10 0 3 3)"

lemma um_example_10_ok:
  assumes "length (submitted evs) \<le> 1" "\<forall>ev \<in> set evs. event_small ev"
  shows "events_ok um_blocks um_alloc evs (um_example_10, um_example_10, [])"
proof -
  have "link_inv 512 2 10 [] (um_example_10, um_example_10, [])"
    using config_link_inv [of 10 True 35 3 3 True 35 3 3] by (simp add: um_window_def um_example_10_def)
  then show ?thesis by (rule single_events_ok) (use assms um_example_ok(2-4) [of "[]"] in simp_all)
qed

theorem um_link_in_order_witness:
  "(\<exists>tx rx out. um_link_run um_blocks um_alloc [Data 0 [1, 2, 3], Grant 1 3, Data 0 [4, 5], Grant 2 4] (um_example, um_example, []) = Some (tx, rx, out) \<and>
    out @ map sdu_data (input_sdus tx) = [[1, 2, 3], [4, 5]]) \<and>
   (\<exists>tx rx out. um_link_run um_blocks um_alloc [Data 0 [1, 2, 3], Grant 1 4, Grant 2 3] (um_example_10, um_example_10, []) = Some (tx, rx, out) \<and>
    out @ map sdu_data (input_sdus tx) = [[1, 2, 3]])"
  using um_link_in_order [of 10 um_blocks um_alloc "[Data 0 [1, 2, 3], Grant 1 4, Grant 2 3]" True 35 3 3 True 35 3 3]
    um_example_10_ok [of "[Data 0 [1, 2, 3], Grant 1 4, Grant 2 3]"]
    um_link_in_order [of 5 um_blocks um_alloc "[Data 0 [1, 2, 3], Grant 1 3, Data 0 [4, 5], Grant 2 4]" True 35 3 3 True 35 3 3]
    um_example_ok [of "[Data 0 [1, 2, 3], Grant 1 3, Data 0 [4, 5], Grant 2 4]"]
  by (simp add: um_example_def um_example_10_def event_small_def)

text \<open>
  C10. The link makes progress: after a run under the conditions of the property before, as many grants with room for a header and an
  octet as octets were submitted, under the same conditions (at most 129 SDUs queued, and with 10-bit numbers none that ends one or two octets behind
  an SDU that others follow) and with an allocator that does not fail, and every SDU submitted has been delivered.
\<close>

theorem um_link_drains:
  fixes tr tr' :: "32 word"
  assumes "sn = 5 \<or> sn = 10" "block_ok talloc" "\<forall>n. talloc n \<noteq> None" "alloc_ok ralloc" "\<forall>n. ralloc n \<noteq> None"
    "\<forall>ev \<in> set grants. \<exists>now nb. ev = Grant now nb \<and> (if sn = 10 then 2 else 1) < nb" "length (concat (submitted evs)) \<le> length grants"
    "events_ok talloc ralloc (evs @ grants) (snd (config_req_rlc_um zero_um srb tr sn 0 rb ch), snd (config_req_rlc_um zero_um srb' tr' sn 0 rb' ch'), [])"
  shows "\<exists>tx rx. um_link_run talloc ralloc (evs @ grants)
      (snd (config_req_rlc_um zero_um srb tr sn 0 rb ch), snd (config_req_rlc_um zero_um srb' tr' sn 0 rb' ch'), []) = Some (tx, rx, submitted evs)"
proof -
  let ?s = "(snd (config_req_rlc_um zero_um srb tr sn 0 rb ch), snd (config_req_rlc_um zero_um srb' tr' sn 0 rb' ch'), [])"
  have split: "events_ok talloc ralloc (evs1 @ evs2) s \<longleftrightarrow> events_ok talloc ralloc evs1 s \<and>
      (case um_link_run talloc ralloc evs1 s of None \<Rightarrow> True | Some s' \<Rightarrow> events_ok talloc ralloc evs2 s')"
    "um_link_run talloc ralloc (evs1 @ evs2) s = Option.bind (um_link_run talloc ralloc evs1 s) (um_link_run talloc ralloc evs2)" for evs1 evs2 s
  proof (induction evs1 arbitrary: s)
    case (Cons ev evs1)
    { case 1 then show ?case using Cons by (cases "um_link_step talloc ralloc ev s") auto }
    { case 2 then show ?case using Cons by (cases "um_link_step talloc ralloc ev s") auto }
  qed simp_all
  have "events_ok talloc ralloc evs ?s" using assms(8) unfolding split by blast
  then obtain s1 where s1: "um_link_run talloc ralloc evs ?s = Some s1" "backlog s1 \<le> length grants"
      "link_inv (um_window sn) (if sn = 10 then 2 else 1) sn (submitted evs) s1"
    using link_inv_run [OF assms(1,2,4,5), of evs srb tr rb ch srb' tr' rb' ch'] assms(7) by fastforce
  have ok: "events_ok talloc ralloc grants s1" using assms(8) unfolding split s1(1) by simp
  have "\<exists>s2. um_link_run talloc ralloc grants s1 = Some s2 \<and> link_inv (um_window sn) (if sn = 10 then 2 else 1) sn (submitted evs) s2 \<and> backlog s2 = 0"
    using assms(1)
  proof
    assume sn: "sn = 5"
    show ?thesis using tx_5.link_drains [OF _ ok assms(2,4,5,3), of "submitted evs"] s1(2,3) assms(6) by (simp add: sn um_window_def)
  next
    assume sn: "sn = 10"
    show ?thesis using tx_10.link_drains [OF _ ok assms(2,4,5,3), of "submitted evs"] s1(2,3) assms(6) by (simp add: sn um_window_def)
  qed
  then obtain s2 where s2: "um_link_run talloc ralloc grants s1 = Some s2" "link_inv (um_window sn) (if sn = 10 then 2 else 1) sn (submitted evs) s2" "backlog s2 = 0"
    by blast
  obtain tx rx out where t: "s2 = (tx, rx, out)" by (cases s2) auto
  have "input_sdus tx = []"
    using s2(2,3) by (cases "input_sdus tx") (auto simp: t backlog_def link_inv_def tx_inv_def queue_ok_def sdu_wf_def)
  then show ?thesis using s2(1,2) s1(1) unfolding split t by (simp add: link_inv_def)
qed

theorem um_link_drains_witness:
  "(\<exists>tx rx. um_link_run um_blocks um_alloc [Data 0 [1, 2, 3], Data 0 [4, 5], Grant 1 3, Grant 2 4, Grant 3 2, Grant 4 2, Grant 5 2] (um_example, um_example, []) =
    Some (tx, rx, [[1, 2, 3], [4, 5]])) \<and>
   (\<exists>tx rx. um_link_run um_blocks um_alloc [Data 0 [1, 2, 3], Grant 1 4, Grant 2 3, Grant 3 3] (um_example_10, um_example_10, []) =
    Some (tx, rx, [[1, 2, 3]]))"
  using um_link_drains [of 10 um_blocks um_alloc "[Grant 1 4, Grant 2 3, Grant 3 3]" "[Data 0 [1, 2, 3]]" True 35 3 3 True 35 3 3]
    um_example_10_ok [of "[Data 0 [1, 2, 3], Grant 1 4, Grant 2 3, Grant 3 3]"] um_link_drains [of 5 um_blocks um_alloc "[Grant 1 3, Grant 2 4, Grant 3 2, Grant 4 2, Grant 5 2]" "[Data 0 [1, 2, 3], Data 0 [4, 5]]" True 35 3 3 True 35 3 3]
    um_example_ok [of "[Data 0 [1, 2, 3], Data 0 [4, 5], Grant 1 3, Grant 2 4, Grant 3 2, Grant 4 2, Grant 5 2]"]
  by (simp add: um_example_def um_example_10_def event_small_def)

text \<open>
  C23. A request of the MAC gives at most one PDU, never longer than the grant, and never an empty one; if the grant has
  room for an octet, SDUs wait and a block is available, it gives one. The grant is less than 32768 octets and finds at most 129 SDUs; with
  10-bit numbers it does not end one or two octets behind an SDU that others follow.
\<close>

theorem um_request_within_grant:
  assumes "sn = 5 \<or> sn = 10" "tx_inv (if sn = 10 then 2 else 1) sn e" "event_ok (Grant now nb) e" "block_ok talloc"
  shows "\<exists>pdus bo e'. rlc_um_mac_data_request talloc (rlc_um_set_nb_bytes_requested_by_mac nb e) = Some (pdus, bo, e') \<and>
    tx_inv (if sn = 10 then 2 else 1) sn e' \<and> length pdus \<le> 1 \<and> (\<forall>pdu \<in> set pdus. length pdu \<le> nb) \<and>
    (pdus = [] \<longrightarrow> nb \<le> (if sn = 10 then 2 else 1) \<or> input_sdus e = [] \<or> talloc (data_pdu_size (rlc_um_set_nb_bytes_requested_by_mac nb e)) = None)"
proof -
  have "\<exists>pdus bo e'. rlc_um_mac_data_request talloc (rlc_um_set_nb_bytes_requested_by_mac nb e) = Some (pdus, bo, e') \<and>
    tx_inv (if sn = 10 then 2 else 1) sn e' \<and>
    (pdus = [] \<and> (nb \<le> (if sn = 10 then 2 else 1) \<or> input_sdus e = [] \<or> talloc (data_pdu_size (rlc_um_set_nb_bytes_requested_by_mac nb e)) = None) \<or>
     (\<exists>pdu. pdus = [pdu] \<and> length pdu \<le> nb))"
    using assms tx_5.request_ok [OF _ assms(3,4)] tx_10.request_ok [OF _ assms(3,4)] by fastforce
  then show ?thesis by fastforce
qed

lemma um_example_tx: "tx_inv 1 5 um_example" "vt_us um_example = 0" "input_sdus um_example = []"
proof -
  show t: "tx_inv 1 5 um_example" using config_link_inv [of 5 True 35 3 3 True 35 3 3] by (simp add: um_window_def um_example_def link_inv_def)
  show "vt_us um_example = 0" "input_sdus um_example = []"
    by (simp_all add: um_example_def config_req_rlc_um_def rlc_um_init_def zero_um_def rlc_um_fsm_notify_event_def um_events Let_def
        rlc_um_configure_def rlc_um_reset_state_variables_def rlc_um_init_timer_reordering_def rlc_um_set_debug_infos_def)
qed

theorem um_request_within_grant_witness:
  "\<exists>pdus bo e'. rlc_um_mac_data_request um_blocks (rlc_um_set_nb_bytes_requested_by_mac 3 (rlc_um_data_req 0 [1, 2, 3] um_example)) = Some (pdus, bo, e') \<and>
    length pdus = 1 \<and> (\<forall>pdu \<in> set pdus. length pdu \<le> 3)"
proof -
  let ?e = "rlc_um_data_req 0 [1, 2, 3] um_example"
  have q: "length (input_sdus um_example) < 1000000" "\<exists>s. input_sdus ?e = [s]" by (simp_all add: um_example_tx rlc_um_data_req_def Let_def)
  have inv: "tx_inv 1 5 ?e" by (rule data_req_ok(1) [OF um_example_tx(1) _ _ q(1)]) simp_all
  have "tx_sn_length ?e = 5" using inv by (simp add: tx_inv_def)
  then have ev: "event_ok (Grant 1 3) ?e" using q(2) by (auto simp: event_ok_def)
  have al: "block_ok um_blocks" "um_blocks n \<noteq> None" for n by (simp_all add: block_ok_def um_blocks_def)
  have sn: "(5::nat) = 5 \<or> (5::nat) = 10" "tx_inv (if (5::nat) = 10 then 2 else 1) 5 ?e" using inv by simp_all
  obtain pdus bo e' where r: "rlc_um_mac_data_request um_blocks (rlc_um_set_nb_bytes_requested_by_mac 3 ?e) = Some (pdus, bo, e')"
      "length pdus \<le> 1" "\<forall>pdu \<in> set pdus. length pdu \<le> 3"
      "pdus = [] \<longrightarrow> 3 \<le> (if (5::nat) = 10 then 2 else (1::nat)) \<or> input_sdus ?e = [] \<or> um_blocks (data_pdu_size (rlc_um_set_nb_bytes_requested_by_mac 3 ?e)) = None"
    using um_request_within_grant [OF sn ev al(1)] by blast
  have "pdus \<noteq> []" using r(4) al(2) q(2) by auto
  then have "length pdus = 1" using r(2) by (cases pdus) auto
  then show ?thesis using r(1,3) by blast
qed

text \<open>
  C35. \<open>rlc_um_segment_10\<close>: when the grant leaves one or two octets behind the end of the first SDU, too few for a length
  indicator and another octet, the loop that reduces \<open>pdu_remaining_size\<close> does not reduce \<open>data_pdu_size\<close>: the PDU
  ends with that many octets of the block as the allocator gave it, marked as data of the SDU.
\<close>

theorem um_segment_10_sends_stale_octets:
  assumes "tx_inv 2 10 e" "input_sdus e = s # s' # ss" "k = 1 \<or> k = 2" "nb = 2 + sdu_remaining_size s + k" "2 \<le> sdu_remaining_size s"
    and "alloc nb = Some block" "nb \<le> length block" "nb < 32768"
  shows "\<exists>bo e'. rlc_um_mac_data_request alloc (rlc_um_set_nb_bytes_requested_by_mac nb e) =
      Some ([header_10 (fi_of (sdu_segmented_size s = 0) True) False (vt_us e) @ rest_of s @ take k (drop (2 + sdu_remaining_size s) block)], bo, e') \<and>
    input_sdus e' = s' # ss"
proof -
  let ?a = "sdu_remaining_size s"
  define e0 where "e0 = rlc_um_set_nb_bytes_requested_by_mac nb e"
  have i: "tx_ok 2 e0" "tx_sn_length e0 = 10" "protocol_state e0 = RLC_DATA_TRANSFER_READY_STATE" "pdus_to_mac_layer e0 = []"
      "nb_bytes_requested_by_mac e0 = nb" "input_sdus e0 = s # s' # ss" "vt_us e0 = vt_us e"
    using assms(1,2) by (simp_all add: tx_inv_def e0_def rlc_um_set_nb_bytes_requested_by_mac_def tx_ok_def)
  have wf: "sdu_wf s" "sdu_wf s'" using i(1,6) by (simp_all add: tx_ok_def)
  have ne: "input_sdus e0 \<noteq> []" "(2::nat) \<le> 4" using i(6) by simp_all
  have "?a + 2 + sdu_remaining_size s' \<le> needed 1 (input_sdus e0)"
    using needed_eq [OF ne(1), of 1] unfolding i(6) by (simp add: li_bytes_1 [unfolded One_nat_def])
  then have size: "data_pdu_size e0 = nb" using data_pdu_size_eq [OF i(1) ne] wf(2) assms(3,4) i(5) by (auto simp: sdu_wf_def)
  define t where "t = test_fill (input_sdus e0) (test_start (int (data_pdu_size e0) - int 2))"
  have t: "t = test_stop k (test_start (int (data_pdu_size e0) - int 2))"
    using assms(3) unfolding t_def size assms(4) i(6) by (auto simp: test_start_def Let_def)
  have k: "test_num_li t = 0" "test_remaining_num_li_to_substract t = 0" "test_reduce t = k" unfolding t by (simp_all add: test_stop_def test_start_def)
  have r: "int (data_pdu_size e0) - int 2 - int (test_reduce t) = int ?a" "data_pdu_size e0 - 2 - test_reduce t - li_bytes 1 0 = ?a"
    unfolding k(3) size using assms(4) by simp_all
  have f: "fits 1 (int (data_pdu_size e0) - int 2 - int (test_reduce t)) (input_sdus e0) 0" unfolding r i(6) using assms(5) by simp
  have ps: "pieces ?a (input_sdus e0) = ([rest_of s], True, s' # ss)" unfolding i(6) by simp
  have al: "alloc (data_pdu_size e0) = Some block" "max 4 (data_pdu_size e0) \<le> length block" "data_pdu_size e0 < 32768"
    using assms(4-8) size by simp_all
  have hd: "length (header_10 fi ext sn) = 2" for fi ext sn by (simp add: header_10_def)
  let ?pdu = "umd header_10 (unsegmented e0) True (vt_us e0) [rest_of s]"
  have u: "unsegmented e0 = (sdu_segmented_size s = 0)" using wf(1) by (auto simp: unsegmented_def i(6) sdu_wf_def)
  have pdu: "?pdu = header_10 (fi_of (sdu_segmented_size s = 0) True) False (vt_us e) @ rest_of s" unfolding u i(7) by (simp add: umd_def)
  have lp: "length ?pdu = 2 + ?a" unfolding pdu using hd rest_of_wf [OF wf(1)] by simp
  have "4 \<le> 2 + ?a" using assms(5) by simp
  then have dr: "drop (2 + ?a) (replicate 4 0 @ drop 4 block) = drop (2 + ?a) block" by (simp add: drop_drop)
  define out where "out = ?pdu @ take k (drop (2 + ?a) block)"
  define e1 where "e1 = e0\<lparr>input_sdus := s' # ss, buffer_occupancy := buffer_occupancy e0 - int ?a, vt_us := vt_us e0 + 1, pdus_to_mac_layer := [out]\<rparr>"
  have "um_segment 2 False header_10 alloc e0 = Some e1"
    using um_segment_fits [where header = header_10 and fx = False and alloc = alloc, OF i(1) ne hd al(3,1,2)
        k(1,2) [unfolded t_def] f [unfolded t_def] r(2) [unfolded t_def, symmetric] ps, folded t_def] i(4)
    unfolding lp dr k(3) by (simp add: e1_def out_def)
  then have g: "rlc_um_get_pdus alloc e0 = Some e1" using tx_10.get_pdus [OF i(2,3), of alloc] i(5) assms(4,5) by simp
  have "0 < length out" using lp by (simp add: out_def)
  then have "\<exists>bo e'. rlc_um_mac_data_request alloc e0 = Some ([out], bo, e') \<and> input_sdus e' = s' # ss"
    unfolding rlc_um_mac_data_request_def g by (simp add: e1_def Let_def)
  moreover have "out = header_10 (fi_of (sdu_segmented_size s = 0) True) False (vt_us e) @ rest_of s @ take k (drop (2 + ?a) block)"
    unfolding out_def pdu by simp
  ultimately show ?thesis unfolding e0_def by simp
qed

theorem um_segment_10_sends_stale_octets_witness:
  "\<exists>bo e'. rlc_um_mac_data_request um_blocks (rlc_um_set_nb_bytes_requested_by_mac 5
      (rlc_um_data_req 0 [3] (rlc_um_data_req 0 [1, 2] (snd (config_req_rlc_um zero_um True 35 10 0 3 3))))) = Some ([[0, 0, 1, 2, 0xFF]], bo, e')"
proof -
  let ?e0 = "snd (config_req_rlc_um zero_um True 35 10 0 3 3)"
  have t: "tx_inv 2 10 ?e0" using config_link_inv [of 10 True 35 3 3 True 35 3 3] by (simp add: um_window_def link_inv_def)
  have q: "input_sdus ?e0 = []" "vt_us ?e0 = 0"
    by (simp_all add: config_req_rlc_um_def rlc_um_init_def zero_um_def rlc_um_fsm_notify_event_def um_events Let_def
        rlc_um_configure_def rlc_um_reset_state_variables_def rlc_um_init_timer_reordering_def rlc_um_set_debug_infos_def)
  let ?e1 = "rlc_um_data_req 0 [1, 2] ?e0" and ?s = "\<lambda>d. \<lparr>sdu_data = d, sdu_creation_time = 0, sdu_remaining_size = length d, sdu_segmented_size = 0, sdu_size = length d\<rparr>"
  let ?e2 = "rlc_um_data_req 0 [3] ?e1"
  have q1: "input_sdus ?e1 = [?s [1, 2]]" "input_sdus ?e2 = ?s [1, 2] # ?s [3] # []" "vt_us ?e2 = 0" using q by (simp_all add: rlc_um_data_req_def Let_def)
  have "tx_inv 2 10 ?e1" by (rule data_req_ok(1) [OF t]) (simp_all add: q)
  then have t2: "tx_inv 2 10 ?e2" by (rule data_req_ok(1)) (simp_all add: q1)
  have al: "um_blocks 5 = Some (replicate 5 0xFF)" by (simp add: um_blocks_def)
  show ?thesis using um_segment_10_sends_stale_octets [OF t2 q1(2), of 1 5 um_blocks, OF _ _ _ al]
    by (auto simp: q1(3) header_10_def)
qed

end
