(* ===== verification/RlcAm.thy ===== *)
theory RlcAm
  imports Prelude
begin

text \<open>
  The RLC acknowledged mode entity, its receiving side: \<open>rlc_am_constants.h\<close>, \<open>rlc_am_structs.h\<close>, \<open>rlc_am_entity.h\<close>, its initialisation (\<open>rlc_am_init.c\<close>) and the
  timers of \<open>rlc_am_timer_reordering.c\<close> and \<open>rlc_am_timer_status_prohibit.c\<close>. The receiver buffer is the list of its elements. Sequence numbers
  (\<open>rlc_usn_t\<close>) and offsets are integers; \<open>sn_status_triggered_delayed\<close> is of the signed type \<open>rlc_sn_t\<close>. Statistics of the receiving side are left out.
\<close>

section \<open>Sequence numbers (rlc_am_constants.h)\<close>

definition RLC_AM_SN_MODULO :: int where "RLC_AM_SN_MODULO = 1024"
definition RLC_AM_WINDOW_SIZE :: int where "RLC_AM_WINDOW_SIZE = 512"
definition RLC_AM_MAX_SDU_IN_PDU :: nat where "RLC_AM_MAX_SDU_IN_PDU = 128"
definition RLC_AM_MAX_NACK_IN_STATUS_PDU :: nat where "RLC_AM_MAX_NACK_IN_STATUS_PDU = 1023"
definition RLC_AM_STATUS_PDU_SO_END_ALL_BYTES :: int where "RLC_AM_STATUS_PDU_SO_END_ALL_BYTES = 0x7FFF"
definition RLC_AM_PDU_SEGMENT_HEADER_MIN_SIZE :: int where "RLC_AM_PDU_SEGMENT_HEADER_MIN_SIZE = 4"
definition RLC_SN_UNDEFINED :: int where "RLC_SN_UNDEFINED = 0xFFFF"
definition RLC_SDU_MAX_SIZE :: nat where "RLC_SDU_MAX_SIZE = 9000"

text \<open>The masks with 1023 are remainders.\<close>

definition RLC_AM_NEXT_SN :: "int \<Rightarrow> int" where
  "RLC_AM_NEXT_SN sn = (sn + 1) mod RLC_AM_SN_MODULO"

definition RLC_AM_DIFF_SN :: "int \<Rightarrow> int \<Rightarrow> int" where
  "RLC_AM_DIFF_SN sn snref = (sn + RLC_AM_SN_MODULO - snref) mod RLC_AM_SN_MODULO"

definition RLC_AM_SN_IN_WINDOW :: "int \<Rightarrow> int \<Rightarrow> bool" where
  "RLC_AM_SN_IN_WINDOW sn snref \<longleftrightarrow> RLC_AM_DIFF_SN sn snref < RLC_AM_SN_MODULO div 2"

lemmas am_sn_defs = RLC_AM_NEXT_SN_def RLC_AM_DIFF_SN_def RLC_AM_SN_IN_WINDOW_def RLC_AM_SN_MODULO_def

text \<open>The triggers of a STATUS PDU.\<close>

definition RLC_AM_STATUS_TRIGGERED_POLL :: octet where "RLC_AM_STATUS_TRIGGERED_POLL = 0x01"
definition RLC_AM_STATUS_TRIGGERED_T_REORDERING :: octet where "RLC_AM_STATUS_TRIGGERED_T_REORDERING = 0x02"
definition RLC_AM_STATUS_TRIGGERED_DELAYED :: octet where "RLC_AM_STATUS_TRIGGERED_DELAYED = 0x10"
definition RLC_AM_STATUS_PROHIBIT :: octet where "RLC_AM_STATUS_PROHIBIT = 0x20"

section \<open>Data (rlc_am_structs.h, rlc_am_entity.h)\<close>

datatype rlc_am_rx_segment_reassemble_info = RLC_AM_RX_PDU_SEGMENT_REASSEMBLE_NO | RLC_AM_RX_PDU_SEGMENT_REASSEMBLE_PENDING |
  RLC_AM_RX_PDU_SEGMENT_REASSEMBLED

text \<open>
  An element of the receiver buffer, \<open>rlc_am_rx_pdu_management_t\<close> with its \<open>rlc_am_pdu_info_t\<close>. The payload is what the block holds from
  \<open>payload\<close> on; \<open>num_li\<close> is the length of \<open>li_list\<close>. \<open>d_c\<close> is 1.
\<close>

record rlc_am_rx_pdu =
  rx_rf :: bool
  rx_p :: bool
  rx_fi :: nat
  rx_e :: bool
  rx_sn :: int
  rx_lsf :: bool
  rx_so :: int
  rx_li_list :: "int list"
  rx_hidden_size :: int
  rx_payload :: "octet list"
  rx_payload_size :: int
  rx_header_size :: int
  all_segments_received :: bool
  segment_reassembled :: rlc_am_rx_segment_reassemble_info

datatype rlc_am_rx_pdu_status = RLC_AM_DATA_PDU_STATUS_OK | RLC_AM_DATA_PDU_STATUS_SN_OUTSIDE_WINDOW | RLC_AM_DATA_PDU_STATUS_SN_DUPLICATE |
  RLC_AM_DATA_PDU_STATUS_AM_SEGMENT_DUPLICATE | RLC_AM_DATA_PDU_STATUS_BUFFER_FULL | RLC_AM_DATA_PDU_STATUS_HEADER_ERROR

record rlc_am_timer =
  am_ms_time_out :: "32 word"
  am_ms_start :: "32 word"
  am_ms_duration :: "32 word"
  am_running :: bool
  am_timed_out :: bool

text \<open>\<open>am_delivered\<close> are the SDUs given to \<open>rlc_data_ind\<close>.\<close>

record rlc_am_rx_entity =
  vr_r :: int
  vr_mr :: int
  vr_x :: int
  vr_ms :: int
  vr_h :: int
  receiver_buffer :: "rlc_am_rx_pdu list"
  am_output_sdu :: "octet list option"
  am_output_size :: nat
  am_t_reordering :: rlc_am_timer
  am_t_status_prohibit :: rlc_am_timer
  status_requested :: octet
  sn_status_triggered_delayed :: int
  am_nb_bytes_requested_by_mac :: int
  control_pdu_list :: "octet list list"
  stat_tx_control_pdu :: "32 word"
  stat_tx_control_bytes :: "32 word"
  am_delivered :: "octet list list"

section \<open>Timers\<close>

text \<open>\<open>now\<close> is \<open>PROTOCOL_CTXT_TIME_MILLI_SECONDS(ctxt_pP)\<close>.\<close>

definition am_timer_expired :: "32 word \<Rightarrow> rlc_am_timer \<Rightarrow> bool" where
  "am_timer_expired now t \<longleftrightarrow>
     am_ms_start t < am_ms_time_out t \<and> (now \<ge> am_ms_time_out t \<or> now < am_ms_start t) \<or>
     am_ms_start t > am_ms_time_out t \<and> now < am_ms_start t \<and> now \<ge> am_ms_time_out t"

definition am_timer_reset :: "rlc_am_timer \<Rightarrow> rlc_am_timer" where
  "am_timer_reset t = t\<lparr>am_running := False, am_ms_time_out := 0, am_ms_start := 0, am_timed_out := False\<rparr>"

definition rlc_am_stop_and_reset_timer_reordering :: "rlc_am_rx_entity \<Rightarrow> rlc_am_rx_entity" where
  "rlc_am_stop_and_reset_timer_reordering e = e\<lparr>am_t_reordering := am_timer_reset (am_t_reordering e)\<rparr>"

definition rlc_am_start_timer_reordering :: "32 word \<Rightarrow> rlc_am_rx_entity \<Rightarrow> rlc_am_rx_entity" where
  "rlc_am_start_timer_reordering now e =
     (let t = (am_t_reordering e)\<lparr>am_timed_out := False\<rparr>
      in e\<lparr>am_t_reordering :=
             (if \<not> am_running t \<and> am_ms_duration t > 0
              then t\<lparr>am_running := True, am_ms_time_out := now + am_ms_duration t, am_ms_start := now\<rparr> else t)\<rparr>)"

definition rlc_am_init_timer_reordering :: "32 word \<Rightarrow> rlc_am_rx_entity \<Rightarrow> rlc_am_rx_entity" where
  "rlc_am_init_timer_reordering ms_duration e =
     e\<lparr>am_t_reordering := \<lparr>am_ms_time_out = 0, am_ms_start = 0, am_ms_duration = ms_duration, am_running = False, am_timed_out = False\<rparr>\<rparr>"

definition rlc_am_stop_and_reset_timer_status_prohibit :: "rlc_am_rx_entity \<Rightarrow> rlc_am_rx_entity" where
  "rlc_am_stop_and_reset_timer_status_prohibit e =
     (if am_ms_duration (am_t_status_prohibit e) > 0 then e\<lparr>am_t_status_prohibit := am_timer_reset (am_t_status_prohibit e)\<rparr> else e)"

definition rlc_am_check_timer_status_prohibit :: "32 word \<Rightarrow> rlc_am_rx_entity \<Rightarrow> rlc_am_rx_entity" where
  "rlc_am_check_timer_status_prohibit now e =
     (let t = am_t_status_prohibit e
      in if am_ms_duration t > 0 \<and> am_running t \<and> am_timer_expired now t
         then (rlc_am_stop_and_reset_timer_status_prohibit (e\<lparr>am_t_status_prohibit := t\<lparr>am_running := False, am_timed_out := True\<rparr>\<rparr>))
                \<lparr>status_requested := status_requested e AND NOT RLC_AM_STATUS_PROHIBIT\<rparr>
         else e)"

definition rlc_am_start_timer_status_prohibit :: "32 word \<Rightarrow> rlc_am_rx_entity \<Rightarrow> rlc_am_rx_entity" where
  "rlc_am_start_timer_status_prohibit now e =
     (let t = (am_t_status_prohibit e)\<lparr>am_timed_out := False\<rparr>
      in if \<not> am_running t \<and> am_ms_duration t > 0
         then e\<lparr>am_t_status_prohibit := t\<lparr>am_running := True, am_ms_time_out := am_ms_duration t + now, am_ms_start := now\<rparr>,
                status_requested := status_requested e OR RLC_AM_STATUS_PROHIBIT\<rparr>
         else e\<lparr>am_t_status_prohibit := t\<rparr>)"

definition rlc_am_init_timer_status_prohibit :: "32 word \<Rightarrow> rlc_am_rx_entity \<Rightarrow> rlc_am_rx_entity" where
  "rlc_am_init_timer_status_prohibit ms_duration e =
     e\<lparr>am_t_status_prohibit := \<lparr>am_ms_time_out = 0, am_ms_start = 0, am_ms_duration = ms_duration, am_running = False, am_timed_out = False\<rparr>\<rparr>"

section \<open>Initialisation (rlc_am_init.c)\<close>

definition am_no_timer :: rlc_am_timer where
  "am_no_timer = \<lparr>am_ms_time_out = 0, am_ms_start = 0, am_ms_duration = 0, am_running = False, am_timed_out = False\<rparr>"

definition rlc_am_init :: rlc_am_rx_entity where
  "rlc_am_init = \<lparr>vr_r = 0, vr_mr = RLC_AM_WINDOW_SIZE, vr_x = RLC_SN_UNDEFINED, vr_ms = 0, vr_h = 0, receiver_buffer = [],
     am_output_sdu = None, am_output_size = 0, am_t_reordering = am_no_timer, am_t_status_prohibit = am_no_timer,
     status_requested = 0, sn_status_triggered_delayed = s16 RLC_SN_UNDEFINED, am_nb_bytes_requested_by_mac = 0,
     control_pdu_list = [], stat_tx_control_pdu = 0, stat_tx_control_bytes = 0, am_delivered = []\<rparr>"

definition rlc_am_reestablish :: "rlc_am_rx_entity \<Rightarrow> rlc_am_rx_entity" where
  "rlc_am_reestablish e = e\<lparr>receiver_buffer := [], control_pdu_list := [], vr_r := 0, vr_mr := RLC_AM_WINDOW_SIZE,
     vr_x := RLC_SN_UNDEFINED, vr_ms := 0, vr_h := 0, sn_status_triggered_delayed := s16 RLC_SN_UNDEFINED, status_requested := 0\<rparr>"

section \<open>Elements for examples\<close>

text \<open>A segment of PDU \<open>sn\<close> with the octets \<open>data\<close> from offset \<open>so\<close> on, in the middle of an SDU.\<close>

definition segment_of :: "int \<Rightarrow> int \<Rightarrow> octet list \<Rightarrow> bool \<Rightarrow> rlc_am_rx_pdu" where
  "segment_of sn so data lsf = \<lparr>rx_rf = True, rx_p = False, rx_fi = 3, rx_e = False, rx_sn = sn, rx_lsf = lsf, rx_so = so, rx_li_list = [],
     rx_hidden_size = int (length data), rx_payload = data, rx_payload_size = int (length data), rx_header_size = 4,
     all_segments_received = False, segment_reassembled = RLC_AM_RX_PDU_SEGMENT_REASSEMBLE_NO\<rparr>"

text \<open>A PDU that holds one SDU.\<close>

definition pdu_of :: "int \<Rightarrow> octet list \<Rightarrow> rlc_am_rx_pdu" where
  "pdu_of sn data = (segment_of sn 0 data False)\<lparr>rx_rf := False, rx_fi := 0, rx_header_size := 2\<rparr>"

end
