(* ===== verification/RlcAmStatus.thy ===== *)
theory RlcAmStatus
  imports RlcAm
begin

text \<open>
  STATUS PDUs of RLC acknowledged mode, \<open>rlc_am_status_report.c\<close>: the bit fields, encoding and decoding.
\<close>

section \<open>The decoded report (rlc_am_structs.h)\<close>

record nack_sn_t =
  nack_sn :: nat
  nack_e1 :: bool
  nack_e2 :: bool
  so_start :: nat
  so_end :: nat

record rlc_am_control_pdu_info =
  d_c :: nat
  cpt :: nat
  ack_sn :: nat
  ctrl_e1 :: bool
  nack_list :: "nack_sn_t list"

section \<open>Bit fields\<close>

text \<open>A cursor is the index of an octet and a bit position in it, 0 for the most significant bit.\<close>

function read_bits :: "octet list \<Rightarrow> nat \<Rightarrow> nat \<Rightarrow> nat \<Rightarrow> 16 word \<Rightarrow> (16 word \<times> nat \<times> nat) option" where
  "read_bits buf byte pos n v =
     (if \<not> byte < length buf \<or> \<not> pos < 8 then None
      else
        let b = ucast (buf ! byte) AND drop_bit pos 0x00FF in
        if 8 - pos > n then Some (push_bit n v OR drop_bit (8 - pos - n) b, byte, pos + n)
        else if 8 - pos = n then Some (push_bit n v OR b, byte + 1, 0)
        else read_bits buf (byte + 1) 0 (n - (8 - pos)) (push_bit (8 - pos) v OR b))"
  by pat_completeness auto

termination
  by (relation "measure (\<lambda>(buf, byte, pos, n, v). n)") auto

declare read_bits.simps [simp del]

definition rlc_am_read_bit_field :: "octet list \<Rightarrow> nat \<times> nat \<Rightarrow> nat \<Rightarrow> (16 word \<times> nat \<times> nat) option" where
  "rlc_am_read_bit_field buf c n = read_bits buf (fst c) (snd c) n 0"

function write_bits :: "octet list \<Rightarrow> nat \<Rightarrow> nat \<Rightarrow> nat \<Rightarrow> octet \<Rightarrow> (octet list \<times> nat \<times> nat) option" where
  "write_bits buf byte pos n v =
     (if \<not> byte < length buf \<or> \<not> pos < 8 then None
      else
        let available = 8 - pos in
        if available > n then Some (buf[byte := buf ! byte OR push_bit (available - n) (v AND drop_bit (available - n) 0xFF)], byte, pos + n)
        else if available = n then Some (buf[byte := buf ! byte OR (v AND drop_bit (8 - n) 0xFF)], byte + 1, 0)
        else write_bits (buf[byte := buf ! byte OR drop_bit (n - available) v]) (byte + 1) 0 (n - available) v)"
  by pat_completeness auto

termination
  by (relation "measure (\<lambda>(buf, byte, pos, n, v). n)") auto

declare write_bits.simps [simp del]

definition rlc_am_write8_bit_field :: "nat \<Rightarrow> octet \<Rightarrow> octet list \<times> nat \<times> nat \<Rightarrow> (octet list \<times> nat \<times> nat) option" where
  "rlc_am_write8_bit_field n v s = write_bits (fst s) (fst (snd s)) (snd (snd s)) n v"

definition rlc_am_write16_bit_field :: "nat \<Rightarrow> 16 word \<Rightarrow> octet list \<times> nat \<times> nat \<Rightarrow> (octet list \<times> nat \<times> nat) option" where
  "rlc_am_write16_bit_field n v s =
     (if n > 16 then None
      else if n > 8 then do {
        s1 \<leftarrow> rlc_am_write8_bit_field (n - 8) (ucast (drop_bit 8 v)) s;
        rlc_am_write8_bit_field 8 (ucast (v AND 0x00FF)) s1 }
      else rlc_am_write8_bit_field n (ucast (v AND 0x00FF)) s)"

section \<open>Decoding a STATUS PDU\<close>

text \<open>One round of the loop: a NACK and the cursor behind it. A write behind \<open>nack_list\<close> cannot happen: the loop ends when it is full.\<close>

definition read_nack :: "octet list \<Rightarrow> nat \<times> nat \<Rightarrow> (nack_sn_t \<times> nat \<times> nat) option" where
  "read_nack buf c = do {
     (sn, c1) \<leftarrow> rlc_am_read_bit_field buf c 10;
     (e1, c2) \<leftarrow> rlc_am_read_bit_field buf c1 1;
     (e2, c3) \<leftarrow> rlc_am_read_bit_field buf c2 1;
     let nack = \<lparr>nack_sn = unat sn mod 1024, nack_e1 = odd (unat e1), nack_e2 = odd (unat e2), so_start = 0, so_end = 0x7FFF\<rparr>;
     if nack_e2 nack then do {
       (s, c4) \<leftarrow> rlc_am_read_bit_field buf c3 15;
       (t, c5) \<leftarrow> rlc_am_read_bit_field buf c4 15;
       Some (nack\<lparr>so_start := unat s mod 32768, so_end := unat t mod 32768\<rparr>, c5) }
     else Some (nack, c3) }"

text \<open>The loop, for at most \<open>room\<close> more entries: the return value, the list and the cursor.\<close>

fun read_nacks :: "nat \<Rightarrow> octet list \<Rightarrow> nat \<times> nat \<Rightarrow> nack_sn_t list \<Rightarrow> (int \<times> nack_sn_t list \<times> nat \<times> nat) option" where
  "read_nacks 0 buf c ns = Some (- 2, ns, c)"
| "read_nacks (Suc room) buf c ns = do {
     (nack, c1) \<leftarrow> read_nack buf c;
     if \<not> nack_e1 nack then Some (0, ns @ [nack], c1)
     else read_nacks room buf c1 (ns @ [nack]) }"

definition octets_of :: "nat \<times> nat \<Rightarrow> int" where
  "octets_of c = int (fst c + (snd c + 7) div 8)"

definition zero_info :: rlc_am_control_pdu_info where
  "zero_info = \<lparr>d_c = 0, cpt = 0, ack_sn = 0, ctrl_e1 = False, nack_list = []\<rparr>"

text \<open>The return value, \<open>*total_size_pP\<close> and the decoded information.\<close>

definition rlc_am_get_control_pdu_infos :: "octet list \<Rightarrow> int \<Rightarrow> (int \<times> int \<times> rlc_am_control_pdu_info) option" where
  "rlc_am_get_control_pdu_infos buf total_size =
     (if length buf < 2 then None
      else
        let b1 = buf ! 0; b2 = buf ! 1; dc = unat (drop_bit 7 b1) in
        if dc \<noteq> 0 then Some (- 1, total_size, zero_info\<lparr>d_c := dc\<rparr>)
        else
          let c = unat (drop_bit 4 b1 AND 0x07) in
          if c \<noteq> 0 then Some (- 3, total_size, zero_info\<lparr>cpt := c\<rparr>)
          else
            let info = zero_info\<lparr>ack_sn := unat ((ucast (drop_bit 2 b2 AND 0x3F) :: 16 word) OR push_bit 6 (ucast (b1 AND 0x0F))) mod 1024,
                                 ctrl_e1 := odd (unat (drop_bit 1 b2))\<rparr>
            in if ctrl_e1 info then do {
                 (rc, ns, cur) \<leftarrow> read_nacks RLC_AM_MAX_NACK_IN_STATUS_PDU buf (1, 7) [];
                 Some (rc, total_size - octets_of cur, info\<lparr>nack_list := ns\<rparr>) }
               else Some (0, total_size - 2, info))"

section \<open>Encoding a STATUS PDU\<close>

definition write_nack :: "nack_sn_t \<Rightarrow> octet list \<times> nat \<times> nat \<Rightarrow> (octet list \<times> nat \<times> nat) option" where
  "write_nack nack s = do {
     s1 \<leftarrow> rlc_am_write16_bit_field 10 (of_nat (nack_sn nack)) s;
     s2 \<leftarrow> rlc_am_write8_bit_field 1 (if nack_e1 nack then 1 else 0) s1;
     s3 \<leftarrow> rlc_am_write8_bit_field 1 (if nack_e2 nack then 1 else 0) s2;
     if nack_e2 nack then do {
       s4 \<leftarrow> rlc_am_write16_bit_field 15 (of_nat (so_start nack)) s3;
       rlc_am_write16_bit_field 15 (of_nat (so_end nack)) s4 }
     else Some s3 }"

fun write_nacks :: "nack_sn_t list \<Rightarrow> octet list \<times> nat \<times> nat \<Rightarrow> (octet list \<times> nat \<times> nat) option" where
  "write_nacks [] s = Some s"
| "write_nacks (nack # ns) s = Option.bind (write_nack nack s) (write_nacks ns)"

text \<open>The buffer and the number of octets written.\<close>

definition rlc_am_write_status_pdu :: "octet list \<Rightarrow> rlc_am_control_pdu_info \<Rightarrow> (octet list \<times> nat) option" where
  "rlc_am_write_status_pdu buf info = do {
     s1 \<leftarrow> rlc_am_write16_bit_field 10 (of_nat (ack_sn info)) (buf, 0, 4);
     s2 \<leftarrow> rlc_am_write8_bit_field 1 (if nack_list info \<noteq> [] then 1 else 0) s1;
     (buf', byte, pos) \<leftarrow> write_nacks (nack_list info) s2;
     Some (buf', byte + (if pos > 0 then 1 else 0)) }"

section \<open>Bits of a buffer\<close>

definition bitat :: "octet list \<Rightarrow> nat \<Rightarrow> bool" where
  "bitat buf p = bit (buf ! (p div 8)) (7 - p mod 8)"

abbreviation cur :: "nat \<Rightarrow> nat \<times> nat" where
  "cur p \<equiv> (p div 8, p mod 8)"

text \<open>The field of \<open>n\<close> bits at \<open>p\<close> holds \<open>w\<close>; all bits from \<open>p\<close> on are clear.\<close>

definition has_field :: "octet list \<Rightarrow> nat \<Rightarrow> nat \<Rightarrow> nat \<Rightarrow> bool" where
  "has_field buf p n w \<longleftrightarrow> (\<forall>i < n. bitat buf (p + n - 1 - i) = bit w i)"

definition clear :: "octet list \<Rightarrow> nat \<Rightarrow> bool" where
  "clear buf p \<longleftrightarrow> (\<forall>q. p \<le> q \<and> q < 8 * length buf \<longrightarrow> \<not> bitat buf q)"

lemma cur_octet: "x < 8 \<Longrightarrow> cur (8 * byte + x) = (byte, x)"
  by simp

lemma octet_bits_pos:
  assumes "j < 8"
  shows "bit (buf ! byte) j = bitat buf (8 * byte + (7 - j))"
proof -
  define x where "x = 7 - j"
  then have "x < 8" "j = 7 - x" using assms by auto
  then show ?thesis unfolding x_def [symmetric] by (simp add: bitat_def)
qed

lemma bit_octet_low:
  assumes "pos < 8"
  shows "bit (ucast b AND drop_bit pos 0x00FF :: 16 word) j \<longleftrightarrow> j < 8 - pos \<and> bit (b :: octet) j"
proof -
  have m: "(0x00FF :: 16 word) = mask 8" by (simp add: mask_eq_exp_minus_1)
  show ?thesis unfolding m using assms bit_imp_le_length [of b j] by (auto simp: bit_simps)
qed

lemma bit_shift_in:
  fixes v b :: "16 word"
  assumes "i < 16"
  shows "bit (push_bit n v OR drop_bit k b) i = (n \<le> i \<and> bit v (i - n) \<or> bit b (k + i))"
  using assms by (auto simp: bit_simps)

lemma read_bits_spec:
  assumes "pos < 8" "8 * byte + pos + n \<le> 8 * length buf" "0 < n" "n \<le> 16" "p = 8 * byte + pos"
  shows "\<exists>v'. read_bits buf byte pos n v = Some (v', cur (p + n)) \<and>
    (\<forall>i < 16. bit v' i = (if i < n then bitat buf (p + n - 1 - i) else bit v (i - n)))"
  using assms
proof (induction buf byte pos n v arbitrary: p rule: read_bits.induct)
  case (1 buf byte pos n v)
  note a = "1.prems"
  let ?b = "ucast (buf ! byte) AND drop_bit pos 0x00FF :: 16 word"
  have byte: "byte < length buf" using a by linarith
  have b: "bit ?b j \<longleftrightarrow> j < 8 - pos \<and> bitat buf (8 * byte + (7 - j))" for j
    unfolding bit_octet_low [OF a(1)] using octet_bits_pos [of j buf byte] by auto
  consider "n < 8 - pos" | "n = 8 - pos" | "8 - pos < n" by linarith
  then show ?case
  proof cases
    case 1
    then have "read_bits buf byte pos n v = Some (push_bit n v OR drop_bit (8 - pos - n) ?b, byte, pos + n)"
      using byte a(1) by (subst read_bits.simps) (simp add: Let_def)
    moreover have "(byte, pos + n) = cur (p + n)" using 1 a(5) cur_octet [of "pos + n" byte] by (simp add: add.assoc)
    moreover have "bit (push_bit n v OR drop_bit (8 - pos - n) ?b) i = (if i < n then bitat buf (p + n - 1 - i) else bit v (i - n))" if "i < 16" for i
    proof -
      have "8 * byte + (7 - (8 - pos - n + i)) = p + n - 1 - i" if "i < n" using that 1 a(5) by linarith
      moreover have "i < n \<longleftrightarrow> 8 - pos - n + i < 8 - pos" using 1 by linarith
      ultimately show ?thesis unfolding bit_shift_in [OF \<open>i < 16\<close>] b by auto
    qed
    ultimately show ?thesis by metis
  next
    case 2
    then have "read_bits buf byte pos n v = Some (push_bit n v OR ?b, byte + 1, 0)"
      using byte a(1) by (subst read_bits.simps) (simp add: Let_def)
    moreover have "(byte + 1, 0) = cur (p + n)" using 2 a(1,5) by simp
    moreover have "bit (push_bit n v OR ?b) i = (if i < n then bitat buf (p + n - 1 - i) else bit v (i - n))" if "i < 16" for i
    proof -
      have "8 * byte + (7 - i) = p + n - 1 - i" if "i < n" using that 2 a(1,5) by linarith
      then show ?thesis using 2 \<open>i < 16\<close> by (auto simp: bit_simps b simp del: bit_and_iff)
    qed
    ultimately show ?thesis by metis
  next
    case 3
    define k where "k = 8 - pos"
    define m where "m = n - k"
    have km: "8 - pos = k" "pos + k = 8" "n - k = m" "n = m + k" "0 < m" using 3 a(1) by (auto simp: k_def m_def)
    have step: "read_bits buf byte pos n v = read_bits buf (byte + 1) 0 m (push_bit k v OR ?b)"
      using byte a(1) 3 unfolding k_def m_def by (subst read_bits.simps) (simp add: Let_def)
    have "\<exists>v'. read_bits buf (byte + 1) 0 (n - (8 - pos)) (push_bit (8 - pos) v OR ?b) = Some (v', cur (8 * (byte + 1) + (n - (8 - pos)))) \<and>
        (\<forall>i < 16. bit v' i = (if i < n - (8 - pos) then bitat buf (8 * (byte + 1) + (n - (8 - pos)) - 1 - i) else bit (push_bit (8 - pos) v OR ?b) (i - (n - (8 - pos)))))"
      by (rule "1.IH" [OF _ refl]) (use byte a 3 in auto)
    then obtain v' where v': "read_bits buf (byte + 1) 0 m (push_bit k v OR ?b) = Some (v', cur (8 * (byte + 1) + m))"
        "\<And>i. i < 16 \<Longrightarrow> bit v' i = (if i < m then bitat buf (8 * (byte + 1) + m - 1 - i) else bit (push_bit k v OR ?b) (i - m))"
      unfolding km(1,3) by blast
    have p: "8 * (byte + 1) + m = p + n" using a(5) km by simp
    have "bit v' i = (if i < n then bitat buf (p + n - 1 - i) else bit v (i - n))" if "i < 16" for i
    proof -
      have e1: "i - m < k \<and> 8 * byte + (7 - (i - m)) = p + n - 1 - i" if "m \<le> i" "i < n" using that a(5) km by linarith
      have e2: "k \<le> i - m \<and> i - m - k = i - n" if "n \<le> i" using that km by linarith
      have "bit (push_bit k v OR ?b) (i - m) = (k \<le> i - m \<and> bit v (i - m - k) \<or> bit ?b (i - m))"
        using bit_shift_in [of "i - m" k v 0 ?b] that by simp
      then show ?thesis unfolding v'(2) [OF that] p b km(1) using e1 e2 km(4) by (cases "i < m"; cases "i < n") auto
    qed
    then show ?thesis unfolding step v'(1) p by blast
  qed
qed

lemma read_field:
  assumes "has_field buf p n w" "w < 2 ^ n" "0 < n" "n \<le> 16" "p + n \<le> 8 * length buf"
  shows "rlc_am_read_bit_field buf (cur p) n = Some (of_nat w, cur (p + n))"
proof -
  have p: "p = 8 * (p div 8) + p mod 8" by simp
  have "8 * (p div 8) + p mod 8 + n \<le> 8 * length buf" using assms(5) by simp
  then obtain v where v: "read_bits buf (p div 8) (p mod 8) n 0 = Some (v, cur (p + n))"
      "\<And>i. i < 16 \<Longrightarrow> bit v i = (if i < n then bitat buf (p + n - 1 - i) else False)"
    using read_bits_spec [OF _ _ assms(3,4) p, of buf 0] by auto
  have "\<not> bit w i" if "n \<le> i" for i using assms(2) that by (metis bit_take_bit_iff not_le take_bit_nat_eq_self)
  then have "v = of_nat w" using v(2) assms(1) by (intro bit_word_eqI) (auto simp: has_field_def bit_simps)
  then show ?thesis using v(1) by (simp add: rlc_am_read_bit_field_def)
qed

text \<open>Setting bits of one octet.\<close>

lemma bitat_or:
  assumes "byte < length buf" "q < 8 * length buf"
  shows "bitat (buf[byte := buf ! byte OR x]) q = (bitat buf q \<or> 8 * byte \<le> q \<and> q < 8 * byte + 8 \<and> bit x (8 * byte + 7 - q))"
proof -
  have r: "8 * (q div 8) \<le> q" "q < 8 * (q div 8) + 8" "q mod 8 = q - 8 * (q div 8)" by (auto simp: modulo_nat_def)
  show ?thesis
  proof (cases "q div 8 = byte")
    case True
    then have "7 - q mod 8 = 8 * byte + 7 - q" using r by linarith
    then show ?thesis using True assms r by (simp add: bitat_def bit_or_iff)
  next
    case False
    then have "\<not> (8 * byte \<le> q \<and> q < 8 * byte + 8)" using r by linarith
    then show ?thesis using False by (auto simp: bitat_def)
  qed
qed

lemma bit_top:
  fixes v :: octet
  assumes "j < 8" "d \<le> 8"
  shows "bit (push_bit d (v AND drop_bit d 0xFF)) j = (d \<le> j \<and> bit v (j - d))"
proof -
  have m: "(0xFF :: octet) = mask 8" by (simp add: mask_eq_exp_minus_1)
  show ?thesis unfolding m using assms by (auto simp: bit_simps)
qed

lemma write_bits_one:
  assumes "pos + n \<le> 8" "0 < n" "byte < length buf" "p = 8 * byte + pos" "\<And>i. n \<le> i \<Longrightarrow> i < pos + n \<Longrightarrow> \<not> bit v i"
  shows "\<exists>buf'. write_bits buf byte pos n v = Some (buf', cur (p + n)) \<and> length buf' = length buf \<and>
    (\<forall>q < 8 * length buf. bitat buf' q = (bitat buf q \<or> p \<le> q \<and> q < p + n \<and> bit v (p + n - 1 - q)))"
proof -
  define d where "d = 8 - pos - n"
  have d: "pos + n + d = 8" "8 - pos - n = d" using assms(1) by (auto simp: d_def)
  define x where "x = (if d = 0 then v AND drop_bit (8 - n) 0xFF else push_bit d (v AND drop_bit d 0xFF))"
  have w: "write_bits buf byte pos n v = Some (buf[byte := buf ! byte OR x], cur (p + n))"
  proof (cases "d = 0")
    case True
    then have "8 - pos = n" using d(1) by linarith
    moreover have "p + n = 8 * (byte + 1) + 0" using d(1) True assms(4) by simp
    then have "cur (p + n) = (byte + 1, 0)" by (simp only: cur_octet [of 0])
    ultimately show ?thesis using True assms by (subst write_bits.simps) (simp add: Let_def x_def)
  next
    case False
    then have "8 - pos > n" using d(1) by linarith
    moreover have "cur (p + n) = (byte, pos + n)" using d(1) False cur_octet [of "pos + n" byte] assms(4) by (simp add: add.assoc)
    ultimately show ?thesis using False assms d(2) by (subst write_bits.simps) (simp add: Let_def x_def)
  qed
  have x: "bit x j = (d \<le> j \<and> bit v (j - d))" if "j < 8" for j
  proof (cases "d = 0")
    case True
    have "bit (v AND drop_bit (8 - n) 0xFF) j = bit v j"
    proof -
      have m: "(0xFF :: octet) = mask 8" by (simp add: mask_eq_exp_minus_1)
      have "j < n \<Longrightarrow> 8 - n + j < 8" using assms(1) by linarith
      then show ?thesis unfolding m using assms(5) [of j] that d(1) True by (cases "j < n") (auto simp: bit_simps)
    qed
    then show ?thesis using True by (simp add: x_def)
  next
    case False
    then show ?thesis using bit_top [OF that, of d v] d(1) by (simp add: x_def)
  qed
  have "bitat (buf[byte := buf ! byte OR x]) q = (bitat buf q \<or> p \<le> q \<and> q < p + n \<and> bit v (p + n - 1 - q))" if "q < 8 * length buf" for q
  proof -
    have i: "8 * byte \<le> q \<and> q < 8 * byte + 8 \<and> d \<le> 8 * byte + 7 - q \<longleftrightarrow> 8 * byte \<le> q \<and> q < p + n"
      "q < p + n \<Longrightarrow> 8 * byte + 7 - q - d = p + n - 1 - q" "q < p \<Longrightarrow> 8 * byte \<le> q \<Longrightarrow> n \<le> p + n - 1 - q \<and> p + n - 1 - q < pos + n" "p \<le> q \<Longrightarrow> 8 * byte \<le> q"
      using d(1) assms(2,4) by linarith+
    have "8 * byte + 7 - q < 8 \<or> q < 8 * byte" by linarith
    then have "(8 * byte \<le> q \<and> q < 8 * byte + 8 \<and> bit x (8 * byte + 7 - q)) = (p \<le> q \<and> q < p + n \<and> bit v (p + n - 1 - q))"
      using x [of "8 * byte + 7 - q"] i assms(5) [of "p + n - 1 - q"] by (metis not_le)
    then show ?thesis unfolding bitat_or [OF assms(3) that] by blast
  qed
  then show ?thesis using w by (intro exI [of _ "buf[byte := buf ! byte OR x]"]) simp
qed

lemma write_bits_spec:
  assumes "pos < 8" "8 * byte + pos + n \<le> 8 * length buf" "0 < n" "n \<le> 8" "p = 8 * byte + pos" "\<And>i. n \<le> i \<Longrightarrow> \<not> bit v i"
  shows "\<exists>buf'. write_bits buf byte pos n v = Some (buf', cur (p + n)) \<and> length buf' = length buf \<and>
    (\<forall>q < 8 * length buf. bitat buf' q = (bitat buf q \<or> p \<le> q \<and> q < p + n \<and> bit v (p + n - 1 - q)))"
proof (cases "pos + n \<le> 8")
  case True
  then show ?thesis using assms(2,3,6) by (intro write_bits_one [OF True assms(3) _ assms(5)]) auto
next
  case False
  define k where "k = n - (8 - pos)"
  have k: "n = 8 - pos + k" "n - (8 - pos) = k" "0 < k" "k < 8" "pos + n = 8 + k" using False assms(1,4) by (auto simp: k_def)
  have byte: "byte < length buf" "byte + 1 < length buf" using assms(2) k by linarith+
  define buf1 where "buf1 = buf[byte := buf ! byte OR drop_bit k v]"
  have lt: "\<not> n < 8 - pos" "8 - pos \<noteq> n" using False assms(1) by linarith+
  have step: "write_bits buf byte pos n v = write_bits buf1 (byte + 1) 0 k v"
    using byte(1) assms(1) lt unfolding buf1_def k_def by (subst write_bits.simps) (simp add: Let_def)
  obtain buf' where b: "write_bits buf1 (byte + 1) 0 k v = Some (buf', cur (8 * (byte + 1) + k))" "length buf' = length buf1"
      "\<And>q. q < 8 * length buf1 \<Longrightarrow> bitat buf' q = (bitat buf1 q \<or> 8 * (byte + 1) \<le> q \<and> q < 8 * (byte + 1) + k \<and> bit v (8 * (byte + 1) + k - 1 - q))"
    using write_bits_one [of 0 k "byte + 1" buf1 "8 * (byte + 1)" v] k byte by (auto simp: buf1_def)
  have pn: "8 * (byte + 1) + k = p + n" using k(5) assms(5) by simp
  have "bitat buf' q = (bitat buf q \<or> p \<le> q \<and> q < p + n \<and> bit v (p + n - 1 - q))" if q: "q < 8 * length buf" for q
  proof -
    have e: "bitat buf' q = (bitat buf q \<or> 8 * byte \<le> q \<and> q < 8 * byte + 8 \<and> bit v (k + (8 * byte + 7 - q)) \<or>
        8 * (byte + 1) \<le> q \<and> q < p + n \<and> bit v (p + n - 1 - q))"
      using b(3) [of q] bitat_or [OF byte(1) q, of "drop_bit k v"] q unfolding pn by (simp add: buf1_def bit_drop_bit_eq)
    have pn': "p + n = 8 * byte + 8 + k" using pn by simp
    then have "k + (8 * byte + 7 - q) = p + n - 1 - q" if "q < 8 * byte + 8" using that by linarith
    moreover have "q < p + n" if "q < 8 * byte + 8" using that pn' by linarith
    moreover have "n \<le> p + n - 1 - q" if "q < p" using that assms(3) by linarith
    moreover have "8 * byte \<le> q" if "p \<le> q" using that assms(5) by linarith
    moreover have "p \<le> q" if "8 * (byte + 1) \<le> q" using that assms(1,5) by simp
    ultimately have i: "q < 8 * byte + 8 \<Longrightarrow> k + (8 * byte + 7 - q) = p + n - 1 - q" "q < 8 * byte + 8 \<Longrightarrow> q < p + n" "p \<le> q \<Longrightarrow> 8 * byte \<le> q"
      "q < p \<Longrightarrow> n \<le> p + n - 1 - q" "8 * (byte + 1) \<le> q \<Longrightarrow> p \<le> q" by blast+
    show ?thesis unfolding e using i assms(6) [of "p + n - 1 - q"] by (cases "q < 8 * byte + 8"; cases "q < p") auto
  qed
  then show ?thesis unfolding step b(1) pn using b(2) by (intro exI [of _ buf']) (simp add: buf1_def)
qed

section \<open>Fields of a buffer\<close>

definition same_below :: "nat \<Rightarrow> octet list \<Rightarrow> octet list \<Rightarrow> bool" where
  "same_below p buf buf' \<longleftrightarrow> length buf' = length buf \<and> (\<forall>q < p. bitat buf' q = bitat buf q)"

lemma same_below_trans: "same_below p a b \<Longrightarrow> same_below q b c \<Longrightarrow> p \<le> q \<Longrightarrow> same_below p a c"
  by (auto simp: same_below_def)

lemma has_field_same: "same_below q a b \<Longrightarrow> p + n \<le> q \<Longrightarrow> has_field b p n w = has_field a p n w"
  unfolding same_below_def has_field_def by (metis (no_types, lifting) diff_diff_left less_le_trans diff_less add_pos_pos zero_less_one add_gr_0 not_gr_zero less_zeroE)

text \<open>Several fields from \<open>p\<close> on, each with its width and its value.\<close>

type_synonym fields = "(nat \<times> nat) list"

abbreviation width :: "fields \<Rightarrow> nat" where
  "width fs \<equiv> sum_list (map fst fs)"

fun fields_at :: "octet list \<Rightarrow> nat \<Rightarrow> fields \<Rightarrow> bool" where
  "fields_at buf p [] \<longleftrightarrow> True"
| "fields_at buf p ((n, w) # fs) \<longleftrightarrow> has_field buf p n w \<and> fields_at buf (p + n) fs"

lemma fields_at_append: "fields_at buf p (fs @ gs) \<longleftrightarrow> fields_at buf p fs \<and> fields_at buf (p + width fs) gs"
  by (induction buf p fs rule: fields_at.induct) (simp_all add: add.assoc)

lemma fields_at_same: "same_below q a b \<Longrightarrow> p + width fs \<le> q \<Longrightarrow> fields_at b p fs = fields_at a p fs"
proof (induction a p fs rule: fields_at.induct)
  case (2 a p n w fs)
  then show ?case using has_field_same [of q a b p n w] by simp
qed simp

text \<open>What a write of the fields \<open>fs\<close> at \<open>p\<close> does to a buffer that is clear from \<open>p\<close> on.\<close>

definition writes :: "(octet list \<times> nat \<times> nat \<Rightarrow> (octet list \<times> nat \<times> nat) option) \<Rightarrow> fields \<Rightarrow> bool" where
  "writes f fs \<longleftrightarrow> (\<forall>buf p. clear buf p \<and> p + width fs \<le> 8 * length buf \<longrightarrow>
     (\<exists>buf'. f (buf, cur p) = Some (buf', cur (p + width fs)) \<and> same_below p buf buf' \<and> clear buf' (p + width fs) \<and> fields_at buf' p fs))"

lemma writes_seq:
  assumes "writes f fs" "writes g gs"
  shows "writes (\<lambda>s. Option.bind (f s) g) (fs @ gs)"
  unfolding writes_def
proof (intro allI impI, elim conjE)
  fix buf p
  assume c: "clear buf p" and l: "p + width (fs @ gs) \<le> 8 * length buf"
  obtain b1 where b1: "f (buf, cur p) = Some (b1, cur (p + width fs))" "same_below p buf b1" "clear b1 (p + width fs)" "fields_at b1 p fs"
    using assms(1) c l unfolding writes_def by fastforce
  have "length b1 = length buf" using b1(2) by (simp add: same_below_def)
  then obtain b2 where b2: "g (b1, cur (p + width fs)) = Some (b2, cur (p + width fs + width gs))" "same_below (p + width fs) b1 b2"
      "clear b2 (p + width fs + width gs)" "fields_at b2 (p + width fs) gs"
    using assms(2) b1(3) l unfolding writes_def by fastforce
  have "fields_at b2 p fs" using fields_at_same [OF b2(2) order_refl] b1(4) by simp
  then show "\<exists>buf'. Option.bind (f (buf, cur p)) g = Some (buf', cur (p + width (fs @ gs))) \<and> same_below p buf buf' \<and>
      clear buf' (p + width (fs @ gs)) \<and> fields_at buf' p (fs @ gs)"
    using b1(1) b2 same_below_trans [OF b1(2) b2(2)] by (intro exI [of _ b2]) (simp add: fields_at_append add.assoc)
qed

lemma small_bits: "w < 2 ^ n \<Longrightarrow> n \<le> i \<Longrightarrow> \<not> bit (w :: nat) i"
  by (metis bit_take_bit_iff not_le take_bit_nat_eq_self)

lemma writes_8:
  assumes "w < 2 ^ n" "0 < n" "n \<le> 8"
  shows "writes (rlc_am_write8_bit_field n (of_nat w)) [(n, w)]"
  unfolding writes_def
proof (intro allI impI, elim conjE)
  fix buf p
  assume c: "clear buf p" and l: "p + width [(n, w)] \<le> 8 * length buf"
  have v: "\<not> bit (of_nat w :: octet) i" if "n \<le> i" for i using small_bits [OF assms(1) that] by (simp add: bit_simps)
  have l': "8 * (p div 8) + p mod 8 + n \<le> 8 * length buf" using l by simp
  obtain b where b: "write_bits buf (p div 8) (p mod 8) n (of_nat w) = Some (b, cur (p + n))" "length b = length buf"
      "\<And>q. q < 8 * length buf \<Longrightarrow> bitat b q = (bitat buf q \<or> p \<le> q \<and> q < p + n \<and> bit (of_nat w :: octet) (p + n - 1 - q))"
    using write_bits_spec [OF _ l' assms(2,3) _ v, of p] by auto
  have "has_field b p n w"
    unfolding has_field_def
  proof (intro allI impI)
    fix i
    assume i: "i < n"
    then have q: "p + n - 1 - i < 8 * length buf" "p \<le> p + n - 1 - i" "p + n - 1 - i < p + n" "p + n - 1 - (p + n - 1 - i) = i" using l by auto
    then have "\<not> bitat buf (p + n - 1 - i)" using c by (simp add: clear_def)
    then show "bitat b (p + n - 1 - i) = bit w i" using b(3) [OF q(1)] q i assms(3) by (simp add: bit_simps)
  qed
  moreover have "same_below p buf b" using b(2,3) l by (simp add: same_below_def)
  moreover have "clear b (p + n)" using b(2,3) c by (simp add: clear_def)
  ultimately show "\<exists>buf'. rlc_am_write8_bit_field n (of_nat w) (buf, cur p) = Some (buf', cur (p + width [(n, w)])) \<and> same_below p buf buf' \<and>
      clear buf' (p + width [(n, w)]) \<and> fields_at buf' p [(n, w)]"
    using b(1) by (simp add: rlc_am_write8_bit_field_def)
qed

lemma has_field_split: "has_field buf p a (drop_bit b w) \<Longrightarrow> has_field buf (p + a) b (take_bit b w) \<Longrightarrow> has_field buf p (a + b) w"
  unfolding has_field_def
proof (intro allI impI)
  fix i
  assume h: "\<forall>i<a. bitat buf (p + a - 1 - i) = bit (drop_bit b w) i" "\<forall>i<b. bitat buf (p + a + b - 1 - i) = bit (take_bit b w) i" and i: "i < a + b"
  show "bitat buf (p + (a + b) - 1 - i) = bit w i"
  proof (cases "i < b")
    case True
    then show ?thesis using h(2) by (simp add: add.assoc bit_take_bit_iff)
  next
    case False
    then have j: "i - b < a" "p + a - 1 - (i - b) = p + (a + b) - 1 - i" "b + (i - b) = i" using i by auto
    then show ?thesis using h(1) [rule_format, OF j(1)] by (simp add: bit_drop_bit_eq)
  qed
qed

lemma writes_16:
  assumes "w < 2 ^ n" "8 < n" "n \<le> 16"
  shows "writes (rlc_am_write16_bit_field n (of_nat w)) [(n, w)]"
proof -
  have "(2::nat) ^ n \<le> 2 ^ 16" using assms(3) by (rule power_increasing) simp
  then have w: "w < 65536" using assms(1) by simp
  have "(2::nat) ^ n = 2 ^ (n - 8) * 2 ^ 8" using assms(2) by (simp only: power_add [symmetric]) simp
  then have hi: "drop_bit 8 w < 2 ^ (n - 8)" using assms(1) by (simp only: drop_bit_eq_div less_mult_imp_div_less)
  have lo: "take_bit 8 w < 2 ^ 8" by (rule take_bit_nat_less_exp)
  have e1: "(ucast (drop_bit 8 (of_nat w :: 16 word)) :: octet) = of_nat (drop_bit 8 w)" using w by (intro bit_word_eqI) (auto simp: bit_simps)
  have m: "(0x00FF :: 16 word) = mask 8" by (simp add: mask_eq_exp_minus_1)
  have e2: "(ucast ((of_nat w :: 16 word) AND 0x00FF) :: octet) = of_nat (take_bit 8 w)" unfolding m by (intro bit_word_eqI) (auto simp: bit_simps)
  have "writes (\<lambda>s. Option.bind (rlc_am_write8_bit_field (n - 8) (of_nat (drop_bit 8 w)) s) (rlc_am_write8_bit_field 8 (of_nat (take_bit 8 w)))) ([(n - 8, drop_bit 8 w)] @ [(8, take_bit 8 w)])"
    by (intro writes_seq writes_8 hi lo) (use assms in auto)
  moreover have "rlc_am_write16_bit_field n (of_nat w) = (\<lambda>s. Option.bind (rlc_am_write8_bit_field (n - 8) (of_nat (drop_bit 8 w)) s) (rlc_am_write8_bit_field 8 (of_nat (take_bit 8 w))))"
    using assms by (simp add: fun_eq_iff rlc_am_write16_bit_field_def e1 e2)
  moreover have "fields_at buf p ([(n - 8, drop_bit 8 w)] @ [(8, take_bit 8 w)]) \<Longrightarrow> fields_at buf p [(n, w)]" for buf p
    using has_field_split [of buf p "n - 8" 8 w] assms(2) by simp
  ultimately show ?thesis using assms(2) unfolding writes_def by fastforce
qed

section \<open>The STATUS PDU as a sequence of fields\<close>

definition nack_fields :: "nack_sn_t \<Rightarrow> fields" where
  "nack_fields nack = [(10, nack_sn nack), (1, of_bool (nack_e1 nack)), (1, of_bool (nack_e2 nack))] @
     (if nack_e2 nack then [(15, so_start nack), (15, so_end nack)] else [])"

definition nack_ok :: "nack_sn_t \<Rightarrow> bool" where
  "nack_ok nack \<longleftrightarrow> nack_sn nack < 1024 \<and> so_start nack < 32768 \<and> so_end nack < 32768 \<and> (\<not> nack_e2 nack \<longrightarrow> so_start nack = 0 \<and> so_end nack = 0x7FFF)"

definition status_fields :: "rlc_am_control_pdu_info \<Rightarrow> fields" where
  "status_fields info = [(10, ack_sn info), (1, of_bool (nack_list info \<noteq> []))] @ concat (map nack_fields (nack_list info))"

text \<open>A well-formed report: the extension bits tell where the list of NACKs ends.\<close>

definition info_ok :: "rlc_am_control_pdu_info \<Rightarrow> bool" where
  "info_ok info \<longleftrightarrow> d_c info = 0 \<and> cpt info = 0 \<and> ack_sn info < 1024 \<and> ctrl_e1 info = (nack_list info \<noteq> []) \<and>
     (\<forall>nack \<in> set (nack_list info). nack_ok nack) \<and> length (nack_list info) \<le> RLC_AM_MAX_NACK_IN_STATUS_PDU \<and>
     (nack_list info \<noteq> [] \<longrightarrow> (\<forall>nack \<in> set (butlast (nack_list info)). nack_e1 nack) \<and> \<not> nack_e1 (last (nack_list info)))"

lemma writes_flag: "writes (rlc_am_write8_bit_field 1 (if b then 1 else 0)) [(1, of_bool b)]"
proof -
  have "writes (rlc_am_write8_bit_field 1 (of_nat (of_bool b))) [(1, of_bool b)]" by (rule writes_8) simp_all
  then show ?thesis by (cases b) simp_all
qed

lemma writes_Nil: "writes Some []"
  by (simp add: writes_def same_below_def)

lemma writes_nack: "nack_ok nack \<Longrightarrow> writes (write_nack nack) (nack_fields nack)"
proof -
  assume ok: "nack_ok nack"
  have so: "writes (\<lambda>s. if nack_e2 nack then Option.bind (rlc_am_write16_bit_field 15 (of_nat (so_start nack)) s) (rlc_am_write16_bit_field 15 (of_nat (so_end nack))) else Some s)
      (if nack_e2 nack then [(15, so_start nack)] @ [(15, so_end nack)] else [])"
  proof (cases "nack_e2 nack")
    case True
    have "writes (\<lambda>s. Option.bind (rlc_am_write16_bit_field 15 (of_nat (so_start nack)) s) (rlc_am_write16_bit_field 15 (of_nat (so_end nack))))
        ([(15, so_start nack)] @ [(15, so_end nack)])"
      by (intro writes_seq writes_16) (use ok in \<open>simp_all add: nack_ok_def\<close>)
    then show ?thesis using True by simp
  qed (simp add: writes_Nil)
  have "writes (\<lambda>s. Option.bind (rlc_am_write16_bit_field 10 (of_nat (nack_sn nack)) s) (\<lambda>s1. Option.bind (rlc_am_write8_bit_field 1 (if nack_e1 nack then 1 else 0) s1)
      (\<lambda>s2. Option.bind (rlc_am_write8_bit_field 1 (if nack_e2 nack then 1 else 0) s2)
      (\<lambda>s. if nack_e2 nack then Option.bind (rlc_am_write16_bit_field 15 (of_nat (so_start nack)) s) (rlc_am_write16_bit_field 15 (of_nat (so_end nack))) else Some s))))
      ([(10, nack_sn nack)] @ ([(1, of_bool (nack_e1 nack))] @ ([(1, of_bool (nack_e2 nack))] @ (if nack_e2 nack then [(15, so_start nack)] @ [(15, so_end nack)] else []))))"
    by (intro writes_seq writes_flag so writes_16) (use ok in \<open>simp_all add: nack_ok_def\<close>)
  then show ?thesis unfolding write_nack_def [abs_def] nack_fields_def by (simp only: append.simps)
qed

lemma writes_nacks: "\<forall>nack \<in> set ns. nack_ok nack \<Longrightarrow> writes (write_nacks ns) (concat (map nack_fields ns))"
proof (induction ns)
  case (Cons nack ns)
  have "write_nacks (nack # ns) = (\<lambda>s. Option.bind (write_nack nack s) (write_nacks ns))" by (simp add: fun_eq_iff)
  moreover have "writes (\<lambda>s. Option.bind (write_nack nack s) (write_nacks ns)) (nack_fields nack @ concat (map nack_fields ns))"
    by (intro writes_seq writes_nack Cons.IH) (use Cons.prems in simp_all)
  ultimately show ?case by simp
next
  case Nil
  have "write_nacks [] = Some" by (simp add: fun_eq_iff)
  then show ?case using writes_Nil by simp
qed

lemma write_status_fields:
  assumes "info_ok info" "clear buf 4" "4 + width (status_fields info) \<le> 8 * length buf"
  shows "\<exists>buf'. rlc_am_write_status_pdu buf info = Some (buf', (4 + width (status_fields info) + 7) div 8) \<and> same_below 4 buf buf' \<and>
    fields_at buf' 4 (status_fields info)"
proof -
  have w: "writes (\<lambda>s. Option.bind (rlc_am_write16_bit_field 10 (of_nat (ack_sn info)) s) (\<lambda>s1. Option.bind (rlc_am_write8_bit_field 1 (if nack_list info \<noteq> [] then 1 else 0) s1)
      (write_nacks (nack_list info)))) ([(10, ack_sn info)] @ ([(1, of_bool (nack_list info \<noteq> []))] @ concat (map nack_fields (nack_list info))))"
    by (intro writes_seq writes_flag writes_nacks writes_16) (use assms(1) in \<open>simp_all add: info_ok_def\<close>)
  have e: "[(10, ack_sn info)] @ ([(1, of_bool (nack_list info \<noteq> []))] @ concat (map nack_fields (nack_list info))) = status_fields info"
    by (simp add: status_fields_def)
  have c: "cur 4 = (0, 4)" by simp
  obtain buf' where b: "Option.bind (rlc_am_write16_bit_field 10 (of_nat (ack_sn info)) (buf, cur 4)) (\<lambda>s1. Option.bind (rlc_am_write8_bit_field 1 (if nack_list info \<noteq> [] then 1 else 0) s1)
      (write_nacks (nack_list info))) = Some (buf', cur (4 + width (status_fields info)))" "same_below 4 buf buf'" "fields_at buf' 4 (status_fields info)"
    using w [unfolded e writes_def, rule_format, of buf 4] assms(2,3) by auto
  have n: "q div 8 + (if q mod 8 > 0 then 1 else 0) = (q + 7) div 8" for q :: nat by (cases "q mod 8 = 0") (auto, presburger+)
  obtain s1 s2 where st: "rlc_am_write16_bit_field 10 (of_nat (ack_sn info)) (buf, 0, 4) = Some s1"
      "rlc_am_write8_bit_field 1 (if nack_list info \<noteq> [] then 1 else 0) s1 = Some s2"
      "write_nacks (nack_list info) s2 = Some (buf', cur (4 + width (status_fields info)))"
    using b(1) unfolding c bind_eq_Some_conv by blast
  have "rlc_am_write_status_pdu buf info = Some (buf', (4 + width (status_fields info) + 7) div 8)"
    unfolding rlc_am_write_status_pdu_def st Option.bind.simps prod.case n ..
  then show ?thesis using b(2,3) by blast
qed

section \<open>Reading it back\<close>

lemma read_flag:
  assumes "has_field buf p 1 (of_bool b)" "p + 1 \<le> 8 * length buf"
  shows "rlc_am_read_bit_field buf (cur p) 1 = Some (of_bool b, cur (p + 1))"
  using read_field [OF assms(1) _ _ _ assms(2)] by (cases b) simp_all

lemma unat_small_16: "w < 65536 \<Longrightarrow> unat (of_nat w :: 16 word) = w"
  by (simp add: unat_of_nat take_bit_nat_eq_self)

lemma read_nack_fields:
  assumes "nack_ok nack" "fields_at buf p (nack_fields nack)" "p + width (nack_fields nack) \<le> 8 * length buf"
  shows "read_nack buf (cur p) = Some (nack, cur (p + width (nack_fields nack)))"
proof -
  have f: "has_field buf p 10 (nack_sn nack)" "has_field buf (p + 10) 1 (of_bool (nack_e1 nack))" "has_field buf (p + 10 + 1) 1 (of_bool (nack_e2 nack))"
    using assms(2) by (simp_all add: nack_fields_def)
  have l: "p + 10 + 1 + 1 \<le> 8 * length buf" using assms(3) by (simp add: nack_fields_def split: if_splits)
  have r: "rlc_am_read_bit_field buf (cur p) 10 = Some (of_nat (nack_sn nack), cur (p + 10))"
      "rlc_am_read_bit_field buf (cur (p + 10)) 1 = Some (of_bool (nack_e1 nack), cur (p + 10 + 1))"
      "rlc_am_read_bit_field buf (cur (p + 10 + 1)) 1 = Some (of_bool (nack_e2 nack), cur (p + 10 + 1 + 1))"
    using read_field [OF f(1)] read_flag [OF f(2)] read_flag [OF f(3)] assms(1) l by (simp_all add: nack_ok_def)
  have u: "unat (of_nat (nack_sn nack) :: 16 word) mod 1024 = nack_sn nack" using assms(1) by (simp add: nack_ok_def unat_small_16)
  have o: "odd (unat (of_bool b :: 16 word)) = b" for b by (cases b) simp_all
  show ?thesis
  proof (cases "nack_e2 nack")
    case False
    then show ?thesis unfolding read_nack_def r Option.bind.simps Let_def prod.case u o using assms(1) by (simp add: nack_fields_def nack_ok_def add.commute)
  next
    case True
    then have g: "has_field buf (p + 10 + 1 + 1) 15 (so_start nack)" "has_field buf (p + 10 + 1 + 1 + 15) 15 (so_end nack)" "p + 10 + 1 + 1 + 15 + 15 \<le> 8 * length buf"
      using assms(2,3) by (simp_all add: nack_fields_def add.assoc)
    have r2: "rlc_am_read_bit_field buf (cur (p + 10 + 1 + 1)) 15 = Some (of_nat (so_start nack), cur (p + 10 + 1 + 1 + 15))"
        "rlc_am_read_bit_field buf (cur (p + 10 + 1 + 1 + 15)) 15 = Some (of_nat (so_end nack), cur (p + 10 + 1 + 1 + 15 + 15))"
      using read_field [OF g(1)] read_field [OF g(2)] g(3) assms(1) by (simp_all add: nack_ok_def)
    have u2: "unat (of_nat (so_start nack) :: 16 word) mod 32768 = so_start nack" "unat (of_nat (so_end nack) :: 16 word) mod 32768 = so_end nack"
      using assms(1) by (simp_all add: nack_ok_def unat_small_16)
    have w: "p + width (nack_fields nack) = p + 10 + 1 + 1 + 15 + 15" using True by (simp add: nack_fields_def)
    show ?thesis unfolding read_nack_def r Option.bind.simps Let_def prod.case u o w using True r2 u2 by simp
  qed
qed

lemma read_nacks_fields:
  assumes "ms \<noteq> []" "\<forall>nack \<in> set ms. nack_ok nack" "\<forall>nack \<in> set (butlast ms). nack_e1 nack" "\<not> nack_e1 (last ms)"
    and "fields_at buf p (concat (map nack_fields ms))" "p + width (concat (map nack_fields ms)) \<le> 8 * length buf" "length ms \<le> room"
  shows "read_nacks room buf (cur p) ns = Some (0, ns @ ms, cur (p + width (concat (map nack_fields ms))))"
  using assms
proof (induction ms arbitrary: p ns room)
  case (Cons nack ms)
  obtain room' where room: "room = Suc room'" using Cons.prems(7) by (cases room) auto
  have f: "fields_at buf p (nack_fields nack)" "fields_at buf (p + width (nack_fields nack)) (concat (map nack_fields ms))"
    using Cons.prems(5) by (simp_all add: fields_at_append)
  have r: "read_nack buf (cur p) = Some (nack, cur (p + width (nack_fields nack)))"
    by (rule read_nack_fields [OF _ f(1)]) (use Cons.prems(2,6) in auto)
  show ?case
  proof (cases "ms = []")
    case True
    then show ?thesis using r room Cons.prems(4) by simp
  next
    case False
    then have e1: "nack_e1 nack" using Cons.prems(3) by simp
    have "read_nacks room' buf (cur (p + width (nack_fields nack))) (ns @ [nack]) =
        Some (0, (ns @ [nack]) @ ms, cur (p + width (nack_fields nack) + width (concat (map nack_fields ms))))"
      by (rule Cons.IH [OF False _ _ _ f(2)]) (use Cons.prems False room in auto)
    then show ?thesis using r room e1 by (simp add: add.assoc)
  qed
qed simp

lemma bits_cong: "(\<And>q. q < p + width fs \<Longrightarrow> bitat b q = bitat a q) \<Longrightarrow> fields_at b p fs = fields_at a p fs"
proof (induction a p fs rule: fields_at.induct)
  case (2 a p n w fs)
  have "bitat b (p + n - 1 - i) = bitat a (p + n - 1 - i)" if "i < n" for i using "2.prems" [of "p + n - 1 - i"] that by simp
  then show ?case using 2 by (simp add: has_field_def)
qed simp

text \<open>The two octets of the fixed part.\<close>

lemma header_octets:
  assumes "2 \<le> length buf" "\<forall>q < 4. \<not> bitat buf q" "has_field buf 4 10 w" "has_field buf 14 1 (of_bool e)" "w < 1024"
  shows "unat (drop_bit 7 (buf ! 0)) = 0" "unat (drop_bit 4 (buf ! 0) AND 0x07) = 0"
    "unat ((ucast (drop_bit 2 (buf ! 1) AND 0x3F) :: 16 word) OR push_bit 6 (ucast (buf ! 0 AND 0x0F))) mod 1024 = w"
    "odd (unat (drop_bit 1 (buf ! 1))) = e"
proof -
  have b0: "bit (buf ! 0) j = bitat buf (7 - j)" if "j < 8" for j using octet_bits_pos [OF that, of buf 0] by simp
  have b1: "bit (buf ! 1) j = bitat buf (15 - j)" if "j < 8" for j using octet_bits_pos [OF that, of buf 1] that by simp
  have top: "\<not> bit (buf ! 0) j" if "4 \<le> j" for j
  proof (cases "j < 8")
    case True
    then show ?thesis using b0 [OF True] assms(2) that by simp
  next
    case False
    then show ?thesis using bit_imp_le_length [of "buf ! 0" j] by auto
  qed
  have "drop_bit n (buf ! 0) = 0" if "4 \<le> n" for n
    by (rule bit_eqI) (use that top in \<open>simp add: bit_drop_bit_eq\<close>)
  then show "unat (drop_bit 7 (buf ! 0)) = 0" "unat (drop_bit 4 (buf ! 0) AND 0x07) = 0" by simp_all
  have m: "(0x3F :: octet) = mask 6" "(0x0F :: octet) = mask 4" by (simp_all add: mask_eq_exp_minus_1)
  have f: "bitat buf (13 - i) = bit w i" if "i < 10" for i using assms(3) that by (simp add: has_field_def)
  have w: "\<not> bit w i" if "10 \<le> i" for i using small_bits [of w 10 i] assms(5) that by simp
  have "(ucast (drop_bit 2 (buf ! 1) AND 0x3F) :: 16 word) OR push_bit 6 (ucast (buf ! 0 AND 0x0F)) = of_nat w"
  proof (rule bit_word_eqI)
    fix i
    assume "i < LENGTH(16)"
    then have i: "i < 16" by simp
    have "bit ((ucast (drop_bit 2 (buf ! 1) AND 0x3F) :: 16 word) OR push_bit 6 (ucast (buf ! 0 AND 0x0F))) i =
        (i < 6 \<and> bit (buf ! 1) (i + 2) \<or> 6 \<le> i \<and> i < 10 \<and> bit (buf ! 0) (i - 6))"
      unfolding m using i by (auto simp: bit_simps add.commute)
    also have "\<dots> = bit w i"
      using f [of i] w [of i] b1 [of "i + 2"] b0 [of "i - 6"] by (cases "i < 6"; cases "i < 10") auto
    finally show "bit ((ucast (drop_bit 2 (buf ! 1) AND 0x3F) :: 16 word) OR push_bit 6 (ucast (buf ! 0 AND 0x0F))) i = bit (of_nat w :: 16 word) i"
      using i by (simp add: bit_simps)
  qed
  then show "unat ((ucast (drop_bit 2 (buf ! 1) AND 0x3F) :: 16 word) OR push_bit 6 (ucast (buf ! 0 AND 0x0F))) mod 1024 = w"
    using assms(5) by (simp add: unat_small_16)
  have "bitat buf 14 = e" using assms(4) by (simp add: has_field_def bit_simps)
  then have "bit (buf ! 1) 1 = e" using b1 [of 1] by simp
  then have "bit (drop_bit 1 (buf ! 1)) 0 = e" by (simp add: bit_drop_bit_eq)
  moreover have "bit (unat (drop_bit 1 (buf ! 1))) 0 = bit (drop_bit 1 (buf ! 1)) 0" by (simp only: bit_unsigned_iff) simp
  ultimately show "odd (unat (drop_bit 1 (buf ! 1))) = e" by (simp only: bit_0)
qed

lemma written_status:
  assumes "info_ok info" "4 + width (status_fields info) \<le> 8 * room"
  defines "n \<equiv> (4 + width (status_fields info) + 7) div 8"
  shows "n \<le> room \<and> (\<exists>buf. rlc_am_write_status_pdu (replicate room 0) info = Some (buf, n) \<and> length buf = room \<and>
    (\<forall>rest total. rlc_am_get_control_pdu_infos (take n buf @ rest) total = Some (0, total - int n, info)))"
  unfolding n_def
proof -
  let ?p = "4 + width (status_fields info)"
  have z: "\<not> bitat (replicate room 0) q" if "q < 8 * room" for q
  proof -
    have "q div 8 < room" using that by linarith
    then show ?thesis by (simp add: bitat_def)
  qed
  have c: "clear (replicate room 0) 4" using z by (simp add: clear_def)
  obtain buf where b: "rlc_am_write_status_pdu (replicate room 0) info = Some (buf, (?p + 7) div 8)" "same_below 4 (replicate room 0) buf" "fields_at buf 4 (status_fields info)"
    using write_status_fields [OF assms(1) c] assms(2) by auto
  let ?n = "(?p + 7) div 8"
  have n: "?n \<le> room" "?p \<le> 8 * ?n" "length buf = room" using assms(2) b(2) by (auto simp: same_below_def)
  have p15: "15 \<le> ?p" by (simp add: status_fields_def)
  have "rlc_am_get_control_pdu_infos (take ?n buf @ rest) total = Some (0, total - int ?n, info)" for rest total
  proof -
    define pdu where "pdu = take ?n buf @ rest"
    have same: "bitat pdu q = bitat buf q" if "q < ?p" for q
    proof -
      have "q div 8 < ?n" using that n(2) by linarith
      then show ?thesis using n by (simp add: bitat_def pdu_def nth_append)
    qed
    have len: "8 * ?n \<le> 8 * length pdu" "2 \<le> length pdu" using n p15 by (auto simp: pdu_def)
    have f: "fields_at pdu 4 (status_fields info)" using b(3) bits_cong [of 4 "status_fields info" pdu buf] same by simp
    then have h: "has_field pdu 4 10 (ack_sn info)" "has_field pdu 14 1 (of_bool (nack_list info \<noteq> []))" "fields_at pdu 15 (concat (map nack_fields (nack_list info)))"
      by (simp_all add: status_fields_def)
    have zero: "\<forall>q < 4. \<not> bitat pdu q" using same b(2) z p15 assms(2) by (simp add: same_below_def)
    note hd = header_octets [OF len(2) zero h(1,2)]
    have i: "ack_sn info < 1024" "d_c info = 0" "cpt info = 0" "ctrl_e1 info = (nack_list info \<noteq> [])" using assms(1) by (simp_all add: info_ok_def)
    show ?thesis
    proof (cases "nack_list info = []")
      case True
      then have "?n = 2" by (simp add: status_fields_def)
      moreover have "info = zero_info\<lparr>ack_sn := ack_sn info, ctrl_e1 := False\<rparr>" using i True by (simp add: zero_info_def)
      ultimately show ?thesis unfolding pdu_def [symmetric] rlc_am_get_control_pdu_infos_def Let_def hd [OF i(1)] using len(2) True i(4) by simp
    next
      case False
      have p: "?p = 15 + width (concat (map nack_fields (nack_list info)))" by (simp add: status_fields_def)
      have c17: "(1, 7) = cur 15" by simp
      have "read_nacks RLC_AM_MAX_NACK_IN_STATUS_PDU pdu (1, 7) [] = Some (0, [] @ nack_list info, cur ?p)"
        unfolding c17 p by (rule read_nacks_fields [OF False _ _ _ h(3)]) (use assms(1) False len(1) n(2) p in \<open>auto simp: info_ok_def\<close>)
      moreover have "octets_of (cur ?p) = int ?n"
      proof -
        have "q div 8 + (q mod 8 + 7) div 8 = (q + 7) div 8" for q :: nat by presburger
        then show ?thesis by (simp add: octets_of_def)
      qed
      moreover have "info = zero_info\<lparr>ack_sn := ack_sn info, ctrl_e1 := True, nack_list := nack_list info\<rparr>" using i False by (simp add: zero_info_def)
      ultimately show ?thesis unfolding pdu_def [symmetric] rlc_am_get_control_pdu_infos_def Let_def hd [OF i(1)] using len(2) False by simp
    qed
  qed
  then show "?n \<le> room \<and> (\<exists>buf. rlc_am_write_status_pdu (replicate room 0) info = Some (buf, ?n) \<and> length buf = room \<and>
      (\<forall>rest total. rlc_am_get_control_pdu_infos (take ?n buf @ rest) total = Some (0, total - int ?n, info)))"
    using b(1) n by blast
qed

section \<open>Theorems on the encoding\<close>

text \<open>
  C16. \<open>rlc_am_get_control_pdu_infos\<close> reads back what \<open>rlc_am_write_status_pdu\<close> has written into a cleared buffer, whatever
  follows it in the transport block, and takes the number of octets written off the size of the block. Up to 1023 NACKs,
  with and without segment offsets, none of whose fields is aligned to octets.
\<close>

theorem am_status_round_trip:
  assumes "info_ok info" "4 + width (status_fields info) \<le> 8 * room"
  shows "\<exists>buf n. rlc_am_write_status_pdu (replicate room 0) info = Some (buf, n) \<and> n \<le> room \<and>
    (\<forall>rest total. rlc_am_get_control_pdu_infos (take n buf @ rest) total = Some (0, total - int n, info))"
  using written_status [OF assms] by blast

definition status_example :: rlc_am_control_pdu_info where
  "status_example = \<lparr>d_c = 0, cpt = 0, ack_sn = 515, ctrl_e1 = True, nack_list =
     [\<lparr>nack_sn = 510, nack_e1 = True, nack_e2 = False, so_start = 0, so_end = 0x7FFF\<rparr>,
      \<lparr>nack_sn = 512, nack_e1 = False, nack_e2 = True, so_start = 1000, so_end = 1999\<rparr>]\<rparr>"

theorem am_status_round_trip_witness:
  "\<exists>buf n. rlc_am_write_status_pdu (replicate 9 0) status_example = Some (buf, n) \<and>
    rlc_am_get_control_pdu_infos (take n buf @ [0xFF]) 100 = Some (0, 100 - int n, status_example)"
  using am_status_round_trip [of status_example 9]
  by (auto simp: status_example_def info_ok_def nack_ok_def status_fields_def nack_fields_def RLC_AM_MAX_NACK_IN_STATUS_PDU_def)

end
