(* ===== verification/RlcAmReport.thy ===== *)
theory RlcAmReport
  imports RlcAmStatus
begin

text \<open>
  The construction of a STATUS PDU, \<open>rlc_am_send_status_pdu\<close>: the loops over the receiver buffer, and that a report
  acknowledges only what has been received.
\<close>

section \<open>The report under construction\<close>

text \<open>The fields of \<open>control_pdu_info\<close> that are filled, \<open>nb_bits_transmitted\<close> and \<open>status_report_completed\<close>.\<close>

record am_report =
  rp_nacks :: "nack_sn_t list"
  rp_ack :: int
  rp_bits :: int
  rp_done :: bool
  rp_e1 :: bool

text \<open>A new entry of \<open>nack_list\<close>, whose fields have 10 and 15 bits. A write behind the list is a fault.\<close>

definition push_nack :: "int \<Rightarrow> bool \<Rightarrow> int \<Rightarrow> int \<Rightarrow> am_report \<Rightarrow> am_report option" where
  "push_nack sn e2 s t r =
     (if length (rp_nacks r) < RLC_AM_MAX_NACK_IN_STATUS_PDU
      then Some (r\<lparr>rp_nacks := rp_nacks r @ [\<lparr>nack_sn = nat (sn mod 1024), nack_e1 = True, nack_e2 = e2,
                                             so_start = nat (s mod 32768), so_end = nat (t mod 32768)\<rparr>],
                   rp_bits := rp_bits r + (if e2 then 42 else 12)\<rparr>)
      else None)"

definition stop_report :: "int \<Rightarrow> am_report \<Rightarrow> am_report" where
  "stop_report sn r = r\<lparr>rp_ack := sn, rp_done := True\<rparr>"

text \<open>The loop that reports the PDUs missing between \<open>sn_nack\<close> and \<open>sn_cursor\<close>.\<close>

lemma diff_next: "RLC_AM_DIFF_SN (RLC_AM_NEXT_SN sn) r0 = (RLC_AM_DIFF_SN sn r0 + 1) mod 1024"
proof -
  have "((sn + 1) mod 1024 + 1024 - r0) mod 1024 = (sn + 1 + 1024 - r0) mod 1024" by (metis add_diff_eq mod_add_left_eq)
  also have "sn + 1 + 1024 - r0 = (sn + 1024 - r0) + 1" by simp
  also have "((sn + 1024 - r0) + 1) mod 1024 = ((sn + 1024 - r0) mod 1024 + 1) mod 1024" by (simp only: mod_add_left_eq)
  finally show ?thesis by (simp add: RLC_AM_DIFF_SN_def RLC_AM_NEXT_SN_def RLC_AM_SN_MODULO_def)
qed

lemma diff_range: "0 \<le> RLC_AM_DIFF_SN sn r0" "RLC_AM_DIFF_SN sn r0 < 1024"
  by (simp_all add: RLC_AM_DIFF_SN_def RLC_AM_SN_MODULO_def)

lemma diff_next_below: "RLC_AM_DIFF_SN sn r0 < RLC_AM_DIFF_SN ms r0 \<Longrightarrow> RLC_AM_DIFF_SN (RLC_AM_NEXT_SN sn) r0 = RLC_AM_DIFF_SN sn r0 + 1"
  using diff_range [of sn r0] diff_range [of ms r0] by (simp add: diff_next)

function push_missing :: "int \<Rightarrow> int \<Rightarrow> int \<Rightarrow> int \<Rightarrow> int \<Rightarrow> am_report \<Rightarrow> (int \<times> am_report) option" where
  "push_missing r0 ms limit sn_cursor sn_nack r =
     (if sn_nack \<noteq> sn_cursor \<and> RLC_AM_DIFF_SN sn_nack r0 < RLC_AM_DIFF_SN ms r0
      then if rp_bits r + 12 \<le> limit
           then Option.bind (push_nack sn_nack False 0 RLC_AM_STATUS_PDU_SO_END_ALL_BYTES r)
                  (push_missing r0 ms limit sn_cursor (RLC_AM_NEXT_SN sn_nack))
           else Some (sn_nack, stop_report sn_nack r)
      else Some (sn_nack, r))"
  by pat_completeness auto

termination
proof (relation "measure (\<lambda>(r0, ms, limit, sn_cursor, sn_nack, r). nat (RLC_AM_DIFF_SN ms r0 - RLC_AM_DIFF_SN sn_nack r0))")
  fix r0 ms limit sn_cursor sn_nack r x
  assume "sn_nack \<noteq> sn_cursor \<and> RLC_AM_DIFF_SN sn_nack r0 < RLC_AM_DIFF_SN ms r0"
  then show "((r0, ms, limit, sn_cursor, RLC_AM_NEXT_SN sn_nack, x), r0, ms, limit, sn_cursor, sn_nack, r)
      \<in> measure (\<lambda>(r0, ms, limit, sn_cursor, sn_nack, r). nat (RLC_AM_DIFF_SN ms r0 - RLC_AM_DIFF_SN sn_nack r0))"
    using diff_next_below [of sn_nack r0 ms] by simp
qed simp

declare push_missing.simps [simp del]

text \<open>The loop over the other segments of \<open>sn_cursor\<close>; it gives the cursor and the report.\<close>

fun seg_loop :: "int \<Rightarrow> int \<Rightarrow> int \<Rightarrow> rlc_am_rx_pdu list \<Rightarrow> am_report \<Rightarrow> (rlc_am_rx_pdu list \<times> am_report) option" where
  "seg_loop limit sn waited cs r =
     (case cs of
        [] \<Rightarrow>
          if rp_bits r + 42 \<le> limit then map_option (Pair cs) (push_nack sn True waited RLC_AM_STATUS_PDU_SO_END_ALL_BYTES r)
          else Some (cs, stop_report sn r)
      | c # cs' \<Rightarrow>
          if rx_sn c \<noteq> sn then
            if rp_bits r + 42 \<le> limit then map_option (Pair cs) (push_nack sn True waited RLC_AM_STATUS_PDU_SO_END_ALL_BYTES r)
            else Some (cs, stop_report sn r)
          else if waited < rx_so c then
            if rp_bits r + 42 \<le> limit then do {
              r1 \<leftarrow> push_nack sn True waited (rx_so c - 1) r;
              if rx_lsf c then Some (cs', r1) else seg_loop limit sn waited cs' r1 }
            else Some (cs, stop_report sn r)
          else if rx_lsf c then Some (cs', r)
          else seg_loop limit sn (waited + rx_payload_size c) cs' r)"

declare seg_loop.simps [simp del]

text \<open>The PDU \<open>c\<close> at the cursor has not been received completely.\<close>

definition report_segments :: "int \<Rightarrow> rlc_am_rx_pdu \<Rightarrow> rlc_am_rx_pdu list \<Rightarrow> am_report \<Rightarrow> (rlc_am_rx_pdu list \<times> am_report) option" where
  "report_segments limit c cs r =
     (if rp_bits r + 42 \<le> limit then do {
        r1 \<leftarrow> (if rx_so c \<noteq> 0 then push_nack (rx_sn c) True 0 (rx_so c - 1) r else Some r);
        let waited = (if rx_so c \<noteq> 0 then rx_so c + rx_payload_size c else rx_payload_size c);
        if rx_lsf c then Some (cs, r1) else seg_loop limit (rx_sn c) waited cs r1 }
      else Some (c # cs, stop_report (rx_sn c) r))"

text \<open>The main loop. Each round takes at least one element off the cursor; \<open>n\<close> counts the rounds left.\<close>

fun status_loop :: "nat \<Rightarrow> int \<Rightarrow> int \<Rightarrow> int \<Rightarrow> rlc_am_rx_pdu list \<Rightarrow> int \<Rightarrow> bool \<Rightarrow> am_report \<Rightarrow> (int \<times> bool \<times> am_report) option" where
  "status_loop n r0 ms limit [] sn_nack all r = Some (sn_nack, all, r)"
| "status_loop n r0 ms limit (c # cs) sn_nack all r =
     (if \<not> rp_done r \<and> RLC_AM_DIFF_SN sn_nack r0 < RLC_AM_DIFF_SN ms r0 \<and> rp_bits r \<le> limit
      then case n of
        0 \<Rightarrow> None
      | Suc n' \<Rightarrow> do {
          (sn1, r1) \<leftarrow> push_missing r0 ms limit (rx_sn c) sn_nack r;
          if sn1 = ms then Some (sn1, all_segments_received c, r1)
          else do {
            (cs1, r2) \<leftarrow> (if \<not> rp_done r1 \<and> \<not> all_segments_received c \<and> rx_sn c \<noteq> ms
                          then if sn1 = rx_sn c then report_segments limit c cs r1 else None
                          else Some (dropWhile (\<lambda>d. rx_sn d = rx_sn c) cs, r1));
            let sn2 = (if RLC_AM_DIFF_SN (rx_sn c) r0 < RLC_AM_DIFF_SN ms r0 then RLC_AM_NEXT_SN (rx_sn c) else ms);
            status_loop n' r0 ms limit cs1 sn2 (all_segments_received c) r2 } }
      else Some (sn_nack, all, r))"

text \<open>\<open>control_pdu_info.nack_list[num_nack - 1].e1 = 0\<close>\<close>

definition close_nacks :: "nack_sn_t list \<Rightarrow> nack_sn_t list" where
  "close_nacks ns = (if ns = [] then [] else butlast ns @ [(last ns)\<lparr>nack_e1 := False\<rparr>])"

definition build_report :: "rlc_am_rx_entity \<Rightarrow> am_report option" where
  "build_report e =
     (let limit = am_nb_bytes_requested_by_mac e * 8;
          r = \<lparr>rp_nacks = [], rp_ack = 0, rp_bits = 15, rp_done = False, rp_e1 = False\<rparr>
      in if vr_r e = vr_ms e then Some (r\<lparr>rp_ack := vr_ms e\<rparr>)
         else if receiver_buffer e \<noteq> [] \<and> rp_bits r + 12 \<le> limit then do {
           (sn, all, r1) \<leftarrow> status_loop (length (receiver_buffer e)) (vr_r e) (vr_ms e) limit (receiver_buffer e) (vr_r e) False (r\<lparr>rp_e1 := True\<rparr>);
           if rp_nacks r1 = [] \<and> all then None
           else
             let r2 = r1\<lparr>rp_nacks := close_nacks (rp_nacks r1)\<rparr>
             in Some (if rp_done r2 then r2 else r2\<lparr>rp_ack := sn\<rparr>) }
         else Some (r\<lparr>rp_ack := vr_r e\<rparr>))"

text \<open>\<open>alloc\<close> gives the part of the block behind \<open>struct mac_tb_req\<close>, which is cleared; there is no check for NULL.\<close>

definition rlc_am_send_status_pdu :: "(nat \<Rightarrow> octet list option) \<Rightarrow> rlc_am_rx_entity \<Rightarrow> rlc_am_rx_entity option" where
  "rlc_am_send_status_pdu alloc e = do {
     r \<leftarrow> build_report e;
     let pdu_size = (rp_bits r + 7) div 8;
     if pdu_size > am_nb_bytes_requested_by_mac e then None
     else do {
       block \<leftarrow> alloc (nat pdu_size);
       if length block < nat pdu_size then None
       else do {
         (buf, n) \<leftarrow> rlc_am_write_status_pdu (replicate (nat pdu_size) 0)
           \<lparr>d_c = 0, cpt = 0, ack_sn = nat (rp_ack r mod 1024), ctrl_e1 = rp_e1 r, nack_list = rp_nacks r\<rparr>;
         if int n \<noteq> pdu_size then None
         else Some (e\<lparr>am_nb_bytes_requested_by_mac := am_nb_bytes_requested_by_mac e - int n,
                      control_pdu_list := take n buf # control_pdu_list e,
                      stat_tx_control_pdu := stat_tx_control_pdu e + 1,
                      stat_tx_control_bytes := stat_tx_control_bytes e + of_nat n\<rparr>) } } }"

section \<open>What a report claims\<close>

text \<open>Octet \<open>x\<close> of PDU \<open>sn\<close> is reported missing; it has been received.\<close>

definition nacked :: "nack_sn_t list \<Rightarrow> int \<Rightarrow> int \<Rightarrow> bool" where
  "nacked ns sn x \<longleftrightarrow> (\<exists>nack \<in> set ns. int (nack_sn nack) = sn \<and> int (so_start nack) \<le> x \<and> x \<le> int (so_end nack))"

definition received :: "rlc_am_rx_pdu list \<Rightarrow> int \<Rightarrow> int \<Rightarrow> bool" where
  "received buf sn x \<longleftrightarrow> (\<exists>c \<in> set buf. rx_sn c = sn \<and>
     (all_segments_received c \<or> rx_so c \<le> x \<and> (x < rx_so c + rx_payload_size c \<or> rx_lsf c)))"

definition settled :: "nack_sn_t list \<Rightarrow> rlc_am_rx_pdu list \<Rightarrow> int \<Rightarrow> bool" where
  "settled ns buf sn \<longleftrightarrow> (\<forall>x. 0 \<le> x \<and> x \<le> 0x7FFF \<longrightarrow> nacked ns sn x \<or> received buf sn x)"

text \<open>
  The receiver buffer: elements in the order of their sequence numbers from VR(R) on, the segments of a PDU in the order of
  their offsets and without overlap, the one with the last segment flag at the end.
\<close>

definition before :: "int \<Rightarrow> rlc_am_rx_pdu \<Rightarrow> rlc_am_rx_pdu \<Rightarrow> bool" where
  "before r0 c d \<longleftrightarrow> RLC_AM_DIFF_SN (rx_sn c) r0 < RLC_AM_DIFF_SN (rx_sn d) r0 \<or>
     rx_sn c = rx_sn d \<and> rx_so c + rx_payload_size c \<le> rx_so d \<and> \<not> rx_lsf c"

definition elem_ok :: "rlc_am_rx_pdu \<Rightarrow> bool" where
  "elem_ok c \<longleftrightarrow> 0 \<le> rx_sn c \<and> rx_sn c < 1024 \<and> 0 \<le> rx_so c \<and> 0 \<le> rx_payload_size c \<and> rx_so c + rx_payload_size c < 32768"

text \<open>The bits of the NACKs, and what the loops keep of a report.\<close>

definition nack_width :: "nack_sn_t \<Rightarrow> nat" where
  "nack_width nack = (if nack_e2 nack then 42 else 12)"

definition report_ok :: "int \<Rightarrow> am_report \<Rightarrow> bool" where
  "report_ok limit r \<longleftrightarrow> rp_bits r = 15 + int (sum_list (map nack_width (rp_nacks r))) \<and> rp_bits r \<le> limit \<and>
     (\<forall>nack \<in> set (rp_nacks r). nack_ok nack \<and> nack_e1 nack)"

lemma width_bound: "12 * length ns \<le> sum_list (map nack_width ns)"
  by (induction ns) (auto simp: nack_width_def)

lemma push_ok:
  assumes "report_ok limit r" "limit \<le> 15 + 12 * 1023 + 11" "rp_bits r + (if e2 then 42 else 12) \<le> limit"
    and "0 \<le> sn" "sn < 1024" "0 \<le> s" "s < 32768" "0 \<le> t" "t < 32768" "\<not> e2 \<Longrightarrow> s = 0 \<and> t = 0x7FFF"
  defines "nack \<equiv> \<lparr>nack_sn = nat sn, nack_e1 = True, nack_e2 = e2, so_start = nat s, so_end = nat t\<rparr>"
  shows "push_nack sn e2 s t r = Some (r\<lparr>rp_nacks := rp_nacks r @ [nack], rp_bits := rp_bits r + (if e2 then 42 else 12)\<rparr>)"
    "report_ok limit (r\<lparr>rp_nacks := rp_nacks r @ [nack], rp_bits := rp_bits r + (if e2 then 42 else 12)\<rparr>)"
proof -
  have "12 * int (length (rp_nacks r)) \<le> rp_bits r - 15" using assms(1) width_bound [of "rp_nacks r"] by (simp add: report_ok_def)
  moreover have "rp_bits r + 12 \<le> limit" using assms(3) by (simp split: if_splits)
  ultimately have "length (rp_nacks r) < 1023" using assms(2) by linarith
  then show "push_nack sn e2 s t r = Some (r\<lparr>rp_nacks := rp_nacks r @ [nack], rp_bits := rp_bits r + (if e2 then 42 else 12)\<rparr>)"
    using assms(4-9) by (simp add: push_nack_def nack_def RLC_AM_MAX_NACK_IN_STATUS_PDU_def)
  show "report_ok limit (r\<lparr>rp_nacks := rp_nacks r @ [nack], rp_bits := rp_bits r + (if e2 then 42 else 12)\<rparr>)"
    using assms(1,3-10) by (auto simp: report_ok_def nack_def nack_width_def nack_ok_def)
qed

lemma nacked_append: "nacked (ns @ ms) sn x \<longleftrightarrow> nacked ns sn x \<or> nacked ms sn x"
  by (auto simp: nacked_def)

lemma settled_append: "settled ns buf sn \<Longrightarrow> settled (ns @ ms) buf sn"
  by (auto simp: settled_def nacked_append)

section \<open>Sequence numbers as distances from VR(R)\<close>

definition sn_of :: "int \<Rightarrow> int \<Rightarrow> int" where
  "sn_of r0 d = (r0 + d) mod 1024"

lemma sn_of_range: "0 \<le> sn_of r0 d" "sn_of r0 d < 1024"
  by (simp_all add: sn_of_def)

lemma diff_sn_of: "0 \<le> d \<Longrightarrow> d < 1024 \<Longrightarrow> RLC_AM_DIFF_SN (sn_of r0 d) r0 = d"
proof -
  assume d: "0 \<le> d" "d < 1024"
  have "((r0 + d) mod 1024 + 1024 - r0) mod 1024 = (r0 + d + 1024 - r0) mod 1024" by (metis add_diff_eq mod_add_left_eq)
  then show ?thesis using d by (simp add: RLC_AM_DIFF_SN_def RLC_AM_SN_MODULO_def sn_of_def)
qed

lemma sn_of_diff: "0 \<le> sn \<Longrightarrow> sn < 1024 \<Longrightarrow> sn_of r0 (RLC_AM_DIFF_SN sn r0) = sn"
proof -
  assume sn: "0 \<le> sn" "sn < 1024"
  have "(r0 + (sn + 1024 - r0) mod 1024) mod 1024 = (r0 + (sn + 1024 - r0)) mod 1024" by (rule mod_add_right_eq)
  then show ?thesis using sn by (simp add: RLC_AM_DIFF_SN_def RLC_AM_SN_MODULO_def sn_of_def)
qed

lemma next_sn_of: "RLC_AM_NEXT_SN (sn_of r0 d) = sn_of r0 (d + 1)"
  by (simp add: RLC_AM_NEXT_SN_def RLC_AM_SN_MODULO_def sn_of_def mod_add_left_eq add.assoc)

text \<open>A PDU of which nothing has been received, and the report of those at distances from \<open>d\<close> up to \<open>e\<close>.\<close>

definition whole :: "int \<Rightarrow> nack_sn_t" where
  "whole sn = \<lparr>nack_sn = nat sn, nack_e1 = True, nack_e2 = False, so_start = 0, so_end = 0x7FFF\<rparr>"

definition add_missing :: "int \<Rightarrow> int \<Rightarrow> int \<Rightarrow> am_report \<Rightarrow> am_report" where
  "add_missing r0 d e r = r\<lparr>rp_nacks := rp_nacks r @ map (\<lambda>d. whole (sn_of r0 d)) [d..e - 1], rp_bits := rp_bits r + 12 * (e - d)\<rparr>"

lemma add_missing_same: "add_missing r0 d d r = r"
  by (simp add: add_missing_def)

lemma push_missing_ok:
  assumes "report_ok limit r" "limit \<le> 15 + 12 * 1023 + 11" "0 \<le> d" "d \<le> m" "m = min (RLC_AM_DIFF_SN sn_cursor r0) (RLC_AM_DIFF_SN ms r0)"
    and "0 \<le> sn_cursor" "sn_cursor < 1024"
  shows "\<exists>e. d \<le> e \<and> e \<le> m \<and> report_ok limit (add_missing r0 d e r) \<and> (rp_bits r + 12 \<le> limit \<and> d < m \<longrightarrow> d < e) \<and>
    push_missing r0 ms limit sn_cursor (sn_of r0 d) r =
      Some (sn_of r0 e, if e < m then stop_report (sn_of r0 e) (add_missing r0 d e r) else add_missing r0 d e r)"
  using assms(1,3,4)
proof (induction "nat (m - d)" arbitrary: d r)
  case 0
  then have d: "d = m" by simp
  have D: "RLC_AM_DIFF_SN (sn_of r0 d) r0 = m" using d 0 diff_sn_of [of d r0] diff_range [of sn_cursor r0] assms(5) by simp
  have "\<not> (sn_of r0 d \<noteq> sn_cursor \<and> m < RLC_AM_DIFF_SN ms r0)"
    using d assms(5) sn_of_diff [OF assms(6,7), of r0] by (auto simp: min_def split: if_splits)
  then have "push_missing r0 ms limit sn_cursor (sn_of r0 d) r = Some (sn_of r0 d, r)" by (subst push_missing.simps) (auto simp: D)
  then show ?case using d 0 by (intro exI [of _ d]) (simp add: add_missing_same)
next
  case (Suc k)
  then have d: "d < m" "k = nat (m - (d + 1))" by simp_all
  have D: "RLC_AM_DIFF_SN (sn_of r0 d) r0 = d" using d(1) Suc.prems diff_sn_of [of d r0] diff_range [of sn_cursor r0] assms(5) by simp
  have go: "sn_of r0 d \<noteq> sn_cursor \<and> RLC_AM_DIFF_SN (sn_of r0 d) r0 < RLC_AM_DIFF_SN ms r0" using D d(1) assms(5) by auto
  show ?case
  proof (cases "rp_bits r + 12 \<le> limit")
    case False
    then have "push_missing r0 ms limit sn_cursor (sn_of r0 d) r = Some (sn_of r0 d, stop_report (sn_of r0 d) r)"
      using go by (subst push_missing.simps) simp
    then show ?thesis using d(1) Suc.prems False by (intro exI [of _ d]) (simp add: add_missing_same)
  next
    case True
    define r1 where "r1 = add_missing r0 d (d + 1) r"
    have p: "push_nack (sn_of r0 d) False 0 RLC_AM_STATUS_PDU_SO_END_ALL_BYTES r = Some r1" "report_ok limit r1"
      using push_ok [OF Suc.prems(1) assms(2), of False "sn_of r0 d" 0 "0x7FFF"] True sn_of_range [of r0 d]
      by (simp_all add: r1_def add_missing_def whole_def RLC_AM_STATUS_PDU_SO_END_ALL_BYTES_def)
    have step: "push_missing r0 ms limit sn_cursor (sn_of r0 d) r = push_missing r0 ms limit sn_cursor (sn_of r0 (d + 1)) r1"
      using go True p(1) by (subst push_missing.simps) (simp add: next_sn_of)
    obtain e where e: "d + 1 \<le> e" "e \<le> m" "report_ok limit (add_missing r0 (d + 1) e r1)"
        "push_missing r0 ms limit sn_cursor (sn_of r0 (d + 1)) r1 =
          Some (sn_of r0 e, if e < m then stop_report (sn_of r0 e) (add_missing r0 (d + 1) e r1) else add_missing r0 (d + 1) e r1)"
      using Suc.hyps(1) [OF d(2) p(2)] Suc.prems d(1) by auto
    have "[d..e - 1] = d # [d + 1..e - 1]" using e(1) by (simp add: upto_rec1)
    then have "add_missing r0 (d + 1) e r1 = add_missing r0 d e r" by (simp add: add_missing_def r1_def)
    then show ?thesis using e(1,2) e(3,4) step by (intro exI [of _ e]) (simp only: if_True, auto)
  qed
qed

lemma settled_missing:
  assumes "0 \<le> sn" "sn < 1024" "d \<le> RLC_AM_DIFF_SN sn r0" "RLC_AM_DIFF_SN sn r0 < e"
  shows "settled (map (\<lambda>d. whole (sn_of r0 d)) [d..e - 1]) buf sn"
proof -
  have "whole sn \<in> set (map (\<lambda>d. whole (sn_of r0 d)) [d..e - 1])"
    using assms sn_of_diff [OF assms(1,2), of r0] by (auto intro!: image_eqI [of _ _ "RLC_AM_DIFF_SN sn r0"])
  moreover have "nacked [whole sn] sn x" if "0 \<le> x" "x \<le> 0x7FFF" for x using that assms(1) by (simp add: nacked_def whole_def)
  ultimately show ?thesis unfolding settled_def nacked_def by fastforce
qed

section \<open>The segments of one PDU\<close>

text \<open>
  What the loop over the segments gives. Either it stopped for lack of room, and the report acknowledges up to \<open>sn\<close>, or every
  octet of \<open>sn\<close> is accounted for and the cursor stands on the next sequence number.
\<close>

definition segs_done :: "int \<Rightarrow> rlc_am_rx_pdu list \<Rightarrow> int \<Rightarrow> rlc_am_rx_pdu list \<Rightarrow> am_report \<Rightarrow> rlc_am_rx_pdu list \<times> am_report \<Rightarrow> bool" where
  "segs_done limit buf sn cs r = (\<lambda>(cs', r'). report_ok limit r' \<and>
     (\<exists>ms. rp_nacks r' = rp_nacks r @ ms \<and> (\<forall>nack \<in> set ms. nack_e2 nack)) \<and>
     (if rp_done r' then rp_ack r' = sn
      else cs' = dropWhile (\<lambda>d. rx_sn d = sn) cs \<and> settled (rp_nacks r') buf sn))"

text \<open>The octets of \<open>sn\<close> below \<open>w\<close> are accounted for.\<close>

definition covered :: "nack_sn_t list \<Rightarrow> rlc_am_rx_pdu list \<Rightarrow> int \<Rightarrow> int \<Rightarrow> bool" where
  "covered ns buf sn w \<longleftrightarrow> (\<forall>x. 0 \<le> x \<and> x < w \<longrightarrow> nacked ns sn x \<or> received buf sn x)"

lemma covered_push:
  assumes "covered ns buf sn w" "0 \<le> sn" "0 \<le> w"
  shows "covered (ns @ [\<lparr>nack_sn = nat sn, nack_e1 = a, nack_e2 = b, so_start = nat w, so_end = nat t\<rparr>]) buf sn (t + 1)"
  using assms by (auto simp: covered_def nacked_append) (auto simp: nacked_def)

lemma covered_received:
  assumes "covered ns buf sn (rx_so c)" "c \<in> set buf" "rx_sn c = sn"
  shows "covered ns buf sn (rx_so c + rx_payload_size c)" "rx_lsf c \<Longrightarrow> settled ns buf sn"
proof -
  have "received buf sn x" if "rx_so c \<le> x" "x < rx_so c + rx_payload_size c \<or> rx_lsf c" for x
    using assms(2,3) that by (auto simp: received_def)
  then show "covered ns buf sn (rx_so c + rx_payload_size c)" "rx_lsf c \<Longrightarrow> settled ns buf sn"
    using assms(1) unfolding covered_def settled_def by (meson not_le)+
qed

lemma covered_settled: "covered ns buf sn (0x7FFF + 1) \<Longrightarrow> settled ns buf sn"
  by (auto simp: covered_def settled_def)

lemma covered_mono: "covered ns buf sn w \<Longrightarrow> v \<le> w \<Longrightarrow> covered ns buf sn v"
  by (auto simp: covered_def)

lemma seg_loop_end:
  assumes "cs = [] \<or> rx_sn (hd cs) \<noteq> sn"
  shows "seg_loop limit sn waited cs r =
    (if rp_bits r + 42 \<le> limit then map_option (Pair cs) (push_nack sn True waited RLC_AM_STATUS_PDU_SO_END_ALL_BYTES r) else Some (cs, stop_report sn r))"
  using assms by (subst seg_loop.simps) (auto split: list.split)

lemma report_ok_stop [simp]: "report_ok limit (stop_report sn r) = report_ok limit r"
  by (simp add: report_ok_def stop_report_def)

lemma stopped [simp]: "rp_done (stop_report sn r)" "rp_ack (stop_report sn r) = sn" "rp_nacks (stop_report sn r) = rp_nacks r"
  by (simp_all add: stop_report_def)

lemma lsf_last:
  assumes "sorted_wrt (before r0) (c # cs)" "rx_lsf c"
  shows "dropWhile (\<lambda>d. rx_sn d = rx_sn c) cs = cs"
  using assms by (cases cs) (auto simp: before_def)

lemma segs_done_trans:
  assumes "segs_done limit buf sn cs r1 x" "rp_nacks r1 = rp_nacks r @ ms" "\<forall>nack \<in> set ms. nack_e2 nack" "rx_sn c = sn"
  shows "segs_done limit buf sn (c # cs) r x"
  using assms by (fastforce simp: segs_done_def split: prod.splits)

lemma seg_last_ok:
  assumes "report_ok limit r" "limit \<le> 15 + 12 * 1023 + 11" "\<not> rp_done r" "0 \<le> sn" "sn < 1024" "0 \<le> waited" "waited < 32768"
    and "cs = [] \<or> rx_sn (hd cs) \<noteq> sn" "covered (rp_nacks r) buf sn waited"
  shows "\<exists>x. seg_loop limit sn waited cs r = Some x \<and> segs_done limit buf sn cs r x"
proof -
  have "dropWhile (\<lambda>d. rx_sn d = sn) cs = cs" using assms(8) by (cases cs) auto
  then show ?thesis
    using assms(1,3-7) push_ok [OF assms(1,2), of True sn waited "0x7FFF"] covered_settled [of _ buf sn] covered_push [OF assms(9,4,6), of True True "0x7FFF"]
    by (auto simp: seg_loop_end [OF assms(8)] segs_done_def RLC_AM_STATUS_PDU_SO_END_ALL_BYTES_def)
qed

lemma seg_loop_ok:
  assumes "report_ok limit r" "limit \<le> 15 + 12 * 1023 + 11" "\<not> rp_done r" "0 \<le> sn" "sn < 1024" "0 \<le> waited" "waited < 32768"
    and "sorted_wrt (before r0) cs" "\<forall>c \<in> set cs. elem_ok c" "set cs \<subseteq> set buf" "\<forall>c \<in> set cs. rx_sn c = sn \<longrightarrow> waited \<le> rx_so c"
    and "covered (rp_nacks r) buf sn waited"
  shows "\<exists>x. seg_loop limit sn waited cs r = Some x \<and> segs_done limit buf sn cs r x"
  using assms(1,3,6-12)
proof (induction cs arbitrary: waited r)
  case Nil
  then show ?case using assms(2,4,5) by (intro seg_last_ok) simp_all
next
  case (Cons c cs)
  note p = Cons.prems
  have c: "elem_ok c" "c \<in> set buf" using p(6,7) by simp_all
  show ?case
  proof (cases "rx_sn c = sn")
    case False
    then show ?thesis using assms(2,4,5) p by (intro seg_last_ok) simp_all
  next
    case sn: True
    have rest: "sorted_wrt (before r0) cs" "\<forall>c \<in> set cs. elem_ok c" "set cs \<subseteq> set buf" using p(5-7) by simp_all
    have after: "\<forall>d \<in> set cs. rx_sn d = sn \<longrightarrow> rx_so c + rx_payload_size c \<le> rx_so d" using p(5) sn by (auto simp: before_def)
    have w: "waited \<le> rx_so c" using p(8) sn by simp
    note drop = lsf_last [OF p(5)]
    show ?thesis
    proof (cases "waited < rx_so c")
      case False
      then have w: "waited = rx_so c" using w by simp
      note cov = covered_received [OF p(9) [unfolded w] c(2) sn]
      show ?thesis
      proof (cases "rx_lsf c")
        case True
        then have "seg_loop limit sn waited (c # cs) r = Some (cs, r)" using sn False by (subst seg_loop.simps) simp
        then show ?thesis using p(1,2) cov(2) True drop sn by (auto simp: segs_done_def)
      next
        case lsf: False
        have "seg_loop limit sn waited (c # cs) r = seg_loop limit sn (waited + rx_payload_size c) cs r" using sn False lsf by (subst seg_loop.simps) simp
        moreover have "\<exists>x. seg_loop limit sn (waited + rx_payload_size c) cs r = Some x \<and> segs_done limit buf sn cs r x"
          by (rule Cons.IH [OF p(1,2)]) (use c(1) rest after cov(1) w in \<open>auto simp: elem_ok_def\<close>)
        ultimately show ?thesis using segs_done_trans [of limit buf sn cs r _ r "[]" c] sn by auto
      qed
    next
      case gap: True
      show ?thesis
      proof (cases "rp_bits r + 42 \<le> limit")
        case False
        then have "seg_loop limit sn waited (c # cs) r = Some (c # cs, stop_report sn r)" using sn gap by (subst seg_loop.simps) simp
        then show ?thesis using p(1) by (simp add: segs_done_def)
      next
        case room: True
        define nack where "nack = \<lparr>nack_sn = nat sn, nack_e1 = True, nack_e2 = True, so_start = nat waited, so_end = nat (rx_so c - 1)\<rparr>"
        define r1 where "r1 = r\<lparr>rp_nacks := rp_nacks r @ [nack], rp_bits := rp_bits r + 42\<rparr>"
        have r1: "push_nack sn True waited (rx_so c - 1) r = Some r1" "report_ok limit r1"
          using push_ok [OF p(1) assms(2), of True sn waited "rx_so c - 1"] room assms(4,5) p(3,4) gap c(1) by (simp_all add: r1_def nack_def elem_ok_def)
        have n1: "rp_nacks r1 = rp_nacks r @ [nack]" "\<forall>n \<in> set [nack]. nack_e2 n" "\<not> rp_done r1" using p(2) by (simp_all add: r1_def nack_def)
        have cov: "covered (rp_nacks r1) buf sn (rx_so c)"
          using covered_push [OF p(9) assms(4) p(3), of True True "rx_so c - 1"] by (simp add: r1_def nack_def)
        show ?thesis
        proof (cases "rx_lsf c")
          case True
          then have "seg_loop limit sn waited (c # cs) r = Some (cs, r1)" using sn gap room r1(1) by (subst seg_loop.simps) simp
          then show ?thesis using r1(2) n1 covered_received(2) [OF cov c(2) sn True] drop [OF True] sn by (auto simp: segs_done_def)
        next
          case False
          then have "seg_loop limit sn waited (c # cs) r = seg_loop limit sn waited cs r1" using sn gap room r1(1) by (subst seg_loop.simps) simp
          moreover have "\<exists>x. seg_loop limit sn waited cs r1 = Some x \<and> segs_done limit buf sn cs r1 x"
            by (rule Cons.IH [OF r1(2) n1(3) p(3,4) rest])
              (use after gap c(1) covered_mono [OF cov, of waited] in \<open>force simp: elem_ok_def\<close>)+
          ultimately show ?thesis using segs_done_trans [OF _ n1(1,2) sn] by auto
        qed
      qed
    qed
  qed
qed

lemma report_segments_ok:
  assumes "report_ok limit r" "limit \<le> 15 + 12 * 1023 + 11" "\<not> rp_done r"
    and "sorted_wrt (before r0) (c # cs)" "\<forall>d \<in> set (c # cs). elem_ok d" "set (c # cs) \<subseteq> set buf"
  shows "\<exists>x. report_segments limit c cs r = Some x \<and> segs_done limit buf (rx_sn c) (c # cs) r x"
proof (cases "rp_bits r + 42 \<le> limit")
  case False
  then show ?thesis using assms(1) by (simp add: report_segments_def segs_done_def)
next
  case room: True
  have c: "elem_ok c" "c \<in> set buf" using assms(5,6) by simp_all
  define ms where "ms = (if rx_so c \<noteq> 0 then [\<lparr>nack_sn = nat (rx_sn c), nack_e1 = True, nack_e2 = True, so_start = 0, so_end = nat (rx_so c - 1)\<rparr>] else [])"
  have z: "covered (rp_nacks r) buf (rx_sn c) 0" by (auto simp: covered_def)
  obtain r1 where r1: "(if rx_so c \<noteq> 0 then push_nack (rx_sn c) True 0 (rx_so c - 1) r else Some r) = Some r1" "report_ok limit r1"
      "rp_nacks r1 = rp_nacks r @ ms" "\<not> rp_done r1" "covered (rp_nacks r1) buf (rx_sn c) (rx_so c)"
    using push_ok [OF assms(1,2), of True "rx_sn c" 0 "rx_so c - 1"] room assms(1,3) c(1) z covered_push [OF z, of True True "rx_so c - 1"]
    by (cases "rx_so c = 0") (auto simp: elem_ok_def ms_def)
  have e2: "\<forall>n \<in> set ms. nack_e2 n" by (simp add: ms_def)
  have w: "(if rx_so c \<noteq> 0 then rx_so c + rx_payload_size c else rx_payload_size c) = rx_so c + rx_payload_size c" by simp
  note cov = covered_received [OF r1(5) c(2) refl]
  have eq: "report_segments limit c cs r = (if rx_lsf c then Some (cs, r1) else seg_loop limit (rx_sn c) (rx_so c + rx_payload_size c) cs r1)"
    using room by (simp only: report_segments_def r1(1) w) simp
  show ?thesis
  proof (cases "rx_lsf c")
    case True
    then show ?thesis unfolding eq using r1(2-4) e2 cov(2) lsf_last [OF assms(4) True] by (auto simp: segs_done_def)
  next
    case False
    have "\<exists>x. seg_loop limit (rx_sn c) (rx_so c + rx_payload_size c) cs r1 = Some x \<and> segs_done limit buf (rx_sn c) cs r1 x"
      by (rule seg_loop_ok [OF r1(2) assms(2) r1(4)]) (use assms(4-6) c(1) cov(1) in \<open>auto simp: elem_ok_def before_def\<close>)
    then show ?thesis unfolding eq using False segs_done_trans [OF _ r1(3) e2 refl] by auto
  qed
qed

section \<open>The main loop\<close>

text \<open>NACKs of whole PDUs at ascending distances below \<open>d\<close>.\<close>

definition wholes :: "int \<Rightarrow> int \<Rightarrow> nack_sn_t list \<Rightarrow> bool" where
  "wholes r0 d ns \<longleftrightarrow> (\<exists>ds. map (\<lambda>nack. nack\<lparr>nack_e1 := True\<rparr>) ns = map (\<lambda>x. whole (sn_of r0 x)) ds \<and> sorted_wrt (<) ds \<and> (\<forall>x \<in> set ds. 0 \<le> x \<and> x < d))"

lemma wholes_Nil [simp]: "wholes r0 d []"
  by (simp add: wholes_def)

lemma wholes_mono: "wholes r0 d ns \<Longrightarrow> d \<le> e \<Longrightarrow> wholes r0 e ns"
  unfolding wholes_def by fastforce

lemma wholes_missing:
  assumes "wholes r0 d ns" "0 \<le> d" "d \<le> e"
  shows "wholes r0 e (ns @ map (\<lambda>x. whole (sn_of r0 x)) [d..e - 1])"
proof -
  obtain ds where ds: "map (\<lambda>nack. nack\<lparr>nack_e1 := True\<rparr>) ns = map (\<lambda>x. whole (sn_of r0 x)) ds" "sorted_wrt (<) ds" "\<forall>x \<in> set ds. 0 \<le> x \<and> x < d"
    using assms(1) by (auto simp: wholes_def)
  have "sorted_wrt (<) (ds @ [d..e - 1])" using ds(2,3) by (auto simp: sorted_wrt_append)
  moreover have "map (\<lambda>nack. nack\<lparr>nack_e1 := True\<rparr>) (ns @ map (\<lambda>x. whole (sn_of r0 x)) [d..e - 1]) = map (\<lambda>x. whole (sn_of r0 x)) (ds @ [d..e - 1])"
    using ds(1) by (simp add: whole_def)
  ultimately show ?thesis unfolding wholes_def using ds(3) assms(2,3) by (intro exI [of _ "ds @ [d..e - 1]"]) auto
qed

lemma wholes_fields:
  assumes "wholes r0 d ns" "nack \<in> set ns"
  shows "\<not> nack_e2 nack" "so_start nack = 0" "so_end nack = 0x7FFF"
proof -
  obtain ds where ds: "map (\<lambda>nack. nack\<lparr>nack_e1 := True\<rparr>) ns = map (\<lambda>x. whole (sn_of r0 x)) ds" using assms(1) by (auto simp: wholes_def)
  have "nack\<lparr>nack_e1 := True\<rparr> \<in> set (map (\<lambda>nack. nack\<lparr>nack_e1 := True\<rparr>) ns)" using assms(2) by simp
  then obtain x where x: "nack\<lparr>nack_e1 := True\<rparr> = whole (sn_of r0 x)" unfolding ds by auto
  show "\<not> nack_e2 nack" "so_start nack = 0" "so_end nack = 0x7FFF"
    using arg_cong [OF x, of nack_e2] arg_cong [OF x, of so_start] arg_cong [OF x, of so_end] by (simp_all add: whole_def)
qed

text \<open>
  All PDUs at distances below \<open>d\<close> are accounted for, a PDU reported as missing altogether is not in the buffer, and no other is reported when the buffer
  has whole PDUs only.
\<close>

definition report_inv :: "int \<Rightarrow> int \<Rightarrow> rlc_am_rx_pdu list \<Rightarrow> int \<Rightarrow> am_report \<Rightarrow> bool" where
  "report_inv r0 limit buf d r \<longleftrightarrow> report_ok limit r \<and>
     (\<forall>sn. 0 \<le> sn \<and> sn < 1024 \<and> RLC_AM_DIFF_SN sn r0 < d \<longrightarrow> settled (rp_nacks r) buf sn) \<and>
     (\<forall>nack \<in> set (rp_nacks r). \<not> nack_e2 nack \<longrightarrow> (\<forall>c \<in> set buf. rx_sn c \<noteq> int (nack_sn nack))) \<and>
     ((\<forall>c \<in> set buf. all_segments_received c) \<longrightarrow> wholes r0 d (rp_nacks r))"

definition has_gap :: "rlc_am_rx_pdu list \<Rightarrow> int \<Rightarrow> bool" where
  "has_gap buf sn \<longleftrightarrow> (\<exists>x. 0 \<le> x \<and> x \<le> 0x7FFF \<and> \<not> received buf sn x)"

lemma report_inv_stop [simp]: "report_inv r0 limit buf d (stop_report sn r) = report_inv r0 limit buf d r"
  by (simp add: report_inv_def)

lemma gap_nacks:
  assumes "report_inv r0 limit buf d r" "0 < d" "has_gap buf r0" "0 \<le> r0" "r0 < 1024"
  shows "rp_nacks r \<noteq> []"
proof -
  have "RLC_AM_DIFF_SN r0 r0 = 0" by (simp add: RLC_AM_DIFF_SN_def RLC_AM_SN_MODULO_def)
  then have "settled (rp_nacks r) buf r0" using assms by (auto simp: report_inv_def)
  then show ?thesis using assms(3) by (auto simp: settled_def has_gap_def nacked_def)
qed

lemma inv_missing:
  assumes "report_inv r0 limit buf d r" "report_ok limit (add_missing r0 d e r)" "0 \<le> d" "e \<le> 1024" "d \<le> e"
    and "\<forall>c \<in> set buf. RLC_AM_DIFF_SN (rx_sn c) r0 < d \<or> e \<le> RLC_AM_DIFF_SN (rx_sn c) r0"
  shows "report_inv r0 limit buf e (add_missing r0 d e r)"
proof -
  have n: "rp_nacks (add_missing r0 d e r) = rp_nacks r @ map (\<lambda>d. whole (sn_of r0 d)) [d..e - 1]" by (simp add: add_missing_def)
  have "settled (rp_nacks r @ map (\<lambda>d. whole (sn_of r0 d)) [d..e - 1]) buf sn" if "0 \<le> sn" "sn < 1024" "RLC_AM_DIFF_SN sn r0 < e" for sn
  proof (cases "RLC_AM_DIFF_SN sn r0 < d")
    case True
    then show ?thesis using assms(1) that by (auto simp: report_inv_def intro: settled_append)
  next
    case False
    then have "settled (map (\<lambda>d. whole (sn_of r0 d)) [d..e - 1]) buf sn" using that by (intro settled_missing) auto
    then show ?thesis by (auto simp: settled_def nacked_append)
  qed
  moreover have "rx_sn c \<noteq> int (nack_sn (whole (sn_of r0 x)))" if "c \<in> set buf" "d \<le> x" "x < e" for c x
  proof -
    have "RLC_AM_DIFF_SN (sn_of r0 x) r0 = x" using that assms(3,4) by (intro diff_sn_of) auto
    then show ?thesis using that assms(6) sn_of_range [of r0 x] by (fastforce simp: whole_def)
  qed
  moreover have "(\<forall>c \<in> set buf. all_segments_received c) \<longrightarrow> wholes r0 e (rp_nacks r @ map (\<lambda>d. whole (sn_of r0 d)) [d..e - 1])"
    using assms(1,3,5) wholes_missing by (simp add: report_inv_def)
  ultimately show ?thesis using assms(1,2) by (auto simp: report_inv_def n)
qed

lemma inv_segments:
  assumes "report_inv r0 limit buf d r" "report_ok limit r'" "rp_nacks r' = rp_nacks r @ ns" "\<forall>nack \<in> set ns. nack_e2 nack"
    and "c \<in> set buf" "\<not> all_segments_received c"
  shows "report_inv r0 limit buf d r'"
  using assms by (auto simp: report_inv_def intro: settled_append)

lemma inv_next:
  assumes "report_inv r0 limit buf (RLC_AM_DIFF_SN sn r0) r" "settled (rp_nacks r) buf sn" "0 \<le> sn" "sn < 1024"
  shows "report_inv r0 limit buf (RLC_AM_DIFF_SN sn r0 + 1) r"
proof -
  have "settled (rp_nacks r) buf sn'" if "0 \<le> sn'" "sn' < 1024" "RLC_AM_DIFF_SN sn' r0 < RLC_AM_DIFF_SN sn r0 + 1" for sn'
  proof (cases "RLC_AM_DIFF_SN sn' r0 = RLC_AM_DIFF_SN sn r0")
    case True
    then have "sn' = sn" by (metis sn_of_diff [OF that(1,2)] sn_of_diff [OF assms(3,4)])
    then show ?thesis using assms(2) by simp
  next
    case False
    then show ?thesis using assms(1) that by (auto simp: report_inv_def)
  qed
  then show ?thesis using assms(1) wholes_mono by (auto simp: report_inv_def)
qed

lemma drop_after:
  assumes "sorted_wrt (before r0) (c # cs)"
  shows "\<forall>d \<in> set (dropWhile (\<lambda>d. rx_sn d = rx_sn c) cs). RLC_AM_DIFF_SN (rx_sn c) r0 < RLC_AM_DIFF_SN (rx_sn d) r0"
  using assms
proof (induction cs)
  case (Cons x cs)
  have x: "before r0 c x" "\<forall>d \<in> set cs. before r0 x d" using Cons.prems by simp_all
  show ?case
  proof (cases "rx_sn x = rx_sn c")
    case True
    then show ?thesis using Cons by simp
  next
    case False
    then have "RLC_AM_DIFF_SN (rx_sn c) r0 < RLC_AM_DIFF_SN (rx_sn x) r0" using x(1) by (simp add: before_def)
    then show ?thesis using False x(2) by (force simp: before_def)
  qed
qed simp

text \<open>The round on a PDU of which something has been received.\<close>

lemma received_round:
  assumes "report_inv r0 limit buf (RLC_AM_DIFF_SN (rx_sn c) r0) r" "limit \<le> 15 + 12 * 1023 + 11" "\<not> rp_done r"
    and "sorted_wrt (before r0) (c # cs)" "\<forall>d \<in> set (c # cs). elem_ok d" "set (c # cs) \<subseteq> set buf" "sn = rx_sn c" "rx_sn c \<noteq> ms"
  shows "\<exists>cs1 r2. (if \<not> rp_done r \<and> \<not> all_segments_received c \<and> rx_sn c \<noteq> ms
                   then if sn = rx_sn c then report_segments limit c cs r else None
                   else Some (dropWhile (\<lambda>d. rx_sn d = rx_sn c) cs, r)) = Some (cs1, r2) \<and>
    (if rp_done r2 then rp_ack r2 = rx_sn c \<and> report_inv r0 limit buf (RLC_AM_DIFF_SN (rx_sn c) r0) r2 \<and> \<not> all_segments_received c
     else cs1 = dropWhile (\<lambda>d. rx_sn d = rx_sn c) cs \<and> report_inv r0 limit buf (RLC_AM_DIFF_SN (rx_sn c) r0 + 1) r2)"
proof (cases "all_segments_received c")
  case True
  have "c \<in> set buf" "0 \<le> rx_sn c" "rx_sn c < 1024" using assms(5,6) by (auto simp: elem_ok_def)
  moreover from this have "settled (rp_nacks r) buf (rx_sn c)" using True by (auto simp: settled_def received_def)
  ultimately show ?thesis using True assms(1,3) inv_next [OF assms(1)] by simp
next
  case False
  have c: "0 \<le> rx_sn c" "rx_sn c < 1024" using assms(5) by (auto simp: elem_ok_def)
  have "report_ok limit r" using assms(1) by (simp add: report_inv_def)
  then obtain cs1 r2 where x: "report_segments limit c cs r = Some (cs1, r2)" "segs_done limit buf (rx_sn c) (c # cs) r (cs1, r2)"
    using report_segments_ok [OF _ assms(2-6)] by auto
  then have "report_inv r0 limit buf (RLC_AM_DIFF_SN (rx_sn c) r0) r2" using inv_segments [OF assms(1) _ _ _ _ False] assms(6) by (auto simp: segs_done_def)
  moreover from this have "\<not> rp_done r2 \<Longrightarrow> report_inv r0 limit buf (RLC_AM_DIFF_SN (rx_sn c) r0 + 1) r2"
    using inv_next [OF _ _ c] x(2) by (simp add: segs_done_def)
  ultimately show ?thesis using x False assms(3,7,8) by (auto simp: segs_done_def)
qed

lemma status_loop_done: "rp_done r \<Longrightarrow> status_loop n r0 ms limit cs sn all r = Some (sn, all, r)"
  by (cases cs) auto

text \<open>What the main loop gives: the report accounts for all PDUs before the sequence number that it will acknowledge.\<close>

definition loop_result :: "int \<Rightarrow> int \<Rightarrow> int \<Rightarrow> rlc_am_rx_pdu list \<Rightarrow> int \<times> bool \<times> am_report \<Rightarrow> bool" where
  "loop_result r0 ms limit buf = (\<lambda>(sn, all, r). \<exists>e. 0 \<le> e \<and> e \<le> RLC_AM_DIFF_SN ms r0 \<and> report_inv r0 limit buf e r \<and>
     (if rp_done r then rp_ack r else sn) = sn_of r0 e \<and> (rp_nacks r = [] \<longrightarrow> \<not> all))"

lemma loop_resultI:
  assumes "report_inv r0 limit buf e r" "0 \<le> e" "e \<le> RLC_AM_DIFF_SN ms r0" "(if rp_done r then rp_ack r else sn) = sn_of r0 e" "rp_nacks r = [] \<longrightarrow> \<not> all"
  shows "loop_result r0 ms limit buf (sn, all, r)"
  using assms by (auto simp: loop_result_def)

lemma status_loop_ok:
  assumes "limit \<le> 15 + 12 * 1023 + 11" "0 \<le> r0" "r0 < 1024" "0 \<le> ms" "ms < 1024"
    and "sorted_wrt (before r0) buf" "\<forall>c \<in> set buf. elem_ok c" "has_gap buf r0"
    and "report_inv r0 limit buf d r" "\<not> rp_done r" "0 \<le> d" "d \<le> RLC_AM_DIFF_SN ms r0" "buf = pre @ cs"
    and "d < RLC_AM_DIFF_SN ms r0 \<Longrightarrow> (\<forall>c \<in> set pre. RLC_AM_DIFF_SN (rx_sn c) r0 < d) \<and> (\<forall>c \<in> set cs. d \<le> RLC_AM_DIFF_SN (rx_sn c) r0)"
    and "length cs \<le> n" "d = 0 \<Longrightarrow> \<not> all \<and> rp_bits r + 12 \<le> limit"
  shows "\<exists>x. status_loop n r0 ms limit cs (sn_of r0 d) all r = Some x \<and> loop_result r0 ms limit buf x"
  using assms(9-16)
proof (induction n arbitrary: d r pre cs all)
  case 0
  then have "status_loop 0 r0 ms limit cs (sn_of r0 d) all r = Some (sn_of r0 d, all, r)" by simp
  moreover have "rp_nacks r = [] \<longrightarrow> \<not> all" using 0 gap_nacks [OF _ _ assms(8,2,3)] by fastforce
  ultimately show ?case using 0 by (auto intro!: loop_resultI [of _ _ _ d])
next
  case (Suc n)
  note p = Suc.prems
  have quiet: "rp_nacks r = [] \<longrightarrow> \<not> all" using p gap_nacks [OF _ _ assms(8,2,3)] by fastforce
  have same: "sn_of r0 d' = ms \<longleftrightarrow> d' = RLC_AM_DIFF_SN ms r0" if "0 \<le> d'" "d' < 1024" for d'
    using diff_sn_of [OF that, of r0] sn_of_diff [OF assms(4,5), of r0] by metis
  show ?case
  proof (cases "cs = [] \<or> \<not> d < RLC_AM_DIFF_SN ms r0")
    case True
    have "\<not> RLC_AM_DIFF_SN (sn_of r0 d) r0 < RLC_AM_DIFF_SN ms r0 \<or> cs = []"
      using True p(3,4) diff_sn_of [of d r0] diff_range [of ms r0] by force
    then have "status_loop (Suc n) r0 ms limit cs (sn_of r0 d) all r = Some (sn_of r0 d, all, r)" by (cases cs) auto
    then show ?thesis using p quiet by (auto intro!: loop_resultI [of _ _ _ d])
  next
    case False
    then obtain c cs' where cs: "cs = c # cs'" and d: "d < RLC_AM_DIFF_SN ms r0" by (cases cs) auto
    have guard: "RLC_AM_DIFF_SN (sn_of r0 d) r0 < RLC_AM_DIFF_SN ms r0" "rp_bits r \<le> limit"
      using d p(1,3) diff_sn_of [of d r0] diff_range [of ms r0] by (simp_all add: report_inv_def report_ok_def)
    have c: "0 \<le> rx_sn c" "rx_sn c < 1024" "sorted_wrt (before r0) (c # cs')" "\<forall>d \<in> set (c # cs'). elem_ok d" "set (c # cs') \<subseteq> set buf"
      using assms(6,7) p(5) cs by (auto simp: sorted_wrt_append elem_ok_def)
    define D where "D = RLC_AM_DIFF_SN (rx_sn c) r0"
    define m where "m = min D (RLC_AM_DIFF_SN ms r0)"
    have dm: "d \<le> m" using d p(6) cs by (simp add: m_def D_def)
    have ok: "report_ok limit r" using p(1) by (simp add: report_inv_def)
    obtain e where e: "d \<le> e" "e \<le> m" "report_ok limit (add_missing r0 d e r)" "rp_bits r + 12 \<le> limit \<and> d < m \<longrightarrow> d < e"
        "push_missing r0 ms limit (rx_sn c) (sn_of r0 d) r =
          Some (sn_of r0 e, if e < m then stop_report (sn_of r0 e) (add_missing r0 d e r) else add_missing r0 d e r)"
      using push_missing_ok [OF ok assms(1) p(3) dm m_def [unfolded D_def] c(1,2)] by blast
    have e1024: "0 \<le> e" "e < 1024" using e(1,2) p(3) diff_range [of ms r0] by (simp_all add: m_def)
    have far: "e \<le> RLC_AM_DIFF_SN (rx_sn b) r0" if "b \<in> set cs" for b
    proof -
      have "D \<le> RLC_AM_DIFF_SN (rx_sn b) r0" using c(3) that cs by (auto simp: before_def D_def)
      then show ?thesis using e(2) by (simp add: m_def)
    qed
    have inv: "report_inv r0 limit buf e (add_missing r0 d e r)"
      by (rule inv_missing [OF p(1) e(3) p(3)]) (use e1024 e(1) p(5,6) d far in auto)
    consider "e < m" | "e = m" "m = RLC_AM_DIFF_SN ms r0" | "e = m" "m = D" "D < RLC_AM_DIFF_SN ms r0" using e(2) unfolding m_def by linarith
    then show ?thesis
    proof cases
      case 1
      let ?r1 = "stop_report (sn_of r0 e) (add_missing r0 d e r)"
      have "sn_of r0 e \<noteq> ms" using same [OF e1024] 1 by (simp add: m_def)
      then obtain sn2 where "status_loop (Suc n) r0 ms limit cs (sn_of r0 d) all r = Some (sn2, all_segments_received c, ?r1)"
        unfolding cs using guard p(2) e(5) 1 status_loop_done [of ?r1] by (simp add: Let_def)
      moreover have "0 < e" using 1 e(1,4) p(3,8) by (cases "d = 0") auto
      ultimately show ?thesis
        using gap_nacks [OF inv _ assms(8,2,3)] e(2) e1024 inv by (auto simp: m_def intro!: loop_resultI [of _ _ _ e])
    next
      case 2
      have "sn_of r0 e = ms" using same [OF e1024] 2 by simp
      then have "status_loop (Suc n) r0 ms limit cs (sn_of r0 d) all r = Some (sn_of r0 e, all_segments_received c, add_missing r0 d e r)"
        unfolding cs using guard p(2) e(5) 2 by simp
      moreover have "\<not> rp_done (add_missing r0 d e r)" using p(2) by (simp add: add_missing_def)
      ultimately show ?thesis
        using gap_nacks [OF inv _ assms(8,2,3)] 2 e1024 d p(3) inv by (auto intro!: loop_resultI [of _ _ _ e])
    next
      case 3
      have sn: "sn_of r0 e = rx_sn c" "rx_sn c \<noteq> ms" using sn_of_diff [OF c(1,2), of r0] 3 by (auto simp: D_def)
      have nd: "\<not> rp_done (add_missing r0 d e r)" using p(2) by (simp add: add_missing_def)
      have eD: "e = RLC_AM_DIFF_SN (rx_sn c) r0" using 3 by (simp add: D_def)
      obtain cs1 r2 where x: "(if \<not> rp_done (add_missing r0 d e r) \<and> \<not> all_segments_received c \<and> rx_sn c \<noteq> ms
              then if sn_of r0 e = rx_sn c then report_segments limit c cs' (add_missing r0 d e r) else None
              else Some (dropWhile (\<lambda>d. rx_sn d = rx_sn c) cs', add_missing r0 d e r)) = Some (cs1, r2)"
          "if rp_done r2 then rp_ack r2 = rx_sn c \<and> report_inv r0 limit buf e r2 \<and> \<not> all_segments_received c
           else cs1 = dropWhile (\<lambda>d. rx_sn d = rx_sn c) cs' \<and> report_inv r0 limit buf (e + 1) r2"
        using received_round [OF inv [unfolded eD] assms(1) nd [unfolded eD] c(3-5) sn(1) sn(2), folded eD] by blast
      have step: "status_loop (Suc n) r0 ms limit cs (sn_of r0 d) all r = status_loop n r0 ms limit cs1 (sn_of r0 (e + 1)) (all_segments_received c) r2"
      proof -
        have g: "\<not> rp_done r \<and> RLC_AM_DIFF_SN (sn_of r0 d) r0 < RLC_AM_DIFF_SN ms r0 \<and> rp_bits r \<le> limit" using guard p(2) by simp
        have push: "push_missing r0 ms limit (rx_sn c) (sn_of r0 d) r = Some (sn_of r0 e, add_missing r0 d e r)" using e(5) 3(1) by simp
        have ne: "sn_of r0 e \<noteq> ms" and lt: "RLC_AM_DIFF_SN (rx_sn c) r0 < RLC_AM_DIFF_SN ms r0" and nx: "RLC_AM_NEXT_SN (rx_sn c) = sn_of r0 (e + 1)"
          using sn 3 eD next_sn_of [of r0 e] by simp_all
        show ?thesis unfolding cs status_loop.simps if_P [OF g] nat.case push Option.bind.simps prod.case if_not_P [OF ne] x(1) Let_def if_P [OF lt] nx ..
      qed
      show ?thesis
      proof (cases "rp_done r2")
        case True
        then show ?thesis unfolding step using x(2) 3 e1024 sn(1) by (auto simp: status_loop_done intro!: loop_resultI [of _ _ _ e])
      next
        case False
        have t: "buf = (pre @ c # takeWhile (\<lambda>d. rx_sn d = rx_sn c) cs') @ cs1" using False x(2) p(5) cs by simp
        show ?thesis unfolding step
        proof (rule Suc.IH [OF _ False _ _ t])
          show "(\<forall>b \<in> set (pre @ c # takeWhile (\<lambda>d. rx_sn d = rx_sn c) cs'). RLC_AM_DIFF_SN (rx_sn b) r0 < e + 1) \<and> (\<forall>b \<in> set cs1. e + 1 \<le> RLC_AM_DIFF_SN (rx_sn b) r0)"
            using p(6) [OF d] e(1) eD drop_after [OF c(3)] False x(2) by (auto dest: set_takeWhileD)
          show "length cs1 \<le> n" using False x(2) p(7) cs length_dropWhile_le [of "\<lambda>d. rx_sn d = rx_sn c" cs'] by simp
        qed (use False x(2) e1024 3 in auto)
      qed
    qed
  qed
qed

section \<open>The report as it is sent\<close>

lemma close_nacks_cases:
  obtains "ns = []" "close_nacks ns = []" | ms nack where "ns = ms @ [nack]" "close_nacks ns = ms @ [nack\<lparr>nack_e1 := False\<rparr>]"
  by (cases ns rule: rev_cases) (auto simp: close_nacks_def)

lemma close_nacks_same:
  "nacked (close_nacks ns) = nacked ns" "map nack_width (close_nacks ns) = map nack_width ns" "close_nacks ns = [] \<longleftrightarrow> ns = []"
  "length (close_nacks ns) = length ns" "wholes r0 d (close_nacks ns) = wholes r0 d ns" "settled (close_nacks ns) = settled ns"
proof -
  show n: "nacked (close_nacks ns) = nacked ns" by (rule close_nacks_cases [of ns]) (auto simp: nacked_def fun_eq_iff)
  show "settled (close_nacks ns) = settled ns" by (simp add: settled_def fun_eq_iff n)
qed (rule close_nacks_cases [of ns]; auto simp: nack_width_def wholes_def)+

lemma close_nacks_ball: "(\<forall>nack \<in> set (close_nacks ns). \<not> nack_e2 nack \<longrightarrow> P (nack_sn nack)) = (\<forall>nack \<in> set ns. \<not> nack_e2 nack \<longrightarrow> P (nack_sn nack))"
  by (rule close_nacks_cases [of ns]) auto

lemma close_nacks_ok:
  assumes "\<forall>nack \<in> set ns. nack_ok nack \<and> nack_e1 nack" "length ns \<le> 1023" "a < 1024"
  shows "info_ok \<lparr>d_c = 0, cpt = 0, ack_sn = a, ctrl_e1 = (ns \<noteq> []), nack_list = close_nacks ns\<rparr>"
  using assms by (cases ns rule: rev_cases) (auto simp: close_nacks_def info_ok_def nack_ok_def RLC_AM_MAX_NACK_IN_STATUS_PDU_def)

lemma nack_fields_width: "width (concat (map nack_fields ns)) = sum_list (map nack_width ns)"
  by (induction ns) (auto simp: nack_fields_def nack_width_def)

lemma write_ignores_e1: "rlc_am_write_status_pdu buf (info\<lparr>ctrl_e1 := b\<rparr>) = rlc_am_write_status_pdu buf info"
  by (simp add: rlc_am_write_status_pdu_def)

text \<open>What the peer concludes from a report.\<close>

definition report_true :: "rlc_am_rx_entity \<Rightarrow> rlc_am_control_pdu_info \<Rightarrow> bool" where
  "report_true e info \<longleftrightarrow> ack_sn info < 1024 \<and>
     RLC_AM_DIFF_SN (int (ack_sn info)) (vr_r e) \<le> RLC_AM_DIFF_SN (vr_ms e) (vr_r e) \<and>
     (\<forall>sn. 0 \<le> sn \<and> sn < 1024 \<and> RLC_AM_DIFF_SN sn (vr_r e) < RLC_AM_DIFF_SN (int (ack_sn info)) (vr_r e) \<longrightarrow>
        settled (nack_list info) (receiver_buffer e) sn) \<and>
     (\<forall>nack \<in> set (nack_list info). \<not> nack_e2 nack \<longrightarrow> (\<forall>c \<in> set (receiver_buffer e). rx_sn c \<noteq> int (nack_sn nack))) \<and>
     ((\<forall>c \<in> set (receiver_buffer e). all_segments_received c) \<longrightarrow> wholes (vr_r e) (RLC_AM_DIFF_SN (int (ack_sn info)) (vr_r e)) (nack_list info))"

text \<open>The receiving entity: the window, the receiver buffer, and an octet of VR(R) that is still awaited.\<close>

definition rx_ok :: "rlc_am_rx_entity \<Rightarrow> bool" where
  "rx_ok e \<longleftrightarrow> 0 \<le> vr_r e \<and> vr_r e < 1024 \<and> 0 \<le> vr_ms e \<and> vr_ms e < 1024 \<and> sorted_wrt (before (vr_r e)) (receiver_buffer e) \<and>
     (\<forall>c \<in> set (receiver_buffer e). elem_ok c) \<and> has_gap (receiver_buffer e) (vr_r e)"

lemma build_report_ok:
  assumes "rx_ok e" "2 \<le> am_nb_bytes_requested_by_mac e" "am_nb_bytes_requested_by_mac e \<le> 1537"
  shows "\<exists>r d ns. build_report e = Some r \<and> rp_ack r = sn_of (vr_r e) d \<and> 0 \<le> d \<and> d \<le> RLC_AM_DIFF_SN (vr_ms e) (vr_r e) \<and>
    rp_nacks r = close_nacks ns \<and> report_inv (vr_r e) (am_nb_bytes_requested_by_mac e * 8) (receiver_buffer e) d (r\<lparr>rp_nacks := ns\<rparr>)"
proof -
  let ?limit = "am_nb_bytes_requested_by_mac e * 8"
  define r where "r = \<lparr>rp_nacks = [], rp_ack = 0, rp_bits = 15, rp_done = False, rp_e1 = False\<rparr>"
  have ok: "report_ok ?limit r" using assms(2) by (simp add: report_ok_def r_def)
  have start: "vr_r e = sn_of (vr_r e) 0" "0 \<le> RLC_AM_DIFF_SN (vr_ms e) (vr_r e)"
    using assms(1) diff_range(1) [of "vr_ms e" "vr_r e"] by (simp_all add: rx_ok_def sn_of_def)
  have inv: "report_inv (vr_r e) ?limit (receiver_buffer e) 0 (r\<lparr>rp_ack := a, rp_e1 := b\<rparr>)" for a b
    using ok diff_range(1) [of _ "vr_r e"] by (auto simp: report_inv_def report_ok_def r_def dest: leD)
  show ?thesis
  proof (cases "vr_r e \<noteq> vr_ms e \<and> receiver_buffer e \<noteq> [] \<and> 27 \<le> ?limit")
    case False
    then have "build_report e = Some (r\<lparr>rp_ack := vr_r e\<rparr>)" by (auto simp: build_report_def r_def Let_def)
    then show ?thesis using inv [where a = "vr_r e" and b = False] start by (intro exI [of _ "r\<lparr>rp_ack := vr_r e\<rparr>"] exI [of _ 0] exI [of _ "[]"]) (simp add: r_def close_nacks_def)
  next
    case True
    have "\<exists>x. status_loop (length (receiver_buffer e)) (vr_r e) (vr_ms e) ?limit (receiver_buffer e) (sn_of (vr_r e) 0) False (r\<lparr>rp_e1 := True\<rparr>) = Some x \<and>
        loop_result (vr_r e) (vr_ms e) ?limit (receiver_buffer e) x"
      by (rule status_loop_ok [where pre = "[]"]) (use assms True inv [where a = 0 and b = True] diff_range(1) start in \<open>auto simp: rx_ok_def r_def\<close>)
    then obtain sn all r1 d where l: "status_loop (length (receiver_buffer e)) (vr_r e) (vr_ms e) ?limit (receiver_buffer e) (vr_r e) False (r\<lparr>rp_e1 := True\<rparr>) = Some (sn, all, r1)"
        "0 \<le> d" "d \<le> RLC_AM_DIFF_SN (vr_ms e) (vr_r e)" "report_inv (vr_r e) ?limit (receiver_buffer e) d r1"
        "(if rp_done r1 then rp_ack r1 else sn) = sn_of (vr_r e) d" "rp_nacks r1 = [] \<longrightarrow> \<not> all"
      unfolding start(1) [symmetric] by (auto simp: loop_result_def)
    let ?r2 = "r1\<lparr>rp_nacks := close_nacks (rp_nacks r1), rp_ack := sn_of (vr_r e) d\<rparr>"
    have "build_report e = Some ?r2" using True l(1,5,6) by (auto simp: build_report_def r_def Let_def)
    moreover have "report_inv (vr_r e) ?limit (receiver_buffer e) d (?r2\<lparr>rp_nacks := rp_nacks r1\<rparr>)" using l(4) by (simp add: report_inv_def report_ok_def)
    ultimately show ?thesis using l(2,3) by (intro exI [of _ ?r2] exI [of _ d] exI [of _ "rp_nacks r1"]) simp
  qed
qed

section \<open>Theorems on status reports\<close>

lemma send_status_pdu_sound:
  assumes "rx_ok e" "2 \<le> am_nb_bytes_requested_by_mac e" "am_nb_bytes_requested_by_mac e \<le> 1537"
    and "\<forall>n. \<exists>block. alloc n = Some block \<and> n \<le> length block"
  shows "\<exists>pdu info. rlc_am_send_status_pdu alloc e =
      Some (e\<lparr>am_nb_bytes_requested_by_mac := am_nb_bytes_requested_by_mac e - int (length pdu), control_pdu_list := pdu # control_pdu_list e,
              stat_tx_control_pdu := stat_tx_control_pdu e + 1, stat_tx_control_bytes := stat_tx_control_bytes e + of_nat (length pdu)\<rparr>) \<and>
    int (length pdu) \<le> am_nb_bytes_requested_by_mac e \<and>
    (\<forall>rest total. rlc_am_get_control_pdu_infos (pdu @ rest) total = Some (0, total - int (length pdu), info)) \<and> report_true e info"
proof -
  let ?limit = "am_nb_bytes_requested_by_mac e * 8"
  obtain r d ns where r: "build_report e = Some r" "rp_ack r = sn_of (vr_r e) d" "0 \<le> d" "d \<le> RLC_AM_DIFF_SN (vr_ms e) (vr_r e)"
      "rp_nacks r = close_nacks ns" "report_inv (vr_r e) ?limit (receiver_buffer e) d (r\<lparr>rp_nacks := ns\<rparr>)"
    using build_report_ok [OF assms(1-3)] by blast
  have ok: "rp_bits r = 15 + int (sum_list (map nack_width ns))" "rp_bits r \<le> ?limit" "\<forall>nack \<in> set ns. nack_ok nack \<and> nack_e1 nack"
    using r(6) by (simp_all add: report_inv_def report_ok_def)
  have len: "length ns \<le> 1023" using ok(1,2) width_bound [of ns] assms(3) by linarith
  define info where "info = \<lparr>d_c = 0, cpt = 0, ack_sn = nat (rp_ack r), ctrl_e1 = (ns \<noteq> []), nack_list = close_nacks ns\<rparr>"
  have a: "0 \<le> rp_ack r" "rp_ack r < 1024" "RLC_AM_DIFF_SN (rp_ack r) (vr_r e) = d"
    using r(2-4) sn_of_range [of "vr_r e" d] diff_sn_of [of d "vr_r e"] diff_range(2) [of "vr_ms e" "vr_r e"] by simp_all
  have io: "info_ok info" unfolding info_def by (rule close_nacks_ok [OF ok(3) len]) (use a(2) in simp)
  define size where "size = nat ((rp_bits r + 7) div 8)"
  have w: "int (4 + width (status_fields info)) = rp_bits r"
    by (simp add: status_fields_def info_def nack_fields_width close_nacks_same ok(1))
  have size: "int size = (rp_bits r + 7) div 8" "size = (4 + width (status_fields info) + 7) div 8" using w by (auto simp: size_def)
  have fits: "4 + width (status_fields info) \<le> 8 * size" unfolding size(2) by linarith
  obtain buf where buf: "rlc_am_write_status_pdu (replicate size 0) info = Some (buf, size)" "length buf = size"
      "\<forall>rest total. rlc_am_get_control_pdu_infos (take size buf @ rest) total = Some (0, total - int size, info)"
    using written_status [OF io fits] unfolding size(2) [symmetric] by blast
  have grant: "int size \<le> am_nb_bytes_requested_by_mac e" using size(1) ok(2) by linarith
  have "rlc_am_write_status_pdu (replicate size 0) \<lparr>d_c = 0, cpt = 0, ack_sn = nat (rp_ack r mod 1024), ctrl_e1 = rp_e1 r, nack_list = rp_nacks r\<rparr> = Some (buf, size)"
    using buf(1) write_ignores_e1 [of _ "rp_e1 r" info] a r(5) by (simp add: info_def)
  moreover obtain block where "alloc size = Some block" "size \<le> length block" using assms(4) by blast
  ultimately have "rlc_am_send_status_pdu alloc e =
      Some (e\<lparr>am_nb_bytes_requested_by_mac := am_nb_bytes_requested_by_mac e - int size, control_pdu_list := buf # control_pdu_list e,
              stat_tx_control_pdu := stat_tx_control_pdu e + 1, stat_tx_control_bytes := stat_tx_control_bytes e + of_nat size\<rparr>)"
    using r(1) grant buf(2) unfolding rlc_am_send_status_pdu_def by (simp add: Let_def size(1) [symmetric])
  moreover have "report_true e info"
    using r(4,6) a close_nacks_ball [of ns "\<lambda>sn. \<forall>c \<in> set (receiver_buffer e). rx_sn c \<noteq> int sn"]
    by (simp add: report_true_def info_def report_inv_def close_nacks_same)
  ultimately show ?thesis using buf(2,3) grant by (intro exI [of _ buf] exI [of _ info]) simp
qed

text \<open>
  C15. A STATUS PDU tells the truth. Within a grant of 2 to 1537 octets \<open>rlc_am_send_status_pdu\<close> returns, its PDU fits into the
  grant, and what the peer's \<open>rlc_am_get_control_pdu_infos\<close> decodes from it is sound: every octet of every PDU before ACK_SN has
  been received or is covered by a NACK, a NACK without segment offsets names a PDU of which nothing has been received, ACK_SN
  does not pass VR(MS), and when the buffer has whole PDUs only the NACKs are for whole PDUs before ACK_SN, in ascending order. The transmitter therefore never drops data that the receiver lacks, even when the grant cuts the report short.
\<close>

theorem am_status_report_sound:
  assumes "rx_ok e" "2 \<le> am_nb_bytes_requested_by_mac e" "am_nb_bytes_requested_by_mac e \<le> 1537"
    and "\<forall>n. \<exists>block. alloc n = Some block \<and> n \<le> length block"
  shows "\<exists>pdu info. rlc_am_send_status_pdu alloc e =
      Some (e\<lparr>am_nb_bytes_requested_by_mac := am_nb_bytes_requested_by_mac e - int (length pdu), control_pdu_list := pdu # control_pdu_list e,
              stat_tx_control_pdu := stat_tx_control_pdu e + 1, stat_tx_control_bytes := stat_tx_control_bytes e + of_nat (length pdu)\<rparr>) \<and>
    int (length pdu) \<le> am_nb_bytes_requested_by_mac e \<and>
    (\<forall>rest total. rlc_am_get_control_pdu_infos (pdu @ rest) total = Some (0, total - int (length pdu), info)) \<and> report_true e info"
  using send_status_pdu_sound [OF assms] .

text \<open>PDU 1022 has not come, of 1023 the first and the third segment have, PDU 0 has come whole, and 1 has not.\<close>

definition rx_example :: rlc_am_rx_entity where
  "rx_example = rlc_am_init\<lparr>vr_r := 1022, vr_ms := 2, receiver_buffer :=
     [segment_of 1023 0 (replicate 100 0) False, segment_of 1023 200 (replicate 50 0) True,
      (pdu_of 0 (replicate 80 0))\<lparr>all_segments_received := True\<rparr>, (pdu_of 2 (replicate 80 0))\<lparr>all_segments_received := True\<rparr>],
     am_nb_bytes_requested_by_mac := 20\<rparr>"

lemmas rx_example_defs = rx_example_def rlc_am_init_def segment_of_def pdu_of_def

lemma rx_example_ok: "rx_ok rx_example"
proof -
  have "has_gap (receiver_buffer rx_example) (vr_r rx_example)"
    unfolding has_gap_def by (rule exI [of _ 0]) (simp add: received_def rx_example_defs)
  then show ?thesis by (simp add: rx_ok_def rx_example_defs before_def elem_ok_def RLC_AM_DIFF_SN_def RLC_AM_SN_MODULO_def)
qed

theorem am_status_report_sound_witness:
  "\<exists>pdu info. map_option control_pdu_list (rlc_am_send_status_pdu (\<lambda>n. Some (replicate n 7)) rx_example) = Some [pdu] \<and>
    rlc_am_get_control_pdu_infos pdu 10 = Some (0, 10 - int (length pdu), info) \<and> report_true rx_example info"
proof -
  have "2 \<le> am_nb_bytes_requested_by_mac rx_example" "am_nb_bytes_requested_by_mac rx_example \<le> 1537" "control_pdu_list rx_example = []"
    by (simp_all add: rx_example_defs)
  moreover have "\<forall>n. \<exists>block. Some (replicate n 7) = Some block \<and> n \<le> length (block :: octet list)" by simp
  ultimately obtain pdu info where x: "rlc_am_send_status_pdu (\<lambda>n. Some (replicate n 7)) rx_example =
      Some (rx_example\<lparr>am_nb_bytes_requested_by_mac := am_nb_bytes_requested_by_mac rx_example - int (length pdu), control_pdu_list := [pdu],
              stat_tx_control_pdu := stat_tx_control_pdu rx_example + 1, stat_tx_control_bytes := stat_tx_control_bytes rx_example + of_nat (length pdu)\<rparr>)"
      "\<forall>rest total. rlc_am_get_control_pdu_infos (pdu @ rest) total = Some (0, total - int (length pdu), info)" "report_true rx_example info"
    using am_status_report_sound [OF rx_example_ok] by metis
  then show ?thesis using x(2) [rule_format, of "[]" 10] by (intro exI [of _ pdu] exI [of _ info]) simp
qed

text \<open>
  The report is not minimal: behind a gap \<open>waited_so\<close> is not moved on, so that octets received between two gaps of a PDU are
  reported missing again. Of PDU 5 the octets 100 to 199 are in the buffer; the second NACK covers them.
\<close>

theorem am_report_renacks_received:
  "map_option rp_nacks (build_report (rlc_am_init\<lparr>vr_r := 5, vr_ms := 6, receiver_buffer :=
     [segment_of 5 0 (replicate 50 0) False, segment_of 5 100 (replicate 100 0) False, segment_of 5 300 (replicate 50 0) True],
     am_nb_bytes_requested_by_mac := 50\<rparr>)) =
   Some [\<lparr>nack_sn = 5, nack_e1 = True, nack_e2 = True, so_start = 50, so_end = 99\<rparr>,
         \<lparr>nack_sn = 5, nack_e1 = False, nack_e2 = True, so_start = 50, so_end = 299\<rparr>]"
  by (simp add: build_report_def push_missing.simps seg_loop.simps report_segments_def push_nack_def close_nacks_def Let_def RLC_AM_DIFF_SN_def
      RLC_AM_NEXT_SN_def RLC_AM_SN_MODULO_def RLC_AM_MAX_NACK_IN_STATUS_PDU_def rlc_am_init_def segment_of_def eval_nat_numeral)

end
