(* ===== verification/RlcAmRx.thy ===== *)
theory RlcAmRx
  imports RlcAm
begin

text \<open>
  The receiving side of RLC acknowledged mode: \<open>rlc_am_receiver.c\<close>, \<open>rlc_am_rx_list.c\<close>, \<open>rlc_am_reassembly.c\<close> and the expiry of
  t-Reordering. \<open>alloc\<close> is \<open>get_free_mem_block\<close>: the address and the octets of the data area for a size, or \<^term>\<open>None\<close> for NULL. A PDU
  is the octets of its transport block; a read behind it is a fault.

  A block that has been given back to the pool keeps its data until the pool hands it out again, but its links belong to the free
  list. Reading the data of such a block (as the loop of \<open>rlc_am_rx_list_reassemble_rlc_sdus\<close> does) gives the old values;
  following its links is a fault.
\<close>

type_synonym am_allocator = "nat \<Rightarrow> (64 word \<times> octet list) option"

section \<open>Header of a data PDU (rlc_am_get_data_pdu_infos)\<close>

definition am_li_first :: "octet \<Rightarrow> octet \<Rightarrow> int" where
  "am_li_first b1 b2 = uint (((push_bit 4 (ucast b1) AND 0x07F0) OR (ucast (drop_bit 4 b2) AND 0x000F)) :: 16 word)"

definition am_li_second :: "octet \<Rightarrow> octet \<Rightarrow> int" where
  "am_li_second b2 b3 = uint (((push_bit 8 (ucast b2) AND 0x0700) OR ucast b3) :: 16 word)"

text \<open>
  The loop over the length indicators, two at a time: \<open>pos\<close> is the offset of \<open>e_li\<close>, \<open>lis\<close> what has been read. It gives
  whether there were not too many, the indicators and the end of the header. A write behind \<open>li_list\<close> is a fault.
\<close>

function am_read_lis :: "octet list \<Rightarrow> nat \<Rightarrow> int list \<Rightarrow> (bool \<times> int list \<times> nat) option" where
  "am_read_lis pdu pos lis =
     (if \<not> pos + 1 < length pdu \<or> \<not> length lis < RLC_AM_MAX_SDU_IN_PDU then None
      else
        let b1 = pdu ! pos; b2 = pdu ! (pos + 1); lis1 = lis @ [am_li_first b1 b2]
        in if length lis1 > RLC_AM_MAX_SDU_IN_PDU then Some (False, lis1, pos + 2)
           else if b1 AND 0x80 = 0 then Some (True, lis1, pos + 2)
           else if \<not> pos + 2 < length pdu \<or> \<not> length lis1 < RLC_AM_MAX_SDU_IN_PDU then None
           else
             let lis2 = lis1 @ [am_li_second b2 (pdu ! (pos + 2))]
             in if length lis2 > RLC_AM_MAX_SDU_IN_PDU then Some (False, lis2, pos + 3)
                else if b2 AND 0x08 = 0 then Some (True, lis2, pos + 3)
                else am_read_lis pdu (pos + 3) lis2)"
  by pat_completeness auto

termination
  by (relation "measure (\<lambda>(pdu, pos, lis). length pdu - pos)") auto

declare am_read_lis.simps [simp del]

text \<open>\<open>sum_li\<close> and the sizes are of type \<open>int16_t\<close>. The result is the return value and the information.\<close>

definition rlc_am_get_data_pdu_infos :: "octet list \<Rightarrow> (int \<times> rlc_am_rx_pdu) option" where
  "rlc_am_get_data_pdu_infos pdu =
     (if length pdu < 2 \<or> drop_bit 7 (pdu ! 0) = 0 then None
      else
        let b1 = pdu ! 0;
            rf = bit b1 6;
            hs = (if rf then 4 else 2);
            info = \<lparr>rx_rf = rf, rx_p = bit b1 5, rx_fi = unat (drop_bit 3 b1 AND 0x03), rx_e = bit b1 2,
                    rx_sn = uint (pdu ! 1) + 256 * uint (b1 AND 0x03), rx_lsf = False, rx_so = 0, rx_li_list = [], rx_hidden_size = 0,
                    rx_payload = drop hs pdu, rx_payload_size = 0, rx_header_size = int hs, all_segments_received = False,
                    segment_reassembled = RLC_AM_RX_PDU_SEGMENT_REASSEMBLE_NO\<rparr>
        in if rf \<and> length pdu < 4 then None
           else do {
             let info1 = (if rf then info\<lparr>rx_lsf := bit (pdu ! 2) 7, rx_so := uint (pdu ! 3) + 256 * uint (pdu ! 2 AND 0x7F)\<rparr> else info);
             (ok, lis, n) \<leftarrow> (if rx_e info then am_read_lis pdu hs [] else Some (True, [], hs));
             let info2 = info1\<lparr>rx_li_list := lis, rx_header_size := int n, rx_payload := drop n pdu\<rparr>;
             if \<not> ok then Some (- 2, info2)
             else
               let size = s16 (int (length pdu) - int n); sum_li = foldl (\<lambda>s li. s16 (s + li)) 0 lis
               in Some (0, info2\<lparr>rx_payload_size := size, rx_hidden_size := (if size > sum_li then s16 (size - sum_li) else 0)\<rparr>) })"

section \<open>Reassembly (rlc_am_reassembly.c)\<close>

definition am_slice :: "octet list \<Rightarrow> int \<Rightarrow> int \<Rightarrow> octet list option" where
  "am_slice bs off n = (if 0 \<le> off \<and> 0 \<le> n \<and> off + n \<le> int (length bs) then Some (take (nat n) (drop (nat off) bs)) else None)"

definition rlc_am_reassembly :: "am_allocator \<Rightarrow> octet list \<Rightarrow> rlc_am_rx_entity \<Rightarrow> rlc_am_rx_entity option" where
  "rlc_am_reassembly alloc src e = do {
     e1 \<leftarrow> (case am_output_sdu e of
              None \<Rightarrow> map_option (\<lambda>(_, b). e\<lparr>am_output_sdu := Some b, am_output_size := 0\<rparr>) (alloc RLC_SDU_MAX_SIZE)
            | Some b \<Rightarrow> Some e);
     b \<leftarrow> am_output_sdu e1;
     if am_output_size e1 + length src \<le> RLC_SDU_MAX_SIZE
     then map_option (\<lambda>b1. e1\<lparr>am_output_sdu := Some b1, am_output_size := am_output_size e1 + length src\<rparr>)
            (write_at (am_output_size e1) src b)
     else Some (e1\<lparr>am_output_size := 0\<rparr>) }"

text \<open>An SDU without octets ends in an assertion that always fails.\<close>

definition rlc_am_send_sdu :: "rlc_am_rx_entity \<Rightarrow> rlc_am_rx_entity option" where
  "rlc_am_send_sdu e =
     (case am_output_sdu e of
        None \<Rightarrow> Some e
      | Some b \<Rightarrow>
          if am_output_size e > 0
          then Some (e\<lparr>am_output_sdu := None, am_output_size := 0, am_delivered := am_delivered e @ [take (am_output_size e) b]\<rparr>)
          else None)"

text \<open>\<open>for (...) { rlc_am_reassembly (&payload[j], li_list[i]); rlc_am_send_sdu; j = j + li_list[i]; }\<close>\<close>

fun am_reassemble_lis :: "am_allocator \<Rightarrow> octet list \<Rightarrow> int \<Rightarrow> int list \<Rightarrow> rlc_am_rx_entity \<Rightarrow> (rlc_am_rx_entity \<times> int) option" where
  "am_reassemble_lis alloc payload j [] e = Some (e, j)"
| "am_reassemble_lis alloc payload j (li # lis) e = do {
     src \<leftarrow> am_slice payload j li;
     e1 \<leftarrow> rlc_am_reassembly alloc src e;
     e2 \<leftarrow> rlc_am_send_sdu e1;
     am_reassemble_lis alloc payload (j + li) lis e2 }"

text \<open>Bit 1 of \<open>fi\<close> is clear when the first octet begins an SDU, bit 0 when the last octet ends one.\<close>

definition rlc_am_reassemble_pdu :: "am_allocator \<Rightarrow> rlc_am_rx_pdu \<Rightarrow> rlc_am_rx_entity \<Rightarrow> rlc_am_rx_entity option" where
  "rlc_am_reassemble_pdu alloc c e =
     (if \<not> rx_e c then do {
        e1 \<leftarrow> (if rx_fi c = 0 \<or> rx_fi c = 1 then rlc_am_send_sdu e else Some e);
        src \<leftarrow> am_slice (rx_payload c) 0 (rx_payload_size c);
        e2 \<leftarrow> rlc_am_reassembly alloc src e1;
        if rx_fi c = 0 \<or> rx_fi c = 2 then rlc_am_send_sdu e2 else Some e2 }
      else do {
        e1 \<leftarrow> (if rx_fi c = 0 \<or> rx_fi c = 1 then rlc_am_send_sdu e else Some e);
        (e2, j) \<leftarrow> am_reassemble_lis alloc (rx_payload c) 0 (rx_li_list c) e1;
        if rx_hidden_size c > 0 then do {
          src \<leftarrow> am_slice (rx_payload c) j (rx_hidden_size c);
          e3 \<leftarrow> rlc_am_reassembly alloc src e2;
          if rx_fi c = 0 \<or> rx_fi c = 2 then rlc_am_send_sdu e3 else Some e3 }
        else Some e2 })"

section \<open>Cutting a segment out of a PDU (create_new_segment_from_pdu)\<close>

text \<open>
  The first length indicator that reaches behind \<open>so_offset\<close>: the sum of those before it, those left, and whether any was skipped.
\<close>

fun skip_lis :: "int \<Rightarrow> int \<Rightarrow> int list \<Rightarrow> bool \<Rightarrow> int \<times> int list \<times> bool" where
  "skip_lis off li_sum [] skipped = (li_sum, [], skipped)"
| "skip_lis off li_sum (li # lis) skipped =
     (if li_sum + li \<le> off then skip_lis off (u16 (li_sum + li)) lis True else (li_sum, li # lis, skipped))"

text \<open>Whole indicators that fit into the octets left.\<close>

fun take_lis :: "int \<Rightarrow> int list \<Rightarrow> int list \<times> int" where
  "take_lis remaining [] = ([], remaining)"
| "take_lis remaining (li # lis) =
     (if remaining \<ge> li then let (taken, r) = take_lis (remaining - li) lis in (li # taken, r) else ([], remaining))"

definition am_header_li_length :: "nat \<Rightarrow> int" where
  "am_header_li_length n = int (n + n div 2 + n mod 2)"

text \<open>
  The data area of the new block begins with an \<open>rlc_am_rx_pdu_management_t\<close>, followed at \<open>sizeof (mac_rlc_max_rx_header_size_t)\<close> by header and
  data. The offsets are those of the build: 64-bit pointers, little-endian, bit fields from the least significant bit.

  When the information is complete the function stores a \<open>struct mac_tb_ind\<close> into the same octets: \<open>data_ptr\<close> falls on the bit fields, on
  \<open>num_li\<close> and on the first length indicator, \<open>size\<close> on the second, and \<open>first_bit\<close> on the upper half of the third. \<open>num_li\<close> is the length of
  \<open>rx_li_list\<close>, up to the size of the array.
\<close>

definition mac_rlc_max_rx_header_size :: nat where "mac_rlc_max_rx_header_size = 288"

definition all_segments_received_offset :: nat where "all_segments_received_offset = 280"

definition li_list_offset :: nat where "li_list_offset = 6"

definition am_octets16 :: "octet list \<Rightarrow> nat \<Rightarrow> int" where
  "am_octets16 block i = s16 (uint (block ! i) + 256 * uint (block ! (i + 1)))"

definition am_store_tb_ind :: "64 word \<Rightarrow> int \<Rightarrow> octet list \<Rightarrow> rlc_am_rx_pdu \<Rightarrow> rlc_am_rx_pdu" where
  "am_store_tb_ind data_ptr tb_size block c =
     (let li_array = rx_li_list c @ map (\<lambda>i. am_octets16 block (li_list_offset + 2 * i)) [length (rx_li_list c)..<RLC_AM_MAX_SDU_IN_PDU];
          li_array' = [s16 (uint (drop_bit 48 data_ptr)), s16 tb_size, li_array ! 2 mod 256] @ drop 3 li_array;
          num_li = unat (drop_bit 32 data_ptr AND 0xFFFF)
      in c\<lparr>rx_rf := bit data_ptr 1, rx_p := bit data_ptr 2, rx_fi := unat (drop_bit 3 data_ptr AND 0x3), rx_e := bit data_ptr 5,
           rx_sn := uint (drop_bit 6 data_ptr AND 0x3FF), rx_lsf := bit data_ptr 16, rx_so := uint (drop_bit 17 data_ptr AND 0x7FFF),
           rx_li_list := take num_li li_array'\<rparr>)"

text \<open>Whether the new segment begins and ends with an SDU, and its length indicators.\<close>

definition am_cut_framing :: "rlc_am_rx_pdu \<Rightarrow> int \<Rightarrow> int \<Rightarrow> bool \<times> bool \<times> int list" where
  "am_cut_framing c so_offset n =
     (let fi_start = \<not> bit (rx_fi c) 1; fi_end = \<not> bit (rx_fi c) 0
      in if rx_li_list c = [] then (fi_start \<and> so_offset = 0, fi_end \<and> so_offset + n = rx_payload_size c, [])
         else
           let (li_sum, left, skipped) = skip_lis so_offset 0 (rx_li_list c) False;
               start = (fi_start \<or> skipped \<and> so_offset = li_sum)
           in case left of
                [] \<Rightarrow> (start, fi_end, [])
              | li # more_lis \<Rightarrow>
                  let li0 = li_sum + li - so_offset
                  in if n \<le> li0 then (start, fi_end, [])
                     else let (taken, r) = take_lis (n - li0) more_lis in (start, fi_end \<or> r = 0, li0 # taken))"

text \<open>
  The new element: \<open>so_offset\<close> octets of the payload are left out in front and \<open>n\<close> are copied. \<open>all_segments_received\<close> keeps what
  the block held before. The header that the function also writes into the block is not read again.
\<close>

definition create_new_segment_from_pdu :: "am_allocator \<Rightarrow> rlc_am_rx_pdu \<Rightarrow> int \<Rightarrow> int \<Rightarrow> rlc_am_rx_pdu option option" where
  "create_new_segment_from_pdu alloc c so_offset n =
     (let lsf = ((rx_lsf c \<or> \<not> rx_rf c) \<and> so_offset + n = rx_payload_size c);
          (start, stop, lis) = am_cut_framing c so_offset n;
          hs = RLC_AM_PDU_SEGMENT_HEADER_MIN_SIZE + am_header_li_length (length lis)
      in case alloc (mac_rlc_max_rx_header_size + nat (hs + n)) of
           None \<Rightarrow> Some None
         | Some (addr, block) \<Rightarrow> do {
             data \<leftarrow> am_slice (rx_payload c) so_offset n;
             if int (length block) < int mac_rlc_max_rx_header_size + hs + n then None
             else
               let seg = \<lparr>rx_rf = True, rx_p = rx_p c, rx_fi = (if start then 0 else 2) + (if stop then 0 else 1), rx_e = (lis \<noteq> []),
                          rx_sn = rx_sn c, rx_lsf = lsf, rx_so = (rx_so c + so_offset) mod 32768, rx_li_list = lis,
                          rx_hidden_size = n - sum_list lis, rx_payload = data, rx_payload_size = n, rx_header_size = hs,
                          all_segments_received = (block ! all_segments_received_offset \<noteq> 0),
                          segment_reassembled = RLC_AM_RX_PDU_SEGMENT_REASSEMBLE_NO\<rparr>
               in Some (Some (am_store_tb_ind (addr + of_nat mac_rlc_max_rx_header_size) (hs + n) block seg)) })"

section \<open>Insertion into the receiver buffer (rlc_am_rx_list.c)\<close>

text \<open>
  Where the received block ends up: in the buffer, between two parts of it, or not. In the latter case it was either rejected, or
  replaced by a new segment and given back to the pool.
\<close>

datatype am_place = Stored "rlc_am_rx_pdu list" "rlc_am_rx_pdu list" | Not_Stored "rlc_am_rx_pdu list"

abbreviation rx_end :: "rlc_am_rx_pdu \<Rightarrow> int" where
  "rx_end c \<equiv> rx_so c + rx_payload_size c"

text \<open>The elements before the received sequence number, and those from it on.\<close>

definition sn_before :: "rlc_am_rx_entity \<Rightarrow> rlc_am_rx_pdu \<Rightarrow> rlc_am_rx_pdu \<Rightarrow> bool" where
  "sn_before e tb c \<longleftrightarrow> RLC_AM_DIFF_SN (rx_sn c) (vr_r e) < RLC_AM_DIFF_SN (rx_sn tb) (vr_r e)"

text \<open>
  Contiguous segments from \<open>so_end\<close> on: those passed, those left, and the new \<open>so_end\<close> (\<open>next_waited_so\<close> in
  \<open>rlc_am_rx_list_handle_pdu\<close>). \<open>conv\<close> is the conversion to the type of that variable.
\<close>

fun contiguous :: "(int \<Rightarrow> int) \<Rightarrow> int \<Rightarrow> int \<Rightarrow> rlc_am_rx_pdu list \<Rightarrow> rlc_am_rx_pdu list \<times> rlc_am_rx_pdu list \<times> int" where
  "contiguous conv sn so_end [] = ([], [], so_end)"
| "contiguous conv sn so_end (c # cs) =
     (if rx_sn c = sn \<and> rx_so c = so_end
      then let (passed, left, e) = contiguous conv sn (conv (so_end + rx_payload_size c)) cs in (c # passed, left, e)
      else ([], c # cs, so_end))"

text \<open>Segments that end within the received one are discarded.\<close>

definition drop_embedded :: "int \<Rightarrow> int \<Rightarrow> rlc_am_rx_pdu list \<Rightarrow> rlc_am_rx_pdu list" where
  "drop_embedded sn so_end = dropWhile (\<lambda>c. rx_sn c = sn \<and> so_end \<ge> rx_end c - 1)"

definition cut_end :: "int \<Rightarrow> int \<Rightarrow> rlc_am_rx_pdu list \<Rightarrow> int" where
  "cut_end sn so_end cs =
     (case cs of [] \<Rightarrow> so_end | c # _ \<Rightarrow> if rx_sn c = sn \<and> so_end \<ge> rx_so c then u16 (rx_so c - 1) else so_end)"

text \<open>
  The last step: a segment with the octets from \<open>s\<close> to \<open>t\<close>. \<open>prevs\<close> is the part of the buffer up to \<open>previous_cursor_p\<close>, \<open>left\<close>
  the part behind it. Without a previous element it is put before the head, which must exist.
\<close>

definition insert_cut :: "am_allocator \<Rightarrow> rlc_am_rx_pdu \<Rightarrow> int \<Rightarrow> int \<Rightarrow> rlc_am_rx_pdu list \<Rightarrow> rlc_am_rx_pdu list \<Rightarrow> (rlc_am_rx_pdu_status \<times> am_place) option" where
  "insert_cut alloc tb s t prevs left =
     (if \<not> (rx_so tb \<noteq> s \<or> t \<noteq> rx_end tb - 1) then None
      else do {
        seg \<leftarrow> create_new_segment_from_pdu alloc tb (u16 (s - rx_so tb)) (t - s + 1);
        case seg of
          None \<Rightarrow> Some (RLC_AM_DATA_PDU_STATUS_BUFFER_FULL, Not_Stored (prevs @ left))
        | Some c \<Rightarrow>
            if prevs = [] \<and> left = [] then None
            else Some (RLC_AM_DATA_PDU_STATUS_OK, Not_Stored (prevs @ c # left)) })"

text \<open>
  A received segment that begins behind the start of the first stored one. \<open>pre\<close> are the elements of smaller sequence numbers.
\<close>

definition insert_behind :: "am_allocator \<Rightarrow> rlc_am_rx_pdu \<Rightarrow> int \<Rightarrow> int \<Rightarrow> rlc_am_rx_pdu list \<Rightarrow> rlc_am_rx_pdu list \<Rightarrow> (rlc_am_rx_pdu_status \<times> am_place) option" where
  "insert_behind alloc tb s t pre cs =
     (let sn = rx_sn tb;
          ended = (\<lambda>c. rx_sn c = sn \<and> rx_end c \<le> s);
          passed = takeWhile ended cs;
          cursor = dropWhile ended cs;
          prevs = (if passed = [] then take 1 cs else passed)
      in if cursor = [] \<or> rx_sn (hd cursor) \<noteq> sn \<or> rx_so (hd cursor) > t
         then Some (RLC_AM_DATA_PDU_STATUS_OK, Stored (pre @ prevs) (drop (length prevs) cs))
         else
           let so_start_min = rx_so (last prevs);
               (more, left, so_end) = contiguous u16 sn (u16 (rx_end (last prevs))) (drop (length prevs) cs);
               prev = last (prevs @ more)
           in if so_start_min \<le> s \<and> t \<le> so_end - 1
              then Some (RLC_AM_DATA_PDU_STATUS_AM_SEGMENT_DUPLICATE, Not_Stored (pre @ cs))
              else
                let left' = drop_embedded sn t left;
                    s' = (if s < rx_so prev \<or> s < rx_end prev then u16 (rx_end prev) else s);
                    t' = cut_end sn t left'
                in if s' \<le> t' \<and> rx_so tb \<le> s' \<and> t' \<le> rx_end tb - 1
                   then insert_cut alloc tb s' t' (pre @ prevs @ more) left'
                   else None)"

definition rlc_am_rx_list_handle_pdu_segment :: "am_allocator \<Rightarrow> rlc_am_rx_pdu \<Rightarrow> rlc_am_rx_entity \<Rightarrow> (rlc_am_rx_pdu_status \<times> am_place) option" where
  "rlc_am_rx_list_handle_pdu_segment alloc tb e =
     (let s = rx_so tb; t = u16 (rx_end tb - 1); sn = rx_sn tb;
          pre = takeWhile (sn_before e tb) (receiver_buffer e);
          cs = dropWhile (sn_before e tb) (receiver_buffer e)
      in if receiver_buffer e = [] then None
         else case cs of
           [] \<Rightarrow> Some (RLC_AM_DATA_PDU_STATUS_OK, Stored pre cs)
         | c # _ \<Rightarrow>
             if rx_sn c \<noteq> sn then Some (RLC_AM_DATA_PDU_STATUS_OK, Stored pre cs)
             else if all_segments_received c then Some (RLC_AM_DATA_PDU_STATUS_AM_SEGMENT_DUPLICATE, Not_Stored (receiver_buffer e))
             else if \<exists>d \<in> set (takeWhile (\<lambda>d. rx_sn d = sn) cs). s \<ge> rx_so d \<and> t \<le> rx_end d - 1
             then Some (RLC_AM_DATA_PDU_STATUS_AM_SEGMENT_DUPLICATE, Not_Stored (receiver_buffer e))
             else if rx_so c = 0 then insert_behind alloc tb s t pre cs
             else if t < rx_so c then Some (RLC_AM_DATA_PDU_STATUS_OK, Stored pre cs)
             else if s < rx_so c then
               let left = drop_embedded sn t cs; t' = cut_end sn t left
               in if s \<le> t' \<and> t' \<le> rx_end tb - 1 then insert_cut alloc tb s t' pre left else None
             else insert_behind alloc tb s t pre cs)"

text \<open>A PDU that is not a segment. Where its segments make up the whole buffer there is no element left to insert it at.\<close>

definition rlc_am_rx_list_handle_pdu :: "am_allocator \<Rightarrow> rlc_am_rx_pdu \<Rightarrow> rlc_am_rx_entity \<Rightarrow> (rlc_am_rx_pdu_status \<times> am_place) option" where
  "rlc_am_rx_list_handle_pdu alloc tb e =
     (let sn = rx_sn tb;
          pre = takeWhile (sn_before e tb) (receiver_buffer e);
          cs = dropWhile (sn_before e tb) (receiver_buffer e)
      in if receiver_buffer e = [] then None
         else case cs of
           [] \<Rightarrow> Some (RLC_AM_DATA_PDU_STATUS_OK, Stored pre cs)
         | c # _ \<Rightarrow>
             if rx_sn c \<noteq> sn then Some (RLC_AM_DATA_PDU_STATUS_OK, Stored pre cs)
             else if all_segments_received c then Some (RLC_AM_DATA_PDU_STATUS_SN_DUPLICATE, Not_Stored (receiver_buffer e))
             else if sn \<noteq> vr_r e \<or> rx_so c \<noteq> 0 then
               let left = dropWhile (\<lambda>d. rx_sn d = sn) cs
               in if pre = [] \<and> left = [] then None else Some (RLC_AM_DATA_PDU_STATUS_OK, Stored pre left)
             else if \<not> rx_rf c then None
             else
               let (passed, left, next_waited_so) = contiguous (\<lambda>n. n) sn 0 cs
               in do {
                 seg \<leftarrow> create_new_segment_from_pdu alloc tb (u16 next_waited_so) (rx_payload_size tb - next_waited_so);
                 case seg of
                   None \<Rightarrow> Some (RLC_AM_DATA_PDU_STATUS_BUFFER_FULL, Not_Stored (receiver_buffer e))
                 | Some c' \<Rightarrow> Some (RLC_AM_DATA_PDU_STATUS_OK, Not_Stored (pre @ passed @ c' # dropWhile (\<lambda>d. rx_sn d = sn) left)) })"

definition rlc_am_rx_list_check_duplicate_insert_pdu :: "am_allocator \<Rightarrow> rlc_am_rx_pdu \<Rightarrow> rlc_am_rx_entity \<Rightarrow> (rlc_am_rx_pdu_status \<times> am_place) option" where
  "rlc_am_rx_list_check_duplicate_insert_pdu alloc tb e =
     (if receiver_buffer e = [] then Some (RLC_AM_DATA_PDU_STATUS_OK, Stored [] [])
      else if \<not> rx_rf tb then rlc_am_rx_list_handle_pdu alloc tb e
      else rlc_am_rx_list_handle_pdu_segment alloc tb e)"

section \<open>Complete PDUs and state variables\<close>

text \<open>The segments behind the first one follow each other without a gap up to one with the last segment flag.\<close>

fun segments_complete :: "int \<Rightarrow> int \<Rightarrow> int \<Rightarrow> rlc_am_rx_pdu list \<Rightarrow> bool" where
  "segments_complete sn next_waited_so last_end_so [] = False"
| "segments_complete sn next_waited_so last_end_so (c # cs) =
     (if rx_sn c \<noteq> sn \<or> \<not> (rx_rf c \<and> rx_so c \<le> last_end_so) \<or> rx_so c \<noteq> next_waited_so then False
      else rx_lsf c \<or> segments_complete sn (next_waited_so + rx_payload_size c) (rx_end c) cs)"

fun mark_while :: "int \<Rightarrow> rlc_am_rx_pdu list \<Rightarrow> rlc_am_rx_pdu list" where
  "mark_while sn [] = []"
| "mark_while sn (c # cs) = (if rx_sn c = sn then c\<lparr>all_segments_received := True\<rparr> # mark_while sn cs else c # cs)"

definition rlc_am_rx_mark_all_segments_received :: "rlc_am_rx_pdu list \<Rightarrow> rlc_am_rx_pdu list" where
  "rlc_am_rx_mark_all_segments_received cs = (case cs of [] \<Rightarrow> [] | c # _ \<Rightarrow> mark_while (rx_sn c) cs)"

text \<open>The received block \<open>tb\<close> stands between \<open>pre\<close> and \<open>post\<close>.\<close>

definition rlc_am_rx_check_all_byte_segments :: "rlc_am_rx_pdu list \<Rightarrow> rlc_am_rx_pdu \<Rightarrow> rlc_am_rx_pdu list \<Rightarrow> rlc_am_rx_pdu list \<times> rlc_am_rx_pdu \<times> rlc_am_rx_pdu list" where
  "rlc_am_rx_check_all_byte_segments pre tb post =
     (if \<not> rx_rf tb then (pre, tb\<lparr>all_segments_received := True\<rparr>, post)
      else
        let same = (\<lambda>c. rx_sn c = rx_sn tb);
            n = length (takeWhile same (rev pre));
            start = take (length pre - n) pre;
            segs = drop (length pre - n) pre @ tb # post;
            first = hd segs
        in if rx_so first = 0 \<and> segments_complete (rx_sn tb) (rx_payload_size first) (rx_payload_size first) (tl segs)
           then let segs' = rlc_am_rx_mark_all_segments_received segs in (start @ take n segs', segs' ! n, drop (Suc n) segs')
           else (pre, tb, post))"

fun rlc_am_rx_update_vr_ms :: "int \<Rightarrow> rlc_am_rx_pdu list \<Rightarrow> int \<Rightarrow> int" where
  "rlc_am_rx_update_vr_ms h [] ms = ms"
| "rlc_am_rx_update_vr_ms h (c # cs) ms =
     (if \<not> all_segments_received c \<or> ms \<noteq> rx_sn c then ms
      else let ms' = RLC_AM_NEXT_SN (rx_sn c) in if ms' \<noteq> h then rlc_am_rx_update_vr_ms h cs ms' else ms')"

fun rlc_am_rx_update_vr_r :: "rlc_am_rx_pdu list \<Rightarrow> int \<Rightarrow> int" where
  "rlc_am_rx_update_vr_r [] r = r"
| "rlc_am_rx_update_vr_r (c # cs) r =
     (if \<not> all_segments_received c \<or> r \<noteq> rx_sn c then r
      else rlc_am_rx_update_vr_r cs (if \<not> rx_rf c \<or> rx_lsf c then RLC_AM_NEXT_SN r else r))"

text \<open>In-sequence segments of \<open>sn\<close> become pending: the marked ones, those left, and whether any was marked.\<close>

fun mark_pending :: "int \<Rightarrow> int \<Rightarrow> rlc_am_rx_pdu list \<Rightarrow> rlc_am_rx_pdu list \<times> rlc_am_rx_pdu list \<times> bool" where
  "mark_pending sn so [] = ([], [], False)"
| "mark_pending sn so (c # cs) =
     (if rx_sn c = sn \<and> rx_so c = so
      then let (marked, left, any) = mark_pending sn (so + rx_payload_size c) cs;
               fresh = (segment_reassembled c = RLC_AM_RX_PDU_SEGMENT_REASSEMBLE_NO)
           in ((if fresh then c\<lparr>segment_reassembled := RLC_AM_RX_PDU_SEGMENT_REASSEMBLE_PENDING\<rparr> else c) # marked, left, fresh \<or> any)
      else ([], c # cs, False))"

text \<open>Whether SDUs are to be reassembled, and the buffer.\<close>

definition rlc_am_rx_check_vr_reassemble :: "rlc_am_rx_entity \<Rightarrow> (bool \<times> rlc_am_rx_pdu list) option" where
  "rlc_am_rx_check_vr_reassemble e =
     (case receiver_buffer e of
        [] \<Rightarrow> Some (False, [])
      | c # _ \<Rightarrow>
          let sn_ref = rx_sn c; r = vr_r e
          in if sn_ref \<noteq> r then
               if rx_rf c \<and> \<not> all_segments_received c then None
               else
                 let (marked, rest, _) = (if rx_rf c then mark_pending sn_ref 0 (receiver_buffer e) else ([], receiver_buffer e, False));
                     before_r = (\<lambda>d. RLC_AM_DIFF_SN (rx_sn d) sn_ref < RLC_AM_DIFF_SN r sn_ref);
                     skipped = takeWhile before_r rest
                 in case dropWhile before_r rest of
                      [] \<Rightarrow> Some (True, marked @ skipped)
                    | d # ds \<Rightarrow>
                        if rx_sn d = r then
                          if all_segments_received d then None
                          else let (marked2, rest2, _) = mark_pending r 0 (d # ds) in Some (True, marked @ skipped @ marked2 @ rest2)
                        else Some (True, marked @ skipped @ d # ds)
             else if all_segments_received c then None
             else let (marked, rest, any) = mark_pending r 0 (receiver_buffer e) in Some (any, marked @ rest))"

section \<open>Reassembly of the receiver buffer\<close>

text \<open>
  One round of the loop, with the cursor behind the elements \<open>kept\<close>: \<^term>\<open>None\<close> in the last component when the function returns, otherwise
  the element that was handled and the new position. A complete element is taken from the head of the buffer.
\<close>

definition reassemble_round :: "am_allocator \<Rightarrow> rlc_am_rx_pdu list \<Rightarrow> rlc_am_rx_pdu \<Rightarrow> rlc_am_rx_pdu list \<Rightarrow> rlc_am_rx_entity \<Rightarrow>
    (rlc_am_rx_entity \<times> (rlc_am_rx_pdu \<times> rlc_am_rx_pdu list \<times> rlc_am_rx_pdu list) option) option" where
  "reassemble_round alloc kept c cs e =
     (if all_segments_received c then
        (case kept @ c # cs of
           [] \<Rightarrow> None
         | h # buf \<Rightarrow> do {
             e1 \<leftarrow> rlc_am_reassemble_pdu alloc h (e\<lparr>receiver_buffer := buf\<rparr>);
             Some (e1, if buf = [] then None else Some (c, [], buf)) })
      else if segment_reassembled c = RLC_AM_RX_PDU_SEGMENT_REASSEMBLE_PENDING then do {
        let c' = c\<lparr>segment_reassembled := RLC_AM_RX_PDU_SEGMENT_REASSEMBLED\<rparr>;
        e1 \<leftarrow> rlc_am_reassemble_pdu alloc c' (e\<lparr>receiver_buffer := kept @ c' # cs\<rparr>);
        Some (e1, if cs = [] then None else Some (c', kept @ [c'], cs)) }
      else if segment_reassembled c = RLC_AM_RX_PDU_SEGMENT_REASSEMBLED then
        Some (e, if cs = [] then None else Some (c, kept @ [c], cs))
      else Some (e, None))"

text \<open>The condition of the loop, on the element handled and the next one.\<close>

definition reassemble_next :: "rlc_am_rx_pdu \<Rightarrow> rlc_am_rx_pdu \<Rightarrow> bool" where
  "reassemble_next old c \<longleftrightarrow>
     RLC_AM_DIFF_SN (rx_sn c) (rx_sn old) < 2 \<and> all_segments_received old \<or>
     rx_sn c = rx_sn old \<and> segment_reassembled c \<noteq> RLC_AM_RX_PDU_SEGMENT_REASSEMBLE_NO"

text \<open>Each round shortens the buffer or moves the cursor on.\<close>

lemma reassemble_round_progress:
  assumes "reassemble_round alloc kept c cs e = Some (e1, Some (old, kept1, cs1))"
  shows "length kept1 + length cs1 < length kept + Suc (length cs) \<or>
    length kept1 + length cs1 = length kept + Suc (length cs) \<and> length cs1 < Suc (length cs)"
  using assms
  by (cases kept) (auto simp: reassemble_round_def Let_def split: if_splits Option.bind_splits)

function reassemble_loop :: "am_allocator \<Rightarrow> rlc_am_rx_pdu list \<Rightarrow> rlc_am_rx_pdu list \<Rightarrow> rlc_am_rx_entity \<Rightarrow> rlc_am_rx_entity option" where
  "reassemble_loop alloc kept [] e = Some e"
| "reassemble_loop alloc kept (c # cs) e = do {
     (e1, pos) \<leftarrow> reassemble_round alloc kept c cs e;
     case pos of
       None \<Rightarrow> Some e1
     | Some (old, kept1, cs1) \<Rightarrow>
         if cs1 \<noteq> [] \<and> reassemble_next old (hd cs1) then reassemble_loop alloc kept1 cs1 e1 else Some e1 }"
  by pat_completeness auto

termination
proof (relation "measures [\<lambda>(alloc, kept, cs, e). length kept + length cs, \<lambda>(alloc, kept, cs, e). length cs]")
  fix alloc kept c cs e x e1 pos y old z kept1 cs1
  assume "reassemble_round alloc kept c cs e = Some x" "(e1, pos) = x" "pos = Some y" "(old, z) = y" "(kept1, cs1) = z"
  then have "reassemble_round alloc kept c cs e = Some (e1, Some (old, kept1, cs1))" by auto
  then show "((alloc, kept1, cs1, e1), alloc, kept, c # cs, e)
      \<in> measures [\<lambda>(alloc, kept, cs, e). length kept + length cs, \<lambda>(alloc, kept, cs, e). length cs]"
    using reassemble_round_progress by auto
qed simp

declare reassemble_loop.simps [simp del]

definition rlc_am_rx_list_reassemble_rlc_sdus :: "am_allocator \<Rightarrow> rlc_am_rx_entity \<Rightarrow> rlc_am_rx_entity option" where
  "rlc_am_rx_list_reassemble_rlc_sdus alloc e =
     (case receiver_buffer e of
        [] \<Rightarrow> Some e
      | c # _ \<Rightarrow>
          if all_segments_received c \<and> rx_rf c then
            let sn = rx_sn c;
                buf = dropWhile (\<lambda>d. segment_reassembled d = RLC_AM_RX_PDU_SEGMENT_REASSEMBLED \<and> rx_sn d = sn) (receiver_buffer e);
                e1 = e\<lparr>receiver_buffer := buf\<rparr>
            in if buf = [] \<or> RLC_AM_DIFF_SN (rx_sn (hd buf)) sn > 1 then Some e1
               else reassemble_loop alloc [] buf e1
          else reassemble_loop alloc [] (receiver_buffer e) e)"

section \<open>Reception of a data PDU (rlc_am_receive_process_data_pdu)\<close>

text \<open>A PDU has been placed in the buffer: state variables, then whether SDUs can be reassembled.\<close>

definition am_update_state :: "rlc_am_rx_pdu list \<Rightarrow> rlc_am_rx_pdu \<Rightarrow> rlc_am_rx_pdu list \<Rightarrow> rlc_am_rx_entity \<Rightarrow> (bool \<times> rlc_am_rx_entity) option" where
  "am_update_state pre tb post e =
     (let sn = rx_sn tb;
          h = (if RLC_AM_DIFF_SN sn (vr_r e) \<ge> RLC_AM_DIFF_SN (vr_h e) (vr_r e) then RLC_AM_NEXT_SN sn else vr_h e);
          (pre1, tb1, post1) = rlc_am_rx_check_all_byte_segments pre tb post;
          ms = (if sn = vr_ms e \<and> all_segments_received tb1 then rlc_am_rx_update_vr_ms h (tb1 # post1) (vr_ms e) else vr_ms e);
          e1 = e\<lparr>vr_h := h, vr_ms := ms, receiver_buffer := pre1 @ tb1 # post1\<rparr>
      in if sn = vr_r e then do {
           let e2 = (if all_segments_received tb1
                     then let r = rlc_am_rx_update_vr_r (tb1 # post1) (vr_r e) in e1\<lparr>vr_r := r, vr_mr := (r + RLC_AM_WINDOW_SIZE) mod RLC_AM_SN_MODULO\<rparr>
                     else e1);
           (reassemble, buf) \<leftarrow> rlc_am_rx_check_vr_reassemble e2;
           Some (reassemble, e2\<lparr>receiver_buffer := buf\<rparr>) }
         else Some (False, e1))"

definition am_clear_delayed :: "rlc_am_rx_entity \<Rightarrow> rlc_am_rx_entity" where
  "am_clear_delayed e = e\<lparr>status_requested := status_requested e AND NOT RLC_AM_STATUS_TRIGGERED_DELAYED, sn_status_triggered_delayed := s16 RLC_SN_UNDEFINED\<rparr>"

text \<open>t-Reordering after the state variables have been updated.\<close>

definition am_update_timer :: "32 word \<Rightarrow> rlc_am_rx_entity \<Rightarrow> rlc_am_rx_entity" where
  "am_update_timer now e =
     (let e1 = (if (am_running (am_t_reordering e) \<or> am_ms_duration (am_t_reordering e) = 0 \<and> vr_x e \<noteq> RLC_SN_UNDEFINED) \<and>
                   (vr_x e = vr_r e \<or> \<not> RLC_AM_SN_IN_WINDOW (vr_x e) (vr_r e) \<and> vr_x e \<noteq> vr_mr e)
                then (rlc_am_stop_and_reset_timer_reordering e)\<lparr>vr_x := RLC_SN_UNDEFINED\<rparr> else e)
      in if \<not> am_running (am_t_reordering e1) \<and> vr_h e1 \<noteq> vr_r e1 then
           let e2 = e1\<lparr>vr_x := vr_h e1\<rparr>
           in if am_ms_duration (am_t_reordering e2) \<noteq> 0 then rlc_am_start_timer_reordering now e2
              else am_clear_delayed (e2\<lparr>vr_ms := vr_h e2, status_requested := status_requested e2 OR RLC_AM_STATUS_TRIGGERED_T_REORDERING\<rparr>)
         else e1)"

text \<open>A poll, and a report that was put off.\<close>

definition am_passed_ms :: "int \<Rightarrow> rlc_am_rx_entity \<Rightarrow> bool" where
  "am_passed_ms sn e \<longleftrightarrow> \<not> RLC_AM_SN_IN_WINDOW sn (vr_r e) \<or> RLC_AM_DIFF_SN sn (vr_r e) < RLC_AM_DIFF_SN (vr_ms e) (vr_r e)"

definition am_handle_poll :: "rlc_am_rx_pdu \<Rightarrow> rlc_am_rx_pdu_status \<Rightarrow> rlc_am_rx_entity \<Rightarrow> rlc_am_rx_entity" where
  "am_handle_poll tb status e =
     (if rx_p tb \<and> status \<notin> {RLC_AM_DATA_PDU_STATUS_BUFFER_FULL, RLC_AM_DATA_PDU_STATUS_HEADER_ERROR} \<and>
         (status_requested e AND RLC_AM_STATUS_TRIGGERED_DELAYED \<noteq> 0 \<or>
          status_requested e AND (RLC_AM_STATUS_TRIGGERED_POLL OR RLC_AM_STATUS_TRIGGERED_T_REORDERING) = 0)
      then
        let e1 = e\<lparr>status_requested := status_requested e OR RLC_AM_STATUS_TRIGGERED_POLL\<rparr>
        in if status \<noteq> RLC_AM_DATA_PDU_STATUS_OK \<or> am_passed_ms (rx_sn tb) e1 then am_clear_delayed e1
           else if sn_status_triggered_delayed e1 = RLC_SN_UNDEFINED
           then e1\<lparr>status_requested := status_requested e1 OR RLC_AM_STATUS_TRIGGERED_DELAYED, sn_status_triggered_delayed := rx_sn tb\<rparr>
           else e1
      else e)"

definition am_resume_delayed :: "rlc_am_rx_pdu_status \<Rightarrow> rlc_am_rx_entity \<Rightarrow> rlc_am_rx_entity" where
  "am_resume_delayed status e =
     (if status_requested e AND RLC_AM_STATUS_TRIGGERED_DELAYED \<noteq> 0 \<and> status = RLC_AM_DATA_PDU_STATUS_OK \<and>
         am_passed_ms (sn_status_triggered_delayed e) e
      then am_clear_delayed e else e)"

text \<open>Insertion with what follows it: the status, whether to reassemble, and the entity.\<close>

definition am_insert :: "am_allocator \<Rightarrow> 32 word \<Rightarrow> rlc_am_rx_pdu \<Rightarrow> rlc_am_rx_entity \<Rightarrow> (rlc_am_rx_pdu_status \<times> bool \<times> rlc_am_rx_entity) option" where
  "am_insert alloc now tb e =
     (if \<not> RLC_AM_SN_IN_WINDOW (rx_sn tb) (vr_r e) then Some (RLC_AM_DATA_PDU_STATUS_SN_OUTSIDE_WINDOW, False, e)
      else do {
        (status, place) \<leftarrow> rlc_am_rx_list_check_duplicate_insert_pdu alloc tb e;
        case place of
          Stored pre post \<Rightarrow> do {
            (reassemble, e1) \<leftarrow> am_update_state pre tb post e;
            Some (status, reassemble, am_update_timer now e1) }
        | Not_Stored buf \<Rightarrow>
            if status = RLC_AM_DATA_PDU_STATUS_OK then None
            else Some (status, False, e\<lparr>receiver_buffer := buf\<rparr>) })"

definition rlc_am_receive_process_data_pdu :: "am_allocator \<Rightarrow> 32 word \<Rightarrow> octet list \<Rightarrow> rlc_am_rx_entity \<Rightarrow> rlc_am_rx_entity option" where
  "rlc_am_receive_process_data_pdu alloc now pdu e = do {
     (rc, tb) \<leftarrow> rlc_am_get_data_pdu_infos pdu;
     if rc < 0 then Some e
     else do {
       (status, reassemble, e1) \<leftarrow> am_insert alloc now tb e;
       let e2 = am_resume_delayed status (am_handle_poll tb status e1);
       if status = RLC_AM_DATA_PDU_STATUS_OK \<and> reassemble then rlc_am_rx_list_reassemble_rlc_sdus alloc e2
       else Some e2 } }"

section \<open>Expiry of t-Reordering (rlc_am_check_timer_reordering)\<close>

text \<open>The first sequence number from VR(X) on that is not received completely.\<close>

fun am_skip_complete :: "int \<Rightarrow> int \<Rightarrow> rlc_am_rx_pdu list \<Rightarrow> int" where
  "am_skip_complete h ms [] = ms"
| "am_skip_complete h ms (c # cs) =
     (if ms \<noteq> h \<and> rx_sn c = ms \<and> all_segments_received c
      then am_skip_complete h (if \<not> rx_rf c \<or> rx_lsf c then RLC_AM_NEXT_SN ms else ms) cs else ms)"

definition rlc_am_check_timer_reordering :: "32 word \<Rightarrow> rlc_am_rx_entity \<Rightarrow> rlc_am_rx_entity option" where
  "rlc_am_check_timer_reordering now e =
     (if am_running (am_t_reordering e) \<and> am_timer_expired now (am_t_reordering e) then
        if vr_x e = RLC_SN_UNDEFINED \<or> receiver_buffer e = [] then None
        else
          let x = vr_x e;
              cs = dropWhile (\<lambda>c. RLC_AM_DIFF_SN (rx_sn c) (vr_r e) < RLC_AM_DIFF_SN x (vr_r e)) (receiver_buffer e);
              t = (am_t_reordering e)\<lparr>am_running := False, am_timed_out := True\<rparr>;
              e1 = e\<lparr>am_t_reordering := t, vr_ms := am_skip_complete (vr_h e) x cs\<rparr>;
              e2 = (if vr_ms e1 \<noteq> vr_h e1 then e1\<lparr>vr_x := vr_h e1, am_t_reordering := t\<lparr>am_ms_time_out := now + am_ms_duration t\<rparr>\<rparr> else e1)
          in Some (am_clear_delayed (e2\<lparr>status_requested := status_requested e2 OR RLC_AM_STATUS_TRIGGERED_T_REORDERING\<rparr>))
      else Some e)"

end
