(* ===== verification/RlcAmSeq.thy ===== *)
theory RlcAmSeq
  imports RlcAmRx
begin

text \<open>
  Delivery in RLC acknowledged mode: PDUs that are not segmented, in any order and repeated, with expiries of t-Reordering in between,
  are delivered in sequence and once.
\<close>

section \<open>Reassembly of the pieces of SDUs\<close>

text \<open>The octets \<open>acc\<close> of an SDU whose end has not arrived are in the block under construction.\<close>

definition am_holds :: "octet list \<Rightarrow> rlc_am_rx_entity \<Rightarrow> bool" where
  "am_holds acc e \<longleftrightarrow>
     (case am_output_sdu e of
        None \<Rightarrow> acc = []
      | Some b \<Rightarrow> acc \<noteq> [] \<and> am_output_size e = length acc \<and> take (length acc) b = acc \<and> RLC_SDU_MAX_SIZE \<le> length b)"

text \<open>
  A PDU carries the pieces \<open>ps\<close>, each the end of an SDU but the last one, which ends an SDU if \<open>closed\<close>. What becomes of the
  octets held, and the SDUs that are complete.
\<close>

fun absorb :: "octet list \<Rightarrow> octet list list \<Rightarrow> bool \<Rightarrow> octet list \<times> octet list list" where
  "absorb acc [] closed = (acc, [])"
| "absorb acc [p] closed = (if closed then ([], [acc @ p]) else (acc @ p, []))"
| "absorb acc (p # ps) closed = (let (acc', sdus) = absorb [] ps closed in (acc', (acc @ p) # sdus))"

definition sizes_ok :: "octet list \<times> octet list list \<Rightarrow> bool" where
  "sizes_ok r \<longleftrightarrow> length (fst r) \<le> RLC_SDU_MAX_SIZE \<and> (\<forall>sdu \<in> set (snd r). length sdu \<le> RLC_SDU_MAX_SIZE)"

definition blocks_available :: "am_allocator \<Rightarrow> bool" where
  "blocks_available alloc \<longleftrightarrow> (\<exists>addr b. alloc RLC_SDU_MAX_SIZE = Some (addr, b) \<and> RLC_SDU_MAX_SIZE \<le> length b)"

text \<open>Only the SDU under construction and the delivered SDUs differ.\<close>

definition same_but_output :: "rlc_am_rx_entity \<Rightarrow> rlc_am_rx_entity \<Rightarrow> bool" where
  "same_but_output e e' \<longleftrightarrow> e' = e\<lparr>am_output_sdu := am_output_sdu e', am_output_size := am_output_size e', am_delivered := am_delivered e'\<rparr>"

lemma same_but_output_refl: "same_but_output e e"
  by (simp add: same_but_output_def)

lemma same_but_output_trans: "same_but_output a b \<Longrightarrow> same_but_output b c \<Longrightarrow> same_but_output a c"
  by (cases a, cases b, cases c) (simp add: same_but_output_def)

lemma reassembly_holds:
  assumes "am_holds acc e" "blocks_available alloc" "p \<noteq> []" "length (acc @ p) \<le> RLC_SDU_MAX_SIZE"
  shows "\<exists>e'. rlc_am_reassembly alloc p e = Some e' \<and> am_holds (acc @ p) e' \<and> same_but_output e e' \<and> am_delivered e' = am_delivered e"
proof (cases "am_output_sdu e")
  case None
  then have acc: "acc = []" using assms(1) by (simp add: am_holds_def)
  obtain addr b where b: "alloc RLC_SDU_MAX_SIZE = Some (addr, b)" "RLC_SDU_MAX_SIZE \<le> length b" using assms(2) by (auto simp: blocks_available_def)
  then have "write_at 0 p b = Some (p @ drop (length p) b)" using assms(4) acc by (simp add: write_at_def)
  then show ?thesis using None b acc assms(3,4) by (simp add: rlc_am_reassembly_def am_holds_def same_but_output_def)
next
  case (Some b)
  then have h: "am_output_size e = length acc" "take (length acc) b = acc" "RLC_SDU_MAX_SIZE \<le> length b" "acc \<noteq> []" using assms(1) by (simp_all add: am_holds_def)
  have "write_at (length acc) p b = Some (acc @ p @ drop (length acc + length p) b)" using h assms(4) by (simp add: write_at_def)
  then show ?thesis using Some h assms(3,4) by (simp add: rlc_am_reassembly_def am_holds_def same_but_output_def)
qed

lemma send_holds:
  assumes "am_holds acc e" "acc \<noteq> []"
  shows "\<exists>e'. rlc_am_send_sdu e = Some e' \<and> am_holds [] e' \<and> same_but_output e e' \<and> am_delivered e' = am_delivered e @ [acc]"
  using assms by (cases "am_output_sdu e") (auto simp: am_holds_def rlc_am_send_sdu_def same_but_output_def)

lemma send_nothing: "am_holds [] e \<Longrightarrow> rlc_am_send_sdu e = Some e"
  by (cases "am_output_sdu e") (auto simp: am_holds_def rlc_am_send_sdu_def)

lemma reassembly_send:
  assumes "am_holds acc e" "blocks_available alloc" "p \<noteq> []" "length (acc @ p) \<le> RLC_SDU_MAX_SIZE"
  shows "\<exists>e1 e'. rlc_am_reassembly alloc p e = Some e1 \<and> rlc_am_send_sdu e1 = Some e' \<and> am_holds [] e' \<and> same_but_output e e' \<and>
    am_delivered e' = am_delivered e @ [acc @ p]"
proof -
  obtain e1 where e1: "rlc_am_reassembly alloc p e = Some e1" "am_holds (acc @ p) e1" "same_but_output e e1" "am_delivered e1 = am_delivered e"
    using reassembly_holds [OF assms] by auto
  then show ?thesis using send_holds [OF e1(2)] assms(3) same_but_output_trans [OF e1(3)] by auto
qed

lemma am_slice_mid: "am_slice (xs @ p @ ys) (int (length xs)) (int (length p)) = Some p"
  by (simp add: am_slice_def)

lemma absorb_snoc:
  "absorb acc (ps @ [p]) closed =
     (case ps of
        [] \<Rightarrow> absorb acc [p] closed
      | q # qs \<Rightarrow> (fst (absorb [] [p] closed), (acc @ q) # qs @ snd (absorb [] [p] closed)))"
proof (induction ps arbitrary: acc)
  case (Cons q qs)
  then show ?case by (cases qs) (auto simp: split_beta Let_def)
qed simp

lemma reassemble_lis_holds:
  assumes "am_holds acc e" "blocks_available alloc" "\<forall>p \<in> set ps. p \<noteq> [] \<and> length p \<le> RLC_SDU_MAX_SIZE" "\<forall>q qs. ps = q # qs \<longrightarrow> length (acc @ q) \<le> RLC_SDU_MAX_SIZE"
  shows "\<exists>e'. am_reassemble_lis alloc (xs @ concat ps @ ys) (int (length xs)) (map (\<lambda>p. int (length p)) ps) e = Some (e', int (length (xs @ concat ps))) \<and>
    am_holds (if ps = [] then acc else []) e' \<and> same_but_output e e' \<and>
    am_delivered e' = am_delivered e @ (case ps of [] \<Rightarrow> [] | q # qs \<Rightarrow> (acc @ q) # qs)"
  using assms
proof (induction ps arbitrary: acc e xs)
  case Nil
  then show ?case by (simp add: same_but_output_refl)
next
  case (Cons p ps)
  have "p \<noteq> []" "length (acc @ p) \<le> RLC_SDU_MAX_SIZE" using Cons.prems(3,4) by auto
  then obtain e1 e2 where e: "rlc_am_reassembly alloc p e = Some e1" "rlc_am_send_sdu e1 = Some e2" "am_holds [] e2" "same_but_output e e2"
      "am_delivered e2 = am_delivered e @ [acc @ p]"
    using reassembly_send [OF Cons.prems(1,2)] by blast
  have s: "am_slice (xs @ concat (p # ps) @ ys) (int (length xs)) (int (length p)) = Some p" using am_slice_mid [of xs p "concat ps @ ys"] by simp
  have "\<forall>q qs. ps = q # qs \<longrightarrow> length ([] @ q) \<le> RLC_SDU_MAX_SIZE" using Cons.prems(3) by auto
  then obtain e' where e': "am_reassemble_lis alloc ((xs @ p) @ concat ps @ ys) (int (length (xs @ p))) (map (\<lambda>p. int (length p)) ps) e2 =
      Some (e', int (length ((xs @ p) @ concat ps)))" "am_holds (if ps = [] then [] else []) e'" "same_but_output e2 e'"
      "am_delivered e' = am_delivered e2 @ (case ps of [] \<Rightarrow> [] | q # qs \<Rightarrow> ([] @ q) # qs)"
    using Cons.IH [OF e(3) Cons.prems(2), of "xs @ p"] Cons.prems(3) by auto
  have "am_reassemble_lis alloc (xs @ concat (p # ps) @ ys) (int (length xs)) (map (\<lambda>p. int (length p)) (p # ps)) e =
      am_reassemble_lis alloc ((xs @ p) @ concat ps @ ys) (int (length (xs @ p))) (map (\<lambda>p. int (length p)) ps) e2"
    using s e(1,2) by simp
  then show ?case using e'(1,2,4) e(5) same_but_output_trans [OF e(4) e'(3)] by (cases ps) auto
qed

text \<open>A PDU with the pieces \<open>ps\<close>, received while \<open>acc\<close> is held.\<close>

definition carries :: "octet list \<Rightarrow> octet list list \<Rightarrow> bool \<Rightarrow> rlc_am_rx_pdu \<Rightarrow> bool" where
  "carries acc ps closed c \<longleftrightarrow> ps \<noteq> [] \<and> (\<forall>p \<in> set ps. p \<noteq> []) \<and> rx_payload c = concat ps \<and> rx_payload_size c = int (length (concat ps)) \<and>
     rx_e c = (1 < length ps) \<and> rx_li_list c = map (\<lambda>p. int (length p)) (butlast ps) \<and>
     (rx_e c \<longrightarrow> rx_hidden_size c = int (length (last ps))) \<and>
     rx_fi c = (if acc = [] then 0 else 2) + (if closed then 0 else 1)"

lemma reassemble_pdu_holds:
  assumes "am_holds acc e" "blocks_available alloc" "carries acc ps closed c" "sizes_ok (absorb acc ps closed)"
  shows "\<exists>e'. rlc_am_reassemble_pdu alloc c e = Some e' \<and> am_holds (fst (absorb acc ps closed)) e' \<and> same_but_output e e' \<and>
    am_delivered e' = am_delivered e @ snd (absorb acc ps closed)"
proof -
  obtain qs p where ps: "ps = qs @ [p]" using assms(3) by (cases ps rule: rev_cases) (auto simp: carries_def)
  have c: "\<forall>q \<in> set qs. q \<noteq> []" "p \<noteq> []" "rx_payload c = concat qs @ p" "rx_payload_size c = int (length (concat qs @ p))" "rx_e c = (qs \<noteq> [])"
      "rx_li_list c = map (\<lambda>p. int (length p)) qs" "rx_e c \<Longrightarrow> rx_hidden_size c = int (length p)"
      "rx_fi c = (if acc = [] then 0 else 2) + (if closed then 0 else 1)"
    using assms(3) by (auto simp: carries_def ps)
  have start: "(if rx_fi c = 0 \<or> rx_fi c = 1 then rlc_am_send_sdu e else Some e) = Some e" using send_nothing assms(1) by (auto simp: c(8))
  have stop: "rx_fi c = 0 \<or> rx_fi c = 2 \<longleftrightarrow> closed" by (simp add: c(8))
  show ?thesis
  proof (cases qs)
    case Nil
    have sz: "length (acc @ p) \<le> RLC_SDU_MAX_SIZE" using assms(4) by (auto simp: ps Nil sizes_ok_def split: if_splits)
    have sl: "am_slice (rx_payload c) 0 (rx_payload_size c) = Some p" using c(3,4) by (simp add: Nil am_slice_def)
    have eq: "rlc_am_reassemble_pdu alloc c e = Option.bind (rlc_am_reassembly alloc p e) (\<lambda>e2. if closed then rlc_am_send_sdu e2 else Some e2)"
      unfolding rlc_am_reassemble_pdu_def start stop sl using c(5) Nil by simp
    show ?thesis
    proof (cases closed)
      case True
      then show ?thesis using reassembly_send [OF assms(1,2) c(2) sz] by (auto simp: eq ps Nil)
    next
      case False
      then show ?thesis using reassembly_holds [OF assms(1,2) c(2) sz] by (auto simp: eq ps Nil)
    qed
  next
    case (Cons q qs')
    have ab: "absorb acc ps closed = (if closed then [] else p, (acc @ q) # qs' @ (if closed then [p] else []))"
      using absorb_snoc [of acc qs p closed] by (simp add: ps Cons)
    have sz: "\<forall>x \<in> set qs. x \<noteq> [] \<and> length x \<le> RLC_SDU_MAX_SIZE" "\<forall>x xs. qs = x # xs \<longrightarrow> length (acc @ x) \<le> RLC_SDU_MAX_SIZE" "length p \<le> RLC_SDU_MAX_SIZE"
      using assms(4) c(1) unfolding ab by (auto simp: Cons sizes_ok_def split: if_splits)
    obtain e1 where e1: "am_reassemble_lis alloc (concat qs @ p) 0 (map (\<lambda>p. int (length p)) qs) e = Some (e1, int (length (concat qs)))"
        "am_holds [] e1" "same_but_output e e1" "am_delivered e1 = am_delivered e @ (acc @ q) # qs'"
      using reassemble_lis_holds [OF assms(1,2) sz(1,2), of "[]" p] by (auto simp: Cons)
    have sl: "am_slice (concat qs @ p) (int (length (concat qs))) (int (length p)) = Some p" using am_slice_mid [of "concat qs" p "[]"] by simp
    have pos: "int (length p) > 0" "rx_e c" "rx_hidden_size c = int (length p)" using c(2,5,7) Cons by auto
    have eq: "rlc_am_reassemble_pdu alloc c e = Option.bind (rlc_am_reassembly alloc p e1) (\<lambda>e2. if closed then rlc_am_send_sdu e2 else Some e2)"
      unfolding rlc_am_reassemble_pdu_def start stop c(3,6) using pos e1(1) sl by simp
    have sz1: "length ([] @ p) \<le> RLC_SDU_MAX_SIZE" using sz(3) by simp
    show ?thesis
    proof (cases closed)
      case True
      then show ?thesis using reassembly_send [OF e1(2) assms(2) c(2) sz1] e1(4) same_but_output_trans [OF e1(3)] unfolding ab by (auto simp: eq)
    next
      case False
      then show ?thesis using reassembly_holds [OF e1(2) assms(2) c(2) sz1] e1(4) same_but_output_trans [OF e1(3)] unfolding ab by (auto simp: eq)
    qed
  qed
qed

section \<open>Sequence numbers as residues\<close>

abbreviation sn_mod :: "nat \<Rightarrow> int" where
  "sn_mod n \<equiv> int n mod 1024"

lemma am_diff: "k \<le> n \<Longrightarrow> n < k + 1024 \<Longrightarrow> RLC_AM_DIFF_SN (sn_mod n) (sn_mod k) = int n - int k"
proof -
  assume a: "k \<le> n" "n < k + 1024"
  have "(sn_mod n + 1024 - sn_mod k) mod 1024 = (sn_mod n + (1024 - int k)) mod 1024" by (simp add: mod_simps add_diff_eq)
  also have "\<dots> = (int n + (1024 - int k)) mod 1024" by (rule mod_add_left_eq)
  also have "int n + (1024 - int k) = (int n - int k) + 1024" by simp
  also have "\<dots> mod 1024 = int n - int k" using a by (simp only: mod_add_self2) simp
  finally show ?thesis by (simp add: RLC_AM_DIFF_SN_def RLC_AM_SN_MODULO_def)
qed

lemma am_diff_behind: "n < k \<Longrightarrow> k \<le> n + 1023 \<Longrightarrow> RLC_AM_DIFF_SN (sn_mod n) (sn_mod k) = 1024 + int n - int k"
  using am_diff [of k "n + 1024"] by simp

lemma am_next: "RLC_AM_NEXT_SN (sn_mod n) = sn_mod (Suc n)"
  by (simp add: RLC_AM_NEXT_SN_def RLC_AM_SN_MODULO_def mod_add_right_eq add.commute)

lemma sn_mod_eq: "m \<le> n + 1023 \<Longrightarrow> n \<le> m + 1023 \<Longrightarrow> sn_mod m = sn_mod n \<longleftrightarrow> m = n"
proof -
  have aux: "m = n" if "m \<le> n" "n \<le> m + 1023" "sn_mod m = sn_mod n" for m n :: nat
    using am_diff [of m n] am_diff [of m m] that by simp
  assume "m \<le> n + 1023" "n \<le> m + 1023"
  then show ?thesis using aux [of m n] aux [of n m] by (cases "m \<le> n") auto
qed

lemma sn_mod_range: "0 \<le> sn_mod n" "sn_mod n < 1024" "sn_mod n \<noteq> RLC_SN_UNDEFINED"
proof -
  show "sn_mod n < 1024" by simp
  then show "sn_mod n \<noteq> RLC_SN_UNDEFINED" unfolding RLC_SN_UNDEFINED_def by linarith
qed simp

lemma am_in_window: "k \<le> n + 512 \<Longrightarrow> n < k + 512 \<Longrightarrow> RLC_AM_SN_IN_WINDOW (sn_mod n) (sn_mod k) \<longleftrightarrow> k \<le> n"
  using am_diff [of k n] am_diff_behind [of n k] by (cases "k \<le> n") (auto simp: RLC_AM_SN_IN_WINDOW_def RLC_AM_SN_MODULO_def)

section \<open>A stream of PDUs\<close>

text \<open>PDU \<open>n\<close> carries \<open>pieces n\<close>. The octets held before it, and the SDUs that end in the PDUs before it.\<close>

fun held :: "(nat \<Rightarrow> octet list list) \<Rightarrow> (nat \<Rightarrow> bool) \<Rightarrow> nat \<Rightarrow> octet list" where
  "held pieces closed 0 = []"
| "held pieces closed (Suc n) = fst (absorb (held pieces closed n) (pieces n) (closed n))"

fun sdus_before :: "(nat \<Rightarrow> octet list list) \<Rightarrow> (nat \<Rightarrow> bool) \<Rightarrow> nat \<Rightarrow> octet list list" where
  "sdus_before pieces closed 0 = []"
| "sdus_before pieces closed (Suc n) = sdus_before pieces closed n @ snd (absorb (held pieces closed n) (pieces n) (closed n))"

text \<open>The element for PDU \<open>n\<close> in the receiver buffer.\<close>

definition element :: "(nat \<Rightarrow> octet list) \<Rightarrow> nat \<Rightarrow> rlc_am_rx_pdu" where
  "element pdus n = (snd (the (rlc_am_get_data_pdu_infos (pdus n))))\<lparr>all_segments_received := True\<rparr>"

definition amd_stream :: "(nat \<Rightarrow> octet list) \<Rightarrow> (nat \<Rightarrow> octet list list) \<Rightarrow> (nat \<Rightarrow> bool) \<Rightarrow> bool" where
  "amd_stream pdus pieces closed \<longleftrightarrow> (\<forall>n. \<exists>c. rlc_am_get_data_pdu_infos (pdus n) = Some (0, c) \<and> \<not> rx_rf c \<and> rx_sn c = sn_mod n \<and>
     carries (held pieces closed n) (pieces n) (closed n) c \<and> sizes_ok (absorb (held pieces closed n) (pieces n) (closed n)))"

lemma element_facts:
  assumes "amd_stream pdus pieces closed"
  shows "\<exists>c. rlc_am_get_data_pdu_infos (pdus n) = Some (0, c) \<and> element pdus n = c\<lparr>all_segments_received := True\<rparr> \<and> \<not> rx_rf c \<and> rx_sn c = sn_mod n"
    "\<not> rx_rf (element pdus n)" "rx_sn (element pdus n) = sn_mod n" "all_segments_received (element pdus n)"
    "carries (held pieces closed n) (pieces n) (closed n) (element pdus n)" "sizes_ok (absorb (held pieces closed n) (pieces n) (closed n))"
proof -
  obtain c where c: "rlc_am_get_data_pdu_infos (pdus n) = Some (0, c)" "\<not> rx_rf c" "rx_sn c = sn_mod n"
      "carries (held pieces closed n) (pieces n) (closed n) c" "sizes_ok (absorb (held pieces closed n) (pieces n) (closed n))"
    using assms by (auto simp: amd_stream_def)
  show "\<exists>c. rlc_am_get_data_pdu_infos (pdus n) = Some (0, c) \<and> element pdus n = c\<lparr>all_segments_received := True\<rparr> \<and> \<not> rx_rf c \<and> rx_sn c = sn_mod n"
    using c by (simp add: element_def)
  show "\<not> rx_rf (element pdus n)" "rx_sn (element pdus n) = sn_mod n" "all_segments_received (element pdus n)"
    "carries (held pieces closed n) (pieces n) (closed n) (element pdus n)" "sizes_ok (absorb (held pieces closed n) (pieces n) (closed n))"
    using c by (simp_all add: element_def carries_def)
qed

section \<open>The next PDU awaited\<close>

definition next_missing :: "nat list \<Rightarrow> nat" where
  "next_missing ns = length (takeWhile (\<lambda>n. n \<in> set ns) [0..<Suc (length ns)])"

lemma takeWhile_upt: "takeWhile P [0..<n] = [0..<length (takeWhile P [0..<n])]"
proof -
  have "takeWhile P [0..<n] = take (length (takeWhile P [0..<n])) [0..<n]" by (metis takeWhile_eq_take)
  moreover have "length (takeWhile P [0..<n]) \<le> n" using length_takeWhile_le [of P "[0..<n]"] by simp
  ultimately show ?thesis by (metis add_0 take_upt)
qed

lemma next_missing_least: "next_missing ns \<notin> set ns" "m < next_missing ns \<Longrightarrow> m \<in> set ns"
proof -
  let ?P = "\<lambda>n. n \<in> set ns" and ?k = "next_missing ns"
  have t: "takeWhile ?P [0..<Suc (length ns)] = [0..<?k]" unfolding next_missing_def by (rule takeWhile_upt)
  show "m \<in> set ns" if "m < ?k" for m
  proof -
    have "m \<in> set (takeWhile ?P [0..<Suc (length ns)])" unfolding t using that by simp
    then show ?thesis by (rule set_takeWhileD [THEN conjunct2])
  qed
  then have "{..<?k} \<subseteq> set ns" by auto
  then have "?k \<le> length ns" by (metis card_length card_lessThan card_mono List.finite_set le_trans)
  then have lt: "?k < length [0..<Suc (length ns)]" by simp
  show "?k \<notin> set ns"
    using nth_length_takeWhile [of ?P "[0..<Suc (length ns)]"] lt unfolding next_missing_def [symmetric] by (simp del: upt_Suc)
qed

lemma next_missing_eqI: "k \<notin> set ns \<Longrightarrow> (\<And>m. m < k \<Longrightarrow> m \<in> set ns) \<Longrightarrow> next_missing ns = k"
  using next_missing_least [where ns = ns] by (metis linorder_neqE_nat)

text \<open>The end of a run of consecutive numbers.\<close>

fun run_end :: "nat \<Rightarrow> nat list \<Rightarrow> nat" where
  "run_end k [] = k"
| "run_end k (m # ms) = (if m = k then run_end (Suc k) ms else k)"

lemma run_end_ge: "k \<le> run_end k ms"
  by (induction k ms rule: run_end.induct) auto

lemma run_end_out: "sorted_wrt (<) ms \<Longrightarrow> \<forall>m \<in> set ms. k \<le> m \<Longrightarrow> run_end k ms \<notin> set ms"
proof (induction ms arbitrary: k)
  case (Cons m ms)
  show ?case
  proof (cases "m = k")
    case True
    have "run_end (Suc k) ms \<notin> set ms" using Cons True by (simp add: Suc_le_eq)
    then show ?thesis using True run_end_ge [of "Suc k" ms] by auto
  next
    case False
    then show ?thesis using Cons.prems by auto
  qed
qed simp

lemma run_end_in: "m < run_end k ms \<Longrightarrow> k \<le> m \<Longrightarrow> m \<in> set ms"
proof (induction ms arbitrary: k)
  case (Cons m' ms)
  then show ?case using Cons.IH [of "Suc k"] by (cases "m = k") (auto split: if_splits)
qed simp

lemma next_missing_run:
  assumes "k = next_missing ns" "sorted_wrt (<) xs" "set xs = {m \<in> set ns. k < m}"
  shows "next_missing (k # ns) = run_end k (k # xs)"
proof (rule next_missing_eqI)
  have s: "sorted_wrt (<) (k # xs)" "\<forall>m \<in> set (k # xs). k \<le> m" using assms(2,3) by auto
  have ge: "k < run_end k (k # xs)" using run_end_ge [of "Suc k" xs] by simp
  show "run_end k (k # xs) \<notin> set (k # ns)" using run_end_out [OF s] ge assms(3) by auto
  show "m \<in> set (k # ns)" if "m < run_end k (k # xs)" for m
  proof (cases "m < k")
    case True
    then show ?thesis using next_missing_least(2) [where ns = ns and m = m] assms(1) by simp
  next
    case False
    then show ?thesis using run_end_in [OF that] assms(3) by auto
  qed
qed

lemma next_missing_other: "n \<noteq> next_missing ns \<Longrightarrow> next_missing (n # ns) = next_missing ns"
  using next_missing_least [where ns = ns] by (intro next_missing_eqI) auto

section \<open>Loops over the receiver buffer\<close>

text \<open>Consecutive elements of the buffer, numbered without bound.\<close>

lemma update_vr_r_run:
  assumes "amd_stream pdus pieces closed" "sorted_wrt (<) ms" "\<forall>m \<in> set ms. k \<le> m \<and> m \<le> k + 1023"
  shows "rlc_am_rx_update_vr_r (map (element pdus) ms) (sn_mod k) = sn_mod (run_end k ms)"
  using assms(2,3)
proof (induction ms arbitrary: k)
  case (Cons m ms)
  note el = element_facts(2-4) [OF assms(1), of m]
  have eq: "sn_mod k = sn_mod m \<longleftrightarrow> m = k" using Cons.prems(2) sn_mod_eq [of k m] by auto
  show ?case
  proof (cases "m = k")
    case True
    have "rlc_am_rx_update_vr_r (map (element pdus) ms) (sn_mod (Suc k)) = sn_mod (run_end (Suc k) ms)"
      by (rule Cons.IH) (use Cons.prems True in \<open>auto simp: Suc_le_eq\<close>)
    then show ?thesis using True el by (simp add: am_next)
  next
    case False
    then show ?thesis using el eq by simp
  qed
qed simp

lemma update_vr_ms_run:
  assumes "amd_stream pdus pieces closed" "sorted_wrt (<) ms" "\<forall>m \<in> set ms. j \<le> m \<and> m < h" "h \<le> j + 1023"
  shows "rlc_am_rx_update_vr_ms (sn_mod h) (map (element pdus) ms) (sn_mod j) = sn_mod (run_end j ms)"
  using assms(2-4)
proof (induction ms arbitrary: j)
  case (Cons m ms)
  note el = element_facts(2-4) [OF assms(1), of m]
  have eq: "sn_mod j = sn_mod m \<longleftrightarrow> m = j" using Cons.prems(2,3) sn_mod_eq [of j m] by auto
  show ?case
  proof (cases "m = j")
    case True
    have rest: "\<forall>m \<in> set ms. Suc j \<le> m \<and> m < h" using Cons.prems True by (auto simp: Suc_le_eq)
    have h: "sn_mod (Suc j) = sn_mod h \<longleftrightarrow> Suc j = h" using Cons.prems(2,3) True by (intro sn_mod_eq) auto
    have IH: "rlc_am_rx_update_vr_ms (sn_mod h) (map (element pdus) ms) (sn_mod (Suc j)) = sn_mod (run_end (Suc j) ms)"
      by (rule Cons.IH) (use Cons.prems rest in auto)
    show ?thesis
    proof (cases "Suc j = h")
      case True
      then have "ms = []" using rest by (cases ms) auto
      then show ?thesis using \<open>m = j\<close> el True by (simp add: am_next)
    next
      case False
      then show ?thesis using \<open>m = j\<close> el h IH by (simp add: am_next Let_def del: of_nat_Suc)
    qed
  next
    case False
    then show ?thesis using el eq by simp
  qed
qed simp

lemma skip_complete_run:
  assumes "amd_stream pdus pieces closed" "sorted_wrt (<) ms" "\<forall>m \<in> set ms. j \<le> m \<and> m < h" "h \<le> j + 1023" "j \<le> h"
  shows "am_skip_complete (sn_mod h) (sn_mod j) (map (element pdus) ms) = sn_mod (run_end j ms)"
  using assms(2-5)
proof (induction ms arbitrary: j)
  case (Cons m ms)
  note el = element_facts(2-4) [OF assms(1), of m]
  have eq: "sn_mod j = sn_mod m \<longleftrightarrow> m = j" using Cons.prems(2,3) sn_mod_eq [of j m] by auto
  show ?case
  proof (cases "m = j")
    case True
    have "j < h" using Cons.prems(2) True by simp
    then have "sn_mod j \<noteq> sn_mod h" using Cons.prems(3) sn_mod_eq [of j h] by auto
    moreover have "am_skip_complete (sn_mod h) (sn_mod (Suc j)) (map (element pdus) ms) = sn_mod (run_end (Suc j) ms)"
      by (rule Cons.IH) (use Cons.prems True in \<open>auto simp: Suc_le_eq\<close>)
    ultimately show ?thesis using True el by (simp add: am_next del: of_nat_Suc)
  next
    case False
    then show ?thesis using el eq by auto
  qed
qed simp

fun run_rest :: "nat \<Rightarrow> nat list \<Rightarrow> nat list" where
  "run_rest k [] = []"
| "run_rest k (m # ms) = (if m = k then run_rest (Suc k) ms else m # ms)"

lemma run_rest_set: "sorted_wrt (<) ms \<Longrightarrow> \<forall>m \<in> set ms. k \<le> m \<Longrightarrow> set (run_rest k ms) = {m \<in> set ms. run_end k ms < m}"
proof (induction ms arbitrary: k)
  case (Cons m ms)
  show ?case
  proof (cases "m = k")
    case True
    have "set (run_rest (Suc k) ms) = {m \<in> set ms. run_end (Suc k) ms < m}" by (rule Cons.IH) (use Cons.prems True in \<open>auto simp: Suc_le_eq\<close>)
    moreover have "\<not> run_end (Suc k) ms < k" using run_end_ge [of "Suc k" ms] by simp
    ultimately show ?thesis using True by (simp add: Collect_disj_eq [symmetric]) auto
  next
    case False
    then have "\<forall>m' \<in> set (m # ms). k < m'" using Cons.prems by (auto simp: order.strict_trans1)
    then show ?thesis using False by auto
  qed
qed simp

lemma run_rest_sorted: "sorted_wrt (<) ms \<Longrightarrow> sorted_wrt (<) (run_rest k ms)"
  by (induction k ms rule: run_rest.induct) auto

lemma am_holds_cong: "am_output_sdu e' = am_output_sdu e \<Longrightarrow> am_output_size e' = am_output_size e \<Longrightarrow> am_holds acc e' = am_holds acc e"
  by (simp add: am_holds_def split: option.split)

lemma am_holds_buffer [simp]: "am_holds acc (e\<lparr>receiver_buffer := b\<rparr>) = am_holds acc e"
  by (rule am_holds_cong) simp_all

lemma reassemble_loop_run:
  assumes "amd_stream pdus pieces closed" "blocks_available alloc" "am_holds (held pieces closed k) e" "am_delivered e = sdus_before pieces closed k"
    and "sorted_wrt (<) (k # ms)" "\<forall>m \<in> set ms. m < k + 1024"
  shows "\<exists>e'. reassemble_loop alloc [] (map (element pdus) (k # ms)) e = Some e' \<and> am_holds (held pieces closed (run_end k (k # ms))) e' \<and>
    am_delivered e' = sdus_before pieces closed (run_end k (k # ms)) \<and>
    same_but_output (e\<lparr>receiver_buffer := map (element pdus) (run_rest k (k # ms))\<rparr>) e'"
  using assms(3-6)
proof (induction ms arbitrary: k e)
  case Nil
  note el = element_facts(2-6) [OF assms(1), of k]
  obtain e' where "rlc_am_reassemble_pdu alloc (element pdus k) (e\<lparr>receiver_buffer := []\<rparr>) = Some e'" "am_holds (held pieces closed (Suc k)) e'"
      "same_but_output (e\<lparr>receiver_buffer := []\<rparr>) e'" "am_delivered e' = sdus_before pieces closed (Suc k)"
    using reassemble_pdu_holds [OF _ assms(2) el(4,5), of "e\<lparr>receiver_buffer := []\<rparr>"] Nil by auto
  then show ?case using el(3) by (simp add: reassemble_loop.simps reassemble_round_def)
next
  case (Cons m ms)
  note el = element_facts(2-6) [OF assms(1), of k] and elm = element_facts(2-4) [OF assms(1), of m]
  let ?b = "map (element pdus) (m # ms)"
  obtain e1 where e1: "rlc_am_reassemble_pdu alloc (element pdus k) (e\<lparr>receiver_buffer := ?b\<rparr>) = Some e1" "am_holds (held pieces closed (Suc k)) e1"
      "same_but_output (e\<lparr>receiver_buffer := ?b\<rparr>) e1" "am_delivered e1 = sdus_before pieces closed (Suc k)"
    using reassemble_pdu_holds [OF _ assms(2) el(4,5), of "e\<lparr>receiver_buffer := ?b\<rparr>"] Cons.prems(1,2) by auto
  have m: "k < m" "m < k + 1024" using Cons.prems(3,4) by auto
  then have "sn_mod m \<noteq> sn_mod k" "RLC_AM_DIFF_SN (sn_mod m) (sn_mod k) < 2 \<longleftrightarrow> m = Suc k" using sn_mod_eq [of m k] am_diff [of k m] by auto
  then have nx: "reassemble_next (element pdus k) (element pdus m) \<longleftrightarrow> m = Suc k" using el elm by (simp add: reassemble_next_def)
  have round: "reassemble_loop alloc [] (map (element pdus) (k # m # ms)) e = (if m = Suc k then reassemble_loop alloc [] ?b e1 else Some e1)"
    using e1(1) el(3) nx by (simp add: reassemble_loop.simps(2) reassemble_round_def)
  show ?case
  proof (cases "m = Suc k")
    case True
    have "\<exists>e'. reassemble_loop alloc [] (map (element pdus) (Suc k # ms)) e1 = Some e' \<and> am_holds (held pieces closed (run_end (Suc k) (Suc k # ms))) e' \<and>
        am_delivered e' = sdus_before pieces closed (run_end (Suc k) (Suc k # ms)) \<and>
        same_but_output (e1\<lparr>receiver_buffer := map (element pdus) (run_rest (Suc k) (Suc k # ms))\<rparr>) e'"
      by (rule Cons.IH [OF e1(2,4)]) (use Cons.prems(3,4) True in auto)
    moreover have "same_but_output (e\<lparr>receiver_buffer := b\<rparr>) (e1\<lparr>receiver_buffer := b\<rparr>)" for b
      using e1(3) by (cases e, cases e1) (simp add: same_but_output_def)
    ultimately show ?thesis unfolding round using True same_but_output_trans by (simp del: held.simps sdus_before.simps) blast
  next
    case False
    then show ?thesis unfolding round using e1 m by simp
  qed
qed

section \<open>Placing a PDU\<close>

lemma sorted_split:
  fixes n :: nat
  assumes "sorted_wrt (<) xs" "n \<notin> set xs"
  shows "sorted_wrt (<) (takeWhile (\<lambda>m. m < n) xs @ n # dropWhile (\<lambda>m. m < n) xs)" "\<forall>m \<in> set (dropWhile (\<lambda>m. m < n) xs). n < m"
proof -
  have "sorted_wrt (<) (takeWhile (\<lambda>m. m < n) xs @ n # dropWhile (\<lambda>m. m < n) xs) \<and> (\<forall>m \<in> set (dropWhile (\<lambda>m. m < n) xs). n < m)"
    using assms
  proof (induction xs)
    case (Cons x xs)
    show ?case
    proof (cases "x < n")
      case True
      then show ?thesis using Cons by (auto dest: set_takeWhileD set_dropWhileD)
    next
      case False
      then have "n < x" using Cons.prems by auto
      then show ?thesis using False Cons.prems by auto
    qed
  qed simp
  then show "sorted_wrt (<) (takeWhile (\<lambda>m. m < n) xs @ n # dropWhile (\<lambda>m. m < n) xs)" "\<forall>m \<in> set (dropWhile (\<lambda>m. m < n) xs). n < m" by blast+
qed

lemma dropWhile_set_le:
  fixes n :: nat
  shows "sorted_wrt (<) xs \<Longrightarrow> set (dropWhile (\<lambda>m. m < n) xs) = {m \<in> set xs. n \<le> m}"
proof (induction xs)
  case (Cons x xs)
  show ?case
  proof (cases "x < n")
    case True
    then show ?thesis using Cons by auto
  next
    case False
    then have "\<forall>m \<in> set xs. n \<le> m" using Cons.prems by auto
    then show ?thesis using False by auto
  qed
qed simp

lemma dropWhile_set: "sorted_wrt (<) xs \<Longrightarrow> (n :: nat) \<notin> set xs \<Longrightarrow> set (dropWhile (\<lambda>m. m < n) xs) = {m \<in> set xs. n < m}"
  unfolding dropWhile_set_le using le_eq_less_or_eq by blast

text \<open>The receiver buffer holds the PDUs \<open>xs\<close>, all behind VR(R) \<open>= k\<close> and in the window.\<close>

definition buffers :: "(nat \<Rightarrow> octet list) \<Rightarrow> nat \<Rightarrow> nat list \<Rightarrow> rlc_am_rx_entity \<Rightarrow> bool" where
  "buffers pdus k xs e \<longleftrightarrow> vr_r e = sn_mod k \<and> receiver_buffer e = map (element pdus) xs \<and> sorted_wrt (<) xs \<and> (\<forall>m \<in> set xs. k < m \<and> m < k + 512)"

lemma sn_before_number:
  assumes "amd_stream pdus pieces closed" "vr_r e = sn_mod k" "rx_sn tb = sn_mod n" "k \<le> n" "n < k + 512" "k \<le> m" "m < k + 512"
  shows "sn_before e tb (element pdus m) \<longleftrightarrow> m < n"
  using assms am_diff [of k m] am_diff [of k n] element_facts(3) [OF assms(1), of m] by (auto simp: sn_before_def)

lemma sn_before_split:
  assumes "amd_stream pdus pieces closed" "buffers pdus k xs e" "rx_sn tb = sn_mod n" "k \<le> n" "n < k + 512"
  shows "takeWhile (sn_before e tb) (receiver_buffer e) = map (element pdus) (takeWhile (\<lambda>m. m < n) xs)"
    "dropWhile (sn_before e tb) (receiver_buffer e) = map (element pdus) (dropWhile (\<lambda>m. m < n) xs)"
proof -
  have b: "vr_r e = sn_mod k" "receiver_buffer e = map (element pdus) xs" "\<forall>m \<in> set xs. k \<le> m \<and> m < k + 512" using assms(2) by (auto simp: buffers_def)
  have "(sn_before e tb \<circ> element pdus) m \<longleftrightarrow> m < n" if "m \<in> set xs" for m
    using sn_before_number [OF assms(1) b(1) assms(3-5), of m] b(3) that by simp
  then show "takeWhile (sn_before e tb) (receiver_buffer e) = map (element pdus) (takeWhile (\<lambda>m. m < n) xs)"
    "dropWhile (sn_before e tb) (receiver_buffer e) = map (element pdus) (dropWhile (\<lambda>m. m < n) xs)"
    by (simp_all add: b(2) takeWhile_map dropWhile_map cong: takeWhile_cong dropWhile_cong)
qed

lemma place_new:
  assumes "amd_stream pdus pieces closed" "buffers pdus k xs e" "rx_sn tb = sn_mod n" "\<not> rx_rf tb" "k \<le> n" "n < k + 512" "n \<notin> set xs"
  shows "rlc_am_rx_list_check_duplicate_insert_pdu alloc tb e = Some (RLC_AM_DATA_PDU_STATUS_OK,
    Stored (map (element pdus) (takeWhile (\<lambda>m. m < n) xs)) (map (element pdus) (dropWhile (\<lambda>m. m < n) xs)))"
proof (cases "xs = []")
  case True
  then show ?thesis using assms(2) by (simp add: rlc_am_rx_list_check_duplicate_insert_pdu_def buffers_def)
next
  case False
  have b: "receiver_buffer e \<noteq> []" "sorted_wrt (<) xs" "\<forall>m \<in> set xs. k < m \<and> m < k + 512" using assms(2) False by (auto simp: buffers_def)
  define ds where "ds = dropWhile (\<lambda>m. m < n) xs"
  have "rx_sn (element pdus m) \<noteq> rx_sn tb" if "m \<in> set ds" for m
  proof -
    have "n < m" "m < k + 512" using sorted_split(2) [OF b(2) assms(7)] b(3) set_dropWhileD [OF that [unfolded ds_def]] that [unfolded ds_def] by auto
    then show ?thesis using sn_mod_eq [of m n] assms(3,5) element_facts(3) [OF assms(1), of m] by auto
  qed
  then show ?thesis
    unfolding rlc_am_rx_list_check_duplicate_insert_pdu_def rlc_am_rx_list_handle_pdu_def Let_def sn_before_split [OF assms(1-3,5,6)] ds_def [symmetric]
    using b(1) assms(4) by (cases ds) simp_all
qed

lemma place_duplicate:
  assumes "amd_stream pdus pieces closed" "buffers pdus k xs e" "rx_sn tb = sn_mod n" "\<not> rx_rf tb" "n \<in> set xs"
  shows "rlc_am_rx_list_check_duplicate_insert_pdu alloc tb e = Some (RLC_AM_DATA_PDU_STATUS_SN_DUPLICATE, Not_Stored (receiver_buffer e))"
proof -
  have b: "receiver_buffer e \<noteq> []" "sorted_wrt (<) xs" "\<forall>m \<in> set xs. k < m \<and> m < k + 512" using assms(2,5) by (auto simp: buffers_def)
  have n: "k \<le> n" "n < k + 512" using b(3) assms(5) by auto
  have "\<exists>ys. dropWhile (\<lambda>m. m < n) xs = n # ys"
    using assms(5) b(2) by (induction xs) auto
  then show ?thesis
    unfolding rlc_am_rx_list_check_duplicate_insert_pdu_def rlc_am_rx_list_handle_pdu_def Let_def sn_before_split [OF assms(1-3) n]
    using b(1) assms(3,4) element_facts(2-4) [OF assms(1), of n] by auto
qed

section \<open>The invariant\<close>

fun vr_top :: "nat list \<Rightarrow> nat" where
  "vr_top [] = 0"
| "vr_top (n # ns) = max (Suc n) (vr_top ns)"

lemma vr_top_above: "n \<in> set ns \<Longrightarrow> n < vr_top ns"
  by (induction ns) auto

lemma vr_top_last: "0 < vr_top ns \<Longrightarrow> vr_top ns - 1 \<in> set ns"
  by (induction ns) (auto simp: max_def)

lemma next_missing_vr_top: "next_missing ns \<le> vr_top ns"
  using next_missing_least(2) [of "vr_top ns" ns] vr_top_above [of "vr_top ns" ns] by (meson less_irrefl not_le)

text \<open>
  \<open>ns\<close> are the numbers of the PDUs that have arrived. VR(R) is the first that has not, VR(H) follows the highest, VR(MS) is
  one between them that has not arrived, and while t-Reordering runs VR(X) is between VR(R) and VR(H). The buffer holds those behind VR(R).
\<close>

definition am_window :: "nat list \<Rightarrow> rlc_am_rx_entity \<Rightarrow> bool" where
  "am_window ns e \<longleftrightarrow> (let k = next_missing ns in
     vr_r e = sn_mod k \<and> vr_mr e = sn_mod (k + 512) \<and> vr_h e = sn_mod (vr_top ns) \<and> vr_top ns \<le> k + 512 \<and>
     (\<exists>j. k \<le> j \<and> j \<le> vr_top ns \<and> j \<notin> set ns \<and> vr_ms e = sn_mod j) \<and>
     (am_running (am_t_reordering e) \<longrightarrow> (\<exists>x. k < x \<and> x \<le> vr_top ns \<and> vr_x e = sn_mod x)))"

definition am_inv :: "(nat \<Rightarrow> octet list) \<Rightarrow> (nat \<Rightarrow> octet list list) \<Rightarrow> (nat \<Rightarrow> bool) \<Rightarrow> nat list \<Rightarrow> rlc_am_rx_entity \<Rightarrow> bool" where
  "am_inv pdus pieces closed ns e \<longleftrightarrow> am_window ns e \<and> (let k = next_missing ns in
     (\<exists>xs. buffers pdus k xs e \<and> set xs = {n \<in> set ns. k < n}) \<and>
     am_holds (held pieces closed k) e \<and> am_delivered e = sdus_before pieces closed k)"

lemmas am_rx_unfolds = am_update_timer_def am_handle_poll_def am_resume_delayed_def am_clear_delayed_def
  rlc_am_stop_and_reset_timer_reordering_def rlc_am_start_timer_reordering_def

lemma poll_fields [simp]:
  "vr_r (am_resume_delayed s e) = vr_r e" "vr_mr (am_resume_delayed s e) = vr_mr e" "vr_x (am_resume_delayed s e) = vr_x e"
  "vr_ms (am_resume_delayed s e) = vr_ms e" "vr_h (am_resume_delayed s e) = vr_h e" "receiver_buffer (am_resume_delayed s e) = receiver_buffer e"
  "am_output_sdu (am_resume_delayed s e) = am_output_sdu e" "am_output_size (am_resume_delayed s e) = am_output_size e"
  "am_delivered (am_resume_delayed s e) = am_delivered e" "am_t_reordering (am_resume_delayed s e) = am_t_reordering e"
  "vr_r (am_handle_poll tb s e) = vr_r e" "vr_mr (am_handle_poll tb s e) = vr_mr e" "vr_x (am_handle_poll tb s e) = vr_x e"
  "vr_ms (am_handle_poll tb s e) = vr_ms e" "vr_h (am_handle_poll tb s e) = vr_h e" "receiver_buffer (am_handle_poll tb s e) = receiver_buffer e"
  "am_output_sdu (am_handle_poll tb s e) = am_output_sdu e" "am_output_size (am_handle_poll tb s e) = am_output_size e"
  "am_delivered (am_handle_poll tb s e) = am_delivered e" "am_t_reordering (am_handle_poll tb s e) = am_t_reordering e"
  by (simp_all add: am_rx_unfolds Let_def)

lemma timer_fields [simp]:
  "vr_r (am_update_timer now e) = vr_r e" "vr_mr (am_update_timer now e) = vr_mr e" "vr_h (am_update_timer now e) = vr_h e"
  "receiver_buffer (am_update_timer now e) = receiver_buffer e" "am_output_sdu (am_update_timer now e) = am_output_sdu e"
  "am_output_size (am_update_timer now e) = am_output_size e" "am_delivered (am_update_timer now e) = am_delivered e"
  by (simp_all add: am_rx_unfolds Let_def)

lemma timer_vr_ms: "vr_ms (am_update_timer now e) = vr_ms e \<or> vr_ms (am_update_timer now e) = vr_h e"
  by (simp add: am_rx_unfolds Let_def)

text \<open>The invariant depends on these fields only.\<close>

lemma am_inv_cong:
  assumes "vr_r e' = vr_r e" "vr_mr e' = vr_mr e" "vr_x e' = vr_x e" "vr_ms e' = vr_ms e" "vr_h e' = vr_h e" "receiver_buffer e' = receiver_buffer e"
    "am_output_sdu e' = am_output_sdu e" "am_output_size e' = am_output_size e" "am_delivered e' = am_delivered e" "am_t_reordering e' = am_t_reordering e"
  shows "am_inv pdus pieces closed ns e' = am_inv pdus pieces closed ns e"
  using assms am_holds_cong [OF assms(7,8)] by (simp add: am_inv_def am_window_def buffers_def)

lemma am_inv_poll: "am_inv pdus pieces closed ns (am_resume_delayed s (am_handle_poll tb s' e)) = am_inv pdus pieces closed ns e"
  by (rule am_inv_cong) simp_all

text \<open>After the update VR(X) is ahead of VR(R) if the timer runs.\<close>

lemma timer_running:
  assumes "am_running (am_t_reordering e) \<Longrightarrow> k < x \<and> x \<le> h \<and> vr_x e = sn_mod x"
    and "vr_r e = sn_mod k'" "vr_h e = sn_mod h" "vr_mr e = sn_mod (k' + 512)" "k \<le> k'" "k' \<le> k + 512" "k' \<le> h" "h \<le> k' + 512" "h \<le> k + 1023"
    and "am_running (am_t_reordering (am_update_timer now e))"
  shows "\<exists>x. k' < x \<and> x \<le> h \<and> vr_x (am_update_timer now e) = sn_mod x"
proof -
  let ?stop = "vr_x e = vr_r e \<or> \<not> RLC_AM_SN_IN_WINDOW (vr_x e) (vr_r e) \<and> vr_x e \<noteq> vr_mr e"
  have hr: "vr_h e \<noteq> vr_r e \<Longrightarrow> k' < h" using assms(2,3,7) by (cases "k' = h") auto
  show ?thesis
  proof (cases "am_running (am_t_reordering e) \<and> \<not> ?stop")
    case True
    then have x: "k < x" "x \<le> h" "vr_x e = sn_mod x" using assms(1) by auto
    have "k' < x"
    proof (rule ccontr)
      assume "\<not> k' < x"
      then have "x < k'" using True x(3) assms(2) by (cases "x = k'") auto
      then have d: "RLC_AM_DIFF_SN (sn_mod x) (sn_mod k') = 1024 + int x - int k'" using x(1) assms(6) by (intro am_diff_behind) auto
      have "RLC_AM_DIFF_SN (sn_mod (k' + 512)) (sn_mod k') = 512" using am_diff [of k' "k' + 512"] by simp
      then show False using True d x(1,3) assms(2,4,6) by (auto simp: RLC_AM_SN_IN_WINDOW_def RLC_AM_SN_MODULO_def)
    qed
    moreover have "am_update_timer now e = e" using True by (auto simp: am_update_timer_def Let_def)
    ultimately show ?thesis using x by auto
  next
    case False
    then have "vr_h e \<noteq> vr_r e \<and> vr_x (am_update_timer now e) = vr_h e"
      using assms(10) by (auto simp: am_rx_unfolds am_timer_reset_def Let_def split: if_splits)
    then show ?thesis using hr assms(3) by auto
  qed
qed

section \<open>Reception of a new PDU\<close>

lemma not_missing_ge: "j \<notin> set ns \<Longrightarrow> next_missing ns \<le> j"
  using next_missing_least(2) [of j ns] by (meson not_le)

lemma new_vr_h:
  assumes "k \<le> n" "n < k + 512" "k \<le> vr_top ns" "vr_top ns \<le> k + 512"
  shows "(if RLC_AM_DIFF_SN (sn_mod n) (sn_mod k) \<ge> RLC_AM_DIFF_SN (sn_mod (vr_top ns)) (sn_mod k) then RLC_AM_NEXT_SN (sn_mod n) else sn_mod (vr_top ns)) =
    sn_mod (vr_top (n # ns))"
proof -
  have "RLC_AM_DIFF_SN (sn_mod n) (sn_mod k) \<ge> RLC_AM_DIFF_SN (sn_mod (vr_top ns)) (sn_mod k) \<longleftrightarrow> vr_top ns \<le> n"
    using am_diff [of k n] am_diff [of k "vr_top ns"] assms by auto
  then show ?thesis using am_next [of n] by (auto simp: max_def)
qed

lemma new_vr_ms:
  assumes "amd_stream pdus pieces closed" "k = next_missing ns" "buffers pdus k xs e" "set xs = {n \<in> set ns. k < n}" "vr_top ns \<le> k + 512"
    and "k \<le> j" "j \<le> vr_top ns" "j \<notin> set ns" "k \<le> n" "n < k + 512" "n \<notin> set ns"
  defines "zs \<equiv> dropWhile (\<lambda>m. m < n) xs"
  shows "\<exists>j'. j' \<le> vr_top (n # ns) \<and> j' \<notin> set (n # ns) \<and>
    (if sn_mod n = sn_mod j then rlc_am_rx_update_vr_ms (sn_mod (vr_top (n # ns))) (map (element pdus) (n # zs)) (sn_mod j) else sn_mod j) = sn_mod j'"
proof (cases "n = j")
  case False
  then have "sn_mod n \<noteq> sn_mod j" using assms(5-10) sn_mod_eq [of n j] by auto
  then show ?thesis using False assms(7,8) by (intro exI [of _ j]) auto
next
  case True
  have nx: "n \<notin> set xs" "sorted_wrt (<) xs" using assms(3,4,11) by (auto simp: buffers_def)
  have s: "sorted_wrt (<) (n # zs)" using sorted_split(1) [OF nx(2,1)] unfolding zs_def sorted_wrt_append by (elim conjE)
  have zs: "set zs = {m \<in> set ns. n < m}"
  proof -
    have "set zs = {m \<in> set xs. n < m}" unfolding zs_def by (rule dropWhile_set [OF nx(2,1)])
    also have "\<dots> = {m \<in> set ns. n < m}" unfolding assms(4) using le_less_trans [OF assms(9)] by blast
    finally show ?thesis .
  qed
  have b: "\<forall>m \<in> set (n # zs). n \<le> m \<and> m < vr_top (n # ns)" using zs vr_top_above [of _ ns] by (auto simp: less_max_iff_disj)
  have t: "vr_top (n # ns) \<le> n + 1023" using assms(5,9) by auto
  have eq: "rlc_am_rx_update_vr_ms (sn_mod (vr_top (n # ns))) (map (element pdus) (n # zs)) (sn_mod n) = sn_mod (run_end n (n # zs))"
    by (rule update_vr_ms_run [OF assms(1) s b t])
  have out: "run_end n (n # zs) \<notin> set (n # zs)" by (rule run_end_out [OF s]) (use b in auto)
  have ge: "n < run_end n (n # zs)" using run_end_ge [of "Suc n" zs] by simp
  have "run_end n (n # zs) - 1 \<in> set (n # zs)" by (rule run_end_in [of _ n]) (use ge in auto)
  then have "run_end n (n # zs) \<le> vr_top (n # ns)" using b ge by fastforce
  then show ?thesis using True eq out ge zs by (intro exI [of _ "run_end n (n # zs)"]) auto
qed

lemma window_step:
  assumes "am_window ns e" "next_missing ns \<le> n" "n < next_missing ns + 512"
    and "vr_r e1 = sn_mod (next_missing (n # ns))" "vr_mr e1 = sn_mod (next_missing (n # ns) + 512)" "vr_h e1 = sn_mod (vr_top (n # ns))"
    and "vr_ms e1 = sn_mod j" "j \<le> vr_top (n # ns)" "j \<notin> set (n # ns)" "vr_x e1 = vr_x e" "am_t_reordering e1 = am_t_reordering e"
  shows "am_window (n # ns) (am_update_timer now e1)"
proof -
  let ?k = "next_missing ns" and ?k' = "next_missing (n # ns)" and ?h = "vr_top (n # ns)"
  have w: "vr_top ns \<le> ?k + 512" "am_running (am_t_reordering e) \<longrightarrow> (\<exists>x. ?k < x \<and> x \<le> vr_top ns \<and> vr_x e = sn_mod x)"
    using assms(1) by (simp_all add: am_window_def Let_def)
  have "?k' \<notin> set ns" using next_missing_least(1) [of "n # ns"] by simp
  then have k: "?k \<le> ?k'" "?k' \<le> ?h" "?h \<le> ?k + 512" using not_missing_ge next_missing_vr_top [of "n # ns"] w(1) assms(3) by auto
  obtain x where x: "am_running (am_t_reordering e1) \<Longrightarrow> ?k < x \<and> x \<le> ?h \<and> vr_x e1 = sn_mod x"
    using w(2) assms(10,11) by (cases "am_running (am_t_reordering e)") fastforce+
  have run: "\<exists>x. ?k' < x \<and> x \<le> ?h \<and> vr_x (am_update_timer now e1) = sn_mod x" if "am_running (am_t_reordering (am_update_timer now e1))"
    by (rule timer_running [OF x assms(4,6,5) _ _ _ _ _ that]) (use k in linarith)+
  have ms: "\<exists>j. ?k' \<le> j \<and> j \<le> ?h \<and> j \<notin> set (n # ns) \<and> vr_ms (am_update_timer now e1) = sn_mod j"
    using timer_vr_ms [of now e1]
  proof
    assume "vr_ms (am_update_timer now e1) = vr_ms e1"
    then show ?thesis using assms(7-9) not_missing_ge [OF assms(9)] by metis
  next
    assume "vr_ms (am_update_timer now e1) = vr_h e1"
    then show ?thesis using assms(6) k(2) vr_top_above [of ?h "n # ns"] by (metis order_refl less_irrefl)
  qed
  show ?thesis unfolding am_window_def Let_def using assms(4-6) k ms run by (intro conjI impI) simp_all
qed

text \<open>The state variables after a PDU that has not arrived before.\<close>

lemma update_state_new:
  assumes "amd_stream pdus pieces closed" "am_window ns e" "buffers pdus (next_missing ns) xs e" "set xs = {n \<in> set ns. next_missing ns < n}"
    and "next_missing ns \<le> n" "n < next_missing ns + 512" "n \<notin> set ns"
    and "element pdus n = c\<lparr>all_segments_received := True\<rparr>" "\<not> rx_rf c" "rx_sn c = sn_mod n"
  defines "ys \<equiv> takeWhile (\<lambda>m. m < n) xs" and "zs \<equiv> dropWhile (\<lambda>m. m < n) xs"
  shows "\<exists>j. j \<le> vr_top (n # ns) \<and> j \<notin> set (n # ns) \<and>
    am_update_state (map (element pdus) ys) c (map (element pdus) zs) e =
      (let e1 = e\<lparr>vr_h := sn_mod (vr_top (n # ns)), vr_ms := sn_mod j, receiver_buffer := map (element pdus) (ys @ n # zs)\<rparr>
       in if n = next_missing ns then do {
            let r = rlc_am_rx_update_vr_r (map (element pdus) (n # zs)) (sn_mod (next_missing ns));
            let e2 = e1\<lparr>vr_r := r, vr_mr := (r + RLC_AM_WINDOW_SIZE) mod RLC_AM_SN_MODULO\<rparr>;
            (reassemble, buf) \<leftarrow> rlc_am_rx_check_vr_reassemble e2;
            Some (reassemble, e2\<lparr>receiver_buffer := buf\<rparr>) }
          else Some (False, e1))"
proof -
  let ?k = "next_missing ns"
  obtain j where w: "vr_r e = sn_mod ?k" "vr_h e = sn_mod (vr_top ns)" "vr_top ns \<le> ?k + 512" "?k \<le> j" "j \<le> vr_top ns" "j \<notin> set ns" "vr_ms e = sn_mod j"
    using assms(2) by (auto simp: am_window_def Let_def)
  have all: "rlc_am_rx_check_all_byte_segments pre c post = (pre, element pdus n, post)" for pre post
    using assms(8,9) by (simp add: rlc_am_rx_check_all_byte_segments_def)
  obtain j' where j': "j' \<le> vr_top (n # ns)" "j' \<notin> set (n # ns)"
      "(if sn_mod n = sn_mod j then rlc_am_rx_update_vr_ms (sn_mod (vr_top (n # ns))) (map (element pdus) (n # zs)) (sn_mod j) else sn_mod j) = sn_mod j'"
    using new_vr_ms [OF assms(1) refl assms(3,4) w(3-6) assms(5-7)] unfolding zs_def by blast
  have r: "sn_mod n = sn_mod ?k \<longleftrightarrow> n = ?k" using assms(5,6) by (intro sn_mod_eq) auto
  have a: "all_segments_received (element pdus n)" by (rule element_facts(4) [OF assms(1)])
  have eq: "am_update_state (map (element pdus) ys) c (map (element pdus) zs) e =
      (let e1 = e\<lparr>vr_h := sn_mod (vr_top (n # ns)), vr_ms := sn_mod j', receiver_buffer := map (element pdus) (ys @ n # zs)\<rparr>
       in if n = ?k then do {
            let r = rlc_am_rx_update_vr_r (map (element pdus) (n # zs)) (sn_mod ?k);
            let e2 = e1\<lparr>vr_r := r, vr_mr := (r + RLC_AM_WINDOW_SIZE) mod RLC_AM_SN_MODULO\<rparr>;
            (reassemble, buf) \<leftarrow> rlc_am_rx_check_vr_reassemble e2;
            Some (reassemble, e2\<lparr>receiver_buffer := buf\<rparr>) }
          else Some (False, e1))"
    unfolding am_update_state_def all Let_def split_conv assms(10) w(1,2,7) new_vr_h [OF assms(5,6) next_missing_vr_top w(3)] r
    by (simp only: a simp_thms if_True list.map map_append j'(3) [unfolded list.map])
  show ?thesis
    using j'(1,2) eq by blast
qed

lemma check_vr_reassemble_run:
  assumes "amd_stream pdus pieces closed" "sorted_wrt (<) (k # xs)" "\<forall>m \<in> set xs. m < k + 512"
    and "receiver_buffer e = map (element pdus) (k # xs)" "vr_r e = sn_mod (run_end k (k # xs))"
  shows "rlc_am_rx_check_vr_reassemble e = Some (True, receiver_buffer e)"
proof -
  let ?r = "run_end k (k # xs)"
  have ge: "k < ?r" using run_end_ge [of "Suc k" xs] by simp
  have "?r - 1 \<in> set (k # xs)" by (rule run_end_in [of _ k]) (use ge in auto)
  then have le: "?r \<le> k + 512" using assms(3) ge by fastforce
  have out: "?r \<notin> set (k # xs)" by (rule run_end_out [OF assms(2)]) (use assms(2) in auto)
  define P where "P = (\<lambda>d :: rlc_am_rx_pdu. RLC_AM_DIFF_SN (rx_sn d) (sn_mod k) < RLC_AM_DIFF_SN (sn_mod ?r) (sn_mod k))"
  define ds where "ds = dropWhile P (receiver_buffer e)"
  have sn: "rx_sn d \<noteq> sn_mod ?r" if "d \<in> set ds" for d
  proof -
    have "d \<in> set (receiver_buffer e)" using that unfolding ds_def by (rule set_dropWhileD)
    then obtain m where m: "m \<in> set (k # xs)" "d = element pdus m" unfolding assms(4) by auto
    then have "m \<noteq> ?r" "k \<le> m" "m < k + 512" using out assms(2,3) by auto
    then show ?thesis using element_facts(3) [OF assms(1), of m] m(2) sn_mod_eq [of m ?r] ge le by auto
  qed
  have ne: "sn_mod k \<noteq> sn_mod ?r" using sn_mod_eq [of k ?r] ge le by auto
  have tw: "takeWhile P (receiver_buffer e) @ ds = receiver_buffer e" unfolding ds_def by (rule takeWhile_dropWhile_id)
  obtain cs where buf: "receiver_buffer e = element pdus k # cs" using assms(4) by simp
  note el = element_facts(2,3) [OF assms(1), of k]
  have "rlc_am_rx_check_vr_reassemble e =
      (case ds of [] \<Rightarrow> Some (True, takeWhile P (receiver_buffer e))
       | d # ds' \<Rightarrow> if rx_sn d = sn_mod ?r then (if all_segments_received d then None else let (marked2, rest2, _) = mark_pending (sn_mod ?r) 0 (d # ds') in
             Some (True, takeWhile P (receiver_buffer e) @ marked2 @ rest2))
           else Some (True, takeWhile P (receiver_buffer e) @ d # ds'))"
    unfolding rlc_am_rx_check_vr_reassemble_def ds_def P_def buf assms(5) by (simp only: list.case Let_def el ne if_True if_False simp_thms split_conv append_Nil)
  then show ?thesis using sn tw by (cases ds) simp_all
qed

lemma receive_placed:
  assumes "rlc_am_get_data_pdu_infos pdu = Some (0, c)" "RLC_AM_SN_IN_WINDOW (rx_sn c) (vr_r e)"
    and "rlc_am_rx_list_check_duplicate_insert_pdu alloc c e = Some (RLC_AM_DATA_PDU_STATUS_OK, Stored pre post)"
    and "am_update_state pre c post e = Some (reassemble, e1)"
  shows "rlc_am_receive_process_data_pdu alloc now pdu e =
    (let e2 = am_resume_delayed RLC_AM_DATA_PDU_STATUS_OK (am_handle_poll c RLC_AM_DATA_PDU_STATUS_OK (am_update_timer now e1))
     in if reassemble then rlc_am_rx_list_reassemble_rlc_sdus alloc e2 else Some e2)"
  using assms by (simp add: rlc_am_receive_process_data_pdu_def am_insert_def Let_def)

lemma receive_later:
  assumes "amd_stream pdus pieces closed" "am_inv pdus pieces closed ns e" "next_missing ns < n" "n < next_missing ns + 512" "n \<notin> set ns"
  shows "\<exists>e'. rlc_am_receive_process_data_pdu alloc now (pdus n) e = Some e' \<and> am_inv pdus pieces closed (n # ns) e'"
proof -
  let ?k = "next_missing ns"
  obtain c where c: "rlc_am_get_data_pdu_infos (pdus n) = Some (0, c)" "element pdus n = c\<lparr>all_segments_received := True\<rparr>" "\<not> rx_rf c" "rx_sn c = sn_mod n"
    using element_facts(1) [OF assms(1)] by blast
  obtain xs where i: "am_window ns e" "buffers pdus ?k xs e" "set xs = {n \<in> set ns. ?k < n}" "am_holds (held pieces closed ?k) e" "am_delivered e = sdus_before pieces closed ?k"
    using assms(2) by (auto simp: am_inv_def Let_def)
  define ys zs where "ys = takeWhile (\<lambda>m. m < n) xs" and "zs = dropWhile (\<lambda>m. m < n) xs"
  have k: "?k \<le> n" "?k \<le> n + 512" "n \<noteq> ?k" using assms(3) by auto
  have r: "vr_r e = sn_mod ?k" "vr_mr e = sn_mod (?k + 512)" using i(1) by (simp_all add: am_window_def Let_def)
  have nxs: "n \<notin> set xs" using i(3) assms(5) by simp
  have place: "rlc_am_rx_list_check_duplicate_insert_pdu alloc c e = Some (RLC_AM_DATA_PDU_STATUS_OK, Stored (map (element pdus) ys) (map (element pdus) zs))"
    unfolding ys_def zs_def by (rule place_new [OF assms(1) i(2) c(4,3) k(1) assms(4) nxs])
  have win: "RLC_AM_SN_IN_WINDOW (rx_sn c) (vr_r e)" unfolding c(4) r(1) using am_in_window [OF k(2) assms(4)] k(1) by simp
  obtain j where j: "j \<le> vr_top (n # ns)" "j \<notin> set (n # ns)"
      "am_update_state (map (element pdus) ys) c (map (element pdus) zs) e =
        Some (False, e\<lparr>vr_h := sn_mod (vr_top (n # ns)), vr_ms := sn_mod j, receiver_buffer := map (element pdus) (ys @ n # zs)\<rparr>)"
    using update_state_new [OF assms(1) i(1-3) k(1) assms(4,5) c(2-4)] k(3) unfolding ys_def zs_def Let_def by auto
  define e1 where "e1 = e\<lparr>vr_h := sn_mod (vr_top (n # ns)), vr_ms := sn_mod j, receiver_buffer := map (element pdus) (ys @ n # zs)\<rparr>"
  have nx: "next_missing (n # ns) = ?k" by (rule next_missing_other [OF k(3)])
  have f: "vr_r e1 = sn_mod ?k" "vr_mr e1 = sn_mod (?k + 512)" "vr_h e1 = sn_mod (vr_top (n # ns))" "vr_ms e1 = sn_mod j" "vr_x e1 = vr_x e"
      "am_t_reordering e1 = am_t_reordering e" "receiver_buffer e1 = map (element pdus) (ys @ n # zs)"
      "am_output_sdu e1 = am_output_sdu e" "am_output_size e1 = am_output_size e" "am_delivered e1 = am_delivered e"
    using r by (simp_all add: e1_def)
  have w: "am_window (n # ns) (am_update_timer now e1)"
    by (rule window_step [OF i(1) k(1) assms(4) _ _ f(3,4) j(1,2) f(5,6)]) (use nx f(1,2) in simp_all)
  have b: "sorted_wrt (<) (ys @ n # zs)" unfolding ys_def zs_def by (rule sorted_split(1)) (use i(2) nxs in \<open>auto simp: buffers_def\<close>)
  have ins: "set (ys @ n # zs) = insert n (set xs)" unfolding ys_def zs_def by (metis list.simps(15) set_append takeWhile_dropWhile_id Un_insert_right)
  then have bs: "set (ys @ n # zs) = {m \<in> set (n # ns). ?k < m}" unfolding i(3) using assms(3) by auto
  have "\<forall>m \<in> set (ys @ n # zs). ?k < m \<and> m < ?k + 512" unfolding ins using i(2) assms(3,4) by (simp add: buffers_def)
  then have "buffers pdus ?k (ys @ n # zs) (am_update_timer now e1)" using f(1,7) b by (simp add: buffers_def)
  moreover have "am_holds (held pieces closed ?k) (am_update_timer now e1)" using i(4) am_holds_cong [of "am_update_timer now e1" e] f(8,9) by simp
  ultimately have "am_inv pdus pieces closed (n # ns) (am_update_timer now e1)"
    unfolding am_inv_def Let_def nx using w i(5) bs f(10) by (intro conjI exI [of _ "ys @ n # zs"]) simp_all
  then show ?thesis
    unfolding receive_placed [OF c(1) win place j(3) [folded e1_def]] Let_def by (simp add: am_inv_poll)
qed

lemma same_but_output_fields:
  assumes "same_but_output e e'"
  shows "vr_r e' = vr_r e" "vr_mr e' = vr_mr e" "vr_x e' = vr_x e" "vr_ms e' = vr_ms e" "vr_h e' = vr_h e" "receiver_buffer e' = receiver_buffer e"
    "am_t_reordering e' = am_t_reordering e"
  by (subst assms [unfolded same_but_output_def], simp)+

lemma am_window_cong:
  assumes "vr_r e' = vr_r e" "vr_mr e' = vr_mr e" "vr_x e' = vr_x e" "vr_ms e' = vr_ms e" "vr_h e' = vr_h e" "am_t_reordering e' = am_t_reordering e"
  shows "am_window ns e' = am_window ns e"
  using assms by (simp add: am_window_def)

text \<open>After reassembly the run of consecutive PDUs has left the buffer.\<close>

lemma inv_after_run:
  assumes "set xs = {n \<in> set ns. next_missing ns < n}" "sorted_wrt (<) xs" "\<forall>m \<in> set xs. next_missing ns < m \<and> m < next_missing ns + 512"
    and "am_window (next_missing ns # ns) e2" "am_holds (held pieces closed (next_missing (next_missing ns # ns))) e3"
    and "am_delivered e3 = sdus_before pieces closed (next_missing (next_missing ns # ns))"
    and "same_but_output (e2\<lparr>receiver_buffer := map (element pdus) (run_rest (next_missing ns) (next_missing ns # xs))\<rparr>) e3"
    and "vr_r e2 = sn_mod (next_missing (next_missing ns # ns))"
  shows "am_inv pdus pieces closed (next_missing ns # ns) e3"
proof -
  let ?k = "next_missing ns" and ?k' = "next_missing (next_missing ns # ns)"
  note same = same_but_output_fields [OF assms(7)]
  have s: "sorted_wrt (<) (?k # xs)" "\<forall>m \<in> set (?k # xs). ?k \<le> m" using assms(2,3) by auto
  have run: "?k' = run_end ?k (?k # xs)" by (rule next_missing_run [OF refl assms(2,1)])
  have kk: "?k < ?k'" unfolding run using run_end_ge [of "Suc ?k" xs] by simp
  have "set (run_rest ?k (?k # xs)) = {m \<in> set (?k # xs). ?k' < m}" unfolding run by (rule run_rest_set [OF s])
  also have "\<dots> = {m \<in> set (?k # ns). ?k' < m}" using kk by (simp add: assms(1)) (auto dest: less_trans)
  finally have bs: "set (run_rest ?k (?k # xs)) = {m \<in> set (?k # ns). ?k' < m}" .
  have sub: "set (run_rest ?k (?k # xs)) \<subseteq> {m. ?k' < m} \<inter> set xs" unfolding run run_rest_set [OF s] using kk [unfolded run] by auto
  have "\<forall>m \<in> set (run_rest ?k (?k # xs)). ?k' < m \<and> m < ?k' + 512" using sub assms(3) kk by fastforce
  then have "buffers pdus ?k' (run_rest ?k (?k # xs)) e3" using same(1,6) assms(8) run_rest_sorted [OF s(1), of ?k] by (simp add: buffers_def)
  moreover have "am_window (?k # ns) e3" using assms(4) am_window_cong [of e3 e2] same by simp
  ultimately show ?thesis unfolding am_inv_def Let_def using bs assms(5,6) by blast
qed

lemma receive_next:
  assumes "amd_stream pdus pieces closed" "blocks_available alloc" "am_inv pdus pieces closed ns e"
  shows "\<exists>e'. rlc_am_receive_process_data_pdu alloc now (pdus (next_missing ns)) e = Some e' \<and> am_inv pdus pieces closed (next_missing ns # ns) e'"
proof -
  let ?k = "next_missing ns" and ?k' = "next_missing (next_missing ns # ns)"
  obtain c where c: "rlc_am_get_data_pdu_infos (pdus ?k) = Some (0, c)" "element pdus ?k = c\<lparr>all_segments_received := True\<rparr>" "\<not> rx_rf c" "rx_sn c = sn_mod ?k"
    using element_facts(1) [OF assms(1)] by blast
  obtain xs where i: "am_window ns e" "buffers pdus ?k xs e" "set xs = {n \<in> set ns. ?k < n}" "am_holds (held pieces closed ?k) e" "am_delivered e = sdus_before pieces closed ?k"
    using assms(3) by (auto simp: am_inv_def Let_def)
  have b: "sorted_wrt (<) xs" "\<forall>m \<in> set xs. ?k < m \<and> m < ?k + 512" using i(2) by (simp_all add: buffers_def)
  have r: "vr_r e = sn_mod ?k" using i(1) by (simp add: am_window_def Let_def)
  have k: "?k \<le> ?k" "?k < ?k + 512" "?k \<notin> set ns" "?k \<notin> set xs" using next_missing_least(1) b(2) by auto
  have split: "takeWhile (\<lambda>m. m < ?k) xs = []" "dropWhile (\<lambda>m. m < ?k) xs = xs" using b(2) by (cases xs, auto)+
  have s: "sorted_wrt (<) (?k # xs)" "\<forall>m \<in> set xs. m < ?k + 512" "\<forall>m \<in> set (?k # xs). ?k \<le> m \<and> m \<le> ?k + 1023" using b by auto
  have run: "?k' = run_end ?k (?k # xs)" by (rule next_missing_run [OF refl b(1) i(3)])
  have upd: "rlc_am_rx_update_vr_r (map (element pdus) (?k # xs)) (sn_mod ?k) = sn_mod ?k'" unfolding run by (rule update_vr_r_run [OF assms(1) s(1,3)])
  have mr: "(sn_mod ?k' + RLC_AM_WINDOW_SIZE) mod RLC_AM_SN_MODULO = sn_mod (?k' + 512)"
    by (simp add: RLC_AM_WINDOW_SIZE_def RLC_AM_SN_MODULO_def mod_add_left_eq)
  have place: "rlc_am_rx_list_check_duplicate_insert_pdu alloc c e = Some (RLC_AM_DATA_PDU_STATUS_OK, Stored (map (element pdus) []) (map (element pdus) xs))"
    using place_new [OF assms(1) i(2) c(4,3) k(1,2,4), of alloc] by (simp only: split)
  have win: "RLC_AM_SN_IN_WINDOW (rx_sn c) (vr_r e)" unfolding c(4) r(1) using am_in_window [of ?k ?k] by simp
  obtain j e1 where j: "j \<le> vr_top (?k # ns)" "j \<notin> set (?k # ns)"
      and e1: "e1 = e\<lparr>vr_h := sn_mod (vr_top (?k # ns)), vr_ms := sn_mod j, receiver_buffer := map (element pdus) (?k # xs), vr_r := sn_mod ?k', vr_mr := sn_mod (?k' + 512)\<rparr>"
      and u: "am_update_state (map (element pdus) []) c (map (element pdus) xs) e = Option.bind (rlc_am_rx_check_vr_reassemble e1) (\<lambda>(reassemble, buf). Some (reassemble, e1\<lparr>receiver_buffer := buf\<rparr>))"
    using update_state_new [OF assms(1) i(1-3) k(1,2,3) c(2-4)] unfolding split Let_def upd mr append_Nil if_P [OF refl] by blast
  have f: "vr_r e1 = sn_mod ?k'" "vr_mr e1 = sn_mod (?k' + 512)" "vr_h e1 = sn_mod (vr_top (?k # ns))" "vr_ms e1 = sn_mod j" "vr_x e1 = vr_x e"
      "am_t_reordering e1 = am_t_reordering e" "receiver_buffer e1 = map (element pdus) (?k # xs)"
      "am_output_sdu e1 = am_output_sdu e" "am_output_size e1 = am_output_size e" "am_delivered e1 = am_delivered e" "e1\<lparr>receiver_buffer := receiver_buffer e1\<rparr> = e1"
    by (simp_all add: e1)
  have u': "am_update_state (map (element pdus) []) c (map (element pdus) xs) e = Some (True, e1)"
    unfolding u check_vr_reassemble_run [OF assms(1) s(1,2) f(7) f(1) [unfolded run]] using f(11) by simp
  define e2 where "e2 = am_resume_delayed RLC_AM_DATA_PDU_STATUS_OK (am_handle_poll c RLC_AM_DATA_PDU_STATUS_OK (am_update_timer now e1))"
  have "am_window (?k # ns) (am_update_timer now e1)" by (rule window_step [OF i(1) k(1,2) f(1-4) j f(5,6)])
  then have w: "am_window (?k # ns) e2" using am_window_cong [of e2 "am_update_timer now e1"] by (simp add: e2_def)
  have h: "am_holds (held pieces closed ?k) e2" "am_delivered e2 = sdus_before pieces closed ?k" "receiver_buffer e2 = map (element pdus) (?k # xs)" "vr_r e2 = sn_mod ?k'"
    using i(4,5) f am_holds_cong [of e2 e] by (simp_all add: e2_def)
  have "\<forall>m \<in> set xs. m < ?k + 1024" using b(2) by auto
  then obtain e3 where e3: "reassemble_loop alloc [] (map (element pdus) (?k # xs)) e2 = Some e3" "am_holds (held pieces closed ?k') e3"
      "am_delivered e3 = sdus_before pieces closed ?k'" "same_but_output (e2\<lparr>receiver_buffer := map (element pdus) (run_rest ?k (?k # xs))\<rparr>) e3"
    using reassemble_loop_run [OF assms(1,2) h(1,2) s(1)] unfolding run by blast
  have "rlc_am_receive_process_data_pdu alloc now (pdus ?k) e = Some e3"
    using receive_placed [OF c(1) win place u', of now, folded e2_def] e3(1) h(3) element_facts(2) [OF assms(1), of ?k]
    by (simp add: Let_def rlc_am_rx_list_reassemble_rlc_sdus_def)
  moreover have "am_inv pdus pieces closed (?k # ns) e3" by (rule inv_after_run [OF i(3) b w e3(2-4) h(4)])
  ultimately show ?thesis by blast
qed

section \<open>Repeated PDUs and the expiry of t-Reordering\<close>

lemma am_inv_repeat: "n \<in> set ns \<Longrightarrow> am_inv pdus pieces closed (n # ns) e = am_inv pdus pieces closed ns e"
proof -
  assume n: "n \<in> set ns"
  then have "n \<noteq> next_missing ns" using next_missing_least(1) by metis
  then have "next_missing (n # ns) = next_missing ns" by (rule next_missing_other)
  moreover have "vr_top (n # ns) = vr_top ns" using vr_top_above [OF n] by simp
  moreover have "set (n # ns) = set ns" using n by auto
  ultimately show ?thesis unfolding am_inv_def am_window_def Let_def by (simp only:)
qed

lemma receive_repeated:
  assumes "amd_stream pdus pieces closed" "am_inv pdus pieces closed ns e" "n \<in> set ns" "next_missing ns \<le> n + 512"
  shows "\<exists>e'. rlc_am_receive_process_data_pdu alloc now (pdus n) e = Some e' \<and> am_inv pdus pieces closed (n # ns) e'"
proof -
  let ?k = "next_missing ns"
  obtain c where c: "rlc_am_get_data_pdu_infos (pdus n) = Some (0, c)" "\<not> rx_rf c" "rx_sn c = sn_mod n"
    using element_facts(1) [OF assms(1)] by blast
  obtain xs where i: "am_window ns e" "buffers pdus ?k xs e" "set xs = {n \<in> set ns. ?k < n}" using assms(2) by (auto simp: am_inv_def Let_def)
  have r: "vr_r e = sn_mod ?k" using i(1) by (simp add: am_window_def Let_def)
  have "n \<noteq> ?k" using assms(3) next_missing_least(1) by metis
  have ins: "\<exists>s. s \<noteq> RLC_AM_DATA_PDU_STATUS_OK \<and> am_insert alloc now c e = Some (s, False, e)"
  proof (cases "n < ?k")
    case True
    then have "\<not> RLC_AM_SN_IN_WINDOW (rx_sn c) (vr_r e)" unfolding c(3) r using am_in_window [OF assms(4)] by simp
    then show ?thesis by (simp add: am_insert_def)
  next
    case False
    then have m: "n \<in> set xs" "?k \<le> n" using assms(3) \<open>n \<noteq> ?k\<close> i(3) by auto
    then have "n < ?k + 512" using i(2) by (simp add: buffers_def)
    then have "RLC_AM_SN_IN_WINDOW (rx_sn c) (vr_r e)" unfolding c(3) r using am_in_window [OF assms(4)] m(2) by simp
    then show ?thesis using place_duplicate [OF assms(1) i(2) c(3,2) m(1), of alloc] by (simp add: am_insert_def)
  qed
  then obtain s where "rlc_am_receive_process_data_pdu alloc now (pdus n) e = Some (am_resume_delayed s (am_handle_poll c s e))"
    using c(1) by (auto simp: rlc_am_receive_process_data_pdu_def Let_def)
  then show ?thesis using assms(2) am_inv_repeat [OF assms(3)] by (simp add: am_inv_poll)
qed

lemma receive_step:
  assumes "amd_stream pdus pieces closed" "blocks_available alloc" "am_inv pdus pieces closed ns e" "next_missing ns \<le> n + 512" "n < next_missing ns + 512"
  shows "\<exists>e'. rlc_am_receive_process_data_pdu alloc now (pdus n) e = Some e' \<and> am_inv pdus pieces closed (n # ns) e'"
proof (cases "n \<in> set ns")
  case True
  then show ?thesis using receive_repeated [OF assms(1,3) _ assms(4)] by blast
next
  case False
  then have "next_missing ns \<le> n" by (rule not_missing_ge)
  then show ?thesis using receive_next [OF assms(1-3)] receive_later [OF assms(1,3) _ assms(5) False] by (cases "n = next_missing ns") auto
qed

lemma expiry_vr_ms:
  assumes "amd_stream pdus pieces closed" "vr_r e = sn_mod k" "buffers pdus k xs e" "set xs = {n \<in> set ns. k < n}" "k < x" "x \<le> vr_top ns" "vr_top ns \<le> k + 512"
  shows "\<exists>j. x \<le> j \<and> j \<le> vr_top ns \<and> j \<notin> set ns \<and>
    am_skip_complete (sn_mod (vr_top ns)) (sn_mod x)
      (dropWhile (\<lambda>c. RLC_AM_DIFF_SN (rx_sn c) (vr_r e) < RLC_AM_DIFF_SN (sn_mod x) (vr_r e)) (receiver_buffer e)) = sn_mod j"
proof -
  define ds where "ds = dropWhile (\<lambda>m. m < x) xs"
  have b: "sorted_wrt (<) xs" "\<forall>m \<in> set xs. k < m \<and> m < k + 512" "receiver_buffer e = map (element pdus) xs" using assms(3) by (simp_all add: buffers_def)
  have "RLC_AM_DIFF_SN (rx_sn (element pdus m)) (sn_mod k) < RLC_AM_DIFF_SN (sn_mod x) (sn_mod k) \<longleftrightarrow> m < x" if "m \<in> set xs" for m
    using b(2) that am_diff [of k m] am_diff [of k x] assms(5-7) element_facts(3) [OF assms(1), of m] by auto
  then have drop: "dropWhile (\<lambda>c. RLC_AM_DIFF_SN (rx_sn c) (vr_r e) < RLC_AM_DIFF_SN (sn_mod x) (vr_r e)) (receiver_buffer e) = map (element pdus) ds"
    unfolding b(3) assms(2) ds_def dropWhile_map by (simp add: comp_def cong: dropWhile_cong)
  have set: "set ds = {m \<in> set ns. x \<le> m}" unfolding ds_def dropWhile_set_le [OF b(1)] assms(4) using assms(5) by auto
  have s: "sorted_wrt (<) ds" unfolding ds_def using b(1) by (simp add: sorted_wrt_dropWhile)
  have m: "\<forall>m \<in> set ds. x \<le> m \<and> m < vr_top ns" using set vr_top_above by auto
  have le: "run_end x ds \<le> vr_top ns"
  proof (cases "run_end x ds = x")
    case False
    then have "x < run_end x ds" using run_end_ge [of x ds] by simp
    moreover have "run_end x ds - 1 \<in> set ds" by (rule run_end_in [of _ x]) (use \<open>x < run_end x ds\<close> in auto)
    ultimately show ?thesis using m by fastforce
  qed (use assms(6) in simp)
  have "run_end x ds \<notin> set ds" by (rule run_end_out [OF s]) (use m in auto)
  then have "run_end x ds \<notin> set ns" using set run_end_ge [of x ds] by auto
  then show ?thesis unfolding drop
    using le run_end_ge [of x ds] skip_complete_run [OF assms(1) s m] assms(5-7) by (intro exI [of _ "run_end x ds"]) simp
qed

lemma expiry_step:
  assumes "amd_stream pdus pieces closed" "am_inv pdus pieces closed ns e"
  shows "\<exists>e'. rlc_am_check_timer_reordering now e = Some e' \<and> am_inv pdus pieces closed ns e'"
proof (cases "am_running (am_t_reordering e) \<and> am_timer_expired now (am_t_reordering e)")
  case False
  then show ?thesis using assms(2) by (auto simp: rlc_am_check_timer_reordering_def)
next
  case True
  let ?k = "next_missing ns"
  obtain xs where i: "am_window ns e" "buffers pdus ?k xs e" "set xs = {n \<in> set ns. ?k < n}" "am_holds (held pieces closed ?k) e" "am_delivered e = sdus_before pieces closed ?k"
    using assms(2) by (auto simp: am_inv_def Let_def)
  obtain x where w: "vr_r e = sn_mod ?k" "vr_mr e = sn_mod (?k + 512)" "vr_h e = sn_mod (vr_top ns)" "vr_top ns \<le> ?k + 512" "?k < x" "x \<le> vr_top ns" "vr_x e = sn_mod x"
    using i(1) True by (auto simp: am_window_def Let_def)
  have "vr_top ns - 1 \<in> set ns" using vr_top_last w(5,6) by auto
  moreover from this have "vr_top ns - 1 \<noteq> ?k" using next_missing_least(1) by metis
  ultimately have "vr_top ns - 1 \<in> set xs" unfolding i(3) using w(5,6) by simp
  then have ne: "receiver_buffer e \<noteq> []" using i(2) by (auto simp: buffers_def)
  obtain j where j: "x \<le> j" "j \<le> vr_top ns" "j \<notin> set ns" "am_skip_complete (vr_h e) (vr_x e)
      (dropWhile (\<lambda>c. RLC_AM_DIFF_SN (rx_sn c) (vr_r e) < RLC_AM_DIFF_SN (vr_x e) (vr_r e)) (receiver_buffer e)) = sn_mod j"
    using expiry_vr_ms [OF assms(1) w(1) i(2,3) w(5,6,4)] unfolding w(3,7) by blast
  have def: "vr_x e \<noteq> RLC_SN_UNDEFINED" unfolding w(7) by (rule sn_mod_range(3))
  obtain e' where e': "rlc_am_check_timer_reordering now e = Some e'" "vr_ms e' = sn_mod j" "\<not> am_running (am_t_reordering e')"
      "vr_r e' = vr_r e" "vr_mr e' = vr_mr e" "vr_h e' = vr_h e" "receiver_buffer e' = receiver_buffer e" "am_output_sdu e' = am_output_sdu e"
      "am_output_size e' = am_output_size e" "am_delivered e' = am_delivered e"
    using True ne def j(4) unfolding rlc_am_check_timer_reordering_def by (simp add: Let_def am_clear_delayed_def)
  have "am_window ns e'" unfolding am_window_def Let_def using e' w j(1-3) by (auto intro!: exI [of _ j])
  moreover have "buffers pdus ?k xs e'" using i(2) e'(4,7) by (simp add: buffers_def)
  moreover have "am_holds (held pieces closed ?k) e'" using i(4) am_holds_cong [OF e'(8,9)] by simp
  moreover have "am_delivered e' = sdus_before pieces closed ?k" using e'(10) i(5) by simp
  ultimately have "am_inv pdus pieces closed ns e'" unfolding am_inv_def Let_def using i(3) by blast
  then show ?thesis using e'(1) by blast
qed

end
