(* ===== verification/RlcAmHistory.thy ===== *)
theory RlcAmHistory
  imports RlcAmSeq RlcAmReport
begin

text \<open>
  Histories of the receiving side in RLC acknowledged mode: receptions and checks of t-Reordering in any order. The receiver
  delivers in sequence, and the STATUS PDU it sends after a history tells the peer which PDUs have arrived.
\<close>

section \<open>Histories\<close>

text \<open>A PDU of the stream is received, or the MAC indication checks t-Reordering; both at a time in milliseconds.\<close>

datatype am_event = Data "32 word" nat | Tick "32 word"

fun am_run :: "am_allocator \<Rightarrow> (nat \<Rightarrow> octet list) \<Rightarrow> am_event list \<Rightarrow> rlc_am_rx_entity \<Rightarrow> rlc_am_rx_entity option" where
  "am_run alloc pdus [] e = Some e"
| "am_run alloc pdus (Data now n # evs) e = Option.bind (rlc_am_receive_process_data_pdu alloc now (pdus n) e) (am_run alloc pdus evs)"
| "am_run alloc pdus (Tick now # evs) e = Option.bind (rlc_am_check_timer_reordering now e) (am_run alloc pdus evs)"

text \<open>The numbers of the PDUs that have arrived, the last one first, in front of \<open>ns\<close>.\<close>

fun arrived :: "nat list \<Rightarrow> am_event list \<Rightarrow> nat list" where
  "arrived ns [] = ns"
| "arrived ns (Data now n # evs) = arrived (n # ns) evs"
| "arrived ns (Tick now # evs) = arrived ns evs"

text \<open>
  The peer does not send a PDU outside its window, and no PDU is delayed by more than the window: half the sequence number space
  on both sides of the first PDU that is missing.
\<close>

fun admissible :: "nat list \<Rightarrow> am_event list \<Rightarrow> bool" where
  "admissible ns [] = True"
| "admissible ns (Data now n # evs) \<longleftrightarrow> next_missing ns \<le> n + 512 \<and> n < next_missing ns + 512 \<and> admissible (n # ns) evs"
| "admissible ns (Tick now # evs) = admissible ns evs"

lemma am_run_inv:
  assumes "amd_stream pdus pieces closed" "blocks_available alloc"
  shows "am_inv pdus pieces closed ns e \<Longrightarrow> admissible ns evs \<Longrightarrow>
    \<exists>e'. am_run alloc pdus evs e = Some e' \<and> am_inv pdus pieces closed (arrived ns evs) e'"
proof (induction evs arbitrary: ns e)
  case (Cons ev evs)
  show ?case
  proof (cases ev)
    case (Data now n)
    then obtain e1 where "rlc_am_receive_process_data_pdu alloc now (pdus n) e = Some e1" "am_inv pdus pieces closed (n # ns) e1"
      using receive_step [OF assms Cons.prems(1), of n now] Cons.prems(2) by auto
    then show ?thesis using Cons.IH [of "n # ns" e1] Cons.prems(2) Data by simp
  next
    case (Tick now)
    obtain e1 where "rlc_am_check_timer_reordering now e = Some e1" "am_inv pdus pieces closed ns e1"
      using expiry_step [OF assms(1) Cons.prems(1)] by blast
    then show ?thesis using Cons.IH [of ns e1] Cons.prems(2) Tick by simp
  qed
qed simp

abbreviation am_start :: "32 word \<Rightarrow> rlc_am_rx_entity" where
  "am_start duration \<equiv> rlc_am_init_timer_reordering duration rlc_am_init"

lemma am_start_inv: "am_inv pdus pieces closed [] (am_start duration)"
proof -
  have "next_missing [] = 0" by (rule next_missing_eqI) auto
  then show ?thesis
    by (simp add: am_inv_def am_window_def Let_def buffers_def am_holds_def rlc_am_init_timer_reordering_def rlc_am_init_def RLC_AM_WINDOW_SIZE_def)
qed

section \<open>Delivery\<close>

text \<open>
  C3. Delivery in acknowledged mode. A stream of PDUs that are not segmented is received in any order and with any repetition that
  the window admits, with checks of t-Reordering at arbitrary times. The receiver never fails; VR(R) is the first PDU that has not
  arrived, and the SDUs delivered are exactly those that end in the PDUs before it, complete, in order and once each.
\<close>

theorem am_receiver_in_sequence:
  assumes "amd_stream pdus pieces closed" "blocks_available alloc" "admissible [] evs"
  shows "\<exists>e. am_run alloc pdus evs (am_start duration) = Some e \<and> vr_r e = sn_mod (next_missing (arrived [] evs)) \<and>
    am_delivered e = sdus_before pieces closed (next_missing (arrived [] evs))"
  using am_run_inv [OF assms(1,2) am_start_inv assms(3)] by (auto simp: am_inv_def am_window_def Let_def)

text \<open>An SDU of two octets in two PDUs each.\<close>

definition example_pdu :: "nat \<Rightarrow> octet list" where
  "example_pdu n = [(if even n then 0x88 else 0x90) + word_of_nat (n div 256 mod 4), word_of_nat n, word_of_nat n]"

lemma example_infos:
  "\<exists>c. rlc_am_get_data_pdu_infos (example_pdu n) = Some (0, c) \<and> \<not> rx_rf c \<and> rx_sn c = sn_mod n \<and> \<not> rx_e c \<and> rx_li_list c = [] \<and>
    rx_payload c = [word_of_nat n] \<and> rx_payload_size c = 1 \<and> rx_fi c = (if even n then 1 else 2)"
proof -
  have "sn_mod n = int (n mod 256) + 256 * int (n div 256 mod 4)"
    using arg_cong [where f = int, OF mod_mult2_eq [of n 256 4]] by (simp add: of_nat_mod of_nat_div)
  moreover have "uint (word_of_nat n :: octet) = int (n mod 256)" by (simp add: unsigned_of_nat take_bit_eq_mod)
  moreover have "n div 256 mod 4 \<in> {0, 1, 2, 3}" by auto
  ultimately show ?thesis
    by (cases "even n") (auto simp: rlc_am_get_data_pdu_infos_def example_pdu_def s16_def)
qed
definition example_pieces :: "nat \<Rightarrow> octet list list" where
  "example_pieces n = [[word_of_nat n]]"

lemma example_held: "held example_pieces odd n = (if even n then [] else [word_of_nat (n - 1)])"
  by (induction n) (auto simp: example_pieces_def)

lemma example_stream: "amd_stream example_pdu example_pieces odd"
  unfolding amd_stream_def
proof
  fix n
  obtain c where "rlc_am_get_data_pdu_infos (example_pdu n) = Some (0, c)" "\<not> rx_rf c" "rx_sn c = sn_mod n" "\<not> rx_e c" "rx_li_list c = []"
      "rx_payload c = [word_of_nat n]" "rx_payload_size c = 1" "rx_fi c = (if even n then 1 else 2)"
    using example_infos by blast
  then show "\<exists>c. rlc_am_get_data_pdu_infos (example_pdu n) = Some (0, c) \<and> \<not> rx_rf c \<and> rx_sn c = sn_mod n \<and>
      carries (held example_pieces odd n) (example_pieces n) (odd n) c \<and> sizes_ok (absorb (held example_pieces odd n) (example_pieces n) (odd n))"
    by (intro exI [of _ c]) (simp add: carries_def example_pieces_def example_held sizes_ok_def RLC_SDU_MAX_SIZE_def)
qed

definition example_alloc :: am_allocator where
  "example_alloc n = Some (0x1000, replicate n 0)"

lemma example_blocks: "blocks_available example_alloc"
  by (simp add: blocks_available_def example_alloc_def)

definition example_history :: "am_event list" where
  "example_history = [Data 10 1, Data 20 0, Data 20 3, Data 30 1, Tick 80, Data 90 5, Tick 95, Data 100 2]"

lemma example_admissible: "admissible [] example_history" "next_missing (arrived [] example_history) = 4"
  by (simp_all add: example_history_def next_missing_def upt_rec)

lemma example_sdus: "sdus_before example_pieces odd 4 = [[0, 1], [2, 3]]"
  by code_simp

theorem am_receiver_in_sequence_witness:
  "map_option (\<lambda>e. (vr_r e, am_delivered e)) (am_run example_alloc example_pdu example_history (am_start 35)) =
    Some (4, [[0, 1], [2, 3]])"
  using am_receiver_in_sequence [OF example_stream example_blocks example_admissible(1), of 35] unfolding example_admissible(2)
    example_sdus by auto

section \<open>The report after a history\<close>

lemma infos_whole:
  assumes "rlc_am_get_data_pdu_infos pdu = Some (0, c)" "\<not> rx_rf c"
  shows "rx_so c = 0 \<and> rx_payload_size c < 32768"
proof -
  have "s16 x < 32768" for x using s16_range [of x] by simp
  then show ?thesis using assms by (auto simp: rlc_am_get_data_pdu_infos_def Let_def split_beta split: if_splits Option.bind_splits)
qed

text \<open>The entity that a history leaves satisfies what the report relies on.\<close>

lemma inv_rx_ok:
  assumes "amd_stream pdus pieces closed" "am_inv pdus pieces closed ns e"
  shows "rx_ok e"
proof -
  let ?k = "next_missing ns"
  obtain xs j where i: "vr_r e = sn_mod ?k" "vr_ms e = sn_mod j" "receiver_buffer e = map (element pdus) xs" "sorted_wrt (<) xs" "\<forall>m \<in> set xs. ?k < m \<and> m < ?k + 512"
    using assms(2) by (auto simp: am_inv_def am_window_def Let_def buffers_def)
  have el: "elem_ok (element pdus m)" for m
  proof -
    obtain c where c: "rlc_am_get_data_pdu_infos (pdus m) = Some (0, c)" "element pdus m = c\<lparr>all_segments_received := True\<rparr>" "\<not> rx_rf c"
      using element_facts(1) [OF assms(1)] by blast
    have "0 \<le> rx_payload_size (element pdus m)" using element_facts(5) [OF assms(1), of m] by (simp add: carries_def)
    then show ?thesis using infos_whole [OF c(1,3)] c(2) element_facts(3) [OF assms(1), of m] by (simp add: elem_ok_def)
  qed
  have "before (vr_r e) (element pdus a) (element pdus b)" if "a \<in> set xs" "b \<in> set xs" "a < b" for a b
  proof -
    have "?k \<le> a" "a < ?k + 1024" "?k \<le> b" "b < ?k + 1024" using that(1,2) i(5) by fastforce+
    then show ?thesis using that(3) am_diff [of ?k a] am_diff [of ?k b] element_facts(3) [OF assms(1)] by (simp add: before_def i(1))
  qed
  then have "sorted_wrt (before (vr_r e)) (receiver_buffer e)" unfolding i(3) sorted_wrt_map by (rule sorted_wrt_mono_rel [OF _ i(4)])
  moreover have "has_gap (receiver_buffer e) (vr_r e)" unfolding has_gap_def
  proof (intro exI [of _ 0] conjI)
    have "rx_sn (element pdus m) \<noteq> sn_mod ?k" if "m \<in> set xs" for m
      using i(5) that sn_mod_eq [of m ?k] element_facts(3) [OF assms(1), of m] by auto
    then show "\<not> received (receiver_buffer e) (vr_r e) 0" by (auto simp: received_def i(1,3))
  qed simp_all
  ultimately show ?thesis using i(1-3) el by (simp add: rx_ok_def)
qed

text \<open>
  The NACKs \<open>ns\<close> name the PDUs \<open>ms\<close>, each as a whole. What a report means after the PDUs \<open>ns\<close> have arrived: ACK_SN is \<open>a\<close>, and the NACKs name
  exactly the PDUs before it that have not arrived.
\<close>

definition nacks_name :: "nack_sn_t list \<Rightarrow> nat list \<Rightarrow> bool" where
  "nacks_name ns ms \<longleftrightarrow> map (\<lambda>n. int (nack_sn n)) ns = map sn_mod ms \<and> (\<forall>n \<in> set ns. so_start n = 0 \<and> so_end n = 0x7FFF)"

definition report_matches :: "nat list \<Rightarrow> rlc_am_control_pdu_info \<Rightarrow> bool" where
  "report_matches ns info \<longleftrightarrow> (\<exists>a. next_missing ns \<le> a \<and> a \<le> vr_top ns \<and> int (ack_sn info) = sn_mod a \<and>
     nacks_name (nack_list info) (filter (\<lambda>m. m \<notin> set ns) [next_missing ns..<a]))"

lemma wholes_named:
  assumes "wholes (sn_mod k) d ns"
  obtains ms where "nacks_name ns ms" "sorted_wrt (<) ms" "\<forall>m \<in> set ms. k \<le> m \<and> int m < int k + d"
proof -
  obtain ds where ds: "map (\<lambda>nack. nack\<lparr>nack_e1 := True\<rparr>) ns = map (\<lambda>x. whole (sn_of (sn_mod k) x)) ds" "sorted_wrt (<) ds" "\<forall>x \<in> set ds. 0 \<le> x \<and> x < d"
    using assms by (auto simp: wholes_def)
  define ms where "ms = map (\<lambda>x. k + nat x) ds"
  have sn: "sn_of (sn_mod k) x = sn_mod (k + nat x)" if "x \<in> set ds" for x
    using that ds(3) by (simp add: sn_of_def mod_add_left_eq)
  have "map (\<lambda>n. int (nack_sn n)) ns = map (\<lambda>n. int (nack_sn n)) (map (\<lambda>nack. nack\<lparr>nack_e1 := True\<rparr>) ns)" by simp
  also have "\<dots> = map sn_mod ms" unfolding ds(1) ms_def using sn sn_of_range by (simp add: whole_def)
  finally have "map (\<lambda>n. int (nack_sn n)) ns = map sn_mod ms" .
  then have "nacks_name ns ms" using wholes_fields(2,3) [OF assms] by (simp add: nacks_name_def)
  moreover have "sorted_wrt (<) ms" unfolding ms_def sorted_wrt_map by (rule sorted_wrt_mono_rel [OF _ ds(2)]) (use ds(3) in auto)
  moreover have "\<forall>m \<in> set ms. k \<le> m \<and> int m < int k + d" using ds(3) by (auto simp: ms_def)
  ultimately show ?thesis by (rule that)
qed

lemma true_report_matches:
  assumes "amd_stream pdus pieces closed" "am_inv pdus pieces closed ns e" "report_true e info"
  shows "report_matches ns info"
proof -
  let ?k = "next_missing ns" and ?d = "RLC_AM_DIFF_SN (int (ack_sn info)) (vr_r e)"
  obtain xs j where i: "vr_r e = sn_mod ?k" "vr_ms e = sn_mod j" "?k \<le> j" "j \<le> vr_top ns" "vr_top ns \<le> ?k + 512"
      "receiver_buffer e = map (element pdus) xs" "set xs = {n \<in> set ns. ?k < n}" "\<forall>m \<in> set xs. ?k < m \<and> m < ?k + 512"
    using assms(2) unfolding am_inv_def am_window_def Let_def buffers_def by blast
  define a where "a = ?k + nat ?d"
  have ms: "RLC_AM_DIFF_SN (vr_ms e) (vr_r e) \<le> 512" unfolding i(1,2) using am_diff [of ?k j] i(3-5) by simp
  have d: "0 \<le> ?d" "?d \<le> 512"
    using diff_range(1) order_trans [OF _ ms, of ?d] assms(3) by (simp_all only: report_true_def)
  then have a: "?d = int a - int ?k" by (simp add: a_def)
  have ack: "int (ack_sn info) = sn_mod a"
  proof -
    have "sn_mod a = (vr_r e + ?d) mod 1024" unfolding i(1) a [unfolded i(1)] by (simp add: mod_add_left_eq)
    also have "\<dots> = int (ack_sn info) mod 1024" unfolding RLC_AM_DIFF_SN_def RLC_AM_SN_MODULO_def by (simp add: mod_add_right_eq)
    finally show ?thesis using assms(3) by (simp add: report_true_def)
  qed
  have sn: "rx_sn (element pdus m) = sn_mod m" for m by (rule element_facts(3) [OF assms(1)])
  have nacked: "m \<in> set ns \<or> (\<exists>nack \<in> set (nack_list info). int (nack_sn nack) = sn_mod m)" if "m < a" for m
  proof (cases "m \<in> set ns")
    case False
    have m: "?k \<le> m" by (rule not_missing_ge [OF False])
    then have "settled (nack_list info) (receiver_buffer e) (sn_mod m)"
      using assms(3) am_diff [of ?k m] that d i(1) by (auto simp: report_true_def a_def)
    then have "nacked (nack_list info) (sn_mod m) 0 \<or> received (receiver_buffer e) (sn_mod m) 0" by (auto simp: settled_def)
    moreover have "\<not> received (receiver_buffer e) (sn_mod m) 0"
    proof -
      have "sn_mod n \<noteq> sn_mod m" if "n \<in> set xs" for n
      proof -
        have "n \<in> {n \<in> set ns. ?k < n}" using that unfolding i(7) .
        then have "n \<noteq> m" "?k < n" "n < ?k + 512" using that i(8) False by auto
        moreover have "m \<le> ?k + 512" using \<open>m < a\<close> d(2) by (simp add: a_def)
        ultimately show ?thesis using m sn_mod_eq [of n m] by simp
      qed
      then show ?thesis by (auto simp: received_def i(6) sn)
    qed
    ultimately show ?thesis by (auto simp: nacked_def)
  qed simp
  have whole: "int (nack_sn nack) \<noteq> sn_mod m" if "nack \<in> set (nack_list info)" "\<not> nack_e2 nack" "m \<in> set ns" "?k < m" for nack m
  proof -
    have "m \<in> set xs" unfolding i(7) using that(3,4) by simp
    then have "element pdus m \<in> set (receiver_buffer e)" unfolding i(6) by simp
    then have "rx_sn (element pdus m) \<noteq> int (nack_sn nack)" using assms(3) that(1,2) unfolding report_true_def by blast
    then show ?thesis unfolding sn by simp
  qed
  have complete: "\<forall>c \<in> set (receiver_buffer e). all_segments_received c" unfolding i(6) by (auto simp: element_def)
  then have "wholes (sn_mod ?k) ?d (nack_list info)" using assms(3) i(1) by (simp add: report_true_def)
  then obtain ms where ms: "nacks_name (nack_list info) ms" "sorted_wrt (<) ms" "\<forall>m \<in> set ms. ?k \<le> m \<and> int m < int ?k + ?d" by (rule wholes_named)
  have named: "sn_mod m \<in> (\<lambda>n. int (nack_sn n)) ` set (nack_list info) \<longleftrightarrow> sn_mod m \<in> sn_mod ` set ms" for m
    using ms(1) unfolding nacks_name_def by (metis list.set_map)
  have e2: "\<not> nack_e2 nack" if "nack \<in> set (nack_list info)" for nack
    using assms(3) complete that unfolding report_true_def by (auto dest!: wholes_fields(1))
  have "m \<in> set ms \<longleftrightarrow> ?k \<le> m \<and> m < a \<and> m \<notin> set ns" for m
  proof
    assume m: "m \<in> set ms"
    then have r: "?k \<le> m" "m < a" using ms(3) a by auto
    have "sn_mod m \<in> sn_mod ` set ms" using m by (rule imageI)
    then obtain nack where n: "nack \<in> set (nack_list info)" "sn_mod m = int (nack_sn nack)" unfolding named [symmetric] by (rule imageE)
    then have "m \<notin> set ns \<or> \<not> ?k < m" using whole [OF n(1) e2 [OF n(1)], of m] n(2) by argo
    then show "?k \<le> m \<and> m < a \<and> m \<notin> set ns" using r next_missing_least(1) [of ns] by (cases "m = ?k") auto
  next
    assume m: "?k \<le> m \<and> m < a \<and> m \<notin> set ns"
    then obtain nack where "nack \<in> set (nack_list info)" "int (nack_sn nack) = sn_mod m" using nacked [of m] by blast
    then have "sn_mod m \<in> sn_mod ` set ms" unfolding named [symmetric] by (intro image_eqI [of _ _ nack]) simp_all
    then obtain n where n: "sn_mod m = sn_mod n" "n \<in> set ms" by (rule imageE)
    then have "?k \<le> n" "n < a" using ms(3) a by auto
    then have "m \<le> n + 1023" "n \<le> m + 1023" using m d(2) a by linarith+
    then have "m = n" using n(1) sn_mod_eq [of m n] by blast
    then show "m \<in> set ms" using n(2) by simp
  qed
  then have "set (filter (\<lambda>m. m \<notin> set ns) [?k..<a]) = set ms" by auto
  moreover have "sorted_wrt (<) (filter (\<lambda>m. m \<notin> set ns) [?k..<a])" by (simp add: sorted_wrt_filter)
  ultimately have "ms = filter (\<lambda>m. m \<notin> set ns) [?k..<a]" using strict_sorted_equal [OF ms(2)] by metis
  moreover have "a \<le> vr_top ns"
  proof -
    have "?d \<le> RLC_AM_DIFF_SN (vr_ms e) (vr_r e)" using assms(3) by (simp add: report_true_def)
    also have "\<dots> = int j - int ?k" unfolding i(1,2) using am_diff [of ?k j] i(3-5) by simp
    finally have "int a \<le> int j" unfolding a by linarith
    then show ?thesis using i(4) by linarith
  qed
  moreover have "?k \<le> a" unfolding a_def by (rule le_add1)
  ultimately show ?thesis unfolding report_matches_def using ms(1) ack by blast
qed

text \<open>The allocator as the report uses it: the octets of the block alone.\<close>

definition am_blocks :: "am_allocator \<Rightarrow> nat \<Rightarrow> octet list option" where
  "am_blocks alloc n = map_option snd (alloc n)"

lemma report_after_history:
  assumes "amd_stream pdus pieces closed" "admissible [] evs" "2 \<le> grant" "grant \<le> 1537"
    and "\<forall>n. \<exists>addr block. alloc n = Some (addr, block) \<and> n \<le> length block"
  shows "\<exists>e e' pdu info. am_run alloc pdus evs (am_start duration) = Some e \<and>
    rlc_am_send_status_pdu (am_blocks alloc) (e\<lparr>am_nb_bytes_requested_by_mac := grant\<rparr>) = Some e' \<and> control_pdu_list e' = pdu # control_pdu_list e \<and>
    int (length pdu) \<le> grant \<and> (\<forall>rest total. rlc_am_get_control_pdu_infos (pdu @ rest) total = Some (0, total - int (length pdu), info)) \<and>
    report_matches (arrived [] evs) info"
proof -
  have "blocks_available alloc" using assms(5) by (simp add: blocks_available_def)
  moreover have blocks: "\<forall>n. \<exists>block. am_blocks alloc n = Some block \<and> n \<le> length block" using assms(5) by (force simp: am_blocks_def)
  ultimately obtain e where e: "am_run alloc pdus evs (am_start duration) = Some e" "am_inv pdus pieces closed (arrived [] evs) e"
    using am_run_inv [OF assms(1) _ am_start_inv assms(2)] by blast
  let ?e = "e\<lparr>am_nb_bytes_requested_by_mac := grant\<rparr>"
  have inv: "am_inv pdus pieces closed (arrived [] evs) ?e" using e(2) am_inv_cong [of ?e e] by simp
  have g: "2 \<le> am_nb_bytes_requested_by_mac ?e" "am_nb_bytes_requested_by_mac ?e \<le> 1537" using assms(3,4) by simp_all
  obtain pdu info where r: "rlc_am_send_status_pdu (am_blocks alloc) ?e =
      Some (?e\<lparr>am_nb_bytes_requested_by_mac := am_nb_bytes_requested_by_mac ?e - int (length pdu), control_pdu_list := pdu # control_pdu_list ?e,
               stat_tx_control_pdu := stat_tx_control_pdu ?e + 1, stat_tx_control_bytes := stat_tx_control_bytes ?e + of_nat (length pdu)\<rparr>)"
      "int (length pdu) \<le> am_nb_bytes_requested_by_mac ?e"
      "\<forall>rest total. rlc_am_get_control_pdu_infos (pdu @ rest) total = Some (0, total - int (length pdu), info)" "report_true ?e info"
    using send_status_pdu_sound [OF inv_rx_ok [OF assms(1) inv] g blocks] by blast
  show ?thesis
    using e(1) r(1-3) true_report_matches [OF assms(1) inv r(4)] by (intro exI [of _ e] exI conjI) (assumption | simp)+
qed

text \<open>
  C14. Receiver and report together. After any such history and a grant of 2 to 1537 octets, \<open>rlc_am_send_status_pdu\<close> returns, and what the peer
  decodes from its PDU matches the history: ACK_SN lies between the first PDU missing and the one behind the last that has arrived, and the NACKs name, as
  whole PDUs and in ascending order, exactly the PDUs before ACK_SN that have not arrived. The peer can drop the others.
\<close>

theorem am_report_after_history:
  assumes "amd_stream pdus pieces closed" "admissible [] evs" "2 \<le> grant" "grant \<le> 1537"
    and "\<forall>n. \<exists>addr block. alloc n = Some (addr, block) \<and> n \<le> length block"
  shows "\<exists>e e' pdu info. am_run alloc pdus evs (am_start duration) = Some e \<and>
    rlc_am_send_status_pdu (am_blocks alloc) (e\<lparr>am_nb_bytes_requested_by_mac := grant\<rparr>) = Some e' \<and> control_pdu_list e' = pdu # control_pdu_list e \<and>
    int (length pdu) \<le> grant \<and> (\<forall>rest total. rlc_am_get_control_pdu_infos (pdu @ rest) total = Some (0, total - int (length pdu), info)) \<and>
    report_matches (arrived [] evs) info"
  by (rule report_after_history [OF assms])

text \<open>After the example PDUs 0 to 3 and 5 have arrived, and 4 has not.\<close>

theorem am_report_after_history_witness:
  "\<exists>e e' pdu info. am_run example_alloc example_pdu example_history (am_start 35) = Some e \<and>
    rlc_am_send_status_pdu (am_blocks example_alloc) (e\<lparr>am_nb_bytes_requested_by_mac := 20\<rparr>) = Some e' \<and> control_pdu_list e' = pdu # control_pdu_list e \<and>
    length pdu \<le> 20 \<and> rlc_am_get_control_pdu_infos pdu 30 = Some (0, 30 - int (length pdu), info) \<and> report_matches [2, 5, 1, 3, 0, 1] info"
proof -
  have a: "arrived [] example_history = [2, 5, 1, 3, 0, 1]" by (simp add: example_history_def)
  have g: "2 \<le> (20 :: int)" "(20 :: int) \<le> 1537" "\<forall>n. \<exists>addr block. example_alloc n = Some (addr, block) \<and> n \<le> length block"
    by (simp_all add: example_alloc_def)
  obtain e e' pdu info where "am_run example_alloc example_pdu example_history (am_start 35) = Some e"
      "rlc_am_send_status_pdu (am_blocks example_alloc) (e\<lparr>am_nb_bytes_requested_by_mac := 20\<rparr>) = Some e'" "control_pdu_list e' = pdu # control_pdu_list e"
      "int (length pdu) \<le> 20" "\<forall>rest total. rlc_am_get_control_pdu_infos (pdu @ rest) total = Some (0, total - int (length pdu), info)"
      "report_matches (arrived [] example_history) info"
    using am_report_after_history [OF example_stream example_admissible(1) g, of 35] by blast
  moreover from this(5) have "rlc_am_get_control_pdu_infos pdu 30 = Some (0, 30 - int (length pdu), info)" by (metis append_Nil2)
  ultimately show ?thesis unfolding a by (intro exI [of _ e] exI [of _ e'] exI [of _ pdu] exI [of _ info]) simp
qed

end
