(* ===== verification/RlcAmSegments.thy ===== *)
theory RlcAmSegments
  imports RlcAmRx
begin

text \<open>
  PDU segments in the receiver buffer of RLC acknowledged mode: what happens when a retransmission overlaps segments that are stored.
\<close>

section \<open>Retransmission of a whole PDU\<close>

text \<open>
  C36. A PDU that is retransmitted whole aborts the receiver when segments of it are all that is stored (and it is not VR(R), or its first segment is
  missing): \<open>rlc_am_rx_list_handle_pdu\<close> discards the segments and then inserts the PDU before an element that does not exist.
\<close>

theorem am_whole_pdu_aborts:
  assumes "receiver_buffer e \<noteq> []" "\<forall>c \<in> set (receiver_buffer e). rx_sn c = rx_sn tb \<and> \<not> all_segments_received c" "\<not> rx_rf tb"
    and "rx_sn tb \<noteq> vr_r e \<or> rx_so (hd (receiver_buffer e)) \<noteq> 0"
  shows "rlc_am_rx_list_check_duplicate_insert_pdu alloc tb e = None"
proof -
  obtain c cs where b: "receiver_buffer e = c # cs" using assms(1) by (cases "receiver_buffer e") auto
  have "\<not> sn_before e tb c" using assms(2) b by (simp add: sn_before_def)
  then have t: "takeWhile (sn_before e tb) (receiver_buffer e) = []" "dropWhile (sn_before e tb) (receiver_buffer e) = c # cs" by (simp_all add: b)
  have d: "dropWhile (\<lambda>d. rx_sn d = rx_sn tb) (c # cs) = []" using assms(2) b by simp
  have c: "rx_sn c = rx_sn tb" "\<not> all_segments_received c" "rx_sn tb \<noteq> vr_r e \<or> rx_so c \<noteq> 0" using assms(2,4) b by simp_all
  show ?thesis
    unfolding rlc_am_rx_list_check_duplicate_insert_pdu_def rlc_am_rx_list_handle_pdu_def Let_def t d using assms(1,3) c by simp
qed

text \<open>VR(R) is 4, the second half of PDU 5 is stored, and PDU 5 is retransmitted whole.\<close>

theorem am_whole_pdu_aborts_witness:
  "rlc_am_rx_list_check_duplicate_insert_pdu (\<lambda>n. Some (0, replicate n 0)) (pdu_of 5 [1, 2, 3, 4])
     (rlc_am_init\<lparr>vr_r := 4, receiver_buffer := [segment_of 5 2 [3, 4] True]\<rparr>) = None"
  by (rule am_whole_pdu_aborts) (simp_all add: pdu_of_def segment_of_def)

section \<open>Segments that are cut\<close>

text \<open>
  C37. A segment that is cut out of a PDU to fill a gap is stored under a false label. \<open>create_new_segment_from_pdu\<close> writes the descriptor of a transport
  block over the information of the new segment, so that its sequence number and its offset are bits of the address of the block, and with
  blocks at multiples of eight octets it no longer counts as a segment.
\<close>

theorem am_cut_segment_mislabelled:
  assumes "create_new_segment_from_pdu alloc c so n = Some (Some d)" "\<forall>k addr block. alloc k = Some (addr, block) \<longrightarrow> addr AND 7 = 0"
  shows "\<not> rx_rf d \<and> \<not> rx_p d \<and> (\<exists>k addr block. alloc k = Some (addr, block) \<and>
    rx_sn d = uint (drop_bit 6 (addr + 288) AND 0x3FF) \<and> rx_so d = uint (drop_bit 17 (addr + 288) AND 0x7FFF))"
proof -
  obtain k addr block size seg where d: "alloc k = Some (addr, block)" "d = am_store_tb_ind (addr + 288) size block seg"
    using assms(1) unfolding create_new_segment_from_pdu_def mac_rlc_max_rx_header_size_def
    by (cases "am_cut_framing c so n") (auto simp: Let_def split: option.splits Option.bind_splits if_splits)
  have low: "uint (x AND 7) = uint x mod 8" for x :: "64 word"
  proof -
    have "x AND 7 = take_bit 3 x" by (simp add: take_bit_eq_mask mask_numeral)
    then show ?thesis by (simp add: take_bit_eq_mod uint_mod)
  qed
  have "addr AND 7 = 0" using assms(2) d(1) by blast
  then have "uint (addr AND 7) = 0" by simp
  then have z: "uint addr mod 8 = 0" by (simp add: low)
  have "uint (addr + 288) mod 8 = (uint addr + 288) mod 2 ^ 64 mod 8" by (simp add: uint_word_ariths)
  also have "\<dots> = (uint addr + 288) mod 8" by (rule mod_mod_cancel) simp
  also have "\<dots> = 0" using z by presburger
  finally have "(addr + 288) AND 7 = 0" by (simp add: low flip: uint_0_iff)
  then have "\<not> bit ((addr + 288) AND 7) 1" "\<not> bit ((addr + 288) AND 7) 2" by simp_all
  then have "\<not> bit (addr + 288) 1" "\<not> bit (addr + 288) 2" by (simp_all add: bit_and_iff)
  then show ?thesis using d by (auto simp: am_store_tb_ind_def Let_def)
qed

text \<open>The second half of PDU 5, cut out for a block at address 4096, is stored as PDU 68.\<close>

theorem am_cut_segment_mislabelled_witness:
  "map_option (map_option (\<lambda>d. (rx_rf d, rx_sn d))) (create_new_segment_from_pdu (\<lambda>n. Some (4096, replicate n 0)) (pdu_of 5 [1, 2, 3, 4]) 2 2) =
    Some (Some (False, 68))"
proof -
  let ?alloc = "\<lambda>n. Some (4096, replicate n 0) :: (64 word \<times> octet list) option"
  have "\<exists>d. create_new_segment_from_pdu ?alloc (pdu_of 5 [1, 2, 3, 4]) 2 2 = Some (Some d)"
    by (simp add: create_new_segment_from_pdu_def am_cut_framing_def pdu_of_def segment_of_def am_slice_def RLC_AM_PDU_SEGMENT_HEADER_MIN_SIZE_def
        am_header_li_length_def mac_rlc_max_rx_header_size_def)
  then obtain d where d: "create_new_segment_from_pdu ?alloc (pdu_of 5 [1, 2, 3, 4]) 2 2 = Some (Some d)" ..
  have "\<forall>k addr block. ?alloc k = Some (addr, block) \<longrightarrow> addr AND 7 = 0" by simp
  then show ?thesis using am_cut_segment_mislabelled [OF d] d by auto
qed

section \<open>Overlap behind a gap\<close>

text \<open>
  Octets 0 to 9 and 20 to 29 of PDU 5 are stored. A segment with the octets 25 to 39 discards the second one (it ends within the new one), is then left uncut, and the
  last assertion fails.
\<close>

lemma overlap_behind_gap_aborts:
  "rlc_am_rx_list_handle_pdu_segment alloc (segment_of 5 25 (replicate 15 0) False)
     (rlc_am_init\<lparr>vr_r := 5, receiver_buffer := [segment_of 5 0 (replicate 10 0) False, segment_of 5 20 (replicate 10 0) False]\<rparr>) = None"
  by (simp add: rlc_am_rx_list_handle_pdu_segment_def insert_behind_def insert_cut_def drop_embedded_def cut_end_def sn_before_def segment_of_def
      RLC_AM_DIFF_SN_def RLC_AM_SN_MODULO_def u16_def)

text \<open>With the octets 35 to 49 stored too, the discarded octets 20 to 24 are lost.\<close>

lemma overlap_behind_gap_loses:
  assumes "create_new_segment_from_pdu alloc (segment_of 5 25 (replicate 15 0) False) 0 10 = Some (Some d)"
  shows "rlc_am_rx_list_handle_pdu_segment alloc (segment_of 5 25 (replicate 15 0) False)
     (rlc_am_init\<lparr>vr_r := 5, receiver_buffer := [segment_of 5 0 (replicate 10 0) False, segment_of 5 20 (replicate 10 0) False,
        segment_of 5 35 (replicate 15 0) False]\<rparr>) =
     Some (RLC_AM_DATA_PDU_STATUS_OK, Not_Stored [segment_of 5 0 (replicate 10 0) False, d, segment_of 5 35 (replicate 15 0) False])"
  using assms
  by (simp add: rlc_am_rx_list_handle_pdu_segment_def insert_behind_def insert_cut_def drop_embedded_def cut_end_def sn_before_def segment_of_def
      RLC_AM_DIFF_SN_def RLC_AM_SN_MODULO_def u16_def)

section \<open>Timers and status triggers\<close>

text \<open>When t-Reordering expires it is not running any more, also when VR(MS) has not reached VR(H) and VR(X) has been set for the next expiry.\<close>

lemma reordering_not_restarted:
  assumes "am_running (am_t_reordering e)" "am_timer_expired now (am_t_reordering e)" "rlc_am_check_timer_reordering now e = Some e'"
  shows "\<not> am_running (am_t_reordering e')"
  using assms by (auto simp: rlc_am_check_timer_reordering_def am_clear_delayed_def Let_def split: if_splits)

text \<open>Re-establishment leaves the timers running and VR(X) undefined: the next expiry fails.\<close>

lemma expiry_after_reestablish:
  assumes "am_running (am_t_reordering e)" "am_timer_expired now (am_t_reordering e)"
  shows "rlc_am_check_timer_reordering now (rlc_am_reestablish e) = None"
  using assms by (simp add: rlc_am_check_timer_reordering_def rlc_am_reestablish_def)

text \<open>\<open>sn_status_triggered_delayed\<close> is of a signed type and never equal to \<open>RLC_SN_UNDEFINED\<close>: no poll is put off.\<close>

lemma poll_never_delayed:
  assumes "sn_status_triggered_delayed e < 32768" "status_requested e AND RLC_AM_STATUS_TRIGGERED_DELAYED = 0"
  shows "status_requested (am_handle_poll tb status e) AND RLC_AM_STATUS_TRIGGERED_DELAYED = 0"
proof -
  have "sn_status_triggered_delayed e \<noteq> RLC_SN_UNDEFINED" using assms(1) by (simp add: RLC_SN_UNDEFINED_def)
  moreover have "(status_requested e OR RLC_AM_STATUS_TRIGGERED_POLL) AND RLC_AM_STATUS_TRIGGERED_DELAYED = 0"
    unfolding bit.conj_disj_distrib2 using assms(2) by (simp add: RLC_AM_STATUS_TRIGGERED_POLL_def RLC_AM_STATUS_TRIGGERED_DELAYED_def)
  moreover have "(x AND NOT RLC_AM_STATUS_TRIGGERED_DELAYED) AND RLC_AM_STATUS_TRIGGERED_DELAYED = 0" for x by (simp add: and.assoc)
  ultimately show ?thesis using assms(2) by (simp add: am_handle_poll_def am_clear_delayed_def Let_def)
qed

text \<open>
  Re-establishment does not discard the SDU under construction: its first octets, received before, are delivered as an SDU when the first PDU after it
  begins another one.
\<close>

lemma partial_sdu_after_reestablish:
  "map_option am_delivered (do {
     e1 \<leftarrow> rlc_am_receive_process_data_pdu (\<lambda>n. Some (0, replicate 16 0)) 0 [0x88, 0, 1] rlc_am_init;
     rlc_am_receive_process_data_pdu (\<lambda>n. Some (0, replicate 16 0)) 0 [0x80, 0, 2, 3] (rlc_am_reestablish e1) }) = Some [[1], [2, 3]]"
  by code_simp

end
