(* ===== verification/RlcAmTx.thy ===== *)
theory RlcAmTx
  imports RlcAmStatus
begin

text \<open>
  The transmitting side of RLC acknowledged mode: the entity with its SDUs and its transmission buffer, polling and t-PollRetransmit, and what a STATUS
  PDU does to them (\<open>rlc_am_in_sdu.c\<close>, \<open>rlc_am_retransmit.c\<close>, \<open>rlc_am_timer_poll_retransmit.c\<close>, \<open>rlc_am_segment.c\<close>,
  \<open>rlc_am_receive_process_control_pdu\<close>). Frame counters and statistics are left out. Arrays with a counter (\<open>sdus_index\<close>, \<open>hole_so_start\<close> and
  \<open>hole_so_stop\<close>, \<open>pdus_index\<close>) are lists of that length. A block is what it holds behind its header: the octets of an SDU from \<open>first_byte\<close> on, and a
  PDU behind \<open>struct mac_tb_req\<close>, in which \<open>payload\<close> is an offset. \<open>None\<close> as a result is an assertion that fails.
\<close>

section \<open>The entity\<close>

definition RLC_AM_SDU_CONTROL_BUFFER_SIZE :: nat where "RLC_AM_SDU_CONTROL_BUFFER_SIZE = 1024"
definition RLC_AM_MAX_HOLES_REPORT_PER_PDU :: nat where "RLC_AM_MAX_HOLES_REPORT_PER_PDU = 16"
definition RLC_AM_POLL_PDU_INFINITE :: "32 word" where "RLC_AM_POLL_PDU_INFINITE = 0xFFFF"
definition RLC_AM_POLL_BYTE_INFINITE :: "32 word" where "RLC_AM_POLL_BYTE_INFINITE = 0xFFFFFFFF"

definition RLC_AM_PREV_SN :: "int \<Rightarrow> int" where
  "RLC_AM_PREV_SN sn = (sn + RLC_AM_SN_MODULO - 1) mod RLC_AM_SN_MODULO"

definition s8 :: "int \<Rightarrow> int" where
  "s8 x = (x + 128) mod 256 - 128"

record rlc_am_tx_sdu =
  am_sdu_block :: "octet list option"
  am_sdu_mui :: "32 word"
  am_sdu_remaining_size :: int
  am_sdu_segmented_size :: int
  am_sdu_size :: int
  am_sdu_pdus_index :: "int list"
  am_sdu_nb_pdus_ack :: nat
  am_sdu_transmitted_successfully :: bool

record rlc_am_tx_pdu =
  tx_mem_block :: "octet list option"
  tx_sdus_index :: "int list"
  tx_holes :: "(int \<times> int) list"
  tx_retx_hole_index :: nat
  tx_payload :: nat
  tx_header_and_payload_size :: int
  tx_payload_size :: int
  tx_retx_payload_size :: int
  tx_sn :: int
  tx_nack_so_start :: int
  tx_nack_so_stop :: int
  tx_retx_count :: int
  tx_retx_count_next :: int
  tx_transmitted :: bool
  tx_ack :: bool
  tx_nack :: bool
  tx_retransmit :: bool
  tx_max_retransmit :: bool

text \<open>\<open>am_confirmed\<close> lists the message unit identifiers passed to \<open>rlc_data_conf\<close>.\<close>

record rlc_am_tx_entity =
  am_input_sdus :: "rlc_am_tx_sdu list"
  am_nb_sdu :: int
  am_nb_sdu_no_segmented :: int
  am_next_sdu_index :: nat
  am_current_sdu_index :: nat
  tx_data_pdu_buffer :: "rlc_am_tx_pdu list"
  retrans_num_pdus :: int
  retrans_num_bytes_to_retransmit :: int
  force_poll :: bool
  vt_a :: int
  vt_ms :: int
  vt_s :: int
  poll_sn :: int
  am_t_poll_retransmit :: rlc_am_timer
  c_pdu_without_poll :: "32 word"
  c_byte_without_poll :: "32 word"
  max_retx_threshold :: int
  poll_pdu :: "32 word"
  poll_byte :: "32 word"
  am_sdu_buffer_occupancy :: int
  am_segmentation_pdu_list :: "octet list list"
  am_pdus_to_mac_layer :: "octet list list"
  am_confirmed :: "32 word list"

definition am_no_sdu :: rlc_am_tx_sdu where
  "am_no_sdu = \<lparr>am_sdu_block = None, am_sdu_mui = 0, am_sdu_remaining_size = 0, am_sdu_segmented_size = 0, am_sdu_size = 0, am_sdu_pdus_index = [],
     am_sdu_nb_pdus_ack = 0, am_sdu_transmitted_successfully = False\<rparr>"

definition am_no_pdu :: rlc_am_tx_pdu where
  "am_no_pdu = \<lparr>tx_mem_block = None, tx_sdus_index = [], tx_holes = [], tx_retx_hole_index = 0, tx_payload = 0, tx_header_and_payload_size = 0, tx_payload_size = 0,
     tx_retx_payload_size = 0, tx_sn = 0, tx_nack_so_start = 0, tx_nack_so_stop = 0, tx_retx_count = 0, tx_retx_count_next = 0, tx_transmitted = False,
     tx_ack = False, tx_nack = False, tx_retransmit = False, tx_max_retransmit = False\<rparr>"

text \<open>The transmitting side of \<open>rlc_am_init\<close>, \<open>rlc_am_reestablish\<close> and \<open>rlc_am_configure\<close>.\<close>

definition rlc_am_init_tx :: rlc_am_tx_entity where
  "rlc_am_init_tx = \<lparr>am_input_sdus = replicate RLC_AM_SDU_CONTROL_BUFFER_SIZE am_no_sdu, am_nb_sdu = 0, am_nb_sdu_no_segmented = 0, am_next_sdu_index = 0,
     am_current_sdu_index = 0, tx_data_pdu_buffer = replicate (nat RLC_AM_WINDOW_SIZE) am_no_pdu, retrans_num_pdus = 0,
     retrans_num_bytes_to_retransmit = 0, force_poll = False, vt_a = 0, vt_ms = RLC_AM_WINDOW_SIZE, vt_s = 0, poll_sn = 0,
     am_t_poll_retransmit = am_no_timer, c_pdu_without_poll = 0, c_byte_without_poll = 0, max_retx_threshold = 0, poll_pdu = 0, poll_byte = 0,
     am_sdu_buffer_occupancy = 0, am_segmentation_pdu_list = [], am_pdus_to_mac_layer = [], am_confirmed = []\<rparr>"

definition rlc_am_reestablish_tx :: "rlc_am_tx_entity \<Rightarrow> rlc_am_tx_entity" where
  "rlc_am_reestablish_tx e = e\<lparr>am_pdus_to_mac_layer := [], am_segmentation_pdu_list := [], vt_a := 0, vt_ms := RLC_AM_WINDOW_SIZE, vt_s := 0, poll_sn := 0, c_pdu_without_poll := 0, c_byte_without_poll := 0\<rparr>"

section \<open>t-PollRetransmit (rlc_am_timer_poll_retransmit.c)\<close>

definition rlc_am_stop_and_reset_timer_poll_retransmit :: "rlc_am_tx_entity \<Rightarrow> rlc_am_tx_entity" where
  "rlc_am_stop_and_reset_timer_poll_retransmit e = e\<lparr>am_t_poll_retransmit := am_timer_reset (am_t_poll_retransmit e)\<rparr>"

definition rlc_am_start_timer_poll_retransmit :: "32 word \<Rightarrow> rlc_am_tx_entity \<Rightarrow> rlc_am_tx_entity" where
  "rlc_am_start_timer_poll_retransmit now e =
     (let e1 = rlc_am_stop_and_reset_timer_poll_retransmit e; t = am_t_poll_retransmit e1
      in if am_ms_duration t > 0
         then e1\<lparr>am_t_poll_retransmit := t\<lparr>am_running := True, am_ms_time_out := now + am_ms_duration t, am_ms_start := now\<rparr>\<rparr>
         else e1)"

definition rlc_am_init_timer_poll_retransmit :: "32 word \<Rightarrow> rlc_am_tx_entity \<Rightarrow> rlc_am_tx_entity" where
  "rlc_am_init_timer_poll_retransmit ms_duration e = e\<lparr>am_t_poll_retransmit := am_no_timer\<lparr>am_ms_duration := ms_duration\<rparr>\<rparr>"

abbreviation tx_index :: "int \<Rightarrow> nat" where
  "tx_index sn \<equiv> nat (sn mod RLC_AM_WINDOW_SIZE)"

abbreviation tx_pdu :: "rlc_am_tx_entity \<Rightarrow> int \<Rightarrow> rlc_am_tx_pdu" where
  "tx_pdu e sn \<equiv> tx_data_pdu_buffer e ! tx_index sn"

abbreviation set_tx_pdu :: "int \<Rightarrow> rlc_am_tx_pdu \<Rightarrow> rlc_am_tx_entity \<Rightarrow> rlc_am_tx_entity" where
  "set_tx_pdu sn p e \<equiv> e\<lparr>tx_data_pdu_buffer := (tx_data_pdu_buffer e)[tx_index sn := p]\<rparr>"

text \<open>From VT(S) - 1 down, the first PDU that can be retransmitted; \<open>n\<close> bounds the rounds. An empty block is an assertion that fails.\<close>

fun poll_candidate :: "nat \<Rightarrow> rlc_am_tx_entity \<Rightarrow> int \<Rightarrow> int \<Rightarrow> int option option" where
  "poll_candidate 0 e sn sn_end = None"
| "poll_candidate (Suc n) e sn sn_end =
     (if sn = sn_end then Some None
      else if tx_mem_block (tx_pdu e sn) = None then None
      else if \<not> tx_ack (tx_pdu e sn) \<and> \<not> tx_max_retransmit (tx_pdu e sn) then Some (Some sn)
      else poll_candidate n e (RLC_AM_PREV_SN sn) sn_end)"

definition poll_retransmit :: "int \<Rightarrow> rlc_am_tx_entity \<Rightarrow> rlc_am_tx_entity" where
  "poll_retransmit sn e =
     (let p = tx_pdu e sn
      in (set_tx_pdu sn (p\<lparr>tx_retransmit := True, tx_retx_payload_size := tx_payload_size p,
            tx_retx_count_next := (if tx_retx_count p = tx_retx_count_next p then s8 (tx_retx_count_next p + 1) else tx_retx_count_next p)\<rparr>) e)
         \<lparr>retrans_num_pdus := retrans_num_pdus e + 1, retrans_num_bytes_to_retransmit := retrans_num_bytes_to_retransmit e + tx_payload_size p\<rparr>)"

definition rlc_am_check_timer_poll_retransmit :: "32 word \<Rightarrow> rlc_am_tx_entity \<Rightarrow> rlc_am_tx_entity option" where
  "rlc_am_check_timer_poll_retransmit now e =
     (if am_running (am_t_poll_retransmit e) \<and> am_timer_expired now (am_t_poll_retransmit e) then do {
        let e1 = e\<lparr>am_t_poll_retransmit := (am_t_poll_retransmit e)\<lparr>am_running := False, am_timed_out := True\<rparr>\<rparr>;
        e2 \<leftarrow> (if am_sdu_buffer_occupancy e1 = 0 \<and> retrans_num_bytes_to_retransmit e1 = 0 \<or> vt_s e1 = vt_ms e1 then do {
                 found \<leftarrow> poll_candidate 1025 e1 (RLC_AM_PREV_SN (vt_s e1)) (RLC_AM_PREV_SN (vt_a e1));
                 Some (case found of None \<Rightarrow> e1 | Some sn \<Rightarrow> poll_retransmit sn e1) }
               else Some e1);
        Some (e2\<lparr>force_poll := True\<rparr>) }
      else Some e)"

section \<open>SDUs (rlc_am_in_sdu.c)\<close>

text \<open>The loop moves \<open>current_sdu_index\<close> at most once around the buffer.\<close>

fun skip_successful :: "nat \<Rightarrow> rlc_am_tx_entity \<Rightarrow> rlc_am_tx_entity" where
  "skip_successful 0 e = e"
| "skip_successful (Suc n) e =
     (if am_current_sdu_index e \<noteq> am_next_sdu_index e \<and> am_sdu_transmitted_successfully (am_input_sdus e ! am_current_sdu_index e)
      then skip_successful n (e\<lparr>am_current_sdu_index := (am_current_sdu_index e + 1) mod RLC_AM_SDU_CONTROL_BUFFER_SIZE\<rparr>)
      else e)"

definition rlc_am_free_in_sdu :: "nat \<Rightarrow> rlc_am_tx_entity \<Rightarrow> rlc_am_tx_entity option" where
  "rlc_am_free_in_sdu index e =
     (if index > RLC_AM_SDU_CONTROL_BUFFER_SIZE then Some e
      else if \<not> index < length (am_input_sdus e) \<or> am_sdu_block (am_input_sdus e ! index) \<noteq> None then None
      else
        let e1 = e\<lparr>am_nb_sdu := am_nb_sdu e - 1, am_input_sdus := (am_input_sdus e)[index := am_no_sdu\<lparr>am_sdu_transmitted_successfully := True\<rparr>]\<rparr>;
            e2 = (if am_current_sdu_index e1 = index
                  then e1\<lparr>am_current_sdu_index := (am_current_sdu_index e1 + 1) mod RLC_AM_SDU_CONTROL_BUFFER_SIZE\<rparr> else e1)
        in Some (skip_successful RLC_AM_SDU_CONTROL_BUFFER_SIZE e2))"

definition rlc_am_free_in_sdu_data :: "nat \<Rightarrow> rlc_am_tx_entity \<Rightarrow> rlc_am_tx_entity option" where
  "rlc_am_free_in_sdu_data index e =
     (if index > RLC_AM_SDU_CONTROL_BUFFER_SIZE then Some e
      else if \<not> index < length (am_input_sdus e) then None
      else
        let s = am_input_sdus e ! index in
        if am_sdu_block s \<noteq> None
        then Some (e\<lparr>am_input_sdus := (am_input_sdus e)[index := s\<lparr>am_sdu_block := None, am_sdu_remaining_size := 0\<rparr>],
                     am_nb_sdu_no_segmented := am_nb_sdu_no_segmented e - 1\<rparr>)
        else Some e)"

definition rlc_am_in_sdu_is_empty :: "rlc_am_tx_entity \<Rightarrow> bool" where
  "rlc_am_in_sdu_is_empty e \<longleftrightarrow> am_nb_sdu e = 0"

text \<open>One SDU of an acknowledged PDU. \<open>nb_pdus_ack\<close> is an octet.\<close>

definition sdu_data_cnf :: "int \<Rightarrow> rlc_am_tx_entity \<Rightarrow> rlc_am_tx_entity option" where
  "sdu_data_cnf index e =
     (if \<not> (0 \<le> index \<and> index < int RLC_AM_SDU_CONTROL_BUFFER_SIZE \<and> nat index < length (am_input_sdus e)) then None
      else
        let s = am_input_sdus e ! nat index;
            s1 = s\<lparr>am_sdu_nb_pdus_ack := (am_sdu_nb_pdus_ack s + 1) mod 256\<rparr>;
            e1 = e\<lparr>am_input_sdus := (am_input_sdus e)[nat index := s1]\<rparr>
        in if am_sdu_nb_pdus_ack s1 = length (am_sdu_pdus_index s1) \<and> am_sdu_remaining_size s1 = 0
           then rlc_am_free_in_sdu (nat index) (e1\<lparr>am_confirmed := am_confirmed e1 @ [am_sdu_mui s1]\<rparr>)
           else Some e1)"

fun sdus_data_cnf :: "int list \<Rightarrow> rlc_am_tx_entity \<Rightarrow> rlc_am_tx_entity option" where
  "sdus_data_cnf [] e = Some e"
| "sdus_data_cnf (i # is) e = Option.bind (sdu_data_cnf i e) (sdus_data_cnf is)"

text \<open>\<open>nb_sdus\<close> is a signed octet.\<close>

definition rlc_am_pdu_sdu_data_cnf :: "int \<Rightarrow> rlc_am_tx_entity \<Rightarrow> rlc_am_tx_entity option" where
  "rlc_am_pdu_sdu_data_cnf sn e =
     (let is = tx_sdus_index (tx_pdu e sn) in sdus_data_cnf (take (nat (s8 (int (length is)))) is) e)"

section \<open>Acknowledgement of a PDU (rlc_am_retransmit.c)\<close>

text \<open>
  What a NACK does to the PDU: \<open>None\<close> when it is refused, otherwise the PDU, the octets to retransmit and whether RETX_COUNT is due for an increment.
\<close>

definition nack_whole :: "bool \<Rightarrow> rlc_am_tx_pdu \<Rightarrow> (rlc_am_tx_pdu \<times> int \<times> bool) option" where
  "nack_whole again p =
     (if \<not> again \<and> \<not> tx_ack p \<and> \<not> tx_max_retransmit p
      then Some (p\<lparr>tx_nack_so_start := 0, tx_holes := [], tx_retx_hole_index := 0, tx_nack_so_stop := tx_payload_size p - 1\<rparr>,
                 tx_payload_size p, \<not> tx_retransmit p \<or> tx_nack_so_start p \<noteq> 0)
      else None)"

definition nack_segment :: "bool \<Rightarrow> int \<Rightarrow> int \<Rightarrow> rlc_am_tx_pdu \<Rightarrow> (rlc_am_tx_pdu \<times> int \<times> bool) option" where
  "nack_segment again s t p =
     (let t1 = (if t = 0x7FFF then tx_payload_size p - 1 else t); n = t1 - s + 1
      in if tx_max_retransmit p \<or> \<not> (s \<le> t1 \<and> t1 < tx_payload_size p) then None
         else if \<not> again
         then Some (p\<lparr>tx_holes := [(s, t1)], tx_retx_hole_index := 0, tx_nack_so_start := s, tx_nack_so_stop := t1\<rparr>, n,
                    \<not> tx_retransmit p \<or> s < tx_nack_so_start p)
         else if tx_holes p \<noteq> [] \<and> length (tx_holes p) < RLC_AM_MAX_HOLES_REPORT_PER_PDU \<and> s > snd (last (tx_holes p))
         then Some (p\<lparr>tx_holes := tx_holes p @ [(s, t1)], tx_nack_so_stop := t1\<rparr>, n, False)
         else None)"

definition rlc_am_nack_pdu :: "int \<Rightarrow> int \<Rightarrow> int \<Rightarrow> int \<Rightarrow> rlc_am_tx_entity \<Rightarrow> (bool \<times> rlc_am_tx_entity) option" where
  "rlc_am_nack_pdu sn prev_nack_sn s t e =
     (let p = tx_pdu e sn; again = (prev_nack_sn = sn); full = (s = 0 \<and> t = 0x7FFF) in
      if tx_mem_block p = None then Some (False, e)
      else if \<not> s \<le> t then None
      else
        case (if full then nack_whole again p else nack_segment again s t p) of
          None \<Rightarrow> Some (False, e)
        | Some (p1, n, increment) \<Rightarrow>
            if full \<and> \<not> tx_nack_so_start p1 < tx_payload_size p1 then None
            else
              let p2 = p1\<lparr>tx_nack := True, tx_retx_count_next :=
                    (if increment \<and> tx_retx_count p1 = tx_retx_count_next p1 then s8 (tx_retx_count_next p1 + 1) else tx_retx_count_next p1)\<rparr> in
              Some (True,
                if tx_retransmit p2 then
                  if \<not> again
                  then (set_tx_pdu sn (p2\<lparr>tx_retx_payload_size := n\<rparr>) e)
                         \<lparr>retrans_num_bytes_to_retransmit := retrans_num_bytes_to_retransmit e + (n - tx_retx_payload_size p2)\<rparr>
                  else if length (tx_holes p2) > 1
                  then (set_tx_pdu sn (p2\<lparr>tx_retx_payload_size := tx_retx_payload_size p2 + n\<rparr>) e)
                         \<lparr>retrans_num_bytes_to_retransmit := retrans_num_bytes_to_retransmit e + n\<rparr>
                  else set_tx_pdu sn p2 e
                else (set_tx_pdu sn (p2\<lparr>tx_retransmit := True, tx_retx_payload_size := n\<rparr>) e)
                       \<lparr>retrans_num_bytes_to_retransmit := retrans_num_bytes_to_retransmit e + n, retrans_num_pdus := retrans_num_pdus e + 1\<rparr>))"

definition rlc_am_ack_pdu :: "int \<Rightarrow> bool \<Rightarrow> rlc_am_tx_entity \<Rightarrow> rlc_am_tx_entity option" where
  "rlc_am_ack_pdu sn free_pdu e =
     (let p = tx_pdu e sn; p1 = p\<lparr>tx_ack := True, tx_transmitted := False, tx_retransmit := False\<rparr> in
      if tx_mem_block p = None then Some (set_tx_pdu sn p1 e)
      else
        let p2 = (if free_pdu then p1\<lparr>tx_mem_block := None\<rparr> else p1) in
        if tx_retx_payload_size p \<noteq> 0 then
          if tx_ack p then None
          else Some ((set_tx_pdu sn (p2\<lparr>tx_retx_payload_size := 0, tx_holes := []\<rparr>) e)
                       \<lparr>retrans_num_bytes_to_retransmit := retrans_num_bytes_to_retransmit e - tx_retx_payload_size p,
                        retrans_num_pdus := retrans_num_pdus e - 1\<rparr>)
        else Some (set_tx_pdu sn p2 e))"

section \<open>Reception of a STATUS PDU (rlc_am_status_report.c)\<close>

text \<open>
  The loops over sequence numbers run to \<open>stop\<close>; all numbers are below 1024, which the recursion checks for its termination. They pass over a
  number at most once.
\<close>

definition sn_range :: "int \<Rightarrow> bool" where
  "sn_range sn \<longleftrightarrow> 0 \<le> sn \<and> sn < RLC_AM_SN_MODULO"

lemma sn_distance: "sn_range sn \<Longrightarrow> sn_range stop \<Longrightarrow> sn \<noteq> stop \<Longrightarrow>
  RLC_AM_DIFF_SN stop sn = RLC_AM_DIFF_SN stop (RLC_AM_NEXT_SN sn) + 1 \<and> 0 \<le> RLC_AM_DIFF_SN stop (RLC_AM_NEXT_SN sn)"
proof -
  assume a: "sn_range sn" "sn_range stop" "sn \<noteq> stop"
  have r: "0 \<le> RLC_AM_DIFF_SN stop (RLC_AM_NEXT_SN sn)" by (simp add: am_sn_defs)
  consider "sn < stop" "sn + 1 < 1024" | "stop < sn" "sn + 1 < 1024" | "stop < sn" "sn = 1023"
    using a by (force simp: sn_range_def RLC_AM_SN_MODULO_def)
  then show ?thesis
  proof cases
    case 1
    have "(stop + 1024 - sn) mod 1024 = stop - sn" using 1 a mod_add_self2 [of "stop - sn" 1024] by (simp add: sn_range_def RLC_AM_SN_MODULO_def algebra_simps)
    moreover have "(stop + 1024 - (sn + 1)) mod 1024 = stop - (sn + 1)"
      using 1 a mod_add_self2 [of "stop - (sn + 1)" 1024] by (simp add: sn_range_def RLC_AM_SN_MODULO_def algebra_simps)
    ultimately show ?thesis using r 1 a by (simp add: am_sn_defs sn_range_def)
  next
    case 2
    have "(stop + 1024 - sn) mod 1024 = stop + 1024 - sn" "(stop + 1024 - (sn + 1)) mod 1024 = stop + 1024 - (sn + 1)"
      using 2 a by (simp_all add: sn_range_def RLC_AM_SN_MODULO_def)
    then show ?thesis using r 2 a by (simp add: am_sn_defs sn_range_def)
  next
    case 3
    then show ?thesis using r a by (simp add: am_sn_defs sn_range_def)
  qed
qed

function sn_loop :: "(int \<Rightarrow> rlc_am_tx_entity \<Rightarrow> rlc_am_tx_entity option) \<Rightarrow> int \<Rightarrow> int \<Rightarrow> rlc_am_tx_entity \<Rightarrow> rlc_am_tx_entity option" where
  "sn_loop body sn stop e =
     (if sn = stop then Some e
      else if \<not> (sn_range sn \<and> sn_range stop) then None
      else Option.bind (body sn e) (sn_loop body (RLC_AM_NEXT_SN sn) stop))"
  by pat_completeness auto

termination
  by (relation "measure (\<lambda>(body, sn, stop, e). nat (RLC_AM_DIFF_SN stop sn))") (use sn_distance in force)+

declare sn_loop.simps [simp del]

abbreviation ack_until :: "int \<Rightarrow> int \<Rightarrow> rlc_am_tx_entity \<Rightarrow> rlc_am_tx_entity option" where
  "ack_until \<equiv> sn_loop (\<lambda>sn. rlc_am_ack_pdu sn True)"

text \<open>
  The loop behind the first NACK. \<open>ns\<close> are the NACKs from \<open>nack_index\<close> on; behind the last one \<open>nack_sn\<close> is ACK_SN. \<open>sn_cursor\<close> stays where it is
  when the next NACK has the same number; a cursor that stays anywhere else would not end. The branch for NACK_SN = ACK_SN cannot be reached, the loop has
  ended there. The result is \<open>status\<close> and the entity.
\<close>

function nack_loop :: "int \<Rightarrow> int \<Rightarrow> int \<Rightarrow> int \<Rightarrow> nack_sn_t list \<Rightarrow> rlc_am_tx_entity \<Rightarrow> (bool \<times> rlc_am_tx_entity) option" where
  "nack_loop ack cursor nack prev ns e =
     (if cursor = ack then Some (True, e)
      else if \<not> (sn_range cursor \<and> sn_range ack) then None
      else if cursor \<noteq> nack then
        if prev = nack then None
        else Option.bind (rlc_am_ack_pdu cursor False e) (nack_loop ack (RLC_AM_NEXT_SN cursor) nack prev ns)
      else
        case ns of
          [] \<Rightarrow> None
        | n # ns' \<Rightarrow>
            let nack' = (if ns' = [] then ack else int (nack_sn (ns' ! 0))) in
            case rlc_am_nack_pdu nack prev (int (so_start n)) (int (so_end n)) e of
              None \<Rightarrow> None
            | Some (False, e1) \<Rightarrow> Some (False, e1)
            | Some (True, e1) \<Rightarrow> nack_loop ack (if nack \<noteq> nack' then RLC_AM_NEXT_SN cursor else cursor) nack' nack ns' e1)"
  by pat_completeness auto

termination
proof (relation "measure (\<lambda>(ack, cursor, nack, prev, ns, e). nat (RLC_AM_DIFF_SN ack cursor) + length ns)", goal_cases)
  case (2 ack cursor nack prev ns e x)
  then show ?case using sn_distance [of cursor ack] by auto
next
  case (3 ack cursor nack prev ns e n ns' x y z e1)
  then show ?case using sn_distance [of cursor ack] by auto
qed simp

declare nack_loop.simps [simp del]

text \<open>Acknowledge and NACK: \<open>status\<close>, the new VT(A), \<open>sn_data_cnf\<close>, whether \<open>data_cnf_so_stop\<close> is 0x7FFF, and the entity.\<close>

definition am_apply_report :: "int \<Rightarrow> nack_sn_t list \<Rightarrow> rlc_am_tx_entity \<Rightarrow> (bool \<times> int \<times> int \<times> bool \<times> rlc_am_tx_entity) option" where
  "am_apply_report ack ns e =
     (case ns of
        [] \<Rightarrow> do {
          e1 \<leftarrow> ack_until (vt_a e) ack e;
          Some (True, ack, RLC_AM_PREV_SN ack, True, e1) }
      | n # ns' \<Rightarrow> do {
          let nack = int (nack_sn n);
          e1 \<leftarrow> ack_until (vt_a e) nack e;
          let p = tx_pdu e1 nack;
          let part = (tx_retx_payload_size p \<noteq> tx_payload_size p \<and> tx_nack_so_start p \<noteq> 0);
          (status, e2) \<leftarrow> nack_loop ack nack nack 0x3FFF ns e1;
          Some (status, nack, if part then nack else RLC_AM_PREV_SN nack, \<not> part \<or> tx_nack_so_start p - 1 = 0x7FFF, e2) })"

definition am_confirm_sdus :: "int \<Rightarrow> bool \<Rightarrow> rlc_am_tx_entity \<Rightarrow> rlc_am_tx_entity option" where
  "am_confirm_sdus sn_data_cnf all_bytes e =
     (if tx_transmitted (tx_pdu e sn_data_cnf) \<and> tx_sn (tx_pdu e sn_data_cnf) = sn_data_cnf then do {
        e1 \<leftarrow> sn_loop rlc_am_pdu_sdu_data_cnf (vt_a e) sn_data_cnf e;
        if all_bytes then rlc_am_pdu_sdu_data_cnf sn_data_cnf e1 else Some e1 }
      else Some e)"

definition am_stop_poll :: "int \<Rightarrow> rlc_am_tx_entity \<Rightarrow> rlc_am_tx_entity" where
  "am_stop_poll ack e =
     (if poll_sn e \<noteq> RLC_SN_UNDEFINED \<and> RLC_AM_DIFF_SN ack (vt_a e) > RLC_AM_DIFF_SN (poll_sn e) (vt_a e)
      then (rlc_am_stop_and_reset_timer_poll_retransmit e)\<lparr>poll_sn := RLC_SN_UNDEFINED\<rparr> else e)"

text \<open>The octets that are left of the block, and the entity.\<close>

definition rlc_am_receive_process_control_pdu :: "octet list \<Rightarrow> int \<Rightarrow> rlc_am_tx_entity \<Rightarrow> (int \<times> rlc_am_tx_entity) option" where
  "rlc_am_receive_process_control_pdu buf tb_size e = do {
     (rc, size, info) \<leftarrow> rlc_am_get_control_pdu_infos buf tb_size;
     let ack = int (ack_sn info);
     if rc < 0 then Some (size, e)
     else if \<not> ack < RLC_AM_SN_MODULO \<or> \<not> length (nack_list info) < RLC_AM_MAX_NACK_IN_STATUS_PDU then None
     else if \<not> RLC_AM_DIFF_SN (vt_s e) (vt_a e) \<ge> RLC_AM_DIFF_SN ack (vt_a e) then Some (size, e)
     else do {
       (status, vt_a_new, sn_data_cnf, all_bytes, e1) \<leftarrow> am_apply_report ack (nack_list info) e;
       if \<not> status then Some (size, e1)
       else do {
         e2 \<leftarrow> am_confirm_sdus sn_data_cnf all_bytes (am_stop_poll ack e1);
         Some (size, e2\<lparr>vt_a := vt_a_new, vt_ms := (vt_a_new + RLC_AM_WINDOW_SIZE) mod RLC_AM_SN_MODULO\<rparr>) } } }"

section \<open>Polling (rlc_am_segment.c) and requests of upper layers (rlc_am.c)\<close>

definition poll_due :: "bool \<Rightarrow> rlc_am_tx_entity \<Rightarrow> bool" where
  "poll_due is_new e \<longleftrightarrow>
     is_new \<and> (c_pdu_without_poll e \<ge> poll_pdu e \<or> c_byte_without_poll e \<ge> poll_byte e) \<or>
     am_sdu_buffer_occupancy e = 0 \<and> retrans_num_bytes_to_retransmit e = 0 \<or> vt_s e = vt_ms e \<or> force_poll e"

text \<open>The first octet of the PDU with its poll bit, and the entity. \<open>payload_sizeP\<close> has 16 bits.\<close>

definition rlc_am_pdu_polling :: "32 word \<Rightarrow> int \<Rightarrow> bool \<Rightarrow> octet \<Rightarrow> rlc_am_tx_entity \<Rightarrow> octet \<times> rlc_am_tx_entity" where
  "rlc_am_pdu_polling now payload_size is_new b1 e =
     (let e1 = (if is_new \<and> poll_pdu e \<noteq> RLC_AM_POLL_PDU_INFINITE then e\<lparr>c_pdu_without_poll := c_pdu_without_poll e + 1\<rparr> else e);
          e2 = (if is_new \<and> poll_byte e1 \<noteq> RLC_AM_POLL_BYTE_INFINITE
                then e1\<lparr>c_byte_without_poll := c_byte_without_poll e1 + word_of_int (s16 payload_size)\<rparr> else e1)
      in if poll_due is_new e2
         then (b1 OR 0x20, rlc_am_start_timer_poll_retransmit now
                 (e2\<lparr>force_poll := False, c_pdu_without_poll := 0, c_byte_without_poll := 0, poll_sn := RLC_AM_PREV_SN (vt_s e2)\<rparr>))
         else (b1 AND NOT 0x20, e2))"

text \<open>\<open>flags.segmented\<close> is never set. An SDU for which there is no room is freed.\<close>

definition rlc_am_data_req :: "32 word \<Rightarrow> octet list \<Rightarrow> rlc_am_tx_entity \<Rightarrow> rlc_am_tx_entity" where
  "rlc_am_data_req mui sdu e =
     (let i = am_next_sdu_index e; i1 = (i + 1) mod RLC_AM_SDU_CONTROL_BUFFER_SIZE; n = int (length sdu)
      in if am_sdu_block (am_input_sdus e ! i) = None \<and> i1 \<noteq> am_current_sdu_index e
         then e\<lparr>am_input_sdus := (am_input_sdus e)[i := am_no_sdu\<lparr>am_sdu_block := Some sdu, am_sdu_mui := mui, am_sdu_size := n, am_sdu_remaining_size := n\<rparr>],
                am_sdu_buffer_occupancy := am_sdu_buffer_occupancy e + n, am_nb_sdu := am_nb_sdu e + 1,
                am_nb_sdu_no_segmented := am_nb_sdu_no_segmented e + 1, am_next_sdu_index := i1\<rparr>
         else e)"

text \<open>
  The transmitting side of \<open>rlc_am_configure\<close>. \<open>poll_byteP\<close> is of a 16-bit type. An entity that is configured already keeps its timer and gets the new
  duration.
\<close>

definition rlc_am_configure_tx :: "bool \<Rightarrow> 16 word \<Rightarrow> 16 word \<Rightarrow> 16 word \<Rightarrow> 32 word \<Rightarrow> rlc_am_tx_entity \<Rightarrow> rlc_am_tx_entity" where
  "rlc_am_configure_tx configured max_retx pdu byte duration e =
     (let e1 = e\<lparr>max_retx_threshold := uint max_retx, poll_pdu := ucast pdu, poll_byte := ucast byte\<rparr>
      in if configured then e1\<lparr>am_t_poll_retransmit := (am_t_poll_retransmit e1)\<lparr>am_ms_duration := duration\<rparr>\<rparr>
         else rlc_am_init_timer_poll_retransmit duration e1)"

definition pollPDU_tab :: "16 word list" where
  "pollPDU_tab = [4, 8, 16, 32, 64, 128, 256, ucast RLC_AM_POLL_PDU_INFINITE]"

definition maxRetxThreshold_tab :: "32 word list" where
  "maxRetxThreshold_tab = [1, 2, 3, 4, 6, 8, 16, 32]"

definition pollByte_tab :: "32 word list" where
  "pollByte_tab = [25000, 50000, 75000, 100000, 125000, 250000, 375000, 500000, 750000, 1000000, 1250000, 1500000, 2000000, 3000000,
     RLC_AM_POLL_BYTE_INFINITE]"

end
