(* ===== verification/RlcAmBuild.thy ===== *)
theory RlcAmBuild
  imports RlcAmTx RlcUmTx
begin

text \<open>
  The PDUs an acknowledged mode entity sends: \<open>rlc_am_segment_10\<close> builds a PDU from the SDUs, \<open>rlc_am_retransmit_get_copy\<close> repeats it whole and
  \<open>rlc_am_retransmit_get_am_segment\<close> in segments, \<open>rlc_am_get_pdu_to_retransmit\<close> chooses between them. \<open>alloc\<close> gives the part of a block behind
  \<open>struct mac_tb_req\<close>; only \<open>rlc_am_segment_10\<close> checks it for NULL. The assertion of the last branch of the filling loop is active (\<open>USER_MODE\<close>).
\<close>

section \<open>Segmentation (rlc_am_segment.c)\<close>

definition RLC_AM_HEADER_MIN_SIZE :: int where "RLC_AM_HEADER_MIN_SIZE = 2"
definition RLC_AM_MAX_SDU_FRAGMENTS :: nat where "RLC_AM_MAX_SDU_FRAGMENTS = 32"

definition am_max_li_overhead :: "int \<Rightarrow> int" where
  "am_max_li_overhead nb_sdu_no_segmented =
     (if nb_sdu_no_segmented \<le> 1 then 0 else let n = nb_sdu_no_segmented - 1 in n + n div 2 + n mod 2)"

definition am_data_pdu_size :: "int \<Rightarrow> rlc_am_tx_entity \<Rightarrow> int" where
  "am_data_pdu_size nb_bytes e =
     (let need = am_sdu_buffer_occupancy e + RLC_AM_HEADER_MIN_SIZE + am_max_li_overhead (am_nb_sdu_no_segmented e)
      in if nb_bytes \<ge> need then need else nb_bytes)"

text \<open>How many SDUs fill the PDU. The SDUs note the PDU and the PDU notes the SDUs on the way; \<open>room\<close> is what \<open>nb_sdus\<close> lacks of 127.\<close>

record am_test = um_test +
  test_sdus :: "rlc_am_tx_sdu list"
  test_sdus_index :: "int list"

definition am_test_stop :: "nat \<Rightarrow> am_test \<Rightarrow> am_test" where
  "am_test_stop n t = t\<lparr>test_pdu_remaining_size := 0, test_remaining_size_to_substract := 0, test_remaining_num_li_to_substract := 0, test_reduce := n\<rparr>"

definition am_test_note :: "nat \<Rightarrow> int \<Rightarrow> am_test \<Rightarrow> am_test" where
  "am_test_note i pdu t =
     (let s = test_sdus t ! i
      in t\<lparr>test_sdus_index := test_sdus_index t @ [int i], test_sdus := (test_sdus t)[i := s\<lparr>am_sdu_pdus_index := am_sdu_pdus_index s @ [pdu]\<rparr>]\<rparr>)"

fun am_test_fill :: "nat \<Rightarrow> nat \<Rightarrow> int \<Rightarrow> am_test \<Rightarrow> am_test option" where
  "am_test_fill room i pdu t =
     (let s = test_sdus t ! i; a = am_sdu_remaining_size s; r = test_pdu_remaining_size t; li = test_li_length_in_bytes t XOR 3
      in if am_sdu_block s = None then Some t
         else if \<not> length (am_sdu_pdus_index s) + 1 < RLC_AM_MAX_SDU_FRAGMENTS then None
         else if a > r then Some (am_test_note i pdu (am_test_stop 0 t))
         else if a = r then Some (am_test_note i pdu (am_test_stop 0 t))
         else if a + int li = r then Some (am_test_note i pdu (am_test_stop li t))
         else if a + int li < r then
           (case room of
              0 \<Rightarrow> Some (am_test_note i pdu (am_test_stop 1 t))
            | Suc room' \<Rightarrow> am_test_fill room' ((i + 1) mod RLC_AM_SDU_CONTROL_BUFFER_SIZE) pdu
                (am_test_note i pdu (t\<lparr>test_num_li := test_num_li t + 1, test_pdu_remaining_size := r - (a + int li),
                   test_remaining_size_to_substract := li, test_remaining_num_li_to_substract := 1, test_li_length_in_bytes := li\<rparr>)))
         else Some (am_test_note i pdu (am_test_stop 1 t)))"

declare am_test_fill.simps [simp del]

text \<open>Filling: \<open>data\<close> and \<open>e_li_p\<close> as offsets in the PDU; \<open>room\<close> is what \<open>fill_num_li\<close> lacks of 127.\<close>

record am_fill =
  af_pdu :: "octet list"
  af_data :: nat
  af_e_li :: nat
  af_li_length :: nat
  af_num_li :: nat
  af_remaining :: int
  af_payload_size :: int
  af_last :: bool

definition am_copy_sdu :: "octet list \<Rightarrow> int \<Rightarrow> int \<Rightarrow> am_fill \<Rightarrow> octet list option" where
  "am_copy_sdu sdu from n f =
     (if from < 0 \<or> n < 0 then None
      else do {
        src \<leftarrow> slice sdu (nat from) (nat n);
        write_at (af_data f) src (af_pdu f) })"

text \<open>The SDU is used up: its octets leave the buffer occupancy, its block is freed and the next SDU is current.\<close>

definition am_sdu_done :: "rlc_am_tx_entity \<Rightarrow> rlc_am_tx_entity option" where
  "am_sdu_done e = do {
     let i = am_current_sdu_index e;
     e1 \<leftarrow> rlc_am_free_in_sdu_data i (e\<lparr>am_sdu_buffer_occupancy := am_sdu_buffer_occupancy e - am_sdu_remaining_size (am_input_sdus e ! i)\<rparr>);
     Some (e1\<lparr>am_current_sdu_index := (i + 1) mod RLC_AM_SDU_CONTROL_BUFFER_SIZE\<rparr>) }"

fun am_fill_sdus :: "nat \<Rightarrow> nat \<Rightarrow> am_fill \<Rightarrow> rlc_am_tx_entity \<Rightarrow> (am_fill \<times> rlc_am_tx_entity) option" where
  "am_fill_sdus room test_num f e =
     (let i = am_current_sdu_index e; s = am_input_sdus e ! i; a = am_sdu_remaining_size s; r = af_remaining f; li = af_li_length f XOR 3
      in case am_sdu_block s of
           None \<Rightarrow> Some (f, e)
         | Some sdu \<Rightarrow>
             if a > r then do {
               p \<leftarrow> am_copy_sdu sdu (am_sdu_segmented_size s) r f;
               Some (f\<lparr>af_pdu := p, af_payload_size := af_payload_size f + r, af_last := False, af_remaining := 0\<rparr>,
                     e\<lparr>am_input_sdus := (am_input_sdus e)[i := s\<lparr>am_sdu_remaining_size := a - r, am_sdu_segmented_size := am_sdu_segmented_size s + r\<rparr>],
                       am_sdu_buffer_occupancy := am_sdu_buffer_occupancy e - r\<rparr>) }
             else if a = r then do {
               p \<leftarrow> am_copy_sdu sdu (am_sdu_segmented_size s) r f;
               e1 \<leftarrow> am_sdu_done e;
               Some (f\<lparr>af_pdu := p, af_payload_size := af_payload_size f + r, af_last := True, af_remaining := 0\<rparr>, e1) }
             else if a + int li < r then do {
               p \<leftarrow> am_copy_sdu sdu (am_sdu_segmented_size s) a f;
               e1 \<leftarrow> am_sdu_done e;
               (case room of
                  0 \<Rightarrow> Some (f\<lparr>af_pdu := p, af_payload_size := af_payload_size f + a, af_last := True, af_remaining := 0\<rparr>, e1)
                | Suc room' \<Rightarrow> do {
                    p1 \<leftarrow> write_li li (af_e_li f) (af_num_li f + 1 \<noteq> test_num) (nat a) p;
                    am_fill_sdus room' test_num
                      (f\<lparr>af_pdu := p1, af_payload_size := af_payload_size f + a, af_data := af_data f + nat a, af_li_length := li,
                         af_num_li := af_num_li f + 1, af_e_li := (if li = 2 then af_e_li f else af_e_li f + 3), af_remaining := r - (a + int li)\<rparr>) e1 }) }
             else None)"

declare am_fill_sdus.simps [simp del]

text \<open>
  A copy of a PDU of the transmission buffer. The block header with \<open>tb_size\<close> is copied along, so that the copy has the size of the original.
\<close>

definition rlc_am_retransmit_get_copy :: "(nat \<Rightarrow> octet list option) \<Rightarrow> int \<Rightarrow> rlc_am_tx_entity \<Rightarrow> octet list option" where
  "rlc_am_retransmit_get_copy alloc sn e = do {
     original \<leftarrow> tx_mem_block (tx_pdu e sn);
     let n = nat (tx_header_and_payload_size (tx_pdu e sn));
     block \<leftarrow> alloc n;
     if n \<le> length block then slice original 0 n else None }"

definition amd_header :: "nat \<Rightarrow> bool \<Rightarrow> int \<Rightarrow> octet list" where
  "amd_header fi ext sn = [0x80 OR of_nat (fi * 8) OR (if ext then 0x04 else 0) OR word_of_int (sn div 256), word_of_int sn AND 0xFF]"

text \<open>
  One PDU of at most \<open>nb_bytes\<close> octets. The entry of the transmission buffer is cleared, the SDUs are counted and copied, VT(S) is incremented, the poll
  bit is set, the PDU is stored, and a copy goes to the list of PDUs.
\<close>

definition rlc_am_segment_10 :: "(nat \<Rightarrow> octet list option) \<Rightarrow> 32 word \<Rightarrow> int \<Rightarrow> rlc_am_tx_entity \<Rightarrow> rlc_am_tx_entity option" where
  "rlc_am_segment_10 alloc now nb_bytes e =
     (if am_sdu_buffer_occupancy e \<le> 0 \<or> am_sdu_block (am_input_sdus e ! am_current_sdu_index e) = None \<or> \<not> nb_bytes > 0 then Some e
      else
        let size = am_data_pdu_size nb_bytes e in
        case alloc (nat size) of
          None \<Rightarrow> Some e
        | Some block \<Rightarrow> do {
            p0 \<leftarrow> write_at 0 (replicate 4 0) block;
            let r = size - RLC_AM_HEADER_MIN_SIZE;
            let cur = am_input_sdus e ! am_current_sdu_index e;
            t \<leftarrow> am_test_fill 127 (am_current_sdu_index e) (vt_s e mod RLC_AM_WINDOW_SIZE)
              \<lparr>test_pdu_remaining_size = r, test_li_length_in_bytes = 1, test_num_li = 0, test_remaining_size_to_substract = 0,
               test_remaining_num_li_to_substract = 0, test_reduce = 0, test_sdus = am_input_sdus e, test_sdus_index = []\<rparr>;
            let unused = test_remaining_num_li_to_substract t > 0;
            let num_li = (if unused then test_num_li t - 1 else test_num_li t);
            let r1 = r - int (test_reduce t) - (if unused then int (test_remaining_size_to_substract t) else 0);
            (f, e1) \<leftarrow> am_fill_sdus 127 num_li
              \<lparr>af_pdu = p0, af_data = 2 + (num_li * 3 + 1) div 2, af_e_li = 2, af_li_length = 1, af_num_li = 0, af_remaining = r1,
               af_payload_size = 0, af_last = False\<rparr> (e\<lparr>am_input_sdus := test_sdus t\<rparr>);
            let fi = (if am_sdu_remaining_size cur = am_sdu_size cur then 0 else 2) + (if af_last f then 0 else 1);
            let tb_size = size - af_remaining f;
            if \<not> tb_size < int RLC_SDU_MAX_SIZE \<or> \<not> 2 \<le> length (af_pdu f) then None
            else do {
              let head = amd_header fi (af_num_li f > 0) (vt_s e);
              let (b1, e2) = rlc_am_pdu_polling now (af_payload_size f) True (head ! 0) (e1\<lparr>vt_s := RLC_AM_NEXT_SN (vt_s e1)\<rparr>);
              let e3 = set_tx_pdu (vt_s e) (am_no_pdu\<lparr>tx_mem_block := Some ([b1, head ! 1] @ drop 2 (af_pdu f)), tx_sdus_index := test_sdus_index t,
                   tx_payload := 2 + (num_li * 3 + 1) div 2, tx_header_and_payload_size := tb_size, tx_payload_size := af_payload_size f,
                   tx_sn := vt_s e, tx_transmitted := True\<rparr>) e2;
              copy \<leftarrow> rlc_am_retransmit_get_copy alloc (vt_s e) e3;
              Some (e3\<lparr>am_segmentation_pdu_list := am_segmentation_pdu_list e3 @ [copy]\<rparr>) } })"

section \<open>Resegmentation (rlc_am_retransmit.c)\<close>

text \<open>The length indicator number \<open>k\<close> of a PDU, 0 for the first one.\<close>

definition RLC_AM_PDU_GET_LI :: "octet list \<Rightarrow> nat \<Rightarrow> int option" where
  "RLC_AM_PDU_GET_LI pdu k =
     (let pos = 2 + 3 * (k div 2) + k mod 2; off = (if even k then 4 else 0)
      in if pos + 1 < length pdu then Some (int (((unat (pdu ! pos) * 256 + unat (pdu ! (pos + 1))) div 2 ^ off) mod 2048)) else None)"

text \<open>The size of the data field element \<open>i\<close> of a PDU with \<open>nb\<close> of them, of which \<open>data_size\<close> octets lie before.\<close>

definition element_size :: "rlc_am_tx_pdu \<Rightarrow> octet list \<Rightarrow> int \<Rightarrow> nat \<Rightarrow> int \<Rightarrow> int option" where
  "element_size p pdu nb i data_size =
     (if int i < nb - 1 then RLC_AM_PDU_GET_LI pdu i else Some (tx_payload_size p - data_size))"

text \<open>\<open>data_size\<close> and \<open>sdu_index\<close> behind the element that contains \<open>start\<close>; \<open>n\<close> is what \<open>sdu_index\<close> lacks of \<open>nb_sdus\<close>.\<close>

fun find_element :: "nat \<Rightarrow> rlc_am_tx_pdu \<Rightarrow> octet list \<Rightarrow> int \<Rightarrow> int \<Rightarrow> int \<Rightarrow> nat \<Rightarrow> (int \<times> nat) option" where
  "find_element 0 p pdu nb start data_size i = Some (data_size, i)"
| "find_element (Suc n) p pdu nb start data_size i =
     (if data_size < start + 1 then do {
        size \<leftarrow> element_size p pdu nb i data_size;
        find_element n p pdu nb start (data_size + size) (i + 1) }
      else Some (data_size, i))"

text \<open>The sizes of the elements up to the one that contains \<open>stop\<close>, and \<open>data_size\<close> and \<open>sdu_size\<close> (\<open>last_size\<close>) then.\<close>

fun take_elements :: "nat \<Rightarrow> rlc_am_tx_pdu \<Rightarrow> octet list \<Rightarrow> int \<Rightarrow> int \<Rightarrow> int \<Rightarrow> nat \<Rightarrow> int \<Rightarrow> int list \<Rightarrow> (int \<times> int \<times> int list) option" where
  "take_elements 0 p pdu nb stop data_size i last_size sizes = Some (data_size, last_size, sizes)"
| "take_elements (Suc n) p pdu nb stop data_size i last_size sizes =
     (if data_size < stop + 1 then do {
        size \<leftarrow> element_size p pdu nb i data_size;
        take_elements n p pdu nb stop (data_size + size) (i + 1) size (sizes @ [size]) }
      else Some (data_size, last_size, sizes))"

definition RLC_AM_PDU_SEGMENT_HEADER_SIZE :: "nat \<Rightarrow> int" where
  "RLC_AM_PDU_SEGMENT_HEADER_SIZE num_li = RLC_AM_PDU_SEGMENT_HEADER_MIN_SIZE + int (num_li + num_li div 2 + num_li mod 2)"

text \<open>
  The sizes that fit into \<open>nb_bytes\<close>: the sizes so far, the payload and the header. \<open>k\<close> is \<open>sdu_segment_index\<close>. An element without octets is an assertion.
\<close>

fun bound_elements :: "int \<Rightarrow> nat \<Rightarrow> int list \<Rightarrow> int list \<Rightarrow> int \<Rightarrow> int \<Rightarrow> (int list \<times> int \<times> int) option" where
  "bound_elements nb_bytes k [] sizes payload header = Some (sizes, payload, header)"
| "bound_elements nb_bytes k (s # ss) sizes payload header =
     (let h = RLC_AM_PDU_SEGMENT_HEADER_SIZE k in
      if \<not> nb_bytes > payload + h then Some (sizes, payload, header)
      else if \<not> s > 0 then None
      else
        let s1 = (if h + payload + s \<le> nb_bytes then s else nb_bytes - h - payload)
        in bound_elements nb_bytes (k + 1) ss (sizes @ [s1]) (payload + s1) h)"

text \<open>
  The part of a PDU with several elements that goes into a segment from \<open>start\<close> on, at most to \<open>stop\<close>: \<open>fi_start\<close>, the sizes of its elements, the payload
  and the header. \<open>fi_start0\<close> is the flag of the PDU.
\<close>

definition segment_elements ::
    "rlc_am_tx_pdu \<Rightarrow> octet list \<Rightarrow> int \<Rightarrow> int \<Rightarrow> int \<Rightarrow> int \<Rightarrow> bool \<Rightarrow> (bool \<times> int list \<times> int \<times> int) option" where
  "segment_elements p pdu nb nb_bytes start stop fi_start0 = do {
     first \<leftarrow> RLC_AM_PDU_GET_LI pdu 0;
     (d, i) \<leftarrow> find_element (nat (nb - 1)) p pdu nb start first 1;
     (fi_start, d1, i1) \<leftarrow>
       (if start = d then
          if \<not> int i < nb then None
          else do {
            size \<leftarrow> element_size p pdu nb i d;
            Some (True, d + size, i + 1) }
        else Some (if start \<noteq> 0 then False else fi_start0, d, i));
     let a = d1 - start;
     let (a1, early1) = (if a \<ge> stop - start + 1 then (stop - start + 1, True) else (a, False));
     let (a2, early2) = (if a1 + RLC_AM_PDU_SEGMENT_HEADER_MIN_SIZE \<ge> nb_bytes then (nb_bytes - RLC_AM_PDU_SEGMENT_HEADER_MIN_SIZE, True) else (a1, early1));
     if early2 \<and> a2 \<noteq> 0 then Some (fi_start, [a2], a2, RLC_AM_PDU_SEGMENT_HEADER_MIN_SIZE)
     else do {
       (d2, last_size, sizes) \<leftarrow> take_elements (nat (nb - int i1)) p pdu nb stop d1 i1 0 [a2];
       let sizes1 = (if d2 > stop + 1 then sizes[length sizes - 1 := stop - (d2 - last_size) + 1] else sizes);
       if int (length sizes1) > nb then None
       else do {
         (sizes2, payload, header) \<leftarrow> bound_elements nb_bytes 0 sizes1 [] 0 RLC_AM_PDU_SEGMENT_HEADER_MIN_SIZE;
         Some (fi_start, sizes2, payload, header) } } }"

text \<open>\<open>fi_end\<close>: it is set again when an element before the last one ends where the segment does.\<close>

fun ends_element :: "int \<Rightarrow> int \<Rightarrow> int list \<Rightarrow> bool" where
  "ends_element stop d [] \<longleftrightarrow> False"
| "ends_element stop d [s] \<longleftrightarrow> False"
| "ends_element stop d (s # ss) \<longleftrightarrow> stop = d + s - 1 \<or> ends_element stop (d + s) ss"

text \<open>The length indicators of a segment, written to the octets from \<open>pos\<close> on, which are clear. \<open>off\<close> is \<open>li_bit_offset\<close>.\<close>

fun write_segment_lis :: "nat \<Rightarrow> nat \<Rightarrow> int list \<Rightarrow> octet list \<Rightarrow> octet list option" where
  "write_segment_lis pos off [] buf = Some buf"
| "write_segment_lis pos off (l # ls) buf =
     (if \<not> pos + 1 < length buf then None
      else
        let old = (if off = 4 \<and> pos = 4 then 0 else push_bit 8 (ucast (buf ! pos)) OR ucast (buf ! (pos + 1)) :: 16 word);
            temp = old OR (if ls \<noteq> [] then push_bit (off + 11) 1 else 0) OR push_bit off (word_of_int l AND 0x7FF)
        in do {
          buf1 \<leftarrow> write_at pos [ucast (drop_bit 8 temp), ucast temp] buf;
          write_segment_lis (pos + (if off = 4 then 1 else 2)) (4 - off) ls buf1 })"

text \<open>What is left of the holes when \<open>n\<close> octets of the current one have been sent.\<close>

definition advance_holes :: "int \<Rightarrow> rlc_am_tx_pdu \<Rightarrow> rlc_am_tx_pdu" where
  "advance_holes n p =
     (let k = tx_retx_hole_index p; (s, t) = tx_holes p ! k
      in if n = t - s + 1 then
           if k + 1 < length (tx_holes p) then p\<lparr>tx_retx_hole_index := k + 1, tx_nack_so_start := fst (tx_holes p ! (k + 1))\<rparr>
           else p\<lparr>tx_holes := [], tx_retx_hole_index := 0, tx_nack_so_start := 0\<rparr>
         else p\<lparr>tx_holes := (tx_holes p)[k := (s + n, t)], tx_nack_so_start := s + n\<rparr>)"

definition segment_header :: "bool \<Rightarrow> bool \<Rightarrow> bool \<Rightarrow> bool \<Rightarrow> int \<Rightarrow> int \<Rightarrow> octet list" where
  "segment_header fi_start fi_end ext lsf sn so =
     (let w = word_of_int so OR (if lsf then 0x8000 else 0) :: 16 word
      in [0xC0 OR (if fi_start then 0 else 0x10) OR (if fi_end then 0 else 0x08) OR (word_of_int (sn div 256) AND 3) OR (if ext then 0x04 else 0),
          word_of_int sn AND 0xFF, ucast (drop_bit 8 w), ucast w])"

text \<open>
  A segment of at most \<open>nb_bytes\<close> octets of the PDU \<open>p\<close>: the segment, the octets of payload in it, and the PDU with its holes.
\<close>

definition rlc_am_retransmit_get_am_segment ::
    "(nat \<Rightarrow> octet list option) \<Rightarrow> int \<Rightarrow> rlc_am_tx_pdu \<Rightarrow> (octet list \<times> int \<times> rlc_am_tx_pdu) option" where
  "rlc_am_retransmit_get_am_segment alloc nb_bytes p = do {
     pdu \<leftarrow> tx_mem_block p;
     if int (tx_payload p) \<noteq> tx_header_and_payload_size p - tx_payload_size p \<or> tx_holes p = [] \<and> tx_retx_payload_size p \<noteq> tx_payload_size p \<or> pdu = [] then None
     else do {
       let p1 = (if tx_holes p = [] then p\<lparr>tx_retx_hole_index := 0, tx_holes := [(0, tx_payload_size p - 1)]\<rparr> else p);
       let nb = s8 (int (length (tx_sdus_index p)));
       if \<not> tx_retx_hole_index p1 < length (tx_holes p1) then None
       else do {
         let (start, stop) = tx_holes p1 ! tx_retx_hole_index p1;
         if \<not> (start \<le> stop \<and> stop - start + 1 \<le> tx_payload_size p) then None
         else do {
           let fi_start0 = (pdu ! 0 AND 0x10 = 0);
           let fi_end0 = (pdu ! 0 AND 0x08 = 0);
           (fi_start, sizes, payload, header) \<leftarrow>
             (if nb = 1 then
                let n = (if stop - start + 1 + RLC_AM_PDU_SEGMENT_HEADER_MIN_SIZE > nb_bytes then nb_bytes - RLC_AM_PDU_SEGMENT_HEADER_MIN_SIZE else stop - start + 1)
                in Some (if start \<noteq> 0 then False else fi_start0, [n], n, RLC_AM_PDU_SEGMENT_HEADER_MIN_SIZE)
              else segment_elements p1 pdu nb nb_bytes start stop fi_start0);
           let stop1 = start + payload - 1;
           let fi_end = ((if stop1 < tx_payload_size p - 1 then False else fi_end0) \<or> ends_element stop1 0 sizes);
           if nb \<noteq> 1 \<and> \<not> (stop1 \<le> tx_payload_size p - 1 \<and> payload < tx_payload_size p \<and> sum_list sizes = payload \<and>
               header + payload \<le> tx_header_and_payload_size p + 2) then None
           else do {
             block \<leftarrow> alloc (nat (payload + header));
             data \<leftarrow> slice pdu (nat (int (tx_payload p) + start)) (nat payload);
             if length block < nat (payload + header) then None
             else do {
               let head = segment_header fi_start fi_end (length sizes > 1) (stop1 = tx_payload_size p - 1) (tx_sn p) start @ replicate (nat header - 4) 0;
               seg \<leftarrow> write_segment_lis 4 4 (butlast sizes) (head @ data);
               Some (seg, payload, advance_holes payload p1) } } } } } }"

section \<open>Choice of the PDU to retransmit\<close>

text \<open>What one round makes of a PDU that is due: the octets to send, if any, and the entity.\<close>

definition retransmit_one :: "(nat \<Rightarrow> octet list option) \<Rightarrow> int \<Rightarrow> int \<Rightarrow> rlc_am_tx_entity \<Rightarrow> (octet list option \<times> rlc_am_tx_entity) option" where
  "retransmit_one alloc nb_bytes sn e =
     (let p = tx_pdu e sn; allowed = (tx_retx_count_next p \<le> max_retx_threshold e); give_up = set_tx_pdu sn (p\<lparr>tx_max_retransmit := True\<rparr>) e in
      if \<not> (tx_sn p = sn \<and> tx_transmitted p \<and> tx_retx_payload_size p > 0) then None
      else if tx_retx_payload_size p = tx_payload_size p \<and> nb_bytes \<ge> tx_header_and_payload_size p then
        if \<not> allowed then Some (None, give_up)
        else do {
          copy \<leftarrow> rlc_am_retransmit_get_copy alloc sn e;
          Some (Some copy, (set_tx_pdu sn (p\<lparr>tx_retx_payload_size := 0, tx_retransmit := False\<rparr>) e)
             \<lparr>retrans_num_bytes_to_retransmit := retrans_num_bytes_to_retransmit e - tx_retx_payload_size p, retrans_num_pdus := retrans_num_pdus e - 1\<rparr>) }
      else if nb_bytes \<ge> 5 then
        if \<not> allowed then Some (None, give_up)
        else do {
          (seg, n, p1) \<leftarrow> rlc_am_retransmit_get_am_segment alloc nb_bytes p;
          if \<not> (tx_retx_payload_size p \<ge> n \<and> retrans_num_bytes_to_retransmit e \<ge> n) then None
          else
            let left = tx_retx_payload_size p - n
            in Some (Some seg, (set_tx_pdu sn (p1\<lparr>tx_retx_payload_size := left, tx_retransmit := (if left = 0 then False else tx_retransmit p1)\<rparr>) e)
                 \<lparr>retrans_num_bytes_to_retransmit := retrans_num_bytes_to_retransmit e - n,
                  retrans_num_pdus := (if left = 0 then retrans_num_pdus e - 1 else retrans_num_pdus e)\<rparr>) }
      else Some (None, e))"

function retransmit_loop :: "(nat \<Rightarrow> octet list option) \<Rightarrow> 32 word \<Rightarrow> int \<Rightarrow> int \<Rightarrow> int \<Rightarrow> rlc_am_tx_entity \<Rightarrow>
    (octet list option \<times> rlc_am_tx_entity) option" where
  "retransmit_loop alloc now nb_bytes sn sn_end e =
     (if \<not> (sn_range sn \<and> sn_range sn_end \<and> sn \<noteq> sn_end) then None
      else do {
        let p = tx_pdu e sn;
        (found, e1) \<leftarrow> (if tx_retransmit p \<and> \<not> tx_max_retransmit p then retransmit_one alloc nb_bytes sn e else Some (None, e));
        case found of
          Some pdu \<Rightarrow>
            if pdu = [] then None
            else
              let (b1, e2) = rlc_am_pdu_polling now (tx_payload_size (tx_pdu e1 sn)) False (pdu ! 0) e1; q = tx_pdu e2 sn
              in Some (Some (pdu[0 := b1]), set_tx_pdu sn (q\<lparr>tx_retx_count := tx_retx_count_next q\<rparr>) e2)
        | None \<Rightarrow>
            if RLC_AM_NEXT_SN sn \<noteq> sn_end \<and> retrans_num_pdus e1 > 0 then retransmit_loop alloc now nb_bytes (RLC_AM_NEXT_SN sn) sn_end e1
            else Some (None, e1) })"
  by pat_completeness auto

termination
  by (relation "measure (\<lambda>(alloc, now, nb_bytes, sn, sn_end, e). nat (RLC_AM_DIFF_SN sn_end sn))") (use sn_distance in \<open>force split: if_splits\<close>)+

declare retransmit_loop.simps [simp del]

text \<open>The loop begins with its body at VT(A); VT(A) = VT(S) is an assertion.\<close>

definition rlc_am_get_pdu_to_retransmit :: "(nat \<Rightarrow> octet list option) \<Rightarrow> 32 word \<Rightarrow> int \<Rightarrow> rlc_am_tx_entity \<Rightarrow> (octet list option \<times> rlc_am_tx_entity) option" where
  "rlc_am_get_pdu_to_retransmit alloc now nb_bytes e =
     (if retrans_num_pdus e > 0 \<and> vt_a e \<noteq> vt_s e then retransmit_loop alloc now nb_bytes (vt_a e) (vt_s e) e else None)"

end
