(* ===== verification/RlcAmArq.thy ===== *)
theory RlcAmArq
  imports RlcAmBuild RlcAmHistory
begin

text \<open>
  The transmission buffer of RLC acknowledged mode under reports: what acknowledgements and NACKs keep of the counters that the buffer occupancy and
  the choice of PDUs rest on, and what a whole report does.
\<close>

section \<open>Counters of the retransmission buffer\<close>

text \<open>
  A PDU is due for retransmission exactly when octets of it are; then it is there and has not been acknowledged. The counters are the sums over the buffer.
\<close>

definition tx_pdu_ok :: "rlc_am_tx_pdu \<Rightarrow> bool" where
  "tx_pdu_ok p \<longleftrightarrow> 0 \<le> tx_retx_payload_size p \<and> (tx_retransmit p \<longleftrightarrow> 0 < tx_retx_payload_size p) \<and>
     (tx_retransmit p \<longrightarrow> tx_mem_block p \<noteq> None \<and> \<not> tx_ack p)"

definition due :: "rlc_am_tx_pdu \<Rightarrow> int" where
  "due p = (if tx_retransmit p then 1 else 0)"

definition tx_counters_ok :: "rlc_am_tx_entity \<Rightarrow> bool" where
  "tx_counters_ok e \<longleftrightarrow> length (tx_data_pdu_buffer e) = 512 \<and> (\<forall>p \<in> set (tx_data_pdu_buffer e). tx_pdu_ok p) \<and>
     retrans_num_bytes_to_retransmit e = sum_list (map tx_retx_payload_size (tx_data_pdu_buffer e)) \<and>
     retrans_num_pdus e = sum_list (map due (tx_data_pdu_buffer e))"

lemma tx_index_less: "tx_index sn < 512"
  by (simp add: RLC_AM_WINDOW_SIZE_def nat_less_iff)

lemma tx_pdu_in: "tx_counters_ok e \<Longrightarrow> tx_pdu_ok (tx_pdu e sn)"
  using tx_index_less [of sn] by (simp add: tx_counters_ok_def)

lemma sum_list_map_update: "i < length xs \<Longrightarrow> sum_list (map f (xs[i := x])) = sum_list (map f xs) + (f x - f (xs ! i) :: int)"
  by (induction xs arbitrary: i) (auto split: nat.splits)

text \<open>An update of one entry that moves the counters by as much.\<close>

lemma tx_counters_update:
  assumes "tx_counters_ok e" "tx_pdu_ok p"
    and "tx_data_pdu_buffer e' = (tx_data_pdu_buffer e)[tx_index sn := p]"
    and "retrans_num_bytes_to_retransmit e' = retrans_num_bytes_to_retransmit e + (tx_retx_payload_size p - tx_retx_payload_size (tx_pdu e sn))"
    and "retrans_num_pdus e' = retrans_num_pdus e + (due p - due (tx_pdu e sn))"
  shows "tx_counters_ok e'"
proof -
  have i: "tx_index sn < length (tx_data_pdu_buffer e)" using assms(1) tx_index_less [of sn] by (simp add: tx_counters_ok_def)
  have "\<forall>q \<in> set ((tx_data_pdu_buffer e)[tx_index sn := p]). tx_pdu_ok q"
    using assms(1,2) set_update_subset_insert [of "tx_data_pdu_buffer e" "tx_index sn" p] by (auto simp: tx_counters_ok_def)
  then show ?thesis using assms i by (simp add: tx_counters_ok_def sum_list_map_update)
qed

text \<open>Only the buffer and the counters change, and in the buffer one entry; what acknowledgements never change of it.\<close>

definition same_pdu :: "rlc_am_tx_pdu \<Rightarrow> rlc_am_tx_pdu \<Rightarrow> bool" where
  "same_pdu p q \<longleftrightarrow> tx_sn q = tx_sn p \<and> tx_payload_size q = tx_payload_size p \<and> tx_sdus_index q = tx_sdus_index p \<and>
     tx_max_retransmit q = tx_max_retransmit p"

definition arq_rest :: "rlc_am_tx_entity \<Rightarrow> rlc_am_tx_entity" where
  "arq_rest e = e\<lparr>tx_data_pdu_buffer := [], retrans_num_bytes_to_retransmit := 0, retrans_num_pdus := 0\<rparr>"

lemma arq_rest_fields:
  assumes "arq_rest e' = arq_rest e"
  shows "vt_a e' = vt_a e" "vt_s e' = vt_s e" "vt_ms e' = vt_ms e" "poll_sn e' = poll_sn e" "am_input_sdus e' = am_input_sdus e" "am_nb_sdu e' = am_nb_sdu e"
    "am_confirmed e' = am_confirmed e" "am_sdu_buffer_occupancy e' = am_sdu_buffer_occupancy e"
proof -
  show "vt_a e' = vt_a e" "vt_s e' = vt_s e" "vt_ms e' = vt_ms e" "poll_sn e' = poll_sn e" "am_input_sdus e' = am_input_sdus e" "am_nb_sdu e' = am_nb_sdu e"
    "am_confirmed e' = am_confirmed e" "am_sdu_buffer_occupancy e' = am_sdu_buffer_occupancy e"
    using arg_cong [OF assms, of vt_a] arg_cong [OF assms, of vt_s] arg_cong [OF assms, of vt_ms] arg_cong [OF assms, of poll_sn] arg_cong [OF assms, of am_input_sdus]
      arg_cong [OF assms, of am_nb_sdu] arg_cong [OF assms, of am_confirmed] arg_cong [OF assms, of am_sdu_buffer_occupancy] by (simp_all add: arq_rest_def)
qed

definition entry_change :: "int \<Rightarrow> rlc_am_tx_pdu \<Rightarrow> rlc_am_tx_entity \<Rightarrow> rlc_am_tx_entity \<Rightarrow> bool" where
  "entry_change sn p e e' \<longleftrightarrow> same_pdu (tx_pdu e sn) p \<and> tx_data_pdu_buffer e' = (tx_data_pdu_buffer e)[tx_index sn := p] \<and> arq_rest e' = arq_rest e"

lemma ack_counters:
  assumes "tx_counters_ok e"
  shows "\<exists>e' p'. rlc_am_ack_pdu sn free_pdu e = Some e' \<and> tx_counters_ok e' \<and> entry_change sn p' e e' \<and>
    tx_ack p' \<and> \<not> tx_transmitted p' \<and> \<not> tx_retransmit p' \<and> tx_mem_block p' = (if free_pdu then None else tx_mem_block (tx_pdu e sn))"
proof -
  let ?p = "tx_pdu e sn"
  have ok: "tx_pdu_ok ?p" by (rule tx_pdu_in [OF assms])
  define p1 where "p1 = ?p\<lparr>tx_ack := True, tx_transmitted := False, tx_retransmit := False\<rparr>"
  define p' where "p' = (if tx_mem_block ?p = None then p1
      else let p2 = (if free_pdu then p1\<lparr>tx_mem_block := None\<rparr> else p1) in if tx_retx_payload_size ?p \<noteq> 0 then p2\<lparr>tx_retx_payload_size := 0, tx_holes := []\<rparr> else p2)"
  define e' where "e' = (if tx_retx_payload_size ?p \<noteq> 0
      then (set_tx_pdu sn p' e)\<lparr>retrans_num_bytes_to_retransmit := retrans_num_bytes_to_retransmit e - tx_retx_payload_size ?p, retrans_num_pdus := retrans_num_pdus e - 1\<rparr>
      else set_tx_pdu sn p' e)"
  have none: "tx_retx_payload_size ?p = 0" if "tx_mem_block ?p = None" using ok that by (auto simp: tx_pdu_ok_def)
  have r: "rlc_am_ack_pdu sn free_pdu e = Some e'"
    using ok none by (auto simp: rlc_am_ack_pdu_def Let_def e'_def p'_def p1_def tx_pdu_ok_def)
  have f: "tx_retx_payload_size p' = 0" "due p' = 0" "tx_pdu_ok p'" "due ?p = (if tx_retx_payload_size ?p \<noteq> 0 then 1 else 0)"
    using ok none by (auto simp: p'_def p1_def Let_def due_def tx_pdu_ok_def)
  have "tx_counters_ok e'" by (rule tx_counters_update [OF assms f(3)]) (auto simp: e'_def f)
  moreover have "entry_change sn p' e e'" by (auto simp: entry_change_def same_pdu_def arq_rest_def e'_def p'_def p1_def Let_def)
  moreover have "tx_ack p' \<and> \<not> tx_transmitted p' \<and> \<not> tx_retransmit p' \<and> tx_mem_block p' = (if free_pdu then None else tx_mem_block ?p)"
    by (auto simp: p'_def p1_def Let_def)
  ultimately show ?thesis using r by blast
qed

lemma nack_parts:
  assumes "(if full then nack_whole again p else nack_segment again s t p) = Some (p1, n, increment)" "0 < tx_payload_size p"
  shows "0 < n" "same_pdu p p1" "tx_ack p1 = tx_ack p" "tx_mem_block p1 = tx_mem_block p" "tx_transmitted p1 = tx_transmitted p"
    "tx_retransmit p1 = tx_retransmit p" "tx_retx_payload_size p1 = tx_retx_payload_size p" "again \<Longrightarrow> 1 < length (tx_holes p1)"
    "full \<Longrightarrow> tx_nack_so_start p1 = 0"
  using assms by (auto simp: nack_whole_def nack_segment_def Let_def same_pdu_def split: if_splits)

text \<open>A NACK of a PDU that has not been acknowledged. A NACK that is refused changes nothing.\<close>

lemma nack_counters:
  assumes "tx_counters_ok e" "\<not> tx_ack (tx_pdu e sn)" "s \<le> t" "0 < tx_payload_size (tx_pdu e sn)"
  shows "\<exists>b e' p'. rlc_am_nack_pdu sn prev s t e = Some (b, e') \<and> tx_counters_ok e' \<and> entry_change sn p' e e' \<and> \<not> tx_ack p' \<and>
    tx_mem_block p' = tx_mem_block (tx_pdu e sn) \<and> tx_transmitted p' = tx_transmitted (tx_pdu e sn) \<and>
    (s = 0 \<and> t = 0x7FFF \<and> prev \<noteq> sn \<and> tx_mem_block (tx_pdu e sn) \<noteq> None \<and> \<not> tx_max_retransmit (tx_pdu e sn) \<longrightarrow>
       b \<and> tx_retransmit p' \<and> tx_retx_payload_size p' = tx_payload_size (tx_pdu e sn))"
proof -
  let ?p = "tx_pdu e sn" and ?again = "prev = sn" and ?full = "s = 0 \<and> t = 0x7FFF"
  let ?r = "if ?full then nack_whole ?again ?p else nack_segment ?again s t ?p"
  have ok: "tx_pdu_ok ?p" by (rule tx_pdu_in [OF assms(1)])
  have same: "entry_change sn ?p e e" by (simp add: entry_change_def same_pdu_def)
  show ?thesis
  proof (cases "tx_mem_block ?p = None \<or> ?r = None")
    case True
    then have "rlc_am_nack_pdu sn prev s t e = Some (False, e)" using assms(3) by (auto simp: rlc_am_nack_pdu_def Let_def)
    moreover have "\<not> (?full \<and> \<not> ?again \<and> tx_mem_block ?p \<noteq> None \<and> \<not> tx_max_retransmit ?p)" using True assms(2) by (auto simp: nack_whole_def)
    ultimately show ?thesis using assms(1,2) same by blast
  next
    case False
    then obtain p1 n increment where r: "?r = Some (p1, n, increment)" by (metis option.exhaust prod_cases3)
    note f = nack_parts [OF r assms(4)]
    define p2 where "p2 = p1\<lparr>tx_nack := True, tx_retx_count_next :=
        (if increment \<and> tx_retx_count p1 = tx_retx_count_next p1 then s8 (tx_retx_count_next p1 + 1) else tx_retx_count_next p1)\<rparr>"
    define p' where "p' = p2\<lparr>tx_retransmit := True, tx_retx_payload_size := (if tx_retransmit ?p \<and> ?again then tx_retx_payload_size ?p + n else n)\<rparr>"
    define e' where "e' = (set_tx_pdu sn p' e)\<lparr>retrans_num_bytes_to_retransmit := retrans_num_bytes_to_retransmit e + (tx_retx_payload_size p' - tx_retx_payload_size ?p),
        retrans_num_pdus := retrans_num_pdus e + (1 - due ?p)\<rparr>"
    have full: "\<not> (?full \<and> \<not> tx_nack_so_start p1 < tx_payload_size p1)" using f(2,9) assms(4) by (simp add: same_pdu_def)
    have z: "tx_retx_payload_size ?p = 0" if "\<not> tx_retransmit ?p" using ok that by (auto simp: tx_pdu_ok_def)
    have res: "rlc_am_nack_pdu sn prev s t e = Some (True, e')"
    proof -
      have m: "tx_mem_block ?p \<noteq> None" using False by argo
      have "rlc_am_nack_pdu sn prev s t e = Some (True,
                if tx_retransmit p2 then
                  if \<not> ?again
                  then (set_tx_pdu sn (p2\<lparr>tx_retx_payload_size := n\<rparr>) e)
                         \<lparr>retrans_num_bytes_to_retransmit := retrans_num_bytes_to_retransmit e + (n - tx_retx_payload_size p2)\<rparr>
                  else if length (tx_holes p2) > 1
                  then (set_tx_pdu sn (p2\<lparr>tx_retx_payload_size := tx_retx_payload_size p2 + n\<rparr>) e)
                         \<lparr>retrans_num_bytes_to_retransmit := retrans_num_bytes_to_retransmit e + n\<rparr>
                  else set_tx_pdu sn p2 e
                else (set_tx_pdu sn (p2\<lparr>tx_retransmit := True, tx_retx_payload_size := n\<rparr>) e)
                       \<lparr>retrans_num_bytes_to_retransmit := retrans_num_bytes_to_retransmit e + n, retrans_num_pdus := retrans_num_pdus e + 1\<rparr>)"
        unfolding rlc_am_nack_pdu_def Let_def r if_not_P [OF m] if_not_P [OF full] option.case prod.case p2_def using assms(3) by simp
      also have "\<dots> = Some (True, e')"
      proof -
        have h: "tx_retransmit p2 = tx_retransmit ?p" "tx_retx_payload_size p2 = tx_retx_payload_size ?p" "?again \<Longrightarrow> 1 < length (tx_holes p2)"
          using f(6-8) by (simp_all add: p2_def)
        have same: "p2\<lparr>tx_retransmit := True, tx_retx_payload_size := x\<rparr> = p2\<lparr>tx_retx_payload_size := x\<rparr>" if "tx_retransmit ?p" for x
          using h(1) that by (cases p2) simp
        show ?thesis
        proof (cases "tx_retransmit ?p")
          case True
          then show ?thesis using h by (cases ?again) (simp_all add: e'_def p'_def due_def same [OF True])
        next
          case False
          then show ?thesis using h(1) z by (simp add: e'_def p'_def due_def)
        qed
      qed
      finally show ?thesis .
    qed
    have p': "tx_pdu_ok p'" "due p' = 1" "\<not> tx_ack p'" "tx_mem_block p' = tx_mem_block ?p" "tx_transmitted p' = tx_transmitted ?p" "same_pdu ?p p'"
      using ok f(1-5) assms(2) False by (auto simp: p'_def p2_def tx_pdu_ok_def due_def same_pdu_def)
    have "tx_counters_ok e'" by (rule tx_counters_update [OF assms(1) p'(1)]) (simp_all add: e'_def p'(2))
    moreover have "entry_change sn p' e e'" using p'(6) by (simp add: entry_change_def arq_rest_def e'_def)
    moreover have "tx_retransmit p' \<and> tx_retx_payload_size p' = tx_payload_size ?p" if "?full" "\<not> ?again"
      using r that by (auto simp: p'_def nack_whole_def split: if_splits)
    ultimately show ?thesis using res p'(3-5) by blast
  qed
qed

section \<open>Loops over sequence numbers\<close>

text \<open>PDUs are counted without wrap-around; number \<open>m\<close> has the sequence number \<open>m mod 1024\<close> and an entry at \<open>m mod 512\<close>.\<close>

definition entry :: "rlc_am_tx_entity \<Rightarrow> nat \<Rightarrow> rlc_am_tx_pdu" where
  "entry e m = tx_data_pdu_buffer e ! (m mod 512)"

lemma tx_index_mod: "tx_index (sn_mod m) = m mod 512"
proof -
  have "sn_mod m mod 512 = int (m mod 512)" by (simp add: mod_mod_cancel zmod_int)
  then show ?thesis by (simp add: RLC_AM_WINDOW_SIZE_def)
qed

lemma tx_pdu_entry: "tx_pdu e (sn_mod m) = entry e m"
  by (simp only: entry_def tx_index_mod)

lemma same_entry:
  fixes m n :: nat
  shows "m \<le> n + 511 \<Longrightarrow> n \<le> m + 511 \<Longrightarrow> m mod 512 = n mod 512 \<longleftrightarrow> m = n"
proof -
  have aux: "m = n" if "m \<le> n" "n \<le> m + 511" "m mod 512 = n mod 512" for m n :: nat
  proof -
    have "512 dvd n - m" using that mod_eq_dvd_iff_nat [of m n 512] by simp
    then have "n - m = 0" using that(2) dvd_imp_le [of 512 "n - m"] by (cases "n - m = 0") auto
    then show ?thesis using that(1) by simp
  qed
  show "m \<le> n + 511 \<Longrightarrow> n \<le> m + 511 \<Longrightarrow> m mod 512 = n mod 512 \<longleftrightarrow> m = n" using aux [of m n] aux [of n m] by (cases "m \<le> n") auto
qed

definition arq_change :: "rlc_am_tx_entity \<Rightarrow> rlc_am_tx_entity \<Rightarrow> bool" where
  "arq_change e e' \<longleftrightarrow> (\<forall>m. same_pdu (entry e m) (entry e' m)) \<and> arq_rest e' = arq_rest e"

lemma arq_change_refl: "arq_change e e"
  by (simp add: arq_change_def same_pdu_def)

lemma arq_change_trans: "arq_change a b \<Longrightarrow> arq_change b c \<Longrightarrow> arq_change a c"
  by (simp add: arq_change_def same_pdu_def)

lemma entry_changed:
  assumes "entry_change (sn_mod m) p e e'" "tx_counters_ok e"
  shows "arq_change e e'" "entry e' m = p" "n \<le> m + 511 \<Longrightarrow> m \<le> n + 511 \<Longrightarrow> n \<noteq> m \<Longrightarrow> entry e' n = entry e n"
proof -
  have l: "length (tx_data_pdu_buffer e) = 512" using assms(2) by (simp add: tx_counters_ok_def)
  have b: "tx_data_pdu_buffer e' = (tx_data_pdu_buffer e)[m mod 512 := p]" "same_pdu (entry e m) p" "arq_rest e' = arq_rest e"
    using assms(1) unfolding entry_change_def entry_def tx_index_mod by blast+
  show "entry e' m = p" using b(1) l by (simp add: entry_def)
  show "n \<le> m + 511 \<Longrightarrow> m \<le> n + 511 \<Longrightarrow> n \<noteq> m \<Longrightarrow> entry e' n = entry e n" using b(1) same_entry [of n m] by (simp add: entry_def nth_list_update)
  have "same_pdu (entry e n) (entry e' n)" for n
    using b l by (cases "n mod 512 = m mod 512") (simp_all add: entry_def same_pdu_def)
  then show "arq_change e e'" using b(3) by (simp add: arq_change_def)
qed

lemma sn_range_mod: "sn_range (sn_mod m)"
  by (simp add: sn_range_def RLC_AM_SN_MODULO_def)

lemma sn_loop_step:
  assumes "c < n" "n \<le> c + 1023"
  shows "sn_loop body (sn_mod c) (sn_mod n) e = Option.bind (body (sn_mod c) e) (sn_loop body (sn_mod (Suc c)) (sn_mod n))"
  using assms sn_mod_eq [of c n] sn_range_mod [of c] sn_range_mod [of n] by (subst sn_loop.simps) (simp only: am_next, simp)

lemma sn_loop_end [simp]: "sn_loop body sn sn e = Some e"
  by (subst sn_loop.simps) simp

text \<open>What \<open>rlc_am_ack_pdu\<close> leaves behind, with its block or without.\<close>

definition acked :: "bool \<Rightarrow> rlc_am_tx_pdu \<Rightarrow> rlc_am_tx_pdu \<Rightarrow> bool" where
  "acked free_pdu p q \<longleftrightarrow> tx_ack q \<and> \<not> tx_transmitted q \<and> \<not> tx_retransmit q \<and> tx_mem_block q = (if free_pdu then None else tx_mem_block p)"

lemma ack_entry:
  assumes "tx_counters_ok e"
  shows "\<exists>e'. rlc_am_ack_pdu (sn_mod m) free_pdu e = Some e' \<and> tx_counters_ok e' \<and> arq_change e e' \<and> acked free_pdu (entry e m) (entry e' m) \<and>
    (\<forall>n. n \<le> m + 511 \<and> m \<le> n + 511 \<and> n \<noteq> m \<longrightarrow> entry e' n = entry e n)"
proof -
  obtain e' p' where x: "rlc_am_ack_pdu (sn_mod m) free_pdu e = Some e'" "tx_counters_ok e'" "entry_change (sn_mod m) p' e e'"
      "tx_ack p' \<and> \<not> tx_transmitted p' \<and> \<not> tx_retransmit p' \<and> tx_mem_block p' = (if free_pdu then None else tx_mem_block (tx_pdu e (sn_mod m)))"
    using ack_counters [OF assms, of "sn_mod m" free_pdu] by blast
  have "acked free_pdu (entry e m) (entry e' m)" using x(4) unfolding tx_pdu_entry acked_def entry_changed(2) [OF x(3) assms] by blast
  then show ?thesis using x(1,2) entry_changed(1,3) [OF x(3) assms] by blast
qed

lemma ack_until_ok:
  assumes "tx_counters_ok e" "c \<le> n" "n \<le> c + 512"
  shows "\<exists>e'. ack_until (sn_mod c) (sn_mod n) e = Some e' \<and> tx_counters_ok e' \<and> arq_change e e' \<and>
    (\<forall>m. c \<le> m \<and> m < n \<longrightarrow> acked True (entry e m) (entry e' m)) \<and> (\<forall>m. n \<le> m \<and> m < c + 512 \<longrightarrow> entry e' m = entry e m)"
  using assms
proof (induction "n - c" arbitrary: c e)
  case 0
  then show ?case by (auto simp: arq_change_refl)
next
  case (Suc k)
  then have c: "c < n" "k = n - Suc c" by simp_all
  obtain e1 where e1: "rlc_am_ack_pdu (sn_mod c) True e = Some e1" "tx_counters_ok e1" "arq_change e e1" "acked True (entry e c) (entry e1 c)"
      "\<forall>m. m \<le> c + 511 \<and> c \<le> m + 511 \<and> m \<noteq> c \<longrightarrow> entry e1 m = entry e m"
    using ack_entry [OF Suc.prems(1), of c True] by blast
  obtain e' where e': "ack_until (sn_mod (Suc c)) (sn_mod n) e1 = Some e'" "tx_counters_ok e'" "arq_change e1 e'"
      "\<forall>m. Suc c \<le> m \<and> m < n \<longrightarrow> acked True (entry e1 m) (entry e' m)" "\<forall>m. n \<le> m \<and> m < Suc c + 512 \<longrightarrow> entry e' m = entry e1 m"
    using Suc.hyps(1) [OF c(2) e1(2)] c(1) Suc.prems(3) by auto
  have "entry e' c = entry e1 c"
  proof -
    have "entry x c = entry x (c + 512)" for x by (simp add: entry_def)
    then show ?thesis using e'(5) c(1) Suc.prems(3) by (metis add_Suc lessI)
  qed
  then have "acked True (entry e m) (entry e' m)" if "c \<le> m" "m < n" for m
    using that e1(4,5) e'(4) Suc.prems(3) by (cases "m = c") auto
  moreover have "entry e' m = entry e m" if "n \<le> m" "m < c + 512" for m using that e1(5) e'(5) c(1) by auto
  moreover have "ack_until (sn_mod c) (sn_mod n) e = Some e'"
    using sn_loop_step [OF c(1), of "\<lambda>sn. rlc_am_ack_pdu sn True" e] e1(1) e'(1) Suc.prems(3) by (simp del: of_nat_Suc)
  ultimately show ?case using e'(2) arq_change_trans [OF e1(3) e'(3)] by blast
qed

section \<open>A report on whole PDUs\<close>

text \<open>A PDU is scheduled for retransmission as a whole.\<close>

definition scheduled :: "rlc_am_tx_pdu \<Rightarrow> rlc_am_tx_pdu \<Rightarrow> bool" where
  "scheduled p q \<longleftrightarrow> tx_retransmit q \<and> tx_retx_payload_size q = tx_payload_size p \<and> \<not> tx_ack q \<and> tx_mem_block q = tx_mem_block p \<and>
     tx_transmitted q = tx_transmitted p"

definition first_nack :: "int \<Rightarrow> nack_sn_t list \<Rightarrow> int" where
  "first_nack ack ns = (if ns = [] then ack else int (nack_sn (ns ! 0)))"

lemma nacks_name_Nil: "nacks_name ns [] \<longleftrightarrow> ns = []"
  by (auto simp: nacks_name_def)

lemma nacks_name_Cons:
  assumes "nacks_name ns (m # ms)"
  obtains n ns' where "ns = n # ns'" "int (nack_sn n) = sn_mod m" "so_start n = 0" "so_end n = 0x7FFF" "nacks_name ns' ms"
  using assms by (cases ns) (auto simp: nacks_name_def)

lemma first_nack_named: "nacks_name ns ms \<Longrightarrow> first_nack (sn_mod a) ns = sn_mod (if ms = [] then a else hd ms)"
  by (cases ms; cases ns) (auto simp: nacks_name_def first_nack_def)

lemma nack_entry:
  assumes "tx_counters_ok e" "\<not> tx_ack (entry e m)" "0 < tx_payload_size (entry e m)" "tx_mem_block (entry e m) \<noteq> None" "\<not> tx_max_retransmit (entry e m)"
    and "prev \<noteq> sn_mod m"
  shows "\<exists>e'. rlc_am_nack_pdu (sn_mod m) prev 0 0x7FFF e = Some (True, e') \<and> tx_counters_ok e' \<and> arq_change e e' \<and> scheduled (entry e m) (entry e' m) \<and>
    (\<forall>n. n \<le> m + 511 \<and> m \<le> n + 511 \<and> n \<noteq> m \<longrightarrow> entry e' n = entry e n)"
proof -
  have le: "(0 :: int) \<le> 0x7FFF" by simp
  obtain b e' p' where x: "rlc_am_nack_pdu (sn_mod m) prev 0 0x7FFF e = Some (b, e')" "tx_counters_ok e'" "entry_change (sn_mod m) p' e e'" "\<not> tx_ack p'"
      "tx_mem_block p' = tx_mem_block (entry e m)" "tx_transmitted p' = tx_transmitted (entry e m)"
      "(0 :: int) = 0 \<and> (0x7FFF :: int) = 0x7FFF \<and> prev \<noteq> sn_mod m \<and> tx_mem_block (entry e m) \<noteq> None \<and> \<not> tx_max_retransmit (entry e m) \<longrightarrow>
         b \<and> tx_retransmit p' \<and> tx_retx_payload_size p' = tx_payload_size (entry e m)"
    using nack_counters [OF assms(1), of "sn_mod m" 0 "0x7FFF" prev, unfolded tx_pdu_entry, OF assms(2) le assms(3)] by blast
  have y: "b" "tx_retransmit p'" "tx_retx_payload_size p' = tx_payload_size (entry e m)" using x(7) assms(4-6) by blast+
  have "scheduled (entry e m) (entry e' m)" unfolding scheduled_def entry_changed(2) [OF x(3) assms(1)] using x(4-6) y by blast
  moreover have "rlc_am_nack_pdu (sn_mod m) prev 0 0x7FFF e = Some (True, e')" using x(1) y(1) by simp
  ultimately show ?thesis using x(2) entry_changed(1,3) [OF x(3) assms(1)] by blast
qed

lemma first_nack_later:
  assumes "nacks_name ns (filter missing [Suc c..<a])" "c < a"
  shows "\<exists>m. c < m \<and> m \<le> a \<and> first_nack (sn_mod a) ns = sn_mod m"
proof (cases "filter missing [Suc c..<a] = []")
  case True
  then show ?thesis using first_nack_named [OF assms(1), of a] assms(2) by auto
next
  case False
  then have "hd (filter missing [Suc c..<a]) \<in> set (filter missing [Suc c..<a])" by (rule hd_in_set)
  then have "c < hd (filter missing [Suc c..<a])" "hd (filter missing [Suc c..<a]) \<le> a" by (auto simp del: hd_in_set)
  then show ?thesis using first_nack_named [OF assms(1), of a] False by auto
qed

lemma nack_loop_exact:
  assumes "tx_counters_ok e" "c \<le> a" "a \<le> c + 512" "nacks_name ns (filter missing [c..<a])"
    and "\<forall>m. c \<le> m \<and> m < a \<longrightarrow> tx_mem_block (entry e m) \<noteq> None \<and> 0 < tx_payload_size (entry e m) \<and>
      (missing m \<longrightarrow> \<not> tx_ack (entry e m) \<and> \<not> tx_max_retransmit (entry e m))"
    and "\<forall>m. c \<le> m \<and> m \<le> a \<longrightarrow> prev \<noteq> sn_mod m"
  shows "\<exists>e'. nack_loop (sn_mod a) (sn_mod c) (first_nack (sn_mod a) ns) prev ns e = Some (True, e') \<and> tx_counters_ok e' \<and> arq_change e e' \<and>
    (\<forall>m. c \<le> m \<and> m < a \<longrightarrow> (if missing m then scheduled else acked False) (entry e m) (entry e' m)) \<and>
    (\<forall>m. a \<le> m \<and> m < c + 512 \<longrightarrow> entry e' m = entry e m)"
  using assms
proof (induction "a - c" arbitrary: c e ns prev)
  case 0
  then have "c = a" by simp
  then show ?case using 0 by (subst nack_loop.simps) (auto simp: arq_change_refl)
next
  case (Suc k)
  note p = Suc.prems
  have c: "c < a" "k = a - Suc c" using Suc.hyps(2) by simp_all
  have ne: "sn_mod c \<noteq> sn_mod a" "sn_range (sn_mod c)" "sn_range (sn_mod a)" using c(1) p(3) sn_mod_eq [of c a] sn_range_mod by simp_all
  have far: "sn_mod m \<noteq> sn_mod c" if "c < m" "m \<le> a" for m using that p(3) sn_mod_eq [of m c] by simp
  have far': "\<forall>m. Suc c \<le> m \<and> m \<le> a \<longrightarrow> sn_mod c \<noteq> sn_mod m" using far by (metis Suc_le_eq)
  have up: "[c..<a] = c # [Suc c..<a]" using c(1) by (rule upt_conv_Cons)
  have wrap: "entry x (c + 512) = entry x c" for x by (simp add: entry_def)
  have rest: "\<exists>e'. nack_loop (sn_mod a) (sn_mod (Suc c)) (first_nack (sn_mod a) ns1) prev1 ns1 e1 = Some (True, e') \<and> tx_counters_ok e' \<and> arq_change e e' \<and>
      (\<forall>m. c \<le> m \<and> m < a \<longrightarrow> (if missing m then scheduled else acked False) (entry e m) (entry e' m)) \<and>
      (\<forall>m. a \<le> m \<and> m < c + 512 \<longrightarrow> entry e' m = entry e m)"
    if e1: "tx_counters_ok e1" "arq_change e e1" "(if missing c then scheduled else acked False) (entry e c) (entry e1 c)"
      "\<forall>m. m \<le> c + 511 \<and> c \<le> m + 511 \<and> m \<noteq> c \<longrightarrow> entry e1 m = entry e m"
    and ns1: "nacks_name ns1 (filter missing [Suc c..<a])" "\<forall>m. Suc c \<le> m \<and> m \<le> a \<longrightarrow> prev1 \<noteq> sn_mod m" for e1 ns1 prev1
  proof -
    have keep: "entry e1 m = entry e m" if "c < m" "m < c + 512" for m using e1(4) that by simp
    have "\<exists>e'. nack_loop (sn_mod a) (sn_mod (Suc c)) (first_nack (sn_mod a) ns1) prev1 ns1 e1 = Some (True, e') \<and> tx_counters_ok e' \<and> arq_change e1 e' \<and>
        (\<forall>m. Suc c \<le> m \<and> m < a \<longrightarrow> (if missing m then scheduled else acked False) (entry e1 m) (entry e' m)) \<and>
        (\<forall>m. a \<le> m \<and> m < Suc c + 512 \<longrightarrow> entry e' m = entry e1 m)"
      by (rule Suc.hyps(1) [OF c(2) e1(1) _ _ ns1(1) _ ns1(2)]) (use c(1) p(3,5) keep in auto)
    then obtain e' where e': "nack_loop (sn_mod a) (sn_mod (Suc c)) (first_nack (sn_mod a) ns1) prev1 ns1 e1 = Some (True, e')" "tx_counters_ok e'" "arq_change e1 e'"
        "\<And>m. Suc c \<le> m \<Longrightarrow> m < a \<Longrightarrow> (if missing m then scheduled else acked False) (entry e1 m) (entry e' m)"
        "\<And>m. a \<le> m \<Longrightarrow> m < Suc c + 512 \<Longrightarrow> entry e' m = entry e1 m" by blast
    have "entry e' c = entry e1 c" using e'(5) [of "c + 512"] p(3) by (simp add: wrap)
    then have "(if missing m then scheduled else acked False) (entry e m) (entry e' m)" if "c \<le> m" "m < a" for m
      using that e1(3) e'(4) [of m] keep [of m] p(3) by (cases "m = c") auto
    moreover have "entry e' m = entry e m" if "a \<le> m" "m < c + 512" for m using that e'(5) [of m] keep [of m] c(1) by simp
    ultimately show ?thesis using e'(1,2) arq_change_trans [OF e1(2) e'(3)] by blast
  qed
  show ?case
  proof (cases "missing c")
    case True
    then obtain n ns' where ns: "ns = n # ns'" "int (nack_sn n) = sn_mod c" "so_start n = 0" "so_end n = 0x7FFF" "nacks_name ns' (filter missing [Suc c..<a])"
      using p(4) unfolding up by (auto elim: nacks_name_Cons)
    obtain e1 where e1: "rlc_am_nack_pdu (sn_mod c) prev 0 0x7FFF e = Some (True, e1)" "tx_counters_ok e1" "arq_change e e1" "scheduled (entry e c) (entry e1 c)"
        "\<forall>n. n \<le> c + 511 \<and> c \<le> n + 511 \<and> n \<noteq> c \<longrightarrow> entry e1 n = entry e n"
      using nack_entry [OF p(1), of c prev] p(5,6) c(1) True by auto
    have next': "(if ns' = [] then sn_mod a else int (nack_sn (ns' ! 0))) = first_nack (sn_mod a) ns'" by (simp add: first_nack_def)
    have l: "sn_mod c \<noteq> first_nack (sn_mod a) ns'" using first_nack_later [OF ns(5) c(1)] far by fastforce
    have step: "nack_loop (sn_mod a) (sn_mod c) (first_nack (sn_mod a) ns) prev ns e = nack_loop (sn_mod a) (sn_mod (Suc c)) (first_nack (sn_mod a) ns') (sn_mod c) ns' e1"
      using ne ns(1-4) e1(1) l by (subst nack_loop.simps) (simp add: first_nack_def [of _ "n # ns'"] Let_def next' am_next del: of_nat_Suc)
    show ?thesis unfolding step by (rule rest [OF e1(2,3) _ e1(5) ns(5) far']) (use e1(4) True in simp)
  next
    case False
    then have nm: "nacks_name ns (filter missing [Suc c..<a])" using p(4) unfolding up by simp
    obtain e1 where e1: "rlc_am_ack_pdu (sn_mod c) False e = Some e1" "tx_counters_ok e1" "arq_change e e1" "acked False (entry e c) (entry e1 c)"
        "\<forall>n. n \<le> c + 511 \<and> c \<le> n + 511 \<and> n \<noteq> c \<longrightarrow> entry e1 n = entry e n"
      using ack_entry [OF p(1), of c False] by blast
    obtain m where m: "c < m" "m \<le> a" "first_nack (sn_mod a) ns = sn_mod m"
      using first_nack_later [OF nm c(1)] by blast
    have step: "nack_loop (sn_mod a) (sn_mod c) (first_nack (sn_mod a) ns) prev ns e = nack_loop (sn_mod a) (sn_mod (Suc c)) (first_nack (sn_mod a) ns) prev ns e1"
      using ne e1(1) m far [OF m(1,2)] p(6) by (subst nack_loop.simps) (auto simp: am_next simp del: of_nat_Suc)
    show ?thesis unfolding step by (rule rest) (use e1(2-5) False nm p(6) in auto)
  qed
qed

section \<open>Confirmation of SDUs\<close>

definition tx_sdus_ok :: "rlc_am_tx_entity \<Rightarrow> bool" where
  "tx_sdus_ok e \<longleftrightarrow> length (am_input_sdus e) = 1024 \<and> (\<forall>s \<in> set (am_input_sdus e). am_sdu_remaining_size s = 0 \<longrightarrow> am_sdu_block s = None) \<and>
     (\<forall>p \<in> set (tx_data_pdu_buffer e). \<forall>i \<in> set (tx_sdus_index p). 0 \<le> i \<and> i < 1024)"

definition sdu_rest :: "rlc_am_tx_entity \<Rightarrow> rlc_am_tx_entity" where
  "sdu_rest e = e\<lparr>am_input_sdus := [], am_nb_sdu := 0, am_current_sdu_index := 0, am_confirmed := []\<rparr>"

lemma sdu_rest_fields:
  assumes "sdu_rest e' = sdu_rest e"
  shows "vt_a e' = vt_a e" "vt_s e' = vt_s e" "vt_ms e' = vt_ms e" "poll_sn e' = poll_sn e" "tx_data_pdu_buffer e' = tx_data_pdu_buffer e"
    "retrans_num_pdus e' = retrans_num_pdus e" "retrans_num_bytes_to_retransmit e' = retrans_num_bytes_to_retransmit e"
  using arg_cong [OF assms, of vt_a] arg_cong [OF assms, of vt_s] arg_cong [OF assms, of vt_ms] arg_cong [OF assms, of poll_sn] arg_cong [OF assms, of tx_data_pdu_buffer]
    arg_cong [OF assms, of retrans_num_pdus] arg_cong [OF assms, of retrans_num_bytes_to_retransmit] by (simp_all add: sdu_rest_def)

lemma skip_successful_rest: "sdu_rest (skip_successful n e) = sdu_rest e \<and> am_input_sdus (skip_successful n e) = am_input_sdus e"
  by (induction n e rule: skip_successful.induct) (auto simp: sdu_rest_def)

lemma sdus_ok_update:
  assumes "tx_sdus_ok e" "i < 1024" "am_sdu_remaining_size s = 0 \<longrightarrow> am_sdu_block s = None" "am_input_sdus e' = (am_input_sdus e)[i := s]" "tx_data_pdu_buffer e' = tx_data_pdu_buffer e"
  shows "tx_sdus_ok e'"
  using assms set_update_subset_insert [of "am_input_sdus e" i s] by (auto simp: tx_sdus_ok_def)

lemma sdu_data_cnf_ok:
  assumes "tx_sdus_ok e" "0 \<le> i" "i < 1024"
  shows "\<exists>e'. sdu_data_cnf i e = Some e' \<and> tx_sdus_ok e' \<and> sdu_rest e' = sdu_rest e"
proof -
  define s where "s = am_input_sdus e ! nat i"
  define s1 where "s1 = s\<lparr>am_sdu_nb_pdus_ack := (am_sdu_nb_pdus_ack s + 1) mod 256\<rparr>"
  define e1 where "e1 = e\<lparr>am_input_sdus := (am_input_sdus e)[nat i := s1]\<rparr>"
  have l: "length (am_input_sdus e) = 1024" "nat i < 1024" using assms by (auto simp: tx_sdus_ok_def)
  have s: "am_sdu_remaining_size s = 0 \<longrightarrow> am_sdu_block s = None" using assms(1) l by (auto simp: tx_sdus_ok_def s_def)
  have e1: "tx_sdus_ok e1" "sdu_rest e1 = sdu_rest e"
    using sdus_ok_update [OF assms(1) l(2), of s1 e1] s by (auto simp: e1_def s1_def sdu_rest_def)
  have range: "\<not> \<not> (0 \<le> i \<and> i < int RLC_AM_SDU_CONTROL_BUFFER_SIZE \<and> nat i < length (am_input_sdus e))"
    using assms(2,3) l by (simp add: RLC_AM_SDU_CONTROL_BUFFER_SIZE_def)
  have eq: "sdu_data_cnf i e = (if am_sdu_nb_pdus_ack s1 = length (am_sdu_pdus_index s1) \<and> am_sdu_remaining_size s1 = 0
      then rlc_am_free_in_sdu (nat i) (e1\<lparr>am_confirmed := am_confirmed e1 @ [am_sdu_mui s1]\<rparr>) else Some e1)"
    unfolding sdu_data_cnf_def Let_def if_not_P [OF range] s_def [symmetric] s1_def [symmetric] e1_def [symmetric] ..
  show ?thesis
  proof (cases "am_sdu_nb_pdus_ack s1 = length (am_sdu_pdus_index s1) \<and> am_sdu_remaining_size s1 = 0")
    case False
    then show ?thesis unfolding eq using e1 by auto
  next
    case True
    define e2 where "e2 = e1\<lparr>am_confirmed := am_confirmed e1 @ [am_sdu_mui s1]\<rparr>"
    have step: "sdu_data_cnf i e = rlc_am_free_in_sdu (nat i) e2" unfolding eq if_P [OF True] e2_def ..
    define e3 where "e3 = e2\<lparr>am_nb_sdu := am_nb_sdu e2 - 1, am_input_sdus := (am_input_sdus e2)[nat i := am_no_sdu\<lparr>am_sdu_transmitted_successfully := True\<rparr>]\<rparr>"
    define e4 where "e4 = (if am_current_sdu_index e3 = nat i then e3\<lparr>am_current_sdu_index := (am_current_sdu_index e3 + 1) mod RLC_AM_SDU_CONTROL_BUFFER_SIZE\<rparr> else e3)"
    have "am_sdu_block (am_input_sdus e2 ! nat i) = None" "length (am_input_sdus e2) = 1024" using True s l by (auto simp: e2_def e1_def s1_def)
    then have free: "rlc_am_free_in_sdu (nat i) e2 = Some (skip_successful RLC_AM_SDU_CONTROL_BUFFER_SIZE e4)"
      using l by (simp add: rlc_am_free_in_sdu_def RLC_AM_SDU_CONTROL_BUFFER_SIZE_def Let_def e3_def e4_def)
    have "tx_sdus_ok e2" using e1(1) by (simp add: e2_def tx_sdus_ok_def)
    then have "tx_sdus_ok e4" using sdus_ok_update [of e2 "nat i" "am_no_sdu\<lparr>am_sdu_transmitted_successfully := True\<rparr>" e4] l by (auto simp: e4_def e3_def am_no_sdu_def)
    moreover have "sdu_rest e4 = sdu_rest e" using e1(2) by (auto simp: e4_def e3_def e2_def sdu_rest_def)
    moreover have "tx_data_pdu_buffer (skip_successful n e4) = tx_data_pdu_buffer e4" for n using skip_successful_rest [of n e4] sdu_rest_fields(5) by blast
    ultimately show ?thesis
      unfolding step free using skip_successful_rest [of RLC_AM_SDU_CONTROL_BUFFER_SIZE e4] by (auto simp: tx_sdus_ok_def)
  qed
qed

lemma sdus_data_cnf_ok:
  "tx_sdus_ok e \<Longrightarrow> \<forall>i \<in> set is. 0 \<le> i \<and> i < 1024 \<Longrightarrow> \<exists>e'. sdus_data_cnf is e = Some e' \<and> tx_sdus_ok e' \<and> sdu_rest e' = sdu_rest e"
proof (induction "is" arbitrary: e)
  case (Cons i "is")
  obtain e1 where "sdu_data_cnf i e = Some e1" "tx_sdus_ok e1" "sdu_rest e1 = sdu_rest e" using sdu_data_cnf_ok [of e i] Cons.prems by auto
  moreover from this(2) obtain e' where "sdus_data_cnf is e1 = Some e'" "tx_sdus_ok e'" "sdu_rest e' = sdu_rest e1" using Cons.IH [of e1] Cons.prems by auto
  ultimately show ?case by simp
qed simp

lemma pdu_sdu_data_cnf_ok:
  assumes "tx_sdus_ok e" "length (tx_data_pdu_buffer e) = 512"
  shows "\<exists>e'. rlc_am_pdu_sdu_data_cnf sn e = Some e' \<and> tx_sdus_ok e' \<and> sdu_rest e' = sdu_rest e"
proof -
  have "tx_pdu e sn \<in> set (tx_data_pdu_buffer e)" using assms(2) tx_index_less [of sn] by simp
  then have "\<forall>i \<in> set (take n (tx_sdus_index (tx_pdu e sn))). 0 \<le> i \<and> i < 1024" for n
    using assms(1) set_take_subset [of n "tx_sdus_index (tx_pdu e sn)"] unfolding tx_sdus_ok_def by blast
  then show ?thesis unfolding rlc_am_pdu_sdu_data_cnf_def Let_def by (rule sdus_data_cnf_ok [OF assms(1)])
qed

lemma confirm_loop_ok:
  assumes "tx_sdus_ok e" "length (tx_data_pdu_buffer e) = 512" "c \<le> n" "n \<le> c + 512"
  shows "\<exists>e'. sn_loop rlc_am_pdu_sdu_data_cnf (sn_mod c) (sn_mod n) e = Some e' \<and> tx_sdus_ok e' \<and> sdu_rest e' = sdu_rest e"
  using assms
proof (induction "n - c" arbitrary: c e)
  case (Suc k)
  then have c: "c < n" "k = n - Suc c" by simp_all
  obtain e1 where e1: "rlc_am_pdu_sdu_data_cnf (sn_mod c) e = Some e1" "tx_sdus_ok e1" "sdu_rest e1 = sdu_rest e"
    using pdu_sdu_data_cnf_ok [OF Suc.prems(1,2)] by blast
  obtain e' where "sn_loop rlc_am_pdu_sdu_data_cnf (sn_mod (Suc c)) (sn_mod n) e1 = Some e'" "tx_sdus_ok e'" "sdu_rest e' = sdu_rest e1"
    using Suc.hyps(1) [OF c(2) e1(2)] sdu_rest_fields(5) [OF e1(3)] Suc.prems(2,4) c(1) by auto
  then show ?case using e1 sn_loop_step [OF c(1), of rlc_am_pdu_sdu_data_cnf e] Suc.prems(4) by (simp del: of_nat_Suc)
qed simp

section \<open>Processing of a report\<close>

text \<open>
  The transmitting window: PDUs from \<open>a\<close> on are not acknowledged in sequence, \<open>s\<close> is the next new one. Those between are in the buffer, and no other entry
  counts as transmitted or is due.
\<close>

definition tx_window :: "nat \<Rightarrow> nat \<Rightarrow> rlc_am_tx_entity \<Rightarrow> bool" where
  "tx_window a s e \<longleftrightarrow> a \<le> s \<and> s \<le> a + 512 \<and> vt_a e = sn_mod a \<and> vt_s e = sn_mod s \<and>
     (\<forall>m. a \<le> m \<and> m < s \<longrightarrow> tx_mem_block (entry e m) \<noteq> None \<and> 0 < tx_payload_size (entry e m) \<and> tx_sn (entry e m) = sn_mod m) \<and>
     (\<forall>m. s \<le> m \<and> m < a + 512 \<longrightarrow> \<not> tx_transmitted (entry e m) \<and> \<not> tx_retransmit (entry e m))"

definition first_missing :: "(nat \<Rightarrow> bool) \<Rightarrow> nat \<Rightarrow> nat \<Rightarrow> nat" where
  "first_missing missing a b = (if filter missing [a..<b] = [] then b else hd (filter missing [a..<b]))"

lemma first_missing:
  assumes "a \<le> b"
  shows "a \<le> first_missing missing a b" "first_missing missing a b \<le> b" "a \<le> m \<Longrightarrow> m < first_missing missing a b \<Longrightarrow> \<not> missing m"
    "first_missing missing a b < b \<Longrightarrow> missing (first_missing missing a b)"
    "filter missing [a..<b] = filter missing [first_missing missing a b..<b]"
proof -
  let ?f = "first_missing missing a b"
  have f: "a \<le> ?f \<and> ?f \<le> b \<and> (\<forall>m. a \<le> m \<and> m < ?f \<longrightarrow> \<not> missing m) \<and> (?f < b \<longrightarrow> missing ?f)"
  proof (cases "filter missing [a..<b]")
    case Nil
    then have "\<not> missing m" if "a \<le> m" "m < b" for m using that by (auto simp: filter_empty_conv)
    then show ?thesis using Nil assms by (auto simp: first_missing_def)
  next
    case (Cons x xs)
    have "sorted_wrt (<) (filter missing [a..<b])" by (simp add: sorted_wrt_filter)
    then have "\<forall>y \<in> set xs. x < y" unfolding Cons by simp
    moreover have mem: "set (x # xs) = {m. a \<le> m \<and> m < b \<and> missing m}" using arg_cong [OF Cons, of set] by auto
    then have "x \<in> {m. a \<le> m \<and> m < b \<and> missing m}" by auto
    moreover have "m \<in> set (x # xs)" if "a \<le> m" "m < b" "missing m" for m unfolding mem using that by simp
    ultimately show ?thesis using Cons by (force simp: first_missing_def)
  qed
  then show "a \<le> ?f" "?f \<le> b" "a \<le> m \<Longrightarrow> m < ?f \<Longrightarrow> \<not> missing m" "?f < b \<Longrightarrow> missing ?f" by blast+
  have "[a..<b] = [a..<?f] @ [?f..<b]" using f by (metis le_add_diff_inverse upt_add_eq_append)
  then have "filter missing [a..<b] = filter missing [a..<?f] @ filter missing [?f..<b]" by (metis filter_append)
  moreover have "filter missing [a..<?f] = []" using f by (auto simp: filter_empty_conv)
  ultimately show "filter missing [a..<b] = filter missing [?f..<b]" by simp
qed

lemma prev_sn: "RLC_AM_PREV_SN (sn_mod m) = sn_mod (m + 1023)"
proof -
  have "(sn_mod m + 1023) mod 1024 = (int m + 1023) mod 1024" by (rule mod_add_left_eq)
  then show ?thesis by (simp add: RLC_AM_PREV_SN_def RLC_AM_SN_MODULO_def add.commute)
qed

lemma first_nack_missing: "nacks_name ns (filter missing [a..<b]) \<Longrightarrow> first_nack (sn_mod b) ns = sn_mod (first_missing missing a b)"
  by (simp add: first_nack_named first_missing_def)

text \<open>What the acknowledgements and NACKs of a report make of the buffer, with \<open>f\<close> the first PDU that is missing.\<close>

definition report_applied :: "(nat \<Rightarrow> bool) \<Rightarrow> nat \<Rightarrow> nat \<Rightarrow> nat \<Rightarrow> rlc_am_tx_entity \<Rightarrow> rlc_am_tx_entity \<Rightarrow> bool" where
  "report_applied missing a f b e e' \<longleftrightarrow> (\<forall>m. a \<le> m \<and> m < f \<longrightarrow> acked True (entry e m) (entry e' m)) \<and>
     (\<forall>m. f \<le> m \<and> m < b \<longrightarrow> (if missing m then scheduled else acked False) (entry e m) (entry e' m)) \<and>
     (\<forall>m. b \<le> m \<and> m < a + 512 \<longrightarrow> entry e' m = entry e m)"

lemma apply_report_exact:
  assumes "tx_counters_ok e" "tx_window a s e" "a \<le> b" "b \<le> s" "nacks_name ns (filter missing [a..<b])"
    and "\<forall>m. a \<le> m \<and> m < b \<and> missing m \<longrightarrow> \<not> tx_ack (entry e m) \<and> \<not> tx_max_retransmit (entry e m)" "f = first_missing missing a b"
  shows "\<exists>e' sn all. am_apply_report (sn_mod b) ns e = Some (True, sn_mod f, sn, all, e') \<and> tx_counters_ok e' \<and> arq_change e e' \<and>
    report_applied missing a f b e e' \<and> (sn = sn_mod (f + 1023) \<or> sn = sn_mod f \<and> f < b)"
proof -
  have b: "b \<le> a + 512" "vt_a e = sn_mod a" using assms(2,4) by (auto simp: tx_window_def)
  have f: "a \<le> f" "f \<le> b" "filter missing [a..<b] = filter missing [f..<b]" "f < b \<Longrightarrow> missing f"
    using first_missing [OF assms(3), where missing = missing] assms(7) by simp_all
  obtain e1 where e1: "ack_until (sn_mod a) (sn_mod f) e = Some e1" "tx_counters_ok e1" "arq_change e e1"
      "\<forall>m. a \<le> m \<and> m < f \<longrightarrow> acked True (entry e m) (entry e1 m)" "\<forall>m. f \<le> m \<and> m < a + 512 \<longrightarrow> entry e1 m = entry e m"
    using ack_until_ok [OF assms(1) f(1)] f(2) b(1) by auto
  show ?thesis
  proof (cases "ns = []")
    case True
    then have "filter missing [a..<b] = []" using assms(5) by (simp add: nacks_name_def)
    then have "f = b" by (simp add: assms(7) first_missing_def)
    then have "am_apply_report (sn_mod b) ns e = Some (True, sn_mod f, sn_mod (f + 1023), True, e1)"
      using True e1(1) b(2) by (simp add: am_apply_report_def prev_sn)
    moreover have "report_applied missing a f b e e1" using e1(4,5) \<open>f = b\<close> by (auto simp: report_applied_def)
    ultimately show ?thesis using e1(2,3) by blast
  next
    case False
    then obtain n ns' where ns: "ns = n # ns'" by (cases ns) auto
    then have n: "int (nack_sn n) = sn_mod f" using first_nack_missing [OF assms(5)] assms(7) by (simp add: first_nack_def)
    have fb: "f < b" using False f(2) assms(5) nacks_name_Nil unfolding f(3) by (cases "f = b") auto
    have w: "\<forall>m. f \<le> m \<and> m < b \<longrightarrow> tx_mem_block (entry e1 m) \<noteq> None \<and> 0 < tx_payload_size (entry e1 m) \<and>
        (missing m \<longrightarrow> \<not> tx_ack (entry e1 m) \<and> \<not> tx_max_retransmit (entry e1 m))"
      using assms(2,4,6) e1(5) f(1) b(1) by (auto simp: tx_window_def)
    have prev: "\<forall>m. f \<le> m \<and> m \<le> b \<longrightarrow> (0x3FFF :: int) \<noteq> sn_mod m"
    proof (intro allI impI)
      fix m :: nat
      have "sn_mod m < 1024" by simp
      then show "(0x3FFF :: int) \<noteq> sn_mod m" by linarith
    qed
    obtain e' where e': "nack_loop (sn_mod b) (sn_mod f) (first_nack (sn_mod b) ns) 0x3FFF ns e1 = Some (True, e')" "tx_counters_ok e'" "arq_change e1 e'"
        "\<forall>m. f \<le> m \<and> m < b \<longrightarrow> (if missing m then scheduled else acked False) (entry e1 m) (entry e' m)"
        "\<forall>m. b \<le> m \<and> m < f + 512 \<longrightarrow> entry e' m = entry e1 m"
      using nack_loop_exact [OF e1(2) f(2) _ assms(5) [unfolded f(3)] w prev] f(1) b(1) by auto
    have loop: "nack_loop (sn_mod b) (sn_mod f) (sn_mod f) 0x3FFF ns e1 = Some (True, e')"
      using e'(1) first_nack_missing [OF assms(5)] assms(7) by simp
    have res: "\<exists>sn all. am_apply_report (sn_mod b) ns e = Some (True, sn_mod f, sn, all, e') \<and> (sn = sn_mod (f + 1023) \<or> sn = sn_mod f)"
      unfolding am_apply_report_def using ns n b(2) e1(1) loop prev_sn [of f] by (simp add: Let_def del: of_nat_add)
    have wrap: "entry x (m + 512) = entry x m" for x m by (simp add: entry_def)
    have "acked True (entry e m) (entry e' m)" if "a \<le> m" "m < f" for m
    proof -
      have "entry e' (m + 512) = entry e1 (m + 512)" using e'(5) that f(2) b(1) by simp
      then show ?thesis using e1(4) that by (simp add: wrap)
    qed
    moreover have "(if missing m then scheduled else acked False) (entry e m) (entry e' m)" if "f \<le> m" "m < b" for m
      using e'(4) e1(5) that b(1) by (metis order_less_le_trans)
    moreover have "entry e' m = entry e m" if "b \<le> m" "m < a + 512" for m using e'(5) e1(5) that f(1,2) by auto
    ultimately have "report_applied missing a f b e e'" unfolding report_applied_def by blast
    then show ?thesis using res e'(2) arq_change_trans [OF e1(3) e'(3)] fb by blast
  qed
qed

lemma window_fields:
  assumes "tx_window a s e" "a \<le> m" "m < s"
  shows "tx_mem_block (entry e m) \<noteq> None" "0 < tx_payload_size (entry e m)" "tx_sn (entry e m) = sn_mod m"
  using assms by (simp_all add: tx_window_def)

definition pdus_kept :: "rlc_am_tx_entity \<Rightarrow> rlc_am_tx_entity \<Rightarrow> bool" where
  "pdus_kept e e' \<longleftrightarrow> vt_a e' = vt_a e \<and> vt_s e' = vt_s e \<and> (\<forall>m. same_pdu (entry e m) (entry e' m))"

lemma arq_change_kept: "arq_change e e' \<Longrightarrow> pdus_kept e e'"
  using arq_rest_fields(1,2) [of e' e] by (simp add: arq_change_def pdus_kept_def)

lemma applied_window:
  assumes "tx_window a s e" "a \<le> f" "f \<le> b" "b \<le> s" "report_applied missing a f b e e'" "pdus_kept e e'"
  shows "tx_window f s (e'\<lparr>vt_a := sn_mod f, vt_ms := x\<rparr>)"
proof -
  have r: "a \<le> s" "s \<le> a + 512" "vt_s e' = sn_mod s" using assms(1,6) by (auto simp: tx_window_def pdus_kept_def)
  have ent: "entry (e'\<lparr>vt_a := sn_mod f, vt_ms := x\<rparr>) m = entry e' m" for m by (simp add: entry_def)
  have same: "tx_payload_size (entry e' m) = tx_payload_size (entry e m)" "tx_sn (entry e' m) = tx_sn (entry e m)" for m
    using assms(6) by (auto simp: pdus_kept_def same_pdu_def)
  have "tx_mem_block (entry e' m) = tx_mem_block (entry e m)" if "f \<le> m" "m < s" for m
    using assms(5) that assms(2,4) r by (cases "m < b") (auto simp: report_applied_def acked_def scheduled_def split: if_splits)
  moreover have "\<not> tx_transmitted (entry e' m) \<and> \<not> tx_retransmit (entry e' m)" if "s \<le> m" "m < f + 512" for m
  proof (cases "m < a + 512")
    case True
    then show ?thesis using assms(1,4,5) that by (auto simp: report_applied_def tx_window_def)
  next
    case False
    have "entry e' m = entry e' (m - 512)" using False by (simp add: entry_def le_mod_geq)
    moreover have "a \<le> m - 512" "m - 512 < f" using that False by linarith+
    then have "acked True (entry e (m - 512)) (entry e' (m - 512))" using assms(5) unfolding report_applied_def by blast
    ultimately show ?thesis by (simp add: acked_def)
  qed
  ultimately show ?thesis using window_fields [OF assms(1)] assms(2-4) r unfolding tx_window_def ent by (auto simp: same)
qed

text \<open>Nothing is confirmed unless a part of the first PDU that is missing had been sent again before.\<close>

lemma confirm_nothing:
  assumes "tx_window a s e0" "a \<le> f" "f \<le> b" "b \<le> s" "report_applied missing a f b e0 e" "pdus_kept e0 e"
  shows "am_confirm_sdus (sn_mod (f + 1023)) all e = Some e"
proof -
  let ?sn = "sn_mod (f + 1023)"
  have i: "tx_pdu e ?sn = entry e (f + 511)" unfolding tx_pdu_entry entry_def using mod_add_self2 [of "f + 511" 512] by (simp add: ac_simps)
  have "\<not> (tx_transmitted (entry e (f + 511)) \<and> tx_sn (entry e (f + 511)) = ?sn)"
  proof (cases "s \<le> f + 511")
    case True
    then show ?thesis using applied_window [OF assms(1-6), of "vt_ms e"] by (auto simp: tx_window_def entry_def)
  next
    case False
    have "a = f" "s = f + 512" using False assms(1-4) by (auto simp: tx_window_def)
    then have "tx_sn (entry e (f + 511)) = sn_mod (f + 511)"
      using window_fields(3) [OF assms(1), of "f + 511"] assms(6) by (simp add: pdus_kept_def same_pdu_def)
    moreover have "sn_mod (f + 511) \<noteq> ?sn" by (subst sn_mod_eq) simp_all
    ultimately show ?thesis by simp
  qed
  then show ?thesis unfolding am_confirm_sdus_def i by (rule if_not_P)
qed

lemma confirm_ok:
  assumes "tx_window a s e0" "a \<le> f" "f \<le> b" "b \<le> s" "report_applied missing a f b e0 e" "pdus_kept e0 e" "tx_counters_ok e" "tx_sdus_ok e"
    and "sn = sn_mod (f + 1023) \<or> sn = sn_mod f \<and> f < b"
  shows "\<exists>e'. am_confirm_sdus sn all e = Some e' \<and> tx_sdus_ok e' \<and> sdu_rest e' = sdu_rest e"
  using assms(9)
proof
  assume "sn = sn_mod (f + 1023)"
  then show ?thesis using confirm_nothing [OF assms(1-6), of all] assms(8) by blast
next
  assume sn: "sn = sn_mod f \<and> f < b"
  have l: "length (tx_data_pdu_buffer e) = 512" "vt_a e = sn_mod a" "f \<le> a + 512"
    using assms(1,3,4,6,7) by (auto simp: tx_counters_ok_def tx_window_def pdus_kept_def)
  obtain e1 where e1: "sn_loop rlc_am_pdu_sdu_data_cnf (sn_mod a) (sn_mod f) e = Some e1" "tx_sdus_ok e1" "sdu_rest e1 = sdu_rest e"
    using confirm_loop_ok [OF assms(8) l(1) assms(2) l(3)] by blast
  moreover obtain e2 where "rlc_am_pdu_sdu_data_cnf (sn_mod f) e1 = Some e2" "tx_sdus_ok e2" "sdu_rest e2 = sdu_rest e1"
    using pdu_sdu_data_cnf_ok [OF e1(2)] sdu_rest_fields(5) [OF e1(3)] l(1) by auto
  ultimately show ?thesis using sn l(2) assms(8) by (auto simp: am_confirm_sdus_def)
qed

lemma stop_poll_fields [simp]:
  "tx_data_pdu_buffer (am_stop_poll ack e) = tx_data_pdu_buffer e" "vt_a (am_stop_poll ack e) = vt_a e" "vt_s (am_stop_poll ack e) = vt_s e"
  "am_input_sdus (am_stop_poll ack e) = am_input_sdus e" "retrans_num_pdus (am_stop_poll ack e) = retrans_num_pdus e"
  "retrans_num_bytes_to_retransmit (am_stop_poll ack e) = retrans_num_bytes_to_retransmit e"
  by (simp_all add: am_stop_poll_def rlc_am_stop_and_reset_timer_poll_retransmit_def)

text \<open>
  The transmitter follows a report on whole PDUs: it frees what lies before the first PDU missing, keeps the rest, schedules each PDU that is missing and
  takes back what had been scheduled of the others.
\<close>

definition follows_report :: "(nat \<Rightarrow> bool) \<Rightarrow> nat \<Rightarrow> nat \<Rightarrow> nat \<Rightarrow> rlc_am_tx_entity \<Rightarrow> rlc_am_tx_entity \<Rightarrow> bool" where
  "follows_report missing a b s e e' \<longleftrightarrow> (let f = first_missing missing a b in
     tx_window f s e' \<and> tx_counters_ok e' \<and> tx_sdus_ok e' \<and> vt_ms e' = sn_mod (f + 512) \<and> report_applied missing a f b e e' \<and>
     (\<forall>m. same_pdu (entry e m) (entry e' m)))"

lemma control_pdu_exact:
  assumes "tx_counters_ok e" "tx_window a s e" "tx_sdus_ok e" "rlc_am_get_control_pdu_infos pdu tb = Some (0, n, info)" "int (ack_sn info) = sn_mod b"
    and "a \<le> b" "b \<le> s" "nacks_name (nack_list info) (filter missing [a..<b])"
    and "\<forall>m. a \<le> m \<and> m < b \<and> missing m \<longrightarrow> \<not> tx_ack (entry e m) \<and> \<not> tx_max_retransmit (entry e m)"
  shows "\<exists>e'. rlc_am_receive_process_control_pdu pdu tb e = Some (n, e') \<and> follows_report missing a b s e e'"
proof -
  define f where "f = first_missing missing a b"
  have f: "a \<le> f" "f \<le> b" using first_missing(1,2) [OF assms(6), of missing] by (simp_all add: f_def)
  have w: "vt_a e = sn_mod a" "vt_s e = sn_mod s" "s \<le> a + 512" "a \<le> s" using assms(2) by (simp_all add: tx_window_def)
  have len: "length (nack_list info) \<le> 512"
  proof -
    have "length (nack_list info) = length (filter missing [a..<b])" using assms(8) by (metis length_map nacks_name_def)
    also have "\<dots> \<le> b - a" by (metis length_filter_le length_upt)
    finally show ?thesis using assms(7) w(3) by simp
  qed
  obtain e1 sn all where e1: "am_apply_report (sn_mod b) (nack_list info) e = Some (True, sn_mod f, sn, all, e1)" "tx_counters_ok e1" "arq_change e e1"
      "report_applied missing a f b e e1" "sn = sn_mod (f + 1023) \<or> sn = sn_mod f \<and> f < b"
    using apply_report_exact [OF assms(1,2,6,7,8,9) f_def] by blast
  let ?e1 = "am_stop_poll (sn_mod b) e1"
  have sdus: "tx_sdus_ok e1"
  proof -
    have "\<forall>i \<in> set (tx_sdus_index p). 0 \<le> i \<and> i < 1024" if p: "p \<in> set (tx_data_pdu_buffer e1)" for p
    proof -
      have "length (tx_data_pdu_buffer e1) = 512" using e1(2) by (simp add: tx_counters_ok_def)
      then obtain k where k: "k < 512" "p = tx_data_pdu_buffer e1 ! k"
        using p by (metis in_set_conv_nth)
      have "entry e1 k = p" using k by (simp add: entry_def)
      moreover have "same_pdu (entry e k) (entry e1 k)" using e1(3) unfolding arq_change_def by blast
      ultimately have "tx_sdus_index p = tx_sdus_index (entry e k)" by (simp add: same_pdu_def)
      moreover have "entry e k \<in> set (tx_data_pdu_buffer e)" using k(1) assms(1) by (simp add: entry_def tx_counters_ok_def)
      ultimately show ?thesis using assms(3) by (simp add: tx_sdus_ok_def)
    qed
    then show ?thesis using assms(3) arq_rest_fields(5) [of e1 e] e1(3) by (simp add: tx_sdus_ok_def arq_change_def)
  qed
  have ent: "entry ?e1 m = entry e1 m" for m by (simp add: entry_def)
  have ok1: "tx_sdus_ok ?e1" "tx_counters_ok ?e1" using sdus e1(2) by (simp_all add: tx_sdus_ok_def tx_counters_ok_def)
  have app: "report_applied missing a f b e ?e1" using e1(4) by (simp add: report_applied_def ent)
  have kept: "pdus_kept e ?e1" using arq_change_kept [OF e1(3)] by (simp add: pdus_kept_def ent)
  obtain e2 where e2: "am_confirm_sdus sn all ?e1 = Some e2" "tx_sdus_ok e2" "sdu_rest e2 = sdu_rest ?e1"
    using confirm_ok [OF assms(2) f assms(7) app kept ok1(2,1) e1(5)] by blast
  let ?e' = "e2\<lparr>vt_a := sn_mod f, vt_ms := (sn_mod f + RLC_AM_WINDOW_SIZE) mod RLC_AM_SN_MODULO\<rparr>"
  have "RLC_AM_DIFF_SN (vt_s e) (vt_a e) \<ge> RLC_AM_DIFF_SN (sn_mod b) (vt_a e)" "sn_mod b < RLC_AM_SN_MODULO"
    unfolding w(1,2) using am_diff [of a s] am_diff [of a b] w(3,4) assms(6,7) by (simp_all add: RLC_AM_SN_MODULO_def)
  then have "rlc_am_receive_process_control_pdu pdu tb e = Some (n, ?e')"
    using assms(4,5) len e1(1) e2(1) by (simp add: rlc_am_receive_process_control_pdu_def RLC_AM_MAX_NACK_IN_STATUS_PDU_def Let_def)
  moreover have "follows_report missing a b s e ?e'"
  proof -
    note r = sdu_rest_fields [OF e2(3)]
    have ent2: "entry e2 m = entry ?e1 m" "entry ?e' m = entry ?e1 m" for m using r(5) by (simp_all add: entry_def)
    have app2: "report_applied missing a f b e e2" "pdus_kept e e2" using app kept r(1,2) by (simp_all add: report_applied_def pdus_kept_def ent2)
    have "tx_window f s ?e'" by (rule applied_window [OF assms(2) f assms(7) app2])
    moreover have "tx_counters_ok ?e'" using ok1(2) r(5-7) by (simp add: tx_counters_ok_def)
    moreover have "tx_sdus_ok ?e'" using e2(2) by (simp add: tx_sdus_ok_def)
    moreover have "vt_ms ?e' = sn_mod (f + 512)" by (simp add: RLC_AM_WINDOW_SIZE_def RLC_AM_SN_MODULO_def mod_add_left_eq)
    moreover have "report_applied missing a f b e ?e'" using app by (simp add: report_applied_def ent2)
    moreover have "\<forall>m. same_pdu (entry e m) (entry ?e' m)" using kept unfolding pdus_kept_def ent2 by blast
    ultimately show ?thesis unfolding follows_report_def Let_def f_def [symmetric] by blast
  qed
  ultimately show ?thesis by blast
qed

end
