(* ===== verification/RlcAmExchange.thy ===== *)
theory RlcAmExchange
  imports RlcAmArq
begin

text \<open>
  Both sides of RLC acknowledged mode together: what the report of a receiver does to the transmitter whose PDUs it has received, and the retransmissions
  that follow.
\<close>

section \<open>The transmitter follows the receiver\<close>

text \<open>
  The transmitter has sent the PDUs before \<open>s\<close>, of which \<open>ns\<close> have arrived; those before \<open>a\<close> have all arrived. It takes no PDU for acknowledged that has not
  arrived, and has given up none.
\<close>

definition in_step :: "nat list \<Rightarrow> nat \<Rightarrow> nat \<Rightarrow> rlc_am_tx_entity \<Rightarrow> bool" where
  "in_step ns a s e \<longleftrightarrow> tx_window a s e \<and> tx_counters_ok e \<and> tx_sdus_ok e \<and> a \<le> next_missing ns \<and> vr_top ns \<le> s \<and>
     (\<forall>m. a \<le> m \<and> m < s \<and> m \<notin> set ns \<longrightarrow> \<not> tx_ack (entry e m) \<and> \<not> tx_max_retransmit (entry e m))"

lemma first_missing_next:
  assumes "a \<le> next_missing ns" "next_missing ns \<le> b"
  shows "first_missing (\<lambda>m. m \<notin> set ns) a b = next_missing ns"
proof -
  let ?k = "next_missing ns" and ?f = "first_missing (\<lambda>m. m \<notin> set ns) a b"
  have ab: "a \<le> b" using assms by simp
  note f = first_missing [OF ab, where missing = "\<lambda>m. m \<notin> set ns"]
  have "\<not> ?k < ?f" using f(3) [of ?k] assms(1) next_missing_least(1) [of ns] by blast
  moreover have "\<not> ?f < ?k" using f(4) next_missing_least(2) [of ?f ns] assms(2) by auto
  ultimately show ?thesis by simp
qed

lemma missing_from:
  assumes "a \<le> next_missing ns" "next_missing ns \<le> b"
  shows "filter (\<lambda>m. m \<notin> set ns) [a..<b] = filter (\<lambda>m. m \<notin> set ns) [next_missing ns..<b]"
  using first_missing(5) [of a b "\<lambda>m. m \<notin> set ns"] first_missing_next [OF assms] assms by simp

text \<open>A report that matches what has arrived. VT(A) of the transmitter becomes the first PDU missing, which is VR(R) of the receiver.\<close>

definition caught_up :: "nat list \<Rightarrow> nat \<Rightarrow> nat \<Rightarrow> nat \<Rightarrow> rlc_am_tx_entity \<Rightarrow> rlc_am_tx_entity \<Rightarrow> bool" where
  "caught_up ns a b s e e' \<longleftrightarrow> in_step ns (next_missing ns) s e' \<and>
     (\<forall>m. a \<le> m \<and> m < next_missing ns \<longrightarrow> tx_mem_block (entry e' m) = None) \<and>
     (\<forall>m. next_missing ns \<le> m \<and> m < s \<longrightarrow> tx_mem_block (entry e' m) = tx_mem_block (entry e m)) \<and>
     (\<forall>m. next_missing ns \<le> m \<and> m < b \<longrightarrow>
        (if m \<in> set ns then tx_ack (entry e' m) \<and> \<not> tx_retransmit (entry e' m)
         else tx_retransmit (entry e' m) \<and> tx_retx_payload_size (entry e' m) = tx_payload_size (entry e m))) \<and>
     (\<forall>m. b \<le> m \<and> m < s \<longrightarrow> entry e' m = entry e m)"

lemma follows_caught_up:
  assumes "in_step ns a s e" "next_missing ns \<le> b" "b \<le> s" "follows_report (\<lambda>m. m \<notin> set ns) a b s e e'"
  shows "caught_up ns a b s e e'"
proof -
  let ?k = "next_missing ns"
  have st: "a \<le> ?k" "vr_top ns \<le> s" "tx_window a s e" "\<And>m. a \<le> m \<Longrightarrow> m < s \<Longrightarrow> m \<notin> set ns \<Longrightarrow> \<not> tx_ack (entry e m) \<and> \<not> tx_max_retransmit (entry e m)"
    using assms(1) by (simp_all add: in_step_def)
  have f: "first_missing (\<lambda>m. m \<notin> set ns) a b = ?k" by (rule first_missing_next [OF st(1) assms(2)])
  have r: "tx_window ?k s e'" "tx_counters_ok e'" "tx_sdus_ok e'" "report_applied (\<lambda>m. m \<notin> set ns) a ?k b e e'" "\<And>m. same_pdu (entry e m) (entry e' m)"
    using assms(4) by (simp_all add: follows_report_def f Let_def)
  have s: "s \<le> a + 512" using st(3) by (simp add: tx_window_def)
  have low: "acked True (entry e m) (entry e' m)" if "a \<le> m" "m < ?k" for m using r(4) that unfolding report_applied_def by blast
  have mid: "(if m \<notin> set ns then scheduled else acked False) (entry e m) (entry e' m)" if "?k \<le> m" "m < b" for m
    using r(4) that unfolding report_applied_def by blast
  have high: "entry e' m = entry e m" if "b \<le> m" "m < s" for m
  proof -
    have "m < a + 512" using that(2) s by simp
    then show ?thesis using r(4) that(1) unfolding report_applied_def by blast
  qed
  have keep: "tx_mem_block (entry e' m) = tx_mem_block (entry e m)" if "?k \<le> m" "m < s" for m
    using mid [of m] high [of m] that by (cases "m < b") (auto simp: scheduled_def acked_def split: if_splits)
  have "\<not> tx_ack (entry e' m) \<and> \<not> tx_max_retransmit (entry e' m)" if "?k \<le> m" "m < s" "m \<notin> set ns" for m
  proof (cases "m < b")
    case True
    then show ?thesis using mid [of m] that st(1) st(4) [of m] r(5) [of m] by (simp add: scheduled_def same_pdu_def)
  next
    case False
    then show ?thesis using high [of m] that st(1) st(4) [of m] by simp
  qed
  then have "in_step ns ?k s e'" using r(1-3) st(2) by (simp add: in_step_def)
  moreover have "if m \<in> set ns then tx_ack (entry e' m) \<and> \<not> tx_retransmit (entry e' m)
      else tx_retransmit (entry e' m) \<and> tx_retx_payload_size (entry e' m) = tx_payload_size (entry e m)" if "?k \<le> m" "m < b" for m
    using mid [OF that] by (simp add: scheduled_def acked_def split: if_splits)
  moreover have "tx_mem_block (entry e' m) = None" if "a \<le> m" "m < ?k" for m using low [OF that] by (simp add: acked_def)
  ultimately show ?thesis unfolding caught_up_def using keep high by blast
qed

text \<open>
  C4. Receiver and transmitter of acknowledged mode in step. The transmitter has sent the PDUs before VT(S), and some of them have arrived at the receiver,
  in any order and repeated, with checks of t-Reordering in between. The receiver sends a STATUS PDU within a grant of 2 to 1537 octets, and the transmitter
  processes it: neither fails. The transmitter frees the PDUs before the first one missing and no other, so that its VT(A) is VR(R) of the receiver; of the
  PDUs before \<open>b\<close>, the number whose residue the decoded report has as ACK_SN, exactly those that have not arrived are named by its NACKs and scheduled for
  retransmission as a whole, and the others are taken for acknowledged; PDUs from \<open>b\<close> on are untouched. The transmitter is in step with the receiver again, with counters that agree with its buffer.
\<close>

theorem am_transmitter_follows_receiver:
  assumes "amd_stream pdus pieces closed" "admissible [] evs" "2 \<le> grant" "grant \<le> 1537"
    and "\<forall>n. \<exists>addr block. alloc n = Some (addr, block) \<and> n \<le> length block" "in_step (arrived [] evs) a s tx"
  shows "\<exists>e e' pdu info tx' b. am_run alloc pdus evs (am_start duration) = Some e \<and>
    rlc_am_send_status_pdu (am_blocks alloc) (e\<lparr>am_nb_bytes_requested_by_mac := grant\<rparr>) = Some e' \<and> control_pdu_list e' = pdu # control_pdu_list e \<and>
    rlc_am_get_control_pdu_infos pdu (int (length pdu)) = Some (0, 0, info) \<and> int (ack_sn info) = sn_mod b \<and>
    nacks_name (nack_list info) (filter (\<lambda>m. m \<notin> set (arrived [] evs)) [next_missing (arrived [] evs)..<b]) \<and>
    rlc_am_receive_process_control_pdu pdu (int (length pdu)) tx = Some (0, tx') \<and> vt_a tx' = vr_r e \<and>
    next_missing (arrived [] evs) \<le> b \<and> b \<le> s \<and> caught_up (arrived [] evs) a b s tx tx'"
proof -
  let ?ns = "arrived [] evs"
  let ?k = "next_missing ?ns"
  obtain e e' pdu info where r: "am_run alloc pdus evs (am_start duration) = Some e"
      "rlc_am_send_status_pdu (am_blocks alloc) (e\<lparr>am_nb_bytes_requested_by_mac := grant\<rparr>) = Some e'" "control_pdu_list e' = pdu # control_pdu_list e"
      "\<forall>rest total. rlc_am_get_control_pdu_infos (pdu @ rest) total = Some (0, total - int (length pdu), info)" "report_matches ?ns info"
    using report_after_history [OF assms(1-5), of duration] by blast
  obtain b where b: "?k \<le> b" "b \<le> vr_top ?ns" "int (ack_sn info) = sn_mod b" "nacks_name (nack_list info) (filter (\<lambda>m. m \<notin> set ?ns) [?k..<b])"
    using r(5) by (auto simp: report_matches_def)
  have st: "tx_window a s tx" "tx_counters_ok tx" "tx_sdus_ok tx" "a \<le> ?k" "vr_top ?ns \<le> s"
      "\<forall>m. a \<le> m \<and> m < s \<and> m \<notin> set ?ns \<longrightarrow> \<not> tx_ack (entry tx m) \<and> \<not> tx_max_retransmit (entry tx m)"
    using assms(6) unfolding in_step_def by blast+
  have bs: "a \<le> b" "b \<le> s" using st(4,5) b(1,2) by simp_all
  have dec: "rlc_am_get_control_pdu_infos pdu (int (length pdu)) = Some (0, 0, info)" using r(4) [rule_format, of "[]" "int (length pdu)"] by simp
  obtain tx' where tx': "rlc_am_receive_process_control_pdu pdu (int (length pdu)) tx = Some (0, tx')" "follows_report (\<lambda>m. m \<notin> set ?ns) a b s tx tx'"
    using control_pdu_exact [OF st(2,1,3) dec b(3) bs b(4) [folded missing_from [OF st(4) b(1)]]] st(6) bs(2) by auto
  have c: "caught_up ?ns a b s tx tx'" by (rule follows_caught_up [OF assms(6) b(1) bs(2) tx'(2)])
  then have "vt_a tx' = sn_mod ?k" by (simp add: caught_up_def in_step_def tx_window_def)
  moreover have "blocks_available alloc" using assms(5) by (simp add: blocks_available_def)
  then have "vr_r e = sn_mod ?k" using am_run_inv [OF assms(1) _ am_start_inv assms(2), of alloc duration] r(1) by (auto simp: am_inv_def am_window_def Let_def)
  ultimately have "vt_a tx' = vr_r e" by simp
  then show ?thesis using r(1-3) tx'(1) b(1,3,4) bs(2) c dec by blast
qed

text \<open>Six PDUs of the example have been sent and PDU 4 has not arrived; t-Reordering has expired for it, so that the report goes on behind it.\<close>

definition example_sent :: "nat \<Rightarrow> rlc_am_tx_pdu" where
  "example_sent m = am_no_pdu\<lparr>tx_mem_block := Some (example_pdu m), tx_payload := 2, tx_header_and_payload_size := 3, tx_payload_size := 1,
     tx_sn := int m, tx_transmitted := True\<rparr>"

definition example_tx :: rlc_am_tx_entity where
  "example_tx = rlc_am_init_tx\<lparr>vt_s := 6, tx_data_pdu_buffer := map example_sent [0..<6] @ replicate 506 am_no_pdu\<rparr>"

lemma example_entry: "m < 512 \<Longrightarrow> entry example_tx m = (if m < 6 then example_sent m else am_no_pdu)"
  by (simp add: entry_def example_tx_def nth_append)

lemma example_in_step: "in_step [2, 5, 1, 3, 0, 1] 0 6 example_tx"
proof -
  have "tx_window 0 6 example_tx" unfolding tx_window_def
    by (simp add: example_entry example_sent_def am_no_pdu_def) (simp add: example_tx_def rlc_am_init_tx_def)
  moreover have "tx_counters_ok example_tx"
    by (simp add: tx_counters_ok_def example_tx_def rlc_am_init_tx_def example_sent_def am_no_pdu_def tx_pdu_ok_def due_def upt_rec sum_list_replicate)
  moreover have "tx_sdus_ok example_tx"
    by (auto simp: tx_sdus_ok_def example_tx_def rlc_am_init_tx_def RLC_AM_SDU_CONTROL_BUFFER_SIZE_def am_no_sdu_def example_sent_def am_no_pdu_def)
  ultimately show ?thesis
    unfolding in_step_def by (simp add: example_entry example_sent_def am_no_pdu_def next_missing_def upt_rec)
qed

theorem am_transmitter_follows_receiver_witness:
  "\<exists>e e' pdu info tx' b. am_run example_alloc example_pdu (example_history @ [Tick 130]) (am_start 35) = Some e \<and>
    rlc_am_send_status_pdu (am_blocks example_alloc) (e\<lparr>am_nb_bytes_requested_by_mac := 20\<rparr>) = Some e' \<and> control_pdu_list e' = pdu # control_pdu_list e \<and>
    rlc_am_get_control_pdu_infos pdu (int (length pdu)) = Some (0, 0, info) \<and> int (ack_sn info) = sn_mod b \<and>
    nacks_name (nack_list info) (filter (\<lambda>m. m \<notin> set [2, 5, 1, 3, 0, 1]) [4..<b]) \<and>
    rlc_am_receive_process_control_pdu pdu (int (length pdu)) example_tx = Some (0, tx') \<and> vt_a tx' = vr_r e \<and>
    4 \<le> b \<and> b \<le> 6 \<and> caught_up [2, 5, 1, 3, 0, 1] 0 b 6 example_tx tx'"
proof -
  have a: "arrived [] (example_history @ [Tick 130]) = [2, 5, 1, 3, 0, 1]" by (simp add: example_history_def)
  have g: "2 \<le> (20 :: int)" "(20 :: int) \<le> 1537" "\<forall>n. \<exists>addr block. example_alloc n = Some (addr, block) \<and> n \<le> length block"
    by (simp_all add: example_alloc_def)
  have h: "admissible [] (example_history @ [Tick 130])" "next_missing [2, 5, 1, 3, 0, 1] = 4"
    by (simp_all add: example_history_def next_missing_def upt_rec)
  show ?thesis
    using am_transmitter_follows_receiver [OF example_stream h(1) g, of 0 6 example_tx 35] example_in_step unfolding a h(2) by simp
qed

section \<open>Confirmation\<close>

text \<open>
  C38. SDUs are not confirmed. When a report acknowledges PDUs and NACKs none, \<open>rlc_am_ack_pdu\<close> clears \<open>flags.transmitted\<close> of each before
  \<open>rlc_am_receive_process_control_pdu\<close> asks for that flag of the last one. VT(A) advances to ACK_SN and the PDUs are freed, but for no SDU is
  \<open>rlc_data_conf\<close> called, none counts as acknowledged, and \<open>nb_sdu\<close> does not go down.
\<close>

theorem am_sdus_not_confirmed:
  assumes "tx_counters_ok e" "tx_window a s e" "rlc_am_get_control_pdu_infos pdu tb = Some (0, n, info)" "int (ack_sn info) = sn_mod b"
    and "a \<le> b" "b \<le> s" "nack_list info = []"
  shows "\<exists>e'. rlc_am_receive_process_control_pdu pdu tb e = Some (n, e') \<and> vt_a e' = sn_mod b \<and> (\<forall>m. a \<le> m \<and> m < b \<longrightarrow> tx_mem_block (entry e' m) = None) \<and>
    am_confirmed e' = am_confirmed e \<and> am_input_sdus e' = am_input_sdus e \<and> am_nb_sdu e' = am_nb_sdu e"
proof -
  have f: "first_missing (\<lambda>_. False) a b = b" "a \<le> b" "b \<le> b" using assms(5) by (simp_all add: first_missing_def)
  have none: "nacks_name (nack_list info) (filter (\<lambda>_. False) [a..<b])" using assms(7) by (simp add: nacks_name_def)
  obtain e1 sn all where e1: "am_apply_report (sn_mod b) (nack_list info) e = Some (True, sn_mod b, sn, all, e1)" "arq_change e e1"
      "report_applied (\<lambda>_. False) a b b e e1" "sn = sn_mod (b + 1023)"
    using apply_report_exact [OF assms(1,2,5,6) none _ f(1) [symmetric]] by auto
  let ?e1 = "am_stop_poll (sn_mod b) e1"
  have ent: "entry ?e1 m = entry e1 m" for m by (simp add: entry_def)
  have "report_applied (\<lambda>_. False) a b b e ?e1" "pdus_kept e ?e1" using e1(3) arq_change_kept [OF e1(2)] unfolding report_applied_def pdus_kept_def ent stop_poll_fields by blast+
  then have conf: "am_confirm_sdus sn all ?e1 = Some ?e1" unfolding e1(4) by (rule confirm_nothing [OF assms(2) f(2,3) assms(6)])
  have w: "vt_a e = sn_mod a" "vt_s e = sn_mod s" "s \<le> a + 512" using assms(2) by (simp_all add: tx_window_def)
  have "RLC_AM_DIFF_SN (vt_s e) (vt_a e) \<ge> RLC_AM_DIFF_SN (sn_mod b) (vt_a e)" "sn_mod b < RLC_AM_SN_MODULO"
    unfolding w(1,2) using am_diff [of a s] am_diff [of a b] w(3) assms(5,6) by (simp_all add: RLC_AM_SN_MODULO_def)
  then have "rlc_am_receive_process_control_pdu pdu tb e = Some (n, ?e1\<lparr>vt_a := sn_mod b, vt_ms := (sn_mod b + RLC_AM_WINDOW_SIZE) mod RLC_AM_SN_MODULO\<rparr>)"
    using assms(3,4,7) e1(1) conf by (simp add: rlc_am_receive_process_control_pdu_def RLC_AM_MAX_NACK_IN_STATUS_PDU_def Let_def)
  moreover have "tx_mem_block (entry e1 m) = None" if "a \<le> m" "m < b" for m using e1(3) that by (simp add: report_applied_def acked_def)
  moreover have "am_confirmed ?e1 = am_confirmed e" "am_input_sdus ?e1 = am_input_sdus e" "am_nb_sdu ?e1 = am_nb_sdu e"
    using e1(2) arq_rest_fields(5-7) [of e1 e]
    by (simp_all add: arq_change_def am_stop_poll_def rlc_am_stop_and_reset_timer_poll_retransmit_def)
  ultimately show ?thesis by (intro exI conjI) (assumption | simp add: entry_def)+
qed

text \<open>The six PDUs of the example are acknowledged.\<close>

theorem am_sdus_not_confirmed_witness:
  "\<exists>e'. rlc_am_receive_process_control_pdu [0x00, 0x18] 2 example_tx = Some (0, e') \<and> vt_a e' = 6 \<and> (\<forall>m < 6. tx_mem_block (entry e' m) = None) \<and> am_confirmed e' = []"
proof -
  let ?info = "\<lparr>d_c = 0, cpt = 0, ack_sn = 6, ctrl_e1 = False, nack_list = []\<rparr>"
  have dec: "rlc_am_get_control_pdu_infos [0x00, 0x18] 2 = Some (0, 0, ?info)" by code_simp
  have w: "tx_counters_ok example_tx" "tx_window 0 6 example_tx" "am_confirmed example_tx = []"
    using example_in_step by (simp_all add: in_step_def) (simp add: example_tx_def rlc_am_init_tx_def)
  show ?thesis using am_sdus_not_confirmed [OF w(1,2) dec, of 6] w(3) by auto
qed

end
