(* ===== verification/RlcAmRetx.thy ===== *)
theory RlcAmRetx
  imports RlcAmExchange
begin

text \<open>
  Retransmission of whole PDUs: grants that are large enough empty the retransmission buffer, in the order of the sequence numbers and with each PDU unchanged
  but for its poll bit.
\<close>

section \<open>One retransmission\<close>

definition polled :: "bool \<Rightarrow> octet \<Rightarrow> octet" where
  "polled poll b = (if poll then b OR 0x20 else b AND NOT 0x20)"

text \<open>Polling changes the poll bit and the fields that govern polling.\<close>

definition poll_rest :: "rlc_am_tx_entity \<Rightarrow> rlc_am_tx_entity" where
  "poll_rest e = e\<lparr>force_poll := False, c_pdu_without_poll := 0, c_byte_without_poll := 0, poll_sn := 0, am_t_poll_retransmit := am_no_timer\<rparr>"

lemma poll_rest_fields:
  assumes "poll_rest e' = poll_rest e"
  shows "vt_a e' = vt_a e" "vt_s e' = vt_s e" "tx_data_pdu_buffer e' = tx_data_pdu_buffer e" "retrans_num_pdus e' = retrans_num_pdus e"
    "retrans_num_bytes_to_retransmit e' = retrans_num_bytes_to_retransmit e" "max_retx_threshold e' = max_retx_threshold e"
    "am_sdu_buffer_occupancy e' = am_sdu_buffer_occupancy e" "am_input_sdus e' = am_input_sdus e"
  using arg_cong [OF assms, of vt_a] arg_cong [OF assms, of vt_s] arg_cong [OF assms, of tx_data_pdu_buffer] arg_cong [OF assms, of retrans_num_pdus]
    arg_cong [OF assms, of retrans_num_bytes_to_retransmit] arg_cong [OF assms, of max_retx_threshold] arg_cong [OF assms, of am_sdu_buffer_occupancy]
    arg_cong [OF assms, of am_input_sdus] by (simp_all add: poll_rest_def)

lemma polling_retransmission:
  "\<exists>e'. rlc_am_pdu_polling now n False b e = (polled (poll_due False e) b, e') \<and> poll_rest e' = poll_rest e"
  by (auto simp: rlc_am_pdu_polling_def polled_def Let_def poll_rest_def rlc_am_start_timer_poll_retransmit_def rlc_am_stop_and_reset_timer_poll_retransmit_def)

text \<open>
  The PDUs due in the window. \<open>retx_ready\<close>: each is due as a whole, may be retransmitted once more and fits into \<open>grant\<close>. \<open>copy_of\<close>: its octets, the poll
  bit aside.
\<close>

definition due_pdus :: "nat \<Rightarrow> nat \<Rightarrow> rlc_am_tx_entity \<Rightarrow> nat list" where
  "due_pdus a s e = filter (\<lambda>m. tx_retransmit (entry e m)) [a..<s]"

definition retx_ready :: "int \<Rightarrow> nat \<Rightarrow> nat \<Rightarrow> rlc_am_tx_entity \<Rightarrow> bool" where
  "retx_ready grant a s e \<longleftrightarrow> (\<forall>m. a \<le> m \<and> m < s \<and> tx_retransmit (entry e m) \<longrightarrow> (let p = entry e m in
     tx_transmitted p \<and> \<not> tx_max_retransmit p \<and> tx_retx_payload_size p = tx_payload_size p \<and> tx_retx_count_next p \<le> max_retx_threshold e \<and>
     0 < tx_header_and_payload_size p \<and> tx_header_and_payload_size p \<le> grant \<and>
     (\<exists>block. tx_mem_block p = Some block \<and> tx_header_and_payload_size p \<le> int (length block))))"

definition copy_of :: "rlc_am_tx_pdu \<Rightarrow> bool \<Rightarrow> octet list \<Rightarrow> bool" where
  "copy_of p poll pdu \<longleftrightarrow> (\<exists>block. tx_mem_block p = Some block \<and>
     (let octets = take (nat (tx_header_and_payload_size p)) block in pdu = octets[0 := polled poll (octets ! 0)]))"

lemma retransmit_loop_skip:
  assumes "c \<le> d" "d < s" "s \<le> c + 512" "0 < retrans_num_pdus e" "\<forall>m. c \<le> m \<and> m < d \<longrightarrow> \<not> tx_retransmit (entry e m)"
  shows "retransmit_loop alloc now nb (sn_mod c) (sn_mod s) e = retransmit_loop alloc now nb (sn_mod d) (sn_mod s) e"
  using assms
proof (induction "d - c" arbitrary: c)
  case (Suc k)
  then have c: "c < d" "k = d - Suc c" by simp_all
  have ne: "sn_mod c \<noteq> sn_mod s" "sn_mod (Suc c) \<noteq> sn_mod s" using c(1) Suc.prems(2,3) sn_mod_eq [of c s] sn_mod_eq [of "Suc c" s] by auto
  have "\<not> tx_retransmit (tx_pdu e (sn_mod c))" unfolding tx_pdu_entry using Suc.prems(5) c(1) by blast
  then have "retransmit_loop alloc now nb (sn_mod c) (sn_mod s) e = retransmit_loop alloc now nb (sn_mod (Suc c)) (sn_mod s) e"
    using ne sn_range_mod [of c] sn_range_mod [of s] Suc.prems(4) by (subst retransmit_loop.simps) (simp only: am_next, simp)
  also have "\<dots> = retransmit_loop alloc now nb (sn_mod d) (sn_mod s) e"
    by (rule Suc.hyps(1) [OF c(2)]) (use c(1) Suc.prems in auto)
  finally show ?case .
qed simp

text \<open>The counters: with nothing due they are zero, with something due they are not.\<close>

lemma buffer_entry:
  assumes "tx_counters_ok e" "p \<in> set (tx_data_pdu_buffer e)"
  obtains m where "a \<le> m" "m < a + 512" "p = entry e m"
proof -
  have "length (tx_data_pdu_buffer e) = 512" using assms(1) by (simp add: tx_counters_ok_def)
  then obtain k where k: "k < 512" "p = tx_data_pdu_buffer e ! k" using assms(2) by (metis in_set_conv_nth)
  define m where "m = a + (k + 512 - a mod 512) mod 512"
  have "m mod 512 = (a mod 512 + (k + 512 - a mod 512)) mod 512" unfolding m_def by (simp only: mod_add_left_eq mod_add_right_eq)
  also have "\<dots> = k" using k(1) by simp
  finally have "p = entry e m" using k(2) by (simp add: entry_def)
  then show ?thesis by (intro that [of m]) (simp_all add: m_def)
qed

lemma nothing_due:
  assumes "tx_counters_ok e" "tx_window a s e" "due_pdus a s e = []"
  shows "retrans_num_pdus e = 0" "retrans_num_bytes_to_retransmit e = 0"
proof -
  have "\<not> tx_retransmit p" if p: "p \<in> set (tx_data_pdu_buffer e)" for p
  proof -
    obtain m where m: "a \<le> m" "m < a + 512" "p = entry e m" using buffer_entry [OF assms(1) p] by blast
    then show ?thesis using assms(2,3) by (cases "m < s") (auto simp: tx_window_def due_pdus_def filter_empty_conv)
  qed
  moreover have "tx_pdu_ok p" if "p \<in> set (tx_data_pdu_buffer e)" for p using assms(1) that by (simp add: tx_counters_ok_def)
  ultimately have "tx_retx_payload_size p = 0 \<and> due p = 0" if "p \<in> set (tx_data_pdu_buffer e)" for p using that by (fastforce simp: tx_pdu_ok_def due_def)
  then have "map tx_retx_payload_size (tx_data_pdu_buffer e) = map (\<lambda>_. 0) (tx_data_pdu_buffer e)" "map due (tx_data_pdu_buffer e) = map (\<lambda>_. 0) (tx_data_pdu_buffer e)"
    by simp_all
  then have "sum_list (map tx_retx_payload_size (tx_data_pdu_buffer e)) = 0" "sum_list (map due (tx_data_pdu_buffer e)) = 0" by (simp_all only: sum_list_0)
  then show "retrans_num_pdus e = 0" "retrans_num_bytes_to_retransmit e = 0" using assms(1) by (simp_all add: tx_counters_ok_def)
qed

lemma something_due:
  assumes "tx_counters_ok e" "tx_retransmit (entry e m)"
  shows "0 < retrans_num_pdus e" "0 < retrans_num_bytes_to_retransmit e"
proof -
  have "m mod 512 < length (tx_data_pdu_buffer e)" using assms(1) by (simp add: tx_counters_ok_def)
  then obtain xs ys where x: "tx_data_pdu_buffer e = xs @ entry e m # ys" unfolding entry_def by (metis id_take_nth_drop)
  have ok: "\<forall>p \<in> set (tx_data_pdu_buffer e). tx_pdu_ok p" using assms(1) by (simp add: tx_counters_ok_def)
  have "0 \<le> sum_list (map due zs)" for zs by (rule sum_list_nonneg) (auto simp: due_def)
  then have "0 < sum_list (map due (tx_data_pdu_buffer e))" unfolding x using assms(2) by (simp add: due_def add_nonneg_nonneg add_pos_nonneg add_nonneg_pos)
  moreover have "0 \<le> sum_list (map tx_retx_payload_size zs)" if "set zs \<subseteq> set (tx_data_pdu_buffer e)" for zs
    by (rule sum_list_nonneg) (use ok that in \<open>auto simp: tx_pdu_ok_def\<close>)
  then have "0 \<le> sum_list (map tx_retx_payload_size xs)" "0 \<le> sum_list (map tx_retx_payload_size ys)" by (auto simp: x)
  moreover have "0 < tx_retx_payload_size (entry e m)" using ok assms(2) x by (simp add: tx_pdu_ok_def)
  ultimately show "0 < retrans_num_pdus e" "0 < retrans_num_bytes_to_retransmit e" using assms(1) x by (simp_all add: tx_counters_ok_def)
qed

lemma due_pdus_Cons:
  assumes "due_pdus a s e = d # ds"
  shows "a \<le> d" "d < s" "tx_retransmit (entry e d)" "\<forall>m. a \<le> m \<and> m < d \<longrightarrow> \<not> tx_retransmit (entry e m)" "ds = filter (\<lambda>m. tx_retransmit (entry e m)) [Suc d..<s]"
proof -
  have d: "d \<in> set (due_pdus a s e)" using assms by simp
  then show ad: "a \<le> d" "d < s" "tx_retransmit (entry e d)" by (auto simp: due_pdus_def)
  have up: "[a..<s] = [a..<d] @ d # [Suc d..<s]" using ad by (metis le_add_diff_inverse less_imp_le upt_add_eq_append upt_conv_Cons)
  have eq: "filter (\<lambda>m. tx_retransmit (entry e m)) [a..<d] @ d # filter (\<lambda>m. tx_retransmit (entry e m)) [Suc d..<s] = d # ds"
    using assms ad(3) unfolding due_pdus_def up by simp
  have "filter (\<lambda>m. tx_retransmit (entry e m)) [a..<d] = []"
  proof (rule ccontr)
    assume "filter (\<lambda>m. tx_retransmit (entry e m)) [a..<d] \<noteq> []"
    then obtain x xs where x: "filter (\<lambda>m. tx_retransmit (entry e m)) [a..<d] = x # xs" by (meson neq_Nil_conv)
    then have "x \<in> set (filter (\<lambda>m. tx_retransmit (entry e m)) [a..<d])" by simp
    then have "x \<in> set [a..<d]" unfolding set_filter by blast
    moreover have "x = d" using eq x by simp
    ultimately show False by simp
  qed
  then show "\<forall>m. a \<le> m \<and> m < d \<longrightarrow> \<not> tx_retransmit (entry e m)" "ds = filter (\<lambda>m. tx_retransmit (entry e m)) [Suc d..<s]"
    using eq by (auto simp: filter_empty_conv)
qed

text \<open>PDU \<open>d\<close> has been sent again as a whole; nothing else has changed in the buffer.\<close>

definition sent_again :: "nat \<Rightarrow> nat \<Rightarrow> rlc_am_tx_entity \<Rightarrow> rlc_am_tx_entity \<Rightarrow> bool" where
  "sent_again a d e e' \<longleftrightarrow> poll_rest (arq_rest e') = poll_rest (arq_rest e) \<and> tx_counters_ok e' \<and>
     entry e' d = (entry e d)\<lparr>tx_retx_payload_size := 0, tx_retransmit := False, tx_retx_count := tx_retx_count_next (entry e d)\<rparr> \<and>
     (\<forall>m. a \<le> m \<and> m < a + 512 \<and> m \<noteq> d \<longrightarrow> entry e' m = entry e m)"

lemma sent_again_fields:
  assumes "sent_again a d e e'"
  shows "vt_a e' = vt_a e" "vt_s e' = vt_s e" "max_retx_threshold e' = max_retx_threshold e" "am_sdu_buffer_occupancy e' = am_sdu_buffer_occupancy e"
proof -
  have "poll_rest (arq_rest e') = poll_rest (arq_rest e)" using assms by (simp add: sent_again_def)
  note f = poll_rest_fields [OF this]
  show "vt_a e' = vt_a e" "vt_s e' = vt_s e" "max_retx_threshold e' = max_retx_threshold e" "am_sdu_buffer_occupancy e' = am_sdu_buffer_occupancy e"
    using f(1,2,6,7) by (simp_all add: arq_rest_def)
qed

lemma sent_again_entry:
  assumes "sent_again a d e e'" "a \<le> m" "m < a + 512"
  shows "tx_mem_block (entry e' m) = tx_mem_block (entry e m)" "tx_payload_size (entry e' m) = tx_payload_size (entry e m)" "tx_sn (entry e' m) = tx_sn (entry e m)"
    "tx_header_and_payload_size (entry e' m) = tx_header_and_payload_size (entry e m)" "tx_transmitted (entry e' m) = tx_transmitted (entry e m)"
    "tx_retransmit (entry e' m) \<longleftrightarrow> tx_retransmit (entry e m) \<and> m \<noteq> d" "m \<noteq> d \<Longrightarrow> entry e' m = entry e m"
  using assms by (cases "m = d"; simp add: sent_again_def)+

lemma sent_again_window:
  assumes "sent_again a d e e'" "tx_window a s e"
  shows "tx_window a s e'"
proof -
  have "s \<le> a + 512" using assms(2) by (simp add: tx_window_def)
  then show ?thesis using assms(2) sent_again_fields(1,2) [OF assms(1)] sent_again_entry [OF assms(1)] by (simp add: tx_window_def)
qed

lemma sent_again_due:
  assumes "sent_again a d e e'" "tx_window a s e" "due_pdus a s e = d # ds"
  shows "due_pdus a s e' = ds"
proof -
  have s: "s \<le> a + 512" using assms(2) by (simp add: tx_window_def)
  have "due_pdus a s e' = filter (\<lambda>m. m \<noteq> d) (due_pdus a s e)"
    unfolding due_pdus_def filter_filter using sent_again_entry(6) [OF assms(1)] s by (intro filter_cong) auto
  moreover have "d \<notin> set ds" using due_pdus_Cons(5) [OF assms(3)] by auto
  ultimately show ?thesis unfolding assms(3) by (simp add: filter_id_conv) (metis filter_True)
qed

lemma sent_again_ready:
  assumes "sent_again a d e e'" "tx_window a s e" "retx_ready grant a s e"
  shows "retx_ready grant a s e'"
proof -
  have s: "s \<le> a + 512" using assms(2) by (simp add: tx_window_def)
  show ?thesis unfolding retx_ready_def
  proof (intro allI impI)
    fix m
    assume m: "a \<le> m \<and> m < s \<and> tx_retransmit (entry e' m)"
    then have "tx_retransmit (entry e m)" "entry e' m = entry e m" using sent_again_entry(6,7) [OF assms(1), of m] s by auto
    then show "let p = entry e' m in
     tx_transmitted p \<and> \<not> tx_max_retransmit p \<and> tx_retx_payload_size p = tx_payload_size p \<and> tx_retx_count_next p \<le> max_retx_threshold e' \<and>
     0 < tx_header_and_payload_size p \<and> tx_header_and_payload_size p \<le> grant \<and>
     (\<exists>block. tx_mem_block p = Some block \<and> tx_header_and_payload_size p \<le> int (length block))"
      using assms(3) m sent_again_fields(3) [OF assms(1)] unfolding retx_ready_def by simp
  qed
qed

text \<open>The part of a round that copies the PDU and takes it off the counters.\<close>

definition taken :: "nat \<Rightarrow> rlc_am_tx_entity \<Rightarrow> rlc_am_tx_entity" where
  "taken d e = (set_tx_pdu (sn_mod d) ((entry e d)\<lparr>tx_retx_payload_size := 0, tx_retransmit := False\<rparr>) e)
     \<lparr>retrans_num_bytes_to_retransmit := retrans_num_bytes_to_retransmit e - tx_retx_payload_size (entry e d), retrans_num_pdus := retrans_num_pdus e - 1\<rparr>"

lemma retransmit_whole:
  assumes "tx_window a s e" "tx_counters_ok e" "retx_ready grant a s e" "a \<le> d" "d < s" "tx_retransmit (entry e d)" "grant \<le> nb"
    and "\<forall>n. \<exists>block. alloc n = Some block \<and> n \<le> length block"
  obtains block octets where "tx_mem_block (entry e d) = Some block" "octets = take (nat (tx_header_and_payload_size (entry e d))) block" "octets \<noteq> []"
    "retransmit_one alloc nb (sn_mod d) e = Some (Some octets, taken d e)" "\<not> tx_max_retransmit (entry e d)"
proof -
  let ?p = "entry e d"
  have sn: "tx_sn ?p = sn_mod d" using assms(1,4,5) by (simp add: tx_window_def)
  have p: "tx_transmitted ?p" "\<not> tx_max_retransmit ?p" "tx_retx_payload_size ?p = tx_payload_size ?p" "tx_retx_count_next ?p \<le> max_retx_threshold e"
      "0 < tx_header_and_payload_size ?p" "tx_header_and_payload_size ?p \<le> nb"
    using assms(3-7) by (auto simp: retx_ready_def Let_def)
  obtain block where block: "tx_mem_block ?p = Some block" "tx_header_and_payload_size ?p \<le> int (length block)"
    using assms(3-6) by (auto simp: retx_ready_def Let_def)
  have ok: "tx_pdu_ok ?p" using tx_pdu_in [OF assms(2), of "sn_mod d"] unfolding tx_pdu_entry .
  define octets where "octets = take (nat (tx_header_and_payload_size ?p)) block"
  have oct: "octets \<noteq> []" using p(5) block(2) by (auto simp: octets_def)
  have "rlc_am_retransmit_get_copy alloc (sn_mod d) e = Some octets"
  proof -
    have n: "nat (tx_header_and_payload_size ?p) \<le> length block" using block(2) by simp
    obtain b where "alloc (nat (tx_header_and_payload_size ?p)) = Some b" "nat (tx_header_and_payload_size ?p) \<le> length b" using assms(8) by blast
    then show ?thesis unfolding rlc_am_retransmit_get_copy_def tx_pdu_entry using n block(1) by (simp add: slice_def octets_def Let_def)
  qed
  then have "retransmit_one alloc nb (sn_mod d) e = Some (Some octets, taken d e)"
    using sn p ok assms(6) unfolding retransmit_one_def Let_def tx_pdu_entry taken_def by (simp add: tx_pdu_ok_def)
  then show ?thesis using that block(1) octets_def oct p(2) by blast
qed

text \<open>The end of the round: the poll bit and RETX_COUNT.\<close>

lemma taken_sent_again:
  assumes "tx_counters_ok e" "tx_retransmit (entry e d)" "a \<le> d" "d < a + 512" "poll_rest e2 = poll_rest (taken d e)"
    and "e' = set_tx_pdu (sn_mod d) ((entry e2 d)\<lparr>tx_retx_count := tx_retx_count_next (entry e2 d)\<rparr>) e2"
  shows "sent_again a d e e'"
proof -
  let ?p = "entry e d"
  define q where "q = ?p\<lparr>tx_retx_payload_size := 0, tx_retransmit := False, tx_retx_count := tx_retx_count_next ?p\<rparr>"
  have ok: "tx_pdu_ok ?p" using tx_pdu_in [OF assms(1), of "sn_mod d"] unfolding tx_pdu_entry .
  have len: "length (tx_data_pdu_buffer e) = 512" using assms(1) by (simp add: tx_counters_ok_def)
  have "tx_data_pdu_buffer e2 = (tx_data_pdu_buffer e)[d mod 512 := ?p\<lparr>tx_retx_payload_size := 0, tx_retransmit := False\<rparr>]"
    unfolding poll_rest_fields(3) [OF assms(5)] taken_def tx_index_mod by simp
  moreover from this have "entry e2 d = ?p\<lparr>tx_retx_payload_size := 0, tx_retransmit := False\<rparr>" using len by (simp add: entry_def)
  ultimately have b: "tx_data_pdu_buffer e' = (tx_data_pdu_buffer e)[d mod 512 := q]"
    unfolding assms(6) tx_index_mod by (simp add: q_def)
  have r: "arq_rest e' = arq_rest e2" "arq_rest (taken d e) = arq_rest e" by (simp_all add: assms(6) taken_def arq_rest_def)
  have comm: "poll_rest (arq_rest x) = arq_rest (poll_rest x)" for x by (simp add: poll_rest_def arq_rest_def)
  have "poll_rest (arq_rest e') = poll_rest (arq_rest e)" unfolding r(1) comm assms(5) unfolding comm [symmetric] r(2) ..
  moreover have "tx_counters_ok e'"
  proof (rule tx_counters_update [OF assms(1) _ b [folded tx_index_mod]])
    show "tx_pdu_ok q" using ok by (simp add: q_def tx_pdu_ok_def)
    show "retrans_num_bytes_to_retransmit e' = retrans_num_bytes_to_retransmit e + (tx_retx_payload_size q - tx_retx_payload_size (tx_pdu e (sn_mod d)))"
      unfolding tx_pdu_entry using poll_rest_fields(5) [OF assms(5)] by (simp add: assms(6) taken_def q_def)
    show "retrans_num_pdus e' = retrans_num_pdus e + (due q - due (tx_pdu e (sn_mod d)))"
      unfolding tx_pdu_entry using poll_rest_fields(4) [OF assms(5)] assms(2) by (simp add: assms(6) taken_def q_def due_def)
  qed
  moreover have "entry e' d = q" using b len by (simp add: entry_def)
  moreover have "entry e' m = entry e m" if "a \<le> m" "m < a + 512" "m \<noteq> d" for m
    using b same_entry [of m d] that assms(3,4) by (simp add: entry_def)
  ultimately show ?thesis by (simp add: sent_again_def q_def)
qed

text \<open>One call sends the first PDU that is due. When nothing is left to send it polls.\<close>

lemma retransmit_step:
  assumes "tx_window a s e" "tx_counters_ok e" "retx_ready grant a s e" "due_pdus a s e = d # ds" "grant \<le> nb"
    and "\<forall>n. \<exists>block. alloc n = Some block \<and> n \<le> length block"
  shows "\<exists>e' pdu poll. rlc_am_get_pdu_to_retransmit alloc now nb e = Some (Some pdu, e') \<and> copy_of (entry e d) poll pdu \<and>
    (am_sdu_buffer_occupancy e = 0 \<and> ds = [] \<longrightarrow> poll) \<and> sent_again a d e e'"
proof -
  note d = due_pdus_Cons [OF assms(4)]
  have w: "vt_a e = sn_mod a" "vt_s e = sn_mod s" "s \<le> a + 512" using assms(1) by (auto simp: tx_window_def)
  obtain block octets where o: "tx_mem_block (entry e d) = Some block" "octets = take (nat (tx_header_and_payload_size (entry e d))) block" "octets \<noteq> []"
      "retransmit_one alloc nb (sn_mod d) e = Some (Some octets, taken d e)" "\<not> tx_max_retransmit (entry e d)"
    using retransmit_whole [OF assms(1-3) d(1-3) assms(5,6)] .
  define poll where "poll = poll_due False (taken d e)"
  obtain e2 where e2: "rlc_am_pdu_polling now (tx_payload_size (entry (taken d e) d)) False (octets ! 0) (taken d e) = (polled poll (octets ! 0), e2)"
      "poll_rest e2 = poll_rest (taken d e)"
    using polling_retransmission [of now _ "octets ! 0" "taken d e"] unfolding poll_def by blast
  define e' where "e' = set_tx_pdu (sn_mod d) ((entry e2 d)\<lparr>tx_retx_count := tx_retx_count_next (entry e2 d)\<rparr>) e2"
  have num: "0 < retrans_num_pdus e" by (rule something_due(1) [OF assms(2) d(3)])
  have "retransmit_loop alloc now nb (sn_mod d) (sn_mod s) e = Some (Some (octets[0 := polled poll (octets ! 0)]), e')"
  proof -
    have "sn_mod d \<noteq> sn_mod s" using d(1,2) w(3) sn_mod_eq [of d s] by auto
    then show ?thesis using sn_range_mod [of d] sn_range_mod [of s] d(3) o(3-5) e2(1)
      by (subst retransmit_loop.simps) (simp add: tx_pdu_entry e'_def Let_def)
  qed
  then have call: "rlc_am_get_pdu_to_retransmit alloc now nb e = Some (Some (octets[0 := polled poll (octets ! 0)]), e')"
    using retransmit_loop_skip [OF d(1,2) w(3) num d(4), of alloc now nb] num d(1,2) w(1-3) sn_mod_eq [of a s] by (simp add: rlc_am_get_pdu_to_retransmit_def)
  have sent: "sent_again a d e e'" using taken_sent_again [OF assms(2) d(3,1) _ e2(2) e'_def] d(2) w(3) by simp
  have "poll" if "am_sdu_buffer_occupancy e = 0" "ds = []"
  proof -
    have "retrans_num_bytes_to_retransmit e' = 0"
      using nothing_due(2) [OF _ sent_again_window [OF sent assms(1)]] sent_again_due [OF sent assms(1,4)] sent that(2) by (simp add: sent_again_def)
    then have "retrans_num_bytes_to_retransmit (taken d e) = 0" using poll_rest_fields(5) [OF e2(2)] by (simp add: e'_def)
    then show ?thesis using that(1) by (simp add: poll_def poll_due_def taken_def)
  qed
  moreover have "copy_of (entry e d) poll (octets[0 := polled poll (octets ! 0)])" using o(1,2) by (simp add: copy_of_def Let_def)
  ultimately show ?thesis using call sent by blast
qed

section \<open>All retransmissions\<close>

text \<open>Calls with a time and a grant each; the PDUs that come out.\<close>

fun retransmissions :: "(nat \<Rightarrow> octet list option) \<Rightarrow> (32 word \<times> int) list \<Rightarrow> rlc_am_tx_entity \<Rightarrow> (octet list list \<times> rlc_am_tx_entity) option" where
  "retransmissions alloc [] e = Some ([], e)"
| "retransmissions alloc ((now, nb) # gs) e = do {
     (found, e1) \<leftarrow> rlc_am_get_pdu_to_retransmit alloc now nb e;
     (pdus, e2) \<leftarrow> retransmissions alloc gs e1;
     Some (case found of None \<Rightarrow> pdus | Some pdu \<Rightarrow> pdu # pdus, e2) }"

definition copies :: "nat list \<Rightarrow> rlc_am_tx_entity \<Rightarrow> octet list list \<Rightarrow> bool" where
  "copies ms e pdus \<longleftrightarrow> list_all2 (\<lambda>m pdu. \<exists>poll. copy_of (entry e m) poll pdu) ms pdus \<and>
     (am_sdu_buffer_occupancy e = 0 \<and> ms \<noteq> [] \<longrightarrow> copy_of (entry e (last ms)) True (last pdus))"

lemma copies_Cons:
  assumes "sent_again a d e e1" "copies ds e1 pdus" "copy_of (entry e d) poll pdu" "am_sdu_buffer_occupancy e = 0 \<and> ds = [] \<longrightarrow> poll" "\<forall>m \<in> set ds. a \<le> m \<and> m < a + 512"
  shows "copies (d # ds) e (pdu # pdus)"
proof -
  have same: "copy_of (entry e1 m) p x = copy_of (entry e m) p x" if "m \<in> set ds" for m p x
    using assms(5) that sent_again_entry(1,4) [OF assms(1), of m] by (simp add: copy_of_def)
  have l: "list_all2 (\<lambda>m pdu. \<exists>poll. copy_of (entry e1 m) poll pdu) ds pdus" using assms(2) by (simp add: copies_def)
  have "list_all2 (\<lambda>m pdu. \<exists>poll. copy_of (entry e m) poll pdu) ds pdus"
    by (rule list.rel_mono_strong [OF l]) (simp add: same)
  moreover have "am_sdu_buffer_occupancy e = 0 \<longrightarrow> copy_of (entry e (last (d # ds))) True (last (pdu # pdus))"
  proof (cases "ds = []")
    case True
    then show ?thesis using assms(3,4) l by auto
  next
    case False
    then show ?thesis using assms(2) same [of "last ds"] sent_again_fields(4) [OF assms(1)] l by (auto simp: copies_def)
  qed
  ultimately show ?thesis using assms(3) by (auto simp: copies_def)
qed

lemma retransmissions_run:
  assumes "\<forall>n. \<exists>block. alloc n = Some block \<and> n \<le> length block"
  shows "tx_window a s e \<Longrightarrow> tx_counters_ok e \<Longrightarrow> retx_ready grant a s e \<Longrightarrow> length gs = length (due_pdus a s e) \<Longrightarrow> \<forall>g \<in> set gs. grant \<le> snd g \<Longrightarrow>
    \<exists>pdus e'. retransmissions alloc gs e = Some (pdus, e') \<and> copies (due_pdus a s e) e pdus \<and> tx_window a s e' \<and> tx_counters_ok e' \<and> due_pdus a s e' = []"
proof (induction gs arbitrary: e)
  case Nil
  then show ?case by (simp add: copies_def)
next
  case (Cons g gs)
  note p = Cons.prems
  obtain now nb where g: "g = (now, nb)" by fastforce
  obtain d ds where d: "due_pdus a s e = d # ds" using p(4) by (cases "due_pdus a s e") auto
  obtain e1 pdu poll where e1: "rlc_am_get_pdu_to_retransmit alloc now nb e = Some (Some pdu, e1)" "copy_of (entry e d) poll pdu"
      "am_sdu_buffer_occupancy e = 0 \<and> ds = [] \<longrightarrow> poll" "sent_again a d e e1"
    using retransmit_step [OF p(1-3) d _ assms, of nb now] p(5) g by auto
  note w = sent_again_window [OF e1(4) p(1)] and ds = sent_again_due [OF e1(4) p(1) d]
  obtain pdus e' where e': "retransmissions alloc gs e1 = Some (pdus, e')" "copies ds e1 pdus" "tx_window a s e'" "tx_counters_ok e'" "due_pdus a s e' = []"
    using Cons.IH [OF w _ sent_again_ready [OF e1(4) p(1,3)]] e1(4) p(4,5) d ds by (auto simp: sent_again_def)
  have "\<forall>m \<in> set ds. a \<le> m \<and> m < a + 512" using due_pdus_Cons(1,5) [OF d] p(1) by (auto simp: tx_window_def)
  then have "copies (due_pdus a s e) e (pdu # pdus)" unfolding d using copies_Cons [OF e1(4) e'(2) e1(2,3)] by blast
  then show ?case using e1(1) e' g by auto
qed

text \<open>
  C11. Retransmissions end. The PDUs that are due are due as a whole, have been retransmitted less often than the threshold, and each of them fits into every grant. Then as many
  calls of \<open>rlc_am_get_pdu_to_retransmit\<close> as there are PDUs due send each of them once, in the order of the sequence numbers, with the octets of the
  original except for the poll bit, and nothing is left: both counters of the retransmission buffer are zero. The last of them polls the receiver when
  there are no SDUs to send, so that the next report follows. No call fails, whatever the times and the sizes of the grants above the largest PDU are.
\<close>

theorem am_retransmissions_end:
  assumes "tx_window a s e" "tx_counters_ok e" "retx_ready grant a s e" "length gs = length (due_pdus a s e)" "\<forall>g \<in> set gs. grant \<le> snd g"
    and "\<forall>n. \<exists>block. alloc n = Some block \<and> n \<le> length block"
  shows "\<exists>pdus e'. retransmissions alloc gs e = Some (pdus, e') \<and> copies (due_pdus a s e) e pdus \<and>
    retrans_num_pdus e' = 0 \<and> retrans_num_bytes_to_retransmit e' = 0 \<and> tx_window a s e' \<and> tx_counters_ok e'"
proof -
  obtain pdus e' where r: "retransmissions alloc gs e = Some (pdus, e')" "copies (due_pdus a s e) e pdus" "tx_window a s e'" "tx_counters_ok e'" "due_pdus a s e' = []"
    using retransmissions_run [OF assms(6,1-5)] by blast
  then show ?thesis using nothing_due [OF r(4,3,5)] by auto
qed

text \<open>PDUs 3 and 5 of the six that have been sent are due; grants of 3 and 100 octets send them.\<close>

definition example_retx :: rlc_am_tx_entity where
  "example_retx = example_tx\<lparr>max_retx_threshold := 4, retrans_num_pdus := 2, retrans_num_bytes_to_retransmit := 2,
     tx_data_pdu_buffer := map (\<lambda>m. (example_sent m)\<lparr>tx_retransmit := m \<in> {3, 5}, tx_retx_payload_size := (if m \<in> {3, 5} then 1 else 0), tx_retx_count_next := 1\<rparr>) [0..<6]
       @ replicate 506 am_no_pdu\<rparr>"

lemma example_retx_entry: "m < 512 \<Longrightarrow> entry example_retx m = (if m < 6 then (example_sent m)\<lparr>tx_retransmit := m \<in> {3, 5},
    tx_retx_payload_size := (if m \<in> {3, 5} then 1 else 0), tx_retx_count_next := 1\<rparr> else am_no_pdu)"
  by (simp add: entry_def example_retx_def nth_append)

lemma example_retx_ok: "tx_window 0 6 example_retx" "tx_counters_ok example_retx" "retx_ready 3 0 6 example_retx" "due_pdus 0 6 example_retx = [3, 5]"
proof -
  show "tx_window 0 6 example_retx" unfolding tx_window_def
    by (simp add: example_retx_entry example_sent_def am_no_pdu_def) (simp add: example_retx_def example_tx_def rlc_am_init_tx_def)
  show "tx_counters_ok example_retx"
    by (simp add: tx_counters_ok_def example_retx_def example_sent_def am_no_pdu_def tx_pdu_ok_def due_def upt_rec sum_list_replicate)
  have "max_retx_threshold example_retx = 4" by (simp add: example_retx_def)
  then show "retx_ready 3 0 6 example_retx" unfolding retx_ready_def
    by (simp add: example_retx_entry example_sent_def am_no_pdu_def example_pdu_def Let_def)
  show "due_pdus 0 6 example_retx = [3, 5]"
    by (simp add: due_pdus_def upt_rec example_retx_entry example_sent_def am_no_pdu_def)
qed

theorem am_retransmissions_end_witness:
  "\<exists>pdus e'. retransmissions (\<lambda>n. Some (replicate n 0)) [(7, 3), (9, 100)] example_retx = Some (pdus, e') \<and> copies [3, 5] example_retx pdus \<and> retrans_num_pdus e' = 0"
  using am_retransmissions_end [OF example_retx_ok(1-3), of "[(7, 3), (9, 100)]" "\<lambda>n. Some (replicate n 0)"] example_retx_ok(4) by auto

section \<open>Expiry of t-PollRetransmit\<close>

text \<open>The PDUs from \<open>a\<close> on and before \<open>c\<close> that can be sent again.\<close>

definition open_pdus :: "nat \<Rightarrow> nat \<Rightarrow> rlc_am_tx_entity \<Rightarrow> nat list" where
  "open_pdus a c e = filter (\<lambda>m. \<not> tx_ack (entry e m) \<and> \<not> tx_max_retransmit (entry e m)) [a..<c]"

lemma poll_candidate_open:
  assumes "a \<le> c" "c \<le> a + 512" "c - a < n" "\<forall>m. a \<le> m \<and> m < c \<longrightarrow> tx_mem_block (entry e m) \<noteq> None"
  shows "poll_candidate n e (sn_mod (c + 1023)) (sn_mod (a + 1023)) = Some (if open_pdus a c e = [] then None else Some (sn_mod (last (open_pdus a c e))))"
  using assms
proof (induction n arbitrary: c)
  case (Suc n)
  show ?case
  proof (cases c)
    case 0
    then show ?thesis using Suc.prems(1) by (simp add: open_pdus_def)
  next
    case (Suc b)
    show ?thesis
    proof (cases "a \<le> b")
      case False
      then have "c = a" using Suc Suc.prems(1) by simp
      then show ?thesis by (simp add: open_pdus_def)
    next
      case True
      have sn: "sn_mod (c + 1023) = sn_mod b" using Suc mod_add_self2 [of "int b" 1024] by (simp add: ac_simps)
      have ne: "sn_mod b \<noteq> sn_mod (a + 1023)" using sn_mod_eq [of b "a + 1023"] True Suc Suc.prems(2) by simp
      have mem: "tx_mem_block (entry e b) \<noteq> None" using Suc.prems(4) True Suc by blast
      have up: "open_pdus a c e = open_pdus a b e @ (if \<not> tx_ack (entry e b) \<and> \<not> tx_max_retransmit (entry e b) then [b] else [])"
        using True Suc by (simp add: open_pdus_def)
      have "poll_candidate n e (sn_mod (b + 1023)) (sn_mod (a + 1023)) = Some (if open_pdus a b e = [] then None else Some (sn_mod (last (open_pdus a b e))))"
        by (rule Suc.IH) (use True Suc Suc.prems in auto)
      then show ?thesis unfolding sn poll_candidate.simps tx_pdu_entry prev_sn using ne mem up by simp
    qed
  qed
qed simp

text \<open>The PDU is scheduled as a whole when it was not due.\<close>

lemma poll_retransmit_ok:
  assumes "tx_counters_ok e" "\<not> tx_retransmit (entry e m)" "\<not> tx_ack (entry e m)" "tx_mem_block (entry e m) \<noteq> None" "0 < tx_payload_size (entry e m)"
  shows "tx_counters_ok (poll_retransmit (sn_mod m) e)" "scheduled (entry e m) (entry (poll_retransmit (sn_mod m) e) m)"
    "n \<le> m + 511 \<Longrightarrow> m \<le> n + 511 \<Longrightarrow> n \<noteq> m \<Longrightarrow> entry (poll_retransmit (sn_mod m) e) n = entry e n" "arq_change e (poll_retransmit (sn_mod m) e)"
proof -
  let ?p = "entry e m" and ?e' = "poll_retransmit (sn_mod m) e"
  define q where "q = ?p\<lparr>tx_retransmit := True, tx_retx_payload_size := tx_payload_size ?p,
      tx_retx_count_next := (if tx_retx_count ?p = tx_retx_count_next ?p then s8 (tx_retx_count_next ?p + 1) else tx_retx_count_next ?p)\<rparr>"
  have ok: "tx_pdu_ok ?p" using tx_pdu_in [OF assms(1), of "sn_mod m"] unfolding tx_pdu_entry .
  then have z: "tx_retx_payload_size ?p = 0" using assms(2) by (auto simp: tx_pdu_ok_def)
  have b: "tx_data_pdu_buffer ?e' = (tx_data_pdu_buffer e)[tx_index (sn_mod m) := q]" by (simp add: poll_retransmit_def tx_pdu_entry q_def Let_def)
  have ch: "entry_change (sn_mod m) q e ?e'" unfolding entry_change_def tx_pdu_entry using b by (simp add: same_pdu_def q_def poll_retransmit_def arq_rest_def Let_def)
  show "tx_counters_ok ?e'"
  proof (rule tx_counters_update [OF assms(1) _ b])
    show "tx_pdu_ok q" using assms(3-5) by (simp add: q_def tx_pdu_ok_def)
  qed (unfold tx_pdu_entry, use z assms(2) in \<open>simp_all add: poll_retransmit_def tx_pdu_entry q_def due_def Let_def\<close>)
  show "scheduled ?p (entry ?e' m)" unfolding entry_changed(2) [OF ch assms(1)] using assms(3) by (simp add: scheduled_def q_def)
  show "n \<le> m + 511 \<Longrightarrow> m \<le> n + 511 \<Longrightarrow> n \<noteq> m \<Longrightarrow> entry ?e' n = entry e n" by (rule entry_changed(3) [OF ch assms(1)])
  show "arq_change e ?e'" by (rule entry_changed(1) [OF ch assms(1)])
qed

lemma poll_retransmit_window:
  assumes "tx_counters_ok e" "tx_window a s e" "m \<in> set (open_pdus a s e)" "due_pdus a s e = []"
  defines "e' \<equiv> poll_retransmit (sn_mod m) e"
  shows "tx_window a s e'" "tx_counters_ok e'" "due_pdus a s e' = [m]" "tx_retx_payload_size (entry e' m) = tx_payload_size (entry e m)"
proof -
  have m: "a \<le> m" "m < s" "\<not> tx_ack (entry e m)" using assms(3) by (auto simp: open_pdus_def)
  have w: "s \<le> a + 512" using assms(2) by (simp add: tx_window_def)
  have none: "\<not> tx_retransmit (entry e n)" if "a \<le> n" "n < s" for n using assms(4) that by (auto simp: due_pdus_def filter_empty_conv)
  note r = poll_retransmit_ok [OF assms(1) none [OF m(1,2)] m(3) window_fields(1,2) [OF assms(2) m(1,2)], folded e'_def]
  have ent: "entry e' n = entry e n" if "a \<le> n" "n < a + 512" "n \<noteq> m" for n using r(3) [of n] that m(1,2) w by simp
  have f: "vt_a e' = vt_a e" "vt_s e' = vt_s e" "same_pdu (entry e n) (entry e' n)" for n using arq_change_kept [OF r(4)] by (simp_all add: pdus_kept_def)
  have sc: "tx_retransmit (entry e' m)" "tx_mem_block (entry e' m) = tx_mem_block (entry e m)" using r(2) by (simp_all add: scheduled_def)
  show "tx_retx_payload_size (entry e' m) = tx_payload_size (entry e m)" using r(2) by (simp add: scheduled_def)
  show "tx_counters_ok e'" by (rule r(1))
  have "tx_mem_block (entry e' n) = tx_mem_block (entry e n)" if "a \<le> n" "n < s" for n using ent [of n] that w sc(2) by (cases "n = m") auto
  then show "tx_window a s e'"
    using assms(2) f(1,2) f(3) [unfolded same_pdu_def] ent m(2) unfolding tx_window_def by simp
  have "tx_retransmit (entry e' n) \<longleftrightarrow> n = m" if "a \<le> n" "n < s" for n using ent [of n] none [OF that] that w sc(1) by (cases "n = m") auto
  then have "filter (\<lambda>n. tx_retransmit (entry e' n)) [a..<s] = filter (\<lambda>n. n = m) [a..<s]" by (intro filter_cong) simp_all
  moreover have "[a..<s] = [a..<m] @ m # [Suc m..<s]" using m(1,2) by (metis le_add_diff_inverse less_imp_le upt_add_eq_append upt_conv_Cons)
  then have "filter (\<lambda>n. n = m) [a..<s] = [m]" by (auto simp: filter_empty_conv)
  ultimately show "due_pdus a s e' = [m]" by (simp add: due_pdus_def)
qed

text \<open>
  C17. Expiry of t-PollRetransmit. With no SDUs to send and nothing due, the expiry forces a poll and schedules the last PDU of the window that has been
  neither acknowledged nor given up, as a whole; it is the only one due then. It schedules none when there is no such PDU. The search ends and never meets an
  empty entry, and the counters stay in agreement with the buffer. Otherwise the receiver could wait for a retransmission for ever.
\<close>

theorem am_poll_expiry:
  assumes "tx_window a s e" "tx_counters_ok e" "am_sdu_buffer_occupancy e = 0" "retrans_num_bytes_to_retransmit e = 0"
    and "am_running (am_t_poll_retransmit e)" "am_timer_expired now (am_t_poll_retransmit e)"
  shows "\<exists>e'. rlc_am_check_timer_poll_retransmit now e = Some e' \<and> force_poll e' \<and> \<not> am_running (am_t_poll_retransmit e') \<and> tx_window a s e' \<and> tx_counters_ok e' \<and>
    (if open_pdus a s e = [] then due_pdus a s e' = []
     else due_pdus a s e' = [last (open_pdus a s e)] \<and>
       tx_retx_payload_size (entry e' (last (open_pdus a s e))) = tx_payload_size (entry e (last (open_pdus a s e))))"
proof -
  let ?t = "(am_t_poll_retransmit e)\<lparr>am_running := False, am_timed_out := True\<rparr>"
  let ?e1 = "e\<lparr>am_t_poll_retransmit := ?t\<rparr>"
  have ent: "entry ?e1 m = entry e m" for m by (simp add: entry_def)
  have win: "tx_window a s (x\<lparr>force_poll := True\<rparr>) = tx_window a s x" "tx_counters_ok (x\<lparr>force_poll := True\<rparr>) = tx_counters_ok x"
      "due_pdus a s (x\<lparr>force_poll := True\<rparr>) = due_pdus a s x" "entry (x\<lparr>force_poll := True\<rparr>) m = entry x m" for x m
    by (simp_all add: tx_window_def tx_counters_ok_def due_pdus_def entry_def)
  have e1: "tx_window a s ?e1" "tx_counters_ok ?e1" "open_pdus a s ?e1 = open_pdus a s e"
    using assms(1,2) by (simp_all add: tx_window_def tx_counters_ok_def open_pdus_def ent)
  have nd: "due_pdus a s ?e1 = []" using something_due(2) [OF assms(2)] assms(4) by (fastforce simp: due_pdus_def filter_empty_conv ent)
  have w: "vt_a e = sn_mod a" "vt_s e = sn_mod s" "a \<le> s" "s \<le> a + 512" using assms(1) by (simp_all add: tx_window_def)
  have found: "poll_candidate 1025 ?e1 (RLC_AM_PREV_SN (vt_s ?e1)) (RLC_AM_PREV_SN (vt_a ?e1)) =
      Some (if open_pdus a s e = [] then None else Some (sn_mod (last (open_pdus a s e))))"
    using poll_candidate_open [OF w(3,4), of 1025 ?e1] w window_fields(1) [OF assms(1)] e1(3) by (simp add: prev_sn ent)
  define e2 where "e2 = (if open_pdus a s e = [] then ?e1 else poll_retransmit (sn_mod (last (open_pdus a s e))) ?e1)"
  have res: "rlc_am_check_timer_poll_retransmit now e = Some (e2\<lparr>force_poll := True\<rparr>)"
    using assms(3-6) found by (simp add: rlc_am_check_timer_poll_retransmit_def e2_def Let_def)
  have run: "\<not> am_running (am_t_poll_retransmit e2)" by (simp add: e2_def poll_retransmit_def Let_def)
  show ?thesis
  proof (cases "open_pdus a s e = []")
    case True
    then show ?thesis using res run e1(1,2) nd by (intro exI [of _ "e2\<lparr>force_poll := True\<rparr>"]) (simp add: win e2_def)
  next
    case False
    then have "last (open_pdus a s e) \<in> set (open_pdus a s ?e1)" unfolding e1(3) by simp
    from poll_retransmit_window [OF e1(2,1) this nd] show ?thesis
      using res run False by (intro exI [of _ "e2\<lparr>force_poll := True\<rparr>"]) (simp add: win e2_def ent)
  qed
qed

text \<open>In the example the timer was started at 10 with 40 milliseconds; at 50 PDU 5 is scheduled.\<close>

theorem am_poll_expiry_witness:
  "\<exists>e'. rlc_am_check_timer_poll_retransmit 50 (rlc_am_start_timer_poll_retransmit 10 (rlc_am_init_timer_poll_retransmit 40 example_tx)) = Some e' \<and>
    force_poll e' \<and> due_pdus 0 6 e' = [5]"
proof -
  let ?e = "rlc_am_start_timer_poll_retransmit 10 (rlc_am_init_timer_poll_retransmit 40 example_tx)"
  have ent: "entry ?e m = entry example_tx m" for m
    by (simp add: entry_def rlc_am_start_timer_poll_retransmit_def rlc_am_init_timer_poll_retransmit_def rlc_am_stop_and_reset_timer_poll_retransmit_def Let_def)
  note defs = rlc_am_start_timer_poll_retransmit_def rlc_am_init_timer_poll_retransmit_def rlc_am_stop_and_reset_timer_poll_retransmit_def am_timer_reset_def
    am_no_timer_def Let_def
  have w: "tx_window 0 6 ?e" "tx_counters_ok ?e" using example_in_step unfolding in_step_def tx_window_def tx_counters_ok_def ent by (simp_all add: defs)
  have z: "am_sdu_buffer_occupancy ?e = 0" "retrans_num_bytes_to_retransmit ?e = 0" "am_running (am_t_poll_retransmit ?e)" "am_timer_expired 50 (am_t_poll_retransmit ?e)"
    by (simp_all add: defs example_tx_def rlc_am_init_tx_def am_timer_expired_def)
  have "open_pdus 0 6 ?e = [0, 1, 2, 3, 4, 5]"
    by (simp add: open_pdus_def ent upt_rec example_entry example_sent_def am_no_pdu_def)
  then show ?thesis using am_poll_expiry [OF w z] by auto
qed

text \<open>
  Under window stall (VT(S) = VT(MS)) the expiry may choose a PDU that is due already, and counts it a second time: the counters no longer agree with the buffer.
\<close>

lemma poll_expiry_counts_twice:
  assumes "tx_counters_ok e" "tx_retransmit (entry e m)"
  shows "\<not> tx_counters_ok (poll_retransmit (sn_mod m) e)"
proof
  assume ok: "tx_counters_ok (poll_retransmit (sn_mod m) e)"
  define q where "q = tx_pdu (poll_retransmit (sn_mod m) e) (sn_mod m)"
  have i: "tx_index (sn_mod m) < length (tx_data_pdu_buffer e)" using assms(1) tx_index_less [of "sn_mod m"] by (simp add: tx_counters_ok_def)
  have b: "tx_data_pdu_buffer (poll_retransmit (sn_mod m) e) = (tx_data_pdu_buffer e)[tx_index (sn_mod m) := q]" "due q = 1"
    using i by (simp_all add: q_def poll_retransmit_def Let_def due_def)
  have "due (tx_data_pdu_buffer e ! tx_index (sn_mod m)) = 1" using assms(2) unfolding tx_pdu_entry by (simp add: due_def)
  then have "sum_list (map due (tx_data_pdu_buffer (poll_retransmit (sn_mod m) e))) = sum_list (map due (tx_data_pdu_buffer e))"
    unfolding b(1) sum_list_map_update [OF i] b(2) by simp
  moreover have "retrans_num_pdus (poll_retransmit (sn_mod m) e) = retrans_num_pdus e + 1" by (simp add: poll_retransmit_def Let_def)
  ultimately show False using ok assms(1) by (simp add: tx_counters_ok_def)
qed

end
