(* ===== verification/RlcAmNew.thy ===== *)
theory RlcAmNew
  imports RlcAmBuild RlcAmRetx RlcUmSeg
begin

text \<open>
  New PDUs of RLC acknowledged mode: the ring of SDUs as a queue, the layout of the PDU that \<open>rlc_am_segment_10\<close> builds from it, and what the receiver reads
  from that PDU. The loops are those of unacknowledged mode over the ring, so that the layout is taken over from there.
\<close>

section \<open>The ring of SDUs as a queue\<close>

definition um_view :: "rlc_am_tx_sdu \<Rightarrow> octet list \<Rightarrow> tx_sdu" where
  "um_view s b = \<lparr>sdu_data = b, sdu_creation_time = 0, sdu_remaining_size = nat (am_sdu_remaining_size s),
     sdu_segmented_size = nat (am_sdu_segmented_size s), sdu_size = nat (am_sdu_size s)\<rparr>"

text \<open>The element \<open>s\<close> of the ring is the SDU \<open>q\<close> of the queue.\<close>

definition views :: "rlc_am_tx_sdu \<Rightarrow> tx_sdu \<Rightarrow> bool" where
  "views s q \<longleftrightarrow> am_sdu_block s = Some (sdu_data q) \<and> q = um_view s (sdu_data q) \<and>
     0 \<le> am_sdu_remaining_size s \<and> 0 \<le> am_sdu_segmented_size s \<and> 0 \<le> am_sdu_size s"

abbreviation ring_index :: "nat \<Rightarrow> nat \<Rightarrow> nat" where
  "ring_index i k \<equiv> (i + k) mod 1024"

definition waiting :: "nat \<Rightarrow> rlc_am_tx_sdu list \<Rightarrow> tx_sdu list \<Rightarrow> bool" where
  "waiting i ss qs \<longleftrightarrow> i < 1024 \<and> length ss = 1024 \<and> length qs < 1024 \<and> (\<forall>k < length qs. views (ss ! ring_index i k) (qs ! k)) \<and>
     am_sdu_block (ss ! ring_index i (length qs)) = None"

lemma ring_index_eq: "j < 1024 \<Longrightarrow> k < 1024 \<Longrightarrow> ring_index i j = ring_index i k \<longleftrightarrow> j = k"
proof -
  have aux: "j = k" if "j \<le> k" "k < 1024" "(i + j) mod 1024 = (i + k) mod 1024" for j k :: nat
  proof -
    have "1024 dvd (i + k) - (i + j)" using that mod_eq_dvd_iff_nat [of "i + j" "i + k" 1024] by simp
    then have "k - j = 0" using that(2) dvd_imp_le [of 1024 "k - j"] by (cases "k - j = 0") auto
    then show ?thesis using that(1) by simp
  qed
  show "j < 1024 \<Longrightarrow> k < 1024 \<Longrightarrow> ring_index i j = ring_index i k \<longleftrightarrow> j = k" using aux [of j k] aux [of k j] by (cases "j \<le> k") auto
qed

lemma ring_index_Suc: "ring_index ((i + 1) mod 1024) k = ring_index i (Suc k)"
  by (simp add: mod_simps)

lemma waiting_Nil: "waiting i ss [] \<Longrightarrow> am_sdu_block (ss ! i) = None"
  by (auto simp: waiting_def)

lemma waiting_Cons: "waiting i ss (q # qs) \<Longrightarrow> i < 1024 \<and> length ss = 1024 \<and> views (ss ! i) q"
  by (force simp: waiting_def)

text \<open>The first SDU is used up, whatever becomes of its element.\<close>

lemma waiting_tl:
  assumes "waiting i ss (q # qs)"
  shows "waiting ((i + 1) mod 1024) (ss[i := s]) qs"
proof -
  have w: "i < 1024" "length ss = 1024" "length qs < 1023" "\<forall>k \<le> length qs. views (ss ! ring_index i k) ((q # qs) ! k)"
      "am_sdu_block (ss ! ring_index i (Suc (length qs))) = None"
    using assms by (simp_all add: waiting_def less_Suc_eq_le)
  have ne: "ss[i := s] ! ring_index i (Suc k) = ss ! ring_index i (Suc k)" if "k \<le> length qs" for k
    using ring_index_eq [of 0 "Suc k" i] that w(1,3) by simp
  have "views (ss ! ring_index i (Suc k)) (qs ! k)" if "k < length qs" for k using w(4) [rule_format, of "Suc k"] that by simp
  then show ?thesis using w ne unfolding waiting_def ring_index_Suc by simp
qed

text \<open>The first SDU is changed, or a field that does not count.\<close>

lemma waiting_hd:
  assumes "waiting i ss (q # qs)" "views s q'"
  shows "waiting i (ss[i := s]) (q' # qs)"
proof -
  have w: "i < 1024" "length ss = 1024" "length qs < 1023" "\<forall>k \<le> length qs. views (ss ! ring_index i k) ((q # qs) ! k)"
      "am_sdu_block (ss ! ring_index i (Suc (length qs))) = None"
    using assms by (simp_all add: waiting_def less_Suc_eq_le)
  have ne: "ss[i := s] ! ring_index i (Suc k) = ss ! ring_index i (Suc k)" if "k \<le> length qs" for k
    using ring_index_eq [of 0 "Suc k" i] that w(1,3) by simp
  have "views (ss[i := s] ! ring_index i k) ((q' # qs) ! k)" if "k \<le> length qs" for k
  proof (cases k)
    case 0
    then show ?thesis using assms(2) w(1,2) by simp
  next
    case (Suc j)
    then show ?thesis using w(4) [rule_format, of k] ne [of j] that by simp
  qed
  then show ?thesis using w ne [of "length qs"] unfolding waiting_def by (simp add: less_Suc_eq_le)
qed

definition sdu_core :: "rlc_am_tx_sdu \<Rightarrow> rlc_am_tx_sdu" where
  "sdu_core s = s\<lparr>am_sdu_pdus_index := []\<rparr>"

lemma sdu_core_fields:
  assumes "sdu_core s' = sdu_core s"
  shows "am_sdu_block s' = am_sdu_block s" "am_sdu_remaining_size s' = am_sdu_remaining_size s" "am_sdu_segmented_size s' = am_sdu_segmented_size s"
    "am_sdu_size s' = am_sdu_size s"
  using arg_cong [OF assms, of am_sdu_block] arg_cong [OF assms, of am_sdu_remaining_size] arg_cong [OF assms, of am_sdu_segmented_size]
    arg_cong [OF assms, of am_sdu_size] by (simp_all add: sdu_core_def)

lemma views_core: "sdu_core s' = sdu_core s \<Longrightarrow> views s' q = views s q"
  using sdu_core_fields [of s' s] by (simp add: views_def um_view_def)

lemma waiting_core:
  assumes "map sdu_core ss' = map sdu_core ss"
  shows "waiting i ss' qs = waiting i ss qs"
proof -
  have l: "length ss' = length ss" using assms by (rule map_eq_imp_length_eq)
  have c: "sdu_core (ss' ! j) = sdu_core (ss ! j)" if "j < length ss" for j
    using assms that l by (metis nth_map)
  have v: "views (ss' ! ring_index i k) q = views (ss ! ring_index i k) q" "am_sdu_block (ss' ! ring_index i k) = am_sdu_block (ss ! ring_index i k)"
    if "length ss = 1024" for k q
    using views_core [OF c [of "ring_index i k"], of q] sdu_core_fields(1) [OF c [of "ring_index i k"]] that by simp_all
  show ?thesis unfolding waiting_def l using v by (intro conj_cong refl) simp_all
qed

section \<open>The first loop\<close>

text \<open>Each SDU it passes has room for another entry of \<open>pdus_index\<close>.\<close>

definition fragments_ok :: "nat \<Rightarrow> rlc_am_tx_sdu list \<Rightarrow> tx_sdu list \<Rightarrow> bool" where
  "fragments_ok i ss qs \<longleftrightarrow> (\<forall>k < length qs. length (am_sdu_pdus_index (ss ! ring_index i k)) < 31)"

lemma fragments_ok_tl:
  assumes "fragments_ok i ss (q # qs)" "length (q # qs) < 1024" "i < 1024"
  shows "fragments_ok ((i + 1) mod 1024) (ss[i := s]) qs"
proof -
  have "ss[i := s] ! ring_index i (Suc k) = ss ! ring_index i (Suc k)" if "k < length qs" for k
    using ring_index_eq [of 0 "Suc k" i] that assms(2,3) by simp
  then show ?thesis using assms(1) unfolding fragments_ok_def ring_index_Suc by (metis Suc_less_eq length_Cons)
qed

lemma am_test_note_core: "map sdu_core (test_sdus (am_test_note i pdu t)) = map sdu_core (test_sdus t)"
proof (cases "i < length (test_sdus t)")
  case True
  then show ?thesis by (intro nth_equalityI) (auto simp: am_test_note_def Let_def nth_list_update sdu_core_def)
next
  case False
  then show ?thesis by (simp add: am_test_note_def Let_def list_update_beyond)
qed

lemma truncate_note: "um_test.truncate (am_test_note i pdu t) = um_test.truncate t" "um_test.truncate (am_test_stop n t) = test_stop n (um_test.truncate t)"
  by (simp_all add: am_test_note_def am_test_stop_def test_stop_def um_test.defs Let_def)

text \<open>The indices noted are those of the ring.\<close>

definition indices_ok :: "int list \<Rightarrow> bool" where
  "indices_ok is \<longleftrightarrow> (\<forall>i \<in> set is. 0 \<le> i \<and> i < 1024)"

lemma am_test_fill_sim:
  assumes "waiting i (test_sdus t) qs" "length qs \<le> room" "fragments_ok i (test_sdus t) qs" "indices_ok (test_sdus_index t)"
  shows "\<exists>t'. am_test_fill room i pdu t = Some t' \<and> um_test.truncate t' = test_fill qs (um_test.truncate t) \<and>
    map sdu_core (test_sdus t') = map sdu_core (test_sdus t) \<and> indices_ok (test_sdus_index t')"
  using assms
proof (induction qs arbitrary: i room t)
  case Nil
  then show ?case using waiting_Nil [OF Nil(1)] by (simp add: am_test_fill.simps)
next
  case (Cons q qs)
  note p = Cons.prems
  let ?s = "test_sdus t ! i"
  have w: "i < 1024" "length (test_sdus t) = 1024" "views ?s q" using waiting_Cons [OF p(1)] by auto
  have s: "am_sdu_block ?s = Some (sdu_data q)" "am_sdu_remaining_size ?s = int (sdu_remaining_size q)"
    using w(3) unfolding views_def um_view_def by (auto dest: arg_cong [of _ _ sdu_remaining_size])
  have fr: "length (am_sdu_pdus_index ?s) + 1 < RLC_AM_MAX_SDU_FRAGMENTS"
    using p(3) w(1) by (force simp: fragments_ok_def RLC_AM_MAX_SDU_FRAGMENTS_def)
  obtain room' where room: "room = Suc room'" "length qs \<le> room'" using p(2) by (cases room) auto
  have idx: "indices_ok (test_sdus_index (am_test_note i pdu t1))" if "test_sdus_index t1 = test_sdus_index t" for t1
    using p(4) w(1) that by (auto simp: am_test_note_def Let_def indices_ok_def)
  have same: "test_sdus (am_test_stop n t) = test_sdus t" "test_sdus_index (am_test_stop n t) = test_sdus_index t" for n
    by (simp_all add: am_test_stop_def)
  note fin = idx same am_test_note_core truncate_note
  let ?a = "int (sdu_remaining_size q)" and ?r = "test_pdu_remaining_size t" and ?li = "test_li_length_in_bytes t XOR 3"
  have um: "test_pdu_remaining_size (um_test.truncate t) = ?r" "test_li_length_in_bytes (um_test.truncate t) = test_li_length_in_bytes t"
      "test_num_li (um_test.truncate t) = test_num_li t"
    by (simp_all add: um_test.defs)
  consider "?a > ?r \<or> ?a = ?r" | "?a < ?r" "?a + int ?li = ?r" | "?a < ?r" "?a + int ?li < ?r" | "?a < ?r" "?r < ?a + int ?li" by linarith
  then show ?case
  proof cases
    case 1
    then have "am_test_fill room i pdu t = Some (am_test_note i pdu (am_test_stop 0 t))" using s fr by (subst am_test_fill.simps) (auto simp: Let_def)
    moreover have "test_fill (q # qs) (um_test.truncate t) = test_stop 0 (um_test.truncate t)" using 1 by (auto simp: um Let_def)
    ultimately show ?thesis using fin by auto
  next
    case 2
    then have "am_test_fill room i pdu t = Some (am_test_note i pdu (am_test_stop ?li t))" using s fr by (subst am_test_fill.simps) (auto simp: Let_def)
    moreover have "test_fill (q # qs) (um_test.truncate t) = test_stop ?li (um_test.truncate t)" using 2 by (auto simp: um Let_def)
    ultimately show ?thesis using fin by auto
  next
    case 4
    then have "am_test_fill room i pdu t = Some (am_test_note i pdu (am_test_stop 1 t))" using s fr by (subst am_test_fill.simps) (auto simp: Let_def)
    moreover have "test_fill (q # qs) (um_test.truncate t) = test_stop 1 (um_test.truncate t)" using 4 by (auto simp: um Let_def)
    ultimately show ?thesis using fin by auto
  next
    case 3
    define t1 where "t1 = t\<lparr>test_num_li := test_num_li t + 1, test_pdu_remaining_size := ?r - (?a + int ?li),
        test_remaining_size_to_substract := ?li, test_remaining_num_li_to_substract := 1, test_li_length_in_bytes := ?li\<rparr>"
    define t2 where "t2 = am_test_note i pdu t1"
    have step: "am_test_fill room i pdu t = am_test_fill room' ((i + 1) mod 1024) pdu t2"
      using 3 s fr unfolding room(1) t2_def t1_def by (subst am_test_fill.simps) (auto simp: Let_def RLC_AM_SDU_CONTROL_BUFFER_SIZE_def)
    have um1: "test_fill (q # qs) (um_test.truncate t) = test_fill qs (um_test.truncate t2)"
      using 3 unfolding t2_def truncate_note(1) by (simp add: um Let_def) (simp add: t1_def um_test.defs)
    have ts: "test_sdus t2 = (test_sdus t)[i := ?s\<lparr>am_sdu_pdus_index := am_sdu_pdus_index ?s @ [pdu]\<rparr>]" "test_sdus_index t1 = test_sdus_index t"
      by (simp_all add: t2_def t1_def am_test_note_def Let_def)
    have core: "map sdu_core (test_sdus t2) = map sdu_core (test_sdus t)" unfolding t2_def am_test_note_core by (simp add: t1_def)
    have "length (q # qs) < 1024" using p(1) by (simp add: waiting_def)
    then have "fragments_ok ((i + 1) mod 1024) (test_sdus t2) qs" unfolding ts(1) by (rule fragments_ok_tl [OF p(3) _ w(1)])
    moreover have "waiting ((i + 1) mod 1024) (test_sdus t2) qs" unfolding ts(1) by (rule waiting_tl [OF p(1)])
    ultimately obtain t' where "am_test_fill room' ((i + 1) mod 1024) pdu t2 = Some t'" "um_test.truncate t' = test_fill qs (um_test.truncate t2)"
        "map sdu_core (test_sdus t') = map sdu_core (test_sdus t2)" "indices_ok (test_sdus_index t')"
      using Cons.IH [OF _ room(2)] idx [OF ts(2), folded t2_def] by blast
    then show ?thesis using step um1 core by auto
  qed
qed

section \<open>The second loop\<close>

text \<open>The elements behind the queue hold no SDU.\<close>

definition others_empty :: "nat \<Rightarrow> nat \<Rightarrow> rlc_am_tx_sdu list \<Rightarrow> bool" where
  "others_empty i n ss \<longleftrightarrow> (\<forall>k. n \<le> k \<and> k < 1024 \<longrightarrow> am_sdu_block (ss ! ring_index i k) = None)"

lemma others_empty_hd:
  assumes "others_empty i (Suc n) ss" "i < 1024"
  shows "others_empty i (Suc n) (ss[i := s])"
proof -
  have "ss[i := s] ! ring_index i k = ss ! ring_index i k" if "0 < k" "k < 1024" for k using ring_index_eq [of 0 k i] that assms(2) by simp
  then show ?thesis using assms(1) by (simp add: others_empty_def)
qed

lemma others_empty_tl:
  assumes "others_empty i (Suc n) ss" "i < 1024" "length ss = 1024" "am_sdu_block s = None"
  shows "others_empty ((i + 1) mod 1024) n (ss[i := s])"
proof -
  have "am_sdu_block (ss[i := s] ! ring_index i (Suc k)) = None" if "n \<le> k" "k < 1024" for k
  proof (cases "Suc k < 1024")
    case True
    then have "ring_index i (Suc k) \<noteq> i" using ring_index_eq [of 0 "Suc k" i] assms(2) by simp
    moreover have "am_sdu_block (ss ! ring_index i (Suc k)) = None" using assms(1) True that unfolding others_empty_def by (metis Suc_le_mono)
    ultimately show ?thesis by simp
  next
    case False
    then have "Suc k = 1024" using that by simp
    then have "ring_index i (Suc k) = i" using assms(2) by simp
    then show ?thesis using assms(3,4) assms(2) by simp
  qed
  then show ?thesis unfolding others_empty_def ring_index_Suc by blast
qed

lemma others_empty_core: "map sdu_core ss' = map sdu_core ss \<Longrightarrow> length ss = 1024 \<Longrightarrow> others_empty i n ss' = others_empty i n ss"
proof -
  assume a: "map sdu_core ss' = map sdu_core ss" "length ss = 1024"
  have "am_sdu_block (ss' ! ring_index i k) = am_sdu_block (ss ! ring_index i k)" for k
  proof -
    have "sdu_core (ss' ! ring_index i k) = sdu_core (ss ! ring_index i k)" using a by (metis length_map mod_less_divisor nth_map zero_less_numeral)
    then show ?thesis by (rule sdu_core_fields(1))
  qed
  then show ?thesis by (simp add: others_empty_def)
qed

text \<open>The queue of the entity: what waits, nothing else in the ring, and no element without octets that keeps its block.\<close>

definition am_queue :: "rlc_am_tx_entity \<Rightarrow> tx_sdu list \<Rightarrow> bool" where
  "am_queue e qs \<longleftrightarrow> waiting (am_current_sdu_index e) (am_input_sdus e) qs \<and> others_empty (am_current_sdu_index e) (length qs) (am_input_sdus e) \<and>
     (\<forall>s \<in> set (am_input_sdus e). am_sdu_remaining_size s = 0 \<longrightarrow> am_sdu_block s = None)"

definition um_of :: "am_fill \<Rightarrow> rlc_am_tx_entity \<Rightarrow> um_fill" where
  "um_of f e = \<lparr>f_pdu = af_pdu f, f_data = af_data f, f_e_li = af_e_li f, f_li_length = af_li_length f, f_num_li = af_num_li f,
     f_remaining = af_remaining f, f_bo = am_sdu_buffer_occupancy e, f_last = af_last f\<rparr>"

text \<open>What segmentation leaves alone while it fills.\<close>

definition seg_rest :: "rlc_am_tx_entity \<Rightarrow> rlc_am_tx_entity" where
  "seg_rest e = e\<lparr>am_input_sdus := [], am_sdu_buffer_occupancy := 0, am_current_sdu_index := 0, am_nb_sdu_no_segmented := 0\<rparr>"

text \<open>The first SDU leaves the queue.\<close>

lemma am_sdu_done_ok:
  assumes "am_queue e (q # qs)"
  shows "\<exists>e'. am_sdu_done e = Some e' \<and> am_queue e' qs \<and> seg_rest e' = seg_rest e \<and> am_nb_sdu_no_segmented e' = am_nb_sdu_no_segmented e - 1 \<and>
    am_sdu_buffer_occupancy e' = am_sdu_buffer_occupancy e - int (sdu_remaining_size q) \<and>
    ring_index (am_current_sdu_index e') (length qs) = ring_index (am_current_sdu_index e) (Suc (length qs))"
proof -
  let ?i = "am_current_sdu_index e" and ?ss = "am_input_sdus e"
  have w: "waiting ?i ?ss (q # qs)" "others_empty ?i (Suc (length qs)) ?ss" using assms by (simp_all add: am_queue_def)
  have i: "?i < 1024" "length ?ss = 1024" "views (?ss ! ?i) q" using waiting_Cons [OF w(1)] by auto
  define s where "s = (?ss ! ?i)\<lparr>am_sdu_block := None, am_sdu_remaining_size := 0\<rparr>"
  define e' where "e' = e\<lparr>am_sdu_buffer_occupancy := am_sdu_buffer_occupancy e - int (sdu_remaining_size q), am_input_sdus := ?ss[?i := s],
      am_nb_sdu_no_segmented := am_nb_sdu_no_segmented e - 1, am_current_sdu_index := (?i + 1) mod 1024\<rparr>"
  have r: "am_sdu_remaining_size (?ss ! ?i) = int (sdu_remaining_size q)" "am_sdu_block (?ss ! ?i) = Some (sdu_data q)"
    using i(3) unfolding views_def um_view_def by (auto dest: arg_cong [of _ _ sdu_remaining_size])
  have "am_sdu_done e = Some e'"
    unfolding am_sdu_done_def rlc_am_free_in_sdu_data_def using i(1,2) r by (simp add: Let_def RLC_AM_SDU_CONTROL_BUFFER_SIZE_def e'_def s_def)
  moreover have "am_queue e' qs"
    using waiting_tl [OF w(1), of s] others_empty_tl [OF w(2) i(1,2), of s] assms set_update_subset_insert [of ?ss ?i s]
    by (auto simp: am_queue_def e'_def s_def)
  ultimately show ?thesis by (intro exI [of _ e'] conjI) (simp_all add: e'_def seg_rest_def mod_simps)
qed

lemma am_copy_sdu_view:
  assumes "views s q" "am_sdu_block s = Some b"
  shows "am_copy_sdu b (am_sdu_segmented_size s) n f = copy_sdu q n (um_of f e)"
proof -
  have "sdu_data q = b" "sdu_segmented_size q = nat (am_sdu_segmented_size s)" "0 \<le> am_sdu_segmented_size s"
    using assms unfolding views_def um_view_def by (auto dest: arg_cong [of _ _ sdu_segmented_size])
  then show ?thesis by (simp add: am_copy_sdu_def copy_sdu_def um_of_def)
qed

lemma am_fill_sim:
  assumes "am_queue e qs" "length qs \<le> room" "fill_sdus tn qs (um_of f e) = Some (qs', g)"
  shows "\<exists>f' e'. am_fill_sdus room tn f e = Some (f', e') \<and> um_of f' e' = g \<and> am_queue e' qs' \<and> seg_rest e' = seg_rest e \<and>
    am_nb_sdu_no_segmented e' + int (length qs) = am_nb_sdu_no_segmented e + int (length qs') \<and>
    af_payload_size f' + am_sdu_buffer_occupancy e' = af_payload_size f + am_sdu_buffer_occupancy e \<and>
    ring_index (am_current_sdu_index e') (length qs') = ring_index (am_current_sdu_index e) (length qs)"
  using assms
proof (induction qs arbitrary: e f room)
  case Nil
  then have "waiting (am_current_sdu_index e) (am_input_sdus e) []" by (simp add: am_queue_def)
  from waiting_Nil [OF this] show ?case using Nil by (subst am_fill_sdus.simps) (auto simp: Let_def)
next
  case (Cons q qs)
  note p = Cons.prems
  let ?i = "am_current_sdu_index e" and ?ss = "am_input_sdus e"
  let ?s = "?ss ! ?i"
  have w: "waiting ?i ?ss (q # qs)" "others_empty ?i (Suc (length qs)) ?ss" using p(1) by (simp_all add: am_queue_def)
  have i: "?i < 1024" "length ?ss = 1024" "views ?s q" using waiting_Cons [OF w(1)] by auto
  have s: "am_sdu_block ?s = Some (sdu_data q)" "am_sdu_remaining_size ?s = int (sdu_remaining_size q)" "am_sdu_segmented_size ?s = int (sdu_segmented_size q)"
      "am_sdu_size ?s = int (sdu_size q)"
    using i(3) unfolding views_def um_view_def by (auto dest: arg_cong [of _ _ sdu_remaining_size] arg_cong [of _ _ sdu_segmented_size] arg_cong [of _ _ sdu_size])
  have tm: "sdu_creation_time q = 0"
    using i(3) unfolding views_def um_view_def by (auto dest: arg_cong [of _ _ sdu_creation_time])
  note cp = am_copy_sdu_view [OF i(3) s(1), of _ f e, unfolded s(3)]
  obtain room' where room: "room = Suc room'" "length qs \<le> room'" using p(2) by (cases room) auto
  let ?a = "int (sdu_remaining_size q)" and ?r = "af_remaining f" and ?li = "af_li_length f XOR 3"
  have um: "f_remaining (um_of f e) = ?r" "f_li_length (um_of f e) = af_li_length f" by (simp_all add: um_of_def)
  obtain e1 where e1: "am_sdu_done e = Some e1" "am_queue e1 qs" "seg_rest e1 = seg_rest e" "am_nb_sdu_no_segmented e1 = am_nb_sdu_no_segmented e - 1"
      "am_sdu_buffer_occupancy e1 = am_sdu_buffer_occupancy e - ?a"
      "ring_index (am_current_sdu_index e1) (length qs) = ring_index ?i (Suc (length qs))"
    using am_sdu_done_ok [OF p(1)] by blast
  consider "?a > ?r" | "?a = ?r" | "?a < ?r" "?a + int ?li < ?r" using p(3) by (fastforce simp: um Let_def split: if_splits)
  then show ?case
  proof cases
    case 1
    obtain x where x: "copy_sdu q ?r (um_of f e) = Some x" "qs' = q\<lparr>sdu_remaining_size := sdu_remaining_size q - nat ?r, sdu_segmented_size := sdu_segmented_size q + nat ?r\<rparr> # qs"
        "g = (um_of f e)\<lparr>f_pdu := x, f_last := False, f_bo := am_sdu_buffer_occupancy e - ?r, f_remaining := 0\<rparr>"
      using p(3) 1 by (auto simp: um Let_def um_of_def split: Option.bind_splits)
    have r: "0 \<le> ?r" using x(1) by (auto simp: copy_sdu_def split: if_splits)
    define s' where "s' = ?s\<lparr>am_sdu_remaining_size := ?a - ?r, am_sdu_segmented_size := am_sdu_segmented_size ?s + ?r\<rparr>"
    define e' where "e' = e\<lparr>am_input_sdus := ?ss[?i := s'], am_sdu_buffer_occupancy := am_sdu_buffer_occupancy e - ?r\<rparr>"
    define f' where "f' = f\<lparr>af_pdu := x, af_payload_size := af_payload_size f + ?r, af_last := False, af_remaining := 0\<rparr>"
    have "am_fill_sdus room tn f e = Some (f', e')"
      using 1 x(1) s by (subst am_fill_sdus.simps) (simp add: cp Let_def f'_def e'_def s'_def)
    moreover have "um_of f' e' = g" by (simp add: x(3) um_of_def f'_def e'_def)
    moreover have "views s' (q\<lparr>sdu_remaining_size := sdu_remaining_size q - nat ?r, sdu_segmented_size := sdu_segmented_size q + nat ?r\<rparr>)"
      using 1 r s tm unfolding views_def um_view_def by (cases q) (simp add: s'_def nat_diff_distrib nat_add_distrib)
    from waiting_hd [OF w(1) this] have "am_queue e' qs'"
      using others_empty_hd [OF w(2) i(1), of s'] p(1) 1 set_update_subset_insert [of ?ss ?i s']
      by (auto simp: am_queue_def e'_def x(2) s'_def)
    ultimately show ?thesis using x(2) by (intro exI [of _ f'] exI [of _ e']) (simp add: e'_def f'_def seg_rest_def)
  next
    case 2
    obtain x where x: "copy_sdu q ?r (um_of f e) = Some x" "qs' = qs"
        "g = (um_of f e)\<lparr>f_pdu := x, f_last := True, f_bo := am_sdu_buffer_occupancy e - ?a, f_remaining := 0\<rparr>"
      using p(3) 2 by (auto simp: um Let_def um_of_def split: Option.bind_splits)
    define f' where "f' = f\<lparr>af_pdu := x, af_payload_size := af_payload_size f + ?r, af_last := True, af_remaining := 0\<rparr>"
    have "am_fill_sdus room tn f e = Some (f', e1)"
      using 2 x(1) s e1(1) by (subst am_fill_sdus.simps) (simp add: cp Let_def f'_def)
    moreover have "um_of f' e1 = g" using e1(5) by (simp add: x(3) um_of_def f'_def)
    ultimately show ?thesis using x(2) e1 2 by (intro exI [of _ f'] exI [of _ e1]) (simp add: f'_def)
  next
    case 3
    obtain x y where x: "copy_sdu q ?a (um_of f e) = Some x" "write_li ?li (af_e_li f) (af_num_li f + 1 \<noteq> tn) (sdu_remaining_size q) x = Some y"
      using p(3) 3 by (auto simp: um Let_def um_of_def split: Option.bind_splits)
    define f1 where "f1 = f\<lparr>af_pdu := y, af_payload_size := af_payload_size f + ?a, af_data := af_data f + sdu_remaining_size q, af_li_length := ?li,
         af_num_li := af_num_li f + 1, af_e_li := (if ?li = 2 then af_e_li f else af_e_li f + 3), af_remaining := ?r - (?a + int ?li)\<rparr>"
    have step: "am_fill_sdus room tn f e = am_fill_sdus room' tn f1 e1"
      using 3 x s e1(1) unfolding room(1) by (subst am_fill_sdus.simps) (simp add: cp Let_def f1_def)
    have "fill_sdus tn qs (um_of f1 e1) = Some (qs', g)"
      using p(3) 3 x e1(5) by (auto simp: um Let_def um_of_def f1_def split: if_splits)
    then obtain f' e' where "am_fill_sdus room' tn f1 e1 = Some (f', e')" "um_of f' e' = g" "am_queue e' qs'" "seg_rest e' = seg_rest e1"
        "am_nb_sdu_no_segmented e' + int (length qs) = am_nb_sdu_no_segmented e1 + int (length qs')"
        "af_payload_size f' + am_sdu_buffer_occupancy e' = af_payload_size f1 + am_sdu_buffer_occupancy e1"
        "ring_index (am_current_sdu_index e') (length qs') = ring_index (am_current_sdu_index e1) (length qs)"
      using Cons.IH [OF e1(2) room(2)] by blast
    then show ?thesis using step e1(3-6) by (intro exI [of _ f'] exI [of _ e']) (simp add: f1_def)
  qed
qed

section \<open>Segmentation\<close>

text \<open>The octets of PDU \<open>sn\<close> with the pieces \<open>cs\<close>; \<open>first\<close> and \<open>fin\<close> tell whether its ends are ends of SDUs.\<close>

definition am_pdu :: "bool \<Rightarrow> int \<Rightarrow> bool \<Rightarrow> bool \<Rightarrow> octet list list \<Rightarrow> octet list" where
  "am_pdu poll sn first fin cs = (let h = amd_header ((if first then 0 else 2) + (if fin then 0 else 1)) (length cs > 1) sn
     in [polled poll (h ! 0), h ! 1] @ li_octets (map length (butlast cs)) @ concat cs)"

lemma polling_any: "\<exists>e' poll. rlc_am_pdu_polling now n is_new b e = (polled poll b, e') \<and> poll_rest e' = poll_rest e"
  by (auto simp: rlc_am_pdu_polling_def polled_def Let_def poll_rest_def rlc_am_start_timer_poll_retransmit_def rlc_am_stop_and_reset_timer_poll_retransmit_def
      intro: exI [of _ True] exI [of _ False])

text \<open>The transmitter with the queue \<open>qs\<close>.\<close>

definition am_tx_ok :: "rlc_am_tx_entity \<Rightarrow> tx_sdu list \<Rightarrow> bool" where
  "am_tx_ok e qs \<longleftrightarrow> am_queue e qs \<and> queue_ok 2047 qs \<and>
     am_sdu_buffer_occupancy e = int (sum_list (map sdu_remaining_size qs)) \<and> am_nb_sdu_no_segmented e = int (length qs) \<and>
     am_next_sdu_index e = ring_index (am_current_sdu_index e) (length qs)"

definition blocks_ok :: "(nat \<Rightarrow> octet list option) \<Rightarrow> bool" where
  "blocks_ok alloc \<longleftrightarrow> (\<forall>n. \<exists>block. alloc n = Some block \<and> max 4 n \<le> length block)"

definition am_grant :: "int \<Rightarrow> rlc_am_tx_entity \<Rightarrow> tx_sdu list \<Rightarrow> bool" where
  "am_grant nb e qs \<longleftrightarrow> 2 < nb \<and> nb < 9000 \<and> length qs \<le> 127 \<and> fragments_ok (am_current_sdu_index e) (am_input_sdus e) qs"

text \<open>What the first loop takes off the room for a grant that ends one or two octets behind an SDU.\<close>

definition am_stale :: "int \<Rightarrow> rlc_am_tx_entity \<Rightarrow> tx_sdu list \<Rightarrow> nat" where
  "am_stale nb e qs = test_reduce (test_fill qs (test_start (am_data_pdu_size nb e - 2)))"

definition am_lis :: "int \<Rightarrow> rlc_am_tx_entity \<Rightarrow> tx_sdu list \<Rightarrow> nat" where
  "am_lis nb e qs = test_num_li (test_fill qs (test_start (am_data_pdu_size nb e - 2)))"

lemma am_overhead: "am_max_li_overhead (int n) = int (max_li_overhead n)"
proof (cases "n \<le> 1")
  case False
  then obtain m where n: "n = Suc m" "m \<noteq> 0" by (cases n) auto
  have "int m + int m div 2 + int m mod 2 = int (m * 3) div 2 + int m mod 2" by presburger
  then show ?thesis using n by (simp add: am_max_li_overhead_def max_li_overhead_def Let_def zdiv_int zmod_int)
qed (simp add: am_max_li_overhead_def max_li_overhead_def)

lemma am_size:
  assumes "am_tx_ok e qs" "qs \<noteq> []"
  shows "am_data_pdu_size nb e = min nb (int (needed 1 qs) + 2)"
  using assms overhead_eq [OF assms(2)]
  by (simp add: am_data_pdu_size_def am_tx_ok_def RLC_AM_HEADER_MIN_SIZE_def am_overhead Let_def min_def)

definition new_rest :: "rlc_am_tx_entity \<Rightarrow> rlc_am_tx_entity" where
  "new_rest e = poll_rest (seg_rest (e\<lparr>tx_data_pdu_buffer := [], vt_s := 0, am_segmentation_pdu_list := []\<rparr>))"

lemma new_rest_fields:
  assumes "new_rest e' = new_rest e"
  shows "vt_a e' = vt_a e" "vt_ms e' = vt_ms e" "am_next_sdu_index e' = am_next_sdu_index e" "retrans_num_pdus e' = retrans_num_pdus e"
    "retrans_num_bytes_to_retransmit e' = retrans_num_bytes_to_retransmit e" "max_retx_threshold e' = max_retx_threshold e"
    "am_pdus_to_mac_layer e' = am_pdus_to_mac_layer e"
  using arg_cong [OF assms, of vt_a] arg_cong [OF assms, of vt_ms] arg_cong [OF assms, of am_next_sdu_index] arg_cong [OF assms, of retrans_num_pdus]
    arg_cong [OF assms, of retrans_num_bytes_to_retransmit] arg_cong [OF assms, of max_retx_threshold] arg_cong [OF assms, of am_pdus_to_mac_layer]
  by (simp_all add: new_rest_def poll_rest_def seg_rest_def)

text \<open>
  The entry of the transmission buffer for a new PDU: the octets \<open>pdu\<close>, \<open>n\<close> of which are payload, and the octets \<open>stale\<close> behind them.
\<close>

definition new_entry :: "int \<Rightarrow> octet list \<Rightarrow> octet list \<Rightarrow> nat \<Rightarrow> rlc_am_tx_pdu \<Rightarrow> bool" where
  "new_entry sn pdu stale n p \<longleftrightarrow> (\<exists>T. tx_mem_block p = Some (pdu @ stale @ T)) \<and> tx_header_and_payload_size p = int (length pdu + length stale) \<and>
     tx_payload_size p = int n \<and> tx_payload p = length pdu - n \<and> tx_sn p = sn \<and> tx_transmitted p \<and> indices_ok (tx_sdus_index p) \<and>
     tx_retx_payload_size p = 0 \<and> tx_retx_count p = 0 \<and> tx_retx_count_next p = 0 \<and> \<not> tx_ack p \<and> \<not> tx_retransmit p \<and> \<not> tx_max_retransmit p"

definition starts_sdu :: "tx_sdu list \<Rightarrow> bool" where
  "starts_sdu qs \<longleftrightarrow> sent_part qs = []"

lemma starts_sdu_size:
  assumes "queue_ok 2047 (q # qs)" "views s q"
  shows "am_sdu_remaining_size s = am_sdu_size s \<longleftrightarrow> starts_sdu (q # qs)"
proof -
  have "sdu_wf q" using assms(1) by (simp add: queue_ok_def)
  then have w: "sdu_segmented_size q + sdu_remaining_size q = sdu_size q" "sdu_size q = length (sdu_data q)" "0 < sdu_remaining_size q"
    by (simp_all add: sdu_wf_def)
  have "am_sdu_remaining_size s = int (sdu_remaining_size q)" "am_sdu_size s = int (sdu_size q)"
    using assms(2) unfolding views_def um_view_def by (auto dest: arg_cong [of _ _ sdu_remaining_size] arg_cong [of _ _ sdu_size])
  moreover have "take (sdu_segmented_size q) (sdu_data q) = [] \<longleftrightarrow> sdu_segmented_size q = 0" using w by auto
  ultimately show ?thesis using w(1) by (auto simp: starts_sdu_def sent_part_def)
qed

text \<open>The first loop finds room for \<open>k\<close> indicators.\<close>

lemma am_size_bounds:
  assumes "am_tx_ok e qs" "qs \<noteq> []" "am_grant nb e qs"
  obtains size where "am_data_pdu_size nb e = int size" "2 < size" "int size \<le> nb" "size < 9000" "int size - 2 \<le> int (needed 1 qs)"
proof -
  have "\<forall>s \<in> set qs. 0 < sdu_remaining_size s" using assms(1) by (auto simp: am_tx_ok_def queue_ok_def sdu_wf_def)
  then have nd: "0 < needed 1 qs" using needed_eq [OF assms(2), of 1] assms(2) by (cases qs) auto
  have g: "2 < nb" "nb < 9000" using assms(3) by (simp_all add: am_grant_def)
  define size where "size = nat (am_data_pdu_size nb e)"
  have "am_data_pdu_size nb e = int size" "2 < size" "int size \<le> nb" "size < 9000" "int size - 2 \<le> int (needed 1 qs)"
    using am_size [OF assms(1,2), of nb] g nd by (auto simp: size_def min_def)
  then show thesis by (rule that)
qed

lemma am_room:
  assumes ok: "am_tx_ok e qs" and ne: "qs \<noteq> []" and gr: "am_grant nb e qs" and r: "r = am_data_pdu_size nb e - 2"
  defines "t0 \<equiv> \<lparr>test_pdu_remaining_size = r, test_li_length_in_bytes = 1, test_num_li = 0, test_remaining_size_to_substract = 0,
      test_remaining_num_li_to_substract = 0, test_reduce = 0, test_sdus = am_input_sdus e, test_sdus_index = []\<rparr>"
  shows "\<exists>t. am_test_fill 127 (am_current_sdu_index e) pdu t0 = Some t \<and> test_num_li t = am_lis nb e qs \<and> test_remaining_num_li_to_substract t = 0 \<and>
    test_reduce t = am_stale nb e qs \<and> fits 1 (r - int (am_stale nb e qs)) qs (am_lis nb e qs) \<and> map sdu_core (test_sdus t) = map sdu_core (am_input_sdus e) \<and>
    indices_ok (test_sdus_index t)"
proof -
  let ?s = "am_stale nb e qs"
  have w: "waiting (am_current_sdu_index e) (am_input_sdus e) qs" using ok by (simp add: am_tx_ok_def am_queue_def)
  have p: "\<forall>s \<in> set qs. 0 < sdu_remaining_size s" using ok by (auto simp: am_tx_ok_def queue_ok_def sdu_wf_def)
  have g: "length qs \<le> 127" "fragments_ok (am_current_sdu_index e) (am_input_sdus e) qs" using gr by (simp_all add: am_grant_def)
  have r': "0 < r" "r \<le> int (needed 1 qs)" using am_size_bounds [OF ok ne gr] r by fastforce+
  have t0: "test_sdus t0 = am_input_sdus e" "test_sdus_index t0 = []" "um_test.truncate t0 = test_start r" by (simp_all add: t0_def test_start_def um_test.defs)
  obtain t where t: "am_test_fill 127 (am_current_sdu_index e) pdu t0 = Some t" "um_test.truncate t = test_fill qs (test_start r)"
      "map sdu_core (test_sdus t) = map sdu_core (am_input_sdus e)" "indices_ok (test_sdus_index t)"
    using am_test_fill_sim [of "am_current_sdu_index e" t0 qs 127 pdu] w g unfolding t0 by (auto simp: indices_ok_def)
  have k: "test_remaining_num_li_to_substract (test_fill qs (test_start r)) = 0" "fits 1 (r - int ?s) qs (am_lis nb e qs)"
    using test_fill_fits [OF ne p, of 1 "test_start r" r] r' by (auto simp: test_start_def am_stale_def am_lis_def r)
  have "test_num_li t = am_lis nb e qs" "test_remaining_num_li_to_substract t = 0" "test_reduce t = ?s"
    using k(1) arg_cong [OF t(2), of test_num_li] arg_cong [OF t(2), of test_remaining_num_li_to_substract] arg_cong [OF t(2), of test_reduce]
    by (simp_all add: um_test.defs am_stale_def am_lis_def r)
  then show ?thesis using t(1,3,4) k(2) by blast
qed

text \<open>The second loop on a fresh block.\<close>

lemma am_fill_block:
  assumes q: "am_queue e qs" "\<forall>s \<in> set qs. sdu_wf s" "length qs \<le> 127" and fit: "fits 1 r qs k" and len: "2 + nat r \<le> length p0"
    and n: "n = nat r - li_bytes 1 k" and ps: "pieces n qs = (cs, fin, qs')"
  defines "f0 \<equiv> \<lparr>af_pdu = p0, af_data = 2 + (k * 3 + 1) div 2, af_e_li = 2, af_li_length = 1, af_num_li = 0, af_remaining = r, af_payload_size = 0, af_last = False\<rparr>"
  shows "\<exists>f e' A. am_fill_sdus 127 k f0 e = Some (f, e') \<and> length A = 2 \<and>
    af_pdu f = A @ li_octets (map length (butlast cs)) @ concat cs @ drop (2 + nat r) p0 \<and> af_num_li f = k \<and> af_remaining f = 0 \<and> af_last f = fin \<and>
    af_payload_size f = int n \<and> am_queue e' qs' \<and> seg_rest e' = seg_rest e \<and> am_sdu_buffer_occupancy e' = am_sdu_buffer_occupancy e - int n \<and>
    am_nb_sdu_no_segmented e' + int (length qs) = am_nb_sdu_no_segmented e + int (length qs') \<and>
    ring_index (am_current_sdu_index e') (length qs') = ring_index (am_current_sdu_index e) (length qs) \<and> length cs = k + 1 \<and>
    (k * 3 + 1) div 2 + n = nat r \<and> length (concat cs) = n"
proof -
  note fb = fill_block [OF fit q(2) len ps [unfolded n], of "am_sdu_buffer_occupancy e" False]
  have "um_of f0 e = \<lparr>f_pdu = p0, f_data = 2 + (k * 3 + 1) div 2, f_e_li = 2, f_li_length = 1, f_num_li = 0, f_remaining = r,
      f_bo = am_sdu_buffer_occupancy e, f_last = False\<rparr>"
    by (simp add: um_of_def f0_def)
  then obtain g A where g: "fill_sdus k qs (um_of f0 e) = Some (qs', g)" "f_pdu g = A @ li_octets (map length (butlast cs)) @ concat cs @ drop (2 + nat r) p0"
      "length A = 2" "f_num_li g = k" "f_remaining g = 0" "f_last g = fin" "f_bo g = am_sdu_buffer_occupancy e - int n" "length cs = k + 1"
    using fb n by auto
  obtain f e1 where f: "am_fill_sdus 127 k f0 e = Some (f, e1)" "um_of f e1 = g" "am_queue e1 qs'" "seg_rest e1 = seg_rest e"
      "am_nb_sdu_no_segmented e1 + int (length qs) = am_nb_sdu_no_segmented e + int (length qs')"
      "af_payload_size f + am_sdu_buffer_occupancy e1 = af_payload_size f0 + am_sdu_buffer_occupancy e"
      "ring_index (am_current_sdu_index e1) (length qs') = ring_index (am_current_sdu_index e) (length qs)"
    using am_fill_sim [OF q(1,3) g(1)] by blast
  have c: "length (concat cs) = n" using pieces_octets [OF ps q(2)] fits_sum [OF fit] n by simp
  have l: "(k * 3 + 1) div 2 + n = nat r" using fits_room [OF fit] n li_bytes_1 [of k] by simp
  show ?thesis using f g c l by (intro exI [of _ f] exI [of _ e1] exI [of _ A]) (auto simp: um_of_def f0_def)
qed

lemma am_queue_core:
  assumes "am_queue e qs" "map sdu_core ss = map sdu_core (am_input_sdus e)"
  shows "am_queue (e\<lparr>am_input_sdus := ss\<rparr>) qs"
proof -
  have l: "length (am_input_sdus e) = 1024" using assms(1) by (simp add: am_queue_def waiting_def)
  have "am_sdu_block s = None" if s: "s \<in> set ss" "am_sdu_remaining_size s = 0" for s
  proof -
    have "sdu_core s \<in> sdu_core ` set (am_input_sdus e)" using s(1) assms(2) by (metis imageI list.set_map)
    then obtain s' where "s' \<in> set (am_input_sdus e)" "sdu_core s = sdu_core s'" by blast
    then show ?thesis using assms(1) s(2) sdu_core_fields [of s s'] by (simp add: am_queue_def)
  qed
  then show ?thesis using assms(1) waiting_core [OF assms(2)] others_empty_core [OF assms(2) l] by (simp add: am_queue_def)
qed

text \<open>
  The call builds one PDU from the first \<open>n\<close> octets of the queue, keeps it in the entry of VT(S) and gives a copy of it to the MAC.
\<close>

definition am_sent :: "rlc_am_tx_entity \<Rightarrow> tx_sdu list \<Rightarrow> octet list \<Rightarrow> octet list list \<Rightarrow> bool \<Rightarrow> tx_sdu list \<Rightarrow> octet list \<Rightarrow> rlc_am_tx_entity \<Rightarrow> bool" where
  "am_sent e qs stale cs fin qs' pdu e' \<longleftrightarrow> (\<exists>n p. 0 < n \<and> n \<le> sum_list (map sdu_remaining_size qs) \<and> pieces n qs = (cs, fin, qs') \<and> length cs \<le> 127 \<and>
     (\<exists>poll. pdu = am_pdu poll (vt_s e) (starts_sdu qs) fin cs) \<and> length (concat cs) = n \<and> am_tx_ok e' qs' \<and>
     vt_s e' = RLC_AM_NEXT_SN (vt_s e) \<and> am_segmentation_pdu_list e' = am_segmentation_pdu_list e @ [pdu @ stale] \<and>
     tx_data_pdu_buffer e' = (tx_data_pdu_buffer e)[tx_index (vt_s e) := p] \<and> new_entry (vt_s e) pdu stale n p \<and> new_rest e' = new_rest e)"

text \<open>The number of octets of SDUs that a grant takes.\<close>

definition am_payload :: "int \<Rightarrow> rlc_am_tx_entity \<Rightarrow> tx_sdu list \<Rightarrow> nat" where
  "am_payload nb e qs = nat (am_data_pdu_size nb e - 2 - int (am_stale nb e qs)) - li_bytes 1 (am_lis nb e qs)"

text \<open>The octets behind the PDU in the block of the pool, the first four of which are cleared.\<close>

definition block_rest :: "(nat \<Rightarrow> octet list option) \<Rightarrow> nat \<Rightarrow> nat \<Rightarrow> octet list" where
  "block_rest alloc m n = drop n (replicate 4 0 @ drop 4 (the (alloc m)))"

text \<open>The copy that goes to the MAC.\<close>

lemma new_entry_copy:
  assumes "new_entry sn pdu stale n (tx_pdu e sn)" "alloc (length pdu + length stale) = Some b" "length pdu + length stale \<le> length b"
  shows "rlc_am_retransmit_get_copy alloc sn e = Some (pdu @ stale)"
proof -
  obtain T where "tx_mem_block (tx_pdu e sn) = Some (pdu @ stale @ T)" "tx_header_and_payload_size (tx_pdu e sn) = int (length pdu + length stale)"
    using assms(1) by (auto simp: new_entry_def)
  then show ?thesis using assms(2,3) by (simp add: rlc_am_retransmit_get_copy_def slice_def Let_def nat_add_distrib)
qed

text \<open>The call, step by step.\<close>

lemma segment_steps:
  assumes go: "0 < am_sdu_buffer_occupancy e" "am_sdu_block (am_input_sdus e ! am_current_sdu_index e) \<noteq> None" "0 < nb"
    and m: "am_data_pdu_size nb e = int m" "m < 9000" "alloc m = Some block" "write_at 0 (replicate 4 0) block = Some p0"
    and t: "am_test_fill 127 (am_current_sdu_index e) (vt_s e mod RLC_AM_WINDOW_SIZE) \<lparr>test_pdu_remaining_size = int m - 2, test_li_length_in_bytes = 1,
      test_num_li = 0, test_remaining_size_to_substract = 0, test_remaining_num_li_to_substract = 0, test_reduce = 0,
      test_sdus = am_input_sdus e, test_sdus_index = []\<rparr> = Some t" "test_num_li t = k" "test_remaining_num_li_to_substract t = 0"
    and f: "am_fill_sdus 127 k \<lparr>af_pdu = p0, af_data = 2 + (k * 3 + 1) div 2, af_e_li = 2, af_li_length = 1, af_num_li = 0,
      af_remaining = int m - 2 - int (test_reduce t), af_payload_size = 0, af_last = False\<rparr> (e\<lparr>am_input_sdus := test_sdus t\<rparr>) = Some (f, e1)"
      "af_num_li f = k" "af_remaining f = 0" "2 \<le> length (af_pdu f)"
    and fi: "(if am_sdu_remaining_size (am_input_sdus e ! am_current_sdu_index e) = am_sdu_size (am_input_sdus e ! am_current_sdu_index e) then 0 else 2) +
      (if af_last f then 0 else 1) = fi"
    and e2: "rlc_am_pdu_polling now (af_payload_size f) True (amd_header fi (k > 0) (vt_s e) ! 0) (e1\<lparr>vt_s := RLC_AM_NEXT_SN (vt_s e)\<rparr>) = (b1, e2)" "vt_s e1 = vt_s e"
    and p: "p = am_no_pdu\<lparr>tx_mem_block := Some ([b1, amd_header fi (k > 0) (vt_s e) ! 1] @ drop 2 (af_pdu f)), tx_sdus_index := test_sdus_index t,
      tx_payload := 2 + (k * 3 + 1) div 2, tx_header_and_payload_size := int m, tx_payload_size := af_payload_size f, tx_sn := vt_s e, tx_transmitted := True\<rparr>"
    and copy: "rlc_am_retransmit_get_copy alloc (vt_s e) (set_tx_pdu (vt_s e) p e2) = Some pdu"
  shows "rlc_am_segment_10 alloc now nb e = Some ((set_tx_pdu (vt_s e) p e2)\<lparr>am_segmentation_pdu_list := am_segmentation_pdu_list e2 @ [pdu]\<rparr>)"
proof -
  have c: "\<not> (am_sdu_buffer_occupancy e \<le> 0 \<or> am_sdu_block (am_input_sdus e ! am_current_sdu_index e) = None \<or> \<not> nb > 0)" using go by simp
  have tb: "int m - af_remaining f = int m" "int m < int RLC_SDU_MAX_SIZE" using f(3) m(2) by (simp_all add: RLC_SDU_MAX_SIZE_def)
  have r: "int m - RLC_AM_HEADER_MIN_SIZE = int m - 2" by (simp add: RLC_AM_HEADER_MIN_SIZE_def)
  show ?thesis
    unfolding rlc_am_segment_10_def if_not_P [OF c] Let_def m(1) nat_int m(3) option.case m(4) bind.bind_lunit r t(1)
    by (simp only: t(2,3) if_not_P [OF less_irrefl] diff_zero f(1) bind.bind_lunit prod.case fi tb(1))
      (use tb(2) f(4) e2 copy [unfolded p] in \<open>simp add: f(2,3) p\<close>)
qed

lemma segment_value:
  assumes ok: "am_tx_ok e qs" and nq: "qs \<noteq> []" and gr: "am_grant nb e qs" and al: "blocks_ok alloc" and buf: "length (tx_data_pdu_buffer e) = 512"
  shows "\<exists>cs fin qs' n pdu poll p e1 e2. rlc_am_segment_10 alloc now nb e =
      Some ((set_tx_pdu (vt_s e) p e2)\<lparr>am_segmentation_pdu_list := am_segmentation_pdu_list e2 @ [pdu @ take (am_stale nb e qs) (block_rest alloc (length pdu + am_stale nb e qs) (length pdu))]\<rparr>) \<and>
    poll_rest e2 = poll_rest (e1\<lparr>vt_s := RLC_AM_NEXT_SN (vt_s e)\<rparr>) \<and> am_queue e1 qs' \<and> seg_rest e1 = seg_rest e \<and>
    am_sdu_buffer_occupancy e1 = am_sdu_buffer_occupancy e - int n \<and> am_nb_sdu_no_segmented e1 + int (length qs) = am_nb_sdu_no_segmented e + int (length qs') \<and>
    ring_index (am_current_sdu_index e1) (length qs') = ring_index (am_current_sdu_index e) (length qs) \<and>
    pieces n qs = (cs, fin, qs') \<and> 0 < n \<and> n \<le> sum_list (map sdu_remaining_size qs) \<and> length (concat cs) = n \<and> pdu = am_pdu poll (vt_s e) (starts_sdu qs) fin cs \<and>
    new_entry (vt_s e) pdu (take (am_stale nb e qs) (block_rest alloc (length pdu + am_stale nb e qs) (length pdu))) n p \<and>
    int (length pdu + am_stale nb e qs) = am_data_pdu_size nb e \<and> n = am_payload nb e qs"
proof -
  obtain q qt where qs: "qs = q # qt" using nq by (cases qs) auto
  let ?i = "am_current_sdu_index e" and ?ss = "am_input_sdus e" and ?d = "am_stale nb e qs"
  have o: "am_queue e qs" "queue_ok 2047 qs" "am_sdu_buffer_occupancy e = int (sum_list (map sdu_remaining_size qs))" using ok by (simp_all add: am_tx_ok_def)
  have x: "2 < nb" "length qs \<le> 127" using gr by (simp_all add: am_grant_def)
  have wf: "\<forall>s \<in> set qs. sdu_wf s" using o(2) by (simp add: queue_ok_def)
  have w: "waiting ?i ?ss qs" using o(1) by (simp add: am_queue_def)
  have v: "views (?ss ! ?i) q" using waiting_Cons [OF w [unfolded qs]] by simp
  obtain size where size: "am_data_pdu_size nb e = int size" "2 < size" "int size \<le> nb" "size < 9000" by (rule am_size_bounds [OF ok nq gr])
  define r where "r = int size - 2"
  obtain block where block: "alloc size = Some block" "max 4 size \<le> length block" using al unfolding blocks_ok_def by blast
  define p0 where "p0 = replicate 4 0 @ drop 4 block"
  have p0: "write_at 0 (replicate 4 0) block = Some p0" "length p0 = length block" using block(2) by (simp_all add: write_at_def p0_def)
  have r2: "r = am_data_pdu_size nb e - 2" by (simp add: r_def size(1))
  define k where "k = am_lis nb e qs"
  obtain t where t: "am_test_fill 127 ?i (vt_s e mod RLC_AM_WINDOW_SIZE) \<lparr>test_pdu_remaining_size = r, test_li_length_in_bytes = 1, test_num_li = 0,
      test_remaining_size_to_substract = 0, test_remaining_num_li_to_substract = 0, test_reduce = 0, test_sdus = ?ss, test_sdus_index = []\<rparr> = Some t"
    and tt: "test_num_li t = k" "test_remaining_num_li_to_substract t = 0" "test_reduce t = ?d" and fit: "fits 1 (r - int ?d) qs k"
    and tc: "map sdu_core (test_sdus t) = map sdu_core ?ss" "indices_ok (test_sdus_index t)"
    using am_room [OF ok nq gr r2] unfolding k_def by blast
  define r' where "r' = r - int ?d"
  have rm: "int (li_bytes 1 k) < r'" using fits_room [OF fit] by (simp add: r'_def)
  have nr: "nat r' = size - 2 - ?d" using rm by (simp add: r'_def r_def)
  have sz: "2 + nat r' + ?d = size" using rm size(2) nr by (simp add: r'_def r_def)
  define e0 where "e0 = e\<lparr>am_input_sdus := test_sdus t\<rparr>"
  have q0: "am_queue e0 qs" unfolding e0_def by (rule am_queue_core [OF o(1) tc(1)])
  have len: "2 + nat r' \<le> length p0" using sz block(2) p0(2) by linarith
  obtain cs fin qs' where ps: "pieces (nat r' - li_bytes 1 k) qs = (cs, fin, qs')" by (metis prod_cases3)
  define n where "n = nat r' - li_bytes 1 k"
  define f0 where "f0 = \<lparr>af_pdu = p0, af_data = 2 + (k * 3 + 1) div 2, af_e_li = 2, af_li_length = 1, af_num_li = 0, af_remaining = r',
      af_payload_size = 0, af_last = False\<rparr>"
  obtain f e1 A where f: "am_fill_sdus 127 k f0 e0 = Some (f, e1)" "length A = 2"
      "af_pdu f = A @ li_octets (map length (butlast cs)) @ concat cs @ drop (2 + nat r') p0" "af_num_li f = k" "af_remaining f = 0" "af_last f = fin"
      "af_payload_size f = int n" "length cs = k + 1" "(k * 3 + 1) div 2 + n = nat r'" "length (concat cs) = n"
    and e1: "am_queue e1 qs'" "seg_rest e1 = seg_rest e0" "am_sdu_buffer_occupancy e1 = am_sdu_buffer_occupancy e0 - int n"
      "am_nb_sdu_no_segmented e1 + int (length qs) = am_nb_sdu_no_segmented e0 + int (length qs')"
      "ring_index (am_current_sdu_index e1) (length qs') = ring_index (am_current_sdu_index e0) (length qs)"
    using am_fill_block [OF q0 wf x(2) fit [folded r'_def] len n_def ps [folded n_def], folded f0_def] by blast
  define fi :: nat where "fi = (if starts_sdu qs then 0 else 2) + (if fin then 0 else 1)"
  define head where "head = amd_header fi (k > 0) (vt_s e)"
  obtain poll e2 where e2: "rlc_am_pdu_polling now (int n) True (head ! 0) (e1\<lparr>vt_s := RLC_AM_NEXT_SN (vt_s e1)\<rparr>) = (polled poll (head ! 0), e2)"
      "poll_rest e2 = poll_rest (e1\<lparr>vt_s := RLC_AM_NEXT_SN (vt_s e1)\<rparr>)"
    using polling_any by blast
  define pdu where "pdu = am_pdu poll (vt_s e) (starts_sdu qs) fin cs"
  have pdu: "pdu = [polled poll (head ! 0), head ! 1] @ li_octets (map length (butlast cs)) @ concat cs"
    using f(8) by (simp add: pdu_def am_pdu_def head_def fi_def Let_def)
  have lp: "length pdu = 2 + nat r'" "length pdu + ?d = size" using f(8-10) sz by (simp_all add: pdu length_li_octets)
  define T where "T = drop (2 + nat r') p0"
  define stale where "stale = take ?d T"
  have stale: "stale = take ?d (block_rest alloc (length pdu + ?d) (length pdu))"
    unfolding stale_def T_def block_rest_def lp(1) sz block(1) option.sel p0_def ..
  have ls: "length stale = ?d" using sz p0(2) block(2) by (auto simp: stale_def T_def)
  define p where "p = am_no_pdu\<lparr>tx_mem_block := Some (pdu @ T), tx_sdus_index := test_sdus_index t, tx_payload := 2 + (k * 3 + 1) div 2,
      tx_header_and_payload_size := int size, tx_payload_size := int n, tx_sn := vt_s e, tx_transmitted := True\<rparr>"
  have same: "tx_data_pdu_buffer e2 = tx_data_pdu_buffer e" "vt_s e1 = vt_s e"
    using arg_cong [OF e1(2), of tx_data_pdu_buffer] arg_cong [OF e1(2), of vt_s] poll_rest_fields(3) [OF e2(2)] by (simp_all add: seg_rest_def e0_def)
  have ent: "tx_pdu (set_tx_pdu (vt_s e) p e2) (vt_s e) = p" using tx_index_less [of "vt_s e"] buf same(1) by simp
  have sb: "size \<le> length block" using block(2) by simp
  have pT: "pdu @ T = pdu @ stale @ drop ?d T" by (simp add: stale_def)
  have ne: "new_entry (vt_s e) pdu stale n p"
    using f(9) lp ls tc(2) pT by (auto simp: new_entry_def p_def am_no_pdu_def)
  have copy: "rlc_am_retransmit_get_copy alloc (vt_s e) (set_tx_pdu (vt_s e) p e2) = Some (pdu @ stale)"
    by (rule new_entry_copy [of _ _ _ n _ _ block]) (use ne ent block(1) lp(2) ls sb in simp_all)
  have "rlc_am_segment_10 alloc now nb e = Some ((set_tx_pdu (vt_s e) p e2)\<lparr>am_segmentation_pdu_list := am_segmentation_pdu_list e2 @ [pdu @ stale]\<rparr>)"
  proof (rule segment_steps [where alloc = alloc, OF _ _ _ size(1,4) block(1) p0(1) t [unfolded r_def] tt(1,2) f(1) [unfolded f0_def e0_def r'_def r_def, folded tt(3)] f(4,5) _ _ _ same(2)])
    show "0 < am_sdu_buffer_occupancy e" using o(3) wf qs by (simp add: sdu_wf_def)
    show "am_sdu_block (?ss ! ?i) \<noteq> None" "0 < nb" using x(1) v by (auto simp: views_def)
    show "2 \<le> length (af_pdu f)" by (simp add: f(2,3))
    show "(if am_sdu_remaining_size (?ss ! ?i) = am_sdu_size (?ss ! ?i) then 0 else 2) + (if af_last f then 0 else 1) = fi"
      unfolding starts_sdu_size [OF o(2) [unfolded qs] v, folded qs] f(6) fi_def ..
    show "rlc_am_pdu_polling now (af_payload_size f) True (amd_header fi (k > 0) (vt_s e) ! 0) (e1\<lparr>vt_s := RLC_AM_NEXT_SN (vt_s e)\<rparr>) = (polled poll (head ! 0), e2)"
      using e2(1) by (simp add: f(7) head_def same(2))
    have "[polled poll (head ! 0), head ! 1] @ drop 2 (af_pdu f) = pdu @ T" using f(2) by (simp add: f(3) pdu T_def)
    then show "p = am_no_pdu\<lparr>tx_mem_block := Some ([polled poll (head ! 0), amd_header fi (k > 0) (vt_s e) ! 1] @ drop 2 (af_pdu f)),
        tx_sdus_index := test_sdus_index t, tx_payload := 2 + (k * 3 + 1) div 2, tx_header_and_payload_size := int size, tx_payload_size := af_payload_size f,
        tx_sn := vt_s e, tx_transmitted := True\<rparr>"
      by (simp add: p_def f(7) head_def)
  qed (rule copy)
  moreover note ne
  moreover have np: "0 < n" "n \<le> sum_list (map sdu_remaining_size qs)" using rm fits_sum [OF fit] by (simp_all add: n_def r'_def)
  moreover have es: "seg_rest e0 = seg_rest e" by (simp add: e0_def seg_rest_def)
  moreover have "n = am_payload nb e qs" by (simp add: n_def am_payload_def r'_def r2 k_def)
  ultimately show ?thesis
    unfolding stale using e1 e2(2) [unfolded same(2)] ps [folded n_def] f(10) np lp(2) size(1) pdu_def
    by - (rule exI [of _ cs], rule exI [of _ fin], rule exI [of _ qs'], rule exI [of _ n], rule exI [of _ pdu], rule exI [of _ poll],
        rule exI [of _ p], rule exI [of _ e1], rule exI [of _ e2], simp add: e0_def es del: length_concat)
qed

lemma new_rest_split:
  assumes "poll_rest e2 = poll_rest (e1\<lparr>vt_s := v\<rparr>)" "seg_rest e1 = seg_rest e"
  shows "new_rest (e2\<lparr>tx_data_pdu_buffer := b, am_segmentation_pdu_list := l\<rparr>) = new_rest e"
proof -
  have "new_rest (e2\<lparr>tx_data_pdu_buffer := b, am_segmentation_pdu_list := l\<rparr>) =
      seg_rest ((poll_rest e2)\<lparr>tx_data_pdu_buffer := [], vt_s := 0, am_segmentation_pdu_list := []\<rparr>)"
    by (simp add: new_rest_def seg_rest_def poll_rest_def)
  also have "\<dots> = poll_rest ((seg_rest e1)\<lparr>tx_data_pdu_buffer := [], vt_s := 0, am_segmentation_pdu_list := []\<rparr>)"
    unfolding assms(1) by (simp add: seg_rest_def poll_rest_def)
  also have "\<dots> = new_rest e" unfolding assms(2) by (simp add: new_rest_def seg_rest_def poll_rest_def)
  finally show ?thesis .
qed

text \<open>The octets the PDU for a grant of \<open>nb\<close> ends in that no SDU has.\<close>

definition stale_octets :: "(nat \<Rightarrow> octet list option) \<Rightarrow> int \<Rightarrow> rlc_am_tx_entity \<Rightarrow> tx_sdu list \<Rightarrow> octet list" where
  "stale_octets alloc nb e qs = (let n = nat (am_data_pdu_size nb e); d = am_stale nb e qs in take d (block_rest alloc n (n - d)))"

lemma segment_new:
  assumes ok: "am_tx_ok e qs" and ne: "qs \<noteq> []" and gr: "am_grant nb e qs" and al: "blocks_ok alloc" and buf: "length (tx_data_pdu_buffer e) = 512"
  shows "\<exists>cs fin qs' pdu e'. rlc_am_segment_10 alloc now nb e = Some e' \<and> am_sent e qs (stale_octets alloc nb e qs) cs fin qs' pdu e' \<and>
    int (length pdu + am_stale nb e qs) = am_data_pdu_size nb e \<and> pieces (am_payload nb e qs) qs = (cs, fin, qs')"
proof -
  let ?stale = "stale_octets alloc nb e qs"
  have o: "queue_ok 2047 qs" "am_sdu_buffer_occupancy e = int (sum_list (map sdu_remaining_size qs))" "am_nb_sdu_no_segmented e = int (length qs)"
      "am_next_sdu_index e = ring_index (am_current_sdu_index e) (length qs)"
    using ok by (simp_all add: am_tx_ok_def)
  have ql: "length qs \<le> 127" using gr by (simp add: am_grant_def)
  obtain cs fin qs' n pdu poll p e1 e2 where v: "rlc_am_segment_10 alloc now nb e = Some ((set_tx_pdu (vt_s e) p e2)\<lparr>am_segmentation_pdu_list :=
        am_segmentation_pdu_list e2 @ [pdu @ take (am_stale nb e qs) (block_rest alloc (length pdu + am_stale nb e qs) (length pdu))]\<rparr>)"
    and e2: "poll_rest e2 = poll_rest (e1\<lparr>vt_s := RLC_AM_NEXT_SN (vt_s e)\<rparr>)" and e1: "am_queue e1 qs'" "seg_rest e1 = seg_rest e"
      "am_sdu_buffer_occupancy e1 = am_sdu_buffer_occupancy e - int n" "am_nb_sdu_no_segmented e1 + int (length qs) = am_nb_sdu_no_segmented e + int (length qs')"
      "ring_index (am_current_sdu_index e1) (length qs') = ring_index (am_current_sdu_index e) (length qs)"
    and ps: "pieces n qs = (cs, fin, qs')" and n: "0 < n" "n \<le> sum_list (map sdu_remaining_size qs)" "length (concat cs) = n" and pdu: "pdu = am_pdu poll (vt_s e) (starts_sdu qs) fin cs"
    and p: "new_entry (vt_s e) pdu (take (am_stale nb e qs) (block_rest alloc (length pdu + am_stale nb e qs) (length pdu))) n p"
    and lp: "int (length pdu + am_stale nb e qs) = am_data_pdu_size nb e" and np: "n = am_payload nb e qs"
    using segment_value [OF assms, of now] by blast
  have st: "take (am_stale nb e qs) (block_rest alloc (length pdu + am_stale nb e qs) (length pdu)) = ?stale"
    unfolding stale_octets_def Let_def lp [symmetric] nat_int by simp
  define e4 where "e4 = (set_tx_pdu (vt_s e) p e2)\<lparr>am_segmentation_pdu_list := am_segmentation_pdu_list e2 @ [pdu @ ?stale]\<rparr>"
  have rest: "new_rest e4 = new_rest e" unfolding e4_def by (rule new_rest_split [OF e2 e1(2)])
  have same: "tx_data_pdu_buffer e1 = tx_data_pdu_buffer e" "am_segmentation_pdu_list e1 = am_segmentation_pdu_list e"
    using arg_cong [OF e1(2), of tx_data_pdu_buffer] arg_cong [OF e1(2), of am_segmentation_pdu_list] by (simp_all add: seg_rest_def)
  have p2: "am_input_sdus e4 = am_input_sdus e1" "am_current_sdu_index e4 = am_current_sdu_index e1" "am_sdu_buffer_occupancy e4 = am_sdu_buffer_occupancy e1"
      "am_nb_sdu_no_segmented e4 = am_nb_sdu_no_segmented e1" "vt_s e4 = RLC_AM_NEXT_SN (vt_s e)"
      "am_segmentation_pdu_list e4 = am_segmentation_pdu_list e @ [pdu @ ?stale]" "tx_data_pdu_buffer e4 = (tx_data_pdu_buffer e)[tx_index (vt_s e) := p]"
    using arg_cong [OF e2, of am_current_sdu_index] arg_cong [OF e2, of am_nb_sdu_no_segmented] arg_cong [OF e2, of am_segmentation_pdu_list]
      poll_rest_fields(2,3,7,8) [OF e2] same by (simp_all add: e4_def poll_rest_def)
  note pd = pieces_deliver [OF ps o(1) n(1,2)]
  have sm: "int (sum_list (map sdu_remaining_size qs')) = int (sum_list (map sdu_remaining_size qs)) - int n" using pd n(2) by simp
  have tx: "am_tx_ok e4 qs'"
    unfolding am_tx_ok_def am_queue_def p2(1-4)
    using e1 pd sm o(2-4) new_rest_fields(3) [OF rest] by (simp add: am_queue_def)
  have "length cs \<le> 127" using pieces_length [OF ps] ql by simp
  then have "am_sent e qs ?stale cs fin qs' pdu e4" unfolding am_sent_def using n ps tx p2(5-7) rest pdu p [unfolded st] by blast
  then show ?thesis using v [unfolded st, folded e4_def] lp ps np by blast
qed

section \<open>Reading a PDU back\<close>

lemma octet_less: "unat (b :: octet) < 2 ^ 8"
  using unsigned_less [of b] by simp

lemma uint_push_ucast:
  assumes "unat (w :: octet) < 2 ^ k" "n + k \<le> 16"
  shows "uint (push_bit n (ucast w) :: 16 word) = int (2 ^ n * unat w)"
proof -
  have "2 ^ n * unat w < 2 ^ n * 2 ^ k" using assms(1) by simp
  also have "\<dots> \<le> 2 ^ 16" unfolding power_add [symmetric] using assms(2) by (rule power_increasing) simp
  finally have l: "2 ^ n * unat w < 65536" by simp
  have "push_bit n (ucast w :: 16 word) = of_nat (2 ^ n * unat w)"
    by (simp add: push_bit_eq_mult mult.commute)
  then show ?thesis using l by (simp add: unsigned_of_nat take_bit_nat_eq_self uint_nat del: of_nat_mult)
qed

lemma mask_halves: "(0x07F0 :: 16 word) = push_bit 4 (mask 7)" "(0x000F :: 16 word) = mask 4" "(0x0700 :: 16 word) = push_bit 8 (mask 3)"
  by (simp_all add: mask_eq_exp_minus_1 push_bit_eq_mult)

lemma li_halves:
  "uint (push_bit 4 (ucast b) AND 0x07F0 :: 16 word) = int (16 * unat (b AND 0x7F))"
  "uint (ucast (drop_bit 4 b) AND 0x000F :: 16 word) = int (unat (drop_bit 4 (b AND 0xF0)))"
  "uint (push_bit 8 (ucast b) AND 0x0700 :: 16 word) = int (256 * unat (b AND 0x07))"
  "unat (b AND 0x7F) < 2 ^ 7" "unat (drop_bit 4 (b AND 0xF0)) < 2 ^ 4" "unat (b AND 0x07) < 2 ^ 3"
  for b :: octet
proof -
  have c: "(ucast b :: 16 word) AND mask k = ucast (b AND mask k)" for k
    by (rule bit_word_eqI) (auto simp: bit_simps dest: bit_imp_le_length)
  show b: "unat (b AND 0x7F) < 2 ^ 7" "unat (b AND 0x07) < 2 ^ 3"
    unfolding masks_8 by (simp_all add: take_bit_eq_mask [symmetric] unsigned_take_bit_eq take_bit_nat_less_exp [of 7, simplified] take_bit_nat_less_exp [of 3, simplified])
  have "unat (drop_bit 4 b) = unat b div 2 ^ 4" by (simp add: unat_drop_bit_eq drop_bit_eq_div [where 'a = nat])
  then show d: "unat (drop_bit 4 (b AND 0xF0)) < 2 ^ 4" unfolding drop_bit_high using octet_less [of b] by simp
  show "uint (push_bit 4 (ucast b) AND 0x07F0 :: 16 word) = int (16 * unat (b AND 0x7F))"
    unfolding mask_halves push_bit_and [symmetric] c using uint_push_ucast [OF b(1), of 4] unfolding masks_8 by simp
  show "uint (push_bit 8 (ucast b) AND 0x0700 :: 16 word) = int (256 * unat (b AND 0x07))"
    unfolding mask_halves push_bit_and [symmetric] c using uint_push_ucast [OF b(2), of 8] unfolding masks_8 by simp
  have "ucast (drop_bit 4 b) AND 0x000F = (ucast (drop_bit 4 b) :: 16 word)"
    unfolding mask_halves by (rule bit_word_eqI) (auto simp: bit_simps dest: bit_imp_le_length)
  then show "uint (ucast (drop_bit 4 b) AND 0x000F :: 16 word) = int (unat (drop_bit 4 (b AND 0xF0)))"
    unfolding drop_bit_high using uint_push_ucast [of "drop_bit 4 b" 4 0] d unfolding drop_bit_high by simp
qed

lemma uint_or_disjoint:
  assumes "x AND y = (0 :: 16 word)" "uint x + uint y < 65536"
  shows "uint (x OR y) = uint x + uint y"
proof -
  have "x OR y = x + y" using word_plus_and_or [of x y] assms(1) by simp
  then show ?thesis using assms(2) uint_add_lem [of x y] by simp
qed

lemma am_li_um:
  "am_li_first b1 b2 = int (li_of_b12 b1 b2)" "am_li_second b1 b2 = int (li_of_b23 b1 b2)"
proof -
  have d: "(push_bit 4 (ucast b1) AND 0x07F0) AND (ucast (drop_bit 4 b2) AND 0x000F) = (0 :: 16 word)"
    unfolding mask_halves by (rule bit_word_eqI) (auto simp: bit_simps)
  have "int (16 * unat (b1 AND 0x7F)) + int (unat (drop_bit 4 (b2 AND 0xF0))) < 65536"
    using li_halves(4) [of b1] li_halves(5) [of b2] by (simp del: of_nat_unat)
  then show "am_li_first b1 b2 = int (li_of_b12 b1 b2)"
    unfolding am_li_first_def li_of_b12_def using uint_or_disjoint [OF d] by (simp only: li_halves(1,2) of_nat_add)
  have d: "(push_bit 8 (ucast b1) AND 0x0700) AND ucast b2 = (0 :: 16 word)"
    unfolding mask_halves by (rule bit_word_eqI) (auto simp: bit_simps dest: bit_imp_le_length)
  have u: "uint (ucast b2 :: 16 word) = int (unat b2)" using uint_push_ucast [of b2 8 0] octet_less [of b2] by simp
  have "int (256 * unat (b1 AND 0x07)) + int (unat b2) < 65536"
    using li_halves(6) [of b1] octet_less [of b2] by (simp del: of_nat_unat)
  then show "am_li_second b1 b2 = int (li_of_b23 b1 b2)"
    unfolding am_li_second_def li_of_b23_def using uint_or_disjoint [OF d] by (simp only: li_halves(3) u of_nat_add)
qed

text \<open>The loops of RLC UM and of RLC AM over the length indicators read the same numbers.\<close>

lemma read_lis_agree:
  "case read_li_loop pdu pos lis sz of
     None \<Rightarrow> am_read_lis pdu pos (map int lis) = None
   | Some (ok, ls, sz') \<Rightarrow> length lis \<le> length ls \<and>
       am_read_lis pdu pos (map int lis) = Some (ok, map int ls, pos + ((length ls - length lis) * 3 + 1) div 2)"
proof (induction "length pdu - pos" arbitrary: pos lis sz rule: less_induct)
  case less
  let ?b1 = "pdu ! pos" and ?b2 = "pdu ! (pos + 1)" and ?b3 = "pdu ! (pos + 2)"
  let ?l1 = "li_of_b12 ?b1 ?b2" and ?l2 = "li_of_b23 ?b2 ?b3"
  consider "\<not> pos + 1 < length pdu \<or> \<not> length lis < 128" | "pos + 1 < length pdu" "length lis < 128" "?b1 AND 0x80 = 0"
    | "pos + 1 < length pdu" "length lis < 128" "?b1 AND 0x80 \<noteq> 0" "\<not> pos + 2 < length pdu \<or> \<not> length lis + 1 < 128"
    | "pos + 2 < length pdu" "length lis + 2 \<le> 128" "?b1 AND 0x80 \<noteq> 0" "?b2 AND 0x08 = 0"
    | "pos + 2 < length pdu" "length lis + 2 \<le> 128" "?b1 AND 0x80 \<noteq> 0" "?b2 AND 0x08 \<noteq> 0" by linarith
  then show ?case
  proof cases
    case 5
    let ?sz = "sz - int ?l1 - 2 - int ?l2 - 1"
    have um: "read_li_loop pdu pos lis sz = read_li_loop pdu (pos + 3) (lis @ [?l1, ?l2]) ?sz" using read_li_two [of pos pdu lis ?l1 ?l2 sz] 5 by simp
    have am: "am_read_lis pdu pos (map int lis) = am_read_lis pdu (pos + 3) (map int (lis @ [?l1, ?l2]))"
      using 5 by (subst am_read_lis.simps) (simp add: RLC_AM_MAX_SDU_IN_PDU_def am_li_um Let_def)
    have "case read_li_loop pdu (pos + 3) (lis @ [?l1, ?l2]) ?sz of
       None \<Rightarrow> am_read_lis pdu (pos + 3) (map int (lis @ [?l1, ?l2])) = None
     | Some (ok, ls, sz') \<Rightarrow> length (lis @ [?l1, ?l2]) \<le> length ls \<and> am_read_lis pdu (pos + 3) (map int (lis @ [?l1, ?l2])) =
         Some (ok, map int ls, pos + 3 + ((length ls - length (lis @ [?l1, ?l2])) * 3 + 1) div 2)"
      by (rule less.hyps) (use 5(1) in simp)
    moreover have "pos + 3 + ((n - (m + 2)) * 3 + 1) div 2 = pos + ((n - m) * 3 + 1) div 2" if "m + 2 \<le> n" for n m :: nat
      using that by presburger
    ultimately show ?thesis unfolding um am by (auto split: option.splits)
  qed (subst read_li_loop.simps, subst am_read_lis.simps, simp add: um_constants RLC_AM_MAX_SDU_IN_PDU_def am_li_um Let_def)+
qed

lemma header_bits:
  assumes "fi < 4" "0 \<le> sn" "sn < 1024" and b_def: "b = polled poll (amd_header fi ext sn ! 0)"
  shows "drop_bit 7 b \<noteq> 0" "\<not> bit b 6" "bit b 5 = poll" "unat (drop_bit 3 b AND 0x03) = fi" "bit b 2 = ext"
    "uint (amd_header fi ext sn ! 1) + 256 * uint (b AND 0x03) = sn"
proof -
  have "sn div 256 \<in> {0, 1, 2, 3}" using assms(2,3) by auto
  moreover have "fi \<in> {0, 1, 2, 3}" using assms(1) by auto
  ultimately have "drop_bit 7 b \<noteq> 0 \<and> \<not> bit b 6 \<and> bit b 5 = poll \<and> unat (drop_bit 3 b AND 0x03) = fi \<and> bit b 2 = ext \<and> uint (b AND 0x03) = sn div 256"
    by (cases poll; cases ext) (auto simp: b_def polled_def amd_header_def)
  moreover have "uint (amd_header fi ext sn ! 1) = sn mod 256"
  proof -
    have "x AND 0xFF = x" for x :: octet unfolding masks_8 by (rule bit_word_eqI) (auto simp: bit_simps)
    then show ?thesis by (simp add: amd_header_def unsigned_of_int take_bit_eq_mod)
  qed
  ultimately show "drop_bit 7 b \<noteq> 0" "\<not> bit b 6" "bit b 5 = poll" "unat (drop_bit 3 b AND 0x03) = fi" "bit b 2 = ext"
    "uint (amd_header fi ext sn ! 1) + 256 * uint (b AND 0x03) = sn"
    by simp_all
qed

lemma foldl_s16:
  assumes "int (sum_list ls) + k < 32768" "0 \<le> k"
  shows "foldl (\<lambda>s li. s16 (s + li)) k (map int ls) = k + int (sum_list ls)"
  using assms
proof (induction ls arbitrary: k)
  case (Cons l ls)
  have "s16 (k + int l) = k + int l" using Cons.prems by (intro s16_id) simp_all
  then show ?case using Cons.IH [of "k + int l"] Cons.prems by simp
qed simp

text \<open>The octets of a PDU whose last piece is followed by other octets are those of the PDU with the longer piece.\<close>

definition extended :: "octet list list \<Rightarrow> octet list \<Rightarrow> octet list list" where
  "extended cs stale = butlast cs @ [last cs @ stale]"

lemma am_pdu_extended: "cs \<noteq> [] \<Longrightarrow> am_pdu poll sn first fin cs @ stale = am_pdu poll sn first fin (extended cs stale)"
  by (cases cs rule: rev_cases) (auto simp: am_pdu_def extended_def Let_def)

lemma am_pdu_infos:
  assumes cs: "cs \<noteq> []" "\<forall>c \<in> set cs. c \<noteq> []" "\<forall>c \<in> set (butlast cs). length c < 2048" "length cs \<le> 127"
    and sn: "0 \<le> sn" "sn < 1024" and len: "length (am_pdu poll sn (acc = []) fin cs) < 9000"
  shows "\<exists>c. rlc_am_get_data_pdu_infos (am_pdu poll sn (acc = []) fin cs) = Some (0, c) \<and> \<not> rx_rf c \<and> rx_sn c = sn \<and> rx_p c = poll \<and> carries acc cs fin c"
proof -
  define fi :: nat where "fi = (if acc = [] then 0 else 2) + (if fin then 0 else 1)"
  define h where "h = amd_header fi (length cs > 1) sn"
  define b where "b = polled poll (h ! 0)"
  let ?ls = "map length (butlast cs)"
  define P where "P = am_pdu poll sn (acc = []) fin cs"
  have fi: "fi < 4" by (simp add: fi_def)
  note hb = header_bits [OF fi sn, of b poll "length cs > 1", folded h_def, OF b_def]
  have pdu: "P = [b, h ! 1] @ li_octets ?ls @ concat cs" by (simp add: P_def am_pdu_def h_def b_def fi_def Let_def)
  have n: "length cs > 1 \<longleftrightarrow> ?ls \<noteq> []" using cs(1) by (cases cs; cases "tl cs") auto
  have cc: "concat cs = concat (butlast cs) @ last cs" using cs(1) by (metis append_butlast_last_id concat_append concat.simps append_Nil2)
  have sl: "length (concat cs) = sum_list ?ls + length (last cs)" unfolding cc by (simp add: length_concat)
  have lc: "length (concat cs) < 9000" using len unfolding P_def [symmetric] by (simp add: pdu)
  have last: "last cs \<noteq> []" using cs(1,2) by simp
  define k where "k = 2 + length (li_octets ?ls)"
  have lis: "(if length cs > 1 then am_read_lis P 2 [] else Some (True, [], 2)) = Some (True, map int ?ls, k)"
  proof (cases "length cs > 1")
    case True
    then have "read_li_loop ([b, h ! 1] @ li_octets ?ls @ concat cs) 2 [] 0 = Some (True, [] @ ?ls, 0 - int (sum_list ?ls) - int ((length ?ls * 3 + 1) div 2))"
      by (intro read_li_octets) (use n cs(3,4) in auto)
    then show ?thesis using True read_lis_agree [of P 2 "[]" 0] by (simp add: pdu k_def length_li_octets)
  next
    case False
    then have "?ls = []" using n by blast
    then show ?thesis using False by (simp add: k_def)
  qed
  have drop: "drop k P = concat cs" "length P = k + length (concat cs)" by (simp_all add: pdu k_def)
  have sz: "s16 (int (length P) - int k) = int (length (concat cs))" using drop(2) lc by (subst s16_id) simp_all
  have sm: "foldl (\<lambda>s li. s16 (s + li)) 0 (map int ?ls) = int (sum_list ?ls)" using foldl_s16 [of ?ls 0] sl lc by simp
  have hid: "s16 (int (length (last cs))) = int (length (last cs))" using sl lc by (intro s16_id) simp_all
  have idx: "P ! 0 = b" "P ! 1 = h ! 1" "\<not> length P < 2" by (simp_all add: pdu)
  have p0: "0 < length (last cs)" using last by simp
  have "\<exists>c. rlc_am_get_data_pdu_infos P = Some (0, c) \<and> \<not> rx_rf c \<and> rx_sn c = sn \<and> rx_p c = poll \<and> rx_payload c = concat cs \<and>
      rx_payload_size c = int (length (concat cs)) \<and> rx_e c = (1 < length cs) \<and> rx_li_list c = map int ?ls \<and>
      rx_hidden_size c = int (length (last cs)) \<and> rx_fi c = fi"
    unfolding rlc_am_get_data_pdu_infos_def Let_def
    by (simp only: idx hb if_False simp_thms rlc_am_rx_pdu.simps lis) (simp add: sz drop(1) sm hid sl p0 last del: map_map)
  then show ?thesis using cs(1,2) by (auto simp: carries_def P_def fi_def)
qed

section \<open>What the receiver makes of a new PDU\<close>

lemma absorb_deliver: "absorb acc cs fin = (snd (deliver acc cs fin), fst (deliver acc cs fin))"
  by (induction acc cs fin rule: absorb.induct) (auto simp: split_beta Let_def)

lemma sent_infos:
  assumes "am_sent e qs stale cs fin qs' pdu e'" "queue_ok 2047 qs" "0 \<le> vt_s e" "vt_s e < 1024" "length (pdu @ stale) < 9000"
  shows "\<exists>c. rlc_am_get_data_pdu_infos (pdu @ stale) = Some (0, c) \<and> \<not> rx_rf c \<and> rx_sn c = vt_s e \<and> carries (sent_part qs) (extended cs stale) fin c"
proof -
  obtain n poll where n: "0 < n" "n \<le> sum_list (map sdu_remaining_size qs)" "pieces n qs = (cs, fin, qs')" "length cs \<le> 127"
      and pdu: "pdu = am_pdu poll (vt_s e) (sent_part qs = []) fin cs"
    using assms(1) unfolding am_sent_def starts_sdu_def by blast
  have p: "cs \<noteq> []" "\<forall>c \<in> set cs. c \<noteq> [] \<and> length c < 2048"
    using pieces_deliver [OF n(3) assms(2) n(1,2)] by (auto simp: pieces_ok_def)
  have x: "extended cs stale \<noteq> []" "\<forall>c \<in> set (extended cs stale). c \<noteq> []" "\<forall>c \<in> set (butlast (extended cs stale)). length c < 2048"
      "length (extended cs stale) \<le> 127"
    using p n(4) by (auto simp: extended_def dest: in_set_butlastD)
  have "pdu @ stale = am_pdu poll (vt_s e) (sent_part qs = []) fin (extended cs stale)" unfolding pdu by (rule am_pdu_extended [OF p(1)])
  then show ?thesis using am_pdu_infos [OF x assms(3,4), of poll "sent_part qs" fin] assms(5) by auto
qed

lemma pieces_whole:
  assumes "n = sum_list (map sdu_remaining_size (take (Suc j) qs))" "j < length qs" "\<forall>s \<in> set qs. 0 < sdu_remaining_size s"
  shows "pieces n qs = (map rest_of (take (Suc j) qs), True, drop (Suc j) qs)"
  using assms
proof (induction qs arbitrary: n j)
  case (Cons s qs)
  show ?case
  proof (cases j)
    case (Suc i)
    define m where "m = sum_list (map sdu_remaining_size (take (Suc i) qs))"
    have i: "i < length qs" "n = sdu_remaining_size s + m" using Cons.prems(1,2) Suc by (simp_all add: m_def)
    have "0 < m" using i(1) Cons.prems(3) by (cases qs) (auto simp: m_def)
    then show ?thesis using Cons.IH [OF m_def i(1)] Cons.prems(3) i(2) Suc by (simp add: Let_def)
  qed (use Cons.prems in simp)
qed simp

text \<open>The room is reduced only when it ends one or two octets behind an SDU.\<close>

lemma stale_ends:
  assumes "ss \<noteq> []" "\<forall>s \<in> set ss. 0 < sdu_remaining_size s" "li = 1 \<or> li = 2" "test_li_length_in_bytes t = li" "test_pdu_remaining_size t = r"
    and "r \<le> int (needed li ss)" "test_reduce t = 0" "test_reduce (test_fill ss t) \<noteq> 0"
  shows "\<exists>k j. test_num_li (test_fill ss t) = test_num_li t + k \<and> j < length ss \<and>
    nat (r - int (test_reduce (test_fill ss t))) = li_bytes li k + sum_list (map sdu_remaining_size (take (Suc j) ss))"
  using assms
proof (induction ss arbitrary: li r t)
  case (Cons s ss)
  note p = Cons.prems
  let ?a = "sdu_remaining_size s" and ?l = "3 - li"
  have l: "test_li_length_in_bytes t XOR 3 = ?l" "?l = 1 \<or> ?l = 2" using p(3,4) xor_3 by auto
  have a: "0 < ?a" using p(2) by simp
  consider "int ?a \<ge> r" | "int ?a + int ?l = r" | "int ?a + int ?l < r" | "int ?a < r" "r < int ?a + int ?l" by linarith
  then show ?case
  proof cases
    case 1
    then have "test_fill (s # ss) t = test_stop 0 t" using l p(5) by (auto simp: Let_def)
    then show ?thesis using p(8) by (simp add: test_stop_def)
  next
    case 2
    then have "test_fill (s # ss) t = test_stop ?l t" using l p(5) by (auto simp: Let_def)
    moreover have "r - int ?l = int ?a" using 2 by simp
    ultimately show ?thesis by (intro exI [of _ 0]) (simp add: test_stop_def)
  next
    case 4
    then have "?l = 2" "r = int ?a + 1" using l(2) by auto
    then have "test_fill (s # ss) t = test_stop 1 t" "r - 1 = int ?a" using l p(5) by (auto simp: Let_def)
    then show ?thesis by (intro exI [of _ 0]) (simp add: test_stop_def)
  next
    case 3
    define t1 where "t1 = t\<lparr>test_num_li := test_num_li t + 1, test_pdu_remaining_size := r - (int ?a + int ?l),
        test_remaining_size_to_substract := ?l, test_remaining_num_li_to_substract := 1, test_li_length_in_bytes := ?l\<rparr>"
    have step: "test_fill (s # ss) t = test_fill ss t1" using 3 l(1) p(5) by (simp add: Let_def t1_def)
    let ?d = "int (test_reduce (test_fill ss t1))"
    have ne: "ss \<noteq> []" using 3 p(6) by auto
    then have nd: "needed li (s # ss) = ?a + ?l + needed ?l ss" by (cases ss) simp_all
    have "\<exists>k j. test_num_li (test_fill ss t1) = test_num_li t1 + k \<and> j < length ss \<and>
        nat (r - (int ?a + int ?l) - ?d) = li_bytes ?l k + sum_list (map sdu_remaining_size (take (Suc j) ss))"
      by (rule Cons.IH) (use ne p(2,6,7,8) l(2) nd step in \<open>auto simp: t1_def\<close>)
    then obtain k j where k: "test_num_li (test_fill ss t1) = test_num_li t1 + k" "j < length ss"
        "nat (r - (int ?a + int ?l) - ?d) = li_bytes ?l k + sum_list (map sdu_remaining_size (take (Suc j) ss))" by blast
    have "0 < sum_list (map sdu_remaining_size (take (Suc j) ss))" using k(2) p(2) by (cases ss) auto
    then have "nat (r - ?d) = ?a + ?l + (li_bytes ?l k + sum_list (map sdu_remaining_size (take (Suc j) ss)))" using k(3) by linarith
    then show ?thesis unfolding step using k(1,2) by (intro exI [of _ "Suc k"] exI [of _ "Suc j"]) (simp add: t1_def)
  qed
qed simp

section \<open>Submitting SDUs\<close>

definition fresh_sdu :: "octet list \<Rightarrow> tx_sdu" where
  "fresh_sdu d = \<lparr>sdu_data = d, sdu_creation_time = 0, sdu_remaining_size = length d, sdu_segmented_size = 0, sdu_size = length d\<rparr>"

lemma am_tx_start: "am_tx_ok rlc_am_init_tx []"
proof -
  have "replicate 1024 am_no_sdu ! (k mod 1024) = am_no_sdu" for k by simp
  then show ?thesis
    by (simp add: am_tx_ok_def am_queue_def waiting_def others_empty_def queue_ok_def rlc_am_init_tx_def RLC_AM_SDU_CONTROL_BUFFER_SIZE_def)
      (simp add: am_no_sdu_def)
qed

text \<open>What a submission does not touch.\<close>

definition submit_rest :: "rlc_am_tx_entity \<Rightarrow> rlc_am_tx_entity" where
  "submit_rest e = e\<lparr>am_input_sdus := [], am_sdu_buffer_occupancy := 0, am_nb_sdu := 0, am_nb_sdu_no_segmented := 0, am_next_sdu_index := 0\<rparr>"

lemma submit_sdu:
  assumes ok: "am_tx_ok e qs" and sdu: "sdu \<noteq> []" "length sdu \<le> 2047" and room: "length qs < 1023"
  shows "am_tx_ok (rlc_am_data_req mui sdu e) (qs @ [fresh_sdu sdu])" "submit_rest (rlc_am_data_req mui sdu e) = submit_rest e"
proof -
  let ?i = "am_current_sdu_index e" and ?ss = "am_input_sdus e" and ?n = "length qs"
  define j where "j = ring_index ?i ?n"
  define s where "s = am_no_sdu\<lparr>am_sdu_block := Some sdu, am_sdu_mui := mui, am_sdu_size := int (length sdu), am_sdu_remaining_size := int (length sdu)\<rparr>"
  have o: "am_queue e qs" "queue_ok 2047 qs" "am_sdu_buffer_occupancy e = int (sum_list (map sdu_remaining_size qs))" "am_nb_sdu_no_segmented e = int ?n"
      "am_next_sdu_index e = j"
    using ok by (simp_all add: am_tx_ok_def j_def)
  have w: "waiting ?i ?ss qs" "others_empty ?i ?n ?ss" "\<forall>s \<in> set ?ss. am_sdu_remaining_size s = 0 \<longrightarrow> am_sdu_block s = None" using o(1) by (simp_all add: am_queue_def)
  have ix: "?i < 1024" "length ?ss = 1024" "\<forall>k < ?n. views (?ss ! ring_index ?i k) (qs ! k)" "am_sdu_block (?ss ! j) = None" using w(1) by (simp_all add: waiting_def j_def)
  have nx: "(j + 1) mod 1024 = ring_index ?i (Suc ?n)" by (simp add: j_def mod_simps)
  have "ring_index ?i (Suc ?n) \<noteq> ?i" using ring_index_eq [of 0 "Suc ?n" ?i] ix(1) room by simp
  then have v: "rlc_am_data_req mui sdu e = e\<lparr>am_input_sdus := ?ss[j := s], am_sdu_buffer_occupancy := am_sdu_buffer_occupancy e + int (length sdu),
      am_nb_sdu := am_nb_sdu e + 1, am_nb_sdu_no_segmented := am_nb_sdu_no_segmented e + 1, am_next_sdu_index := ring_index ?i (Suc ?n)\<rparr>"
    using ix(4) unfolding rlc_am_data_req_def Let_def o(5) RLC_AM_SDU_CONTROL_BUFFER_SIZE_def nx s_def by simp
  then show "submit_rest (rlc_am_data_req mui sdu e) = submit_rest e" by (simp add: submit_rest_def)
  have ne: "?ss[j := s] ! ring_index ?i k = ?ss ! ring_index ?i k" if "k < 1024" "k \<noteq> ?n" for k
    using ring_index_eq [of k ?n ?i] that room by (simp add: j_def)
  have sv: "views s (fresh_sdu sdu)" by (simp add: s_def am_no_sdu_def views_def um_view_def fresh_sdu_def)
  have at: "?ss[j := s] ! j = s" using ix(2) by (simp add: j_def)
  have "views (?ss[j := s] ! ring_index ?i k) ((qs @ [fresh_sdu sdu]) ! k)" if "k < Suc ?n" for k
    using ix(3) ne [of k] that room sv at by (cases "k = ?n") (simp_all add: nth_append j_def)
  moreover have oe: "others_empty ?i (Suc ?n) (?ss[j := s])"
  proof -
    have "am_sdu_block (?ss[j := s] ! ring_index ?i k) = None" if k: "Suc ?n \<le> k" "k < 1024" for k
      unfolding ne [OF k(2) Suc_le_lessD [OF k(1), THEN less_imp_neq, THEN not_sym]] using w(2) k unfolding others_empty_def by (meson Suc_leD)
    then show ?thesis unfolding others_empty_def by blast
  qed
  moreover have "am_sdu_block (?ss[j := s] ! ring_index ?i (Suc ?n)) = None"
    by (rule oe [unfolded others_empty_def, rule_format]) (use room in simp)
  ultimately have "waiting ?i (?ss[j := s]) (qs @ [fresh_sdu sdu])" using ix(1,2) room by (simp add: waiting_def)
  moreover have "\<forall>x \<in> set (?ss[j := s]). am_sdu_remaining_size x = 0 \<longrightarrow> am_sdu_block x = None"
    using w(3) sdu(1) set_update_subset_insert [of ?ss j s] by (auto simp: s_def)
  moreover have "queue_ok 2047 (qs @ [fresh_sdu sdu])"
    using o(2) sdu by (cases qs) (auto simp: queue_ok_def sdu_wf_def fresh_sdu_def)
  ultimately show "am_tx_ok (rlc_am_data_req mui sdu e) (qs @ [fresh_sdu sdu])"
    using oe o(3,4) unfolding am_tx_ok_def am_queue_def v by (simp add: fresh_sdu_def)
qed

section \<open>What a grant gives\<close>

lemma absorb_extended: "cs \<noteq> [] \<Longrightarrow> absorb acc (extended cs stale) True = (fst (absorb acc cs True), extended (snd (absorb acc cs True)) stale)"
proof (induction acc cs True rule: absorb.induct)
  case (3 acc p q ps)
  then obtain r rs where r: "snd (absorb [] (q # ps) True) = r # rs" by (cases ps) (auto simp: split_beta Let_def)
  have "extended (p # q # ps) stale = p # extended (q # ps) stale" "extended ((acc @ p) # r # rs) stale = (acc @ p) # extended (r # rs) stale"
    by (simp_all add: extended_def)
  moreover obtain y ys where "extended (q # ps) stale = y # ys" by (cases "extended (q # ps) stale") (auto simp: extended_def)
  ultimately show ?case using 3 r by (simp add: split_beta Let_def)
qed (simp_all add: extended_def)

lemma grant_sent:
  assumes "am_tx_ok e qs" "qs \<noteq> []" "am_grant nb e qs" "blocks_ok alloc" "length (tx_data_pdu_buffer e) = 512" "0 \<le> vt_s e" "vt_s e < 1024"
  shows "\<exists>cs fin qs' pdu e' c. rlc_am_segment_10 alloc now nb e = Some e' \<and> am_tx_ok e' qs' \<and> vt_s e' = RLC_AM_NEXT_SN (vt_s e) \<and>
    am_segmentation_pdu_list e' = am_segmentation_pdu_list e @ [pdu] \<and> int (length pdu) \<le> nb \<and>
    rlc_am_get_data_pdu_infos pdu = Some (0, c) \<and> \<not> rx_rf c \<and> rx_sn c = vt_s e \<and>
    carries (sent_part qs) (extended cs (stale_octets alloc nb e qs)) fin c \<and> length (stale_octets alloc nb e qs) = am_stale nb e qs \<and>
    pieces (am_payload nb e qs) qs = (cs, fin, qs') \<and> cs \<noteq> [] \<and> fst (absorb (sent_part qs) cs fin) = sent_part qs' \<and>
    snd (absorb (sent_part qs) cs fin) @ map sdu_data qs' = map sdu_data qs"
proof -
  let ?stale = "stale_octets alloc nb e qs"
  obtain cs fin qs' pdu e' where s: "rlc_am_segment_10 alloc now nb e = Some e'" "am_sent e qs ?stale cs fin qs' pdu e'"
      "int (length pdu + am_stale nb e qs) = am_data_pdu_size nb e" "pieces (am_payload nb e qs) qs = (cs, fin, qs')"
    using segment_new [OF assms(1-5), of now] by blast
  have q: "queue_ok 2047 qs" using assms(1) by (simp add: am_tx_ok_def)
  obtain n p where n: "0 < n" "n \<le> sum_list (map sdu_remaining_size qs)" "pieces n qs = (cs, fin, qs')"
      and e': "am_tx_ok e' qs'" "vt_s e' = RLC_AM_NEXT_SN (vt_s e)" "am_segmentation_pdu_list e' = am_segmentation_pdu_list e @ [pdu @ ?stale]"
    using s(2) unfolding am_sent_def by blast
  obtain size where size: "am_data_pdu_size nb e = int size" "int size \<le> nb" "size < 9000" by (rule am_size_bounds [OF assms(1-3)])
  obtain block where block: "alloc size = Some block" "size \<le> length block" using assms(4) unfolding blocks_ok_def by force
  have st: "length ?stale = am_stale nb e qs" using block s(3) size(1) by (auto simp: stale_octets_def block_rest_def Let_def)
  then have l: "int (length (pdu @ ?stale)) \<le> nb" "length (pdu @ ?stale) < 9000" using s(3) size by simp_all
  have d: "cs \<noteq> []" "fst (absorb (sent_part qs) cs fin) = sent_part qs'" "snd (absorb (sent_part qs) cs fin) @ map sdu_data qs' = map sdu_data qs"
    using pieces_deliver [OF n(3) q n(1,2)] by (auto simp: pieces_ok_def absorb_deliver)
  show ?thesis using s(1,4) e' sent_infos [OF s(2) q assms(6,7) l(2)] st l(1) d by blast
qed

text \<open>
  C5. New PDUs. A call of \<open>rlc_am_segment_10\<close> whose grant does not end one or two octets behind an SDU gives the MAC one PDU, no
  longer than the grant, with number VT(S). The grant has 3 to 8999 octets and finds at most 127 SDUs queued, and an SDU that it may cut has
  been cut less than 31 times, the size of its list of PDUs. The receiver reads back the number and the pieces. With what it holds of the first SDU, the pieces are the
  SDUs of the queue in order, and the rest stays in the queue.
\<close>

theorem am_new_pdu:
  assumes "am_tx_ok e qs" "qs \<noteq> []" "am_grant nb e qs" "am_stale nb e qs = 0" "blocks_ok alloc" "length (tx_data_pdu_buffer e) = 512"
    and "0 \<le> vt_s e" "vt_s e < 1024"
  shows "\<exists>pdu cs fin qs' e' c. rlc_am_segment_10 alloc now nb e = Some e' \<and> am_tx_ok e' qs' \<and> vt_s e' = RLC_AM_NEXT_SN (vt_s e) \<and>
    am_segmentation_pdu_list e' = am_segmentation_pdu_list e @ [pdu] \<and> int (length pdu) \<le> nb \<and>
    rlc_am_get_data_pdu_infos pdu = Some (0, c) \<and> \<not> rx_rf c \<and> rx_sn c = vt_s e \<and> carries (sent_part qs) cs fin c \<and>
    fst (absorb (sent_part qs) cs fin) = sent_part qs' \<and> snd (absorb (sent_part qs) cs fin) @ map sdu_data qs' = map sdu_data qs"
proof -
  have "extended cs [] = cs" if "cs \<noteq> []" for cs using that by (simp add: extended_def)
  moreover have "stale_octets alloc nb e qs = []" using assms(4) by (simp add: stale_octets_def Let_def)
  ultimately show ?thesis using grant_sent [OF assms(1-3,5-8), of now] by metis
qed

text \<open>
  C40. New PDUs with octets of no SDU. \<open>rlc_am_segment_10\<close> takes the octets that are left for a grant that ends one or two octets behind an SDU
  off \<open>pdu_remaining_size\<close>, but not off the size of the PDU. The PDU ends in that number of octets of the memory block, which were
  not written. The receiver hands up the last SDU of the PDU with these octets behind it.
\<close>

theorem am_new_pdu_stale:
  assumes "am_tx_ok e qs" "qs \<noteq> []" "am_grant nb e qs" "am_stale nb e qs \<noteq> 0" "blocks_ok alloc" "length (tx_data_pdu_buffer e) = 512"
    and "0 \<le> vt_s e" "vt_s e < 1024"
  shows "\<exists>pdu cs e' c j. rlc_am_segment_10 alloc now nb e = Some e' \<and> am_segmentation_pdu_list e' = am_segmentation_pdu_list e @ [pdu] \<and>
    rlc_am_get_data_pdu_infos pdu = Some (0, c) \<and> \<not> rx_rf c \<and> rx_sn c = vt_s e \<and> carries (sent_part qs) cs True c \<and> j < length qs \<and>
    absorb (sent_part qs) cs True = ([], map sdu_data (take j qs) @ [sdu_data (qs ! j) @ stale_octets alloc nb e qs]) \<and>
    length (stale_octets alloc nb e qs) = am_stale nb e qs"
proof -
  let ?stale = "stale_octets alloc nb e qs" and ?r = "am_data_pdu_size nb e - 2"
  obtain cs fin qs' pdu e' c where g: "rlc_am_segment_10 alloc now nb e = Some e'" "am_segmentation_pdu_list e' = am_segmentation_pdu_list e @ [pdu]"
      "rlc_am_get_data_pdu_infos pdu = Some (0, c)" "\<not> rx_rf c" "rx_sn c = vt_s e" "carries (sent_part qs) (extended cs ?stale) fin c"
      "length ?stale = am_stale nb e qs" "pieces (am_payload nb e qs) qs = (cs, fin, qs')" "cs \<noteq> []" "fst (absorb (sent_part qs) cs fin) = sent_part qs'"
      "snd (absorb (sent_part qs) cs fin) @ map sdu_data qs' = map sdu_data qs"
    using grant_sent [OF assms(1-3,5-8), of now] by blast
  have q: "queue_ok 2047 qs" "\<forall>s \<in> set qs. 0 < sdu_remaining_size s" using assms(1) by (auto simp: am_tx_ok_def queue_ok_def sdu_wf_def)
  obtain size where size: "am_data_pdu_size nb e = int size" "int size - 2 \<le> int (needed 1 qs)" by (rule am_size_bounds [OF assms(1-3)])
  have "\<exists>k j. test_num_li (test_fill qs (test_start ?r)) = test_num_li (test_start ?r) + k \<and> j < length qs \<and>
      nat (?r - int (test_reduce (test_fill qs (test_start ?r)))) = li_bytes 1 k + sum_list (map sdu_remaining_size (take (Suc j) qs))"
    by (rule stale_ends [OF assms(2) q(2)]) (use size assms(4) in \<open>simp_all add: test_start_def am_stale_def\<close>)
  then obtain j where j: "j < length qs" "am_payload nb e qs = sum_list (map sdu_remaining_size (take (Suc j) qs))"
    by (auto simp: am_payload_def am_stale_def am_lis_def test_start_def)
  then have f: "fin" "qs' = drop (Suc j) qs" using g(8) pieces_whole [OF j(2,1) q(2)] by simp_all
  have tl: "sent_part qs' = []"
  proof (cases qs')
    case (Cons x xs)
    then have "x \<in> set (drop j (tl qs))" using f(2) by (metis drop_Suc list.set_intros(1))
    then have "x \<in> set (tl qs)" by (rule in_set_dropD)
    then show ?thesis using q(1) Cons by (simp add: sent_part_def queue_ok_def)
  qed (simp add: sent_part_def)
  have "snd (absorb (sent_part qs) cs True) = map sdu_data (take j qs) @ [sdu_data (qs ! j)]"
  proof -
    have "map sdu_data qs = (map sdu_data (take j qs) @ [sdu_data (qs ! j)]) @ map sdu_data qs'"
      unfolding f(2) using id_take_nth_drop [OF j(1)] by (metis append.assoc append_Cons append_Nil map_append list.simps(9))
    then show ?thesis using g(11) f(1) by simp
  qed
  then have "absorb (sent_part qs) (extended cs ?stale) True = ([], map sdu_data (take j qs) @ [sdu_data (qs ! j) @ ?stale])"
    using absorb_extended [OF g(9), of "sent_part qs" ?stale] g(10) f(1) tl by (simp add: extended_def)
  moreover have "fin = True" using f(1) by simp
  ultimately show ?thesis using g(1-5) g(6) [unfolded \<open>fin = True\<close>] g(7) j(1) by blast
qed

text \<open>Two SDUs of ten octets wait. A grant of twelve octets ends with the first one, a grant of thirteen octets one octet behind it.\<close>

definition example_sdu :: "octet \<Rightarrow> octet list" where
  "example_sdu b = replicate 10 b"

definition example_queue :: "tx_sdu list" where
  "example_queue = [fresh_sdu (example_sdu 1), fresh_sdu (example_sdu 2)]"

definition example_waiting :: rlc_am_tx_entity where
  "example_waiting = rlc_am_data_req 8 (example_sdu 2) (rlc_am_data_req 7 (example_sdu 1) rlc_am_init_tx)"

definition dirty_block :: "nat \<Rightarrow> octet list option" where
  "dirty_block n = Some (replicate (max 4 n) 0xEE)"

lemma example_waiting_ok: "am_tx_ok example_waiting example_queue" "submit_rest example_waiting = submit_rest rlc_am_init_tx"
proof -
  have l: "example_sdu b \<noteq> []" "length (example_sdu b) \<le> 2047" for b by (simp_all add: example_sdu_def)
  note a = submit_sdu [OF am_tx_start l [of 1], of 7, simplified]
  show "am_tx_ok example_waiting example_queue" using submit_sdu(1) [OF a(1) l [of 2], of 8] by (simp add: example_waiting_def example_queue_def)
  show "submit_rest example_waiting = submit_rest rlc_am_init_tx" using submit_sdu(2) [OF a(1) l [of 2], of 8] a(2) by (simp add: example_waiting_def)
qed

lemma example_grant:
  "example_queue \<noteq> []" "2 < nb \<Longrightarrow> nb < 9000 \<Longrightarrow> am_grant nb example_waiting example_queue" "blocks_ok dirty_block"
  "length (tx_data_pdu_buffer example_waiting) = 512" "vt_s example_waiting = 0"
  "am_data_pdu_size 12 example_waiting = 12" "am_data_pdu_size 13 example_waiting = 13"
proof -
  show "example_queue \<noteq> []" by (simp add: example_queue_def)
  have "am_current_sdu_index example_waiting = 0" "length (tx_data_pdu_buffer example_waiting) = 512" "vt_s example_waiting = 0"
    using arg_cong [OF example_waiting_ok(2), of am_current_sdu_index] arg_cong [OF example_waiting_ok(2), of tx_data_pdu_buffer]
      arg_cong [OF example_waiting_ok(2), of vt_s] by (simp_all add: submit_rest_def rlc_am_init_tx_def RLC_AM_WINDOW_SIZE_def)
  then show "length (tx_data_pdu_buffer example_waiting) = 512" "vt_s example_waiting = 0" by simp_all
  have "am_sdu_pdus_index (am_input_sdus example_waiting ! k) = []" if "k < 2" for k
  proof -
    have "k = 0 \<or> k = 1" using that by auto
    then show ?thesis
      by (auto simp: example_waiting_def rlc_am_data_req_def rlc_am_init_tx_def Let_def RLC_AM_SDU_CONTROL_BUFFER_SIZE_def am_no_sdu_def)
  qed
  then show "2 < nb \<Longrightarrow> nb < 9000 \<Longrightarrow> am_grant nb example_waiting example_queue"
    using \<open>am_current_sdu_index example_waiting = 0\<close> by (simp add: am_grant_def example_queue_def fragments_ok_def)
  show "blocks_ok dirty_block" by (simp add: blocks_ok_def dirty_block_def)
  have "int (needed 1 example_queue) + 2 = 24" by (simp add: example_queue_def fresh_sdu_def example_sdu_def)
  then show "am_data_pdu_size 12 example_waiting = 12" "am_data_pdu_size 13 example_waiting = 13"
    using am_size [OF example_waiting_ok(1) \<open>example_queue \<noteq> []\<close>] by simp_all
qed

lemma example_stale: "am_stale 12 example_waiting example_queue = 0" "am_stale 13 example_waiting example_queue = 1"
  unfolding am_stale_def example_grant(6,7)
  by (simp_all add: example_queue_def fresh_sdu_def example_sdu_def test_start_def test_stop_def Let_def)

theorem am_new_pdu_witness:
  "\<exists>pdu cs fin qs' e' c. rlc_am_segment_10 dirty_block 0 12 example_waiting = Some e' \<and> am_tx_ok e' qs' \<and> vt_s e' = RLC_AM_NEXT_SN (vt_s example_waiting) \<and>
    am_segmentation_pdu_list e' = am_segmentation_pdu_list example_waiting @ [pdu] \<and> int (length pdu) \<le> 12 \<and>
    rlc_am_get_data_pdu_infos pdu = Some (0, c) \<and> \<not> rx_rf c \<and> rx_sn c = vt_s example_waiting \<and> carries (sent_part example_queue) cs fin c \<and>
    fst (absorb (sent_part example_queue) cs fin) = sent_part qs' \<and> snd (absorb (sent_part example_queue) cs fin) @ map sdu_data qs' = map sdu_data example_queue"
  by (rule am_new_pdu [OF example_waiting_ok(1) example_grant(1) example_grant(2) example_stale(1) example_grant(3,4)]) (simp_all add: example_grant(5))

lemma example_stale_octets: "stale_octets dirty_block 13 example_waiting example_queue = [0xEE]"
  by (simp add: stale_octets_def example_stale(2) example_grant(7) block_rest_def dirty_block_def Let_def)

theorem am_new_pdu_stale_witness:
  "\<exists>pdu cs e' c j. rlc_am_segment_10 dirty_block 0 13 example_waiting = Some e' \<and> am_segmentation_pdu_list e' = am_segmentation_pdu_list example_waiting @ [pdu] \<and>
    rlc_am_get_data_pdu_infos pdu = Some (0, c) \<and> \<not> rx_rf c \<and> rx_sn c = vt_s example_waiting \<and> carries (sent_part example_queue) cs True c \<and>
    j < length example_queue \<and> absorb (sent_part example_queue) cs True =
      ([], map sdu_data (take j example_queue) @ [sdu_data (example_queue ! j) @ [0xEE]]) \<and> length [0xEE :: octet] = am_stale 13 example_waiting example_queue"
  by (rule am_new_pdu_stale [where nb = 13, OF example_waiting_ok(1) example_grant(1) example_grant(2) _ example_grant(3,4), unfolded example_stale_octets])
    (simp_all add: example_grant(5) example_stale(2))

end
