(* ===== verification/RlcAmTxCases.thy ===== *)
theory RlcAmTxCases
  imports RlcAmNew
begin

text \<open>
  The transmitting side in RLC acknowledged mode on inputs for which it does not do what it means to.
\<close>

section \<open>What the receiver reads from a segment\<close>

lemma bit_of_octet: "bit (of_nat n :: octet) k \<longleftrightarrow> k < 8 \<and> bit n k"
  by (simp add: bit_simps)

lemma so_octets:
  assumes "0 \<le> so" "so < 32768" and w_def: "w = (word_of_int so OR (if lsf then 0x8000 else 0) :: 16 word)"
  shows "uint (ucast w :: octet) + 256 * uint (ucast (drop_bit 8 w) AND 0x7F :: octet) = so" "bit (ucast (drop_bit 8 w) :: octet) 7 = lsf"
proof -
  define n where "n = nat so"
  have n: "so = int n" "n < 2 ^ 15" using assms(1,2) by (simp_all add: n_def nat_less_iff)
  have b: "bit w k \<longleftrightarrow> k < 16 \<and> (bit n k \<or> lsf \<and> k = 15)" for k
  proof -
    have "(0x8000 :: 16 word) = push_bit 15 1" by simp
    then have "bit (0x8000 :: 16 word) k \<longleftrightarrow> k = 15" by (simp only: bit_push_bit_iff bit_1_iff) auto
    then show ?thesis by (auto simp: w_def n(1) bit_or_iff bit_of_int_iff bit_of_nat_iff dest: bit_imp_le_length)
  qed
  have hi: "\<not> bit n k" if "15 \<le> k" for k
    using n(2) that power_increasing [OF that, of "2 :: nat"] by (simp add: bit_iff_odd)
  have "ucast w = (of_nat n :: octet)"
    by (rule bit_word_eqI) (auto simp: bit_of_octet bit_unsigned_iff b)
  then have low: "uint (ucast w :: octet) = int (n mod 256)" by (simp add: unsigned_of_nat take_bit_eq_mod of_nat_mod)
  have d: "n div 256 = drop_bit 8 n" by (simp add: drop_bit_eq_div)
  have "ucast (drop_bit 8 w) AND 0x7F = (of_nat (n div 256) :: octet)"
  proof (rule bit_word_eqI)
    fix k :: nat
    have "k < 8 \<Longrightarrow> k < 7 \<or> k = 7" by linarith
    then show "bit (ucast (drop_bit 8 w) AND 0x7F :: octet) k = bit (of_nat (n div 256) :: octet) k"
      unfolding masks_8 d bit_of_octet using hi [of 15] by (auto simp: bit_unsigned_iff bit_drop_bit_eq bit_and_iff bit_mask_iff b)
  qed
  moreover have "n div 256 < 256" using n(2) by simp
  ultimately have "uint (ucast (drop_bit 8 w) AND 0x7F :: octet) = int (n div 256)"
    by (simp add: unsigned_of_nat take_bit_eq_mod of_nat_mod)
  then show "uint (ucast w :: octet) + 256 * uint (ucast (drop_bit 8 w) AND 0x7F :: octet) = so"
    unfolding low n(1) by (metis mod_mult_div_eq of_nat_add of_nat_mult of_nat_numeral)
  show "bit (ucast (drop_bit 8 w) :: octet) 7 = lsf" using hi [of 15] by (simp add: bit_unsigned_iff bit_drop_bit_eq b)
qed

lemma segment_header_bits:
  assumes "0 \<le> sn" "sn < 1024" and b_def: "b = segment_header fi_start fi_end ext lsf sn so ! 0"
  shows "drop_bit 7 b \<noteq> 0" "bit b 6" "unat (drop_bit 3 b AND 0x03) = (if fi_start then 0 else 2) + (if fi_end then 0 else 1)" "bit b 2 = ext"
    "uint (segment_header fi_start fi_end ext lsf sn so ! 1) + 256 * uint (b AND 0x03) = sn"
proof -
  have "sn div 256 \<in> {0, 1, 2, 3}" using assms(1,2) by auto
  then have "drop_bit 7 b \<noteq> 0 \<and> bit b 6 \<and> unat (drop_bit 3 b AND 0x03) = (if fi_start then 0 else 2) + (if fi_end then 0 else 1) \<and> bit b 2 = ext \<and>
      uint (b AND 0x03) = sn div 256"
    by (cases fi_start; cases fi_end; cases ext) (auto simp: b_def segment_header_def Let_def)
  moreover have "uint (segment_header fi_start fi_end ext lsf sn so ! 1) = sn mod 256"
  proof -
    have "x AND 0xFF = x" for x :: octet unfolding masks_8 by (rule bit_word_eqI) (auto simp: bit_simps)
    then show ?thesis by (simp add: segment_header_def Let_def unsigned_of_int take_bit_eq_mod)
  qed
  ultimately show "drop_bit 7 b \<noteq> 0" "bit b 6" "unat (drop_bit 3 b AND 0x03) = (if fi_start then 0 else 2) + (if fi_end then 0 else 1)" "bit b 2 = ext"
    "uint (segment_header fi_start fi_end ext lsf sn so ! 1) + 256 * uint (b AND 0x03) = sn"
    by simp_all
qed

text \<open>A segment with one data field element.\<close>

lemma segment_infos:
  assumes "0 \<le> sn" "sn < 1024" "0 \<le> so" "so < 32768" "d \<noteq> []" "length d < 9000" "acc = [] \<longleftrightarrow> fi_start"
  shows "\<exists>c. rlc_am_get_data_pdu_infos (segment_header fi_start fi_end False lsf sn so @ d) = Some (0, c) \<and> rx_rf c \<and> rx_sn c = sn \<and> rx_so c = so \<and>
    rx_lsf c = lsf \<and> carries acc [d] fi_end c"
proof -
  define h where "h = segment_header fi_start fi_end False lsf sn so"
  note hb = segment_header_bits [OF assms(1,2) refl, of fi_start fi_end False lsf so, folded h_def]
  note ob = so_octets [OF assms(3,4) refl, of lsf]
  have l: "length h = 4" by (simp add: h_def segment_header_def Let_def)
  then have i: "(h @ d) ! 0 = h ! 0" "(h @ d) ! 1 = h ! 1" "(h @ d) ! 2 = h ! 2" "(h @ d) ! 3 = h ! 3" "\<not> length (h @ d) < 2" "\<not> length (h @ d) < 4"
      "drop 4 (h @ d) = d" "length (h @ d) = 4 + length d"
    by (simp_all add: nth_append)
  have so: "uint (h ! 3) + 256 * uint (h ! 2 AND 0x7F) = so" "bit (h ! 2) 7 = lsf"
    using ob by (simp_all add: h_def segment_header_def Let_def numeral_eq_Suc)
  have sz: "s16 (int (length d)) = int (length d)" using assms(6) by (subst s16_id) simp_all
  have "\<exists>c. rlc_am_get_data_pdu_infos (h @ d) = Some (0, c) \<and> rx_rf c \<and> rx_sn c = sn \<and> rx_so c = so \<and> rx_lsf c = lsf \<and> rx_payload c = d \<and>
      rx_payload_size c = int (length d) \<and> \<not> rx_e c \<and> rx_li_list c = [] \<and> rx_fi c = (if fi_start then 0 else 2) + (if fi_end then 0 else 1)"
    unfolding rlc_am_get_data_pdu_infos_def Let_def
    by (simp only: i hb so if_True if_False simp_thms rlc_am_rx_pdu.simps) (simp add: sz l)
  then show ?thesis using assms(5,7) by (auto simp: carries_def h_def)
qed

section \<open>Resegmentation\<close>

text \<open>A PDU with the two SDUs \<open>d1\<close> and \<open>d2\<close>, due as a whole.\<close>

definition two_sdus_due :: "bool \<Rightarrow> int \<Rightarrow> octet list \<Rightarrow> octet list \<Rightarrow> rlc_am_tx_pdu \<Rightarrow> bool" where
  "two_sdus_due poll sn d1 d2 p \<longleftrightarrow> (\<exists>T. tx_mem_block p = Some (am_pdu poll sn True True [d1, d2] @ T)) \<and> tx_payload p = 4 \<and>
     tx_payload_size p = int (length d1 + length d2) \<and> tx_header_and_payload_size p = 4 + int (length d1 + length d2) \<and>
     tx_retx_payload_size p = int (length d1 + length d2) \<and> tx_holes p = [] \<and> length (tx_sdus_index p) = 2 \<and> tx_sn p = sn"

lemma two_sdus_pdu:
  assumes "0 \<le> sn" "sn < 1024" "length d1 < 2048" and pdu_def: "pdu = am_pdu poll sn True True [d1, d2] @ T"
  shows "pdu ! 0 AND 0x10 = 0" "pdu ! 0 AND 0x08 = 0" "RLC_AM_PDU_GET_LI pdu 0 = Some (int (length d1))" "pdu \<noteq> []"
    "slice pdu 4 (length d1) = Some d1" "slice pdu (4 + length d1) (length d2) = Some d2"
proof -
  have p: "pdu = [polled poll (amd_header 0 True sn ! 0), amd_header 0 True sn ! 1, of_nat (length d1 div 16), push_bit 4 (of_nat (length d1))] @ d1 @ d2 @ T"
    by (simp add: pdu_def am_pdu_def Let_def)
  have "sn div 256 \<in> {0, 1, 2, 3}" using assms(1,2) by auto
  then have "pdu ! 0 AND 0x10 = 0 \<and> pdu ! 0 AND 0x08 = 0"
    by (cases poll) (auto simp: p polled_def amd_header_def)
  then show "pdu ! 0 AND 0x10 = 0" "pdu ! 0 AND 0x08 = 0" by simp_all
  show "pdu \<noteq> []" "slice pdu 4 (length d1) = Some d1" by (simp_all add: p slice_def)
  define h where "h = [polled poll (amd_header 0 True sn ! 0), amd_header 0 True sn ! 1, of_nat (length d1 div 16), push_bit 4 (of_nat (length d1))] @ d1"
  have h: "length h = 4 + length d1" "pdu = h @ d2 @ T" by (simp_all add: h_def p)
  have "slice (h @ d2 @ T) (length h) (length d2) = Some d2" by (simp add: slice_def)
  then show "slice pdu (4 + length d1) (length d2) = Some d2" by (simp only: h)
  have "unat (of_nat (length d1 div 16) :: octet) = length d1 div 16"
    using assms(3) by (simp add: unsigned_of_nat take_bit_eq_mod)
  moreover have "unat (push_bit 4 (of_nat (length d1)) :: octet) = 16 * (length d1 mod 16)"
  proof -
    have "(push_bit 4 (of_nat (length d1)) :: octet) = of_nat (16 * length d1)" by (simp add: push_bit_eq_mult mult.commute)
    moreover have "16 * length d1 mod (16 * 16) = 16 * (length d1 mod 16)" by (rule mult_mod_right [symmetric])
    ultimately show ?thesis by (simp add: unsigned_of_nat take_bit_eq_mod del: of_nat_mult)
  qed
  moreover have "(length d1 div 16 * 256 + 16 * (length d1 mod 16)) div 2 ^ 4 mod 2048 = length d1"
  proof -
    have "length d1 div 16 * 256 + 16 * (length d1 mod 16) = 16 * length d1" using div_mult_mod_eq [of "length d1" 16] by linarith
    then show ?thesis using assms(3) by simp
  qed
  ultimately show "RLC_AM_PDU_GET_LI pdu 0 = Some (int (length d1))"
    by (simp add: RLC_AM_PDU_GET_LI_def p)
qed

lemma first_segment:
  assumes "two_sdus_due poll sn d1 d2 p" "d1 \<noteq> []" "d2 \<noteq> []" "length d1 < 2048" "0 \<le> sn" "sn < 1024"
    and "\<forall>n. \<exists>block. alloc n = Some block \<and> n \<le> length block"
  shows "rlc_am_retransmit_get_am_segment alloc (4 + int (length d1)) p =
    Some (segment_header True False False False sn 0 @ d1, int (length d1),
      p\<lparr>tx_retx_hole_index := 0, tx_holes := [(int (length d1), int (length d1 + length d2) - 1)], tx_nack_so_start := int (length d1)\<rparr>)"
proof -
  obtain T where p: "tx_mem_block p = Some (am_pdu poll sn True True [d1, d2] @ T)" "tx_payload p = 4"
     "tx_payload_size p = int (length d1 + length d2)" "tx_header_and_payload_size p = 4 + int (length d1 + length d2)"
     "tx_retx_payload_size p = int (length d1 + length d2)" "tx_holes p = []" "length (tx_sdus_index p) = 2" "tx_sn p = sn"
    using assms(1) by (auto simp: two_sdus_due_def)
  define pdu where "pdu = am_pdu poll sn True True [d1, d2] @ T"
  note f = two_sdus_pdu [OF assms(5,6,4) pdu_def]
  let ?p1 = "p\<lparr>tx_retx_hole_index := 0, tx_holes := [(0, tx_payload_size p - 1)]\<rparr>"
  have pos: "0 < int (length d1)" "0 < int (length d2)" "0 < int (length d1) + int (length d2)"
    using length_greater_0_conv [THEN iffD2, OF assms(2)] length_greater_0_conv [THEN iffD2, OF assms(3)] by linarith+
  have e: "segment_elements ?p1 pdu 2 (4 + int (length d1)) 0 (int (length d1 + length d2) - 1) True = Some (True, [int (length d1)], int (length d1), 4)"
    using pos f(3) by (simp add: segment_elements_def RLC_AM_PDU_SEGMENT_HEADER_MIN_SIZE_def Let_def)
  obtain block where block: "alloc (nat (int (length d1) + 4)) = Some block" "nat (int (length d1) + 4) \<le> length block" using assms(7) by blast
  show ?thesis
    unfolding rlc_am_retransmit_get_am_segment_def p(1) pdu_def [symmetric]
    using p pos f block e
    by (simp add: s8_def Let_def advance_holes_def)
qed

lemma second_segment:
  assumes "two_sdus_due poll sn d1 d2 p" "d1 \<noteq> []" "d2 \<noteq> []" "length d1 < 2048" "0 \<le> sn" "sn < 1024"
    and "\<forall>n. \<exists>block. alloc n = Some block \<and> n \<le> length block" "4 + int (length d2) \<le> g"
  shows "\<exists>p'. rlc_am_retransmit_get_am_segment alloc g
      (p\<lparr>tx_retx_hole_index := 0, tx_holes := [(int (length d1), int (length d1 + length d2) - 1)], tx_nack_so_start := int (length d1), tx_retx_payload_size := int (length d2)\<rparr>) =
    Some (segment_header False True False True sn (int (length d1)) @ d2, int (length d2), p')"
proof -
  obtain T where p: "tx_mem_block p = Some (am_pdu poll sn True True [d1, d2] @ T)" "tx_payload p = 4"
     "tx_payload_size p = int (length d1 + length d2)" "tx_header_and_payload_size p = 4 + int (length d1 + length d2)"
     "tx_retx_payload_size p = int (length d1 + length d2)" "tx_holes p = []" "length (tx_sdus_index p) = 2" "tx_sn p = sn"
    using assms(1) by (auto simp: two_sdus_due_def)
  define pdu where "pdu = am_pdu poll sn True True [d1, d2] @ T"
  note f = two_sdus_pdu [OF assms(5,6,4) pdu_def]
  define p1 where "p1 = p\<lparr>tx_retx_hole_index := 0, tx_holes := [(int (length d1), int (length d1 + length d2) - 1)], tx_nack_so_start := int (length d1),
    tx_retx_payload_size := int (length d2)\<rparr>"
  have p1: "tx_mem_block p1 = Some pdu" "tx_payload p1 = 4" "tx_payload_size p1 = int (length d1 + length d2)"
     "tx_header_and_payload_size p1 = 4 + int (length d1 + length d2)" "tx_holes p1 = [(int (length d1), int (length d1 + length d2) - 1)]"
     "tx_retx_hole_index p1 = 0" "length (tx_sdus_index p1) = 2" "tx_sn p1 = sn"
    using p by (simp_all add: p1_def pdu_def)
  have pos: "0 < int (length d1)" "0 < int (length d2)" "0 < int (length d1) + int (length d2)"
    using length_greater_0_conv [THEN iffD2, OF assms(2)] length_greater_0_conv [THEN iffD2, OF assms(3)] by linarith+
  have g: "4 < g" using pos assms(8) by linarith
  have e: "segment_elements p1 pdu 2 g (int (length d1)) (int (length d1 + length d2) - 1) True = Some (False, [int (length d2)], int (length d2), 4)"
    using pos f(3) p1(3) assms(8) g by (simp add: segment_elements_def element_size_def RLC_AM_PDU_SEGMENT_HEADER_MIN_SIZE_def Let_def)
  obtain block where block: "alloc (nat (int (length d2) + 4)) = Some block" "nat (int (length d2) + 4) \<le> length block" using assms(7) by blast
  have n: "nat (4 + int (length d1)) = 4 + length d1" by simp
  show ?thesis
    unfolding p1_def [symmetric] rlc_am_retransmit_get_am_segment_def p1(1)
    using p1 pos f block e n by (simp add: s8_def Let_def)
qed

text \<open>
  C39. Resegmentation merges SDUs. A PDU with two complete SDUs is received as two SDUs. When it is due as a whole and a grant ends its first segment at the
  boundary of the SDUs, and the next one has room for the second SDU, \<open>rlc_am_retransmit_get_am_segment\<close> neither says in the first segment that it ends an SDU nor in
  the second that it begins one (\<open>fi_end\<close> is compared with all elements but the last, \<open>fi_start\<close> is taken behind the element that ends there). The receiver
  reads the two segments as the beginning and the end of one SDU, and its reassembly joins them.
\<close>

theorem am_resegmentation_merges_sdus:
  assumes p: "two_sdus_due poll sn d1 d2 p" and sdus: "d1 \<noteq> []" "d2 \<noteq> []" "length d1 < 2048" "length d1 + length d2 < 8990" and sn: "0 \<le> sn" "sn < 1024"
    and al: "\<forall>n. \<exists>block. alloc n = Some block \<and> n \<le> length block" and g: "4 + int (length d2) \<le> g"
    and e: "am_holds [] e" "blocks_available ralloc"
  shows "(\<exists>c e'. rlc_am_get_data_pdu_infos (am_pdu poll sn True True [d1, d2]) = Some (0, c) \<and> rlc_am_reassemble_pdu ralloc c e = Some e' \<and>
      am_delivered e' = am_delivered e @ [d1, d2]) \<and>
    (\<exists>s1 p1 s2 p2 c1 c2 e1 e2. rlc_am_retransmit_get_am_segment alloc (4 + int (length d1)) p = Some (s1, int (length d1), p1) \<and>
      rlc_am_retransmit_get_am_segment alloc g (p1\<lparr>tx_retx_payload_size := tx_retx_payload_size p1 - int (length d1)\<rparr>) = Some (s2, int (length d2), p2) \<and>
      rlc_am_get_data_pdu_infos s1 = Some (0, c1) \<and> rx_rf c1 \<and> rx_sn c1 = sn \<and> rx_so c1 = 0 \<and> \<not> rx_lsf c1 \<and>
      rlc_am_get_data_pdu_infos s2 = Some (0, c2) \<and> rx_rf c2 \<and> rx_sn c2 = sn \<and> rx_so c2 = int (length d1) \<and> rx_lsf c2 \<and>
      rlc_am_reassemble_pdu ralloc c1 e = Some e1 \<and> rlc_am_reassemble_pdu ralloc c2 e1 = Some e2 \<and> am_delivered e2 = am_delivered e @ [d1 @ d2])"
proof (rule conjI)
  have l: "length (am_pdu poll sn ([] = ([] :: octet list)) True [d1, d2]) < 9000" using sdus(4) by (simp add: am_pdu_def Let_def)
  obtain c where c: "rlc_am_get_data_pdu_infos (am_pdu poll sn True True [d1, d2]) = Some (0, c)" "carries [] [d1, d2] True c"
    using am_pdu_infos [of "[d1, d2]" sn poll "[]" True, OF _ _ _ _ sn l] sdus(1-3) by auto
  have "sizes_ok (absorb [] [d1, d2] True)" using sdus(4) by (simp add: sizes_ok_def RLC_SDU_MAX_SIZE_def)
  from reassemble_pdu_holds [OF e c(2) this]
  show "\<exists>c e'. rlc_am_get_data_pdu_infos (am_pdu poll sn True True [d1, d2]) = Some (0, c) \<and> rlc_am_reassemble_pdu ralloc c e = Some e' \<and>
      am_delivered e' = am_delivered e @ [d1, d2]"
    using c(1) by auto
next
  define p1 where "p1 = p\<lparr>tx_retx_hole_index := 0, tx_holes := [(int (length d1), int (length d1 + length d2) - 1)], tx_nack_so_start := int (length d1)\<rparr>"
  note s1 = first_segment [OF p sdus(1-3) sn al, folded p1_def]
  have left: "p1\<lparr>tx_retx_payload_size := tx_retx_payload_size p1 - int (length d1)\<rparr> =
      p\<lparr>tx_retx_hole_index := 0, tx_holes := [(int (length d1), int (length d1 + length d2) - 1)], tx_nack_so_start := int (length d1), tx_retx_payload_size := int (length d2)\<rparr>"
    using p by (simp add: p1_def two_sdus_due_def)
  obtain p2 where s2: "rlc_am_retransmit_get_am_segment alloc g (p1\<lparr>tx_retx_payload_size := tx_retx_payload_size p1 - int (length d1)\<rparr>) =
      Some (segment_header False True False True sn (int (length d1)) @ d2, int (length d2), p2)"
    unfolding left using second_segment [OF p sdus(1-3) sn al g] by blast
  obtain c1 where c1: "rlc_am_get_data_pdu_infos (segment_header True False False False sn 0 @ d1) = Some (0, c1)" "rx_rf c1" "rx_sn c1 = sn" "rx_so c1 = 0" "\<not> rx_lsf c1"
      "carries [] [d1] False c1"
    using segment_infos [OF sn _ _ sdus(1), of 0 "[]" True False False] sdus(3) by auto
  obtain c2 where c2: "rlc_am_get_data_pdu_infos (segment_header False True False True sn (int (length d1)) @ d2) = Some (0, c2)" "rx_rf c2" "rx_sn c2 = sn"
      "rx_so c2 = int (length d1)" "rx_lsf c2" "carries d1 [d2] True c2"
    using segment_infos [OF sn _ _ sdus(2), of "int (length d1)" d1 False True True] sdus(1,3,4) by auto
  have sz: "sizes_ok (absorb [] [d1] False)" "sizes_ok (absorb d1 [d2] True)" using sdus(3,4) by (simp_all add: sizes_ok_def RLC_SDU_MAX_SIZE_def)
  obtain e1 where e1: "rlc_am_reassemble_pdu ralloc c1 e = Some e1" "am_holds d1 e1" "am_delivered e1 = am_delivered e"
    using reassemble_pdu_holds [OF e c1(6) sz(1)] by auto
  obtain e2 where "rlc_am_reassemble_pdu ralloc c2 e1 = Some e2" "am_delivered e2 = am_delivered e @ [d1 @ d2]"
    using reassemble_pdu_holds [OF e1(2) e(2) c2(6) sz(2)] e1(3) by auto
  then show "\<exists>s1 p1 s2 p2 c1 c2 e1 e2. rlc_am_retransmit_get_am_segment alloc (4 + int (length d1)) p = Some (s1, int (length d1), p1) \<and>
      rlc_am_retransmit_get_am_segment alloc g (p1\<lparr>tx_retx_payload_size := tx_retx_payload_size p1 - int (length d1)\<rparr>) = Some (s2, int (length d2), p2) \<and>
      rlc_am_get_data_pdu_infos s1 = Some (0, c1) \<and> rx_rf c1 \<and> rx_sn c1 = sn \<and> rx_so c1 = 0 \<and> \<not> rx_lsf c1 \<and>
      rlc_am_get_data_pdu_infos s2 = Some (0, c2) \<and> rx_rf c2 \<and> rx_sn c2 = sn \<and> rx_so c2 = int (length d1) \<and> rx_lsf c2 \<and>
      rlc_am_reassemble_pdu ralloc c1 e = Some e1 \<and> rlc_am_reassemble_pdu ralloc c2 e1 = Some e2 \<and> am_delivered e2 = am_delivered e @ [d1 @ d2]"
    using s1 s2 c1(1-5) c2(1-5) e1(1) by blast
qed

text \<open>PDU 0 with the SDUs A0 A1 and B0 B1 B2.\<close>

definition two_sdus :: rlc_am_tx_pdu where
  "two_sdus = am_no_pdu\<lparr>tx_mem_block := Some [0x84, 0x00, 0x00, 0x20, 0xA0, 0xA1, 0xB0, 0xB1, 0xB2], tx_sdus_index := [0, 1], tx_payload := 4,
     tx_header_and_payload_size := 9, tx_payload_size := 5, tx_retx_payload_size := 5, tx_transmitted := True, tx_retransmit := True, tx_nack := True\<rparr>"

lemma two_sdus_ok: "two_sdus_due False 0 [0xA0, 0xA1] [0xB0, 0xB1, 0xB2] two_sdus"
  by (simp add: two_sdus_due_def two_sdus_def am_no_pdu_def am_pdu_def amd_header_def polled_def Let_def)

theorem am_resegmentation_merges_sdus_witness:
  "\<exists>s1 p1 s2 p2 c1 c2 e1 e2. rlc_am_retransmit_get_am_segment (\<lambda>n. Some (replicate n 7)) 6 two_sdus = Some (s1, 2, p1) \<and>
     rlc_am_retransmit_get_am_segment (\<lambda>n. Some (replicate n 7)) 9 (p1\<lparr>tx_retx_payload_size := tx_retx_payload_size p1 - 2\<rparr>) = Some (s2, 3, p2) \<and>
     rlc_am_get_data_pdu_infos s1 = Some (0, c1) \<and> rx_so c1 = 0 \<and> rlc_am_get_data_pdu_infos s2 = Some (0, c2) \<and> rx_so c2 = 2 \<and>
     rlc_am_reassemble_pdu (\<lambda>n. Some (0, replicate n 0)) c1 rlc_am_init = Some e1 \<and> rlc_am_reassemble_pdu (\<lambda>n. Some (0, replicate n 0)) c2 e1 = Some e2 \<and>
     am_delivered e2 = [[0xA0, 0xA1, 0xB0, 0xB1, 0xB2]]"
proof -
  have e: "am_holds [] rlc_am_init" "blocks_available (\<lambda>n. Some (0, replicate n 0))" "am_delivered rlc_am_init = []"
    by (simp_all add: am_holds_def rlc_am_init_def blocks_available_def)
  show ?thesis
    using am_resegmentation_merges_sdus [OF two_sdus_ok _ _ _ _ _ _ _ _ e(1,2), of "\<lambda>n. Some (replicate n 7)" 9] unfolding e(3) by simp blast
qed

text \<open>The same two segments, and for comparison two that are cut within an SDU, given to the receiver.\<close>

definition two_segments :: "int \<Rightarrow> int \<Rightarrow> (octet list \<times> octet list) option" where
  "two_segments g1 g2 = do {
     (s1, n1, p1) \<leftarrow> rlc_am_retransmit_get_am_segment (\<lambda>n. Some (replicate n 7)) g1 two_sdus;
     (s2, n2, p2) \<leftarrow> rlc_am_retransmit_get_am_segment (\<lambda>n. Some (replicate n 7)) g2 (p1\<lparr>tx_retx_payload_size := tx_retx_payload_size p1 - n1\<rparr>);
     Some (s1, s2) }"

fun receive_all :: "octet list list \<Rightarrow> rlc_am_rx_entity \<Rightarrow> rlc_am_rx_entity option" where
  "receive_all [] e = Some e"
| "receive_all (pdu # pdus) e = Option.bind (rlc_am_receive_process_data_pdu (\<lambda>n. Some (0, replicate 16 0)) 0 pdu e) (receive_all pdus)"

lemma resegmentation_at_boundary:
  "map_option (\<lambda>(s1, s2). map_option am_delivered (receive_all [s1, s2] rlc_am_init)) (two_segments 6 9) = Some (Some [[0xA0, 0xA1, 0xB0, 0xB1, 0xB2]])"
  by code_simp

lemma resegmentation_within_sdu:
  "map_option (\<lambda>(s1, s2). map_option am_delivered (receive_all [s1, s2] rlc_am_init)) (two_segments 5 20) = Some (Some [[0xA0, 0xA1], [0xB0, 0xB1, 0xB2]])"
  by code_simp

section \<open>Acknowledgements and NACKs\<close>

text \<open>A NACK for a segment does not ask whether the PDU has been acknowledged, unlike one for the whole PDU. The next acknowledgement of the PDU aborts.\<close>

lemma nack_of_acked_aborts:
  assumes "length (tx_data_pdu_buffer e) = 512" "tx_mem_block (tx_pdu e sn) \<noteq> None" "tx_ack (tx_pdu e sn)" "\<not> tx_max_retransmit (tx_pdu e sn)" "\<not> tx_retransmit (tx_pdu e sn)"
    and "0 < s" "s \<le> t" "t < tx_payload_size (tx_pdu e sn)" "tx_payload_size (tx_pdu e sn) \<le> 0x7FFF" "prev \<noteq> sn"
  shows "\<exists>e'. rlc_am_nack_pdu sn prev s t e = Some (True, e') \<and> rlc_am_ack_pdu sn free_pdu e' = None"
proof -
  have "tx_index sn < 512" by (simp add: RLC_AM_WINDOW_SIZE_def nat_less_iff)
  then show ?thesis using assms by (auto simp: rlc_am_nack_pdu_def nack_segment_def rlc_am_ack_pdu_def Let_def)
qed

text \<open>An SDU that has been cut 31 times cannot be cut again: the assertion on \<open>nb_pdus\<close> fails although the array has room for one more entry.\<close>

lemma fragments_abort:
  assumes "0 < am_sdu_buffer_occupancy e" "am_sdu_block (am_input_sdus e ! am_current_sdu_index e) \<noteq> None" "0 < nb_bytes"
    and "length (am_sdu_pdus_index (am_input_sdus e ! am_current_sdu_index e)) = 31" "alloc (nat (am_data_pdu_size nb_bytes e)) = Some block"
  shows "rlc_am_segment_10 alloc now nb_bytes e = None"
  using assms by (auto simp: rlc_am_segment_10_def am_test_fill.simps RLC_AM_MAX_SDU_FRAGMENTS_def Let_def split: Option.bind_splits)

section \<open>Configuration\<close>

text \<open>
  \<open>poll_byteP\<close> has 16 bits: of 75000 octets 9464 are left, and infinity becomes 65535, so that the count of octets goes on and polls.
\<close>

lemma poll_byte_truncated:
  "poll_byte (rlc_am_configure_tx configured n pdu (ucast (pollByte_tab ! 2)) duration e) = 9464"
  "poll_byte (rlc_am_configure_tx configured n pdu (ucast RLC_AM_POLL_BYTE_INFINITE) duration e) \<noteq> RLC_AM_POLL_BYTE_INFINITE"
  by (simp_all add: rlc_am_configure_tx_def pollByte_tab_def RLC_AM_POLL_BYTE_INFINITE_def rlc_am_init_timer_poll_retransmit_def Let_def)

text \<open>Re-establishment keeps the transmission buffer, the retransmission counters and t-PollRetransmit.\<close>

lemma reestablish_keeps_buffers:
  "tx_data_pdu_buffer (rlc_am_reestablish_tx e) = tx_data_pdu_buffer e" "retrans_num_pdus (rlc_am_reestablish_tx e) = retrans_num_pdus e"
  "am_input_sdus (rlc_am_reestablish_tx e) = am_input_sdus e" "am_t_poll_retransmit (rlc_am_reestablish_tx e) = am_t_poll_retransmit e"
  by (simp_all add: rlc_am_reestablish_tx_def)

end
