(* ===== verification/Spec2Isabelle.thy ===== *)
theory Spec2Isabelle
  imports Prelude Hashtable MemList MemPool Snow3g Osa OsaSpec Pdcp PdcpData RlcUm RlcUmRx RlcUmRef RlcUmTx RlcUmSeg RlcUmLink RlcAm RlcAmStatus RlcAmReport RlcAmRx RlcAmSeq RlcAmHistory RlcAmSegments RlcAmTx RlcAmBuild RlcAmArq RlcAmExchange RlcAmRetx RlcAmNew RlcAmTxCases
begin

text \<open>
  A verification library for layer 2 of the OpenAirInterface LTE stack: the containers and the block allocator it is built on,
  the security algorithms, PDCP, and RLC in unacknowledged and acknowledged mode. Paths are relative to \<open>src/\<close>.

  \<^bold>\<open>The program.\<close> An SDU enters a radio bearer at \<open>pdcp_data_req\<close>, which numbers, protects and ciphers it and gives the PDU to
  \<open>rlc_data_req\<close>. RLC queues it as an SDU of its own, cuts and joins SDUs to the size that the MAC grants
  (\<open>rlc_um_mac_data_request\<close>), and on the other side reorders and reassembles (\<open>rlc_um_mac_data_indication\<close>); the SDUs go up to
  \<open>pdcp_data_ind\<close>. In acknowledged mode the receiver reports what is missing in STATUS PDUs, and the transmitter keeps its
  PDUs, sends them again, whole or in segments, and polls for reports. Entities are found in hash tables, PDUs
  live in blocks of a pool and are chained through the headers of the blocks.

  \<^bold>\<open>Theories and sources.\<close>
  \<^item> \<open>Prelude\<close>: C conversions and remainders, octets, and lemmas that the components share.
  \<^item> \<open>Hashtable\<close>: \<open>common/utils/hashtable/hashtable.c\<close>. The table is a record with the chains of its buckets and a log of the
    values passed to \<open>freefunc\<close>. The locale \<open>assoc_table\<close> states what a client relies on; its interpretation \<open>ht\<close> discharges it.
  \<^item> \<open>MemList\<close>: \<open>openair2/UTIL/LISTS/list.c\<close> and \<open>list2.c\<close> on an explicit store of block headers. The locale \<open>block_queue\<close> is
    interpreted for both lists (\<open>lq\<close>, \<open>l2q\<close>).
  \<^item> \<open>MemPool\<close>: \<open>openair2/UTIL/MEM/mem_block.c\<close> over these lists, with \<open>freed_queue\<close> extending \<open>block_queue\<close>; the reachable states of
    the allocator are an inductive predicate.
  \<^item> \<open>Snow3g\<close>, \<open>Osa\<close>: \<open>openair2/UTIL/OSA\<close>: SNOW 3G with its tables, 128-EEA0/1/2, 128-EIA0/1/2 and their dispatchers.
    \<open>OsaSpec\<close> states UEA2, UIA2 and the arithmetic of polynomials without the definitions of the code, on bits and natural numbers, and proves that the code
    computes them.
  \<^item> \<open>Pdcp\<close>, \<open>PdcpData\<close>: \<open>openair2/LAYER2/PDCP_v10.1.0\<close>: sequence numbers, headers, security, configuration and the two data handlers.
  \<^item> \<open>RlcUm\<close>, \<open>RlcUmRx\<close>, \<open>RlcUmTx\<close>: \<open>openair2/LAYER2/RLC/UM_v9.3.0\<close>: the entity with its configuration and states, the receiver and
    the transmitter. \<open>RlcUmRef\<close> holds the reference receiver of 36.322 on unbounded counters and the refinement proofs,
    \<open>RlcUmSeg\<close> the layout of the PDUs that segmentation produces, \<open>RlcUmLink\<close> two entities connected by a channel, with the locales
    \<open>umd_header\<close> and \<open>um_transmitter\<close> interpreted for both sequence number lengths (\<open>umd_5\<close>, \<open>umd_10\<close>, \<open>tx_5\<close>, \<open>tx_10\<close>).
  \<^item> \<open>RlcAm\<close>: \<open>openair2/LAYER2/RLC/AM_v9.3.0\<close>: constants, the receiving side of the entity with its timers, initialisation.
  \<^item> \<open>RlcAmStatus\<close>, \<open>RlcAmReport\<close>: \<open>rlc_am_status_report.c\<close>: the bit fields and the encoding of a STATUS PDU, and its construction from
    the receiver buffer.
  \<^item> \<open>RlcAmRx\<close>: \<open>rlc_am_receiver.c\<close>, \<open>rlc_am_rx_list.c\<close>, \<open>rlc_am_reassembly.c\<close>, \<open>rlc_am_timer_reordering.c\<close>: reception of a data PDU and the expiry
    of t-Reordering. \<open>RlcAmSeq\<close> has the invariant of a stream of PDUs, \<open>RlcAmHistory\<close> histories of receptions and expiries and the report that follows
    them, \<open>RlcAmSegments\<close> what happens to overlapping segments.
  \<^item> \<open>RlcAmTx\<close>: \<open>rlc_am_in_sdu.c\<close>, the transmission buffer of \<open>rlc_am_segment.c\<close> and the half of \<open>rlc_am_retransmit.c\<close> that accounts for
    acknowledgements and the holes of a PDU. \<open>RlcAmBuild\<close>: how \<open>rlc_am_segment_10\<close> builds new PDUs and how the retransmission buffer is sent
    again, resegmented where the grant is too small. \<open>RlcAmArq\<close>: the reading of a STATUS PDU, polling and the timer t-PollRetransmit.
  \<^item> \<open>RlcAmExchange\<close> joins the transmitter with the report of \<open>RlcAmHistory\<close>, \<open>RlcAmRetx\<close> is about retransmission and polling,
    \<open>RlcAmNew\<close> about new PDUs: the ring of SDUs as a queue, the octets of a PDU and what the receiver reads from them (the loops are simulated by those of
    unacknowledged mode, whose layout in \<open>RlcUmSeg\<close> carries over),
    \<open>RlcAmTxCases\<close> about the inputs on which the transmitter departs from the protocol.

  \<^bold>\<open>Conventions.\<close> A definition has the name of the C function or, for a loop or a branch of it, a name of its own. The state that a
  function changes is a record that it returns. An \<open>option\<close> result is \<^term>\<open>None\<close> where the program does not survive: a NULL
  dereference, an access outside an array, a failed assertion. Machine integers are words where they may wrap, integers where
  they stay within their range; the theories say which. Traces, measurements and statistics that nothing reads are left out unless a
  record lists them.

  \<^bold>\<open>Parameters.\<close> AES counter mode (nettle) and AES-CMAC (OpenSSL) are functions; what is used of the former is that it is an exclusive
  or with a key stream. \<open>malloc\<close> and the allocator are functions from sizes to blocks wherever \<open>MemPool\<close> is not the subject, with
  arbitrary contents. The status of \<open>rlc_data_req\<close> is an argument of the PDCP handlers.

  \<^bold>\<open>What is shown.\<close>
  \<^item> Containers: histories of insertions and removals implement a finite map; each value is freed once; lists are FIFO queues.
  \<^item> Allocator: free lists and blocks handed out partition the array in every reachable state; blocks are large enough and disjoint.
  \<^item> Security: 128-EEA1 adds the key stream bits of UEA2 to the bits of the message; \<open>OSA_MUL64\<close> is the product of polynomials modulo the polynomial of its
    argument; 128-EIA1 gives the MAC of UIA2, and the check accepts that MAC and no other. 128-EEA2 and 128-EIA2 rest on AES, which is a parameter.
  \<^item> PDCP: numbering, uniqueness of COUNT, headers read back, and delivery over a channel with losses for signalling bearers and data bearers over
    unacknowledged mode with 12-bit numbers; with 7-bit numbers SDUs are corrupted.
  \<^item> RLC UM: the receiver refines the reference for PDUs in any order; an expired timer skips what the reference skips; two entities
    deliver what was submitted, in order and unchanged, and all of it after enough grants. With 10-bit numbers this leaves out grants that end one or two octets
    behind an SDU that others follow, for which the code sends octets of no SDU.
  \<^item> RLC AM: unsegmented PDUs in any order and repeated are delivered in sequence and once, whenever t-Reordering expires; a STATUS PDU is
    read back as it was written, acknowledges only octets that were received, also when the grant cuts it short, and matches the history of
    receptions before it. Overlapping segments are where the code fails.
  \<^item> RLC AM, transmitting: a grant gives one PDU within its size, from which the receiver reads the SDUs of the queue in order, unless the grant ends
    one or two octets behind an SDU; after a report of the peer's receiver, the window of the transmitter starts where that of the receiver does and
    its buffer holds the PDUs that are missing; retransmission ends, and sends each PDU that was asked for, when the grants have room for whole PDUs; an expired t-PollRetransmit makes a PDU
    available. SDUs are never confirmed to the upper layer, and resegmentation can merge two SDUs.
  \<^item> Where the code departs from its purpose a theorem states what it does on the input concerned.

  \<^bold>\<open>Loops.\<close> Most recurse on their data or come with a termination proof. Loops over sequence numbers carry a count of rounds: in
  \<open>RlcUmRx\<close> the modulus of the sequence numbers, in \<open>RlcAmReport\<close> the length of the receiver buffer, of which each
  round consumes an element, in \<open>RlcAmArq\<close> 1025 for the search of a PDU to poll with, which goes once around the 1024 sequence numbers, in
  \<open>RlcAmBuild\<close> 127, the bound that the code itself puts on the SDUs of a PDU. The loops over a STATUS PDU and over the retransmissions have
  termination proofs. The theorems state results (\<^term>\<open>Some\<close>), so that these counts are shown to be enough.

  \<^bold>\<open>Not modelled.\<close> The service functions of \<open>rlc_am.c\<close>, RLC TM and the dispatch in \<open>rlc.c\<close>, which move blocks between entities and the MAC.
  The MAC and the physical layer work on large structures of fixed-point data. RRC, S1AP and NAS are
  handlers over ASN.1 types that the build generates. Threads, sockets, tracing and the main programs have no protocol logic.
\<close>

end
